(* ===== verification/Prelude.thy ===== *)
theory Prelude
  imports Main "HOL-Library.Word"
begin

text \<open>
  What the component theories share: bytes, C results that may fault, \<open>memcmp\<close>, machine
  integer conversions, and lemmas on lists that several components use.

  A C function that can crash, abort or run into undefined behaviour returns a value of
  \<open>'a res\<close>: \<open>Inl f\<close> for the fault \<open>f\<close>, \<open>Inr x\<close> for a normal return of \<open>x\<close>. A function that
  only reports an error through its return value (0, -1, NULL, false) returns that value.
\<close>

section \<open>Named theorem collections\<close>

named_theorems res_simps \<open>evaluation rules for results that may fault\<close>
named_theorems layout_simps \<open>lengths of the byte strings the program builds\<close>

section \<open>Bytes and characters\<close>

type_synonym byte = "8 word"

definition ascii :: "string \<Rightarrow> byte list" where
  "ascii s = map of_char s"

lemma ascii_Nil [simp]: "ascii [] = []"
  by (simp add: ascii_def)

lemma ascii_Cons [simp]: "ascii (c # cs) = of_char c # ascii cs"
  by (simp add: ascii_def)

lemma length_ascii [simp]: "length (ascii s) = length s"
  by (simp add: ascii_def)

lemma ascii_eq_Nil [simp]: "ascii s = [] \<longleftrightarrow> s = []"
  by (simp add: ascii_def)

text \<open>The characters the programs compare with, as byte values.\<close>

abbreviation ch_minus :: byte where "ch_minus \<equiv> 45"
abbreviation ch_dot :: byte where "ch_dot \<equiv> 46"
abbreviation ch_zero :: byte where "ch_zero \<equiv> 48"
abbreviation ch_colon :: byte where "ch_colon \<equiv> 58"
abbreviation ch_semi :: byte where "ch_semi \<equiv> 59"
abbreviation ch_equals :: byte where "ch_equals \<equiv> 61"
abbreviation ch_d :: byte where "ch_d \<equiv> 100"
abbreviation ch_e :: byte where "ch_e \<equiv> 101"
abbreviation ch_i :: byte where "ch_i \<equiv> 105"
abbreviation ch_l :: byte where "ch_l \<equiv> 108"

definition is_digit :: "byte \<Rightarrow> bool" where
  "is_digit c \<longleftrightarrow> 48 \<le> c \<and> c \<le> 57"

lemma not_digit [simp]:
  "\<not> is_digit ch_minus" "\<not> is_digit ch_colon" "\<not> is_digit ch_d" "\<not> is_digit ch_e"
  "\<not> is_digit ch_i" "\<not> is_digit ch_l" "\<not> is_digit 0"
  by (simp_all add: is_digit_def)

definition digit_val :: "byte \<Rightarrow> nat" where
  "digit_val c = unat c - 48"

lemma unat_byte_less: "unat (x :: byte) < 256"
  using unsigned_less [of x, where ?'a = nat] by simp

lemma unat_byte_le: "unat (x :: byte) \<le> 255"
  using unat_byte_less [of x] by simp

definition digit_byte :: "nat \<Rightarrow> byte" where
  "digit_byte n = 48 + of_nat (n mod 10)"

lemma unat_digit_byte: "unat (digit_byte n) = 48 + n mod 10"
proof -
  have "n mod 10 < 10" by simp
  then have "48 + n mod 10 < 256" by linarith
  then show ?thesis
    by (simp add: digit_byte_def unat_word_ariths unat_of_nat)
qed

lemma is_digit_digit_byte [simp]: "is_digit (digit_byte n)"
proof -
  have "n mod 10 < 10" by simp
  then show ?thesis
    by (simp add: is_digit_def word_le_nat_alt unat_digit_byte)
qed

lemma digit_val_digit_byte [simp]: "digit_val (digit_byte n) = n mod 10"
  by (simp add: digit_val_def unat_digit_byte)

lemma is_digit_bounds: "is_digit c \<Longrightarrow> 48 \<le> unat c \<and> unat c \<le> 57"
  by (simp add: is_digit_def word_le_nat_alt)

lemma digit_val_less: "is_digit c \<Longrightarrow> digit_val c < 10"
  using is_digit_bounds [of c] unfolding digit_val_def by linarith

section \<open>Results that may fault\<close>

datatype fault =
    Null_Deref        \<comment> \<open>a null pointer is dereferenced\<close>
  | Out_Of_Bounds     \<comment> \<open>memory outside an allocation is read or written\<close>
  | Uninitialised     \<comment> \<open>a value that was never written is used\<close>
  | Type_Confusion    \<comment> \<open>a union is read through the wrong member\<close>
  | Signed_Overflow   \<comment> \<open>a signed integer operation overflows\<close>
  | Assert_Fail       \<comment> \<open>an assertion fails\<close>
  | Aborted           \<comment> \<open>\<open>abort()\<close> is called\<close>
  | Lib_Fault         \<comment> \<open>a library function is called outside its contract\<close>
  | No_Return         \<comment> \<open>the fuel of the model runs out\<close>

type_synonym 'a res = "fault + 'a"

definition rbind :: "'a res \<Rightarrow> ('a \<Rightarrow> 'b res) \<Rightarrow> 'b res" where
  "rbind m f = (case m of Inl e \<Rightarrow> Inl e | Inr x \<Rightarrow> f x)"

lemma rbind_Inl [simp, res_simps]: "rbind (Inl e) f = Inl e"
  by (simp add: rbind_def)

lemma rbind_Inr [simp, res_simps]: "rbind (Inr x) f = f x"
  by (simp add: rbind_def)

lemma rbind_cong [fundef_cong]:
  "m = m' \<Longrightarrow> (\<And>x. m' = Inr x \<Longrightarrow> f x = f' x) \<Longrightarrow> rbind m f = rbind m' f'"
  by (cases m') simp_all

text \<open>For evaluation: the continuation is not simplified before the result is known.\<close>

lemma rbind_weak_cong: "m = m' \<Longrightarrow> rbind m f = rbind m' f"
  by simp

lemma rbind_eq_Inr: "rbind m f = Inr y \<longleftrightarrow> (\<exists>x. m = Inr x \<and> f x = Inr y)"
  by (cases m) simp_all

lemma rbind_eq_Inl: "rbind m f = Inl e \<longleftrightarrow> m = Inl e \<or> (\<exists>x. m = Inr x \<and> f x = Inl e)"
  by (cases m) simp_all

lemma rbind_split:
  "P (rbind m f) \<longleftrightarrow> (\<forall>e. m = Inl e \<longrightarrow> P (Inl e)) \<and> (\<forall>x. m = Inr x \<longrightarrow> P (f x))"
  by (cases m) simp_all

lemma rbind_InrE:
  assumes "rbind m f = Inr y"
  obtains x where "m = Inr x" "f x = Inr y"
  using assms by (auto simp: rbind_eq_Inr)

definition rassert :: "bool \<Rightarrow> unit res" where
  "rassert b = (if b then Inr () else Inl Assert_Fail)"

lemma rassert_True [simp, res_simps]: "rassert True = Inr ()"
  by (simp add: rassert_def)

lemma rassert_False [simp, res_simps]: "rassert False = Inl Assert_Fail"
  by (simp add: rassert_def)

lemma rassert_eq_Inr [simp]: "rassert b = Inr u \<longleftrightarrow> b"
  by (simp add: rassert_def)

section \<open>Machine integers\<close>

text \<open>
  A signed 64-bit operation whose result does not fit is undefined behaviour; an
  assignment to a 32-bit \<open>int\<close> keeps the low 32 bits, as every supported compiler does.
\<close>

definition chk64 :: "int \<Rightarrow> int res" where
  "chk64 i = (if - (2 ^ 63) \<le> i \<and> i < 2 ^ 63 then Inr i else Inl Signed_Overflow)"

lemma chk64_fits [simp]: "- (2 ^ 63) \<le> i \<Longrightarrow> i < 2 ^ 63 \<Longrightarrow> chk64 i = Inr i"
  by (simp add: chk64_def)

lemma chk64_eq_Inr: "chk64 i = Inr j \<longleftrightarrow> j = i \<and> - (2 ^ 63) \<le> i \<and> i < 2 ^ 63"
  by (auto simp: chk64_def)

lemma chk64_eq_Inl: "chk64 i = Inl e \<longleftrightarrow> e = Signed_Overflow \<and> \<not> (- (2 ^ 63) \<le> i \<and> i < 2 ^ 63)"
  by (auto simp: chk64_def)

definition to_int32 :: "int \<Rightarrow> int" where
  "to_int32 i = signed_take_bit 31 i"

lemma to_int32_fits: "- (2 ^ 31) \<le> i \<Longrightarrow> i < 2 ^ 31 \<Longrightarrow> to_int32 i = i"
  unfolding to_int32_def by (rule signed_take_bit_int_eq_self) simp_all

section \<open>memcmp\<close>

text \<open>
  \<open>memcmp\<close> over byte arrays of the same length: only the sign of its result is specified,
  and only the sign is used. It compares as unsigned bytes, from the first on.
\<close>

fun memcmp :: "byte list \<Rightarrow> byte list \<Rightarrow> int" where
  "memcmp (x # xs) (y # ys) = (if x < y then -1 else if y < x then 1 else memcmp xs ys)"
| "memcmp _ _ = 0"

lemma memcmp_eq_0: "length xs = length ys \<Longrightarrow> memcmp xs ys = 0 \<longleftrightarrow> xs = ys"
  by (induction xs ys rule: memcmp.induct) auto

lemma memcmp_refl [simp]: "memcmp xs xs = 0"
  by (induction xs) auto

lemma memcmp_swap: "length xs = length ys \<Longrightarrow> memcmp ys xs = - memcmp xs ys"
  by (induction xs ys rule: memcmp.induct) auto

section \<open>Byte strings as numbers\<close>

text \<open>The big-endian value of a byte string: the abstract view of an identifier.\<close>

fun be_val :: "byte list \<Rightarrow> nat" where
  "be_val [] = 0"
| "be_val (x # xs) = unat x * 256 ^ length xs + be_val xs"

lemma be_val_less: "be_val xs < 256 ^ length xs"
proof (induction xs)
  case Nil
  show ?case by simp
next
  case (Cons x xs)
  have "unat x \<le> 255" by (rule unat_byte_le)
  then have "unat x * 256 ^ length xs \<le> 255 * 256 ^ length xs" by (rule mult_le_mono1)
  with Cons have "unat x * 256 ^ length xs + be_val xs < 255 * 256 ^ length xs + 256 ^ length xs"
    by linarith
  then show ?case by simp
qed

lemma be_val_append: "be_val (xs @ ys) = be_val xs * 256 ^ length ys + be_val ys"
  by (induction xs) (simp_all add: power_add algebra_simps)

lemma be_val_replicate_0 [simp]: "be_val (replicate n 0) = 0"
  by (induction n) simp_all

lemma memcmp_be_val:
  "length xs = length ys \<Longrightarrow> memcmp xs ys =
     (if be_val xs < be_val ys then -1 else if be_val ys < be_val xs then 1 else 0)"
proof (induction xs ys rule: memcmp.induct)
  case (1 x xs y ys)
  have step: "unat a * 256 ^ length as + be_val as < unat b * 256 ^ length bs + be_val bs"
    if "a < b" "length as = length bs" for a b :: byte and as bs
  proof -
    from that(1) have "Suc (unat a) \<le> unat b" by (simp add: word_less_nat_alt)
    then have "Suc (unat a) * 256 ^ length bs \<le> unat b * 256 ^ length bs" by (rule mult_le_mono1)
    with be_val_less [of as] that(2) show ?thesis by simp
  qed
  consider "x < y" | "y < x" | "x = y" by fastforce
  then show ?case
  proof cases
    case 1
    with step [of x y xs ys] "1.prems" show ?thesis by simp
  next
    case 2
    with step [of y x ys xs] "1.prems" show ?thesis by simp
  next
    case 3
    with "1.IH" "1.prems" show ?thesis by simp
  qed
qed simp_all

lemma memcmp_neg: "length xs = length ys \<Longrightarrow> memcmp xs ys < 0 \<longleftrightarrow> be_val xs < be_val ys"
  by (simp add: memcmp_be_val)

lemma memcmp_le: "length xs = length ys \<Longrightarrow> memcmp xs ys \<le> 0 \<longleftrightarrow> be_val xs \<le> be_val ys"
  by (simp add: memcmp_be_val)

lemma memcmp_pos: "length xs = length ys \<Longrightarrow> 0 < memcmp xs ys \<longleftrightarrow> be_val ys < be_val xs"
  by (simp add: memcmp_be_val)

lemma be_val_inj: "length xs = length ys \<Longrightarrow> be_val xs = be_val ys \<longleftrightarrow> xs = ys"
  using memcmp_be_val [of xs ys] memcmp_eq_0 [of xs ys] by (auto split: if_splits)

section \<open>C strings\<close>

text \<open>
  The bytes of a NUL-terminated string that starts the given memory; reading past the
  memory without meeting a NUL is out of bounds.
\<close>

fun cstring :: "byte list \<Rightarrow> byte list res" where
  "cstring [] = Inl Out_Of_Bounds"
| "cstring (c # cs) = (if c = 0 then Inr [] else rbind (cstring cs) (\<lambda>s. Inr (c # s)))"

lemma cstring_append_0: "0 \<notin> set s \<Longrightarrow> cstring (s @ 0 # xs) = Inr s"
  by (induction s) auto

lemma cstring_Inr_no_0: "cstring m = Inr s \<Longrightarrow> 0 \<notin> set s"
  by (induction m arbitrary: s) (auto simp: rbind_eq_Inr split: if_splits)

section \<open>Searching a list\<close>

text \<open>The loop that walks a list up to the first element with a property: its index.\<close>

fun first_index :: "('a \<Rightarrow> bool) \<Rightarrow> 'a list \<Rightarrow> nat option" where
  "first_index P [] = None"
| "first_index P (x # xs) = (if P x then Some 0 else map_option Suc (first_index P xs))"

lemma first_index_Some:
  "first_index P xs = Some i \<longleftrightarrow> i < length xs \<and> P (xs ! i) \<and> (\<forall>j < i. \<not> P (xs ! j))"
proof (induction xs arbitrary: i)
  case (Cons x xs)
  then show ?case by (cases i) (auto simp: less_Suc_eq_0_disj nth_Cons split: nat.splits)
qed simp

lemma first_index_None: "first_index P xs = None \<longleftrightarrow> (\<forall>x \<in> set xs. \<not> P x)"
  by (induction xs) auto

lemma first_index_less: "first_index P xs = Some i \<Longrightarrow> i < length xs"
  by (simp add: first_index_Some)

end
