(* ===== verification/Benc.thy ===== *)
theory Benc
  imports Prelude
begin

text \<open>
  The bencode library, \<^verbatim>\<open>libbenc\<close>: objects, the buffer, representation sizes, the encoder
  and the operations on lists and dictionaries. The decoder is in \<^verbatim>\<open>Benc_Decode\<close>.

  A buffer is the memory its \<open>base\<close> points to (\<open>bmem\<close>, the bytes that really are
  allocated there), the address of \<open>base\<close>, the \<open>len\<close> field, and \<open>ptr\<close> as an offset from
  \<open>base\<close>. Memory is written and read through \<open>bput\<close> and \<open>brd\<close>, which fault outside the
  allocation. Sizes are unbounded naturals, but for the length that the string decoder
  reads from its input, which is kept modulo \<open>2 ^ 64\<close>.
\<close>

section \<open>Objects\<close>

text \<open>
  A list or a dictionary object is a head pointer. The decoder leaves that pointer
  unwritten when the container is empty, which is the last two constructors.
\<close>

datatype bobj =
    BENC_INT int
  | BENC_BSTR "byte list"
  | BENC_LIST "bobj list"
  | BENC_DICT "(byte list \<times> bobj) list"
  | BENC_LIST_unset
  | BENC_DICT_unset

type_synonym bstr = "byte list"
type_synonym dict_entries = "(byte list \<times> bobj) list"

record bbuf =
  bbase :: nat
  bmem :: "byte list"
  blen :: nat
  bptr :: nat

definition bbuf_new :: "nat \<Rightarrow> nat \<Rightarrow> byte list \<Rightarrow> bbuf" where
  "bbuf_new addr len base = \<lparr>bbase = addr, bmem = base, blen = len, bptr = 0\<rparr>"

section \<open>Constructors\<close>

definition bobj_int_new :: "int \<Rightarrow> bobj" where
  "bobj_int_new i = BENC_INT i"

text \<open>
  \<open>malloc\<close> refuses a request above \<open>PTRDIFF_MAX\<close>; smaller requests are taken to succeed.
  \<open>benc_bstr_new\<close> with no bytes given allocates them, and returns NULL for the length 0.
\<close>

definition ptrdiff_max :: nat where
  "ptrdiff_max = 2 ^ 63 - 1"

definition benc_bstr_new_alloc :: "nat \<Rightarrow> nat option" where
  "benc_bstr_new_alloc len = (if 0 < len \<and> len \<le> ptrdiff_max then Some len else None)"

definition benc_bstr_get :: "bstr option \<Rightarrow> byte list option" where
  "benc_bstr_get a = (case a of None \<Rightarrow> None | Some s \<Rightarrow> Some s)"

definition bobj_list_new :: bobj where
  "bobj_list_new = BENC_LIST []"

definition bobj_dict_new :: bobj where
  "bobj_dict_new = BENC_DICT []"

section \<open>Representation sizes\<close>

function pseudo_log10_benc_int_t :: "int \<Rightarrow> nat" where
  "pseudo_log10_benc_int_t i =
     (if 0 < i div 10 then Suc (pseudo_log10_benc_int_t (i div 10)) else 1)"
  by pat_completeness auto
termination
  by (relation "measure nat") auto

declare pseudo_log10_benc_int_t.simps [simp del]

fun pseudo_log10_size_t :: "nat \<Rightarrow> nat" where
  "pseudo_log10_size_t x =
     (if 0 < x div 10 then Suc (pseudo_log10_size_t (x div 10)) else 1)"

declare pseudo_log10_size_t.simps [simp del]

definition benc_int_repsize :: "int \<Rightarrow> nat res" where
  "benc_int_repsize i =
     (if i < 0
      then rbind (chk64 (- i)) (\<lambda>j. Inr (3 + pseudo_log10_benc_int_t j))
      else Inr (2 + pseudo_log10_benc_int_t i))"

definition benc_bstr_repsize :: "bstr \<Rightarrow> nat" where
  "benc_bstr_repsize s = 1 + pseudo_log10_size_t (length s) + length s"

fun bobj_repsize :: "bobj \<Rightarrow> nat res"
  and benc_list_repsize :: "bobj list \<Rightarrow> nat \<Rightarrow> nat res"
  and benc_dict_repsize :: "dict_entries \<Rightarrow> nat \<Rightarrow> nat res"
where
  "bobj_repsize (BENC_INT i) = benc_int_repsize i"
| "bobj_repsize (BENC_BSTR s) = Inr (benc_bstr_repsize s)"
| "bobj_repsize (BENC_LIST es) = benc_list_repsize es 2"
| "bobj_repsize (BENC_DICT es) = benc_dict_repsize es 2"
| "bobj_repsize BENC_LIST_unset = Inl Uninitialised"
| "bobj_repsize BENC_DICT_unset = Inl Uninitialised"
| "benc_list_repsize [] repsize = Inr repsize"
| "benc_list_repsize (e # es) repsize =
     rbind (bobj_repsize e) (\<lambda>n. benc_list_repsize es (repsize + n))"
| "benc_dict_repsize [] repsize = Inr repsize"
| "benc_dict_repsize ((k, v) # es) repsize =
     rbind (bobj_repsize v) (\<lambda>n. benc_dict_repsize es (repsize + benc_bstr_repsize k + n))"

section \<open>Writing to the buffer\<close>

text \<open>The statement \<^verbatim>\<open>*(b->ptr)++ = c\<close>.\<close>

definition bput :: "byte \<Rightarrow> bbuf \<Rightarrow> bbuf res" where
  "bput c b =
     (if bptr b < length (bmem b)
      then Inr (b\<lparr>bmem := (bmem b)[bptr b := c], bptr := bptr b + 1\<rparr>)
      else Inl Out_Of_Bounds)"

text \<open>
  The loop \<^verbatim>\<open>do { *--(b->ptr) = '0' + (x % 10); x /= 10; } while (x > 0)\<close>, which the integer
  and the string encoder share: \<open>p\<close> is \<open>b->ptr\<close>, already moved past the digits.
\<close>

fun put_digits_back :: "nat \<Rightarrow> nat \<Rightarrow> byte list \<Rightarrow> byte list res" where
  "put_digits_back p x m =
     (if p = 0 \<or> length m < p then Inl Out_Of_Bounds
      else let m' = m[p - 1 := digit_byte x]
           in if 0 < x div 10 then put_digits_back (p - 1) (x div 10) m' else Inr m')"

declare put_digits_back.simps [simp del]

definition benc_int_encode :: "bbuf \<Rightarrow> int \<Rightarrow> bbuf res" where
  "benc_int_encode b i =
     rbind (bput ch_i b) (\<lambda>b1.
     rbind (if i < 0
            then rbind (chk64 (- i)) (\<lambda>j. rbind (bput ch_minus b1) (\<lambda>b2. Inr (j, b2)))
            else Inr (i, b1)) (\<lambda>(j, b2).
     let resume = bptr b2 + pseudo_log10_benc_int_t j
     in rbind (put_digits_back resume (nat j) (bmem b2)) (\<lambda>m.
        bput ch_e (b2\<lparr>bmem := m, bptr := resume\<rparr>))))"

text \<open>\<^verbatim>\<open>memcpy(b->ptr, s, len); b->ptr += len\<close>.\<close>

definition bcopy :: "byte list \<Rightarrow> bbuf \<Rightarrow> bbuf res" where
  "bcopy s b =
     (if bptr b + length s \<le> length (bmem b)
      then Inr (b\<lparr>bmem := take (bptr b) (bmem b) @ s @ drop (bptr b + length s) (bmem b),
                  bptr := bptr b + length s\<rparr>)
      else Inl Out_Of_Bounds)"

definition benc_bstr_encode :: "bbuf \<Rightarrow> bstr \<Rightarrow> bbuf res" where
  "benc_bstr_encode b s =
     (let resume = bptr b + pseudo_log10_size_t (length s)
      in rbind (put_digits_back resume (length s) (bmem b)) (\<lambda>m.
         rbind (bput ch_colon (b\<lparr>bmem := m, bptr := resume\<rparr>)) (\<lambda>b1.
         bcopy s b1)))"

fun bobj_encode :: "bbuf \<Rightarrow> bobj \<Rightarrow> bbuf res"
  and benc_list_encode_loop :: "bbuf \<Rightarrow> bobj list \<Rightarrow> bbuf res"
  and benc_dict_encode_loop :: "bbuf \<Rightarrow> dict_entries \<Rightarrow> bbuf res"
where
  "bobj_encode b (BENC_INT i) = benc_int_encode b i"
| "bobj_encode b (BENC_BSTR s) = benc_bstr_encode b s"
| "bobj_encode b (BENC_LIST es) =
     rbind (bput ch_l b) (\<lambda>b1. rbind (benc_list_encode_loop b1 es) (\<lambda>b2. bput ch_e b2))"
| "bobj_encode b (BENC_DICT es) =
     rbind (bput ch_d b) (\<lambda>b1. rbind (benc_dict_encode_loop b1 es) (\<lambda>b2. bput ch_e b2))"
| "bobj_encode b BENC_LIST_unset = Inl Uninitialised"
| "bobj_encode b BENC_DICT_unset = Inl Uninitialised"
| "benc_list_encode_loop b [] = Inr b"
| "benc_list_encode_loop b (e # es) =
     rbind (bobj_encode b e) (\<lambda>b1. benc_list_encode_loop b1 es)"
| "benc_dict_encode_loop b [] = Inr b"
| "benc_dict_encode_loop b ((k, v) # es) =
     rbind (benc_bstr_encode b k) (\<lambda>b1.
     rbind (bobj_encode b1 v) (\<lambda>b2. benc_dict_encode_loop b2 es))"

section \<open>Releasing objects\<close>

text \<open>
  \<open>bobj_free\<close> walks the object; following a head pointer that was never written faults.
\<close>

fun bobj_free :: "bobj \<Rightarrow> unit res"
  and benc_list_free :: "bobj list \<Rightarrow> unit res"
  and benc_dict_free :: "dict_entries \<Rightarrow> unit res"
where
  "bobj_free (BENC_INT i) = Inr ()"
| "bobj_free (BENC_BSTR s) = Inr ()"
| "bobj_free (BENC_LIST es) = benc_list_free es"
| "bobj_free (BENC_DICT es) = benc_dict_free es"
| "bobj_free BENC_LIST_unset = Inl Uninitialised"
| "bobj_free BENC_DICT_unset = Inl Uninitialised"
| "benc_list_free [] = Inr ()"
| "benc_list_free (e # es) = rbind (bobj_free e) (\<lambda>_. benc_list_free es)"
| "benc_dict_free [] = Inr ()"
| "benc_dict_free ((k, v) # es) = rbind (bobj_free v) (\<lambda>_. benc_dict_free es)"

section \<open>Comparing keys\<close>

text \<open>
  The bytes are of type \<^verbatim>\<open>char\<close>, which is signed; the difference of the lengths is taken in
  \<^verbatim>\<open>size_t\<close> and converted to \<^verbatim>\<open>int\<close>.
\<close>

fun benc_bstr_compare_bytes :: "byte list \<Rightarrow> byte list \<Rightarrow> int" where
  "benc_bstr_compare_bytes (x # xs) (y # ys) =
     (if sint x - sint y \<noteq> 0 then sint x - sint y else benc_bstr_compare_bytes xs ys)"
| "benc_bstr_compare_bytes _ _ = 0"

definition benc_bstr_compare :: "bstr \<Rightarrow> bstr \<Rightarrow> int" where
  "benc_bstr_compare a b =
     (let d = benc_bstr_compare_bytes a b
      in if d \<noteq> 0 then d else to_int32 (int (length a) - int (length b)))"

section \<open>Lists\<close>

text \<open>
  The container operations read \<open>obj->as.list\<close> and \<open>obj->as.dict\<close> without looking at the
  object's type.
\<close>

fun list_head :: "bobj \<Rightarrow> bobj list res" where
  "list_head (BENC_LIST es) = Inr es"
| "list_head BENC_LIST_unset = Inl Uninitialised"
| "list_head _ = Inl Type_Confusion"

fun dict_head :: "bobj \<Rightarrow> dict_entries res" where
  "dict_head (BENC_DICT es) = Inr es"
| "dict_head BENC_DICT_unset = Inl Uninitialised"
| "dict_head _ = Inl Type_Confusion"

definition bobj_list_push :: "bobj \<Rightarrow> bobj \<Rightarrow> bobj res" where
  "bobj_list_push obj elem = rbind (list_head obj) (\<lambda>es. Inr (BENC_LIST (elem # es)))"

definition bobj_list_pop :: "bobj \<Rightarrow> (bobj option \<times> bobj) res" where
  "bobj_list_pop obj =
     rbind (list_head obj) (\<lambda>es.
       case es of [] \<Rightarrow> Inr (None, obj) | e # es' \<Rightarrow> Inr (Some e, BENC_LIST es'))"

section \<open>Dictionaries\<close>

fun dict_lookup_loop :: "dict_entries \<Rightarrow> bstr \<Rightarrow> bobj option" where
  "dict_lookup_loop [] key = None"
| "dict_lookup_loop ((k, v) # es) key =
     (if benc_bstr_compare key k = 0 then Some v else dict_lookup_loop es key)"

definition bobj_dict_lookup :: "bobj \<Rightarrow> bstr \<Rightarrow> bobj option res" where
  "bobj_dict_lookup obj key = rbind (dict_head obj) (\<lambda>es. Inr (dict_lookup_loop es key))"

fun dict_insert_loop :: "dict_entries \<Rightarrow> bstr \<Rightarrow> bobj \<Rightarrow> bool \<times> dict_entries" where
  "dict_insert_loop [] key val = (True, [(key, val)])"
| "dict_insert_loop ((k, v) # es) key val =
     (let cmp = benc_bstr_compare key k
      in if cmp < 0 then (True, (key, val) # (k, v) # es)
         else if cmp = 0 then (False, (k, v) # es)
         else let (ok, es') = dict_insert_loop es key val in (ok, (k, v) # es'))"

definition bobj_dict_insert :: "bobj \<Rightarrow> bstr \<Rightarrow> bobj \<Rightarrow> (bool \<times> bobj) res" where
  "bobj_dict_insert obj key val =
     rbind (dict_head obj) (\<lambda>es.
       let (ok, es') = dict_insert_loop es key val in Inr (ok, BENC_DICT es'))"

fun dict_remove_loop :: "dict_entries \<Rightarrow> bstr \<Rightarrow> bobj option \<times> dict_entries" where
  "dict_remove_loop [] key = (None, [])"
| "dict_remove_loop ((k, v) # es) key =
     (if benc_bstr_compare key k = 0 then (Some v, es)
      else let (r, es') = dict_remove_loop es key in (r, (k, v) # es'))"

definition bobj_dict_remove :: "bobj \<Rightarrow> bstr \<Rightarrow> (bobj option \<times> bobj) res" where
  "bobj_dict_remove obj key =
     rbind (dict_head obj) (\<lambda>es.
       let (r, es') = dict_remove_loop es key in Inr (r, BENC_DICT es'))"

end
