(* ===== verification/Comparator.thy ===== *)
theory Comparator
  imports Prelude
begin

text \<open>
  The contract of a C comparison function: on its valid arguments, the sign of the result
  is a strict linear order. The sorted lists of the program (dictionary entries, buckets,
  search nodes, closest nodes) and its search tree rest on this contract alone.
\<close>

definition ordered_by :: "('a \<Rightarrow> 'a \<Rightarrow> int) \<Rightarrow> 'a list \<Rightarrow> bool" where
  "ordered_by cmp xs = sorted_wrt (\<lambda>x y. cmp x y < 0) xs"

lemma ordered_by_Nil [simp]: "ordered_by cmp []"
  by (simp add: ordered_by_def)

lemma ordered_by_Cons: "ordered_by cmp (x # xs) \<longleftrightarrow> (\<forall>y \<in> set xs. cmp x y < 0) \<and> ordered_by cmp xs"
  by (simp add: ordered_by_def)

lemma ordered_by_append: "ordered_by cmp (xs @ ys) \<longleftrightarrow>
    ordered_by cmp xs \<and> ordered_by cmp ys \<and> (\<forall>x \<in> set xs. \<forall>y \<in> set ys. cmp x y < 0)"
  by (simp add: ordered_by_def sorted_wrt_append)

lemma ordered_by_take: "ordered_by cmp xs \<Longrightarrow> ordered_by cmp (take n xs)"
  by (simp add: ordered_by_def sorted_wrt_take)

lemma ordered_by_drop: "ordered_by cmp xs \<Longrightarrow> ordered_by cmp (drop n xs)"
  by (simp add: ordered_by_def sorted_wrt_drop)

lemma ordered_by_nth: "ordered_by cmp xs \<Longrightarrow> i < j \<Longrightarrow> j < length xs \<Longrightarrow> cmp (xs ! i) (xs ! j) < 0"
  by (simp add: ordered_by_def sorted_wrt_iff_nth_less)

locale comparator =
  fixes cmp :: "'a \<Rightarrow> 'a \<Rightarrow> int"
    and ok :: "'a \<Rightarrow> bool"
  assumes cmp_zero: "ok x \<Longrightarrow> ok y \<Longrightarrow> cmp x y = 0 \<longleftrightarrow> x = y"
    and cmp_swap: "ok x \<Longrightarrow> ok y \<Longrightarrow> cmp x y < 0 \<longleftrightarrow> 0 < cmp y x"
    and cmp_trans: "ok x \<Longrightarrow> ok y \<Longrightarrow> ok z \<Longrightarrow> cmp x y < 0 \<Longrightarrow> cmp y z < 0 \<Longrightarrow> cmp x z < 0"
begin

lemma cmp_self: "ok x \<Longrightarrow> cmp x x = 0"
  using cmp_zero by blast

lemma cmp_not_less: "ok x \<Longrightarrow> ok y \<Longrightarrow> x \<noteq> y \<Longrightarrow> \<not> cmp x y < 0 \<Longrightarrow> cmp y x < 0"
  using cmp_zero [of x y] cmp_swap [of y x] by linarith

lemma ordered_distinct:
  assumes "\<forall>x \<in> set xs. ok x" "ordered_by cmp xs"
  shows "distinct xs"
  using assms
proof (induction xs)
  case Nil
  show ?case by simp
next
  case (Cons x xs)
  then have "x \<notin> set xs" using cmp_self by (fastforce simp: ordered_by_Cons)
  with Cons show ?case by (simp add: ordered_by_Cons)
qed

text \<open>Putting an element in front of the first one that is larger keeps the order.\<close>

lemma ordered_insert:
  assumes "ok x" "\<forall>y \<in> set (xs @ ys). ok y" "ordered_by cmp (xs @ ys)"
    and "\<forall>y \<in> set xs. cmp y x < 0" "ys = [] \<or> cmp x (hd ys) < 0"
  shows "ordered_by cmp (xs @ x # ys)"
proof -
  have "cmp x y < 0" if "y \<in> set ys" for y
  proof (cases "y = hd ys")
    case True
    with assms(5) that show ?thesis by auto
  next
    case False
    with that assms(3) have "cmp (hd ys) y < 0"
      by (cases ys) (auto simp: ordered_by_append ordered_by_Cons)
    moreover have "cmp x (hd ys) < 0" "ys \<noteq> []" using assms(5) that by auto
    ultimately show ?thesis using assms(1,2) that cmp_trans [of x "hd ys" y] by simp
  qed
  with assms(3,4) show ?thesis by (simp add: ordered_by_append ordered_by_Cons)
qed

text \<open>
  A list that keeps at most \<open>cap\<close> elements: after an insertion at the right place and a
  cut, what was dropped is larger than what was kept.
\<close>

lemma capped_insert_best:
  assumes "ordered_by cmp (xs @ x # ys)"
    and "z \<in> set (take cap (xs @ x # ys))"
    and "y \<in> insert x (set (xs @ ys))" "y \<notin> set (take cap (xs @ x # ys))"
  shows "cmp z y < 0"
proof -
  let ?l = "xs @ x # ys"
  have "y \<in> set ?l" using assms(3) by auto
  with assms(4) have "y \<in> set (drop cap ?l)"
    using append_take_drop_id [of cap ?l] by (metis Un_iff set_append)
  moreover have "ordered_by cmp (take cap ?l @ drop cap ?l)"
    using assms(1) by (simp only: append_take_drop_id)
  ultimately show ?thesis using assms(2) unfolding ordered_by_append by blast
qed

end

text \<open>Byte strings of one length under \<open>memcmp\<close> satisfy the contract, for every length.\<close>

lemma comparator_memcmp: "comparator memcmp (\<lambda>xs. length xs = n)"
proof
  fix x y z :: "byte list"
  assume "length x = n" "length y = n"
  then show "memcmp x y = 0 \<longleftrightarrow> x = y" and "memcmp x y < 0 \<longleftrightarrow> 0 < memcmp y x"
    by (simp_all add: memcmp_eq_0 memcmp_neg memcmp_pos)
next
  fix x y z :: "byte list"
  assume "length x = n" "length y = n" "length z = n" "memcmp x y < 0" "memcmp y z < 0"
  then show "memcmp x z < 0" by (simp add: memcmp_neg)
qed

end
