(* ===== verification/Keyed_Store.thy ===== *)
theory Keyed_Store
  imports Main
begin

text \<open>
  The contract of a keyed container: insertion refuses a key that is present, removal
  returns what was stored, and lookups see exactly that. The bencode dictionary and the
  table of pending operations provide it.
\<close>

locale keyed_store =
  fixes find :: "'d \<Rightarrow> 'k \<Rightarrow> 'v option"
    and add :: "'d \<Rightarrow> 'k \<Rightarrow> 'v \<Rightarrow> bool \<times> 'd"
    and inv :: "'d \<Rightarrow> bool"
    and key_ok :: "'k \<Rightarrow> bool"
  assumes add_result: "inv d \<Longrightarrow> key_ok k \<Longrightarrow> fst (add d k v) \<longleftrightarrow> find d k = None"
    and add_inv: "inv d \<Longrightarrow> key_ok k \<Longrightarrow> inv (snd (add d k v))"
    and add_find: "inv d \<Longrightarrow> key_ok k \<Longrightarrow> key_ok k' \<Longrightarrow>
      find (snd (add d k v)) k' = (if k' = k \<and> find d k = None then Some v else find d k')"
begin

lemma find_added: "inv d \<Longrightarrow> key_ok k \<Longrightarrow> find d k = None \<Longrightarrow> find (snd (add d k v)) k = Some v"
  by (simp add: add_find)

lemma add_again_refused:
  "inv d \<Longrightarrow> key_ok k \<Longrightarrow> \<not> fst (add (snd (add d k v)) k w)"
  by (cases "find d k") (simp_all add: add_result add_inv add_find)

lemma refused_keeps:
  "inv d \<Longrightarrow> key_ok k \<Longrightarrow> \<not> fst (add d k v) \<Longrightarrow> key_ok k' \<Longrightarrow> find (snd (add d k v)) k' = find d k'"
  by (simp add: add_result add_find)

text \<open>Adding a list of pairs: the first binding of a key wins, and older ones stay.\<close>

lemma fold_add:
  assumes "inv d" "\<forall>p \<in> set ps. key_ok (fst p)"
  shows "inv (fold (\<lambda>(k, v) d. snd (add d k v)) ps d)"
    and "key_ok k \<Longrightarrow> find (fold (\<lambda>(k, v) d. snd (add d k v)) ps d) k =
      (case find d k of Some v \<Rightarrow> Some v | None \<Rightarrow> map_of ps k)"
  using assms
proof (induction ps arbitrary: d)
  case Nil
  { case 1 then show ?case by simp
  next
    case 2 then show ?case by (simp split: option.split) }
next
  case (Cons p ps)
  obtain k' v' where p: "p = (k', v')" by (cases p)
  { case 1
    then show ?case using Cons.IH(1) by (simp add: p add_inv)
  next
    case 2
    then show ?case
      using Cons.IH(2) [of "snd (add d k' v')"]
      by (auto simp: p add_inv add_find split: option.split) }
qed

end

text \<open>A store from which keys can also be removed.\<close>

locale removable_store = keyed_store find add inv key_ok
  for find :: "'d \<Rightarrow> 'k \<Rightarrow> 'v option"
    and add :: "'d \<Rightarrow> 'k \<Rightarrow> 'v \<Rightarrow> bool \<times> 'd"
    and inv :: "'d \<Rightarrow> bool"
    and key_ok :: "'k \<Rightarrow> bool" +
  fixes remove :: "'d \<Rightarrow> 'k \<Rightarrow> 'v option \<times> 'd"
  assumes remove_result: "inv d \<Longrightarrow> key_ok k \<Longrightarrow> fst (remove d k) = find d k"
    and remove_inv: "inv d \<Longrightarrow> key_ok k \<Longrightarrow> inv (snd (remove d k))"
    and remove_find: "inv d \<Longrightarrow> key_ok k \<Longrightarrow> key_ok k' \<Longrightarrow>
      find (snd (remove d k)) k' = (if k' = k then None else find d k')"
begin

lemma remove_added:
  "inv d \<Longrightarrow> key_ok k \<Longrightarrow> find d k = None \<Longrightarrow> fst (remove (snd (add d k v)) k) = Some v"
  by (simp add: remove_result add_inv add_find)

lemma add_then_remove:
  "inv d \<Longrightarrow> key_ok k \<Longrightarrow> find d k = None \<Longrightarrow> key_ok k' \<Longrightarrow>
   find (snd (remove (snd (add d k v)) k)) k' = find d k'"
  by (simp add: remove_find add_inv add_find)

lemma remove_twice:
  "inv d \<Longrightarrow> key_ok k \<Longrightarrow> fst (remove (snd (remove d k)) k) = None"
  by (simp add: remove_result remove_inv remove_find)

end

end
