(* ===== verification/Benc_Encode.thy ===== *)
theory Benc_Encode
  imports Benc Comparator Keyed_Store
begin

text \<open>
  Correctness of the encoder and of the dictionary operations of \<^verbatim>\<open>libbenc\<close>: the encoder
  writes exactly the bencoding of an object, as many bytes as the representation size
  says; sorted dictionaries stay sorted and behave like maps.
\<close>

section \<open>The bencoding of an object\<close>

fun dec_digits :: "nat \<Rightarrow> byte list" where
  "dec_digits n = (if 0 < n div 10 then dec_digits (n div 10) @ [digit_byte n] else [digit_byte n])"

declare dec_digits.simps [simp del]

lemma length_dec_digits [layout_simps]: "length (dec_digits n) = pseudo_log10_size_t n"
proof (induction n rule: dec_digits.induct)
  case (1 n)
  then show ?case by (simp add: dec_digits.simps [of n] pseudo_log10_size_t.simps [of n])
qed

lemma pseudo_log10_benc_int_t_nat: "0 \<le> i \<Longrightarrow> pseudo_log10_benc_int_t i = pseudo_log10_size_t (nat i)"
proof (induction i rule: pseudo_log10_benc_int_t.induct)
  case (1 i)
  then have "nat i div 10 = nat (i div 10)" by (simp add: nat_div_distrib)
  with 1 show ?case
    by (simp add: pseudo_log10_benc_int_t.simps [of i] pseudo_log10_size_t.simps [of "nat i"])
qed

definition int_text :: "int \<Rightarrow> byte list" where
  "int_text i = (if i < 0 then ch_minus # dec_digits (nat (- i)) else dec_digits (nat i))"

definition bstr_text :: "bstr \<Rightarrow> byte list" where
  "bstr_text s = dec_digits (length s) @ ch_colon # s"

fun bencoding :: "bobj \<Rightarrow> byte list" where
  "bencoding (BENC_INT i) = ch_i # int_text i @ [ch_e]"
| "bencoding (BENC_BSTR s) = bstr_text s"
| "bencoding (BENC_LIST es) = ch_l # concat (map bencoding es) @ [ch_e]"
| "bencoding (BENC_DICT es) =
     ch_d # concat (map (\<lambda>(k, v). bstr_text k @ bencoding v) es) @ [ch_e]"
| "bencoding BENC_LIST_unset = []"
| "bencoding BENC_DICT_unset = []"

text \<open>
  The objects the encoder accepts: no container with an unwritten head, and no integer
  that is \<open>INT64_MIN\<close> or out of range.
\<close>

fun encodable :: "bobj \<Rightarrow> bool" where
  "encodable (BENC_INT i) = (- (2 ^ 63) < i \<and> i < 2 ^ 63)"
| "encodable (BENC_BSTR s) = True"
| "encodable (BENC_LIST es) = list_all encodable es"
| "encodable (BENC_DICT es) = list_all (\<lambda>(k, v). encodable v) es"
| "encodable BENC_LIST_unset = False"
| "encodable BENC_DICT_unset = False"

section \<open>Representation size\<close>

lemma benc_int_repsize_eq:
  assumes "- (2 ^ 63) < i" "i < 2 ^ 63"
  shows "benc_int_repsize i = Inr (length (bencoding (BENC_INT i)))"
  using assms
  by (auto simp: benc_int_repsize_def int_text_def pseudo_log10_benc_int_t_nat length_dec_digits)

lemma benc_bstr_repsize_eq: "benc_bstr_repsize s = length (bstr_text s)"
  by (simp add: benc_bstr_repsize_def bstr_text_def length_dec_digits)

lemma repsize_eq:
  shows "encodable o' \<Longrightarrow> bobj_repsize o' = Inr (length (bencoding o'))"
    and "list_all encodable es \<Longrightarrow>
      benc_list_repsize es n = Inr (n + length (concat (map bencoding es)))"
    and "list_all (\<lambda>(k, v). encodable v) ds \<Longrightarrow> benc_dict_repsize ds n =
      Inr (n + length (concat (map (\<lambda>(k, v). bstr_text k @ bencoding v) ds)))"
proof (induction o' and es n and ds n rule: bobj_repsize_benc_list_repsize_benc_dict_repsize.induct)
  case (1 i)
  then show ?case using benc_int_repsize_eq by simp
qed (auto simp: benc_bstr_repsize_eq)

section \<open>Writing\<close>

definition room :: "bbuf \<Rightarrow> nat \<Rightarrow> bool" where
  "room b n \<longleftrightarrow> bptr b + n \<le> length (bmem b)"

text \<open>The buffer after the bytes \<open>s\<close> have been written at the pointer.\<close>

definition written :: "bbuf \<Rightarrow> byte list \<Rightarrow> bbuf" where
  "written b s = b\<lparr>bmem := take (bptr b) (bmem b) @ s @ drop (bptr b + length s) (bmem b),
                   bptr := bptr b + length s\<rparr>"

lemma written_Nil [simp]: "written b [] = b"
  by (simp add: written_def)

lemma written_append:
  "room b (length s + length t) \<Longrightarrow> written (written b s) t = written b (s @ t)"
  by (auto simp: written_def room_def ac_simps)

lemma room_written: "room b (length s + n) \<Longrightarrow> room (written b s) n"
  by (auto simp: room_def written_def)

lemma room_mono: "room b n \<Longrightarrow> m \<le> n \<Longrightarrow> room b m"
  by (simp add: room_def)

lemma bput_written: "room b 1 \<Longrightarrow> bput c b = Inr (written b [c])"
  by (simp add: bput_def room_def written_def upd_conv_take_nth_drop)

lemma bcopy_written: "room b (length s) \<Longrightarrow> bcopy s b = Inr (written b s)"
  by (simp add: bcopy_def room_def written_def)

lemma put_digits_back_eq:
  "length mid = length (dec_digits x) \<Longrightarrow>
   put_digits_back (length pre + length mid) x (pre @ mid @ post) = Inr (pre @ dec_digits x @ post)"
proof (induction x arbitrary: mid post rule: dec_digits.induct)
  case (1 x)
  from "1.prems" have "mid \<noteq> []" by (auto simp: dec_digits.simps [of x] split: if_splits)
  then obtain mid' c where mid: "mid = mid' @ [c]" by (metis append_butlast_last_id)
  have upd: "(pre @ mid @ post)[length pre + length mid - 1 := digit_byte x]
      = pre @ mid' @ digit_byte x # post"
    by (simp add: mid list_update_append)
  show ?case
  proof (cases "0 < x div 10")
    case True
    with "1.prems" have "length mid' = length (dec_digits (x div 10))"
      by (simp add: mid dec_digits.simps [of x])
    from "1.IH" [OF True this, of "digit_byte x # post"] True upd
    show ?thesis
      by (simp add: put_digits_back.simps [of _ x] dec_digits.simps [of x] mid Let_def)
  next
    case False
    with "1.prems" have "mid' = []" by (simp add: mid dec_digits.simps [of x])
    with False upd show ?thesis
      by (simp add: put_digits_back.simps [of _ x] dec_digits.simps [of x] mid Let_def)
  qed
qed

lemma put_digits_written:
  assumes "room b (length (dec_digits x))"
  shows "put_digits_back (bptr b + pseudo_log10_size_t x) x (bmem b) =
           Inr (bmem (written b (dec_digits x)))"
proof -
  let ?n = "length (dec_digits x)"
  have "bmem b = take (bptr b) (bmem b) @ take ?n (drop (bptr b) (bmem b)) @ drop (bptr b + ?n) (bmem b)"
    by (metis append_take_drop_id drop_drop add.commute)
  then have "put_digits_back (bptr b + ?n) x (bmem b) =
      Inr (take (bptr b) (bmem b) @ dec_digits x @ drop (bptr b + ?n) (bmem b))"
    using put_digits_back_eq [of "take ?n (drop (bptr b) (bmem b))" x "take (bptr b) (bmem b)"
        "drop (bptr b + ?n) (bmem b)"] assms
    by (simp add: room_def)
  then show ?thesis by (simp add: written_def length_dec_digits)
qed

lemma written_digits:
  "b\<lparr>bmem := bmem (written b s), bptr := bptr b + length s\<rparr> = written b s"
  by (simp add: written_def)

lemma benc_int_encode_eq:
  assumes "- (2 ^ 63) < i" "i < 2 ^ 63" "room b (length (bencoding (BENC_INT i)))"
  shows "benc_int_encode b i = Inr (written b (bencoding (BENC_INT i)))"
proof -
  define sg where "sg = (if i < 0 then [ch_minus] else [])"
  define x where "x = nat \<bar>i\<bar>"
  define b2 where "b2 = written b (ch_i # sg)"
  have enc: "bencoding (BENC_INT i) = (ch_i # sg) @ dec_digits x @ [ch_e]"
    by (simp add: sg_def x_def int_text_def)
  have r: "room b (length (ch_i # sg) + (length (dec_digits x) + 1))"
    using assms(3) unfolding enc by (simp add: add.assoc)
  then have r2: "room b2 (length (dec_digits x) + 1)"
    unfolding b2_def by (rule room_written)
  have "bput ch_i b = Inr (written b [ch_i])"
    using r by (intro bput_written) (rule room_mono, assumption, simp)
  moreover have "bput ch_minus (written b [ch_i]) = Inr b2" if "i < 0"
  proof -
    have "room b (length [ch_i] + length [ch_minus])" using r that by (auto simp: sg_def room_def)
    then show ?thesis
      using that by (simp add: bput_written room_written written_append b2_def sg_def)
  qed
  ultimately have "benc_int_encode b i =
      rbind (put_digits_back (bptr b2 + pseudo_log10_size_t x) x (bmem b2)) (\<lambda>m.
        bput ch_e (b2\<lparr>bmem := m, bptr := bptr b2 + pseudo_log10_size_t x\<rparr>))"
    using assms(1,2)
    by (auto simp: benc_int_encode_def pseudo_log10_benc_int_t_nat x_def sg_def b2_def Let_def)
  also have "\<dots> = bput ch_e (written b2 (dec_digits x))"
    using put_digits_written [of b2 x] written_digits [of b2 "dec_digits x"] r2
    by (simp add: room_def length_dec_digits)
  also have "\<dots> = Inr (written b (bencoding (BENC_INT i)))"
    using r r2 unfolding enc b2_def
    by (simp add: bput_written room_written written_append)
  finally show ?thesis .
qed

lemma benc_bstr_encode_eq:
  assumes "room b (length (bstr_text s))"
  shows "benc_bstr_encode b s = Inr (written b (bstr_text s))"
proof -
  let ?d = "dec_digits (length s)"
  have r: "room b (length ?d + (1 + length s))"
    using assms by (simp add: bstr_text_def)
  have "benc_bstr_encode b s = rbind (bput ch_colon (written b ?d)) (bcopy s)"
    using put_digits_written [of b "length s"] written_digits [of b ?d] r
    by (simp add: benc_bstr_encode_def Let_def room_def length_dec_digits)
  also have "bput ch_colon (written b ?d) = Inr (written b (?d @ [ch_colon]))"
    using room_mono [OF room_written [OF r], of 1] written_append [of b ?d "[ch_colon]"] r
    by (simp add: bput_written room_def)
  also have "rbind (Inr (written b (?d @ [ch_colon]))) (bcopy s) = Inr (written b (bstr_text s))"
    using r room_written [of b "?d @ [ch_colon]" "length s"]
      written_append [of b "?d @ [ch_colon]" s]
    by (simp add: bcopy_written bstr_text_def)
  finally show ?thesis .
qed

lemma bobj_encode_written:
  shows "encodable o' \<Longrightarrow> room b (length (bencoding o')) \<Longrightarrow>
      bobj_encode b o' = Inr (written b (bencoding o'))"
    and "list_all encodable es \<Longrightarrow> room b (length (concat (map bencoding es))) \<Longrightarrow>
      benc_list_encode_loop b es = Inr (written b (concat (map bencoding es)))"
    and "list_all (\<lambda>(k, v). encodable v) ds \<Longrightarrow>
      room b (length (concat (map (\<lambda>(k, v). bstr_text k @ bencoding v) ds))) \<Longrightarrow>
      benc_dict_encode_loop b ds =
        Inr (written b (concat (map (\<lambda>(k, v). bstr_text k @ bencoding v) ds)))"
proof (induction b o' and b es and b ds
    rule: bobj_encode_benc_list_encode_loop_benc_dict_encode_loop.induct)
  case (1 b i)
  then show ?case using benc_int_encode_eq by simp
next
  case (2 b s)
  then show ?case using benc_bstr_encode_eq by simp
next
  case (3 b es)
  let ?t = "concat (map bencoding es)"
  have r: "room b (length [ch_l] + (length ?t + 1))" using "3.prems" by simp
  then have "room b 1" "room (written b [ch_l]) (length ?t + 1)"
    by (rule room_mono, simp, intro room_written)
  with "3.IH" [of "written b [ch_l]"] "3.prems" r show ?case
    by (simp add: bput_written room_mono [of _ "Suc (length ?t)"] room_written written_append)
next
  case (4 b ds)
  let ?t = "concat (map (\<lambda>(k, v). bstr_text k @ bencoding v) ds)"
  have r: "room b (length [ch_d] + (length ?t + 1))" using "4.prems" by simp
  then have "room b 1" "room (written b [ch_d]) (length ?t + 1)"
    by (rule room_mono, simp, intro room_written)
  with "4.IH" [of "written b [ch_d]"] "4.prems" r show ?case
    by (simp add: bput_written room_mono [of _ "Suc (length ?t)"] room_written written_append)
next
  case (8 b e es)
  let ?t = "concat (map bencoding es)"
  have r: "room b (length (bencoding e) + length ?t)" using "8.prems" by simp
  with "8.IH" "8.prems" show ?case
    by (simp add: room_mono [OF r] room_written written_append)
next
  case (10 b k v ds)
  let ?t = "concat (map (\<lambda>(k, v). bstr_text k @ bencoding v) ds)"
  have r: "room b (length (bstr_text k) + (length (bencoding v) + length ?t))"
    using "10.prems" by simp
  then have "room (written b (bstr_text k)) (length (bencoding v) + length ?t)"
    by (rule room_written)
  with "10.IH" "10.prems" r show ?case
    by (simp add: benc_bstr_encode_eq room_mono [OF r] room_mono [of _ "length (bencoding v) + length ?t"]
        room_written written_append)
qed simp_all

section \<open>Keys\<close>

text \<open>Keys shorter than \<open>2 ^ 31\<close> bytes are compared by a strict linear order.\<close>

definition key_ok :: "bstr \<Rightarrow> bool" where
  "key_ok k \<longleftrightarrow> length k < 2 ^ 31"

lemma compare_bytes_swap: "benc_bstr_compare_bytes ys xs = - benc_bstr_compare_bytes xs ys"
  by (induction xs ys rule: benc_bstr_compare_bytes.induct) auto

lemma compare_bytes_0:
  "benc_bstr_compare_bytes xs ys = 0 \<Longrightarrow> length xs = length ys \<Longrightarrow> xs = ys"
  by (induction xs ys rule: benc_bstr_compare_bytes.induct)
    (auto simp: signed_word_eqI split: if_splits)

lemma compare_bytes_refl [simp]: "benc_bstr_compare_bytes xs xs = 0"
  by (induction xs) auto

definition key_diff :: "bstr \<Rightarrow> bstr \<Rightarrow> int" where
  "key_diff a b = (if benc_bstr_compare_bytes a b \<noteq> 0 then benc_bstr_compare_bytes a b
                   else int (length a) - int (length b))"

lemma compare_key_diff: "key_ok a \<Longrightarrow> key_ok b \<Longrightarrow> benc_bstr_compare a b = key_diff a b"
  by (simp add: benc_bstr_compare_def key_diff_def key_ok_def Let_def to_int32_fits)

lemma key_diff_Cons:
  "key_diff (x # xs) (y # ys) = (if sint x \<noteq> sint y then sint x - sint y else key_diff xs ys)"
  by (simp add: key_diff_def)

lemma key_diff_trans: "key_diff a b < 0 \<Longrightarrow> key_diff b c < 0 \<Longrightarrow> key_diff a c < 0"
proof (induction a arbitrary: b c)
  case Nil
  then show ?case by (cases b; cases c) (auto simp: key_diff_def)
next
  case (Cons x xs)
  from Cons.prems obtain y ys z zs where "b = y # ys" "c = z # zs"
    by (cases b; cases c) (auto simp: key_diff_def)
  with Cons show ?case by (auto simp: key_diff_Cons split: if_splits)
qed

interpretation bstr_order: comparator benc_bstr_compare key_ok
proof
  fix x y z
  assume "key_ok x" "key_ok y"
  then show "benc_bstr_compare x y = 0 \<longleftrightarrow> x = y"
    and "benc_bstr_compare x y < 0 \<longleftrightarrow> 0 < benc_bstr_compare y x"
    using compare_bytes_swap [of x y]
    by (auto simp: compare_key_diff key_diff_def dest: compare_bytes_0 split: if_splits)
next
  fix x y z
  assume "key_ok x" "key_ok y" "key_ok z"
    "benc_bstr_compare x y < 0" "benc_bstr_compare y z < 0"
  then show "benc_bstr_compare x z < 0"
    using key_diff_trans by (simp add: compare_key_diff)
qed

section \<open>Dictionaries as maps\<close>

definition keys_ok :: "dict_entries \<Rightarrow> bool" where
  "keys_ok es \<longleftrightarrow> (\<forall>p \<in> set es. key_ok (fst p))"

definition dict_inv :: "dict_entries \<Rightarrow> bool" where
  "dict_inv es \<longleftrightarrow> keys_ok es \<and> ordered_by benc_bstr_compare (map fst es)"

lemma keys_ok_Cons [simp]: "keys_ok ((k, v) # es) \<longleftrightarrow> key_ok k \<and> keys_ok es"
  by (simp add: keys_ok_def)

lemma lookup_map_of: "keys_ok es \<Longrightarrow> key_ok key \<Longrightarrow> dict_lookup_loop es key = map_of es key"
  by (induction es) (auto simp: bstr_order.cmp_zero)

lemma insert_result:
  "keys_ok es \<Longrightarrow> key_ok key \<Longrightarrow> ordered_by benc_bstr_compare (map fst es) \<Longrightarrow>
   fst (dict_insert_loop es key val) \<longleftrightarrow> map_of es key = None"
proof (induction es)
  case Nil
  show ?case by simp
next
  case (Cons p es)
  obtain k v where p: "p = (k, v)" by (cases p)
  have "map_of es key = None \<and> key \<noteq> k" if lt: "benc_bstr_compare key k < 0"
  proof -
    have "benc_bstr_compare key q < 0" if "q \<in> fst ` set es" for q
      using that lt Cons.prems bstr_order.cmp_trans [of key k q]
      by (auto simp: p ordered_by_Cons keys_ok_def)
    with lt Cons.prems show ?thesis
      by (fastforce simp: p map_of_eq_None_iff bstr_order.cmp_self)
  qed
  with Cons show ?case
    by (auto simp: p Let_def ordered_by_Cons bstr_order.cmp_zero split: prod.split)
qed

lemma insert_set: "map fst (snd (dict_insert_loop es key val)) = map fst es \<or>
   (\<exists>xs ys. map fst es = xs @ ys \<and> map fst (snd (dict_insert_loop es key val)) = xs @ key # ys)"
proof (induction es)
  case Nil
  show ?case by simp
next
  case (Cons p es)
  obtain k v where p: "p = (k, v)" by (cases p)
  consider "benc_bstr_compare key k < 0" | "benc_bstr_compare key k = 0" | "0 < benc_bstr_compare key k"
    by linarith
  then show ?case
  proof cases
    case 1
    then have "map fst (snd (dict_insert_loop (p # es) key val)) = [] @ key # map fst (p # es)"
      by (simp add: p)
    then show ?thesis by blast
  next
    case 2
    then show ?thesis by (simp add: p)
  next
    case 3
    then have eq: "map fst (snd (dict_insert_loop (p # es) key val)) =
        k # map fst (snd (dict_insert_loop es key val))"
      by (simp add: p Let_def case_prod_beta)
    from Cons show ?thesis
    proof
      assume "map fst (snd (dict_insert_loop es key val)) = map fst es"
      with eq show ?thesis by (simp add: p)
    next
      assume "\<exists>xs ys. map fst es = xs @ ys \<and> map fst (snd (dict_insert_loop es key val)) = xs @ key # ys"
      then obtain xs ys where "map fst es = xs @ ys"
        "map fst (snd (dict_insert_loop es key val)) = xs @ key # ys" by blast
      with eq have "map fst (p # es) = (k # xs) @ ys \<and>
          map fst (snd (dict_insert_loop (p # es) key val)) = (k # xs) @ key # ys"
        by (simp add: p)
      then show ?thesis by blast
    qed
  qed
qed

lemma insert_key_in:
  "q \<in> fst ` set (snd (dict_insert_loop es key val)) \<Longrightarrow> q = key \<or> q \<in> fst ` set es"
  using insert_set [of es key val]
  by (metis Un_iff insert_iff list.set(2) list.set_map set_append)

lemma insert_keys:
  assumes "keys_ok es" "key_ok key"
  shows "keys_ok (snd (dict_insert_loop es key val))"
  unfolding keys_ok_def
proof
  fix p
  assume "p \<in> set (snd (dict_insert_loop es key val))"
  then have "fst p = key \<or> fst p \<in> fst ` set es" 
    by (intro insert_key_in [of _ _ _ val]) simp
  with assms show "key_ok (fst p)" by (auto simp: keys_ok_def)
qed

lemma insert_ordered:
  "keys_ok es \<Longrightarrow> key_ok key \<Longrightarrow> ordered_by benc_bstr_compare (map fst es) \<Longrightarrow>
   ordered_by benc_bstr_compare (map fst (snd (dict_insert_loop es key val)))"
proof (induction es)
  case Nil
  show ?case by (simp add: ordered_by_Cons)
next
  case (Cons p es)
  obtain k v where p: "p = (k, v)" by (cases p)
  let ?r = "snd (dict_insert_loop es key val)"
  consider "benc_bstr_compare key k < 0" | "benc_bstr_compare key k = 0" | "0 < benc_bstr_compare key k"
    by linarith
  then show ?case
  proof cases
    case 1
    with Cons.prems bstr_order.ordered_insert [of key "[]" "k # map fst es"] show ?thesis
      by (auto simp: p keys_ok_def)
  next
    case 2
    with Cons.prems show ?thesis by (simp add: p)
  next
    case 3
    have "benc_bstr_compare k q < 0" if "q \<in> fst ` set ?r" for q
    proof -
      from that have "q = key \<or> q \<in> fst ` set es" by (rule insert_key_in)
      with Cons.prems 3 bstr_order.cmp_swap [of k key] show ?thesis
        by (auto simp: p ordered_by_Cons)
    qed
    with 3 Cons show ?thesis
      by (auto simp: p Let_def ordered_by_Cons split: prod.split)
  qed
qed

lemma insert_map_of:
  "keys_ok es \<Longrightarrow> key_ok key \<Longrightarrow> ordered_by benc_bstr_compare (map fst es) \<Longrightarrow>
   map_of (snd (dict_insert_loop es key val)) k' =
     (if k' = key \<and> map_of es key = None then Some val else map_of es k')"
proof (induction es)
  case Nil
  show ?case by simp
next
  case (Cons p es)
  obtain k v where p: "p = (k, v)" by (cases p)
  have "map_of (p # es) key = None" if "benc_bstr_compare key k < 0"
    using insert_result [of "p # es" key val] Cons.prems that by (simp add: p)
  with Cons show ?case
    by (auto simp: p Let_def ordered_by_Cons bstr_order.cmp_zero bstr_order.cmp_self split: prod.split)
qed

lemma remove_lookup: "fst (dict_remove_loop es key) = dict_lookup_loop es key"
  by (induction es) (auto split: prod.split)

lemma remove_set: "set (snd (dict_remove_loop es key)) \<subseteq> set es"
  by (induction es) (auto simp: Let_def case_prod_beta split: if_splits)

lemma remove_keys: "keys_ok es \<Longrightarrow> keys_ok (snd (dict_remove_loop es key))"
  using remove_set [of es key] by (auto simp: keys_ok_def)

lemma remove_ordered:
  "ordered_by cmp (map fst es) \<Longrightarrow> ordered_by cmp (map fst (snd (dict_remove_loop es key)))"
proof (induction es)
  case Nil
  show ?case by simp
next
  case (Cons p es)
  then show ?case using remove_set [of es key]
    by (cases p) (auto simp: ordered_by_Cons split: prod.split)
qed

lemma remove_map_of:
  "keys_ok es \<Longrightarrow> key_ok key \<Longrightarrow> ordered_by benc_bstr_compare (map fst es) \<Longrightarrow>
   map_of (snd (dict_remove_loop es key)) k' = (if k' = key then None else map_of es k')"
proof (induction es)
  case Nil
  show ?case by simp
next
  case (Cons p es)
  obtain k v where p: "p = (k, v)" by (cases p)
  have "map_of es k = None"
    using Cons.prems by (fastforce simp: p ordered_by_Cons map_of_eq_None_iff bstr_order.cmp_self)
  with Cons show ?case
    by (auto simp: p ordered_by_Cons bstr_order.cmp_zero split: prod.split)
qed

interpretation dict_store: removable_store dict_lookup_loop dict_insert_loop dict_inv key_ok dict_remove_loop
  by unfold_locales
    (auto simp: dict_inv_def lookup_map_of insert_result insert_keys insert_ordered insert_map_of
      remove_lookup remove_keys remove_ordered remove_map_of)

end
