(* ===== verification/Benc_Decode.thy ===== *)
theory Benc_Decode
  imports Benc_Encode
begin

text \<open>
  The bencode decoder of \<^verbatim>\<open>libbenc\<close> and its properties: it stays inside a NUL-terminated
  buffer, it terminates, it inverts the encoder, and the inputs on which it crashes.
\<close>

section \<open>Reading from the buffer\<close>

text \<open>\<^verbatim>\<open>*(b->ptr)\<close>.\<close>

definition brd :: "bbuf \<Rightarrow> byte res" where
  "brd b = (if bptr b < length (bmem b) then Inr (bmem b ! bptr b) else Inl Out_Of_Bounds)"

definition bbuf_inc_ptr :: "bbuf \<Rightarrow> bool \<times> bbuf" where
  "bbuf_inc_ptr b =
     (let b' = b\<lparr>bptr := bptr b + 1\<rparr>
      in if blen b' < bptr b' then (False, b') else (True, b'))"

lemma bbuf_inc_ptr_eq: "bbuf_inc_ptr b = (bptr b + 1 \<le> blen b, b\<lparr>bptr := bptr b + 1\<rparr>)"
  by (simp add: bbuf_inc_ptr_def Let_def not_less)

section \<open>Integers\<close>

text \<open>
  The loop \<^verbatim>\<open>while (bbuf_inc_ptr(b)) ...\<close> of \<open>benc_int_decode\<close>: \<open>Some i\<close> when the terminator
  is found, \<open>None\<close> for \<^verbatim>\<open>return false\<close>. The multiplications and additions on \<open>*i_p\<close> are signed.
\<close>

function benc_int_decode_loop :: "bbuf \<Rightarrow> int \<Rightarrow> int \<Rightarrow> (int option \<times> bbuf) res" where
  "benc_int_decode_loop b sign i =
     (let (ok, b1) = bbuf_inc_ptr b
      in if \<not> ok then Inr (None, b1)
         else rbind (brd b1) (\<lambda>c.
           if is_digit c
           then rbind (chk64 (i * 10)) (\<lambda>j. rbind (chk64 (j + int (digit_val c)))
                  (\<lambda>k. benc_int_decode_loop b1 sign k))
           else if c = ch_e
           then rbind (chk64 (i * sign)) (\<lambda>j. Inr (Some j, snd (bbuf_inc_ptr b1)))
           else Inr (None, b1)))"
  by pat_completeness auto
termination
  by (relation "measure (\<lambda>(b, s, i). Suc (blen b) - bptr b)") (auto simp: bbuf_inc_ptr_eq)

declare benc_int_decode_loop.simps [simp del]

definition benc_int_decode :: "bbuf \<Rightarrow> (int option \<times> bbuf) res" where
  "benc_int_decode b =
     (let b1 = snd (bbuf_inc_ptr b)
      in rbind (brd b1) (\<lambda>c.
         if c = ch_minus then benc_int_decode_loop b1 (-1) 0
         else if is_digit c then benc_int_decode_loop b1 1 (int (digit_val c))
         else Inr (None, b1)))"

section \<open>Strings\<close>

text \<open>
  After the separator: the bound is checked on addresses, modulo \<open>2 ^ 64\<close>; the string is
  allocated; its bytes are copied.
\<close>

definition benc_bstr_decode_body :: "bbuf \<Rightarrow> nat \<Rightarrow> (bstr option \<times> bbuf) res" where
  "benc_bstr_decode_body b len =
     (if bbase b + blen b < (bbase b + bptr b + len) mod 2 ^ 64 then Inr (None, b)
      else case benc_bstr_new_alloc len of
             None \<Rightarrow> Inl Null_Deref
           | Some _ \<Rightarrow>
               if bptr b + len \<le> length (bmem b)
               then Inr (Some (take len (drop (bptr b) (bmem b))), b\<lparr>bptr := bptr b + len\<rparr>)
               else Inl Out_Of_Bounds)"

function benc_bstr_decode_loop :: "bbuf \<Rightarrow> nat \<Rightarrow> (bstr option \<times> bbuf) res" where
  "benc_bstr_decode_loop b len =
     rbind (brd b) (\<lambda>c.
       if is_digit c
       then let len' = ((len * 10) mod 2 ^ 64 + digit_val c) mod 2 ^ 64;
                (ok, b1) = bbuf_inc_ptr b
            in if ok then benc_bstr_decode_loop b1 len' else Inr (None, b1)
       else if c = ch_colon
       then benc_bstr_decode_body (snd (bbuf_inc_ptr b)) len
       else Inr (None, b))"
  by pat_completeness auto
termination
  by (relation "measure (\<lambda>(b, n). Suc (blen b) - bptr b)") (auto simp: bbuf_inc_ptr_eq)

declare benc_bstr_decode_loop.simps [simp del]

definition benc_bstr_decode :: "bbuf \<Rightarrow> (bstr option \<times> bbuf) res" where
  "benc_bstr_decode b = benc_bstr_decode_loop b 0"

section \<open>Objects\<close>

text \<open>
  \<open>bdec_mem\<close> calls the list and the dictionary decoder, whose loops call \<open>bdec_mem\<close>: the
  fuel counts the calls and the loop iterations. An empty container leaves the head
  pointer unwritten.
\<close>

definition list_result :: "bobj list \<Rightarrow> bobj" where
  "list_result es = (if es = [] then BENC_LIST_unset else BENC_LIST es)"

definition dict_result :: "dict_entries \<Rightarrow> bobj" where
  "dict_result es = (if es = [] then BENC_DICT_unset else BENC_DICT es)"

fun bdec_mem :: "nat \<Rightarrow> bbuf \<Rightarrow> (bobj option \<times> bbuf) res"
  and benc_list_decode_loop :: "nat \<Rightarrow> bbuf \<Rightarrow> bobj list \<Rightarrow> (bobj option \<times> bbuf) res"
  and benc_dict_decode_loop :: "nat \<Rightarrow> bbuf \<Rightarrow> dict_entries \<Rightarrow> (bobj option \<times> bbuf) res"
where
  "bdec_mem 0 b = Inl No_Return"
| "bdec_mem (Suc n) b =
     rbind (brd b) (\<lambda>c.
       if c = ch_i then rbind (benc_int_decode b) (\<lambda>(r, b1). Inr (map_option BENC_INT r, b1))
       else if c = ch_l then benc_list_decode_loop n (snd (bbuf_inc_ptr b)) []
       else if c = ch_d then benc_dict_decode_loop n (snd (bbuf_inc_ptr b)) []
       else if is_digit c then rbind (benc_bstr_decode b) (\<lambda>(r, b1). Inr (map_option BENC_BSTR r, b1))
       else Inr (None, b))"
| "benc_list_decode_loop 0 b es = Inl No_Return"
| "benc_list_decode_loop (Suc n) b es =
     rbind (brd b) (\<lambda>c.
       if c = ch_e then Inr (Some (list_result es), snd (bbuf_inc_ptr b))
       else rbind (bdec_mem n b) (\<lambda>(r, b1).
         case r of None \<Rightarrow> Inr (None, b1)
         | Some e \<Rightarrow> benc_list_decode_loop n b1 (es @ [e])))"
| "benc_dict_decode_loop 0 b es = Inl No_Return"
| "benc_dict_decode_loop (Suc n) b es =
     rbind (brd b) (\<lambda>c.
       if c = ch_e then Inr (Some (dict_result es), snd (bbuf_inc_ptr b))
       else rbind (benc_bstr_decode b) (\<lambda>(rk, b1).
         case rk of None \<Rightarrow> Inr (None, b1)
         | Some k \<Rightarrow> rbind (bdec_mem n b1) (\<lambda>(r, b2).
             case r of None \<Rightarrow> Inr (None, b2)
             | Some v \<Rightarrow> benc_dict_decode_loop n b2 (es @ [(k, v)]))))"

text \<open>The fuel that is always enough: two units for every byte the buffer can hold.\<close>

definition bdec_fuel :: "bbuf \<Rightarrow> nat" where
  "bdec_fuel b = 2 * (blen b + 2)"

section \<open>Memory safety and termination\<close>

text \<open>
  A buffer as \<open>dht_message_parse\<close> means to build it: \<open>len\<close> bytes and a NUL behind them,
  below the middle of the address space.
\<close>

definition nul_terminated :: "bbuf \<Rightarrow> bool" where
  "nul_terminated b \<longleftrightarrow>
     length (bmem b) = blen b + 1 \<and> bmem b ! blen b = 0 \<and> bbase b + blen b < 2 ^ 63"

text \<open>
  What a decoding step may do: crash on an absurd string length or an overflowing integer,
  fail, or succeed with the pointer advanced and still inside the buffer. The other
  faults, among them reading out of bounds and running out of fuel, are excluded.
\<close>

definition safe_res :: "bbuf \<Rightarrow> ('a option \<times> bbuf) res \<Rightarrow> bool" where
  "safe_res b r = (case r of
     Inl f \<Rightarrow> f = Null_Deref \<or> f = Signed_Overflow
   | Inr (x, b') \<Rightarrow> (\<exists>p. b' = b\<lparr>bptr := p\<rparr>) \<and> bptr b \<le> bptr b' \<and>
       (x \<noteq> None \<longrightarrow> bptr b < bptr b' \<and> bptr b' \<le> blen b))"

lemma safe_res_fail [simp]: "bptr b \<le> p \<Longrightarrow> safe_res b (Inr (None, b\<lparr>bptr := p\<rparr>))"
  by (auto simp: safe_res_def)

lemma safe_res_fail_here [simp]: "safe_res b (Inr (None, b))"
  unfolding safe_res_def by (auto intro: exI [of _ "bptr b"])

lemma safe_res_ok [simp]:
  "bptr b < p \<Longrightarrow> p \<le> blen b \<Longrightarrow> safe_res b (Inr (Some x, b\<lparr>bptr := p\<rparr>))"
  by (auto simp: safe_res_def)

lemma safe_res_crash [simp]:
  "safe_res b (Inl Null_Deref)" "safe_res b (Inl Signed_Overflow)"
  by (simp_all add: safe_res_def)

lemma safe_res_later:
  "safe_res (b\<lparr>bptr := p\<rparr>) r \<Longrightarrow> bptr b \<le> p \<Longrightarrow> safe_res b r"
  by (auto simp: safe_res_def split: sum.splits)

lemma safe_res_bind:
  assumes "safe_res b m"
    and "\<And>x p. m = Inr (Some x, b\<lparr>bptr := p\<rparr>) \<Longrightarrow> bptr b < p \<Longrightarrow> p \<le> blen b \<Longrightarrow>
      safe_res b (f (Some x, b\<lparr>bptr := p\<rparr>))"
    and "\<And>p. bptr b \<le> p \<Longrightarrow> safe_res b (f (None, b\<lparr>bptr := p\<rparr>))"
  shows "safe_res b (rbind m f)"
proof (cases m)
  case (Inl e)
  with assms(1) show ?thesis by (simp add: safe_res_def)
next
  case (Inr q)
  with assms(1) obtain x p where "q = (x, b\<lparr>bptr := p\<rparr>)" "bptr b \<le> p"
    "x \<noteq> None \<longrightarrow> bptr b < p \<and> p \<le> blen b"
    by (cases q) (auto simp: safe_res_def)
  with Inr assms(2,3) show ?thesis by (cases x) auto
qed

lemma nul_terminated_ptr [simp]: "nul_terminated (b\<lparr>bptr := p\<rparr>) = nul_terminated b"
  by (simp add: nul_terminated_def)

lemma brd_terminated:
  "nul_terminated b \<Longrightarrow> bptr b \<le> blen b \<Longrightarrow> brd b = Inr (bmem b ! bptr b)"
  by (simp add: brd_def nul_terminated_def)

lemma read_inside:
  assumes "nul_terminated b" "bptr b \<le> blen b" "bmem b ! bptr b \<noteq> 0"
  shows "bptr b < blen b"
  using assms by (cases "bptr b = blen b") (auto simp: nul_terminated_def)

lemma is_digit_not_0: "is_digit c \<Longrightarrow> c \<noteq> 0"
  by (auto simp: is_digit_def)

lemma chk64_safe: "safe_res b (rbind (chk64 i) f)" if "\<And>j. safe_res b (f j)"
  using that by (simp add: chk64_def)

lemma benc_int_decode_loop_safe:
  "nul_terminated b \<Longrightarrow> safe_res b (benc_int_decode_loop b sign i)"
proof (induction b sign i rule: benc_int_decode_loop.induct)
  case (1 b sign i)
  let ?b1 = "b\<lparr>bptr := bptr b + 1\<rparr>"
  show ?case
  proof (cases "bptr b + 1 \<le> blen b")
    case False
    then show ?thesis
      by (simp add: benc_int_decode_loop.simps [of b] bbuf_inc_ptr_eq)
  next
    case True
    let ?c = "bmem b ! (bptr b + 1)"
    have rd: "brd ?b1 = Inr ?c" using True 1(2) brd_terminated [of ?b1] by simp
    have "safe_res ?b1 (benc_int_decode_loop ?b1 sign k)"
      if "is_digit ?c" "chk64 (i * 10) = Inr j" "chk64 (j + int (digit_val ?c)) = Inr k" for j k
      using 1(1) [of "(True, ?b1)" True ?b1 ?c j k] that 1(2) True rd
      by (simp add: bbuf_inc_ptr_eq)
    then have digit: "safe_res b (rbind (chk64 (i * 10)) (\<lambda>j. rbind (chk64 (j + int (digit_val ?c)))
        (\<lambda>k. benc_int_decode_loop ?b1 sign k)))" if "is_digit ?c"
      using that by (auto simp: rbind_def chk64_def intro: safe_res_later [of "Suc (bptr b)"])
    have "safe_res b (rbind (chk64 (i * sign)) (\<lambda>j. Inr (Some j, snd (bbuf_inc_ptr ?b1))))"
      if "?c = ch_e"
      using read_inside [of ?b1] that 1(2) True by (intro chk64_safe) (simp add: bbuf_inc_ptr_eq)
    with digit True rd show ?thesis
      by (simp add: benc_int_decode_loop.simps [of b] bbuf_inc_ptr_eq)
  qed
qed

lemma benc_int_decode_safe:
  assumes "nul_terminated b" "bptr b < blen b"
  shows "safe_res b (benc_int_decode b)"
proof -
  let ?b1 = "b\<lparr>bptr := bptr b + 1\<rparr>"
  have "safe_res b (benc_int_decode_loop ?b1 s i)" for s i
    using assms by (intro safe_res_later [OF benc_int_decode_loop_safe]) simp_all
  moreover have "brd ?b1 = Inr (bmem b ! (bptr b + 1))"
    using assms brd_terminated [of ?b1] by simp
  ultimately show ?thesis by (simp add: benc_int_decode_def bbuf_inc_ptr_eq Let_def)
qed

lemma bstr_bound_no_wrap:
  assumes "nul_terminated b" "bptr b \<le> blen b" "len \<le> ptrdiff_max"
    and "\<not> bbase b + blen b < (bbase b + bptr b + len) mod 2 ^ 64"
  shows "bptr b + len \<le> blen b"
proof -
  have "bbase b + bptr b + len < 2 ^ 64"
    using assms by (simp add: nul_terminated_def ptrdiff_max_def)
  with assms(4) show ?thesis by simp
qed

lemma benc_bstr_decode_body_safe:
  assumes "nul_terminated b" "bptr b \<le> blen b"
  shows "safe_res b (benc_bstr_decode_body b len)"
  using bstr_bound_no_wrap [OF assms, of len] assms
  by (auto simp: benc_bstr_decode_body_def benc_bstr_new_alloc_def nul_terminated_def)

lemma benc_bstr_decode_loop_safe:
  "nul_terminated b \<Longrightarrow> bptr b \<le> blen b \<Longrightarrow> safe_res b (benc_bstr_decode_loop b len)"
proof (induction b len rule: benc_bstr_decode_loop.induct)
  case (1 b len)
  let ?b1 = "b\<lparr>bptr := bptr b + 1\<rparr>" and ?c = "bmem b ! bptr b"
  let ?len = "((len * 10) mod 2 ^ 64 + digit_val ?c) mod 2 ^ 64"
  have rd: "brd b = Inr ?c" using 1 brd_terminated by simp
  have "safe_res b (benc_bstr_decode_loop ?b1 ?len)" if "is_digit ?c" "bptr b + 1 \<le> blen b"
    using 1(1) [of ?c ?len "(True, ?b1)" True ?b1] that 1(2) rd
    by - (rule safe_res_later [of "bptr b + 1"], simp_all add: bbuf_inc_ptr_eq)
  moreover have "safe_res b (benc_bstr_decode_body ?b1 len)" if "?c = ch_colon"
    using 1(2,3) that read_inside [of b]
    by (intro safe_res_later [OF benc_bstr_decode_body_safe]) simp_all
  ultimately show ?case
    using rd by (simp add: benc_bstr_decode_loop.simps [of b] bbuf_inc_ptr_eq Let_def)
qed

lemma bdec_mem_safe:
  shows "nul_terminated b \<Longrightarrow> bptr b \<le> blen b \<Longrightarrow> 2 * (blen b - bptr b) + 1 \<le> n \<Longrightarrow>
      safe_res b (bdec_mem n b)"
    and "nul_terminated b \<Longrightarrow> bptr b \<le> blen b \<Longrightarrow> 2 * (blen b - bptr b) + 2 \<le> n \<Longrightarrow>
      safe_res b (benc_list_decode_loop n b es)"
    and "nul_terminated b \<Longrightarrow> bptr b \<le> blen b \<Longrightarrow> 2 * (blen b - bptr b) + 2 \<le> n \<Longrightarrow>
      safe_res b (benc_dict_decode_loop n b ds)"
proof (induction n b and n b es and n b ds
    rule: bdec_mem_benc_list_decode_loop_benc_dict_decode_loop.induct)
  case (2 n b)
  let ?b1 = "b\<lparr>bptr := bptr b + 1\<rparr>" and ?c = "bmem b ! bptr b"
  have rd: "brd b = Inr ?c" using "2.prems" brd_terminated by simp
  have inside: "bptr b < blen b" if "?c \<noteq> 0" using "2.prems" that read_inside by blast
  have "safe_res b (rbind (benc_int_decode b) (\<lambda>(r, b1). Inr (map_option BENC_INT r, b1)))"
    if "?c = ch_i"
    using "2.prems" inside that by (intro safe_res_bind [OF benc_int_decode_safe]) auto
  moreover have "safe_res b (benc_list_decode_loop n ?b1 [])" if "?c = ch_l"
    using "2.IH"(1) [of ?c] that rd "2.prems" inside
    by - (rule safe_res_later [of "bptr b + 1"], simp_all add: bbuf_inc_ptr_eq)
  moreover have "safe_res b (benc_dict_decode_loop n ?b1 [])" if "?c = ch_d"
    using "2.IH"(2) [of ?c] that rd "2.prems" inside
    by - (rule safe_res_later [of "bptr b + 1"], simp_all add: bbuf_inc_ptr_eq)
  moreover have "safe_res b (rbind (benc_bstr_decode b) (\<lambda>(r, b1). Inr (map_option BENC_BSTR r, b1)))"
    using "2.prems" by (intro safe_res_bind) (auto simp: benc_bstr_decode_def benc_bstr_decode_loop_safe)
  ultimately show ?case using rd by (simp add: bbuf_inc_ptr_eq)
next
  case (4 n b es)
  let ?c = "bmem b ! bptr b"
  have rd: "brd b = Inr ?c" using "4.prems" brd_terminated by simp
  have fin: "Suc (bptr b) \<le> blen b" if "?c = ch_e" using "4.prems" that read_inside by fastforce
  have "safe_res b (rbind (bdec_mem n b) (\<lambda>(r, b1). case r of None \<Rightarrow> Inr (None, b1)
      | Some e \<Rightarrow> benc_list_decode_loop n b1 (es @ [e])))" if "?c \<noteq> ch_e"
  proof (rule safe_res_bind)
    show "safe_res b (bdec_mem n b)" using "4.IH"(1) rd that "4.prems" by simp
  next
    fix e p
    assume m: "bdec_mem n b = Inr (Some e, b\<lparr>bptr := p\<rparr>)" and p: "bptr b < p" "p \<le> blen b"
    have "safe_res (b\<lparr>bptr := p\<rparr>) (benc_list_decode_loop n (b\<lparr>bptr := p\<rparr>) (es @ [e]))"
      using "4.IH"(2) [OF rd that m refl refl] p "4.prems" by simp
    with p show "safe_res b (case (Some e, b\<lparr>bptr := p\<rparr>) of (r, b1) \<Rightarrow>
        case r of None \<Rightarrow> Inr (None, b1) | Some e \<Rightarrow> benc_list_decode_loop n b1 (es @ [e]))"
      by (simp add: safe_res_later)
  qed simp
  with rd fin show ?case by (simp add: bbuf_inc_ptr_eq)
next
  case (6 n b ds)
  let ?c = "bmem b ! bptr b"
  have rd: "brd b = Inr ?c" using "6.prems" brd_terminated by simp
  have fin: "Suc (bptr b) \<le> blen b" if "?c = ch_e" using "6.prems" that read_inside by fastforce
  let ?step = "\<lambda>k b1. rbind (bdec_mem n b1) (\<lambda>(r, b2). case r of None \<Rightarrow> Inr (None, b2)
      | Some v \<Rightarrow> benc_dict_decode_loop n b2 (ds @ [(k, v)]))"
  have "safe_res b (rbind (benc_bstr_decode b) (\<lambda>(rk, b1). case rk of None \<Rightarrow> Inr (None, b1)
      | Some k \<Rightarrow> ?step k b1))" if c: "?c \<noteq> ch_e"
  proof (rule safe_res_bind)
    show "safe_res b (benc_bstr_decode b)"
      using "6.prems" by (simp add: benc_bstr_decode_def benc_bstr_decode_loop_safe)
  next
    fix k p
    assume m: "benc_bstr_decode b = Inr (Some k, b\<lparr>bptr := p\<rparr>)" and p: "bptr b < p" "p \<le> blen b"
    let ?b1 = "b\<lparr>bptr := p\<rparr>"
    have "safe_res ?b1 (?step k ?b1)"
    proof (rule safe_res_bind)
      show "safe_res ?b1 (bdec_mem n ?b1)"
        using "6.IH"(1) [OF rd c m refl refl] p "6.prems" by simp
    next
      fix v q
      assume m2: "bdec_mem n ?b1 = Inr (Some v, ?b1\<lparr>bptr := q\<rparr>)"
        and q: "bptr ?b1 < q" "q \<le> blen ?b1"
      have "safe_res (?b1\<lparr>bptr := q\<rparr>) (benc_dict_decode_loop n (?b1\<lparr>bptr := q\<rparr>) (ds @ [(k, v)]))"
        using "6.IH"(2) [OF rd c m refl refl m2 refl refl] p q "6.prems" by simp
      with q show "safe_res ?b1 (case (Some v, ?b1\<lparr>bptr := q\<rparr>) of (r, b2) \<Rightarrow>
          case r of None \<Rightarrow> Inr (None, b2) | Some v \<Rightarrow> benc_dict_decode_loop n b2 (ds @ [(k, v)]))"
        using safe_res_later [of q ?b1] by simp
    qed (auto simp: safe_res_def)
    with p show "safe_res b (case (Some k, b\<lparr>bptr := p\<rparr>) of (rk, b1) \<Rightarrow>
        case rk of None \<Rightarrow> Inr (None, b1) | Some k \<Rightarrow> ?step k b1)"
      by (simp add: safe_res_later)
  qed simp
  with rd fin show ?case by (simp add: bbuf_inc_ptr_eq)
qed simp_all

section \<open>The decoder inverts the encoder\<close>

text \<open>
  The objects that survive a round trip: integers strictly between the 64-bit limits,
  and no empty string, list or dictionary.
\<close>

fun decodable :: "bobj \<Rightarrow> bool" where
  "decodable (BENC_INT i) = (- (2 ^ 63) < i \<and> i < 2 ^ 63)"
| "decodable (BENC_BSTR s) = (s \<noteq> [] \<and> length s \<le> ptrdiff_max)"
| "decodable (BENC_LIST es) = (es \<noteq> [] \<and> list_all decodable es)"
| "decodable (BENC_DICT es) =
     (es \<noteq> [] \<and> list_all (\<lambda>(k, v). k \<noteq> [] \<and> length k \<le> ptrdiff_max \<and> decodable v) es)"
| "decodable BENC_LIST_unset = False"
| "decodable BENC_DICT_unset = False"

text \<open>
  An empty list or dictionary can be decoded too, but its head pointer is not written:
  \<open>decoded\<close> is what the decoder makes of a text.
\<close>

fun readable :: "bobj \<Rightarrow> bool" where
  "readable (BENC_INT i) = (- (2 ^ 63) < i \<and> i < 2 ^ 63)"
| "readable (BENC_BSTR s) = (s \<noteq> [] \<and> length s \<le> ptrdiff_max)"
| "readable (BENC_LIST es) = list_all readable es"
| "readable (BENC_DICT es) = list_all (\<lambda>(k, v). k \<noteq> [] \<and> length k \<le> ptrdiff_max \<and> readable v) es"
| "readable BENC_LIST_unset = False"
| "readable BENC_DICT_unset = False"

primrec decoded :: "bobj \<Rightarrow> bobj" where
  "decoded (BENC_INT i) = BENC_INT i"
| "decoded (BENC_BSTR s) = BENC_BSTR s"
| "decoded (BENC_LIST es) = list_result (map decoded es)"
| "decoded (BENC_DICT es) = dict_result (map (map_prod id decoded) es)"
| "decoded BENC_LIST_unset = BENC_LIST_unset"
| "decoded BENC_DICT_unset = BENC_DICT_unset"

lemma decodable_readable: "decodable x \<Longrightarrow> readable x"
  by (induction x) (auto simp: list_all_iff)

lemma decodable_decoded: "decodable x \<Longrightarrow> decoded x = x"
proof (induction x)
  case (BENC_LIST es)
  then have "map decoded es = es" by (intro map_idI) (simp add: list_all_iff)
  with BENC_LIST.prems show ?case by (simp add: list_result_def)
next
  case (BENC_DICT es)
  then have "map (map_prod id decoded) es = es"
    by (intro map_idI) (fastforce simp: list_all_iff)
  with BENC_DICT.prems show ?case by (simp add: dict_result_def)
qed simp_all

definition text_at :: "bbuf \<Rightarrow> byte list \<Rightarrow> bool" where
  "text_at b s \<longleftrightarrow> (\<exists>rest. drop (bptr b) (bmem b) = s @ rest) \<and> bptr b + length s \<le> blen b"

definition adv :: "bbuf \<Rightarrow> nat \<Rightarrow> bbuf" where
  "adv b n = b\<lparr>bptr := bptr b + n\<rparr>"

lemma adv_simps [simp]:
  "bmem (adv b n) = bmem b" "blen (adv b n) = blen b" "bbase (adv b n) = bbase b"
  "bptr (adv b n) = bptr b + n" "adv (adv b n) m = adv b (n + m)" "adv b 0 = b"
  by (simp_all add: adv_def add.assoc)

lemma adv_1: "b\<lparr>bptr := Suc (bptr b)\<rparr> = adv b 1"
  by (simp add: adv_def)

lemma brd_text: "text_at b (c # s) \<Longrightarrow> brd b = Inr c"
  unfolding text_at_def brd_def
  by (metis append_Cons drop_all hd_drop_conv_nth leI list.distinct(1) list.sel(1))

lemma text_at_append: "text_at b (s @ t) \<longleftrightarrow> text_at b s \<and> text_at (adv b (length s)) t"
  unfolding text_at_def
  by (auto simp: add.assoc append_eq_conv_conj drop_drop add.commute)
    (metis append.assoc append_eq_conv_conj drop_drop add.commute)+

lemma text_at_Cons: "text_at b (c # s) \<longleftrightarrow> text_at b [c] \<and> text_at (adv b 1) s"
  using text_at_append [of b "[c]" s] by simp

lemma inc_text: "text_at (adv b 1) (c # s) \<Longrightarrow> bbuf_inc_ptr b = (True, adv b 1)"
  by (simp add: bbuf_inc_ptr_eq text_at_def adv_def)

lemma inc_adv: "snd (bbuf_inc_ptr b) = adv b 1"
  by (simp add: bbuf_inc_ptr_eq adv_def)

lemma int_loop_digits:
  assumes "text_at (adv b 1) (dec_digits n)" "int n < 2 ^ 63"
  shows "benc_int_decode_loop b sg 0 = benc_int_decode_loop (adv b (length (dec_digits n))) sg (int n)"
  using assms
proof (induction n rule: dec_digits.induct)
  case (1 n)
  have step: "benc_int_decode_loop b' sg (int (n div 10)) = benc_int_decode_loop (adv b' 1) sg (int n)"
    if "text_at (adv b' 1) [digit_byte n]" for b'
  proof -
    have "int (n div 10) * 10 + int (n mod 10) = int n" by presburger
    moreover have "chk64 (int (n div 10) * 10) = Inr (int (n div 10) * 10)"
      using "1.prems"(2) by (intro chk64_fits) linarith+
    moreover have "chk64 (int n) = Inr (int n)" using "1.prems"(2) by (intro chk64_fits) simp_all
    ultimately show ?thesis
      using that inc_text [OF that] brd_text [OF that]
      by (simp add: benc_int_decode_loop.simps [of b'])
  qed
  show ?case
  proof (cases "0 < n div 10")
    case True
    then have d: "dec_digits n = dec_digits (n div 10) @ [digit_byte n]"
      by (simp add: dec_digits.simps [of n])
    with "1.prems" have t: "text_at (adv b 1) (dec_digits (n div 10))"
      "text_at (adv (adv b (length (dec_digits (n div 10)))) 1) [digit_byte n]"
      by (simp_all add: text_at_append add.commute)
    have "int (n div 10) < 2 ^ 63" using "1.prems"(2) by linarith
    from "1.IH" [OF True t(1) this] step [OF t(2)] show ?thesis by (simp add: d)
  next
    case False
    then have d: "dec_digits n = [digit_byte n]" "n div 10 = 0" by (simp_all add: dec_digits.simps [of n])
    with "1.prems" step [of b] show ?thesis by simp
  qed
qed

lemma int_loop_end:
  assumes "text_at (adv b 1) [ch_e]" "- (2 ^ 63) \<le> i * sg" "i * sg < 2 ^ 63"
  shows "benc_int_decode_loop b sg i = Inr (Some (i * sg), adv b 2)"
  using assms inc_text [OF assms(1)] brd_text [OF assms(1)]
  by (simp add: benc_int_decode_loop.simps [of b] bbuf_inc_ptr_eq adv_def)

lemma dec_digits_first: obtains c s where "dec_digits n = c # s" "is_digit c"
proof (induction n arbitrary: thesis rule: dec_digits.induct)
  case (1 n)
  show ?case
  proof (cases "0 < n div 10")
    case True
    obtain c s where "dec_digits (n div 10) = c # s" "is_digit c" using "1.IH" [OF True] by blast
    with True "1.prems" [of c "s @ [digit_byte n]"] show ?thesis
      by (simp add: dec_digits.simps [of n])
  next
    case False
    with "1.prems" [of "digit_byte n" "[]"] show ?thesis by (simp add: dec_digits.simps [of n])
  qed
qed

text \<open>
  A leading digit is handled outside the loop; it is the same as entering the loop with
  the accumulator 0.
\<close>

lemma benc_int_decode_first_digit:
  assumes "text_at (adv b 1) [c]" "is_digit c"
  shows "benc_int_decode b = benc_int_decode_loop b 1 0"
proof -
  have "c \<noteq> ch_minus" using assms(2) by auto
  moreover have "digit_val c < 10" using assms(2) by (rule digit_val_less)
  ultimately show ?thesis
    using assms inc_text [OF assms(1)] brd_text [OF assms(1)]
    by (simp add: benc_int_decode_def benc_int_decode_loop.simps [of b])
qed

lemma benc_int_decode_text:
  assumes "text_at b (bencoding (BENC_INT i))" "- (2 ^ 63) < i" "i < 2 ^ 63"
  shows "benc_int_decode b = Inr (Some i, adv b (length (bencoding (BENC_INT i))))"
proof (cases "i < 0")
  case True
  let ?d = "dec_digits (nat (- i))"
  have t: "text_at (adv b 1) [ch_minus]" "text_at (adv (adv b 1) 1) ?d"
    "text_at (adv (adv b (1 + length ?d)) 1) [ch_e]"
    using assms(1) True by (simp_all add: int_text_def text_at_Cons [of _ _ "_ # _"]
        text_at_Cons [of _ _ "_ @ _"] text_at_append add.commute)
  have "benc_int_decode b = benc_int_decode_loop (adv b 1) (-1) 0"
    using inc_text [OF t(1)] brd_text [OF t(1)] by (simp add: benc_int_decode_def)
  also have "\<dots> = benc_int_decode_loop (adv b (1 + length ?d)) (-1) (- i)"
    using int_loop_digits [OF t(2)] True assms(2) by simp
  also have "\<dots> = Inr (Some i, adv b (length (bencoding (BENC_INT i))))"
    using int_loop_end [OF t(3), of "- i" "-1"] True assms(2,3) by (simp add: int_text_def)
  finally show ?thesis .
next
  case False
  let ?d = "dec_digits (nat i)"
  have t: "text_at (adv b 1) ?d" "text_at (adv (adv b (length ?d)) 1) [ch_e]"
    using assms(1) False by (simp_all add: int_text_def
        text_at_Cons [of _ _ "_ @ _"] text_at_append add.commute)
  obtain c s where "?d = c # s" "is_digit c" by (rule dec_digits_first)
  with t(1) have "benc_int_decode b = benc_int_decode_loop b 1 0"
    using text_at_Cons [of _ c s] by (intro benc_int_decode_first_digit) auto
  also have "\<dots> = benc_int_decode_loop (adv b (length ?d)) 1 i"
    using int_loop_digits [OF t(1)] False assms(3) by simp
  also have "\<dots> = Inr (Some i, adv b (length (bencoding (BENC_INT i))))"
    using int_loop_end [OF t(2), of i 1] False assms(2,3) by (simp add: int_text_def)
  finally show ?thesis .
qed

lemma bstr_loop_digits:
  assumes "text_at b (dec_digits n @ c # s)" "n < 2 ^ 64"
  shows "benc_bstr_decode_loop b 0 = benc_bstr_decode_loop (adv b (length (dec_digits n))) n"
  using assms
proof (induction n arbitrary: c s rule: dec_digits.induct)
  case (1 n)
  have step: "benc_bstr_decode_loop b' (n div 10) = benc_bstr_decode_loop (adv b' 1) n"
    if t: "text_at b' [digit_byte n]" "text_at (adv b' 1) (c # s)" for b'
  proof -
    have "((n div 10 * 10) mod 2 ^ 64 + n mod 10) mod 2 ^ 64 = n"
      using "1.prems"(2) by (simp add: mod_less)
    then show ?thesis
      using inc_text [OF t(2)] brd_text [OF t(1)]
      by (simp add: benc_bstr_decode_loop.simps [of b'])
  qed
  show ?case
  proof (cases "0 < n div 10")
    case True
    then have d: "dec_digits n = dec_digits (n div 10) @ [digit_byte n]"
      by (simp add: dec_digits.simps [of n])
    with "1.prems" have t: "text_at b (dec_digits (n div 10) @ digit_byte n # c # s)"
      "text_at (adv b (length (dec_digits (n div 10)))) [digit_byte n]"
      "text_at (adv (adv b (length (dec_digits (n div 10)))) 1) (c # s)"
      using text_at_Cons [of _ "digit_byte n" "c # s"] by (simp_all add: text_at_append)
    have "n div 10 < 2 ^ 64" using "1.prems"(2) by linarith
    from "1.IH" [OF True t(1) this] step [OF t(2,3)] show ?thesis by (simp add: d)
  next
    case False
    then have d: "dec_digits n = [digit_byte n]" "n div 10 = 0" by (simp_all add: dec_digits.simps [of n])
    with "1.prems" step [of b] text_at_Cons [of _ "digit_byte n" "c # s"] show ?thesis by simp
  qed
qed

lemma benc_bstr_decode_text:
  assumes "text_at b (bstr_text s)" "s \<noteq> []" "length s \<le> ptrdiff_max" "bbase b + blen b < 2 ^ 63"
  shows "benc_bstr_decode b = Inr (Some s, adv b (length (bstr_text s)))"
proof -
  let ?d = "dec_digits (length s)"
  let ?b1 = "adv b (length ?d)" and ?b2 = "adv b (length ?d + 1)"
  have t: "text_at b (?d @ ch_colon # s)" "text_at ?b1 [ch_colon]" "text_at ?b2 s"
    using assms(1) text_at_Cons [of _ ch_colon s] by (simp_all add: bstr_text_def text_at_append)
  have "length s < 2 ^ 64" using assms(3) by (simp add: ptrdiff_max_def)
  with t(1) have "benc_bstr_decode b = benc_bstr_decode_loop ?b1 (length s)"
    unfolding benc_bstr_decode_def by (rule bstr_loop_digits)
  also have "\<dots> = benc_bstr_decode_body ?b2 (length s)"
    using brd_text [OF t(2)]
    by (simp add: benc_bstr_decode_loop.simps [of ?b1] inc_adv)
  also have "\<dots> = Inr (Some s, adv ?b2 (length s))"
  proof -
    obtain rest where rest: "drop (bptr ?b2) (bmem b) = s @ rest"
      using t(3) by (auto simp: text_at_def)
    have le: "bptr ?b2 + length s \<le> blen b" using t(3) by (simp add: text_at_def)
    then have "(bbase b + bptr ?b2 + length s) mod 2 ^ 64 = bbase b + bptr ?b2 + length s"
      using assms(4) by simp
    moreover have "length (bmem b) - bptr ?b2 = length s + length rest"
      using arg_cong [OF rest, of length] by simp
    then have "bptr ?b2 + length s \<le> length (bmem b)" using assms(2) by (cases s) auto
    ultimately show ?thesis
      using rest le assms(2,3) by (simp add: benc_bstr_decode_body_def benc_bstr_new_alloc_def adv_def)
  qed
  finally show ?thesis by (simp add: bstr_text_def)
qed

text \<open>The fuel for a round trip, by the length of the text.\<close>

lemma bencoding_first:
  assumes "readable o'"
  obtains c s where "bencoding o' = c # s" "c \<noteq> ch_e"
proof (cases o')
  case (BENC_BSTR t)
  obtain c s where "dec_digits (length t) = c # s" "is_digit c" by (rule dec_digits_first)
  moreover from this have "c \<noteq> ch_e" by auto
  ultimately show ?thesis
    using BENC_BSTR that [of c "s @ ch_colon # t"] by (simp add: bstr_text_def)
qed (use assms that in auto)

lemma bstr_text_first: obtains c s where "bstr_text k = c # s" "c \<noteq> ch_e" "is_digit c"
proof -
  obtain c s where "dec_digits (length k) = c # s" "is_digit c" by (rule dec_digits_first)
  moreover from this have "c \<noteq> ch_e" by auto
  ultimately show ?thesis
    using that [of c "s @ ch_colon # k"] by (simp add: bstr_text_def)
qed

abbreviation entry_text :: "bstr \<times> bobj \<Rightarrow> byte list" where
  "entry_text \<equiv> \<lambda>(k, v). bstr_text k @ bencoding v"

abbreviation entry_ok :: "bstr \<times> bobj \<Rightarrow> bool" where
  "entry_ok \<equiv> \<lambda>(k, v). k \<noteq> [] \<and> length k \<le> ptrdiff_max \<and> readable v"

definition decodes_to :: "bobj \<Rightarrow> bool" where
  "decodes_to o' \<longleftrightarrow> (\<forall>b n. text_at b (bencoding o') \<longrightarrow> bbase b + blen b < 2 ^ 63 \<longrightarrow>
     2 * length (bencoding o') \<le> n \<longrightarrow>
     bdec_mem n b = Inr (Some (decoded o'), adv b (length (bencoding o'))))"

lemma decodes_toD:
  "decodes_to o' \<Longrightarrow> text_at b (bencoding o') \<Longrightarrow> bbase b + blen b < 2 ^ 63 \<Longrightarrow>
   2 * length (bencoding o') \<le> n \<Longrightarrow>
   bdec_mem n b = Inr (Some (decoded o'), adv b (length (bencoding o')))"
  by (simp add: decodes_to_def)

lemma list_loop_text:
  assumes "\<forall>e \<in> set es. decodes_to e \<and> readable e"
    and "text_at b (concat (map bencoding es) @ [ch_e])" "bbase b + blen b < 2 ^ 63"
    and "2 * length (concat (map bencoding es)) + 2 \<le> n"
  shows "benc_list_decode_loop n b acc =
    Inr (Some (list_result (acc @ map decoded es)), adv b (length (concat (map bencoding es)) + 1))"
  using assms
proof (induction es arbitrary: b n acc)
  case Nil
  then obtain m where "n = Suc m" by (cases n) auto
  with Nil brd_text [of b ch_e "[]"] show ?case by (simp add: inc_adv)
next
  case (Cons e es)
  let ?b1 = "adv b (length (bencoding e))"
  from Cons.prems(4) obtain m where n: "n = Suc m" by (cases n) auto
  obtain c s where c: "bencoding e = c # s" "c \<noteq> ch_e"
    using bencoding_first [of e] Cons.prems(1) by auto
  have t: "text_at b (bencoding e)" "text_at ?b1 (concat (map bencoding es) @ [ch_e])"
    using Cons.prems(2) by (simp_all add: text_at_append)
  have "bdec_mem m b = Inr (Some (decoded e), ?b1)"
    using Cons.prems(1,3,4) t(1) unfolding decodes_to_def n by simp
  moreover have "benc_list_decode_loop m ?b1 (acc @ [decoded e]) =
      Inr (Some (list_result ((acc @ [decoded e]) @ map decoded es)), adv ?b1 (length (concat (map bencoding es)) + 1))"
    using Cons.prems t(2) c by (intro Cons.IH) (simp_all add: n)
  ultimately show ?case
    using brd_text [of b c s] t(1) c by (simp add: n add.assoc)
qed

lemma dict_loop_text:
  assumes "\<forall>p \<in> set ds. decodes_to (snd p) \<and> entry_ok p"
    and "text_at b (concat (map entry_text ds) @ [ch_e])" "bbase b + blen b < 2 ^ 63"
    and "2 * length (concat (map entry_text ds)) + 2 \<le> n"
  shows "benc_dict_decode_loop n b acc =
    Inr (Some (dict_result (acc @ map (map_prod id decoded) ds)), adv b (length (concat (map entry_text ds)) + 1))"
  using assms
proof (induction ds arbitrary: b n acc)
  case Nil
  then obtain m where "n = Suc m" by (cases n) auto
  with Nil brd_text [of b ch_e "[]"] show ?case by (simp add: inc_adv)
next
  case (Cons p ds)
  obtain k v where p: "p = (k, v)" by (cases p)
  let ?b1 = "adv b (length (bstr_text k))"
  let ?b2 = "adv ?b1 (length (bencoding v))"
  from Cons.prems(4) obtain m where n: "n = Suc m" by (cases n) auto
  obtain c s where c: "bstr_text k = c # s" "c \<noteq> ch_e" by (rule bstr_text_first)
  have t: "text_at b (bstr_text k)" "text_at ?b1 (bencoding v)"
    "text_at ?b2 (concat (map entry_text ds) @ [ch_e])"
    using Cons.prems(2) by (simp_all add: p text_at_append)
  have "benc_bstr_decode b = Inr (Some k, ?b1)"
    using Cons.prems(1,3) t(1) by (intro benc_bstr_decode_text) (simp_all add: p)
  moreover have "bdec_mem m ?b1 = Inr (Some (decoded v), ?b2)"
    using Cons.prems(1,3,4) t(2) unfolding decodes_to_def n p by simp
  moreover have "benc_dict_decode_loop m ?b2 (acc @ [(k, decoded v)]) =
      Inr (Some (dict_result ((acc @ [(k, decoded v)]) @ map (map_prod id decoded) ds)), adv ?b2 (length (concat (map entry_text ds)) + 1))"
    using Cons.prems t(3) c by (intro Cons.IH) (simp_all add: n p)
  ultimately show ?case
    using brd_text [of b c s] t(1) c by (simp add: n p add.assoc id_def)
qed

lemma bdec_mem_text: "readable o' \<Longrightarrow> decodes_to o'"
proof (induction o')
  case (BENC_INT i)
  show ?case unfolding decodes_to_def
  proof (intro allI impI)
    fix b n
    assume t: "text_at b (bencoding (BENC_INT i))" and n: "2 * length (bencoding (BENC_INT i)) \<le> n"
    then obtain m where "n = Suc m" by (cases n) auto
    with t BENC_INT benc_int_decode_text [of b i] brd_text [of b ch_i "int_text i @ [ch_e]"]
    show "bdec_mem n b = Inr (Some (decoded (BENC_INT i)), adv b (length (bencoding (BENC_INT i))))"
      by simp
  qed
next
  case (BENC_BSTR s)
  show ?case unfolding decodes_to_def
  proof (intro allI impI)
    fix b n
    assume t: "text_at b (bencoding (BENC_BSTR s))" "bbase b + blen b < 2 ^ 63"
      and n: "2 * length (bencoding (BENC_BSTR s)) \<le> n"
    then obtain m where "n = Suc m" by (cases n) (auto simp: bstr_text_def)
    moreover obtain c cs where c: "bstr_text s = c # cs" "is_digit c" by (rule bstr_text_first)
    moreover from c t have "brd b = Inr c" using brd_text [of b c cs] by simp
    ultimately show "bdec_mem n b = Inr (Some (decoded (BENC_BSTR s)), adv b (length (bencoding (BENC_BSTR s))))"
      using t BENC_BSTR benc_bstr_decode_text [of b s] by auto
  qed
next
  case (BENC_LIST es)
  show ?case unfolding decodes_to_def
  proof (intro allI impI)
    fix b n
    assume t: "text_at b (bencoding (BENC_LIST es))" "bbase b + blen b < 2 ^ 63"
      and n: "2 * length (bencoding (BENC_LIST es)) \<le> n"
    then obtain m where m: "n = Suc m" by (cases n) auto
    from t have "text_at b [ch_l]" and t1: "text_at (adv b 1) (concat (map bencoding es) @ [ch_e])"
      by (simp_all add: text_at_Cons [of _ _ "_ @ _"])
    have "benc_list_decode_loop m (adv b 1) [] =
        Inr (Some (list_result ([] @ map decoded es)), adv (adv b 1) (length (concat (map bencoding es)) + 1))"
      using BENC_LIST t t1 n m by (intro list_loop_text) (auto simp: list_all_iff)
    with \<open>text_at b [ch_l]\<close> BENC_LIST.prems m brd_text [of b ch_l "[]"]
    show "bdec_mem n b = Inr (Some (decoded (BENC_LIST es)), adv b (length (bencoding (BENC_LIST es))))"
      by (simp add: inc_adv)
  qed
next
  case (BENC_DICT ds)
  show ?case unfolding decodes_to_def
  proof (intro allI impI)
    fix b n
    assume t: "text_at b (bencoding (BENC_DICT ds))" "bbase b + blen b < 2 ^ 63"
      and n: "2 * length (bencoding (BENC_DICT ds)) \<le> n"
    then obtain m where m: "n = Suc m" by (cases n) auto
    from t have "text_at b [ch_d]" and t1: "text_at (adv b 1) (concat (map entry_text ds) @ [ch_e])"
      by (simp_all add: text_at_Cons [of _ _ "_ @ _"])
    have "\<forall>p \<in> set ds. decodes_to (snd p) \<and> entry_ok p"
      using BENC_DICT by (fastforce simp: list_all_iff)
    then have "benc_dict_decode_loop m (adv b 1) [] =
        Inr (Some (dict_result ([] @ map (map_prod id decoded) ds)), adv (adv b 1) (length (concat (map entry_text ds)) + 1))"
      using t t1 n m by (intro dict_loop_text) auto
    with \<open>text_at b [ch_d]\<close> BENC_DICT.prems m brd_text [of b ch_d "[]"]
    show "bdec_mem n b = Inr (Some (decoded (BENC_DICT ds)), adv b (length (bencoding (BENC_DICT ds))))"
      by (simp add: inc_adv)
  qed
qed simp_all

section \<open>Overflow and crashes\<close>

lemma int_loop_overflow:
  assumes "text_at (adv b 1) (dec_digits n)" "2 ^ 63 \<le> int n"
  shows "benc_int_decode_loop b sg 0 = Inl Signed_Overflow"
  using assms
proof (induction n rule: dec_digits.induct)
  case (1 n)
  have "0 < n div 10" using "1.prems"(2) by (simp add: div_greater_zero_iff)
  then have d: "dec_digits n = dec_digits (n div 10) @ [digit_byte n]"
    by (subst dec_digits.simps) simp
  have t: "text_at (adv b 1) (dec_digits (n div 10))"
    "text_at (adv (adv b (length (dec_digits (n div 10)))) 1) [digit_byte n]"
    using "1.prems"(1) unfolding d by (simp_all add: text_at_append add.commute)
  show ?case
  proof (cases "2 ^ 63 \<le> int (n div 10)")
    case True
    with "1.IH" t(1) show ?thesis by simp
  next
    case False
    let ?b = "adv b (length (dec_digits (n div 10)))"
    have n: "int (n div 10) * 10 + int (n mod 10) = int n" by presburger
    have "benc_int_decode_loop b sg 0 = benc_int_decode_loop ?b sg (int (n div 10))"
      using False by (intro int_loop_digits [OF t(1)]) simp
    also have "\<dots> = Inl Signed_Overflow"
      using n "1.prems"(2) inc_text [OF t(2)] brd_text [OF t(2)]
      by (simp add: benc_int_decode_loop.simps [of ?b] chk64_def)
    finally show ?thesis .
  qed
qed

lemmas bdec_numeral =
  bdec_mem.simps(2) [of "pred_numeral v" for v, folded numeral_eq_Suc]
  benc_list_decode_loop.simps(2) [of "pred_numeral v" for v, folded numeral_eq_Suc]
  benc_dict_decode_loop.simps(2) [of "pred_numeral v" for v, folded numeral_eq_Suc]

lemmas bdec_eval = bdec_numeral brd_def bbuf_inc_ptr_eq benc_int_decode_def
  benc_int_decode_loop.simps benc_bstr_decode_def benc_bstr_decode_loop.simps
  benc_bstr_decode_body_def benc_bstr_new_alloc_def ptrdiff_max_def is_digit_def digit_val_def
  Let_def chk64_def list_result_def dict_result_def bdec_fuel_def bbuf_new_def

section \<open>Properties of the bencode library\<close>

text \<open>C1. Encoding an object into a buffer of exactly its representation size and decoding the
  buffer again gives the object back and consumes the whole text, for every object without
  empty strings or containers and with integers strictly inside the 64-bit range.\<close>

theorem bencode_roundtrip:
  assumes "decodable obj" and "encodable obj"
    and "bobj_repsize obj = Inr n" and "addr + n < 2 ^ 63"
  shows "\<exists>b1. bobj_encode (bbuf_new addr n (replicate n 0 @ [0])) obj = Inr b1 \<and>
    bptr b1 = n \<and> nul_terminated b1 \<and>
    bdec_mem (bdec_fuel b1) (b1\<lparr>bptr := 0\<rparr>) = Inr (Some obj, b1)"
proof -
  let ?t = "bencoding obj"
  let ?b = "bbuf_new addr n (replicate n 0 @ [0])"
  define b1 where "b1 = written ?b ?t"
  have n: "n = length ?t" using assms(2,3) repsize_eq(1) [of obj] by simp
  then have "room ?b (length ?t)" by (simp add: room_def bbuf_new_def)
  with assms(2) have enc: "bobj_encode ?b obj = Inr b1"
    unfolding b1_def by (rule bobj_encode_written(1))
  have f: "bmem b1 = ?t @ [0]" "bptr b1 = n" "blen b1 = n" "bbase b1 = addr"
    by (simp_all add: b1_def written_def bbuf_new_def n)
  then have nt: "nul_terminated b1" using assms(4) by (simp add: nul_terminated_def n nth_append)
  have "text_at (b1\<lparr>bptr := 0\<rparr>) ?t" by (simp add: text_at_def f n)
  moreover have "decodes_to obj" using assms(1) by (intro bdec_mem_text decodable_readable)
  moreover have "2 * length ?t \<le> bdec_fuel b1" by (simp add: bdec_fuel_def f n)
  ultimately have "bdec_mem (bdec_fuel b1) (b1\<lparr>bptr := 0\<rparr>) = Inr (Some obj, adv (b1\<lparr>bptr := 0\<rparr>) n)"
    using assms(4) decodes_toD [of obj "b1\<lparr>bptr := 0\<rparr>" "bdec_fuel b1"] decodable_decoded [OF assms(1)]
    by (simp add: f n)
  moreover have "adv (b1\<lparr>bptr := 0\<rparr>) n = b1" by (simp add: adv_def f(2) [symmetric])
  ultimately show ?thesis using enc nt f(2) by auto
qed

theorem bencode_roundtrip_witness:
  "\<exists>b1. bobj_encode (bbuf_new 4096 16 (replicate 16 0 @ [0]))
      (BENC_DICT [(ascii ''a'', BENC_INT (- 42)), (ascii ''b'', BENC_BSTR [7])]) = Inr b1 \<and>
    bptr b1 = 16 \<and> nul_terminated b1 \<and>
    bdec_mem (bdec_fuel b1) (b1\<lparr>bptr := 0\<rparr>) =
      Inr (Some (BENC_DICT [(ascii ''a'', BENC_INT (- 42)), (ascii ''b'', BENC_BSTR [7])]), b1)"
  by (rule bencode_roundtrip)
    (simp_all add: ptrdiff_max_def benc_int_repsize_def benc_bstr_repsize_def
      pseudo_log10_benc_int_t.simps pseudo_log10_size_t.simps)

text \<open>The representation size is exact: an encodable object has one, the encoder writes
  exactly that many bytes of its bencoding at the pointer, leaves the rest of the memory
  as it was and faults on no buffer with that much room.\<close>

theorem encode_writes_repsize:
  assumes "encodable obj"
  shows "bobj_repsize obj = Inr (length (bencoding obj)) \<and>
    (room b (length (bencoding obj)) \<longrightarrow>
      bobj_encode b obj = Inr (b\<lparr>
        bmem := take (bptr b) (bmem b) @ bencoding obj @
                drop (bptr b + length (bencoding obj)) (bmem b),
        bptr := bptr b + length (bencoding obj)\<rparr>))"
  using assms repsize_eq(1) bobj_encode_written(1) by (simp add: written_def)

theorem encode_writes_repsize_witness:
  "bobj_repsize (BENC_LIST [BENC_INT 7]) = Inr 5 \<and>
   bobj_encode (bbuf_new 0 6 [1, 2, 3, 4, 5, 6]) (BENC_LIST [BENC_INT 7]) =
     Inr \<lparr>bbase = 0, bmem = ascii ''li7ee'' @ [6], blen = 6, bptr = 5\<rparr>"
  using encode_writes_repsize [of "BENC_LIST [BENC_INT 7]" "bbuf_new 0 6 [1, 2, 3, 4, 5, 6]"]
  by (simp add: bbuf_new_def room_def int_text_def dec_digits.simps digit_byte_def)

text \<open>C7. On a NUL-terminated buffer the decoder always returns or crashes in one of two ways
  (a string length of 0 or beyond \<open>PTRDIFF_MAX\<close>, an integer that overflows): it never reads
  outside the buffer, never follows an unwritten pointer and never runs on; a decoded
  object leaves the pointer inside the buffer and the memory as it was.\<close>

theorem decode_stays_inside:
  assumes "nul_terminated b" and "bptr b \<le> blen b"
  shows "case bdec_mem (bdec_fuel b) b of
      Inl f \<Rightarrow> f = Null_Deref \<or> f = Signed_Overflow
    | Inr (r, b') \<Rightarrow> bmem b' = bmem b \<and> bptr b \<le> bptr b' \<and> (r \<noteq> None \<longrightarrow> bptr b' \<le> blen b)"
proof -
  have "safe_res b (bdec_mem (bdec_fuel b) b)"
    using assms by (intro bdec_mem_safe(1)) (simp_all add: bdec_fuel_def)
  then show ?thesis by (auto simp: safe_res_def split: sum.splits)
qed

theorem decode_stays_inside_witness:
  "case bdec_mem (bdec_fuel (bbuf_new 4096 3 (ascii ''9:x'' @ [0])))
      (bbuf_new 4096 3 (ascii ''9:x'' @ [0])) of
      Inl f \<Rightarrow> f = Null_Deref \<or> f = Signed_Overflow
    | Inr (r, b') \<Rightarrow> bmem b' = bmem (bbuf_new 4096 3 (ascii ''9:x'' @ [0])) \<and>
        bptr (bbuf_new 4096 3 (ascii ''9:x'' @ [0])) \<le> bptr b' \<and>
        (r \<noteq> None \<longrightarrow> bptr b' \<le> blen (bbuf_new 4096 3 (ascii ''9:x'' @ [0])))"
  by (rule decode_stays_inside) (simp_all add: nul_terminated_def bbuf_new_def)

text \<open>A string of length 0 crashes the decoder: \<open>benc_bstr_new\<close> returns NULL for it and
  the decoder writes through that pointer.\<close>

theorem decode_empty_string_crashes:
  assumes "text_at b (ascii ''0:'')" and "bbase b + blen b < 2 ^ 63"
  shows "bdec_mem (Suc n) b = Inl Null_Deref"
proof -
  have t: "text_at b [ch_zero]" "text_at (adv b 1) [ch_colon]"
    using assms(1) by (simp_all add: text_at_Cons [of _ _ "_ # _"])
  have "(bbase b + bptr b + 2) mod 2 ^ 64 \<le> bbase b + blen b"
    using assms by (simp add: text_at_def)
  then have "benc_bstr_decode_loop (adv b 1) 0 = Inl Null_Deref"
    using brd_text [OF t(2)] by (simp add: benc_bstr_decode_loop.simps [of "adv b (Suc 0)"] inc_adv
        benc_bstr_decode_body_def benc_bstr_new_alloc_def)
  then show ?thesis
    using brd_text [OF t(1)] inc_text [OF t(2)]
    by (simp add: is_digit_def digit_val_def benc_bstr_decode_def benc_bstr_decode_loop.simps [of b])
qed

theorem decode_empty_string_crashes_witness:
  "bdec_mem (Suc 9) (bbuf_new 4096 2 (ascii ''0:'' @ [0])) = Inl Null_Deref"
  by (rule decode_empty_string_crashes) (simp_all add: text_at_def bbuf_new_def)

text \<open>An integer of \<open>2 ^ 63\<close> or more overflows the decoder's accumulator.\<close>

theorem decode_int_overflow:
  assumes "text_at b (ch_i # dec_digits k)" and "2 ^ 63 \<le> int k"
  shows "bdec_mem (Suc n) b = Inl Signed_Overflow"
proof -
  obtain c s where c: "dec_digits k = c # s" "is_digit c" by (rule dec_digits_first)
  then have t: "text_at b [ch_i]" "text_at (adv b 1) (dec_digits k)" "text_at (adv b 1) [c]"
    using assms(1) text_at_Cons [of b ch_i "c # s"] text_at_Cons [of "adv b 1" c s] by simp_all
  have "benc_int_decode b = Inl Signed_Overflow"
    using int_loop_overflow [OF t(2) assms(2)] benc_int_decode_first_digit [OF t(3) c(2)] by simp
  then show ?thesis using brd_text [OF t(1)] by simp
qed

theorem decode_int_overflow_witness:
  "bdec_mem (Suc 0) (bbuf_new 4096 21 (ch_i # dec_digits (2 ^ 63) @ [ch_e, 0])) = Inl Signed_Overflow"
  by (rule decode_int_overflow [of _ "2 ^ 63"])
    (simp_all add: text_at_def bbuf_new_def length_dec_digits pseudo_log10_size_t.simps)

text \<open>C18. On a sorted dictionary, insertion succeeds exactly for a new key, keeps the entries
  sorted by the key comparison, and later lookups see the inserted value and every older
  one; removal takes the value out again and nothing else.\<close>

theorem dict_refines_map:
  assumes "dict_inv es" and "key_ok k" and "key_ok k'"
  shows "\<exists>ok es1 r es2.
      bobj_dict_insert (BENC_DICT es) k v = Inr (ok, BENC_DICT es1) \<and>
      bobj_dict_remove (BENC_DICT es) k = Inr (r, BENC_DICT es2) \<and>
      dict_inv es1 \<and> dict_inv es2 \<and>
      (ok \<longleftrightarrow> map_of es k = None) \<and> r = map_of es k \<and>
      bobj_dict_lookup (BENC_DICT es1) k' =
        Inr (if k' = k \<and> map_of es k = None then Some v else map_of es k') \<and>
      bobj_dict_lookup (BENC_DICT es2) k' = Inr (if k' = k then None else map_of es k')"
proof -
  have "keys_ok es" using assms(1) by (simp add: dict_inv_def)
  then have m: "dict_lookup_loop es q = map_of es q" if "key_ok q" for q
    using that by (rule lookup_map_of)
  show ?thesis
    using assms m dict_store.add_result [of es k v] dict_store.add_inv [of es k v]
      dict_store.add_find [of es k k' v] dict_store.remove_result [of es k]
      dict_store.remove_inv [of es k] dict_store.remove_find [of es k k']
    by (auto simp: bobj_dict_insert_def bobj_dict_remove_def bobj_dict_lookup_def case_prod_beta)
qed

theorem dict_refines_map_witness:
  "\<exists>ok es1 r es2.
      bobj_dict_insert (BENC_DICT [(ascii ''b'', BENC_INT 1)]) (ascii ''a'') (BENC_INT 2) =
        Inr (ok, BENC_DICT es1) \<and>
      bobj_dict_remove (BENC_DICT [(ascii ''b'', BENC_INT 1)]) (ascii ''a'') = Inr (r, BENC_DICT es2) \<and>
      dict_inv es1 \<and> dict_inv es2 \<and>
      (ok \<longleftrightarrow> map_of [(ascii ''b'', BENC_INT 1)] (ascii ''a'') = None) \<and>
      r = map_of [(ascii ''b'', BENC_INT 1)] (ascii ''a'') \<and>
      bobj_dict_lookup (BENC_DICT es1) (ascii ''a'') =
        Inr (if ascii ''a'' = ascii ''a'' \<and> map_of [(ascii ''b'', BENC_INT 1)] (ascii ''a'') = None
             then Some (BENC_INT 2) else map_of [(ascii ''b'', BENC_INT 1)] (ascii ''a'')) \<and>
      bobj_dict_lookup (BENC_DICT es2) (ascii ''a'') =
        Inr (if ascii ''a'' = ascii ''a'' then None
             else map_of [(ascii ''b'', BENC_INT 1)] (ascii ''a''))"
  by (rule dict_refines_map) (simp_all add: dict_inv_def keys_ok_def key_ok_def ordered_by_Cons)

end
