(* ===== verification/Dht_Id.thy ===== *)
theory Dht_Id
  imports Comparator
begin

text \<open>
  Identifiers of the distributed hash table (\<^verbatim>\<open>dht/dht.c\<close>): 20 bytes, compared as big-endian
  numbers, with their bits counted from the front. The routines work byte by byte and bit
  by bit; the lemmas relate them to the number \<open>be_val\<close> that an identifier stands for.
\<close>

unbundle bit_operations_syntax

section \<open>The routines\<close>

definition zeroes :: "byte list" where
  "zeroes = replicate 20 0"

definition id_cmp :: "byte list \<Rightarrow> byte list \<Rightarrow> int" where
  "id_cmp id1 id2 = memcmp (take 20 id1) (take 20 id2)"

text \<open>Find the lowest 1 bit in an id: the two loops count down.\<close>

fun lowbit_byte :: "byte list \<Rightarrow> nat \<Rightarrow> nat option" where
  "lowbit_byte ident 0 = None"
| "lowbit_byte ident (Suc i) = (if ident ! i \<noteq> 0 then Some i else lowbit_byte ident i)"

fun lowbit_bit :: "byte \<Rightarrow> nat \<Rightarrow> int" where
  "lowbit_bit c 0 = -1"
| "lowbit_bit c (Suc j) = (if c AND drop_bit j 0x80 \<noteq> 0 then int j else lowbit_bit c j)"

definition lowbit :: "byte list \<Rightarrow> int" where
  "lowbit ident = (case lowbit_byte ident 20 of
     None \<Rightarrow> -1
   | Some i \<Rightarrow> 8 * int i + lowbit_bit (ident ! i) 8)"

text \<open>
  Find how many bits two ids have in common: the first differing byte, then a loop that
  shifts the difference left until its top bit is set (at most 7 times, as it is not 0).
\<close>

fun common_byte :: "byte list \<Rightarrow> byte list \<Rightarrow> nat" where
  "common_byte (x # xs) (y # ys) = (if x \<noteq> y then 0 else Suc (common_byte xs ys))"
| "common_byte _ _ = 0"

fun leading_zeros :: "nat \<Rightarrow> byte \<Rightarrow> nat" where
  "leading_zeros 0 x = 0"
| "leading_zeros (Suc n) x = (if x AND 0x80 = 0 then Suc (leading_zeros n (push_bit 1 x)) else 0)"

definition common_bits :: "byte list \<Rightarrow> byte list \<Rightarrow> nat" where
  "common_bits id1 id2 =
     (let i = common_byte (take 20 id1) (take 20 id2)
      in if i = 20 then 160
         else 8 * i + leading_zeros 8 (id1 ! i XOR id2 ! i))"

text \<open>Determine whether id1 or id2 is closer to ref.\<close>

fun xorcmp :: "byte list \<Rightarrow> byte list \<Rightarrow> byte list \<Rightarrow> int" where
  "xorcmp (x # xs) (y # ys) (r # rs) =
     (if x = y then xorcmp xs ys rs
      else if x XOR r < y XOR r then -1 else 1)"
| "xorcmp _ _ _ = 0"

section \<open>Comparisons\<close>

lemma id_cmp_memcmp: "length a = 20 \<Longrightarrow> length b = 20 \<Longrightarrow> id_cmp a b = memcmp a b"
  by (simp add: id_cmp_def)

lemma id_cmp_refl [simp]: "id_cmp a a = 0"
  by (simp add: id_cmp_def)

abbreviation id_ok :: "byte list \<Rightarrow> bool" where
  "id_ok a \<equiv> length a = 20"

lemma length_zeroes [simp]: "length zeroes = 20"
  by (simp add: zeroes_def)

lemma be_val_zeroes [simp]: "be_val zeroes = 0"
  by (simp only: zeroes_def be_val_replicate_0)

lemma id_cmp_neg: "id_ok a \<Longrightarrow> id_ok b \<Longrightarrow> id_cmp a b < 0 \<longleftrightarrow> be_val a < be_val b"
  by (simp add: id_cmp_memcmp memcmp_neg)

lemma id_cmp_le: "id_ok a \<Longrightarrow> id_ok b \<Longrightarrow> id_cmp a b \<le> 0 \<longleftrightarrow> be_val a \<le> be_val b"
  by (simp add: id_cmp_memcmp memcmp_le)

lemma id_cmp_zero: "id_ok a \<Longrightarrow> id_ok b \<Longrightarrow> id_cmp a b = 0 \<longleftrightarrow> a = b"
  by (simp add: id_cmp_memcmp memcmp_eq_0)

interpretation id_order: comparator id_cmp id_ok
  by unfold_locales (auto simp: id_cmp_memcmp memcmp_eq_0 memcmp_neg memcmp_pos)

text \<open>The exclusive-or metric of the protocol: the distance of two ids as a number.\<close>

definition xor_dist :: "byte list \<Rightarrow> byte list \<Rightarrow> nat" where
  "xor_dist a b = be_val (map2 (XOR) a b)"

lemma xor_cancel: "(a :: byte) XOR r = b XOR r \<longleftrightarrow> a = b"
  by (auto simp: bit_eq_iff bit_xor_iff)

lemma xorcmp_memcmp:
  "length a = n \<Longrightarrow> length b = n \<Longrightarrow> length r = n \<Longrightarrow>
   xorcmp a b r = memcmp (map2 (XOR) a r) (map2 (XOR) b r)"
proof (induction a b r arbitrary: n rule: xorcmp.induct)
  case (1 x xs y ys r rs)
  then show ?case using xor_cancel [of x r y] by auto
qed auto

lemma xorcmp_dist:
  assumes "id_ok a" "id_ok b" "id_ok r"
  shows "xorcmp a b r =
    (if xor_dist a r < xor_dist b r then -1 else if xor_dist b r < xor_dist a r then 1 else 0)"
  using assms by (simp add: xorcmp_memcmp memcmp_be_val xor_dist_def)

lemma xor_dist_inj: "id_ok a \<Longrightarrow> id_ok b \<Longrightarrow> id_ok r \<Longrightarrow> xor_dist a r = xor_dist b r \<longleftrightarrow> a = b"
proof -
  assume l: "id_ok a" "id_ok b" "id_ok r"
  have "map2 (XOR) a r = map2 (XOR) b r \<longleftrightarrow> a = b"
    using l by (auto simp: list_eq_iff_nth_eq xor_cancel)
  then show ?thesis using l by (simp add: xor_dist_def be_val_inj)
qed

lemma comparator_xorcmp: "id_ok r \<Longrightarrow> comparator (\<lambda>a b. xorcmp a b r) id_ok"
  by unfold_locales (auto simp: xorcmp_dist xor_dist_inj split: if_splits)

section \<open>Bits\<close>

text \<open>Bit \<open>k\<close> of an identifier, counted from the front.\<close>

definition id_bit :: "byte list \<Rightarrow> nat \<Rightarrow> bool" where
  "id_bit a k = bit (a ! (k div 8)) (7 - k mod 8)"

lemma be_val_Cons_or: "be_val (x # xs) = push_bit (8 * length xs) (unat x) OR be_val xs"
proof -
  have "(256 :: nat) ^ length xs = 2 ^ (8 * length xs)" by (simp add: power_mult)
  then have eq: "be_val (x # xs) = push_bit (8 * length xs) (unat x) + be_val xs"
    and lt: "be_val xs < 2 ^ (8 * length xs)"
    using be_val_less [of xs] by (simp_all add: push_bit_eq_mult)
  have "\<not> bit (be_val xs) k" if "8 * length xs \<le> k" for k
  proof -
    have "be_val xs < 2 ^ k" using lt that by (meson less_le_trans one_le_numeral power_increasing)
    then show ?thesis by (simp add: bit_iff_odd)
  qed
  then show ?thesis
    unfolding eq by (intro disjunctive_add) (auto simp: bit_push_bit_iff not_le)
qed

lemma div_mod_8: "r < 8 \<Longrightarrow> (8 * q + r) div 8 = (q :: nat)" "r < 8 \<Longrightarrow> (8 * q + r) mod 8 = r"
  by simp_all

lemma bit_be_val:
  "r < 8 \<Longrightarrow> bit (be_val xs) (8 * q + r) \<longleftrightarrow> q < length xs \<and> bit (xs ! (length xs - 1 - q)) r"
proof (induction xs)
  case Nil
  show ?case by simp
next
  case (Cons x xs)
  let ?n = "length xs"
  have b: "bit (be_val (x # xs)) (8 * q + r) \<longleftrightarrow>
      (?n \<le> q \<and> bit x (8 * (q - ?n) + r)) \<or> bit (be_val xs) (8 * q + r)"
  proof -
    have "8 * ?n \<le> 8 * q + r \<longleftrightarrow> ?n \<le> q" using Cons.prems by linarith
    moreover have "8 * q + r - 8 * ?n = 8 * (q - ?n) + r" if "?n \<le> q" using that by linarith
    ultimately show ?thesis
      by (auto simp: be_val_Cons_or bit_or_iff bit_push_bit_iff bit_unsigned_iff simp del: be_val.simps)
  qed
  consider "q < ?n" | "q = ?n" | "?n < q" by linarith
  then show ?case
  proof cases
    case 1
    then have "Suc ?n - 1 - q = Suc (?n - 1 - q)" by linarith
    with b 1 Cons show ?thesis by simp
  next
    case 2
    with b Cons show ?thesis by simp
  next
    case 3
    then have "8 \<le> 8 * (q - ?n) + r" by linarith
    then have "\<not> bit x (8 * (q - ?n) + r)" using bit_imp_le_length [of x "8 * (q - ?n) + r"] by auto
    with b 3 Cons show ?thesis by simp
  qed
qed

lemma bit_be_val_id:
  assumes "id_ok a" "k < 160"
  shows "bit (be_val a) (159 - k) = id_bit a k"
proof -
  define q r where "q = k div 8" and "r = k mod 8"
  then have k: "k = 8 * q + r" "r < 8" "q < 20" using assms(2) by auto
  then have "159 - k = 8 * (19 - q) + (7 - r)" by linarith
  moreover have "bit (be_val a) (8 * (19 - q) + (7 - r)) \<longleftrightarrow> bit (a ! q) (7 - r)"
    using k assms by (subst bit_be_val) auto
  ultimately show ?thesis by (simp add: id_bit_def q_def r_def)
qed

lemma be_val_id_less: "id_ok a \<Longrightarrow> be_val a < 2 ^ 160"
  using be_val_less [of a] by simp

lemma bit_be_val_high: "id_ok a \<Longrightarrow> 160 \<le> m \<Longrightarrow> \<not> bit (be_val a) m"
proof -
  assume a: "id_ok a" "160 \<le> m"
  have "bit (be_val a) (8 * (m div 8) + m mod 8) \<longleftrightarrow> m div 8 < 20 \<and> bit (a ! (19 - m div 8)) (m mod 8)"
    using a by (subst bit_be_val) auto
  moreover have "\<not> m div 8 < 20" using a(2) by linarith
  ultimately show ?thesis by simp
qed

text \<open>Two identifiers are equal as numbers below a bit when their trailing bits agree.\<close>

lemma be_val_trailing_zero:
  assumes "id_ok a" "n \<le> 160" "\<And>k. n \<le> k \<Longrightarrow> k < 160 \<Longrightarrow> \<not> id_bit a k"
  shows "2 ^ (160 - n) dvd be_val a"
proof -
  have "\<not> bit (be_val a) m" if "m < 160 - n" for m
  proof -
    have "m = 159 - (159 - m)" and "159 - m < 160" and "n \<le> 159 - m" using that by linarith+
    then show ?thesis using assms bit_be_val_id [of a "159 - m"] by metis
  qed
  then have "take_bit (160 - n) (be_val a) = 0"
    by (intro bit_eqI) (simp add: bit_take_bit_iff)
  then show ?thesis by (simp add: take_bit_eq_0_iff)
qed

section \<open>The lowest bit\<close>

lemma mask_bit: "j < 8 \<Longrightarrow> (c :: byte) AND drop_bit j 0x80 \<noteq> 0 \<longleftrightarrow> bit c (7 - j)"
proof -
  assume "j < 8"
  then have "j = 0 \<or> j = 1 \<or> j = 2 \<or> j = 3 \<or> j = 4 \<or> j = 5 \<or> j = 6 \<or> j = 7" by linarith
  then have "drop_bit j (0x80 :: byte) = push_bit (7 - j) 1" by (elim disjE) simp_all
  then show ?thesis by (simp add: bit_iff_and_push_bit_not_eq_0)
qed

lemma lowbit_bit_spec:
  "n \<le> 8 \<Longrightarrow> (lowbit_bit c n = -1 \<and> (\<forall>j<n. \<not> bit c (7 - j))) \<or>
    (\<exists>j<n. lowbit_bit c n = int j \<and> bit c (7 - j) \<and> (\<forall>j'. j < j' \<longrightarrow> j' < n \<longrightarrow> \<not> bit c (7 - j')))"
proof (induction n)
  case 0
  show ?case by simp
next
  case (Suc n)
  then show ?case using mask_bit [of n c] by (auto simp: less_Suc_eq)
qed

lemma lowbit_bit_nonzero:
  assumes "c \<noteq> 0"
  obtains j where "j < 8" "lowbit_bit c 8 = int j" "bit c (7 - j)"
    "\<And>j'. j < j' \<Longrightarrow> j' < 8 \<Longrightarrow> \<not> bit c (7 - j')"
proof -
  from assms obtain m where m: "bit c m" by (auto simp: bit_eq_iff)
  then have "m < 8" using bit_imp_le_length by fastforce
  with m have "\<not> (\<forall>j<8. \<not> bit c (7 - j))" by (auto intro!: exI [of _ "7 - m"])
  with lowbit_bit_spec [of 8 c] that show ?thesis by auto
qed

lemma lowbit_byte_spec:
  "(lowbit_byte a n = None \<and> (\<forall>i<n. a ! i = 0)) \<or>
   (\<exists>i<n. lowbit_byte a n = Some i \<and> a ! i \<noteq> 0 \<and> (\<forall>i'. i < i' \<longrightarrow> i' < n \<longrightarrow> a ! i' = 0))"
  by (induction n) (auto simp: less_Suc_eq)

lemma lowbit_cases:
  obtains (zero) "lowbit a = -1" "\<And>k. k < 160 \<Longrightarrow> \<not> id_bit a k"
  | (bit) k where "k < 160" "lowbit a = int k" "id_bit a k"
      "\<And>k'. k < k' \<Longrightarrow> k' < 160 \<Longrightarrow> \<not> id_bit a k'"
proof (cases "lowbit_byte a 20")
  case None
  then have "\<forall>i<20. a ! i = 0" using lowbit_byte_spec [of a 20] by auto
  then have "\<not> id_bit a k" if "k < 160" for k using that by (simp add: id_bit_def)
  with None show ?thesis by (intro zero) (simp_all add: lowbit_def)
next
  case (Some i)
  then have i: "i < 20" "a ! i \<noteq> 0" "\<And>i'. i < i' \<Longrightarrow> i' < 20 \<Longrightarrow> a ! i' = 0"
    using lowbit_byte_spec [of a 20] by auto
  obtain j where j: "j < 8" "lowbit_bit (a ! i) 8 = int j" "bit (a ! i) (7 - j)"
    "\<And>j'. j < j' \<Longrightarrow> j' < 8 \<Longrightarrow> \<not> bit (a ! i) (7 - j')"
    by (rule lowbit_bit_nonzero [OF i(2)]) blast
  show ?thesis
  proof (rule bit [of "8 * i + j"])
    show "8 * i + j < 160" using i(1) j(1) by linarith
    show "lowbit a = int (8 * i + j)" using Some j(2) by (simp add: lowbit_def)
    show "id_bit a (8 * i + j)" using j(1,3) by (simp add: id_bit_def)
  next
    fix k'
    assume k': "8 * i + j < k'" "k' < 160"
    define q r where "q = k' div 8" and "r = k' mod 8"
    then have qr: "k' = 8 * q + r" "r < 8" "q < 20" using k'(2) by auto
    then have "i < q \<or> (q = i \<and> j < r)" using k'(1) j(1) by linarith
    then show "\<not> id_bit a k'"
      using i(3) j(4) qr by (auto simp: id_bit_def q_def [symmetric] r_def [symmetric])
  qed
qed

lemma lowbit_range: "-1 \<le> lowbit a" "lowbit a < 160"
  by (cases a rule: lowbit_cases; simp)+

lemma lowbit_trailing: "lowbit a < int n \<Longrightarrow> n \<le> k \<Longrightarrow> k < 160 \<Longrightarrow> \<not> id_bit a k"
  by (cases a rule: lowbit_cases) auto

lemma lowbit_dvd: "id_ok a \<Longrightarrow> lowbit a < int n \<Longrightarrow> n \<le> 160 \<Longrightarrow> 2 ^ (160 - n) dvd be_val a"
  using be_val_trailing_zero lowbit_trailing by blast

lemma lowbit_eqI:
  assumes "k < 160" "id_bit a k" "\<And>k'. k < k' \<Longrightarrow> k' < 160 \<Longrightarrow> \<not> id_bit a k'"
  shows "lowbit a = int k"
proof (cases a rule: lowbit_cases)
  case zero
  with assms show ?thesis by blast
next
  case (bit k')
  with assms show ?thesis by (metis nat_neq_iff)
qed

section \<open>Setting a bit\<close>

definition set_bit_at :: "byte list \<Rightarrow> nat \<Rightarrow> byte list" where
  "set_bit_at a k = a[k div 8 := a ! (k div 8) OR drop_bit (k mod 8) 0x80]"

lemma length_set_bit_at [simp]: "length (set_bit_at a k) = length a"
  by (simp add: set_bit_at_def)

lemma bit_0x80_drop: "j < 8 \<Longrightarrow> m < 8 \<Longrightarrow> bit (drop_bit j (0x80 :: byte)) m \<longleftrightarrow> m = 7 - j"
proof -
  assume "j < 8" "m < 8"
  then have "j = 0 \<or> j = 1 \<or> j = 2 \<or> j = 3 \<or> j = 4 \<or> j = 5 \<or> j = 6 \<or> j = 7" by linarith
  then have "drop_bit j (0x80 :: byte) = push_bit (7 - j) 1" by (elim disjE) simp_all
  then show ?thesis using \<open>j < 8\<close> \<open>m < 8\<close> by (auto simp: bit_push_bit_iff bit_1_iff bit_exp_iff)
qed

lemma id_bit_set:
  assumes "id_ok a" "k < 160" "k' < 160"
  shows "id_bit (set_bit_at a k) k' \<longleftrightarrow> id_bit a k' \<or> k' = k"
proof -
  have k: "k = 8 * (k div 8) + k mod 8" "k' = 8 * (k' div 8) + k' mod 8" by simp_all
  have "k div 8 < length a" using assms by auto
  moreover have "7 - k' mod 8 = 7 - k mod 8 \<longleftrightarrow> k' mod 8 = k mod 8"
    using mod_less_divisor [of 8 k] mod_less_divisor [of 8 k'] by linarith
  ultimately show ?thesis
    using k bit_0x80_drop [of "k mod 8" "7 - k' mod 8"]
    by (cases "k' div 8 = k div 8") (auto simp: id_bit_def set_bit_at_def bit_or_iff)
qed

lemma be_val_set_bit:
  assumes "id_ok a" "k < 160" "\<not> id_bit a k"
  shows "be_val (set_bit_at a k) = be_val a + 2 ^ (159 - k)"
proof -
  have "be_val (set_bit_at a k) = be_val a OR push_bit (159 - k) 1"
  proof (rule bit_eqI)
    fix m
    show "bit (be_val (set_bit_at a k)) m \<longleftrightarrow> bit (be_val a OR push_bit (159 - k) 1) m"
    proof (cases "m < 160")
      case True
      then have m: "m = 159 - (159 - m)" "159 - m < 160" by linarith+
      have "bit (be_val (set_bit_at a k)) m \<longleftrightarrow> id_bit (set_bit_at a k) (159 - m)"
        using bit_be_val_id [of "set_bit_at a k" "159 - m"] m assms(1) by simp
      also have "\<dots> \<longleftrightarrow> id_bit a (159 - m) \<or> 159 - m = k"
        using assms m by (simp add: id_bit_set)
      also have "id_bit a (159 - m) \<longleftrightarrow> bit (be_val a) m"
        using bit_be_val_id [of a "159 - m"] m assms(1) by simp
      also have "159 - m = k \<longleftrightarrow> m = 159 - k" using True assms(2) by linarith
      finally show ?thesis by (auto simp: bit_or_iff bit_push_bit_iff bit_1_iff bit_exp_iff)
    next
      case False
      then show ?thesis
        using bit_be_val_high [of "set_bit_at a k" m] bit_be_val_high [of a m] assms
        by (auto simp: bit_or_iff bit_push_bit_iff bit_1_iff bit_exp_iff)
    qed
  qed
  also have "\<dots> = be_val a + push_bit (159 - k) 1"
    using bit_be_val_id [OF assms(1,2)] assms(3)
    by (intro disjunctive_add [symmetric]) (auto simp: bit_push_bit_iff bit_1_iff bit_exp_iff)
  finally show ?thesis by (simp add: push_bit_eq_mult)
qed

lemma lowbit_set_bit:
  assumes "id_ok a" "k < 160" "lowbit a < int k"
  shows "lowbit (set_bit_at a k) = int k"
proof (rule lowbit_eqI)
  show "k < 160" by (rule assms)
  show "id_bit (set_bit_at a k) k" using assms by (simp add: id_bit_set)
  show "\<not> id_bit (set_bit_at a k) k'" if "k < k'" "k' < 160" for k'
    using that assms lowbit_trailing [of a k k'] by (simp add: id_bit_set)
qed

section \<open>Common bits\<close>

lemma leading_zeros_spec:
  assumes "x \<noteq> 0" "n \<le> 8" "\<And>m. bit x m \<Longrightarrow> 8 - n \<le> m"
  shows "leading_zeros n x < n \<and> bit x (7 - leading_zeros n x) \<and>
    (\<forall>j < leading_zeros n x. \<not> bit x (7 - j))"
  using assms
proof (induction n arbitrary: x)
  case 0
  then obtain m where "bit x m" by (auto simp: bit_eq_iff)
  then have "8 \<le> m" "m < 8" using "0.prems"(3) bit_imp_le_length [of x m] by simp_all
  then show ?case by simp
next
  case (Suc n)
  have top: "x AND 0x80 = 0 \<longleftrightarrow> \<not> bit x 7" using mask_bit [of 0 x] by auto
  show ?case
  proof (cases "bit x 7")
    case True
    with top show ?thesis by simp
  next
    case False
    let ?y = "push_bit 1 x"
    have sh: "bit ?y (7 - j) \<longleftrightarrow> bit x (7 - Suc j)" if "j < 7" for j
      using that unfolding bit_push_bit_iff by (auto simp: possible_bit_def)
    have y: "bit ?y m \<longleftrightarrow> 1 \<le> m \<and> m < 8 \<and> bit x (m - 1)" for m
      unfolding bit_push_bit_iff by (auto simp: possible_bit_def)
    obtain m where m: "bit x m" using Suc.prems(1) by (auto simp: bit_eq_iff)
    with False have "m < 7" using bit_imp_le_length [OF m] by (cases "m = 7") auto
    then have "bit ?y (Suc m)" using m y [of "Suc m"] by simp
    then have "?y \<noteq> 0" by (metis bit_0_eq bot_apply bot_bool_def)
    moreover have "8 - n \<le> m" if "bit ?y m" for m
      using that y [of m] Suc.prems(2) Suc.prems(3) [of "m - 1"] by auto
    ultimately have IH: "leading_zeros n ?y < n" "bit ?y (7 - leading_zeros n ?y)"
      "\<And>j. j < leading_zeros n ?y \<Longrightarrow> \<not> bit ?y (7 - j)"
      using Suc.IH [of ?y] Suc.prems(2) by auto
    have "\<not> bit x (7 - j)" if "j < Suc (leading_zeros n ?y)" for j
    proof (cases j)
      case 0
      with False show ?thesis by simp
    next
      case (Suc i)
      with that IH(1) IH(3) [of i] sh [of i] Suc.prems(2) show ?thesis by auto
    qed
    with False top IH sh [of "leading_zeros n ?y"] Suc.prems(2) show ?thesis by auto
  qed
qed

lemma common_byte_spec:
  "length xs = length ys \<Longrightarrow> (\<forall>i < common_byte xs ys. xs ! i = ys ! i) \<and>
    (common_byte xs ys = length xs \<or>
     (common_byte xs ys < length xs \<and> xs ! common_byte xs ys \<noteq> ys ! common_byte xs ys))"
proof (induction xs ys rule: common_byte.induct)
  case (1 x xs y ys)
  then show ?case by (auto simp: less_Suc_eq_0_disj)
qed auto

lemma common_bits_spec:
  assumes "id_ok a" "id_ok b"
  shows "common_bits a b \<le> 160" "\<And>k. k < common_bits a b \<Longrightarrow> id_bit a k = id_bit b k"
    "common_bits a b < 160 \<Longrightarrow> id_bit a (common_bits a b) \<noteq> id_bit b (common_bits a b)"
proof -
  define i where "i = common_byte a b"
  have i: "\<And>i'. i' < i \<Longrightarrow> a ! i' = b ! i'" "i = 20 \<or> i < 20 \<and> a ! i \<noteq> b ! i"
    using common_byte_spec [of a b] assms by (auto simp: i_def)
  define z where "z = leading_zeros 8 (a ! i XOR b ! i)"
  have z: "z < 8" "bit (a ! i) (7 - z) \<noteq> bit (b ! i) (7 - z)"
    "\<And>j. j < z \<Longrightarrow> bit (a ! i) (7 - j) = bit (b ! i) (7 - j)" if "i < 20"
  proof -
    have "a ! i XOR b ! i \<noteq> 0" using that i(2) xor_cancel [of "a ! i" "b ! i" "b ! i"] by auto
    then have "z < 8 \<and> bit (a ! i XOR b ! i) (7 - z) \<and> (\<forall>j<z. \<not> bit (a ! i XOR b ! i) (7 - j))"
      unfolding z_def by (intro leading_zeros_spec) simp_all
    then show "z < 8" "bit (a ! i) (7 - z) \<noteq> bit (b ! i) (7 - z)"
      "\<And>j. j < z \<Longrightarrow> bit (a ! i) (7 - j) = bit (b ! i) (7 - j)"
      by (simp_all add: bit_xor_iff)
  qed
  have c: "common_bits a b = (if i = 20 then 160 else 8 * i + z)"
    using assms by (simp add: common_bits_def i_def z_def Let_def)
  show "common_bits a b \<le> 160" using c i(2) z(1) by auto
  show "id_bit a k = id_bit b k" if "k < common_bits a b" for k
  proof -
    have "k div 8 < i \<or> (k div 8 = i \<and> i < 20 \<and> k mod 8 < z)"
    proof (cases "i = 20")
      case True
      with that c show ?thesis by (simp add: less_mult_imp_div_less)
    next
      case False
      then have "k < 8 * i + z" "z < 8" "i < 20" using that c i(2) z(1) by auto
      moreover have "k = 8 * (k div 8) + k mod 8" by simp
      ultimately show ?thesis by linarith
    qed
    then show ?thesis using i(1) z(3) by (auto simp: id_bit_def)
  qed
  show "id_bit a (common_bits a b) \<noteq> id_bit b (common_bits a b)" if "common_bits a b < 160"
    using that c i(2) z(1,2) by (auto simp: id_bit_def split: if_splits)
qed

section \<open>Properties of the identifier routines\<close>

text \<open>C25. The byte-wise identifier routines compute what the protocol defines on 160-bit numbers:
  \<open>id_cmp\<close> orders by value, \<open>xorcmp\<close> by exclusive-or distance to the reference,
  \<open>common_bits\<close> is the length of the longest common prefix, and \<open>lowbit\<close> the position of
  the last set bit, or -1 for the zero identifier.\<close>

theorem id_routines_refine:
  assumes "id_ok a" and "id_ok b" and "id_ok r"
  shows "(id_cmp a b < 0 \<longleftrightarrow> be_val a < be_val b) \<and> (id_cmp a b = 0 \<longleftrightarrow> a = b) \<and>
    xorcmp a b r = (if xor_dist a r < xor_dist b r then -1
                    else if xor_dist b r < xor_dist a r then 1 else 0) \<and>
    (\<forall>k < common_bits a b. id_bit a k = id_bit b k) \<and>
    (common_bits a b < 160 \<longrightarrow> id_bit a (common_bits a b) \<noteq> id_bit b (common_bits a b)) \<and>
    common_bits a b \<le> 160 \<and>
    (if lowbit a = -1 then be_val a = 0
     else \<exists>k < 160. lowbit a = int k \<and> id_bit a k \<and> (\<forall>k'. k < k' \<longrightarrow> k' < 160 \<longrightarrow> \<not> id_bit a k'))"
proof -
  have "if lowbit a = -1 then be_val a = 0
     else \<exists>k < 160. lowbit a = int k \<and> id_bit a k \<and> (\<forall>k'. k < k' \<longrightarrow> k' < 160 \<longrightarrow> \<not> id_bit a k')"
  proof (cases a rule: lowbit_cases)
    case zero
    then have "2 ^ 160 dvd be_val a" using lowbit_dvd [of a 0] assms(1) by simp
    then have "be_val a = 0" using be_val_id_less [OF assms(1)] nat_dvd_not_less by blast
    with zero show ?thesis by simp
  next
    case (bit k)
    then show ?thesis by auto
  qed
  then show ?thesis
    using id_cmp_neg [OF assms(1,2)] id_cmp_zero [OF assms(1,2)] xorcmp_dist [OF assms]
      common_bits_spec [OF assms(1,2)] by blast
qed

theorem id_routines_refine_witness:
  "(id_cmp zeroes (zeroes[1 := 0x10]) < 0 \<longleftrightarrow> be_val zeroes < be_val (zeroes[1 := 0x10])) \<and>
   common_bits zeroes (zeroes[1 := 0x10]) \<le> 160"
  using id_routines_refine [of zeroes "zeroes[1 := 0x10]" zeroes] by simp

end
