(* ===== verification/Dht_State.thy ===== *)
theory Dht_State
  imports Dht_Id Benc_Decode
begin

text \<open>
  The state of the distributed hash table: the structures and the static variables of
  \<^verbatim>\<open>dht/dht.c\<close>, the environment it calls, and what it sends.

  \<^item> A linked list is a list, a pointer into it an index. \<open>b->next\<close> is the next index.
  \<^item> The environment is part of the state: \<open>env_random\<close> and \<open>env_entropy\<close> are the values
    that \<open>random()\<close> and \<open>dht_random_bytes\<close> will return, \<open>env_calloc\<close> whether the next
    allocations succeed, \<open>env_sendto\<close> what \<open>sendto\<close> returns, \<open>env_depth\<close> how deep a function
    may call itself before the stack is used up. All are arbitrary.
  \<^item> \<open>sent\<close> is the sequence of datagrams passed to \<open>sendto\<close>, \<open>events\<close> the sequence of calls
    of the search callback.
  \<^item> \<open>died\<close> records the first fault (an abort, a null pointer, an unbounded recursion). The
    process is gone from then on, and the rest of the state has no meaning.
\<close>

section \<open>Addresses\<close>

definition AF_INET :: nat where "AF_INET = 2"
definition AF_INET6 :: nat where "AF_INET6 = 10"

lemma AF_distinct [simp]: "AF_INET \<noteq> AF_INET6" "AF_INET6 \<noteq> AF_INET"
  by (simp_all add: AF_INET_def AF_INET6_def)

text \<open>
  A socket address: family, port in network order, address, and the remaining bytes
  (padding, or flow information and scope).
\<close>

record sockaddr =
  sa_family :: nat
  sa_port :: "byte list"
  sa_addr :: "byte list"
  sa_misc :: "byte list"

definition no_sockaddr :: sockaddr where
  "no_sockaddr = \<lparr>sa_family = 0, sa_port = [0, 0], sa_addr = [], sa_misc = []\<rparr>"

text \<open>What the two families' structures hold.\<close>

definition sa_ok :: "sockaddr \<Rightarrow> bool" where
  "sa_ok sa \<longleftrightarrow> length (sa_port sa) = 2 \<and>
     (sa_family sa = AF_INET \<longrightarrow> length (sa_addr sa) = 4) \<and>
     (sa_family sa = AF_INET6 \<longrightarrow> length (sa_addr sa) = 16)"

definition ntohs :: "byte list \<Rightarrow> 16 word" where
  "ntohs p = of_nat (be_val p)"

definition htons :: "16 word \<Rightarrow> byte list" where
  "htons w = [ucast (drop_bit 8 w), ucast w]"

definition v4prefix :: "byte list" where
  "v4prefix = [0, 0, 0, 0, 0, 0, 0, 0, 0, 0, 0xFF, 0xFF, 0, 0, 0, 0]"

definition is_martian :: "sockaddr \<Rightarrow> bool" where
  "is_martian sa =
     (let address = sa_addr sa
      in if sa_family sa = AF_INET then
           be_val (sa_port sa) = 0 \<or>
           address ! 0 = 0 \<or>
           address ! 0 AND 0xE0 = 0xE0
         else if sa_family sa = AF_INET6 then
           be_val (sa_port sa) = 0 \<or>
           address ! 0 = 0xFF \<or>
           (address ! 0 = 0xFE \<and> address ! 1 AND 0xC0 = 0x80) \<or>
           (memcmp (take 15 address) (take 15 zeroes) = 0 \<and> (address ! 15 = 0 \<or> address ! 15 = 1)) \<or>
           memcmp (take 12 address) (take 12 v4prefix) = 0
         else False)"

section \<open>Structures\<close>

record node =
  n_id :: "byte list"
  n_ss :: sockaddr
  n_sslen :: int
  n_time :: int
  n_reply_time :: int
  n_pinged_time :: int
  n_pinged :: int

record bucket =
  b_af :: nat
  b_first :: "byte list"
  b_count :: int
  b_time :: int
  b_nodes :: "node list"
  b_cached :: sockaddr
  b_cachedlen :: int

record search_node =
  sn_id :: "byte list"
  sn_ss :: sockaddr
  sn_sslen :: int
  sn_request_time :: int
  sn_reply_time :: int
  sn_pinged :: int
  sn_token :: "byte list"
  sn_token_len :: int
  sn_replied :: bool
  sn_acked :: bool

text \<open>The array \<open>nodes\<close> of a search is the list of its first \<open>numnodes\<close> entries.\<close>

definition SEARCH_NODES :: nat where "SEARCH_NODES = 14"

record search =
  sr_tid :: "16 word"
  sr_af :: nat
  sr_step_time :: int
  sr_id :: "byte list"
  sr_port :: "16 word"
  sr_done :: bool
  sr_nodes :: "search_node list"

record peer =
  p_time :: int
  p_ip :: "byte list"
  p_len :: nat
  p_port :: "16 word"

text \<open>The array \<open>peers\<close> is the list of its first \<open>numpeers\<close> entries.\<close>

record storage =
  st_id :: "byte list"
  st_maxpeers :: nat
  st_peers :: "peer list"

definition DHT_MAX_PEERS :: nat where "DHT_MAX_PEERS = 2048"
definition DHT_MAX_HASHES :: int where "DHT_MAX_HASHES = 16384"
definition DHT_MAX_SEARCHES :: int where "DHT_MAX_SEARCHES = 1024"
definition DHT_SEARCH_EXPIRE_TIME :: int where "DHT_SEARCH_EXPIRE_TIME = 62 * 60"
definition DHT_MAX_BLACKLISTED :: nat where "DHT_MAX_BLACKLISTED = 10"
definition MAX_TOKEN_BUCKET_TOKENS :: int where "MAX_TOKEN_BUCKET_TOKENS = 40"
definition TOKEN_SIZE :: nat where "TOKEN_SIZE = 8"

definition WANT4 :: int where "WANT4 = 1"
definition WANT6 :: int where "WANT6 = 2"

record datagram =
  dg_sock :: int
  dg_bytes :: "byte list"
  dg_confirm :: bool
  dg_to :: sockaddr
  dg_tolen :: int

datatype event_kind =
  DHT_EVENT_NONE | DHT_EVENT_VALUES | DHT_EVENT_VALUES6 | DHT_EVENT_SEARCH_DONE | DHT_EVENT_SEARCH_DONE6

record event =
  ev_kind :: event_kind
  ev_hash :: "byte list"
  ev_data :: "byte list"

section \<open>The static variables\<close>

record dht =
  dht_socket :: int
  dht_socket6 :: int
  search_time :: int
  confirm_nodes_time :: int
  rotate_secrets_time :: int
  myid :: "byte list"
  have_v :: bool
  my_v :: "byte list"
  secret :: "byte list"
  oldsecret :: "byte list"
  buckets :: "bucket list"
  buckets6 :: "bucket list"
  storages :: "storage list"
  numstorage :: int
  searches :: "search list"
  numsearches :: int
  search_id :: "16 word"
  blacklist :: "sockaddr list"
  next_blacklisted :: nat
  now_sec :: int
  mybucket_grow_time :: int
  mybucket6_grow_time :: int
  expire_stuff_time :: int
  token_bucket_time :: int
  token_bucket_tokens :: int
  env_random :: "nat \<Rightarrow> nat"
  env_entropy :: "nat \<Rightarrow> byte"
  env_calloc :: "nat \<Rightarrow> bool"
  env_sendto :: "sockaddr \<Rightarrow> byte list \<Rightarrow> int"
  env_depth :: nat
  sent :: "datagram list"
  events :: "event list"
  died :: "fault option"

text \<open>
  The statics as the program starts: what has no initialiser is 0. The environment of this
  state returns zeroes, refuses no allocation and sends every datagram in full.
\<close>

definition dht_start :: dht where
  "dht_start = \<lparr>dht_socket = -1, dht_socket6 = -1, search_time = 0, confirm_nodes_time = 0,
     rotate_secrets_time = 0, myid = zeroes, have_v = False, my_v = replicate 9 0,
     secret = replicate 8 0, oldsecret = replicate 8 0, buckets = [], buckets6 = [],
     storages = [], numstorage = 0, searches = [], numsearches = 0, search_id = 0,
     blacklist = replicate DHT_MAX_BLACKLISTED no_sockaddr, next_blacklisted = 0, now_sec = 0,
     mybucket_grow_time = 0, mybucket6_grow_time = 0, expire_stuff_time = 0,
     token_bucket_time = 0, token_bucket_tokens = 0, env_random = (\<lambda>_. 0), env_entropy = (\<lambda>_. 0),
     env_calloc = (\<lambda>_. True), env_sendto = (\<lambda>_ m. int (length m)), env_depth = 1000,
     sent = [], events = [], died = None\<rparr>"

definition die :: "fault \<Rightarrow> dht \<Rightarrow> dht" where
  "die f s = (if died s = None then s\<lparr>died := Some f\<rparr> else s)"

text \<open>\<open>random()\<close> returns a number from 0 to \<open>2 ^ 31 - 1\<close>.\<close>

definition random :: "dht \<Rightarrow> nat \<times> dht" where
  "random s = (env_random s 0 mod 2 ^ 31, s\<lparr>env_random := (\<lambda>i. env_random s (Suc i))\<rparr>)"

definition calloc :: "dht \<Rightarrow> bool \<times> dht" where
  "calloc s = (env_calloc s 0, s\<lparr>env_calloc := (\<lambda>i. env_calloc s (Suc i))\<rparr>)"

text \<open>\<open>dht_random_bytes\<close> of \<^verbatim>\<open>ffff.c\<close> fills the buffer and returns 0.\<close>

definition dht_random_bytes :: "nat \<Rightarrow> dht \<Rightarrow> byte list \<times> dht" where
  "dht_random_bytes len s =
     (map (env_entropy s) [0..<len], s\<lparr>env_entropy := (\<lambda>i. env_entropy s (len + i))\<rparr>)"

definition table :: "nat \<Rightarrow> dht \<Rightarrow> bucket list" where
  "table af s = (if af = AF_INET then buckets s else buckets6 s)"

definition set_table :: "nat \<Rightarrow> bucket list \<Rightarrow> dht \<Rightarrow> dht" where
  "set_table af bs s = (if af = AF_INET then s\<lparr>buckets := bs\<rparr> else s\<lparr>buckets6 := bs\<rparr>)"

definition upd_bucket :: "nat \<Rightarrow> nat \<Rightarrow> (bucket \<Rightarrow> bucket) \<Rightarrow> dht \<Rightarrow> dht" where
  "upd_bucket af i f s = set_table af ((table af s)[i := f (table af s ! i)]) s"

end
