(* ===== verification/Dht_Send.thy ===== *)
theory Dht_Send
  imports Dht_State "HOL-Library.Monad_Syntax"
begin

text \<open>
  The messages the node writes: \<open>dht_send\<close> and the senders of \<^verbatim>\<open>dht/dht.c\<close>. Each sender fills
  a buffer of fixed size from the front and gives up (\<open>None\<close>, the label \<^verbatim>\<open>fail\<close>) when a
  piece does not fit. The lemmas show that what they write is the bencoding of the
  message, so that the bencode decoder reads the message back.
\<close>

section \<open>Filling the buffer\<close>

text \<open>
  \<open>b\<close> is what the buffer holds up to the index \<open>i\<close>. \<open>fmt\<close> is \<^verbatim>\<open>rc = snprintf(buf + i, sz - i, ...)\<close>
  followed by \<^verbatim>\<open>INC(i, rc, sz)\<close>: text that ends exactly at the end of the buffer loses its
  last character to the terminating NUL. \<open>copy\<close> is the macro \<^verbatim>\<open>COPY\<close>.
\<close>

definition fmt :: "nat \<Rightarrow> byte list \<Rightarrow> byte list \<Rightarrow> byte list option" where
  "fmt sz t b =
     (if sz < length b + length t then None
      else if length b + length t = sz \<and> t \<noteq> [] then Some (b @ butlast t @ [0])
      else Some (b @ t))"

definition copy :: "nat \<Rightarrow> byte list \<Rightarrow> byte list \<Rightarrow> byte list option" where
  "copy sz src b = (if sz < length b + length src then None else Some (b @ src))"

definition add_v :: "dht \<Rightarrow> nat \<Rightarrow> byte list \<Rightarrow> byte list option" where
  "add_v s sz b = (if have_v s then copy sz (my_v s) b else Some b)"

text \<open>The conversions \<^verbatim>\<open>%d\<close> and \<^verbatim>\<open>%u\<close>.\<close>

definition fmt_d :: "nat \<Rightarrow> byte list" where
  "fmt_d n = int_text (int n)"

section \<open>Sending\<close>

text \<open>The third argument is the flag \<^verbatim>\<open>MSG_CONFIRM\<close>.\<close>

definition dht_send :: "byte list \<Rightarrow> bool \<Rightarrow> sockaddr \<Rightarrow> int \<Rightarrow> dht \<Rightarrow> int \<times> dht" where
  "dht_send buf flag sa salen s =
     (if salen = 0 then (0, die Aborted s)
      else
        let sock = (if sa_family sa = AF_INET then dht_socket s
                    else if sa_family sa = AF_INET6 then dht_socket6 s
                    else -1)
        in if sock < 0 then (-1, s)
           else (env_sendto s sa buf,
                 s\<lparr>sent := sent s @ [\<lparr>dg_sock = sock, dg_bytes = buf, dg_confirm = flag,
                                     dg_to = sa, dg_tolen = salen\<rparr>]\<rparr>))"

definition send_or_fail :: "byte list option \<Rightarrow> bool \<Rightarrow> sockaddr \<Rightarrow> int \<Rightarrow> dht \<Rightarrow> int \<times> dht" where
  "send_or_fail r flag sa salen s =
     (case r of None \<Rightarrow> (-1, s) | Some buf \<Rightarrow> dht_send buf flag sa salen s)"

definition ping_msg :: "dht \<Rightarrow> byte list \<Rightarrow> byte list option" where
  "ping_msg s tid = do {
     b \<leftarrow> fmt 512 (ascii ''d1:ad2:id20:'') [];
     b \<leftarrow> copy 512 (myid s) b;
     b \<leftarrow> fmt 512 (ascii ''e1:q4:ping1:t'' @ fmt_d (length tid) @ ascii '':'') b;
     b \<leftarrow> copy 512 tid b;
     b \<leftarrow> add_v s 512 b;
     fmt 512 (ascii ''1:y1:qe'') b
   }"

definition send_ping :: "sockaddr \<Rightarrow> int \<Rightarrow> byte list \<Rightarrow> dht \<Rightarrow> int \<times> dht" where
  "send_ping sa salen tid s = send_or_fail (ping_msg s tid) False sa salen s"

definition pong_msg :: "dht \<Rightarrow> byte list \<Rightarrow> byte list option" where
  "pong_msg s tid = do {
     b \<leftarrow> fmt 512 (ascii ''d1:rd2:id20:'') [];
     b \<leftarrow> copy 512 (myid s) b;
     b \<leftarrow> fmt 512 (ascii ''e1:t'' @ fmt_d (length tid) @ ascii '':'') b;
     b \<leftarrow> copy 512 tid b;
     b \<leftarrow> add_v s 512 b;
     fmt 512 (ascii ''1:y1:re'') b
   }"

definition send_pong :: "sockaddr \<Rightarrow> int \<Rightarrow> byte list \<Rightarrow> dht \<Rightarrow> int \<times> dht" where
  "send_pong sa salen tid s = send_or_fail (pong_msg s tid) False sa salen s"

definition want_text :: "int \<Rightarrow> byte list" where
  "want_text want =
     ascii ''4:wantl'' @
     (if want AND WANT4 \<noteq> 0 then ascii ''2:n4'' else []) @
     (if want AND WANT6 \<noteq> 0 then ascii ''2:n6'' else []) @
     ascii ''e''"

definition find_node_msg :: "dht \<Rightarrow> byte list \<Rightarrow> byte list \<Rightarrow> int \<Rightarrow> byte list option" where
  "find_node_msg s tid target want = do {
     b \<leftarrow> fmt 512 (ascii ''d1:ad2:id20:'') [];
     b \<leftarrow> copy 512 (myid s) b;
     b \<leftarrow> fmt 512 (ascii ''6:target20:'') b;
     b \<leftarrow> copy 512 target b;
     b \<leftarrow> (if 0 < want then fmt 512 (want_text want) b else Some b);
     b \<leftarrow> fmt 512 (ascii ''e1:q9:find_node1:t'' @ fmt_d (length tid) @ ascii '':'') b;
     b \<leftarrow> copy 512 tid b;
     b \<leftarrow> add_v s 512 b;
     fmt 512 (ascii ''1:y1:qe'') b
   }"

definition send_find_node ::
    "sockaddr \<Rightarrow> int \<Rightarrow> byte list \<Rightarrow> byte list \<Rightarrow> int \<Rightarrow> bool \<Rightarrow> dht \<Rightarrow> int \<times> dht" where
  "send_find_node sa salen tid target want confirm s =
     send_or_fail (find_node_msg s tid target want) confirm sa salen s"

text \<open>
  The do-while loop of \<open>send_nodes_peers\<close>. It starts at \<open>j = j0\<close>, which is below the number
  of peers, and stops when \<open>j\<close> has come around to \<open>j0\<close> or 50 peers are written.
\<close>

definition peer_msg :: "nat \<Rightarrow> peer \<Rightarrow> byte list \<Rightarrow> byte list option" where
  "peer_msg len p b = do {
     b \<leftarrow> fmt 2048 (fmt_d (len + 2) @ ascii '':'') b;
     b \<leftarrow> copy 2048 (take len (p_ip p)) b;
     copy 2048 (htons (p_port p)) b
   }"

function peers_loop :: "peer list \<Rightarrow> nat \<Rightarrow> nat \<Rightarrow> nat \<Rightarrow> nat \<Rightarrow> byte list \<Rightarrow> byte list option" where
  "peers_loop ps len j0 j k b =
     (if length ps \<le> j0 then None
      else let p = ps ! j;
               k' = (if p_len p = len then k + 1 else k);
               j' = (j + 1) mod length ps
           in case (if p_len p = len then peer_msg len p b else Some b) of
                None \<Rightarrow> None
              | Some b' \<Rightarrow> if j' \<noteq> j0 \<and> k' < 50 then peers_loop ps len j0 j' k' b' else Some b')"
  by pat_completeness auto

lemma around_decreases:
  assumes "j0 < n" "(j + 1) mod n \<noteq> j0"
  shows "nat ((int j0 - int ((j + 1) mod n) - 1) mod int n) < nat ((int j0 - int j - 1) mod int n)"
proof -
  define a where "a = int j0 - int j - 1"
  define m where "m = a mod int n"
  have n: "0 < int n" using assms(1) by simp
  have "m \<noteq> 0"
  proof
    assume "m = 0"
    then have "int n dvd int j0 - int (j + 1)" by (simp add: m_def a_def dvd_eq_mod_eq_0 algebra_simps)
    then have "int j0 mod int n = int (j + 1) mod int n" by (simp only: mod_eq_dvd_iff)
    then have "j0 mod n = (j + 1) mod n" by (simp only: zmod_int [symmetric] of_nat_eq_iff)
    with assms show False by simp
  qed
  moreover have "0 \<le> m" "m < int n" using n by (simp_all add: m_def)
  ultimately have m: "0 < m" "m < int n" by auto
  have "(int j0 - int ((j + 1) mod n) - 1) mod int n = (int j0 - int (j + 1) mod int n - 1) mod int n"
    by (simp only: zmod_int)
  also have "\<dots> = (int j0 - int (j + 1) - 1) mod int n" by (simp only: diff_right_commute [of _ _ 1] mod_diff_right_eq)
  also have "int j0 - int (j + 1) - 1 = a - 1" by (simp add: a_def)
  also have "(a - 1) mod int n = (m - 1) mod int n" unfolding m_def by (simp only: mod_simps)
  also have "\<dots> = m - 1" using m by (intro mod_pos_pos_trivial) simp_all
  finally show ?thesis using m by (simp add: m_def a_def)
qed

termination peers_loop
proof (relation "measure (\<lambda>(ps, len, j0, j, k, b). nat ((int j0 - int j - 1) mod int (length ps)))",
    goal_cases)
  case 1
  show ?case by simp
next
  case (2 ps len j0 j k b p k' j' b')
  then show ?case using around_decreases [of j0 "length ps" j] by simp
qed

declare peers_loop.simps [simp del]

text \<open>The lengths are those of the given byte strings; \<open>None\<close> as a storage is NULL.\<close>

definition nodes_peers_head ::
    "dht \<Rightarrow> byte list \<Rightarrow> byte list \<Rightarrow> byte list \<Rightarrow> byte list option" where
  "nodes_peers_head s nodes nodes6 token = do {
     b \<leftarrow> fmt 2048 (ascii ''d1:rd2:id20:'') [];
     b \<leftarrow> copy 2048 (myid s) b;
     b \<leftarrow> (if 0 < length nodes
          then do { b \<leftarrow> fmt 2048 (ascii ''5:nodes'' @ fmt_d (length nodes) @ ascii '':'') b;
                    copy 2048 nodes b }
          else Some b);
     b \<leftarrow> (if 0 < length nodes6
          then do { b \<leftarrow> fmt 2048 (ascii ''6:nodes6'' @ fmt_d (length nodes6) @ ascii '':'') b;
                    copy 2048 nodes6 b }
          else Some b);
     (if 0 < length token
      then do { b \<leftarrow> fmt 2048 (ascii ''5:token'' @ fmt_d (length token) @ ascii '':'') b;
                copy 2048 token b }
      else Some b)
   }"

definition nodes_peers_values :: "nat \<Rightarrow> storage \<Rightarrow> nat \<Rightarrow> byte list \<Rightarrow> byte list option" where
  "nodes_peers_values af st rnd b = do {
     let len = (if af = AF_INET then 4 else 16);
     let j0 = rnd mod length (st_peers st);
     b \<leftarrow> fmt 2048 (ascii ''6:valuesl'') b;
     b \<leftarrow> peers_loop (st_peers st) len j0 j0 0 b;
     fmt 2048 (ascii ''e'') b
   }"

definition nodes_peers_tail :: "dht \<Rightarrow> byte list \<Rightarrow> byte list \<Rightarrow> byte list option" where
  "nodes_peers_tail s tid b = do {
     b \<leftarrow> fmt 2048 (ascii ''e1:t'' @ fmt_d (length tid) @ ascii '':'') b;
     b \<leftarrow> copy 2048 tid b;
     b \<leftarrow> add_v s 2048 b;
     fmt 2048 (ascii ''1:y1:re'') b
   }"

definition send_nodes_peers ::
    "sockaddr \<Rightarrow> int \<Rightarrow> byte list \<Rightarrow> byte list \<Rightarrow> byte list \<Rightarrow> nat \<Rightarrow> storage option \<Rightarrow> byte list \<Rightarrow>
     dht \<Rightarrow> int \<times> dht" where
  "send_nodes_peers sa salen tid nodes nodes6 af st token s =
     (case nodes_peers_head s nodes nodes6 token of
        None \<Rightarrow> (-1, s)
      | Some b \<Rightarrow>
          (case st of
             Some store \<Rightarrow>
               if 0 < length (st_peers store)
               then let (rnd, s1) = random s
                    in send_or_fail (nodes_peers_values af store rnd b \<bind> nodes_peers_tail s1 tid)
                         False sa salen s1
               else send_or_fail (nodes_peers_tail s tid b) False sa salen s
           | None \<Rightarrow> send_or_fail (nodes_peers_tail s tid b) False sa salen s))"

definition get_peers_msg :: "dht \<Rightarrow> byte list \<Rightarrow> byte list \<Rightarrow> int \<Rightarrow> byte list option" where
  "get_peers_msg s tid infohash want = do {
     b \<leftarrow> fmt 512 (ascii ''d1:ad2:id20:'') [];
     b \<leftarrow> copy 512 (myid s) b;
     b \<leftarrow> fmt 512 (ascii ''9:info_hash20:'') b;
     b \<leftarrow> copy 512 infohash b;
     b \<leftarrow> (if 0 < want then fmt 512 (want_text want) b else Some b);
     b \<leftarrow> fmt 512 (ascii ''e1:q9:get_peers1:t'' @ fmt_d (length tid) @ ascii '':'') b;
     b \<leftarrow> copy 512 tid b;
     b \<leftarrow> add_v s 512 b;
     fmt 512 (ascii ''1:y1:qe'') b
   }"

definition send_get_peers ::
    "sockaddr \<Rightarrow> int \<Rightarrow> byte list \<Rightarrow> byte list \<Rightarrow> int \<Rightarrow> bool \<Rightarrow> dht \<Rightarrow> int \<times> dht" where
  "send_get_peers sa salen tid infohash want confirm s =
     send_or_fail (get_peers_msg s tid infohash want) confirm sa salen s"

definition announce_peer_msg ::
    "dht \<Rightarrow> byte list \<Rightarrow> byte list \<Rightarrow> 16 word \<Rightarrow> byte list \<Rightarrow> byte list option" where
  "announce_peer_msg s tid infohash port token = do {
     b \<leftarrow> fmt 512 (ascii ''d1:ad2:id20:'') [];
     b \<leftarrow> copy 512 (myid s) b;
     b \<leftarrow> fmt 512 (ascii ''9:info_hash20:'') b;
     b \<leftarrow> copy 512 infohash b;
     b \<leftarrow> fmt 512 (ascii ''4:porti'' @ fmt_d (unat port) @ ascii ''e5:token'' @
                  fmt_d (length token) @ ascii '':'') b;
     b \<leftarrow> copy 512 token b;
     b \<leftarrow> fmt 512 (ascii ''e1:q13:announce_peer1:t'' @ fmt_d (length tid) @ ascii '':'') b;
     b \<leftarrow> copy 512 tid b;
     b \<leftarrow> add_v s 512 b;
     fmt 512 (ascii ''1:y1:qe'') b
   }"

definition send_announce_peer ::
    "sockaddr \<Rightarrow> int \<Rightarrow> byte list \<Rightarrow> byte list \<Rightarrow> 16 word \<Rightarrow> byte list \<Rightarrow> bool \<Rightarrow> dht \<Rightarrow> int \<times> dht" where
  "send_announce_peer sa salen tid infohash port token confirm s =
     send_or_fail (announce_peer_msg s tid infohash port token) (\<not> confirm) sa salen s"

definition peer_announced_msg :: "dht \<Rightarrow> byte list \<Rightarrow> byte list option" where
  "peer_announced_msg s tid = do {
     b \<leftarrow> fmt 512 (ascii ''d1:rd2:id20:'') [];
     b \<leftarrow> copy 512 (myid s) b;
     b \<leftarrow> fmt 512 (ascii ''e1:t'' @ fmt_d (length tid) @ ascii '':'') b;
     b \<leftarrow> copy 512 tid b;
     b \<leftarrow> add_v s 512 b;
     fmt 512 (ascii ''1:y1:re'') b
   }"

definition send_peer_announced :: "sockaddr \<Rightarrow> int \<Rightarrow> byte list \<Rightarrow> dht \<Rightarrow> int \<times> dht" where
  "send_peer_announced sa salen tid s = send_or_fail (peer_announced_msg s tid) False sa salen s"

definition error_msg :: "dht \<Rightarrow> byte list \<Rightarrow> int \<Rightarrow> byte list \<Rightarrow> byte list option" where
  "error_msg s tid code message = do {
     b \<leftarrow> fmt 512 (ascii ''d1:eli'' @ int_text code @ ascii ''e'' @ fmt_d (length message) @ ascii '':'') [];
     b \<leftarrow> copy 512 message b;
     b \<leftarrow> fmt 512 (ascii ''e1:t'' @ fmt_d (length tid) @ ascii '':'') b;
     b \<leftarrow> copy 512 tid b;
     b \<leftarrow> add_v s 512 b;
     fmt 512 (ascii ''1:y1:ee'') b
   }"

definition send_error :: "sockaddr \<Rightarrow> int \<Rightarrow> byte list \<Rightarrow> int \<Rightarrow> byte list \<Rightarrow> dht \<Rightarrow> int \<times> dht" where
  "send_error sa salen tid code message s =
     send_or_fail (error_msg s tid code message) False sa salen s"

section \<open>What the senders write\<close>

lemma fmt_fits: "length b + length t < sz \<Longrightarrow> fmt sz t b = Some (b @ t)"
  by (simp add: fmt_def)

lemma copy_fits: "length b + length t \<le> sz \<Longrightarrow> copy sz t b = Some (b @ t)"
  by (simp add: copy_def)

lemma length_dec_digits_le: "n < 10 ^ k \<Longrightarrow> 0 < k \<Longrightarrow> length (dec_digits n) \<le> k"
proof (induction n arbitrary: k rule: dec_digits.induct)
  case (1 n)
  show ?case
  proof (cases "0 < n div 10")
    case True
    then have "10 \<le> n" by (simp add: div_greater_zero_iff)
    with "1.prems" have "k \<noteq> 1" by auto
    with "1.prems"(2) obtain m where k: "k = Suc m" "0 < m" by (cases k) auto
    with "1.prems"(1) have "n div 10 < 10 ^ m" by (simp add: div_less_iff_less_mult mult.commute)
    with "1.IH" [OF True this k(2)] True k(1) show ?thesis by (simp add: dec_digits.simps [of n])
  next
    case False
    with "1.prems"(2) show ?thesis by (simp add: dec_digits.simps [of n])
  qed
qed

lemma length_fmt_d: "n < 100000 \<Longrightarrow> length (fmt_d n) \<le> 5"
  using length_dec_digits_le [of n 5] by (simp add: fmt_d_def int_text_def)

lemma fmt_d_digits: "fmt_d n = dec_digits n"
  by (simp add: fmt_d_def int_text_def)

text \<open>The lengths of the literal keys and strings, as \<open>length\<close> computes them.\<close>

lemma dec_digits_literal [layout_simps]:
  "dec_digits (Suc 0) = [49]"
  "dec_digits (Suc (Suc 0)) = [50]"
  "dec_digits (Suc (Suc (Suc 0))) = [51]"
  "dec_digits (Suc (Suc (Suc (Suc 0)))) = [52]"
  "dec_digits (Suc (Suc (Suc (Suc (Suc 0))))) = [53]"
  "dec_digits (Suc (Suc (Suc (Suc (Suc (Suc 0)))))) = [54]"
  "dec_digits (Suc (Suc (Suc (Suc (Suc (Suc (Suc 0))))))) = [55]"
  "dec_digits (Suc (Suc (Suc (Suc (Suc (Suc (Suc (Suc 0)))))))) = [56]"
  "dec_digits (Suc (Suc (Suc (Suc (Suc (Suc (Suc (Suc (Suc 0))))))))) = [57]"
  "dec_digits (Suc (Suc (Suc (Suc (Suc (Suc (Suc (Suc (Suc (Suc 0)))))))))) = [49, 48]"
  "dec_digits (Suc (Suc (Suc (Suc (Suc (Suc (Suc (Suc (Suc (Suc (Suc 0))))))))))) = [49, 49]"
  "dec_digits (Suc (Suc (Suc (Suc (Suc (Suc (Suc (Suc (Suc (Suc (Suc (Suc 0)))))))))))) = [49, 50]"
  "dec_digits (Suc (Suc (Suc (Suc (Suc (Suc (Suc (Suc (Suc (Suc (Suc (Suc (Suc 0))))))))))))) = [49, 51]"
  by (simp_all add: dec_digits.simps digit_byte_def)

lemma dec_digits_20 [layout_simps]: "dec_digits 20 = [50, 48]"
  by (simp add: dec_digits.simps digit_byte_def)

lemma dec_digits_6_18 [layout_simps]: "dec_digits 6 = [54]" "dec_digits 18 = [49, 56]"
  by (simp_all add: dec_digits.simps digit_byte_def)

text \<open>What \<open>dht_init\<close> makes of the identifier and the version string.\<close>

definition sender_ok :: "dht \<Rightarrow> bool" where
  "sender_ok s \<longleftrightarrow> length (myid s) = 20 \<and>
     (have_v s \<longrightarrow> length (my_v s) = 9 \<and> take 5 (my_v s) = ascii ''1:v4:'')"

definition v_entry :: "dht \<Rightarrow> dict_entries" where
  "v_entry s = (if have_v s then [(ascii ''v'', BENC_BSTR (drop 5 (my_v s)))] else [])"

definition query_obj :: "dht \<Rightarrow> string \<Rightarrow> dict_entries \<Rightarrow> byte list \<Rightarrow> bobj" where
  "query_obj s q args tid = BENC_DICT (
     [(ascii ''a'', BENC_DICT ((ascii ''id'', BENC_BSTR (myid s)) # args)),
      (ascii ''q'', BENC_BSTR (ascii q)), (ascii ''t'', BENC_BSTR tid)] @
     v_entry s @ [(ascii ''y'', BENC_BSTR (ascii ''q''))])"

definition reply_obj :: "dht \<Rightarrow> dict_entries \<Rightarrow> byte list \<Rightarrow> bobj" where
  "reply_obj s args tid = BENC_DICT (
     [(ascii ''r'', BENC_DICT ((ascii ''id'', BENC_BSTR (myid s)) # args)),
      (ascii ''t'', BENC_BSTR tid)] @
     v_entry s @ [(ascii ''y'', BENC_BSTR (ascii ''r''))])"

definition want_entry :: "int \<Rightarrow> dict_entries" where
  "want_entry want = (if 0 < want then [(ascii ''want'', BENC_LIST (
      (if want AND WANT4 \<noteq> 0 then [BENC_BSTR (ascii ''n4'')] else []) @
      (if want AND WANT6 \<noteq> 0 then [BENC_BSTR (ascii ''n6'')] else [])))] else [])"

lemma add_v_text:
  assumes "sender_ok s" "length b + 9 \<le> sz"
  shows "add_v s sz b = Some (b @ concat (map entry_text (v_entry s)))"
proof (cases "have_v s")
  case True
  then have "my_v s = ascii ''1:v4:'' @ drop 5 (my_v s)" "length (drop 5 (my_v s)) = 4"
    using assms(1) append_take_drop_id [of 5 "my_v s"] by (auto simp: sender_ok_def)
  then have "my_v s = entry_text (ascii ''v'', BENC_BSTR (drop 5 (my_v s)))"
    by (simp add: bstr_text_def dec_digits.simps digit_byte_def)
  with True assms show ?thesis by (simp add: add_v_def copy_fits v_entry_def sender_ok_def)
next
  case False
  then show ?thesis by (simp add: add_v_def v_entry_def)
qed

lemma length_v_text: "sender_ok s \<Longrightarrow> length (concat (map entry_text (v_entry s))) \<le> 9"
  by (simp add: v_entry_def bstr_text_def sender_ok_def dec_digits.simps)

lemma want_text_entry: "0 < want \<Longrightarrow> want_text want = concat (map entry_text (want_entry want))"
  by (simp add: want_text_def want_entry_def bstr_text_def dec_digits.simps digit_byte_def)

lemma length_want_text: "length (want_text want) \<le> 16"
  by (simp add: want_text_def)

lemmas msg_simps = fmt_fits copy_fits add_v_text fmt_d_digits query_obj_def reply_obj_def
  bstr_text_def digit_byte_def

text \<open>A transaction identifier the senders are called with.\<close>

definition tid_ok :: "byte list \<Rightarrow> bool" where
  "tid_ok tid \<longleftrightarrow> 0 < length tid \<and> length tid \<le> 16"

lemma tid_digits: "tid_ok tid \<Longrightarrow> length (dec_digits (length tid)) \<le> 2"
  using length_dec_digits_le [of "length tid" 2] by (simp add: tid_ok_def)

lemma id_text: "sender_ok s \<Longrightarrow> bstr_text (myid s) = ascii ''20:'' @ myid s"
  by (simp add: bstr_text_def sender_ok_def dec_digits.simps digit_byte_def)

lemma ping_msg_text:
  "sender_ok s \<Longrightarrow> tid_ok tid \<Longrightarrow> ping_msg s tid = Some (bencoding (query_obj s ''ping'' [] tid))"
  using tid_digits [of tid] length_v_text [of s]
  by (simp add: ping_msg_def msg_simps layout_simps sender_ok_def tid_ok_def)

lemma pong_msg_text:
  "sender_ok s \<Longrightarrow> tid_ok tid \<Longrightarrow> pong_msg s tid = Some (bencoding (reply_obj s [] tid))"
  using tid_digits [of tid] length_v_text [of s]
  by (simp add: pong_msg_def msg_simps layout_simps sender_ok_def tid_ok_def)

lemma peer_announced_msg_text:
  "sender_ok s \<Longrightarrow> tid_ok tid \<Longrightarrow> peer_announced_msg s tid = Some (bencoding (reply_obj s [] tid))"
  using tid_digits [of tid] length_v_text [of s]
  by (simp add: peer_announced_msg_def msg_simps layout_simps sender_ok_def tid_ok_def)

lemma find_node_msg_text:
  assumes "sender_ok s" "tid_ok tid" "length target = 20"
  shows "find_node_msg s tid target want = Some (bencoding (query_obj s ''find_node''
    ((ascii ''target'', BENC_BSTR target) # want_entry want) tid))"
proof (cases "0 < want")
  case True
  with assms show ?thesis
    using tid_digits [of tid] length_v_text [of s] length_want_text [of want] want_text_entry [of want]
    by (simp add: find_node_msg_def msg_simps layout_simps sender_ok_def tid_ok_def)
next
  case False
  with assms show ?thesis
    using tid_digits [of tid] length_v_text [of s]
    by (simp add: find_node_msg_def msg_simps layout_simps sender_ok_def tid_ok_def want_entry_def)
qed

lemma get_peers_msg_text:
  assumes "sender_ok s" "tid_ok tid" "length infohash = 20"
  shows "get_peers_msg s tid infohash want = Some (bencoding (query_obj s ''get_peers''
    ((ascii ''info_hash'', BENC_BSTR infohash) # want_entry want) tid))"
proof (cases "0 < want")
  case True
  with assms show ?thesis
    using tid_digits [of tid] length_v_text [of s] length_want_text [of want] want_text_entry [of want]
    by (simp add: get_peers_msg_def msg_simps layout_simps sender_ok_def tid_ok_def)
next
  case False
  with assms show ?thesis
    using tid_digits [of tid] length_v_text [of s]
    by (simp add: get_peers_msg_def msg_simps layout_simps sender_ok_def tid_ok_def want_entry_def)
qed

lemma port_digits: "length (dec_digits (unat (port :: 16 word))) \<le> 5"
proof -
  have "unat port < 2 ^ LENGTH(16)" by (rule unsigned_less)
  then show ?thesis by (intro length_dec_digits_le) simp_all
qed

lemma announce_peer_msg_text:
  assumes "sender_ok s" "tid_ok tid" "length infohash = 20" "length token < 40"
  shows "announce_peer_msg s tid infohash port token = Some (bencoding (query_obj s ''announce_peer''
    [(ascii ''info_hash'', BENC_BSTR infohash), (ascii ''port'', BENC_INT (int (unat port))),
     (ascii ''token'', BENC_BSTR token)] tid))"
  using assms tid_digits [of tid] length_v_text [of s] port_digits [of port]
    length_dec_digits_le [of "length token" 2]
  by (simp add: announce_peer_msg_def msg_simps layout_simps sender_ok_def tid_ok_def int_text_def)

lemma error_msg_text:
  assumes "sender_ok s" "tid_ok tid" "0 \<le> code" "code < 100000" "length message \<le> 400"
  shows "error_msg s tid code message = Some (bencoding (BENC_DICT (
     [(ascii ''e'', BENC_LIST [BENC_INT code, BENC_BSTR message]), (ascii ''t'', BENC_BSTR tid)] @
     v_entry s @ [(ascii ''y'', BENC_BSTR (ascii ''e''))])))"
  using assms tid_digits [of tid] length_v_text [of s]
    length_dec_digits_le [of "length message" 3] length_dec_digits_le [of "nat code" 5]
  by (simp add: nat_less_iff error_msg_def msg_simps layout_simps sender_ok_def tid_ok_def int_text_def)

section \<open>The values of a reply\<close>

definition peer_value :: "peer \<Rightarrow> byte list" where
  "peer_value p = p_ip p @ htons (p_port p)"

text \<open>The peers of the wanted family, from a starting point on and around, 50 at most.\<close>

definition served :: "peer list \<Rightarrow> nat \<Rightarrow> nat \<Rightarrow> peer list" where
  "served ps len j0 = take 50 (filter (\<lambda>p. p_len p = len) (rotate j0 ps))"

definition peers_ok :: "peer list \<Rightarrow> bool" where
  "peers_ok ps \<longleftrightarrow> (\<forall>p \<in> set ps. length (p_ip p) = p_len p \<and> (p_len p = 4 \<or> p_len p = 16))"

lemma length_htons [simp, layout_simps]: "length (htons w) = 2"
  by (simp add: htons_def)

lemma peer_msg_text:
  assumes "length (p_ip p) = len" "len = 4 \<or> len = 16" "length b + 21 < 2048"
  shows "peer_msg len p b = Some (b @ bstr_text (peer_value p))"
    and "length (bstr_text (peer_value p)) \<le> 21"
proof -
  note defs = peer_msg_def fmt_d_digits fmt_fits copy_fits bstr_text_def peer_value_def layout_simps
  show "peer_msg len p b = Some (b @ bstr_text (peer_value p))"
    using assms(2)
  proof
    assume "len = 4"
    with assms(1,3) show ?thesis by (simp add: defs del: length_dec_digits)
  next
    assume "len = 16"
    with assms(1,3) show ?thesis by (simp add: defs del: length_dec_digits)
  qed
  show "length (bstr_text (peer_value p)) \<le> 21"
    using assms(2)
  proof
    assume "len = 4"
    with assms(1) show ?thesis by (simp add: defs del: length_dec_digits)
  next
    assume "len = 16"
    with assms(1) show ?thesis by (simp add: defs del: length_dec_digits)
  qed
qed

lemma peers_loop_step:
  assumes ok: "peers_ok ps" and j0: "j0 < length ps" and i: "i < length ps"
    and k: "k < 50" and fits: "length b + 21 * (50 - k) < 2048"
  shows "peers_loop ps len j0 ((j0 + i) mod length ps) k b =
    Some (b @ concat (map (\<lambda>p. bstr_text (peer_value p))
      (take (50 - k) (filter (\<lambda>p. p_len p = len) (drop i (rotate j0 ps))))))"
  using i k fits
proof (induction "length ps - i" arbitrary: i k b)
  case 0
  then show ?case by simp
next
  case (Suc d)
  let ?j = "(j0 + i) mod length ps" and ?P = "\<lambda>p. p_len p = len"
  let ?p = "ps ! ?j" and ?next = "(?j + 1) mod length ps"
  have p: "rotate j0 ps ! i = ?p" using Suc.prems(1) by (simp add: nth_rotate)
  have "?p \<in> set ps" using j0 by (intro nth_mem mod_less_divisor) (rule le_less_trans [OF le0])
  then have pok: "length (p_ip ?p) = p_len ?p" "p_len ?p = 4 \<or> p_len ?p = 16"
    using ok by (auto simp: peers_ok_def)
  have dr: "drop i (rotate j0 ps) = ?p # drop (Suc i) (rotate j0 ps)"
    using Suc.prems(1) by (simp add: Cons_nth_drop_Suc [symmetric] p)
  have nx: "?next = (j0 + Suc i) mod length ps" by (simp add: mod_Suc_eq)
  have last: "?next = j0 \<longleftrightarrow> Suc i = length ps"
  proof
    assume "Suc i = length ps"
    then have "?next = (j0 + length ps) mod length ps" by (simp only: nx)
    with j0 show "?next = j0" by simp
  next
    assume eq: "?next = j0"
    show "Suc i = length ps"
    proof (rule ccontr)
      assume "Suc i \<noteq> length ps"
      then have si: "Suc i < length ps" using Suc.prems(1) by simp
      show False
      proof (cases "j0 + Suc i < length ps")
        case True
        with eq nx show False by simp
      next
        case False
        then have "(j0 + Suc i) mod length ps = j0 + Suc i - length ps"
          using j0 si by (simp add: mod_if)
        with eq nx si False show False by linarith
      qed
    qed
  qed
  have rest: "peers_loop ps len j0 ((j0 + Suc i) mod length ps) k' b' =
      Some (b' @ concat (map (\<lambda>p. bstr_text (peer_value p))
        (take (50 - k') (filter ?P (drop (Suc i) (rotate j0 ps))))))"
    if "Suc i < length ps" "k' < 50" "length b' + 21 * (50 - k') < 2048" for k' b'
    using that Suc.hyps by (intro Suc.hyps(1)) simp_all
  have emp: "drop (Suc i) (rotate j0 ps) = []" if "Suc i = length ps" using that by simp
  show ?case
  proof (cases "?P ?p")
    case True
    let ?b = "b @ bstr_text (peer_value ?p)"
    have m: "peer_msg len ?p b = Some ?b" "length (bstr_text (peer_value ?p)) \<le> 21"
      using peer_msg_text [of ?p len b] pok True Suc.prems by auto
    then have fits': "length ?b + 21 * (50 - (k + 1)) < 2048" using Suc.prems by simp
    have t: "take (50 - k) (filter ?P (drop i (rotate j0 ps))) =
        ?p # take (50 - Suc k) (filter ?P (drop (Suc i) (rotate j0 ps)))"
      using True Suc.prems(2) by (simp add: dr Suc_diff_Suc [symmetric])
    show ?thesis
    proof (cases "Suc i < length ps \<and> Suc k < 50")
      case t2: True
      with rest [of "Suc k" ?b] True m fits' t last j0 nx show ?thesis
        by (simp add: peers_loop.simps [of ps len j0 ?j])
    next
      case False
      then have "?next = j0 \<or> \<not> Suc k < 50" "take (50 - Suc k) (filter ?P (drop (Suc i) (rotate j0 ps))) = []"
        using last Suc.prems(1) emp by (cases "Suc i = length ps", auto)
      with True m t j0 show ?thesis
        by (auto simp add: peers_loop.simps [of ps len j0 ?j])
    qed
  next
    case False
    then have t: "filter ?P (drop i (rotate j0 ps)) = filter ?P (drop (Suc i) (rotate j0 ps))"
      by (simp add: dr)
    show ?thesis
    proof (cases "Suc i < length ps")
      case t2: True
      with rest [of k b] False t last j0 nx Suc.prems show ?thesis
        by (simp add: peers_loop.simps [of ps len j0 ?j])
    next
      case t2: False
      then have "Suc i = length ps" using Suc.prems(1) by simp
      with False t last emp j0 show ?thesis
        by (simp add: peers_loop.simps [of ps len j0 ?j])
    qed
  qed
qed

lemma peers_loop_served:
  assumes "peers_ok ps" "j0 < length ps" "length b + 21 * 50 < 2048"
  shows "peers_loop ps len j0 j0 0 b =
    Some (b @ concat (map (\<lambda>p. bstr_text (peer_value p)) (served ps len j0)))"
  using peers_loop_step [of ps j0 0 0 b len] assms by (cases "ps = []") (simp_all add: served_def)

definition opt_entry :: "string \<Rightarrow> byte list \<Rightarrow> dict_entries" where
  "opt_entry key x = (if x = [] then [] else [(ascii key, BENC_BSTR x)])"

definition values_entry :: "peer list \<Rightarrow> nat \<Rightarrow> nat \<Rightarrow> dict_entries" where
  "values_entry ps af rnd = (if ps = [] then [] else [(ascii ''values'',
     BENC_LIST (map (\<lambda>p. BENC_BSTR (peer_value p))
       (served ps (if af = AF_INET then 4 else 16) (rnd mod length ps))))])"

definition head_entries :: "byte list \<Rightarrow> byte list \<Rightarrow> byte list \<Rightarrow> dict_entries" where
  "head_entries nodes nodes6 token =
     opt_entry ''nodes'' nodes @ opt_entry ''nodes6'' nodes6 @ opt_entry ''token'' token"

definition reply_sizes_ok :: "byte list \<Rightarrow> byte list \<Rightarrow> byte list \<Rightarrow> bool" where
  "reply_sizes_ok nodes nodes6 token \<longleftrightarrow>
     length nodes \<le> 8 * 26 \<and> length nodes6 \<le> 8 * 38 \<and> length token \<le> 40"

lemma opt_entry_text:
  assumes "length b + length x + 20 < 2048" "length x < 1000"
    and "bstr_text (ascii key) = ascii pre" "length pre \<le> 8"
  shows "(if 0 < length x
      then fmt 2048 (ascii pre @ fmt_d (length x) @ ascii '':'') b \<bind> copy 2048 x else Some b) =
    Some (b @ concat (map entry_text (opt_entry key x)))"
  using assms length_dec_digits_le [of "length x" 3]
  by (simp add: fmt_fits copy_fits fmt_d_digits opt_entry_def bstr_text_def [of x])

lemma length_opt_entry:
  assumes "length x < 1000" "length key \<le> 6"
  shows "length (concat (map entry_text (opt_entry key x))) \<le> length x + 12"
  using assms length_dec_digits_le [of "length x" 3] length_dec_digits_le [of "length key" 1]
  by (simp add: opt_entry_def bstr_text_def)

lemma nodes_peers_head_text:
  assumes "sender_ok s" "reply_sizes_ok nodes nodes6 token"
  shows "nodes_peers_head s nodes nodes6 token = Some (ascii ''d1:rd2:id20:'' @ myid s @
      concat (map entry_text (head_entries nodes nodes6 token)))"
    and "length (concat (map entry_text (head_entries nodes nodes6 token))) \<le> 600"
proof -
  let ?t = "\<lambda>k x. concat (map entry_text (opt_entry k x))"
  have l: "length (?t ''nodes'' nodes) \<le> length nodes + 12"
    "length (?t ''nodes6'' nodes6) \<le> length nodes6 + 12" "length (?t ''token'' token) \<le> length token + 12"
    using assms(2) by (intro length_opt_entry; simp add: reply_sizes_ok_def)+
  then show "length (concat (map entry_text (head_entries nodes nodes6 token))) \<le> 600"
    using assms(2) by (simp add: head_entries_def reply_sizes_ok_def)
  have k: "bstr_text (ascii ''nodes'') = ascii ''5:nodes''" "bstr_text (ascii ''nodes6'') = ascii ''6:nodes6''"
    "bstr_text (ascii ''token'') = ascii ''5:token''"
    by (simp_all add: bstr_text_def layout_simps)
  let ?b0 = "ascii ''d1:rd2:id20:'' @ myid s"
  have b0: "length ?b0 = 32" using assms(1) by (simp add: sender_ok_def)
  note sz = assms(2) [unfolded reply_sizes_ok_def]
  have s: "fmt 2048 (ascii ''d1:rd2:id20:'') [] = Some (ascii ''d1:rd2:id20:'')"
    "copy 2048 (myid s) (ascii ''d1:rd2:id20:'') = Some ?b0"
    using b0 by (simp_all add: fmt_fits copy_fits)
  have s1: "(if 0 < length nodes
      then fmt 2048 (ascii ''5:nodes'' @ fmt_d (length nodes) @ ascii '':'') ?b0 \<bind> copy 2048 nodes
      else Some ?b0) = Some (?b0 @ ?t ''nodes'' nodes)"
    using sz b0 by (intro opt_entry_text [OF _ _ k(1)]) simp_all
  have s2: "(if 0 < length nodes6
      then fmt 2048 (ascii ''6:nodes6'' @ fmt_d (length nodes6) @ ascii '':'')
        (?b0 @ ?t ''nodes'' nodes) \<bind> copy 2048 nodes6
      else Some (?b0 @ ?t ''nodes'' nodes)) = Some ((?b0 @ ?t ''nodes'' nodes) @ ?t ''nodes6'' nodes6)"
    using sz b0 l by (intro opt_entry_text [OF _ _ k(2)]) (simp_all del: ascii_Cons)
  have s3: "(if 0 < length token
      then fmt 2048 (ascii ''5:token'' @ fmt_d (length token) @ ascii '':'')
        ((?b0 @ ?t ''nodes'' nodes) @ ?t ''nodes6'' nodes6) \<bind> copy 2048 token
      else Some ((?b0 @ ?t ''nodes'' nodes) @ ?t ''nodes6'' nodes6)) =
      Some (((?b0 @ ?t ''nodes'' nodes) @ ?t ''nodes6'' nodes6) @ ?t ''token'' token)"
    using sz b0 l by (intro opt_entry_text [OF _ _ k(3)]) (simp_all del: ascii_Cons)
  show "nodes_peers_head s nodes nodes6 token = Some (ascii ''d1:rd2:id20:'' @ myid s @
      concat (map entry_text (head_entries nodes nodes6 token)))"
    unfolding nodes_peers_head_def
    by (simp only: s s1 s2 s3 Option.bind.simps)
      (simp only: head_entries_def map_append concat_append append_assoc)
qed

lemma nodes_peers_tail_text:
  assumes "sender_ok s" "tid_ok tid" "length b < 2000"
  shows "nodes_peers_tail s tid b = Some (b @ ch_e # concat (map entry_text ((ascii ''t'', BENC_BSTR tid) #
      v_entry s @ [(ascii ''y'', BENC_BSTR (ascii ''r''))])) @ [ch_e])"
  using assms tid_digits [of tid] length_v_text [of s]
  by (simp add: nodes_peers_tail_def msg_simps layout_simps sender_ok_def tid_ok_def)

lemma length_values:
  assumes "peers_ok ps"
  shows "length (concat (map (\<lambda>p. bstr_text (peer_value p)) (served ps len j0))) \<le> 21 * 50"
proof -
  have "length (bstr_text (peer_value p)) \<le> 21" if "p \<in> set (served ps len j0)" for p
  proof -
    have "p \<in> set ps" using that by (auto simp: served_def dest!: in_set_takeD)
    then show ?thesis using assms peer_msg_text(2) [of p "p_len p" "[]"] by (simp add: peers_ok_def)
  qed
  then have "(\<Sum>p \<leftarrow> served ps len j0. length (bstr_text (peer_value p))) \<le> (\<Sum>p \<leftarrow> served ps len j0. 21)"
    by (intro sum_list_mono)
  moreover have "length (served ps len j0) \<le> 50" by (simp add: served_def)
  ultimately show ?thesis by (simp add: length_concat sum_list_triv o_def)
qed

lemma nodes_peers_values_text:
  assumes "peers_ok (st_peers st)" "st_peers st \<noteq> []" "length b < 900"
  shows "nodes_peers_values af st rnd b =
      Some (b @ concat (map entry_text (values_entry (st_peers st) af rnd)))"
    and "length (concat (map entry_text (values_entry (st_peers st) af rnd))) \<le> 1060"
proof -
  let ?len = "if af = AF_INET then 4 else 16 :: nat" and ?j0 = "rnd mod length (st_peers st)"
  let ?v = "concat (map (\<lambda>p. bstr_text (peer_value p)) (served (st_peers st) ?len ?j0))"
  have l: "length ?v \<le> 1050" using length_values [OF assms(1)] by simp
  have e: "concat (map entry_text (values_entry (st_peers st) af rnd)) = ascii ''6:valuesl'' @ ?v @ ascii ''e''"
    using assms(2) by (simp add: values_entry_def bstr_text_def layout_simps o_def)
  with l show "length (concat (map entry_text (values_entry (st_peers st) af rnd))) \<le> 1060" by simp
  have "peers_loop (st_peers st) ?len ?j0 ?j0 0 (b @ ascii ''6:valuesl'') =
      Some ((b @ ascii ''6:valuesl'') @ ?v)"
    using assms by (intro peers_loop_served) simp_all
  with assms(3) l show "nodes_peers_values af st rnd b =
      Some (b @ concat (map entry_text (values_entry (st_peers st) af rnd)))"
    unfolding e nodes_peers_values_def Let_def by (simp add: fmt_fits del: ascii_Cons)
qed

text \<open>A reply is never too long for the buffer, and it is the bencoding of its entries.\<close>

lemma send_nodes_peers_text:
  assumes "sender_ok s" "tid_ok tid" "reply_sizes_ok nodes nodes6 token"
    and "case st of None \<Rightarrow> True | Some store \<Rightarrow> peers_ok (st_peers store)"
  shows "send_nodes_peers sa salen tid nodes nodes6 af st token s =
    (let ps = (case st of None \<Rightarrow> [] | Some store \<Rightarrow> st_peers store);
         (rnd, s1) = (if ps = [] then (0, s) else random s)
     in dht_send (bencoding (reply_obj s
          (head_entries nodes nodes6 token @ values_entry ps af rnd) tid)) False sa salen s1)"
proof -
  let ?h = "ascii ''d1:rd2:id20:'' @ myid s @ concat (map entry_text (head_entries nodes nodes6 token))"
  have hd: "nodes_peers_head s nodes nodes6 token = Some ?h" "length ?h \<le> 632"
    using nodes_peers_head_text [OF assms(1,3)] assms(1) by (simp_all add: sender_ok_def)
  have tx: "?h @ v @ ch_e # concat (map entry_text ((ascii ''t'', BENC_BSTR tid) #
      v_entry s @ [(ascii ''y'', BENC_BSTR (ascii ''r''))])) @ [ch_e] =
      bencoding (reply_obj s (head_entries nodes nodes6 token @ vs) tid)"
    if "v = concat (map entry_text vs)" for v vs
    using assms(1) that by (simp add: reply_obj_def id_text bstr_text_def [of "ascii ''r''"]
        bstr_text_def [of "ascii ''t''"] bstr_text_def [of "[_]"] bstr_text_def [of "[_, _]"] layout_simps)
  show ?thesis
  proof (cases "st = None \<or> st_peers (the st) = []")
    case True
    then have "nodes_peers_tail s tid ?h =
        Some (bencoding (reply_obj s (head_entries nodes nodes6 token @ values_entry [] af 0) tid))"
      using nodes_peers_tail_text [OF assms(1,2), of ?h] hd(2) tx [of "[]" "[]"]
      by (simp add: values_entry_def)
    with True hd(1) show ?thesis
      by (auto simp: send_nodes_peers_def send_or_fail_def split: option.splits)
  next
    case False
    then obtain store where st: "st = Some store" "st_peers store \<noteq> []" by auto
    obtain rnd s1 where r: "random s = (rnd, s1)" by (cases "random s")
    have s1: "sender_ok s1" "v_entry s1 = v_entry s" "myid s1 = myid s"
      using r assms(1) by (auto simp: random_def sender_ok_def v_entry_def)
    have pok: "peers_ok (st_peers store)" using assms(4) st by simp
    let ?v = "concat (map entry_text (values_entry (st_peers store) af rnd))"
    have v: "nodes_peers_values af store rnd ?h = Some (?h @ ?v)" "length ?v \<le> 1060"
      using nodes_peers_values_text(1) [OF pok st(2), of ?h]
      nodes_peers_values_text(2) [OF pok st(2), of "[]"] hd(2) by simp_all
    have "nodes_peers_tail s1 tid (?h @ ?v) = Some (bencoding (reply_obj s
        (head_entries nodes nodes6 token @ values_entry (st_peers store) af rnd) tid))"
      using nodes_peers_tail_text [OF s1(1) assms(2), of "?h @ ?v"] hd(2) v(2) s1 tx [OF refl]
      by simp
    with st r hd(1) v(1) show ?thesis by (simp add: send_nodes_peers_def send_or_fail_def)
  qed
qed

section \<open>Reading back what was written\<close>

definition received :: "nat \<Rightarrow> byte list \<Rightarrow> bbuf" where
  "received addr m = bbuf_new addr (length m) (m @ [0])"

lemma decodes_received:
  assumes "readable obj" "addr + length (bencoding obj) < 2 ^ 63"
  shows "bdec_mem (bdec_fuel (received addr (bencoding obj))) (received addr (bencoding obj)) =
    Inr (Some (decoded obj), adv (received addr (bencoding obj)) (length (bencoding obj)))"
  using assms by (intro decodes_toD bdec_mem_text)
    (simp_all add: received_def bbuf_new_def text_at_def bdec_fuel_def)

lemma decodable_v: "sender_ok s \<Longrightarrow> (k, v) \<in> set (v_entry s) \<Longrightarrow>
    k \<noteq> [] \<and> length k \<le> ptrdiff_max \<and> decodable v"
  by (auto simp: v_entry_def sender_ok_def ptrdiff_max_def split: if_splits)

text \<open>
  \<open>reads_back m obj\<close>: the node's own decoder, given the datagram \<open>m\<close> in a NUL-terminated
  buffer anywhere in the lower half of the address space, returns \<open>obj\<close>.
\<close>

definition reads_back :: "byte list option \<Rightarrow> bobj \<Rightarrow> bool" where
  "reads_back m obj \<longleftrightarrow> (case m of None \<Rightarrow> False | Some t \<Rightarrow>
     \<forall>addr. addr + length t < 2 ^ 63 \<longrightarrow>
       (\<exists>b. bdec_mem (bdec_fuel (received addr t)) (received addr t) = Inr (Some obj, b)))"

lemma reads_back_decoded: "m = Some (bencoding obj) \<Longrightarrow> readable obj \<Longrightarrow> reads_back m (decoded obj)"
  using decodes_received by (auto simp: reads_back_def)

lemma reads_backI: "m = Some (bencoding obj) \<Longrightarrow> decodable obj \<Longrightarrow> reads_back m obj"
  using reads_back_decoded [of m obj] decodable_decoded [of obj] decodable_readable [of obj] by simp

lemma decodable_query:
  assumes "sender_ok s" "tid_ok tid" "q \<noteq> []" "length q \<le> 20"
    and "\<forall>(k, v) \<in> set args. k \<noteq> [] \<and> length k \<le> ptrdiff_max \<and> decodable v"
  shows "decodable (query_obj s q args tid)" and "decodable (reply_obj s args tid)"
  using assms decodable_v [OF assms(1)]
  by (auto simp: query_obj_def reply_obj_def list_all_iff sender_ok_def tid_ok_def ptrdiff_max_def)

lemma decodable_want:
  assumes "want \<in> {-1, 1, 2, 3}" "(k, v) \<in> set (want_entry want)"
  shows "k \<noteq> [] \<and> length k \<le> ptrdiff_max \<and> decodable v"
  using assms by (auto simp: want_entry_def ptrdiff_max_def WANT4_def WANT6_def split: if_splits)

text \<open>A reply with peers of the other family only has an empty list of values.\<close>

lemma decoded_strings:
  "map (map_prod id decoded) (opt_entry k x) = opt_entry k x"
  "map (map_prod id decoded) (head_entries nodes nodes6 token) = head_entries nodes nodes6 token"
  "map (map_prod id decoded) (v_entry s) = v_entry s"
  by (simp_all add: head_entries_def opt_entry_def v_entry_def)

lemma decoded_reply: "decoded (reply_obj s args tid) = reply_obj s (map (map_prod id decoded) args) tid"
  by (simp add: reply_obj_def dict_result_def decoded_strings)

lemma readable_reply:
  assumes "sender_ok s" "tid_ok tid"
    and "\<forall>(k, v) \<in> set args. k \<noteq> [] \<and> length k \<le> ptrdiff_max \<and> readable v"
  shows "readable (reply_obj s args tid)"
  using assms decodable_v [OF assms(1)] decodable_readable
  by (auto simp: reply_obj_def list_all_iff sender_ok_def tid_ok_def ptrdiff_max_def)

lemma readable_reply_args:
  assumes "reply_sizes_ok nodes nodes6 token" "peers_ok ps"
    and "(k, v) \<in> set (head_entries nodes nodes6 token @ values_entry ps af rnd)"
  shows "k \<noteq> [] \<and> length k \<le> ptrdiff_max \<and> readable v"
proof -
  have "readable (BENC_BSTR (peer_value p))" if "p \<in> set ps" for p
    using that assms(2) by (auto simp: peer_value_def peers_ok_def ptrdiff_max_def)
  moreover have "set (served ps len j0) \<subseteq> set ps" for len j0
    by (auto simp: served_def dest!: in_set_takeD)
  ultimately show ?thesis
    using assms
    by (auto simp: head_entries_def opt_entry_def values_entry_def reply_sizes_ok_def ptrdiff_max_def
        list_all_iff subset_iff split: if_splits)
qed

text \<open>What a receiver reads: a list without an element has no head.\<close>

definition read_values :: "peer list \<Rightarrow> nat \<Rightarrow> nat \<Rightarrow> dict_entries" where
  "read_values ps af rnd = (if ps = [] then [] else [(ascii ''values'',
     list_result (map (\<lambda>p. BENC_BSTR (peer_value p))
       (served ps (if af = AF_INET then 4 else 16) (rnd mod length ps))))])"

lemma decoded_values: "map (map_prod id decoded) (values_entry ps af rnd) = read_values ps af rnd"
  by (simp add: values_entry_def read_values_def o_def)

definition error_obj :: "dht \<Rightarrow> byte list \<Rightarrow> int \<Rightarrow> byte list \<Rightarrow> bobj" where
  "error_obj s tid code message = BENC_DICT (
     [(ascii ''e'', BENC_LIST [BENC_INT code, BENC_BSTR message]), (ascii ''t'', BENC_BSTR tid)] @
     v_entry s @ [(ascii ''y'', BENC_BSTR (ascii ''e''))])"

lemma decodable_error:
  assumes "sender_ok s" "tid_ok tid" "0 \<le> code" "code < 100000" "message \<noteq> []" "length message \<le> 400"
  shows "decodable (error_obj s tid code message)"
  using assms decodable_v [OF assms(1)]
  by (auto simp: error_obj_def list_all_iff ptrdiff_max_def tid_ok_def)

section \<open>Properties of the senders\<close>

text \<open>C14. Every query the node writes fits its buffer and is well-formed bencode: the node's own
  decoder reads it back as the dictionary that the BitTorrent DHT protocol (BEP 5)
  prescribes for it, with its transaction identifier and arguments.\<close>

theorem sent_queries_decode:
  assumes "sender_ok s" and "tid_ok tid" and "length target = 20"
    and "want \<in> {-1, 1, 2, 3}" and "0 < length token" and "length token < 40"
  shows "reads_back (ping_msg s tid) (query_obj s ''ping'' [] tid) \<and>
    reads_back (find_node_msg s tid target want) (query_obj s ''find_node''
      ((ascii ''target'', BENC_BSTR target) # want_entry want) tid) \<and>
    reads_back (get_peers_msg s tid target want) (query_obj s ''get_peers''
      ((ascii ''info_hash'', BENC_BSTR target) # want_entry want) tid) \<and>
    reads_back (announce_peer_msg s tid target port token) (query_obj s ''announce_peer''
      [(ascii ''info_hash'', BENC_BSTR target), (ascii ''port'', BENC_INT (int (unat port))),
       (ascii ''token'', BENC_BSTR token)] tid)"
proof -
  have "int (unat port) < 2 ^ LENGTH(16)" by (metis of_nat_less_iff of_nat_numeral of_nat_power unsigned_less)
  moreover have "- (2 ^ 63) < int (unat port)" by (rule less_le_trans [of _ 0]) simp_all
  moreover have "decodable (BENC_BSTR target)" using assms(3) by (auto simp: ptrdiff_max_def)
  ultimately show ?thesis
    using assms decodable_want [OF assms(4)]
    by (intro conjI reads_backI ping_msg_text find_node_msg_text get_peers_msg_text
        announce_peer_msg_text decodable_query) (auto simp: ptrdiff_max_def)
qed

theorem sent_queries_decode_witness:
  "reads_back (announce_peer_msg (dht_start\<lparr>have_v := True, my_v := ascii ''1:v4:abcd''\<rparr>)
      (ascii ''apxy'') (replicate 20 7) 80 [1, 2])
    (query_obj (dht_start\<lparr>have_v := True, my_v := ascii ''1:v4:abcd''\<rparr>) ''announce_peer''
      [(ascii ''info_hash'', BENC_BSTR (replicate 20 7)), (ascii ''port'', BENC_INT 80),
       (ascii ''token'', BENC_BSTR [1, 2])] (ascii ''apxy''))"
  using sent_queries_decode [of "dht_start\<lparr>have_v := True, my_v := ascii ''1:v4:abcd''\<rparr>"
      "ascii ''apxy''" "replicate 20 7" 3 "[1, 2]" 80]
  by (simp add: sender_ok_def tid_ok_def dht_start_def)

text \<open>C15. Every reply the node can write fits its buffer and is read back by the node's own decoder:
  pongs, acknowledgements, errors with a code of up to five digits and a text of 1 to 400 bytes,
  and the replies to find_node and get_peers, with up to eight nodes of each family, with or
  without a token, and without stored peers or with at most 50 of those of the asker's
  family, from a random one on. When peers are stored but none of that family, the empty
  list is read back as one whose head pointer was never written.\<close>

theorem sent_replies_decode:
  assumes "sender_ok s" and "tid_ok tid" and "reply_sizes_ok nodes nodes6 token"
    and "case st of None \<Rightarrow> True | Some store \<Rightarrow> peers_ok (st_peers store)"
    and "0 \<le> code" and "code < 100000" and "message \<noteq> []" and "length message \<le> 400"
  shows "reads_back (pong_msg s tid) (reply_obj s [] tid) \<and>
    reads_back (peer_announced_msg s tid) (reply_obj s [] tid) \<and>
    reads_back (error_msg s tid code message) (error_obj s tid code message) \<and>
    (let ps = (case st of None \<Rightarrow> [] | Some store \<Rightarrow> st_peers store);
         len = (if af = AF_INET then 4 else 16);
         (rnd, s1) = (if ps = [] then (0, s) else random s);
         vs = served ps len (rnd mod length ps)
     in length vs \<le> 50 \<and> set vs \<subseteq> {p \<in> set ps. p_len p = len} \<and> (vs = [] \<longleftrightarrow> (\<forall>p \<in> set ps. p_len p \<noteq> len)) \<and>
        (\<exists>m. send_nodes_peers sa salen tid nodes nodes6 af st token s = dht_send m False sa salen s1 \<and>
             reads_back (Some m) (reply_obj s (head_entries nodes nodes6 token @
               (if ps = [] then []
                else [(ascii ''values'', list_result (map (\<lambda>p. BENC_BSTR (peer_value p)) vs))])) tid)))"
proof -
  let ?ps = "case st of None \<Rightarrow> [] | Some store \<Rightarrow> st_peers store" and ?len = "if af = AF_INET then 4 else 16 :: nat"
  obtain rnd s1 where r: "(if ?ps = [] then (0, s) else random s) = (rnd, s1)" by (metis prod.exhaust)
  let ?vs = "served ?ps ?len (rnd mod length ?ps)"
  let ?args = "head_entries nodes nodes6 token @ values_entry ?ps af rnd"
  have ok: "peers_ok ?ps" using assms(4) by (simp add: peers_ok_def split: option.splits)
  have "readable (reply_obj s ?args tid)"
    using readable_reply_args [OF assms(3) ok, of _ _ af rnd] by (intro readable_reply [OF assms(1,2)]) auto
  then have rb: "reads_back (Some (bencoding (reply_obj s ?args tid)))
      (reply_obj s (head_entries nodes nodes6 token @ read_values ?ps af rnd) tid)"
    using reads_back_decoded [OF refl, of "reply_obj s ?args tid"]
    by (simp add: decoded_reply decoded_strings decoded_values)
  have sent: "send_nodes_peers sa salen tid nodes nodes6 af st token s =
      dht_send (bencoding (reply_obj s ?args tid)) False sa salen s1"
    unfolding send_nodes_peers_text [OF assms(1-4)] Let_def r by simp
  have vs: "length ?vs \<le> 50" "set ?vs \<subseteq> {p \<in> set ?ps. p_len p = ?len}" "?vs = [] \<longleftrightarrow> (\<forall>p \<in> set ?ps. p_len p \<noteq> ?len)"
    by (auto simp: served_def filter_empty_conv dest!: in_set_takeD)
  have pong: "reads_back (pong_msg s tid) (reply_obj s [] tid)" "reads_back (peer_announced_msg s tid) (reply_obj s [] tid)"
    using assms(1,2) decodable_query(2) [OF assms(1,2), of "''q''" "[]"]
    by (auto intro: reads_backI pong_msg_text peer_announced_msg_text)
  have err: "reads_back (error_msg s tid code message) (error_obj s tid code message)"
    using decodable_error [OF assms(1,2,5-8)] error_msg_text [OF assms(1,2,5,6,8)]
    by (intro reads_backI) (simp_all only: error_obj_def)
  show ?thesis
    using pong err vs sent rb unfolding Let_def r prod.case read_values_def by blast
qed

theorem sent_replies_decode_witness:
  "let store = \<lparr>st_id = replicate 20 1, st_maxpeers = 2,
        st_peers = [\<lparr>p_time = 5, p_ip = [10, 0, 0, 1], p_len = 4, p_port = 80\<rparr>]\<rparr>
   in (\<exists>m. send_nodes_peers no_sockaddr 16 (ascii ''aa'') [] [] AF_INET (Some store) [9] dht_start =
        dht_send m False no_sockaddr 16 (snd (random dht_start)) \<and>
      reads_back (Some m) (reply_obj dht_start [(ascii ''token'', BENC_BSTR [9]),
        (ascii ''values'', BENC_LIST [BENC_BSTR [10, 0, 0, 1, 0, 80]])] (ascii ''aa''))) \<and>
     (\<exists>m. send_nodes_peers no_sockaddr 28 (ascii ''aa'') [] [] AF_INET6 (Some store) [9] dht_start =
        dht_send m False no_sockaddr 28 (snd (random dht_start)) \<and>
      reads_back (Some m) (reply_obj dht_start [(ascii ''token'', BENC_BSTR [9]),
        (ascii ''values'', BENC_LIST_unset)] (ascii ''aa''))) \<and>
     (\<exists>m. send_nodes_peers no_sockaddr 16 (ascii ''fn'') (replicate 26 7) [] 0 None [] dht_start =
        dht_send m False no_sockaddr 16 dht_start \<and>
      reads_back (Some m) (reply_obj dht_start [(ascii ''nodes'', BENC_BSTR (replicate 26 7))] (ascii ''fn'')))"
proof -
  let ?st = "\<lparr>st_id = replicate 20 1, st_maxpeers = 2,
        st_peers = [\<lparr>p_time = 5, p_ip = [10, 0, 0, 1], p_len = 4, p_port = 80\<rparr>]\<rparr>"
  have ok: "sender_ok dht_start" "tid_ok (ascii ''aa'')" "tid_ok (ascii ''fn'')" "reply_sizes_ok [] [] [9]"
    "reply_sizes_ok (replicate 26 7) [] []" "peers_ok (st_peers ?st)"
    by (simp_all add: sender_ok_def tid_ok_def reply_sizes_ok_def peers_ok_def dht_start_def)
  note r = sent_replies_decode [of dht_start "ascii ''aa''" "[]" "[]" "[9]" "Some ?st" 203 "ascii ''x''"]
    sent_replies_decode [of dht_start "ascii ''fn''" "replicate 26 7" "[]" "[]" None 203 "ascii ''x''" 0 no_sockaddr 16]
  show ?thesis
    using r(1) [of AF_INET no_sockaddr 16] r(1) [of AF_INET6 no_sockaddr 28] r(2) ok
    by (simp add: random_def dht_start_def head_entries_def opt_entry_def served_def peer_value_def
        htons_def list_result_def AF_INET_def AF_INET6_def)
qed

end
