(* ===== verification/Dht_Msg.thy ===== *)
theory Dht_Msg
  imports Dht_Send
begin

text \<open>
  The parser of received messages: \<open>dht_message_parse\<close>, \<open>_dht_message_parse_impl\<close> and
  \<open>dht_message_free\<close> of \<^verbatim>\<open>dht/dht.c\<close>. The strings of a decoded object are heap blocks
  without a terminating NUL, and the copy of the datagram ends at its first NUL. What lies
  behind two of these blocks matters to the code, so it is a parameter: \<open>h_addr\<close> is the
  address of the copy, \<open>h_copy\<close> the bytes that can be read behind it, \<open>h_query\<close> those
  behind the name of a query. Allocations of the parser itself are taken to succeed.
\<close>

section \<open>Messages\<close>

datatype dht_message_type = DHT_MSG_ERR | DHT_MSG_QUERY | DHT_MSG_RESPONSE

datatype dht_query_type =
  DHT_QUERY_ERROR | DHT_QUERY_REPLY | DHT_QUERY_PING | DHT_QUERY_FIND_NODE | DHT_QUERY_GET_PEERS |
  DHT_QUERY_ANNOUNCE_PEER

record dht_message =
  m_obj :: bobj
  m_type :: dht_message_type
  m_query :: dht_query_type
  m_t :: "byte list"
  m_t_len :: nat
  m_y :: "byte list"
  m_q :: "byte list option"
  m_a :: "bobj option"
  m_r :: "bobj option"
  m_e :: "bobj option"
  m_arg_id :: "byte list option"

record heap =
  h_addr :: nat
  h_copy :: "byte list"
  h_query :: "byte list"

section \<open>The fields of a message\<close>

definition is_dict :: "bobj \<Rightarrow> bool" where
  "is_dict x = (case x of BENC_DICT _ \<Rightarrow> True | BENC_DICT_unset \<Rightarrow> True | _ \<Rightarrow> False)"

text \<open>A value that must be a string: \<open>None\<close> when it is missing or of another type.\<close>

definition string_value :: "bobj option \<Rightarrow> byte list option" where
  "string_value x = (case x of Some (BENC_BSTR t) \<Rightarrow> Some t | _ \<Rightarrow> None)"

text \<open>
  The letter of the type: \<^verbatim>\<open>strncmp\<close> with length 1. A string without a byte does not
  come out of the decoder; reading one is out of bounds.
\<close>

definition message_type :: "byte list \<Rightarrow> dht_message_type option res" where
  "message_type y =
     (case y of
        [] \<Rightarrow> Inl Out_Of_Bounds
      | c # _ \<Rightarrow> Inr (if [c] = ascii ''q'' then Some DHT_MSG_QUERY
                      else if [c] = ascii ''r'' then Some DHT_MSG_RESPONSE
                      else if [c] = ascii ''e'' then Some DHT_MSG_ERR
                      else None))"

text \<open>The name of a query, read up to the next NUL in memory; an unknown one fails an assertion.\<close>

definition query_type :: "byte list \<Rightarrow> dht_query_type res" where
  "query_type name =
     (if name = ascii ''ping'' then Inr DHT_QUERY_PING
      else if name = ascii ''find_node'' then Inr DHT_QUERY_FIND_NODE
      else if name = ascii ''get_peers'' then Inr DHT_QUERY_GET_PEERS
      else if name = ascii ''announce_peer'' then Inr DHT_QUERY_ANNOUNCE_PEER
      else Inl Assert_Fail)"

text \<open>The identifier among the arguments; \<open>None\<close> for \<^verbatim>\<open>return false\<close>.\<close>

definition argument_id :: "bobj \<Rightarrow> byte list option res" where
  "argument_id args =
     rbind (bobj_dict_lookup args (ascii ''id'')) (\<lambda>v.
       case string_value v of
         None \<Rightarrow> Inr None
       | Some x \<Rightarrow> Inr (if length x \<noteq> 20 then None else Some x))"

definition parse_query :: "heap \<Rightarrow> dht_message \<Rightarrow> dht_message option res" where
  "parse_query h m =
     rbind (bobj_dict_lookup (m_obj m) (ascii ''a'')) (\<lambda>a.
       case a of
         None \<Rightarrow> Inr None
       | Some args \<Rightarrow>
           if \<not> is_dict args then Inr None
           else rbind (bobj_dict_lookup (m_obj m) (ascii ''q'')) (\<lambda>qv.
             case string_value qv of
               None \<Rightarrow> Inr None
             | Some q \<Rightarrow>
                 rbind (cstring (q @ h_query h)) (\<lambda>name.
                   if name = [] then Inr None
                   else rbind (query_type name) (\<lambda>kind.
                     rbind (argument_id args) (\<lambda>x.
                       Inr (case x of None \<Rightarrow> None
                            | Some ident \<Rightarrow>
                                Some (m\<lparr>m_a := Some args, m_q := Some q, m_query := kind,
                                        m_arg_id := Some ident\<rparr>)))))))"

definition parse_response :: "dht_message \<Rightarrow> dht_message option res" where
  "parse_response m =
     rbind (bobj_dict_lookup (m_obj m) (ascii ''r'')) (\<lambda>r.
       case r of
         None \<Rightarrow> Inr None
       | Some args \<Rightarrow>
           if \<not> is_dict args then Inr None
           else rbind (argument_id args) (\<lambda>x.
             Inr (case x of None \<Rightarrow> None
                  | Some ident \<Rightarrow> Some (m\<lparr>m_r := Some args, m_arg_id := Some ident\<rparr>))))"

text \<open>The type of a missing list is read through a null pointer.\<close>

definition parse_error :: "dht_message \<Rightarrow> dht_message option res" where
  "parse_error m =
     rbind (bobj_dict_lookup (m_obj m) (ascii ''e'')) (\<lambda>e.
       case e of
         None \<Rightarrow> Inl Null_Deref
       | Some BENC_LIST_unset \<Rightarrow> Inl Uninitialised
       | Some (BENC_LIST es) \<Rightarrow> Inr (if length es < 2 then None else Some (m\<lparr>m_e := e\<rparr>))
       | Some _ \<Rightarrow> Inr None)"

text \<open>
  The whole check. As in the code, the test on \<^verbatim>\<open>y\<close> looks at the length of \<^verbatim>\<open>t\<close>.
\<close>

definition dht_message_parse_impl :: "heap \<Rightarrow> bobj \<Rightarrow> dht_message option res" where
  "dht_message_parse_impl h obj =
     (if \<not> is_dict obj then Inr None
      else rbind (bobj_dict_lookup obj (ascii ''t'')) (\<lambda>tv.
        case string_value tv of
          None \<Rightarrow> Inr None
        | Some t \<Rightarrow>
            if length t \<le> 0 then Inr None
            else rbind (bobj_dict_lookup obj (ascii ''y'')) (\<lambda>yv.
              case string_value yv of
                None \<Rightarrow> Inr None
              | Some y \<Rightarrow>
                  if length t \<noteq> 1 then Inr None
                  else rbind (message_type y) (\<lambda>ty.
                    case ty of
                      None \<Rightarrow> Inr None
                    | Some kind \<Rightarrow>
                        let m = \<lparr>m_obj = obj, m_type = kind, m_query = DHT_QUERY_ERROR, m_t = t,
                                 m_t_len = length t, m_y = y, m_q = None, m_a = None, m_r = None,
                                 m_e = None, m_arg_id = None\<rparr>
                        in case kind of
                             DHT_MSG_QUERY \<Rightarrow> parse_query h m
                           | DHT_MSG_RESPONSE \<Rightarrow> parse_response m
                           | DHT_MSG_ERR \<Rightarrow> parse_error m))))"

section \<open>The parser\<close>

definition dht_message_free :: "bobj option \<Rightarrow> unit res" where
  "dht_message_free obj = (case obj of None \<Rightarrow> Inr () | Some x \<Rightarrow> bobj_free x)"

text \<open>
  \<open>buf\<close> is NUL-terminated memory. \<open>strdup\<close> copies up to the first NUL, but the buffer gets
  the length of the whole datagram.
\<close>

definition dht_message_parse :: "heap \<Rightarrow> byte list \<Rightarrow> nat \<Rightarrow> dht_message option res" where
  "dht_message_parse h buf buflen =
     rbind (cstring buf) (\<lambda>text.
       let b = bbuf_new (h_addr h) buflen (text @ [0] @ h_copy h)
       in rbind (bdec_mem (bdec_fuel b) b) (\<lambda>(obj, _).
            case obj of
              None \<Rightarrow> rbind (dht_message_free None) (\<lambda>_. Inr None)
            | Some x \<Rightarrow>
                rbind (dht_message_parse_impl h x) (\<lambda>r.
                  case r of
                    None \<Rightarrow> rbind (dht_message_free (Some x)) (\<lambda>_. Inr None)
                  | Some m \<Rightarrow> Inr (Some m))))"

end
