(* ===== verification/Dht_Msg_Props.thy ===== *)
theory Dht_Msg_Props
  imports Dht_Msg
begin

text \<open>
  What the parser accepts. A typing mistake (it tests the length of \<^verbatim>\<open>t\<close> where it means
  \<^verbatim>\<open>y\<close>) makes it refuse every transaction identifier but those of one byte; some well-formed datagrams crash it.
\<close>

section \<open>The shape of an accepted message\<close>

definition message_ok :: "dht_message \<Rightarrow> bool" where
  "message_ok m \<longleftrightarrow> length (m_t m) = 1 \<and> m_t_len m = 1 \<and>
     (case m_type m of
        DHT_MSG_QUERY \<Rightarrow> (\<exists>args. m_a m = Some args \<and> is_dict args) \<and>
          m_query m \<in> {DHT_QUERY_PING, DHT_QUERY_FIND_NODE, DHT_QUERY_GET_PEERS, DHT_QUERY_ANNOUNCE_PEER}
      | DHT_MSG_RESPONSE \<Rightarrow> m_a m = None \<and> (\<exists>args. m_r m = Some args \<and> is_dict args)
      | DHT_MSG_ERR \<Rightarrow> \<exists>es. m_e m = Some (BENC_LIST es) \<and> 2 \<le> length es) \<and>
     (case m_arg_id m of None \<Rightarrow> m_type m = DHT_MSG_ERR | Some x \<Rightarrow> m_type m \<noteq> DHT_MSG_ERR \<and> id_ok x)"

lemma query_type_known:
  "query_type name = Inr k \<Longrightarrow>
   k \<in> {DHT_QUERY_PING, DHT_QUERY_FIND_NODE, DHT_QUERY_GET_PEERS, DHT_QUERY_ANNOUNCE_PEER}"
  by (auto simp: query_type_def split: if_splits)

lemma argument_id_ok: "argument_id args = Inr (Some x) \<Longrightarrow> id_ok x"
  by (auto simp: argument_id_def rbind_eq_Inr split: option.splits if_splits)

lemma parse_query_ok:
  assumes "parse_query h m = Inr (Some m')" "m_type m = DHT_MSG_QUERY" "length (m_t m) = 1" "m_t_len m = 1"
  shows "message_ok m'"
proof -
  obtain args name kind x where "is_dict args" "query_type name = Inr kind" "argument_id args = Inr (Some x)"
    and m': "\<exists>q. m' = m\<lparr>m_a := Some args, m_q := Some q, m_query := kind, m_arg_id := Some x\<rparr>"
    using assms(1) unfolding parse_query_def
    by (elim rbind_InrE) (force elim!: rbind_InrE split: option.split_asm if_split_asm)
  with query_type_known argument_id_ok assms(2-4) show ?thesis
    by (fastforce simp: message_ok_def)
qed

lemma parse_response_ok:
  assumes "parse_response m = Inr (Some m')" "m_type m = DHT_MSG_RESPONSE" "length (m_t m) = 1" "m_t_len m = 1"
    and "m_a m = None"
  shows "message_ok m'"
proof -
  obtain args x where "is_dict args" "argument_id args = Inr (Some x)"
    and m': "m' = m\<lparr>m_r := Some args, m_arg_id := Some x\<rparr>"
    using assms(1) unfolding parse_response_def
    by (elim rbind_InrE) (force elim!: rbind_InrE split: option.split_asm if_split_asm)
  with argument_id_ok assms(2-5) show ?thesis by (fastforce simp: message_ok_def)
qed

lemma parse_error_ok:
  assumes "parse_error m = Inr (Some m')" "m_type m = DHT_MSG_ERR" "length (m_t m) = 1" "m_t_len m = 1"
    and "m_arg_id m = None"
  shows "message_ok m'"
proof -
  obtain es where "2 \<le> length es" "m' = m\<lparr>m_e := Some (BENC_LIST es)\<rparr>"
    using assms(1) unfolding parse_error_def
    by (elim rbind_InrE) (force split: option.split_asm bobj.split_asm if_split_asm)
  with assms(2-5) show ?thesis by (simp add: message_ok_def)
qed

lemma parse_impl_ok:
  assumes "dht_message_parse_impl h obj = Inr (Some m)"
  shows "message_ok m"
proof -
  obtain t y kind where t: "length t = 1"
    and r: "(case kind of DHT_MSG_QUERY \<Rightarrow> parse_query h | DHT_MSG_RESPONSE \<Rightarrow> parse_response
        | DHT_MSG_ERR \<Rightarrow> parse_error)
      \<lparr>m_obj = obj, m_type = kind, m_query = DHT_QUERY_ERROR, m_t = t, m_t_len = length t, m_y = y,
       m_q = None, m_a = None, m_r = None, m_e = None, m_arg_id = None\<rparr> = Inr (Some m)"
    using assms unfolding dht_message_parse_impl_def
    by (force elim!: rbind_InrE simp: Let_def split: option.split_asm if_split_asm
        dht_message_type.split_asm)
  then show ?thesis
    by (cases kind) (auto intro: parse_query_ok parse_response_ok parse_error_ok)
qed

lemma parse_ok:
  assumes "dht_message_parse h buf n = Inr (Some m)"
  shows "message_ok m"
  using assms unfolding dht_message_parse_def Let_def
  by (force elim!: rbind_InrE split: option.split_asm intro: parse_impl_ok)

section \<open>Parsing a text without NUL\<close>

lemma free_decodable:
  "decodable x \<Longrightarrow> bobj_free x = Inr ()"
  "list_all decodable es \<Longrightarrow> benc_list_free es = Inr ()"
  "list_all (\<lambda>(k, v). decodable v) ds \<Longrightarrow> benc_dict_free ds = Inr ()"
proof (induction x and es and ds rule: bobj_free_benc_list_free_benc_dict_free.induct)
qed (auto simp: list_all_iff)

lemma parse_text:
  assumes "decodable obj" "0 \<notin> set (bencoding obj)" "h_addr h + length (bencoding obj) < 2 ^ 63"
  shows "dht_message_parse h (bencoding obj @ [0]) (length (bencoding obj)) = dht_message_parse_impl h obj"
proof -
  let ?t = "bencoding obj"
  let ?b = "bbuf_new (h_addr h) (length ?t) (?t @ [0] @ h_copy h)"
  have "bdec_mem (bdec_fuel ?b) ?b = Inr (Some obj, adv ?b (length ?t))"
    using assms(3) decodes_toD [OF bdec_mem_text [OF decodable_readable [OF assms(1)]], of ?b "bdec_fuel ?b"]
    by (simp add: bbuf_new_def text_at_def bdec_fuel_def decodable_decoded [OF assms(1)])
  moreover have "rbind r (\<lambda>r. case r of None \<Rightarrow> rbind (dht_message_free (Some obj)) (\<lambda>_. Inr None)
      | Some m \<Rightarrow> Inr (Some m)) = r" for r :: "dht_message option res"
    using free_decodable(1) [OF assms(1)]
    by (cases r) (auto simp: dht_message_free_def split: option.split)
  ultimately show ?thesis
    using cstring_append_0 [OF assms(2), of "[]"] by (simp add: dht_message_parse_def Let_def)
qed

section \<open>The node's own messages\<close>

lemmas lookup_eval = bobj_dict_lookup_def dict_head.simps dict_lookup_loop.simps benc_bstr_compare_def
  benc_bstr_compare_bytes.simps Let_def to_int32_def

lemma query_obj_lookup:
  "bobj_dict_lookup (query_obj s q args tid) (ascii ''t'') = Inr (Some (BENC_BSTR tid))"
  "bobj_dict_lookup (query_obj s q args tid) (ascii ''y'') = Inr (Some (BENC_BSTR (ascii ''q'')))"
  "bobj_dict_lookup (query_obj s q args tid) (ascii ''q'') = Inr (Some (BENC_BSTR (ascii q)))"
  "bobj_dict_lookup (query_obj s q args tid) (ascii ''a'') =
     Inr (Some (BENC_DICT ((ascii ''id'', BENC_BSTR (myid s)) # args)))"
  by (simp_all add: query_obj_def v_entry_def lookup_eval)

lemma reply_obj_lookup:
  "bobj_dict_lookup (reply_obj s args tid) (ascii ''t'') = Inr (Some (BENC_BSTR tid))"
  "bobj_dict_lookup (reply_obj s args tid) (ascii ''y'') = Inr (Some (BENC_BSTR (ascii ''r'')))"
  "bobj_dict_lookup (reply_obj s args tid) (ascii ''r'') =
     Inr (Some (BENC_DICT ((ascii ''id'', BENC_BSTR (myid s)) # args)))"
  by (simp_all add: reply_obj_def v_entry_def lookup_eval)

lemma is_dict_obj [simp]:
  "is_dict (query_obj s q args tid)" "is_dict (reply_obj s args tid)" "is_dict (BENC_DICT es)"
  by (simp_all add: is_dict_def query_obj_def reply_obj_def)

lemma own_id: "id_ok (myid s) \<Longrightarrow> argument_id (BENC_DICT ((ascii ''id'', BENC_BSTR (myid s)) # args)) = Inr (Some (myid s))"
  by (simp add: argument_id_def lookup_eval string_value_def)

lemma ascii_cons_simps: "message_type (ascii ''q'') = Inr (Some DHT_MSG_QUERY)"
  "message_type (ascii ''r'') = Inr (Some DHT_MSG_RESPONSE)"
  by (simp_all add: message_type_def)

lemma impl_query:
  assumes "id_ok (myid s)" "tid \<noteq> []"
  shows "dht_message_parse_impl h (query_obj s q args tid) =
    (if length tid \<noteq> 1 then Inr None
     else rbind (cstring (ascii q @ h_query h)) (\<lambda>name.
       if name = [] then Inr None
       else rbind (query_type name) (\<lambda>kind.
         Inr (Some \<lparr>m_obj = query_obj s q args tid, m_type = DHT_MSG_QUERY, m_query = kind, m_t = tid,
           m_t_len = length tid, m_y = ascii ''q'', m_q = Some (ascii q),
           m_a = Some (BENC_DICT ((ascii ''id'', BENC_BSTR (myid s)) # args)), m_r = None, m_e = None,
           m_arg_id = Some (myid s)\<rparr>))))"
proof (cases "cstring (ascii q @ h_query h)")
  case (Inr name)
  with assms show ?thesis
    by (cases "name = []"; cases "query_type name")
      (simp_all add: dht_message_parse_impl_def query_obj_lookup string_value_def ascii_cons_simps
        parse_query_def own_id Let_def del: ascii_Cons)
qed (use assms in \<open>simp add: dht_message_parse_impl_def query_obj_lookup string_value_def
    ascii_cons_simps parse_query_def Let_def del: ascii_Cons\<close>)

lemma impl_reply:
  assumes "id_ok (myid s)" "tid \<noteq> []"
  shows "dht_message_parse_impl h (reply_obj s args tid) =
    (if length tid \<noteq> 1 then Inr None
     else Inr (Some \<lparr>m_obj = reply_obj s args tid, m_type = DHT_MSG_RESPONSE, m_query = DHT_QUERY_ERROR,
           m_t = tid, m_t_len = length tid, m_y = ascii ''r'', m_q = None, m_a = None,
           m_r = Some (BENC_DICT ((ascii ''id'', BENC_BSTR (myid s)) # args)), m_e = None,
           m_arg_id = Some (myid s)\<rparr>))"
  using assms
  by (simp add: dht_message_parse_impl_def reply_obj_lookup string_value_def ascii_cons_simps
      parse_response_def own_id Let_def del: ascii_Cons)

lemma cstring_fault: "cstring m = Inl f \<Longrightarrow> f = Out_Of_Bounds"
  by (induction m) (auto simp: rbind_eq_Inl split: if_splits)

section \<open>Properties\<close>

text \<open>C26. Whatever the parser accepts has a transaction identifier of exactly one byte, and, by
  its type: a query one of the four names, a dictionary of arguments and a 20-byte
  identifier; a response a dictionary and a 20-byte identifier, but no arguments; an error a
  list of two elements or more and no identifier.\<close>

theorem parsed_message_shape:
  assumes "dht_message_parse h buf n = Inr (Some m)"
  shows "message_ok m"
  using assms by (rule parse_ok)

theorem parsed_message_shape_witness:
  "\<exists>m. dht_message_parse \<lparr>h_addr = 4096, h_copy = [], h_query = [0]\<rparr>
       (ascii ''d1:ad2:id20:aaaaaaaaaaaaaaaaaaaae1:q4:ping1:t1:x1:y1:qe'' @ [0]) 55 = Inr (Some m) \<and> message_ok m"
proof -
  let ?h = "\<lparr>h_addr = 4096, h_copy = [], h_query = [0]\<rparr>"
  let ?s = "dht_start\<lparr>myid := ascii ''aaaaaaaaaaaaaaaaaaaa''\<rparr>"
  let ?obj = "query_obj ?s ''ping'' [] (ascii ''x'')"
  let ?text = "ascii ''d1:ad2:id20:aaaaaaaaaaaaaaaaaaaae1:q4:ping1:t1:x1:y1:qe''"
  have s: "sender_ok ?s" "tid_ok (ascii ''x'')"
    by (simp_all add: sender_ok_def dht_start_def tid_ok_def)
  have d: "decodable ?obj" using s by (intro decodable_query) simp_all
  have b: "bencoding ?obj = ?text" "length ?text = 55" "0 \<notin> set ?text" by code_simp+
  have "dht_message_parse ?h (?text @ [0]) 55 = dht_message_parse_impl ?h ?obj"
    using parse_text [OF d, of ?h] unfolding b by simp
  also have "\<exists>m. \<dots> = Inr (Some m)"
    by (simp add: impl_query dht_start_def query_type_def)
  finally show ?thesis using parsed_message_shape by blast
qed

text \<open>With a transaction identifier of one byte the parser reads what the writer wrote: a
  query or a reply of the protocol comes back with its kind, its identifiers and its
  arguments, provided the byte behind the name of the query happens to be NUL.\<close>

theorem short_ids_understood:
  assumes "sender_ok s" and "length tid = 1" and "obj = query_obj s q args tid \<or> obj = reply_obj s args tid"
    and "decodable obj" and "0 \<notin> set (bencoding obj)" and "h_addr h + length (bencoding obj) < 2 ^ 63"
    and "q \<in> {''ping'', ''find_node'', ''get_peers'', ''announce_peer''}" and "h_query h = 0 # rest"
  shows "\<exists>m. dht_message_parse h (bencoding obj @ [0]) (length (bencoding obj)) = Inr (Some m) \<and>
    m_t m = tid \<and> m_arg_id m = Some (myid s) \<and>
    (obj = query_obj s q args tid \<longrightarrow> m_type m = DHT_MSG_QUERY \<and> query_type (ascii q) = Inr (m_query m) \<and>
       m_a m = Some (BENC_DICT ((ascii ''id'', BENC_BSTR (myid s)) # args))) \<and>
    (obj = reply_obj s args tid \<longrightarrow> m_type m = DHT_MSG_RESPONSE \<and>
       m_r m = Some (BENC_DICT ((ascii ''id'', BENC_BSTR (myid s)) # args)))"
proof -
  have me: "id_ok (myid s)" using assms(1) by (simp add: sender_ok_def)
  have tid: "tid \<noteq> []" using assms(2) by auto
  have ne: "query_obj s q args tid \<noteq> reply_obj s args tid" by (simp add: query_obj_def reply_obj_def)
  have "0 \<notin> set (ascii q) \<and> ascii q \<noteq> [] \<and> (\<exists>k. query_type (ascii q) = Inr k)"
    using assms(7) by (auto simp: query_type_def)
  then have q: "cstring (ascii q @ h_query h) = Inr (ascii q)" "ascii q \<noteq> []" "\<exists>k. query_type (ascii q) = Inr k"
    using cstring_append_0 [of "ascii q" rest] assms(8) by simp_all
  show ?thesis
    unfolding parse_text [OF assms(4-6)]
    using assms(3) ne q impl_query [OF me tid, of h q args] impl_reply [OF me tid, of h args] assms(2) by auto
qed

theorem short_ids_understood_witness:
  "\<exists>m. dht_message_parse \<lparr>h_addr = 4096, h_copy = [], h_query = [0]\<rparr>
       (bencoding (query_obj (dht_start\<lparr>myid := replicate 20 1\<rparr>) ''ping'' [] (ascii ''x'')) @ [0])
       (length (bencoding (query_obj (dht_start\<lparr>myid := replicate 20 1\<rparr>) ''ping'' [] (ascii ''x'')))) = Inr (Some m) \<and>
     m_arg_id m = Some (replicate 20 1)"
proof -
  let ?s = "dht_start\<lparr>myid := replicate 20 1\<rparr>"
  let ?obj = "query_obj ?s ''ping'' [] (ascii ''x'')"
  let ?h = "\<lparr>h_addr = 4096, h_copy = [], h_query = [0]\<rparr>"
  have s: "sender_ok ?s" by (simp add: sender_ok_def dht_start_def)
  have "decodable ?obj" using s by (intro decodable_query) (simp_all add: tid_ok_def)
  moreover have "0 \<notin> set (bencoding ?obj)" "length (bencoding ?obj) < 100" by code_simp+
  ultimately show ?thesis
    using short_ids_understood [OF s, of "ascii ''x''" ?obj "''ping''" "[]" ?h "[]"] by auto
qed

text \<open>C28. Three short datagrams that end the process of any node they reach, whatever memory
  the allocator returns: an error without the list, which is read through a null pointer; a
  query with an unknown name, which fails an assertion (unless the name is not terminated in
  readable memory at all); an empty string, for which the decoder's allocation returns NULL.\<close>

theorem datagrams_that_crash:
  assumes "h_addr h < 2 ^ 62"
  shows "dht_message_parse h (ascii ''d1:t1:x1:y1:ee'' @ [0]) 14 = Inl Null_Deref \<and>
    (\<exists>f. f \<in> {Assert_Fail, Out_Of_Bounds} \<and>
      dht_message_parse h (ascii ''d1:ad2:id20:aaaaaaaaaaaaaaaaaaaae1:q4:quit1:t1:x1:y1:qe'' @ [0]) 55 = Inl f) \<and>
    dht_message_parse h (ascii ''0:'' @ [0]) 2 = Inl Null_Deref"
proof (intro conjI)
  let ?obj = "BENC_DICT [(ascii ''t'', BENC_BSTR (ascii ''x'')), (ascii ''y'', BENC_BSTR (ascii ''e''))]"
  have b: "bencoding ?obj = ascii ''d1:t1:x1:y1:ee''" "length (ascii ''d1:t1:x1:y1:ee'') = 14"
    "0 \<notin> set (ascii ''d1:t1:x1:y1:ee'')" by code_simp+
  have d: "decodable ?obj" by (simp add: ptrdiff_max_def)
  have "dht_message_parse h (ascii ''d1:t1:x1:y1:ee'' @ [0]) 14 = dht_message_parse_impl h ?obj"
    using parse_text [OF d, of h] assms unfolding b by simp
  also have "\<dots> = Inl Null_Deref"
    by (simp add: dht_message_parse_impl_def lookup_eval string_value_def message_type_def parse_error_def)
  finally show "dht_message_parse h (ascii ''d1:t1:x1:y1:ee'' @ [0]) 14 = Inl Null_Deref" .
next
  let ?s = "dht_start\<lparr>myid := ascii ''aaaaaaaaaaaaaaaaaaaa''\<rparr>"
  let ?obj = "query_obj ?s ''quit'' [] (ascii ''x'')"
  let ?text = "ascii ''d1:ad2:id20:aaaaaaaaaaaaaaaaaaaae1:q4:quit1:t1:x1:y1:qe''"
  have s: "sender_ok ?s" "tid_ok (ascii ''x'')"
    by (simp_all add: sender_ok_def dht_start_def tid_ok_def)
  have d: "decodable ?obj" using s by (intro decodable_query) simp_all
  have b: "bencoding ?obj = ?text" "length ?text = 55" "0 \<notin> set ?text" by code_simp+
  have "dht_message_parse h (?text @ [0]) 55 = dht_message_parse_impl h ?obj"
    using parse_text [OF d, of h] assms unfolding b by simp
  moreover have "\<exists>f. f \<in> {Assert_Fail, Out_Of_Bounds} \<and> dht_message_parse_impl h ?obj = Inl f"
  proof (cases "cstring (h_query h)")
    case (Inl f)
    then show ?thesis using cstring_fault [OF Inl] by (simp add: impl_query dht_start_def)
  next
    case (Inr name)
    then show ?thesis by (simp add: impl_query dht_start_def query_type_def)
  qed
  ultimately show "\<exists>f. f \<in> {Assert_Fail, Out_Of_Bounds} \<and> dht_message_parse h (?text @ [0]) 55 = Inl f"
    by simp
next
  show "dht_message_parse h (ascii ''0:'' @ [0]) 2 = Inl Null_Deref"
    using assms by (simp add: dht_message_parse_def bdec_eval)
qed

theorem datagrams_that_crash_witness:
  "dht_message_parse \<lparr>h_addr = 4096, h_copy = [], h_query = []\<rparr> (ascii ''d1:t1:x1:y1:ee'' @ [0]) 14 =
     Inl Null_Deref"
  using datagrams_that_crash [of "\<lparr>h_addr = 4096, h_copy = [], h_query = []\<rparr>"] by simp

end
