(* ===== verification/Dht_Table.thy ===== *)
theory Dht_Table
  imports Dht_Send
begin

text \<open>
  The routing table: the buckets of a family are a list sorted by their first identifier; a
  pointer to a bucket is its index, a pointer to a node the indices of the bucket and of the
  node in it. Time is \<open>now_sec\<close>. The operations follow \<^verbatim>\<open>dht/dht.c\<close>.
\<close>

section \<open>Finding buckets and nodes\<close>

definition in_bucket :: "byte list \<Rightarrow> bucket list \<Rightarrow> nat \<Rightarrow> bool" where
  "in_bucket ident bs i \<longleftrightarrow>
     id_cmp (b_first (bs ! i)) ident \<le> 0 \<and>
     (Suc i = length bs \<or> id_cmp ident (b_first (bs ! Suc i)) < 0)"

fun find_bucket_loop :: "byte list \<Rightarrow> bucket list \<Rightarrow> nat \<Rightarrow> nat" where
  "find_bucket_loop ident (b # b' # bs) i =
     (if id_cmp ident (b_first b') < 0 then i else find_bucket_loop ident (b' # bs) (Suc i))"
| "find_bucket_loop ident _ i = i"

definition find_bucket :: "byte list \<Rightarrow> nat \<Rightarrow> dht \<Rightarrow> nat option" where
  "find_bucket ident af s =
     (if table af s = [] then None else Some (find_bucket_loop ident (table af s) 0))"

text \<open>The loop compares \<^verbatim>\<open>p->next\<close> with \<open>b\<close>; \<open>n\<close> is the number of buckets, \<open>p\<close> the position.\<close>

function previous_bucket_loop :: "nat \<Rightarrow> nat \<Rightarrow> nat \<Rightarrow> nat option" where
  "previous_bucket_loop n i p =
     (if n \<le> Suc p then None
      else if Suc p = i then Some p
      else previous_bucket_loop n i (Suc p))"
  by pat_completeness auto
termination
  by (relation "measure (\<lambda>(n, i, p). n - p)") auto

declare previous_bucket_loop.simps [simp del]

definition previous_bucket :: "nat \<Rightarrow> nat \<Rightarrow> dht \<Rightarrow> nat option" where
  "previous_bucket af i s = (if i = 0 then None else previous_bucket_loop (length (table af s)) i 0)"

definition find_node :: "byte list \<Rightarrow> nat \<Rightarrow> dht \<Rightarrow> (nat \<times> nat) option" where
  "find_node ident af s =
     (case find_bucket ident af s of
        None \<Rightarrow> None
      | Some i \<Rightarrow> map_option (Pair i)
          (first_index (\<lambda>n. id_cmp (n_id n) ident = 0) (b_nodes (table af s ! i))))"

definition the_node :: "nat \<Rightarrow> nat \<Rightarrow> nat \<Rightarrow> dht \<Rightarrow> node" where
  "the_node af i j s = b_nodes (table af s ! i) ! j"

definition upd_node :: "nat \<Rightarrow> nat \<Rightarrow> nat \<Rightarrow> (node \<Rightarrow> node) \<Rightarrow> dht \<Rightarrow> dht" where
  "upd_node af i j f s =
     upd_bucket af i (\<lambda>b. b\<lparr>b_nodes := (b_nodes b)[j := f (b_nodes b ! j)]\<rparr>) s"

text \<open>Return a random node in a bucket: its index, \<open>None\<close> for NULL.\<close>

definition random_node :: "bucket \<Rightarrow> dht \<Rightarrow> nat option \<times> dht" where
  "random_node b s =
     (if b_count b = 0 then (None, s)
      else let (r, s1) = random s;
               nn = nat (int r mod \<bar>b_count b\<bar>)
           in (if nn < length (b_nodes b) then Some nn else None, s1))"

section \<open>Middle and random identifiers\<close>

definition bucket_bit :: "bucket list \<Rightarrow> nat \<Rightarrow> int" where
  "bucket_bit bs i =
     (let bit1 = lowbit (b_first (bs ! i));
          bit2 = (if Suc i < length bs then lowbit (b_first (bs ! Suc i)) else -1)
      in (if bit1 \<ge> bit2 then bit1 else bit2) + 1)"

definition bucket_middle :: "bucket list \<Rightarrow> nat \<Rightarrow> byte list option" where
  "bucket_middle bs i =
     (let bit = bucket_bit bs i
      in if 160 \<le> bit then None
         else Some (set_bit_at (b_first (bs ! i)) (nat bit)))"

text \<open>\<^verbatim>\<open>random() & 0xFF\<close>, a number of times.\<close>

fun random_octets :: "nat \<Rightarrow> dht \<Rightarrow> byte list \<times> dht" where
  "random_octets 0 s = ([], s)"
| "random_octets (Suc n) s =
     (let (r, s1) = random s; (rs, s2) = random_octets n s1 in (of_nat r # rs, s2))"

definition bucket_random :: "bucket list \<Rightarrow> nat \<Rightarrow> dht \<Rightarrow> byte list \<times> dht" where
  "bucket_random bs i s =
     (let bit = bucket_bit bs i; first = b_first (bs ! i)
      in if 160 \<le> bit then (first, s)
         else
           let q = nat bit div 8; k = nat bit mod 8;
               c = first ! q AND ucast (drop_bit k (0xFF00 :: 16 word));
               (r, s1) = random s;
               c' = c OR (of_nat r AND drop_bit k 0xFF);
               (rs, s2) = random_octets (20 - (q + 1)) s1
           in (take q first @ c' # rs, s2))"

section \<open>Nodes\<close>

definition insert_node :: "node \<Rightarrow> dht \<Rightarrow> bool \<times> dht" where
  "insert_node n s =
     (let af = sa_family (n_ss n)
      in case find_bucket (n_id n) af s of
           None \<Rightarrow> (False, s)
         | Some i \<Rightarrow>
             (True, upd_bucket af i (\<lambda>b. b\<lparr>b_nodes := n # b_nodes b, b_count := b_count b + 1\<rparr>) s))"

definition node_good :: "dht \<Rightarrow> node \<Rightarrow> bool" where
  "node_good s n \<longleftrightarrow>
     n_pinged n \<le> 2 \<and> now_sec s - 7200 \<le> n_reply_time n \<and> now_sec s - 900 \<le> n_time n"

text \<open>
  Transaction identifiers: two letters and a sequence number in host order, which is taken
  to be little-endian.
\<close>

definition make_tid :: "string \<Rightarrow> 16 word \<Rightarrow> byte list" where
  "make_tid prefix seqno = ascii (take 2 prefix) @ [ucast seqno, ucast (drop_bit 8 seqno)]"

definition tid_match :: "byte list \<Rightarrow> string \<Rightarrow> 16 word option" where
  "tid_match tid prefix =
     (if tid ! 0 = of_char (prefix ! 0) \<and> tid ! 1 = of_char (prefix ! 1)
      then Some (ucast (tid ! 2) OR push_bit 8 (ucast (tid ! 3)))
      else None)"

definition send_cached_ping :: "nat \<Rightarrow> nat \<Rightarrow> dht \<Rightarrow> int \<times> dht" where
  "send_cached_ping af i s =
     (let b = table af s ! i
      in if sa_family (b_cached b) = 0 then (0, s)
         else let (rc, s1) = send_ping (b_cached b) (b_cachedlen b) (make_tid ''pn'' 0) s
              in (rc, upd_bucket af i
                    (\<lambda>b. b\<lparr>b_cached := (b_cached b)\<lparr>sa_family := 0\<rparr>, b_cachedlen := 0\<rparr>) s1))"

text \<open>Split a bucket into two equal parts. False is NULL.\<close>

definition split_bucket :: "nat \<Rightarrow> nat \<Rightarrow> dht \<Rightarrow> bool \<times> dht" where
  "split_bucket af i s =
     (case bucket_middle (table af s) i of
        None \<Rightarrow> (False, s)
      | Some new_id \<Rightarrow>
          let (ok, s1) = calloc s
          in if \<not> ok then (False, s1)
             else
               let s2 = snd (send_cached_ping af i s1);
                   bs = table af s2;
                   b = bs ! i;
                   new = \<lparr>b_af = b_af b, b_first = new_id, b_count = 0, b_time = b_time b,
                          b_nodes = [], b_cached = no_sockaddr, b_cachedlen = 0\<rparr>;
                   bs' = take i bs @ [b\<lparr>b_nodes := [], b_count := 0\<rparr>, new] @ drop (Suc i) bs
               in (True, fold (\<lambda>n s. snd (insert_node n s)) (b_nodes b) (set_table af bs' s2)))"

text \<open>
  Called whenever a request is sent to a node. The second bucket index is the argument
  \<open>b\<close>, \<open>None\<close> for NULL.
\<close>

definition pinged :: "nat \<Rightarrow> nat \<Rightarrow> nat \<Rightarrow> nat option \<Rightarrow> dht \<Rightarrow> dht" where
  "pinged af i j b s =
     (let s1 = upd_node af i j (\<lambda>n. n\<lparr>n_pinged := n_pinged n + 1, n_pinged_time := now_sec s\<rparr>) s;
          n = the_node af i j s1
      in if 3 \<le> n_pinged n
         then case b of
                Some k \<Rightarrow> snd (send_cached_ping af k s1)
              | None \<Rightarrow>
                  (case find_bucket (n_id n) (sa_family (n_ss n)) s1 of
                     Some k \<Rightarrow> snd (send_cached_ping (sa_family (n_ss n)) k s1)
                   | None \<Rightarrow> die Null_Deref s1)
         else s1)"

section \<open>Learning about a node\<close>

text \<open>
  The parts of \<open>new_node\<close>: a known node is refreshed; a bad node is replaced; in a full
  bucket a dubious node is pinged; a new node is put in front. \<open>confirm\<close> is 1 if the node
  sent a message, 2 if it sent a reply. The length \<open>sslen\<close> of a refreshed or a replaced node
  stays as it was.
\<close>

definition new_node_known :: "sockaddr \<Rightarrow> int \<Rightarrow> int \<Rightarrow> node \<Rightarrow> node" where
  "new_node_known sa confirm now n =
     (if confirm \<noteq> 0 \<or> n_time n < now - 15 * 60
      then let n1 = n\<lparr>n_ss := sa\<rparr>;
               n2 = (if confirm \<noteq> 0 then n1\<lparr>n_time := now\<rparr> else n1)
           in if 2 \<le> confirm then n2\<lparr>n_reply_time := now, n_pinged := 0, n_pinged_time := 0\<rparr> else n2
      else n)"

definition new_node_replace :: "byte list \<Rightarrow> sockaddr \<Rightarrow> int \<Rightarrow> int \<Rightarrow> node \<Rightarrow> node" where
  "new_node_replace ident sa confirm now n =
     n\<lparr>n_id := ident, n_ss := sa, n_time := (if confirm \<noteq> 0 then now else 0),
       n_reply_time := (if 2 \<le> confirm then now else 0), n_pinged_time := 0, n_pinged := 0\<rparr>"

definition new_node_create :: "byte list \<Rightarrow> sockaddr \<Rightarrow> int \<Rightarrow> int \<Rightarrow> int \<Rightarrow> node" where
  "new_node_create ident sa salen confirm now =
     \<lparr>n_id = ident, n_ss = sa, n_sslen = salen, n_time = (if confirm \<noteq> 0 then now else 0),
      n_reply_time = (if 2 \<le> confirm then now else 0), n_pinged_time = 0, n_pinged = 0\<rparr>"

text \<open>The loop over a full bucket: whether a dubious node was met, and the one to ping.\<close>

fun dubious_loop :: "dht \<Rightarrow> node list \<Rightarrow> nat \<Rightarrow> bool \<Rightarrow> bool \<times> nat option" where
  "dubious_loop s [] j dubious = (dubious, None)"
| "dubious_loop s (n # ns) j dubious =
     (if \<not> node_good s n
      then if n_pinged_time n < now_sec s - 15 then (True, Some j)
           else dubious_loop s ns (Suc j) True
      else dubious_loop s ns (Suc j) dubious)"

definition ping_dubious :: "nat \<Rightarrow> nat \<Rightarrow> dht \<Rightarrow> bool \<times> dht" where
  "ping_dubious af i s =
     (let (dubious, pick) = dubious_loop s (b_nodes (table af s ! i)) 0 False
      in case pick of
           None \<Rightarrow> (dubious, s)
         | Some j \<Rightarrow>
             let n = the_node af i j s;
                 s1 = snd (send_ping (n_ss n) (n_sslen n) (make_tid ''pn'' 0) s)
             in (dubious, upd_node af i j
                   (\<lambda>n. n\<lparr>n_pinged := n_pinged n + 1, n_pinged_time := now_sec s\<rparr>) s1))"

definition should_split :: "nat \<Rightarrow> bool \<Rightarrow> bool \<Rightarrow> dht \<Rightarrow> bool" where
  "should_split baf mybucket dubious s =
     (mybucket \<and> (\<not> dubious \<or>
        (baf = AF_INET \<and> length (buckets s) = 1) \<or>
        (baf = AF_INET6 \<and> length (buckets6 s) = 1)))"

text \<open>
  \<open>new_node\<close> calls itself after a split. The result is the node, as bucket and position.
\<close>

fun new_node_rec ::
    "nat \<Rightarrow> byte list \<Rightarrow> sockaddr \<Rightarrow> int \<Rightarrow> int \<Rightarrow> dht \<Rightarrow> (nat \<times> nat) option \<times> dht" where
  "new_node_rec 0 ident sa salen confirm s = (None, die No_Return s)"
| "new_node_rec (Suc d) ident sa salen confirm s =
     (let af = sa_family sa; now = now_sec s
      in case find_bucket ident af s of
           None \<Rightarrow> (None, s)
         | Some i \<Rightarrow>
             if id_cmp ident (myid s) = 0 then (None, s)
             else if is_martian sa then (None, s)
             else
               let mybucket = in_bucket (myid s) (table af s) i;
                   s1 = (if confirm = 2
                         then upd_bucket af i (\<lambda>b. b\<lparr>b_time := to_int32 now\<rparr>) s else s);
                   b = table af s1 ! i
               in case first_index (\<lambda>n. id_cmp (n_id n) ident = 0) (b_nodes b) of
                    Some j \<Rightarrow> (Some (i, j), upd_node af i j (new_node_known sa confirm now) s1)
                  | None \<Rightarrow>
                      let s2 = (if mybucket
                                then if af = AF_INET then s1\<lparr>mybucket_grow_time := now\<rparr>
                                     else s1\<lparr>mybucket6_grow_time := now\<rparr>
                                else s1)
                      in case first_index (\<lambda>n. 3 \<le> n_pinged n \<and> n_pinged_time n < now - 15) (b_nodes b) of
                           Some j \<Rightarrow> (Some (i, j), upd_node af i j (new_node_replace ident sa confirm now) s2)
                         | None \<Rightarrow>
                             if 8 \<le> b_count b
                             then
                               let (dubious, s3) = ping_dubious af i s2
                               in if should_split (b_af b) mybucket dubious s3
                                  then new_node_rec d ident sa salen confirm (snd (split_bucket af i s3))
                                  else if confirm \<noteq> 0 \<or> sa_family (b_cached (table af s3 ! i)) = 0
                                  then (None, upd_bucket af i
                                          (\<lambda>b. b\<lparr>b_cached := sa, b_cachedlen := salen\<rparr>) s3)
                                  else (None, s3)
                             else
                               let (ok, s3) = calloc s2
                               in if \<not> ok then (None, s3)
                                  else (Some (i, 0), upd_bucket af i
                                         (\<lambda>b. b\<lparr>b_nodes := new_node_create ident sa salen confirm now # b_nodes b,
                                                b_count := b_count b + 1\<rparr>) s3))"

declare new_node_rec.simps [simp del]

definition new_node ::
    "byte list \<Rightarrow> sockaddr \<Rightarrow> int \<Rightarrow> int \<Rightarrow> dht \<Rightarrow> (nat \<times> nat) option \<times> dht" where
  "new_node ident sa salen confirm s = new_node_rec (env_depth s) ident sa salen confirm s"

section \<open>Expiry\<close>

text \<open>The first loop drops leading bad nodes; the second those that follow a kept node.\<close>

fun expire_front :: "node list \<Rightarrow> node list" where
  "expire_front (n # ns) = (if 4 \<le> n_pinged n then expire_front ns else n # ns)"
| "expire_front [] = []"

lemma length_expire_front: "length (expire_front ns) \<le> length ns"
  by (induction ns) auto

function expire_rest :: "node list \<Rightarrow> node list" where
  "expire_rest [] = []"
| "expire_rest (p # ns) = p # expire_rest (expire_front ns)"
  by pat_completeness auto
termination
  by (relation "measure length") (auto simp: le_imp_less_Suc length_expire_front)

definition expire_bucket :: "nat \<Rightarrow> nat \<Rightarrow> dht \<Rightarrow> dht" where
  "expire_bucket af i s =
     (let b = table af s ! i;
          ns = expire_rest (expire_front (b_nodes b));
          removed = length (b_nodes b) - length ns;
          s1 = upd_bucket af i (\<lambda>b. b\<lparr>b_nodes := ns, b_count := b_count b - int removed\<rparr>) s
      in if 0 < removed then snd (send_cached_ping af i s1) else s1)"

definition expire_buckets :: "nat \<Rightarrow> dht \<Rightarrow> dht" where
  "expire_buckets af s =
     (let s1 = fold (expire_bucket af) [0..<length (table af s)] s;
          (r, s2) = random s1
      in s2\<lparr>expire_stuff_time := now_sec s2 + 120 + int (r mod 240)\<rparr>)"

section \<open>Reading the table\<close>

text \<open>The numbers of good, dubious, cached and incoming nodes.\<close>

definition dht_nodes :: "nat \<Rightarrow> dht \<Rightarrow> nat \<times> nat \<times> nat \<times> nat" where
  "dht_nodes af s =
     (let ns = concat (map b_nodes (table af s)); good = filter (node_good s) ns
      in (length good, length ns - length good,
          length (filter (\<lambda>b. 0 < sa_family (b_cached b)) (table af s)),
          length (filter (\<lambda>n. n_reply_time n < n_time n) good)))"

fun get_nodes_loop :: "dht \<Rightarrow> nat \<Rightarrow> node list \<Rightarrow> sockaddr list \<Rightarrow> sockaddr list" where
  "get_nodes_loop s num [] acc = acc"
| "get_nodes_loop s num (n # ns) acc =
     (if length acc < num
      then get_nodes_loop s num ns (if node_good s n then acc @ [n_ss n] else acc)
      else acc)"

fun get_buckets_loop :: "dht \<Rightarrow> nat \<Rightarrow> nat \<Rightarrow> nat list \<Rightarrow> sockaddr list \<Rightarrow> sockaddr list" where
  "get_buckets_loop s af num [] acc = acc"
| "get_buckets_loop s af num (i # is) acc =
     (if length acc < num
      then get_buckets_loop s af num is
             (if in_bucket (myid s) (table af s) i then acc
              else get_nodes_loop s num (b_nodes (table af s ! i)) acc)
      else acc)"

definition get_family_nodes :: "nat \<Rightarrow> nat \<Rightarrow> dht \<Rightarrow> sockaddr list" where
  "get_family_nodes af num s =
     (case find_bucket (myid s) af s of
        None \<Rightarrow> []
      | Some i \<Rightarrow> get_buckets_loop s af num [0..<length (table af s)]
                    (get_nodes_loop s num (b_nodes (table af s ! i)) []))"

definition dht_get_nodes :: "nat \<Rightarrow> nat \<Rightarrow> dht \<Rightarrow> sockaddr list \<times> sockaddr list" where
  "dht_get_nodes num num6 s = (get_family_nodes AF_INET num s, get_family_nodes AF_INET6 num6 s)"

section \<open>Nodes given by the application\<close>

text \<open>\<open>EAFNOSUPPORT\<close> is reported as -1.\<close>

definition dht_insert_node :: "byte list \<Rightarrow> sockaddr \<Rightarrow> int \<Rightarrow> dht \<Rightarrow> int \<times> dht" where
  "dht_insert_node ident sa salen s =
     (if sa_family sa \<noteq> AF_INET then (-1, s)
      else let (n, s1) = new_node ident sa salen 0 s in (if n = None then 0 else 1, s1))"

definition dht_ping_node :: "sockaddr \<Rightarrow> int \<Rightarrow> dht \<Rightarrow> int \<times> dht" where
  "dht_ping_node sa salen s = send_ping sa salen (make_tid ''pn'' 0) s"

end
