(* ===== verification/Dht_Refused.thy ===== *)
theory Dht_Refused
  imports Dht_Msg_Props Dht_Table
begin

text \<open>
  The messages of this program, as its own parser gets them. They have transaction identifiers
  of four bytes, most of them with a NUL in it, at which the copy of the datagram ends. What the
  parser reads behind it is whatever lies in memory; the message is refused all the same.
\<close>

section \<open>Decoding a text whose end is not known\<close>

lemma dict_loop_prefix:
  assumes "\<forall>p \<in> set ds. entry_ok p" "text_at b (concat (map entry_text ds))" "bbase b + blen b < 2 ^ 63"
    and "2 * length (concat (map entry_text ds)) \<le> n"
  shows "\<exists>k. benc_dict_decode_loop n b acc =
    benc_dict_decode_loop k (adv b (length (concat (map entry_text ds)))) (acc @ map (map_prod id decoded) ds)"
  using assms
proof (induction ds arbitrary: b n acc)
  case (Cons p ds)
  obtain key v where p: "p = (key, v)" by (cases p)
  let ?b1 = "adv b (length (bstr_text key))"
  let ?b2 = "adv ?b1 (length (bencoding v))"
  obtain c s where c: "bstr_text key = c # s" "c \<noteq> ch_e" by (rule bstr_text_first)
  from Cons.prems(4) obtain m where n: "n = Suc m" by (cases n) (auto simp: p c)
  have t: "text_at b (bstr_text key)" "text_at ?b1 (bencoding v)" "text_at ?b2 (concat (map entry_text ds))"
    using Cons.prems(2) by (simp_all add: p text_at_append)
  have "benc_bstr_decode b = Inr (Some key, ?b1)"
    using Cons.prems(1,3) t(1) by (intro benc_bstr_decode_text) (simp_all add: p)
  moreover have "bdec_mem m ?b1 = Inr (Some (decoded v), ?b2)"
    using Cons.prems(1,3,4) t(2) c by (intro decodes_toD bdec_mem_text) (simp_all add: n p)
  moreover obtain k where "benc_dict_decode_loop m ?b2 (acc @ [(key, decoded v)]) =
      benc_dict_decode_loop k (adv ?b2 (length (concat (map entry_text ds))))
        ((acc @ [(key, decoded v)]) @ map (map_prod id decoded) ds)"
    using Cons.IH [of ?b2 m "acc @ [(key, decoded v)]"] Cons.prems t(3) c by (auto simp: n p id_def)
  ultimately show ?case
    using brd_text [of b c s] t(1) c by (intro exI [of _ k]) (simp add: n p add.assoc id_def)
qed (auto intro: exI [of _ n])

text \<open>Entries once read stay.\<close>

lemma dict_loop_keeps:
  "benc_dict_decode_loop n b es = Inr (Some obj, b') \<Longrightarrow> \<exists>more. obj = dict_result (es @ more)"
proof (induction n arbitrary: b es)
  case (Suc n)
  obtain c where c: "brd b = Inr c" using Suc.prems by (cases "brd b") auto
  show ?case
  proof (cases "c = ch_e")
    case True
    with Suc.prems c show ?thesis by (intro exI [of _ "[]"]) simp
  next
    case False
    with Suc.prems c obtain k v b2 where "benc_dict_decode_loop n b2 (es @ [(k, v)]) = Inr (Some obj, b')"
      by (auto elim!: rbind_InrE split: option.split_asm)
    with Suc.IH show ?thesis by fastforce
  qed
qed simp

text \<open>A string of four bytes, when only its length is known.\<close>

lemma four_bytes:
  assumes "text_at b (ascii ''4:'')" "bdec_mem n b = Inr (Some v, b')"
  shows "\<exists>x. v = BENC_BSTR x \<and> length x = 4"
proof -
  obtain m where n: "n = Suc m" using assms(2) by (cases n) auto
  have d: "dec_digits 4 = [52]" by (simp add: dec_digits.simps digit_byte_def)
  then have t: "text_at b (dec_digits 4 @ ch_colon # [])" "text_at (adv b 1) [ch_colon]" "text_at b [52]"
    using assms(1) text_at_Cons [of b 52 "[58]"] by simp_all
  have "benc_bstr_decode b = benc_bstr_decode_loop (adv b 1) 4"
    using bstr_loop_digits [OF t(1)] d by (simp add: benc_bstr_decode_def)
  also have "\<dots> = benc_bstr_decode_body (adv b 2) 4"
    using brd_text [OF t(2)] by (simp add: benc_bstr_decode_loop.simps [of "adv b (Suc 0)"] inc_adv numeral_2_eq_2)
  finally have "benc_bstr_decode b = benc_bstr_decode_body (adv b 2) 4" .
  moreover have "rbind (benc_bstr_decode b) (\<lambda>(r, b1). Inr (map_option BENC_BSTR r, b1)) = Inr (Some v, b')"
    using assms(2) brd_text [OF t(3)] by (simp add: n is_digit_def)
  ultimately show ?thesis
    by (auto simp: benc_bstr_decode_body_def benc_bstr_new_alloc_def ptrdiff_max_def elim!: rbind_InrE
        split: if_split_asm option.split_asm)
qed

section \<open>A message cut behind its transaction identifier\<close>

lemma lookup_append:
  "dict_lookup_loop (xs @ ys) k = (case dict_lookup_loop xs k of Some v \<Rightarrow> Some v | None \<Rightarrow> dict_lookup_loop ys k)"
  by (induction xs) auto

lemma lookup_map: "dict_lookup_loop (map (map_prod id f) ds) k = map_option f (dict_lookup_loop ds k)"
  by (induction ds) auto

text \<open>
  A text that starts like a message with an identifier of four bytes: whatever follows, when
  the decoder returns an object, the parser refuses it.
\<close>

lemma long_tid_refused:
  assumes "\<forall>p \<in> set ds. entry_ok p" "dict_lookup_loop ds (ascii ''t'') = None"
    and "text_at b (ch_d # concat (map entry_text ds) @ ascii ''1:t4:'')" "bbase b + blen b < 2 ^ 63"
    and "2 * length (concat (map entry_text ds)) < n" "bdec_mem n b = Inr (Some obj, b')"
  shows "dht_message_parse_impl h obj = Inr None"
proof -
  obtain m where n: "n = Suc m" using assms(5) by (cases n) auto
  let ?b1 = "adv b 1"
  let ?b2 = "adv ?b1 (length (concat (map entry_text ds)))"
  have t: "text_at b [ch_d]" "text_at ?b1 (concat (map entry_text ds))" "text_at ?b2 (ascii ''1:t'')"
    "text_at (adv ?b2 3) (ascii ''4:'')"
    using assms(3) text_at_Cons [of b ch_d "concat (map entry_text ds) @ ascii ''1:t4:''"]
      text_at_append [of ?b1 "concat (map entry_text ds)" "ascii ''1:t4:''"]
      text_at_append [of ?b2 "ascii ''1:t''" "ascii ''4:''"] by (simp_all add: numeral_eq_Suc)
  have "benc_dict_decode_loop m ?b1 [] = Inr (Some obj, b')"
    using assms(6) brd_text [OF t(1)] by (simp add: n inc_adv)
  moreover obtain k where "benc_dict_decode_loop m ?b1 [] = benc_dict_decode_loop k ?b2 (map (map_prod id decoded) ds)"
    using dict_loop_prefix [OF assms(1) t(2), of m "[]"] assms(4,5) by (auto simp: n)
  ultimately have l: "benc_dict_decode_loop k ?b2 (map (map_prod id decoded) ds) = Inr (Some obj, b')" by simp
  then obtain k' where k: "k = Suc k'" by (cases k) auto
  have key: "bstr_text (ascii ''t'') = ascii ''1:t''" by (simp add: bstr_text_def layout_simps)
  have "length (bstr_text (ascii ''t'')) = 3" unfolding key by simp
  moreover have "benc_bstr_decode ?b2 = Inr (Some (ascii ''t''), adv ?b2 (length (bstr_text (ascii ''t''))))"
    using t(3) assms(4) by (intro benc_bstr_decode_text) (simp_all only: key adv_simps, simp_all add: ptrdiff_max_def)
  ultimately have s: "benc_bstr_decode ?b2 = Inr (Some (ascii ''t''), adv ?b2 3)" by (simp only:)
  have c: "brd ?b2 = Inr 49" using brd_text [of ?b2 49 "ascii '':t''"] t(3) by simp
  obtain v b3 where v: "bdec_mem k' (adv ?b2 3) = Inr (Some v, b3)"
    and "benc_dict_decode_loop k' b3 (map (map_prod id decoded) ds @ [(ascii ''t'', v)]) = Inr (Some obj, b')"
    using l c s unfolding k by (simp del: ascii_Cons) (auto elim!: rbind_InrE split: option.split_asm)
  then obtain more where "obj = dict_result ((map (map_prod id decoded) ds @ [(ascii ''t'', v)]) @ more)"
    using dict_loop_keeps by blast
  then have obj: "obj = BENC_DICT (map (map_prod id decoded) ds @ (ascii ''t'', v) # more)"
    by (simp add: dict_result_def)
  obtain x where x: "v = BENC_BSTR x" "length x = 4" using four_bytes [OF t(4) v] by blast
  have "benc_bstr_compare (ascii ''t'') (ascii ''t'') = 0" by (simp add: lookup_eval)
  then have "bobj_dict_lookup obj (ascii ''t'') = Inr (Some (BENC_BSTR x))"
    by (simp add: obj bobj_dict_lookup_def lookup_append lookup_map assms(2) x(1) del: ascii_Cons)
  then show ?thesis
    using x(2)
    by (simp add: dht_message_parse_impl_def obj string_value_def bobj_dict_lookup_def del: ascii_Cons
        split: option.split)
qed

text \<open>The parser on the whole: \<open>pre\<close> is free of NUL, what follows it in memory may be anything.\<close>

lemma parse_cut_text:
  assumes "text = pre @ post" "pre = ch_d # concat (map entry_text ds) @ ascii ''1:t4:''" "0 \<notin> set pre"
    and "\<forall>p \<in> set ds. entry_ok p" "dict_lookup_loop ds (ascii ''t'') = None" "h_addr h + length text < 2 ^ 63"
  shows "dht_message_parse h (text @ [0]) (length text) \<noteq> Inr (Some m)"
proof
  assume p: "dht_message_parse h (text @ [0]) (length text) = Inr (Some m)"
  obtain s where s: "cstring (text @ [0]) = Inr s"
    using p by (cases "cstring (text @ [0])") (auto simp: dht_message_parse_def)
  have "cstring (pre @ q) = Inr r \<Longrightarrow> \<exists>r'. r = pre @ r'" for q r
    using assms(3) by (induction pre arbitrary: r) (auto simp: rbind_eq_Inr)
  then obtain s' where s': "s = pre @ s'" using s assms(1) by auto
  let ?b = "bbuf_new (h_addr h) (length text) (s @ [0] @ h_copy h)"
  obtain obj b' where d: "bdec_mem (bdec_fuel ?b) ?b = Inr (Some obj, b')"
    and "rbind (dht_message_parse_impl h obj) (\<lambda>r. case r of None \<Rightarrow> rbind (dht_message_free (Some obj)) (\<lambda>_. Inr None)
      | Some m \<Rightarrow> Inr (Some m)) = Inr (Some m)"
    using p s by (auto simp: dht_message_parse_def Let_def elim!: rbind_InrE split: option.split_asm)
  moreover have "dht_message_parse_impl h obj = Inr None"
    using assms(1,2,6) s' by (intro long_tid_refused [OF assms(4,5) _ _ _ d])
      (simp_all add: text_at_def bbuf_new_def bdec_fuel_def)
  ultimately show False by (auto elim!: rbind_InrE)
qed

section \<open>The messages of the node\<close>

text \<open>
  What the senders hand to \<^verbatim>\<open>sendto\<close>, for every destination and every argument: the four queries,
  the acknowledgements, the replies with nodes and peers, and the errors.
\<close>

inductive sends :: "dht \<Rightarrow> byte list \<Rightarrow> byte list \<Rightarrow> bool" for s tid where
  sends_ping: "sent (snd (send_ping sa n tid s)) = sent s @ [d] \<Longrightarrow> sends s tid (dg_bytes d)"
| sends_find_node: "id_ok target \<Longrightarrow> sent (snd (send_find_node sa n tid target want confirm s)) = sent s @ [d] \<Longrightarrow>
    sends s tid (dg_bytes d)"
| sends_get_peers: "id_ok hash \<Longrightarrow> sent (snd (send_get_peers sa n tid hash want confirm s)) = sent s @ [d] \<Longrightarrow>
    sends s tid (dg_bytes d)"
| sends_announce: "id_ok hash \<Longrightarrow> token \<noteq> [] \<Longrightarrow> length token < 40 \<Longrightarrow>
    sent (snd (send_announce_peer sa n tid hash port token confirm s)) = sent s @ [d] \<Longrightarrow> sends s tid (dg_bytes d)"
| sends_pong: "sent (snd (send_pong sa n tid s)) = sent s @ [d] \<Longrightarrow> sends s tid (dg_bytes d)"
| sends_announced: "sent (snd (send_peer_announced sa n tid s)) = sent s @ [d] \<Longrightarrow> sends s tid (dg_bytes d)"
| sends_nodes: "reply_sizes_ok nodes nodes6 token \<Longrightarrow>
    (case st of None \<Rightarrow> True | Some store \<Rightarrow> peers_ok (st_peers store)) \<Longrightarrow>
    sent (snd (send_nodes_peers sa n tid nodes nodes6 af st token s)) = sent s @ [d] \<Longrightarrow> sends s tid (dg_bytes d)"
| sends_error: "0 \<le> code \<Longrightarrow> code < 100000 \<Longrightarrow> message \<noteq> [] \<Longrightarrow> length message \<le> 400 \<Longrightarrow>
    sent (snd (send_error sa n tid code message s)) = sent s @ [d] \<Longrightarrow> sends s tid (dg_bytes d)"

lemma dht_send_bytes:
  "sent (snd (dht_send buf flag sa n s')) = sent s @ [d] \<Longrightarrow> sent s' = sent s \<Longrightarrow> dg_bytes d = buf"
  by (auto simp: dht_send_def die_def Let_def split: if_splits)

lemma send_or_fail_bytes:
  "sent (snd (send_or_fail (Some buf) flag sa n s)) = sent s @ [d] \<Longrightarrow> dg_bytes d = buf"
  by (simp add: send_or_fail_def dht_send_bytes)

text \<open>The entries in front of the transaction identifier, and the text as a whole.\<close>

definition tail_text :: "dht \<Rightarrow> byte list \<Rightarrow> byte list" where
  "tail_text s k = concat (map entry_text (v_entry s)) @ ascii ''1:y1:'' @ k @ ascii ''e''"

definition own_shape :: "dht \<Rightarrow> byte list \<Rightarrow> byte list \<Rightarrow> bool" where
  "own_shape s tid text \<longleftrightarrow> (\<exists>ds k. (\<forall>p \<in> set ds. entry_ok p) \<and> dict_lookup_loop ds (ascii ''t'') = None \<and>
     length k = 1 \<and> text = (ch_d # concat (map entry_text ds) @ ascii ''1:t4:'') @ tid @ tail_text s k)"

lemma own_shapeI:
  assumes "length tid = 4" "length k = 1" "\<forall>p \<in> set ds. entry_ok p" "dict_lookup_loop ds (ascii ''t'') = None"
    and "text = bencoding (BENC_DICT (ds @ (ascii ''t'', BENC_BSTR tid) # v_entry s @ [(ascii ''y'', BENC_BSTR k)]))"
  shows "own_shape s tid text"
proof -
  have "bstr_text tid = ascii ''4:'' @ tid" "bstr_text k = ascii ''1:'' @ k" "bstr_text (ascii ''t'') = ascii ''1:t''"
    "bstr_text (ascii ''y'') = ascii ''1:y''"
    using assms(1,2) by (simp_all add: bstr_text_def dec_digits.simps digit_byte_def)
  then have "text = (ch_d # concat (map entry_text ds) @ ascii ''1:t4:'') @ tid @ tail_text s k"
    unfolding assms(5) tail_text_def by (simp del: ascii_Cons) simp
  with assms show ?thesis unfolding own_shape_def by blast
qed

lemma shape_query:
  assumes "sender_ok s" "length tid = 4" "q \<noteq> []" "length q \<le> 20" "\<forall>p \<in> set args. entry_ok p"
  shows "own_shape s tid (bencoding (query_obj s q args tid))"
  unfolding query_obj_def
  by (rule own_shapeI [OF assms(2), where k = "ascii ''q''" and
        ds = "[(ascii ''a'', BENC_DICT ((ascii ''id'', BENC_BSTR (myid s)) # args)), (ascii ''q'', BENC_BSTR (ascii q))]"])
    (use assms in \<open>auto simp: list_all_iff sender_ok_def ptrdiff_max_def lookup_eval\<close>)

lemma shape_reply:
  assumes "sender_ok s" "length tid = 4" "\<forall>p \<in> set args. entry_ok p"
  shows "own_shape s tid (bencoding (reply_obj s args tid))"
  unfolding reply_obj_def
  by (rule own_shapeI [OF assms(2), where k = "ascii ''r''" and
        ds = "[(ascii ''r'', BENC_DICT ((ascii ''id'', BENC_BSTR (myid s)) # args))]"])
    (use assms in \<open>auto simp: list_all_iff sender_ok_def ptrdiff_max_def lookup_eval\<close>)

lemma shape_error:
  assumes "length tid = 4" "0 \<le> code" "code < 100000" "message \<noteq> []" "length message \<le> 400"
  shows "own_shape s tid (bencoding (error_obj s tid code message))"
  unfolding error_obj_def
  by (rule own_shapeI [OF assms(1), where k = "ascii ''e''" and
        ds = "[(ascii ''e'', BENC_LIST [BENC_INT code, BENC_BSTR message])]"])
    (use assms in \<open>auto simp: ptrdiff_max_def lookup_eval\<close>)

lemma readable_want: "\<forall>p \<in> set (want_entry want). entry_ok p"
  by (auto simp: want_entry_def ptrdiff_max_def)

lemma port_range: "- (2 ^ 63) < int (unat (port :: 16 word))" "int (unat port) < 2 ^ 63"
proof -
  have "int (unat port) < 2 ^ LENGTH(16)" by (metis of_nat_less_iff of_nat_numeral of_nat_power unsigned_less)
  then show "int (unat port) < 2 ^ 63" by simp
  show "- (2 ^ 63) < int (unat port)" by (rule less_le_trans [of _ 0]) simp_all
qed

lemma sends_shape:
  assumes "sends s tid text" "sender_ok s" "length tid = 4"
  shows "own_shape s tid text"
proof -
  have tid: "tid_ok tid" using assms(3) by (simp add: tid_ok_def)
  have ne: "x \<noteq> []" if "id_ok x" for x :: "byte list" using that by auto
  note q = shape_query [OF assms(2,3)] and r = shape_reply [OF assms(2,3)]
  show ?thesis
    using assms(1)
  proof cases
    case (sends_ping sa n d)
    have "text = bencoding (query_obj s ''ping'' [] tid)"
      using sends_ping unfolding send_ping_def ping_msg_text [OF assms(2) tid] by (blast dest: send_or_fail_bytes)
    then show ?thesis using q [of "''ping''" "[]"] by simp
  next
    case (sends_find_node target sa n want confirm d)
    have "text = bencoding (query_obj s ''find_node'' ((ascii ''target'', BENC_BSTR target) # want_entry want) tid)"
      using sends_find_node unfolding send_find_node_def find_node_msg_text [OF assms(2) tid sends_find_node(2)]
      by (blast dest: send_or_fail_bytes)
    then show ?thesis
      using q [of "''find_node''" "(ascii ''target'', BENC_BSTR target) # want_entry want"] readable_want sends_find_node(2) ne [OF sends_find_node(2)]
      by (auto simp: ptrdiff_max_def)
  next
    case (sends_get_peers hash sa n want confirm d)
    have "text = bencoding (query_obj s ''get_peers'' ((ascii ''info_hash'', BENC_BSTR hash) # want_entry want) tid)"
      using sends_get_peers unfolding send_get_peers_def get_peers_msg_text [OF assms(2) tid sends_get_peers(2)]
      by (blast dest: send_or_fail_bytes)
    then show ?thesis
      using q [of "''get_peers''" "(ascii ''info_hash'', BENC_BSTR hash) # want_entry want"] readable_want sends_get_peers(2) ne [OF sends_get_peers(2)]
      by (auto simp: ptrdiff_max_def)
  next
    case (sends_announce hash token sa n port confirm d)
    have "text = bencoding (query_obj s ''announce_peer'' [(ascii ''info_hash'', BENC_BSTR hash),
        (ascii ''port'', BENC_INT (int (unat port))), (ascii ''token'', BENC_BSTR token)] tid)"
      using sends_announce unfolding send_announce_peer_def announce_peer_msg_text [OF assms(2) tid sends_announce(2,4)]
      by (blast dest: send_or_fail_bytes)
    then show ?thesis
      using q [of "''announce_peer''" "[(ascii ''info_hash'', BENC_BSTR hash), (ascii ''port'', BENC_INT (int (unat port))),
          (ascii ''token'', BENC_BSTR token)]"] sends_announce(2-4) ne [OF sends_announce(2)] port_range [of port]
      by (auto simp: ptrdiff_max_def)
  next
    case (sends_pong sa n d)
    have "text = bencoding (reply_obj s [] tid)"
      using sends_pong unfolding send_pong_def pong_msg_text [OF assms(2) tid] by (blast dest: send_or_fail_bytes)
    then show ?thesis using r [of "[]"] by simp
  next
    case (sends_announced sa n d)
    have "text = bencoding (reply_obj s [] tid)"
      using sends_announced unfolding send_peer_announced_def peer_announced_msg_text [OF assms(2) tid]
      by (blast dest: send_or_fail_bytes)
    then show ?thesis using r [of "[]"] by simp
  next
    case (sends_nodes nodes nodes6 token st sa n af d)
    let ?ps = "case st of None \<Rightarrow> [] | Some store \<Rightarrow> st_peers store"
    obtain rnd s1 where r1: "(if ?ps = [] then (0, s) else random s) = (rnd, s1)" by (metis prod.exhaust)
    let ?args = "head_entries nodes nodes6 token @ values_entry ?ps af rnd"
    have "sent s1 = sent s" using r1 by (auto simp: random_def split: if_split_asm)
    then have "text = bencoding (reply_obj s ?args tid)"
      using sends_nodes unfolding send_nodes_peers_text [OF assms(2) tid sends_nodes(2,3)] Let_def r1 prod.case
      by (blast dest: dht_send_bytes)
    moreover have "peers_ok ?ps" using sends_nodes(3) by (simp add: peers_ok_def split: option.splits)
    then have "\<forall>p \<in> set ?args. entry_ok p" using readable_reply_args [OF sends_nodes(2), of ?ps _ _ af rnd] by blast
    ultimately show ?thesis using r [of ?args] by simp
  next
    case (sends_error code message sa n d)
    have "text = bencoding (error_obj s tid code message)"
      using sends_error unfolding send_error_def error_msg_text [OF assms(2) tid sends_error(2,3,5)] error_obj_def
      by (blast dest: send_or_fail_bytes)
    then show ?thesis using shape_error [OF assms(3) sends_error(2-5)] by simp
  qed
qed

section \<open>Own messages are refused\<close>

text \<open>What stands before the transaction identifier; behind it are the version and the type.\<close>

definition before_tid :: "dht \<Rightarrow> byte list \<Rightarrow> byte list \<Rightarrow> byte list" where
  "before_tid s tid text = take (length text - (length tid + (if have_v s then 9 else 0) + 7)) text"

lemma length_tail: "sender_ok s \<Longrightarrow> length k = 1 \<Longrightarrow> length (tail_text s k) = (if have_v s then 9 else 0) + 7"
  by (simp add: tail_text_def v_entry_def bstr_text_def sender_ok_def dec_digits.simps)

text \<open>C27. A node does not understand its own kind: of the messages a node of this program sends, queries,
  replies or errors, with a transaction identifier of four bytes as \<open>make_tid\<close> makes it, the
  parser accepts none, whoever the receiver is and whatever lies in its memory, as long as no
  NUL stands before the identifier, where the arguments are. (The copy of a message ends at its
  first NUL, and nothing behind it is read: with a NUL in the arguments it is memory that
  decides.) Without any NUL the message is refused in good order. And in no case, whatever is
  accepted, does it have the identifier of the message, by which a reply is matched to its query.\<close>

theorem own_messages_refused:
  assumes "sender_ok s" and "length tid = 4" and "sends s tid text" and "h_addr h + length text < 2 ^ 63"
  shows "(\<forall>m. dht_message_parse h (text @ [0]) (length text) = Inr (Some m) \<longrightarrow> m_t m \<noteq> tid) \<and>
    (0 \<notin> set (before_tid s tid text) \<longrightarrow> (\<forall>m. dht_message_parse h (text @ [0]) (length text) \<noteq> Inr (Some m))) \<and>
    (0 \<notin> set text \<and> (\<exists>obj. decodable obj \<and> text = bencoding obj) \<longrightarrow>
       dht_message_parse h (text @ [0]) (length text) = Inr None) \<and>
    dht_message_parse h (text @ [0]) (length text) =
      dht_message_parse h (takeWhile (\<lambda>c. c \<noteq> 0) text @ [0]) (length text)"
proof (intro conjI impI)
  show "\<forall>m. dht_message_parse h (text @ [0]) (length text) = Inr (Some m) \<longrightarrow> m_t m \<noteq> tid"
    using parse_ok assms(2) by (fastforce simp: message_ok_def)
  obtain ds k where ds: "\<forall>p \<in> set ds. entry_ok p" "dict_lookup_loop ds (ascii ''t'') = None"
    and shape: "text = (ch_d # concat (map entry_text ds) @ ascii ''1:t4:'') @ tid @ tail_text s k" and k: "length k = 1"
    using sends_shape [OF assms(3,1,2)] unfolding own_shape_def by blast
  let ?pre = "ch_d # concat (map entry_text ds) @ ascii ''1:t4:''"
  have before: "before_tid s tid text = ?pre"
  proof -
    have "take (length (a @ b @ c) - (length b + length c)) (a @ b @ c) = a" for a b c :: "byte list" by simp
    from this [of ?pre tid "tail_text s k", folded shape] show ?thesis
      unfolding before_tid_def length_tail [OF assms(1) k] by (simp only: add.assoc)
  qed
  show refused: "\<forall>m. dht_message_parse h (text @ [0]) (length text) \<noteq> Inr (Some m)" if "0 \<notin> set (before_tid s tid text)"
    using parse_cut_text [OF shape refl _ ds assms(4)] that unfolding before by blast
  show "dht_message_parse h (text @ [0]) (length text) = Inr None"
    if a: "0 \<notin> set text \<and> (\<exists>obj. decodable obj \<and> text = bencoding obj)"
  proof -
    obtain obj where obj: "decodable obj" "text = bencoding obj" using a by blast
    let ?b = "bbuf_new (h_addr h) (length text) (text @ [0])"
    have d: "bdec_mem (bdec_fuel ?b) ?b = Inr (Some (decoded obj), adv ?b (length text))"
      using decodes_toD [OF bdec_mem_text [OF decodable_readable [OF obj(1)]], of ?b "bdec_fuel ?b"] assms(4)
      by (simp add: obj(2) [symmetric] bbuf_new_def text_at_def bdec_fuel_def)
    have p: "text_at ?b ?pre" by (simp only: text_at_def bbuf_new_def shape) simp
    have "length text = length (concat (map entry_text ds)) + 10 + length (tail_text s k)" using assms(2) by (simp add: shape)
    then have n: "2 * length (concat (map entry_text ds)) < bdec_fuel ?b" by (simp add: bdec_fuel_def bbuf_new_def)
    have "bbase ?b + blen ?b < 2 ^ 63" using assms(4) by (simp add: bbuf_new_def)
    then have "dht_message_parse_impl h (decoded obj) = Inr None" using long_tid_refused [OF ds p _ n d] by blast
    then show ?thesis
      using parse_text [OF obj(1), of h] a assms(4) decodable_decoded [OF obj(1)] by (simp add: obj(2))
  qed
  have "cstring (bs @ [0]) = Inr (takeWhile (\<lambda>c. c \<noteq> 0) bs)" for bs :: "byte list"
    by (induction bs) auto
  then show "dht_message_parse h (text @ [0]) (length text) =
      dht_message_parse h (takeWhile (\<lambda>c. c \<noteq> 0) text @ [0]) (length text)"
    by (simp add: dht_message_parse_def takeWhile_idem)
qed

text \<open>A ping with the identifier that pings have, to a receiver whose memory holds a 7 behind the copy.\<close>

theorem own_messages_refused_witness:
  "let s = dht_start\<lparr>myid := replicate 20 1, dht_socket := 3\<rparr>; m = the (ping_msg s (make_tid ''pn'' 0))
   in sends s (make_tid ''pn'' 0) m \<and>
     (\<forall>x. dht_message_parse \<lparr>h_addr = 4096, h_copy = [7], h_query = []\<rparr> (m @ [0]) (length m) \<noteq> Inr (Some x))"
proof -
  let ?s = "dht_start\<lparr>myid := replicate 20 1, dht_socket := 3\<rparr>" and ?tid = "make_tid ''pn'' 0"
  let ?m = "the (ping_msg ?s ?tid)"
  have s: "sender_ok ?s" "length ?tid = 4" by (simp_all add: sender_ok_def dht_start_def make_tid_def)
  have m: "ping_msg ?s ?tid = Some ?m" using ping_msg_text [OF s(1), of ?tid] s(2) by (simp add: tid_ok_def)
  obtain b where b: "ping_msg ?s ?tid = Some b" using m by blast
  have "sends ?s ?tid (dg_bytes \<lparr>dg_sock = 3, dg_bytes = b, dg_confirm = False,
      dg_to = no_sockaddr\<lparr>sa_family := AF_INET\<rparr>, dg_tolen = 16\<rparr>)"
    by (rule sends_ping [where sa = "no_sockaddr\<lparr>sa_family := AF_INET\<rparr>" and n = 16])
      (unfold send_ping_def b send_or_fail_def option.case, simp add: dht_send_def no_sockaddr_def dht_start_def)
  then have d: "sends ?s ?tid ?m" by (simp add: b)
  let ?h = "\<lparr>h_addr = 4096, h_copy = [7], h_query = []\<rparr>"
  have "length ?m < 100" and n: "0 \<notin> set (before_tid ?s ?tid ?m)" by code_simp+
  then have "h_addr ?h + length ?m < 2 ^ 63" by simp
  from own_messages_refused [OF s d this] n d show ?thesis unfolding Let_def by blast
qed

end
