(* ===== verification/Dht_Shape.thy ===== *)
theory Dht_Shape
  imports Dht_Table
begin

text \<open>
  The shape of a routing table: which ranges of identifiers its buckets stand for. The
  ranges are aligned powers of two that partition the identifiers; \<open>find_bucket\<close> finds the
  only bucket an identifier lies in; splitting a bucket at its middle halves its range.
\<close>

section \<open>Ranges\<close>

definition fbit :: "byte list list \<Rightarrow> nat \<Rightarrow> int" where
  "fbit fs i = max (lowbit (fs ! i)) (if Suc i < length fs then lowbit (fs ! Suc i) else -1) + 1"

definition ftop :: "byte list list \<Rightarrow> nat \<Rightarrow> nat" where
  "ftop fs i = (if Suc i < length fs then be_val (fs ! Suc i) else 2 ^ 160)"

text \<open>
  The first identifiers of a table: the first range starts at 0, and a range whose bit is
  \<open>d\<close> has \<open>2 ^ (160 - d)\<close> identifiers.
\<close>

definition shape_ok :: "byte list list \<Rightarrow> bool" where
  "shape_ok fs \<longleftrightarrow> fs \<noteq> [] \<and> hd fs = zeroes \<and> (\<forall>i < length fs. id_ok (fs ! i) \<and> fbit fs i \<le> 160 \<and>
     ftop fs i = be_val (fs ! i) + 2 ^ (160 - nat (fbit fs i)))"

definition firsts :: "bucket list \<Rightarrow> byte list list" where
  "firsts bs = map b_first bs"

lemma length_firsts [simp]: "length (firsts bs) = length bs"
  by (simp add: firsts_def)

lemma firsts_eq_Nil [simp]: "firsts bs = [] \<longleftrightarrow> bs = []"
  by (simp add: firsts_def)

lemma nth_firsts [simp]: "i < length bs \<Longrightarrow> firsts bs ! i = b_first (bs ! i)"
  by (simp add: firsts_def)

lemma firsts_upd: "b_first b = b_first (bs ! i) \<Longrightarrow> firsts (bs[i := b]) = firsts bs"
  by (cases "i < length bs") (simp_all add: firsts_def map_update list_update_same_conv list_update_beyond)

lemma bucket_bit_fbit: "i < length bs \<Longrightarrow> bucket_bit bs i = fbit (firsts bs) i"
  by (simp add: bucket_bit_def fbit_def Let_def max_def)

lemma fbit_nonneg: "0 \<le> fbit fs i"
  using lowbit_range(1) [of "fs ! i"] by (simp add: fbit_def)

lemma shape_first:
  "shape_ok fs \<Longrightarrow> i < length fs \<Longrightarrow> id_ok (fs ! i)"
  by (simp add: shape_ok_def)

lemma shape_top: "shape_ok fs \<Longrightarrow> i < length fs \<Longrightarrow> be_val (fs ! i) < ftop fs i"
  by (simp add: shape_ok_def)

lemma shape_less:
  assumes "shape_ok fs" "i < j" "j < length fs"
  shows "be_val (fs ! i) < be_val (fs ! j)"
  using assms(2,3)
proof (induction j)
  case (Suc j)
  have "be_val (fs ! j) < be_val (fs ! Suc j)"
    using shape_top [OF assms(1), of j] Suc.prems by (simp add: ftop_def)
  moreover have "be_val (fs ! i) \<le> be_val (fs ! j)"
    using Suc by (cases "i = j") (auto intro: less_imp_le)
  ultimately show ?case by (rule le_less_trans [rotated])
qed simp

lemma shape_mono:
  "shape_ok fs \<Longrightarrow> i \<le> j \<Longrightarrow> j < length fs \<Longrightarrow> be_val (fs ! i) \<le> be_val (fs ! j)"
  using shape_less [of fs i j] by (cases "i = j") auto

lemma ordered_firsts: "shape_ok fs \<Longrightarrow> ordered_by id_cmp fs"
  by (simp add: ordered_by_def sorted_wrt_iff_nth_less id_cmp_neg shape_less shape_first)

text \<open>An identifier in a bucket, in numbers.\<close>

definition frange :: "byte list list \<Rightarrow> nat \<Rightarrow> byte list \<Rightarrow> bool" where
  "frange fs i ident \<longleftrightarrow> be_val (fs ! i) \<le> be_val ident \<and> be_val ident < ftop fs i"

lemma in_bucket_range:
  assumes "shape_ok (firsts bs)" "i < length bs" "id_ok ident"
  shows "in_bucket ident bs i \<longleftrightarrow> frange (firsts bs) i ident"
proof (cases "Suc i < length bs")
  case True
  then show ?thesis
    using shape_first [OF assms(1), of i] shape_first [OF assms(1), of "Suc i"] assms
    by (simp add: in_bucket_def frange_def ftop_def id_cmp_le id_cmp_neg)
next
  case False
  with assms(2) have "Suc i = length bs" by simp
  then show ?thesis
    using shape_first [OF assms(1), of i] assms be_val_id_less [of ident]
    by (simp add: in_bucket_def frange_def ftop_def id_cmp_le)
qed

lemma frange_unique:
  assumes "shape_ok fs" "i < length fs" "j < length fs" "frange fs i ident" "frange fs j ident"
  shows "i = j"
proof -
  have "\<not> a < b" if "a < length fs" "b < length fs" "frange fs a ident" "frange fs b ident" for a b
  proof
    assume "a < b"
    then have "be_val (fs ! Suc a) \<le> be_val (fs ! b)" using that(2) by (intro shape_mono [OF assms(1)]) simp_all
    with that \<open>a < b\<close> show False by (simp add: frange_def ftop_def)
  qed
  from this [of i j] this [of j i] assms(2-5) show ?thesis by simp
qed

lemma find_bucket_loop_spec:
  assumes "bs \<noteq> []"
  shows "\<exists>r < length bs. find_bucket_loop ident bs k = k + r \<and>
    (\<forall>j. 0 < j \<longrightarrow> j \<le> r \<longrightarrow> \<not> id_cmp ident (b_first (bs ! j)) < 0) \<and>
    (Suc r < length bs \<longrightarrow> id_cmp ident (b_first (bs ! Suc r)) < 0)"
  using assms
proof (induction ident bs k rule: find_bucket_loop.induct)
  case (1 ident b b' bs i)
  show ?case
  proof (cases "id_cmp ident (b_first b') < 0")
    case True
    then show ?thesis by (intro exI [of _ 0]) auto
  next
    case False
    with 1 obtain r where r: "r < length (b' # bs)"
      "find_bucket_loop ident (b' # bs) (Suc i) = Suc i + r"
      "\<And>j. 0 < j \<Longrightarrow> j \<le> r \<Longrightarrow> \<not> id_cmp ident (b_first ((b' # bs) ! j)) < 0"
      "Suc r < length (b' # bs) \<Longrightarrow> id_cmp ident (b_first ((b' # bs) ! Suc r)) < 0"
      by auto
    have "\<not> id_cmp ident (b_first ((b # b' # bs) ! j)) < 0" if "0 < j" "j \<le> Suc r" for j
      using False r(3) [of "j - 1"] that by (cases "j = 1") (auto simp: nth_Cons')
    with False r(1,2,4) show ?thesis by (intro exI [of _ "Suc r"]) auto
  qed
qed auto

lemma find_bucket_range:
  assumes "shape_ok (firsts bs)" "id_ok ident"
  shows "find_bucket_loop ident bs 0 < length bs"
    and "frange (firsts bs) (find_bucket_loop ident bs 0) ident"
    and "in_bucket ident bs (find_bucket_loop ident bs 0)"
proof -
  have ne: "bs \<noteq> []" using assms(1) by (auto simp: shape_ok_def)
  obtain r where r: "r < length bs" "find_bucket_loop ident bs 0 = r"
    "\<And>j. 0 < j \<Longrightarrow> j \<le> r \<Longrightarrow> \<not> id_cmp ident (b_first (bs ! j)) < 0"
    "Suc r < length bs \<Longrightarrow> id_cmp ident (b_first (bs ! Suc r)) < 0"
    using find_bucket_loop_spec [OF ne, of ident 0] by auto
  have "be_val (b_first (bs ! r)) \<le> be_val ident"
  proof (cases "r = 0")
    case True
    with assms(1) ne show ?thesis by (simp add: shape_ok_def firsts_def hd_map hd_conv_nth [symmetric])
  next
    case False
    with r(3) [of r] r(1) shape_first [OF assms(1), of r] assms(2) show ?thesis
      by (simp add: id_cmp_neg)
  qed
  moreover have "be_val ident < ftop (firsts bs) r"
    using r(1,4) shape_first [OF assms(1), of "Suc r"] assms(2) be_val_id_less [OF assms(2)]
    by (auto simp: ftop_def id_cmp_neg)
  ultimately have "frange (firsts bs) r ident" using r(1) by (simp add: frange_def)
  with r(1,2) assms show "find_bucket_loop ident bs 0 < length bs"
    "frange (firsts bs) (find_bucket_loop ident bs 0) ident"
    "in_bucket ident bs (find_bucket_loop ident bs 0)"
    by (simp_all add: in_bucket_range)
qed

lemma find_bucket_unique:
  assumes "shape_ok (firsts bs)" "id_ok ident" "i < length bs" "frange (firsts bs) i ident"
  shows "find_bucket_loop ident bs 0 = i"
  using frange_unique [OF assms(1) _ _ _ assms(4)] find_bucket_range [OF assms(1,2)] assms(3) by simp

lemma previous_bucket_loop_eq:
  "p < i \<Longrightarrow> i < n \<Longrightarrow> previous_bucket_loop n i p = Some (i - 1)"
proof (induction n i p rule: previous_bucket_loop.induct)
  case (1 n i p)
  then show ?case by (auto simp: previous_bucket_loop.simps [of n i p])
qed

lemma previous_bucket_eq:
  "i < length (table af s) \<Longrightarrow> previous_bucket af i s = (if i = 0 then None else Some (i - 1))"
  by (simp add: previous_bucket_def previous_bucket_loop_eq)

section \<open>Halving\<close>

definition fmid :: "byte list list \<Rightarrow> nat \<Rightarrow> byte list" where
  "fmid fs i = set_bit_at (fs ! i) (nat (fbit fs i))"

lemma fmid_props:
  assumes "shape_ok fs" "i < length fs" "fbit fs i < 160"
  shows "id_ok (fmid fs i)" and "lowbit (fmid fs i) = fbit fs i"
    and "be_val (fmid fs i) = be_val (fs ! i) + 2 ^ (159 - nat (fbit fs i))"
    and "be_val (fs ! i) < be_val (fmid fs i)" and "be_val (fmid fs i) < ftop fs i"
    and "ftop fs i = be_val (fmid fs i) + 2 ^ (159 - nat (fbit fs i))"
proof -
  let ?k = "nat (fbit fs i)"
  have k: "?k < 160" "int ?k = fbit fs i" using assms(3) fbit_nonneg [of fs i] by simp_all
  have id: "id_ok (fs ! i)" using assms by (simp add: shape_first)
  have low: "lowbit (fs ! i) < int ?k" unfolding k(2) by (simp add: fbit_def)
  show "id_ok (fmid fs i)" using id by (simp add: fmid_def)
  show "lowbit (fmid fs i) = fbit fs i"
    using lowbit_set_bit [OF id k(1) low] k(2) by (simp add: fmid_def)
  have "\<not> id_bit (fs ! i) ?k" using lowbit_trailing [OF low, of ?k] k(1) by simp
  then show v: "be_val (fmid fs i) = be_val (fs ! i) + 2 ^ (159 - ?k)"
    unfolding fmid_def by (rule be_val_set_bit [OF id k(1)])
  then show "be_val (fs ! i) < be_val (fmid fs i)" by simp
  have p: "(2 :: nat) ^ (160 - ?k) = 2 ^ (159 - ?k) + 2 ^ (159 - ?k)"
    using k(1) by (simp add: mult_2 [symmetric] power_Suc [symmetric] Suc_diff_Suc del: power_Suc)
  show top: "ftop fs i = be_val (fmid fs i) + 2 ^ (159 - ?k)"
    using assms(1,2) v p by (simp add: shape_ok_def)
  then show "be_val (fmid fs i) < ftop fs i" by simp
qed

lemma bucket_middle_fmid:
  "i < length bs \<Longrightarrow> bucket_middle bs i =
    (if 160 \<le> fbit (firsts bs) i then None else Some (fmid (firsts bs) i))"
  by (simp add: bucket_middle_def bucket_bit_fbit fmid_def Let_def)

definition fsplit :: "byte list list \<Rightarrow> nat \<Rightarrow> byte list list" where
  "fsplit fs i = take (Suc i) fs @ fmid fs i # drop (Suc i) fs"

lemma length_fsplit: "i < length fs \<Longrightarrow> length (fsplit fs i) = Suc (length fs)"
  by (simp add: fsplit_def)

lemma nth_fsplit:
  assumes "i < length fs"
  shows "j \<le> i \<Longrightarrow> fsplit fs i ! j = fs ! j" and "fsplit fs i ! Suc i = fmid fs i"
    and "i < j \<Longrightarrow> j < length fs \<Longrightarrow> fsplit fs i ! Suc j = fs ! j"
  using assms by (auto simp: fsplit_def nth_append nth_Cons' min_def)

lemma fsplit_below:
  assumes "i < length fs" "j < i"
  shows "fbit (fsplit fs i) j = fbit fs j" and "ftop (fsplit fs i) j = ftop fs j"
  using assms by (simp_all add: fbit_def ftop_def length_fsplit nth_fsplit)

lemma fsplit_above:
  assumes "i < length fs" "i < j" "j < length fs"
  shows "fbit (fsplit fs i) (Suc j) = fbit fs j" and "ftop (fsplit fs i) (Suc j) = ftop fs j"
  using assms by (simp_all add: fbit_def ftop_def length_fsplit nth_fsplit)

lemma fsplit_halves:
  assumes "shape_ok fs" "i < length fs" "fbit fs i < 160"
  shows "fbit (fsplit fs i) i = fbit fs i + 1" and "fbit (fsplit fs i) (Suc i) = fbit fs i + 1"
    and "ftop (fsplit fs i) i = be_val (fmid fs i)" and "ftop (fsplit fs i) (Suc i) = ftop fs i"
proof -
  have m: "lowbit (fmid fs i) = fbit fs i" by (rule fmid_props(2) [OF assms])
  have "lowbit (fs ! i) < fbit fs i" "Suc i < length fs \<Longrightarrow> lowbit (fs ! Suc i) < fbit fs i"
    by (simp_all add: fbit_def)
  with m assms(2) fbit_nonneg [of fs i]
  show "fbit (fsplit fs i) i = fbit fs i + 1" "fbit (fsplit fs i) (Suc i) = fbit fs i + 1"
    unfolding fbit_def [of "fsplit fs i"]
    by (auto simp add: length_fsplit nth_fsplit max_def)
  show "ftop (fsplit fs i) i = be_val (fmid fs i)" "ftop (fsplit fs i) (Suc i) = ftop fs i"
    using assms(2) by (simp_all add: ftop_def length_fsplit nth_fsplit)
qed

lemma shape_split:
  assumes "shape_ok fs" "i < length fs" "fbit fs i < 160"
  shows "shape_ok (fsplit fs i)"
proof -
  let ?g = "fsplit fs i"
  note mid = fmid_props [OF assms] and half = fsplit_halves [OF assms]
  have ok: "id_ok (fs ! j)" "fbit fs j \<le> 160" "ftop fs j = be_val (fs ! j) + 2 ^ (160 - nat (fbit fs j))"
    if "j < length fs" for j using assms(1) that by (auto simp: shape_ok_def)
  have e: "160 - nat (fbit fs i + 1) = 159 - nat (fbit fs i)" using fbit_nonneg [of fs i] by simp
  have "id_ok (?g ! j) \<and> fbit ?g j \<le> 160 \<and> ftop ?g j = be_val (?g ! j) + 2 ^ (160 - nat (fbit ?g j))"
    if j: "j < Suc (length fs)" for j
  proof -
    consider "j < i" | "j = i" | "j = Suc i" | k where "j = Suc k" "i < k" by (cases j) force+
    then show ?thesis
    proof cases
      case 1
      with ok [of j] assms(2) show ?thesis by (simp add: nth_fsplit fsplit_below)
    next
      case 2
      with ok [of i] assms(2,3) mid(3) half(1,3) e show ?thesis by (simp add: nth_fsplit)
    next
      case 3
      with assms(2,3) mid(1,6) half(2,4) e show ?thesis by (simp add: nth_fsplit)
    next
      case 4
      with ok [of k] assms(2) j show ?thesis by (simp add: nth_fsplit fsplit_above)
    qed
  qed
  moreover have "hd ?g = zeroes" using assms(1) by (cases fs) (simp_all add: shape_ok_def fsplit_def)
  moreover have "?g \<noteq> []" by (simp add: fsplit_def)
  ultimately show ?thesis using assms(2) by (simp add: shape_ok_def length_fsplit)
qed

text \<open>Which half an identifier of the split bucket falls into; other buckets keep theirs.\<close>

lemma frange_split:
  assumes "shape_ok fs" "i < length fs" "fbit fs i < 160"
  shows "frange (fsplit fs i) i ident \<longleftrightarrow> frange fs i ident \<and> be_val ident < be_val (fmid fs i)"
    and "frange (fsplit fs i) (Suc i) ident \<longleftrightarrow> frange fs i ident \<and> be_val (fmid fs i) \<le> be_val ident"
    and "j < i \<Longrightarrow> frange (fsplit fs i) j ident = frange fs j ident"
    and "i < j \<Longrightarrow> j < length fs \<Longrightarrow> frange (fsplit fs i) (Suc j) ident = frange fs j ident"
  using fsplit_halves [OF assms] fmid_props(4,5) [OF assms] assms(2)
  by (auto simp: frange_def nth_fsplit fsplit_below fsplit_above)

lemma shape_initial: "shape_ok [zeroes]"
proof -
  have "lowbit zeroes = -1"
  proof (cases zeroes rule: lowbit_cases)
    case (bit k)
    then have "k div 8 < 20" by auto
    then have "\<not> id_bit zeroes k" by (simp add: id_bit_def zeroes_def)
    with bit show ?thesis by blast
  qed
  then show ?thesis by (simp add: shape_ok_def fbit_def ftop_def)
qed

text \<open>A range of one identifier holds one identifier.\<close>

lemma frange_single:
  assumes "shape_ok fs" "i < length fs" "160 \<le> fbit fs i" "id_ok a" "id_ok b"
    and "frange fs i a" "frange fs i b"
  shows "a = b"
proof -
  have "fbit fs i = 160" using assms(1-3) by (fastforce simp: shape_ok_def)
  then have "ftop fs i = be_val (fs ! i) + 1" using assms(1,2) by (simp add: shape_ok_def)
  then have "be_val a = be_val b" using assms(6,7) by (simp add: frange_def)
  then show ?thesis using assms(4,5) by (simp add: be_val_inj)
qed

end
