(* ===== verification/Dht_Routing.thy ===== *)
theory Dht_Routing
  imports Dht_Shape
begin

text \<open>
  The invariant of the routing table and that every operation of \<^verbatim>\<open>dht/dht.c\<close> on it keeps
  the invariant; that learning about a node ends, crashes nowhere, evicts bad nodes only and
  makes the node findable.
\<close>

section \<open>The invariant\<close>

definition node_ok :: "nat \<Rightarrow> byte list \<Rightarrow> node \<Rightarrow> bool" where
  "node_ok af me n \<longleftrightarrow>
     id_ok (n_id n) \<and> n_id n \<noteq> me \<and> sa_family (n_ss n) = af \<and> sa_ok (n_ss n) \<and> n_sslen n \<noteq> 0"

definition nodes_ok :: "nat \<Rightarrow> byte list \<Rightarrow> byte list list \<Rightarrow> nat \<Rightarrow> node list \<Rightarrow> bool" where
  "nodes_ok af me fs i ns \<longleftrightarrow> length ns \<le> 8 \<and> distinct (map n_id ns) \<and>
     (\<forall>n \<in> set ns. node_ok af me n \<and> frange fs i (n_id n))"

definition bucket_ok :: "nat \<Rightarrow> byte list \<Rightarrow> byte list list \<Rightarrow> nat \<Rightarrow> bucket \<Rightarrow> bool" where
  "bucket_ok af me fs i b \<longleftrightarrow> b_af b = af \<and> b_count b = int (length (b_nodes b)) \<and>
     (sa_family (b_cached b) \<noteq> 0 \<longrightarrow> b_cachedlen b \<noteq> 0) \<and> nodes_ok af me fs i (b_nodes b)"

definition table_ok :: "nat \<Rightarrow> byte list \<Rightarrow> bucket list \<Rightarrow> bool" where
  "table_ok af me bs \<longleftrightarrow> bs = [] \<or>
     (shape_ok (firsts bs) \<and> (\<forall>i < length bs. bucket_ok af me (firsts bs) i (bs ! i)))"

definition tables_ok :: "dht \<Rightarrow> bool" where
  "tables_ok s \<longleftrightarrow> id_ok (myid s) \<and> table_ok AF_INET (myid s) (buckets s) \<and>
     table_ok AF_INET6 (myid s) (buckets6 s)"

definition family_ok :: "nat \<Rightarrow> bool" where
  "family_ok af \<longleftrightarrow> af = AF_INET \<or> af = AF_INET6"

lemma tables_ok_table: "tables_ok s \<Longrightarrow> family_ok af \<Longrightarrow> table_ok af (myid s) (table af s)"
  by (auto simp: tables_ok_def family_ok_def table_def AF_INET_def AF_INET6_def)

lemma table_ok_shape: "table_ok af me bs \<Longrightarrow> i < length bs \<Longrightarrow> shape_ok (firsts bs)"
  by (auto simp: table_ok_def)

lemma table_ok_bucket: "table_ok af me bs \<Longrightarrow> i < length bs \<Longrightarrow> bucket_ok af me (firsts bs) i (bs ! i)"
  by (auto simp: table_ok_def)

lemma table_ok_upd:
  assumes "table_ok af me bs" "i < length bs"
    and "b_first b = b_first (bs ! i)" "bucket_ok af me (firsts bs) i b"
  shows "table_ok af me (bs[i := b])"
proof -
  have "bucket_ok af me (firsts bs) k (bs[i := b] ! k)" if "k < length bs" for k
    using that assms(1,2,4) by (cases "k = i") (auto simp: table_ok_bucket)
  moreover have "shape_ok (firsts bs)" using assms(1,2) by (rule table_ok_shape)
  ultimately show ?thesis using assms(3) by (simp add: table_ok_def firsts_upd)
qed

lemma nodes_ok_upd:
  assumes "nodes_ok af me fs i ns" "j < length ns" "n_id n = n_id (ns ! j)"
    and "sa_family (n_ss n) = af" "n_sslen n = n_sslen (ns ! j)" "sa_ok (n_ss n)"
  shows "nodes_ok af me fs i (ns[j := n])"
proof -
  have "map n_id (ns[j := n]) = map n_id ns"
    using assms(2,3) by (simp add: map_update list_update_same_conv)
  moreover have "node_ok af me n \<and> frange fs i (n_id n)"
    using assms nth_mem [OF assms(2)] by (auto simp: nodes_ok_def node_ok_def)
  ultimately show ?thesis
    using assms(1) set_update_subset_insert [of ns j n] by (auto simp: nodes_ok_def)
qed

section \<open>Where the operations act\<close>

lemma table_set_table [simp]:
  "table af (set_table af' bs s) = (if (af = AF_INET) = (af' = AF_INET) then bs else table af s)"
  by (auto simp: table_def set_table_def)

lemma set_table_same [simp]: "set_table af bs (set_table af bs' s) = set_table af bs s"
  by (simp add: set_table_def)

text \<open>The state apart from what the operations on the table may change.\<close>

definition outside :: "dht \<Rightarrow> dht" where
  "outside s = s\<lparr>buckets := [], buckets6 := [], sent := [], env_random := (\<lambda>_. 0),
     env_calloc := (\<lambda>_. True), mybucket_grow_time := 0, mybucket6_grow_time := 0,
     expire_stuff_time := 0\<rparr>"

definition frame :: "nat \<Rightarrow> dht \<Rightarrow> dht \<Rightarrow> bool" where
  "frame af s s' \<longleftrightarrow> outside s' = outside s \<and>
     (\<forall>a. (a = AF_INET) \<noteq> (af = AF_INET) \<longrightarrow> table a s' = table a s) \<and>
     ((\<forall>k. env_calloc s k) \<longrightarrow> (\<forall>k. env_calloc s' k))"

lemma frame_refl [simp]: "frame af s s"
  by (simp add: frame_def)

lemma frame_trans: "frame af s s' \<Longrightarrow> frame af s' s'' \<Longrightarrow> frame af s s''"
  by (simp add: frame_def)

lemma outside_eq:
  assumes "outside s' = outside s"
  shows "myid s' = myid s" "died s' = died s" "now_sec s' = now_sec s" "env_depth s' = env_depth s"
    "searches s' = searches s" "storages s' = storages s" "blacklist s' = blacklist s"
    "next_blacklisted s' = next_blacklisted s" "have_v s' = have_v s" "my_v s' = my_v s"
    "dht_socket s' = dht_socket s" "dht_socket6 s' = dht_socket6 s" "numstorage s' = numstorage s"
    "numsearches s' = numsearches s" "events s' = events s" "secret s' = secret s"
    "oldsecret s' = oldsecret s"
  using arg_cong [OF assms, of myid] arg_cong [OF assms, of died] arg_cong [OF assms, of now_sec]
    arg_cong [OF assms, of env_depth] arg_cong [OF assms, of searches] arg_cong [OF assms, of storages]
    arg_cong [OF assms, of blacklist] arg_cong [OF assms, of next_blacklisted]
    arg_cong [OF assms, of have_v] arg_cong [OF assms, of my_v] arg_cong [OF assms, of dht_socket]
    arg_cong [OF assms, of dht_socket6] arg_cong [OF assms, of numstorage]
    arg_cong [OF assms, of numsearches] arg_cong [OF assms, of events]
    arg_cong [OF assms, of secret] arg_cong [OF assms, of oldsecret]
  by (simp_all add: outside_def)

lemma frame_eq:
  assumes "frame af s s'"
  shows "myid s' = myid s" "died s' = died s" "now_sec s' = now_sec s" "env_depth s' = env_depth s"
    "searches s' = searches s"
  using outside_eq [of s' s] assms by (simp_all add: frame_def)

lemma frame_set_table: "frame af s (set_table af bs s)"
  by (auto simp: frame_def outside_def set_table_def table_def)

lemma frame_upd_bucket: "frame af s (upd_bucket af i f s)"
  by (simp add: upd_bucket_def frame_set_table)

lemma frame_upd_node: "frame af s (upd_node af i j f s)"
  by (simp add: upd_node_def frame_upd_bucket)

lemma frame_sent: "frame af s (s\<lparr>sent := x\<rparr>)"
  by (simp add: frame_def outside_def table_def)

lemma frame_random: "random s = (r, s') \<Longrightarrow> frame af s s' \<and> table af s' = table af s"
  by (auto simp: random_def frame_def outside_def table_def)

lemma frame_calloc: "calloc s = (ok, s') \<Longrightarrow> frame af s s' \<and> table af s' = table af s"
  by (auto simp: calloc_def frame_def outside_def table_def)

lemma frame_grow:
  "frame af s (s\<lparr>mybucket_grow_time := x\<rparr>)" "frame af s (s\<lparr>mybucket6_grow_time := x\<rparr>)"
  "table af (s\<lparr>mybucket_grow_time := x\<rparr>) = table af s"
  "table af (s\<lparr>mybucket6_grow_time := x\<rparr>) = table af s"
  by (simp_all add: frame_def outside_def table_def)

lemma tables_ok_frame:
  assumes "tables_ok s" "frame af s s'" "family_ok af" "table_ok af (myid s) (table af s')"
  shows "tables_ok s'"
proof -
  have other: "table a s' = table a s" if "(a = AF_INET) \<noteq> (af = AF_INET)" for a
    using assms(2) that by (auto simp: frame_def)
  have "myid s' = myid s" using assms(2) by (rule frame_eq)
  with assms(1,3,4) other [of AF_INET] other [of AF_INET6] show ?thesis
    by (auto simp: tables_ok_def family_ok_def table_def AF_INET_def AF_INET6_def split: if_splits)
qed

text \<open>Sending changes the list of sent datagrams and, for the length 0, aborts.\<close>

lemma dht_send_sent:
  assumes "salen \<noteq> 0"
  shows "\<exists>x. snd (dht_send m fl sa salen s) = s\<lparr>sent := x\<rparr>"
proof -
  have "s = s\<lparr>sent := sent s\<rparr>" by simp
  then have "\<exists>x. s = s\<lparr>sent := x\<rparr>" by (rule exI)
  moreover have "\<And>y. \<exists>x. s\<lparr>sent := y\<rparr> = s\<lparr>sent := x\<rparr>" by blast
  ultimately show ?thesis using assms by (simp add: dht_send_def Let_def)
qed

lemma send_or_fail_sent:
  assumes "salen \<noteq> 0"
  obtains x where "snd (send_or_fail m fl sa salen s) = s\<lparr>sent := x\<rparr>"
proof (cases m)
  case None
  then have "snd (send_or_fail m fl sa salen s) = s\<lparr>sent := sent s\<rparr>" by (simp add: send_or_fail_def)
  then show thesis by (rule that)
next
  case (Some b)
  with dht_send_sent [OF assms, of b fl sa s] that show thesis by (auto simp: send_or_fail_def)
qed

lemma send_ping_sent:
  assumes "salen \<noteq> 0"
  obtains x where "snd (send_ping sa salen tid s) = s\<lparr>sent := x\<rparr>"
  using send_or_fail_sent [OF assms, of "ping_msg s tid" False sa s] by (auto simp: send_ping_def)

lemma table_sent [simp]: "table af (s\<lparr>sent := x\<rparr>) = table af s"
  by (simp add: table_def)

lemma table_upd_bucket [simp]:
  "table af (upd_bucket af i f s) = (table af s)[i := f (table af s ! i)]"
  by (simp add: upd_bucket_def)

lemma table_upd_node:
  "table af (upd_node af i j f s) =
    (table af s)[i := (table af s ! i)\<lparr>b_nodes := (b_nodes (table af s ! i))[j := f (b_nodes (table af s ! i) ! j)]\<rparr>]"
  by (simp add: upd_node_def)

lemma send_cached_ping_table:
  assumes "table_ok af me (table af s)" "i < length (table af s)"
  shows "frame af s (snd (send_cached_ping af i s))"
    and "\<exists>c l. table af (snd (send_cached_ping af i s)) =
      (table af s)[i := (table af s ! i)\<lparr>b_cached := c, b_cachedlen := l\<rparr>]"
    and "table_ok af me (table af (snd (send_cached_ping af i s)))"
proof -
  let ?b = "table af s ! i" and ?s = "snd (send_cached_ping af i s)"
  have b: "bucket_ok af me (firsts (table af s)) i ?b" using assms by (rule table_ok_bucket)
  have "?b = ?b\<lparr>b_cached := b_cached ?b, b_cachedlen := b_cachedlen ?b\<rparr>" by simp
  then have same: "\<exists>c l. table af s = (table af s)[i := ?b\<lparr>b_cached := c, b_cachedlen := l\<rparr>]"
    by (metis list_update_id)
  show f: "frame af s ?s" and t: "\<exists>c l. table af ?s = (table af s)[i := ?b\<lparr>b_cached := c, b_cachedlen := l\<rparr>]"
    and "table_ok af me (table af ?s)"
  proof (atomize(full), cases "sa_family (b_cached ?b) = 0")
    case True
    then have "?s = s" by (simp add: send_cached_ping_def)
    with same assms(1) show "frame af s ?s \<and> (\<exists>c l. table af ?s =
        (table af s)[i := ?b\<lparr>b_cached := c, b_cachedlen := l\<rparr>]) \<and> table_ok af me (table af ?s)"
      by simp
  next
    case False
    with b have "b_cachedlen ?b \<noteq> 0" by (simp add: bucket_ok_def)
    then obtain x where x: "snd (send_ping (b_cached ?b) (b_cachedlen ?b) (make_tid ''pn'' 0) s) = s\<lparr>sent := x\<rparr>"
      by (rule send_ping_sent)
    let ?f = "\<lambda>b. b\<lparr>b_cached := (b_cached b)\<lparr>sa_family := 0\<rparr>, b_cachedlen := 0\<rparr>"
    have s: "?s = upd_bucket af i ?f (s\<lparr>sent := x\<rparr>)"
      using False x by (simp add: send_cached_ping_def Let_def case_prod_beta)
    have "frame af s ?s"
      unfolding s using frame_sent frame_upd_bucket by (rule frame_trans)
    moreover have "table af ?s = (table af s)[i := ?f ?b]" by (simp add: s)
    moreover have "table_ok af me ((table af s)[i := ?f ?b])"
      using assms b by (intro table_ok_upd) (simp_all add: bucket_ok_def)
    ultimately show "frame af s ?s \<and> (\<exists>c l. table af ?s =
        (table af s)[i := ?b\<lparr>b_cached := c, b_cachedlen := l\<rparr>]) \<and> table_ok af me (table af ?s)"
      by auto
  qed
qed

section \<open>Splitting a bucket\<close>

definition in_table :: "bucket list \<Rightarrow> node \<Rightarrow> bool" where
  "in_table bs n \<longleftrightarrow> (\<exists>b \<in> set bs. n \<in> set (b_nodes b))"

lemma in_table_nth: "in_table bs n \<longleftrightarrow> (\<exists>i < length bs. n \<in> set (b_nodes (bs ! i)))"
  unfolding in_table_def by (metis in_set_conv_nth)

lemma in_table_append [simp]: "in_table (xs @ ys) n \<longleftrightarrow> in_table xs n \<or> in_table ys n"
  by (auto simp: in_table_def)

lemma in_table_Cons [simp]: "in_table (b # bs) n \<longleftrightarrow> n \<in> set (b_nodes b) \<or> in_table bs n"
  by (auto simp: in_table_def)

lemma in_table_Nil [simp]: "\<not> in_table [] n"
  by (simp add: in_table_def)

lemma upd_bucket_set_table: "upd_bucket af i f (set_table af bs s) = set_table af (bs[i := f (bs ! i)]) s"
  by (simp add: upd_bucket_def)

lemma set_table_table [simp]: "set_table af (table af s) s = s"
  by (simp add: set_table_def table_def)

definition add_nodes :: "node list \<Rightarrow> bucket \<Rightarrow> bucket" where
  "add_nodes ns b = b\<lparr>b_nodes := rev ns @ b_nodes b, b_count := b_count b + int (length ns)\<rparr>"

lemma add_nodes_simps [simp]:
  "b_first (add_nodes ns b) = b_first b" "b_nodes (add_nodes ns b) = rev ns @ b_nodes b"
  "b_count (add_nodes ns b) = b_count b + int (length ns)" "b_af (add_nodes ns b) = b_af b"
  "b_cached (add_nodes ns b) = b_cached b" "b_cachedlen (add_nodes ns b) = b_cachedlen b"
  "add_nodes [] b = b"
  by (simp_all add: add_nodes_def)

lemma add_nodes_add: "add_nodes ns (add_nodes [n] b) = add_nodes (n # ns) b"
  by (simp add: add_nodes_def)

lemma insert_node_eq:
  assumes "sa_family (n_ss n) = af" "bs \<noteq> []" "find_bucket_loop (n_id n) bs 0 = k"
  shows "snd (insert_node n (set_table af bs s)) = set_table af (bs[k := add_nodes [n] (bs ! k)]) s"
  using assms by (simp add: insert_node_def find_bucket_def upd_bucket_set_table add_nodes_def Let_def)

lemma insert_nodes_split:
  fixes L R :: "bucket list" and b c :: bucket
  assumes "shape_ok (firsts (L @ b # c # R))"
    and "\<forall>n \<in> set ns. sa_family (n_ss n) = af \<and> id_ok (n_id n) \<and>
      (frange (firsts (L @ b # c # R)) (length L) (n_id n) \<or>
       frange (firsts (L @ b # c # R)) (Suc (length L)) (n_id n))"
  shows "fold (\<lambda>n s. snd (insert_node n s)) ns (set_table af (L @ b # c # R) s) =
    set_table af (L @
      add_nodes (filter (\<lambda>n. frange (firsts (L @ b # c # R)) (length L) (n_id n)) ns) b #
      add_nodes (filter (\<lambda>n. \<not> frange (firsts (L @ b # c # R)) (length L) (n_id n)) ns) c # R) s"
  using assms
proof (induction ns arbitrary: b c)
  case (Cons n ns)
  let ?bs = "L @ b # c # R" and ?i = "length L"
  let ?fs = "firsts ?bs"
  have n: "sa_family (n_ss n) = af" "id_ok (n_id n)" using Cons.prems(2) by auto
  show ?case
  proof (cases "frange ?fs ?i (n_id n)")
    case True
    then have "find_bucket_loop (n_id n) ?bs 0 = ?i"
      using Cons.prems(1) n(2) by (intro find_bucket_unique) simp_all
    then have "snd (insert_node n (set_table af ?bs s)) = set_table af (L @ add_nodes [n] b # c # R) s"
      using n(1) insert_node_eq [of n af ?bs ?i s] by simp
    moreover have "firsts (L @ add_nodes [n] b # c # R) = ?fs" by (simp add: firsts_def)
    ultimately show ?thesis
      using Cons.IH [of "add_nodes [n] b" c] Cons.prems True by (simp add: add_nodes_add)
  next
    case False
    then have "frange ?fs (Suc ?i) (n_id n)" using Cons.prems(2) by simp
    then have "find_bucket_loop (n_id n) ?bs 0 = Suc ?i"
      using Cons.prems(1) n(2) by (intro find_bucket_unique) simp_all
    then have "snd (insert_node n (set_table af ?bs s)) = set_table af (L @ b # add_nodes [n] c # R) s"
      using n(1) insert_node_eq [of n af ?bs "Suc ?i" s] by (simp add: nth_append list_update_append)
    moreover have "firsts (L @ b # add_nodes [n] c # R) = ?fs" by (simp add: firsts_def)
    ultimately show ?thesis
      using Cons.IH [of b "add_nodes [n] c"] Cons.prems False by (simp add: add_nodes_add)
  qed
qed simp

lemma nodes_ok_filter:
  assumes "nodes_ok af me fs i ns" "\<And>n. n \<in> set ns \<Longrightarrow> P n \<Longrightarrow> frange gs k (n_id n)"
  shows "nodes_ok af me gs k (rev (filter P ns))"
  using assms
  by (auto simp: nodes_ok_def distinct_map rev_map [symmetric] inj_on_def
      intro: le_trans [OF length_filter_le])

lemma split_at_bucket:
  assumes "i < length bs"
  shows "bs = take i bs @ bs ! i # drop (Suc i) bs"
  using assms by (simp add: id_take_nth_drop)

lemma table_ok_split:
  assumes "table_ok af me bs" "i < length bs" "fbit (firsts bs) i < 160"
    and "b_first c = fmid (firsts bs) i" "b_af c = af" "b_nodes c = []" "b_count c = 0"
    and "sa_family (b_cached c) = 0"
    and "bs' = take i bs @ (bs ! i)\<lparr>b_nodes := [], b_count := 0\<rparr> # c # drop (Suc i) bs"
    and "s' = fold (\<lambda>n s. snd (insert_node n s)) (b_nodes (bs ! i)) (set_table af bs' s)"
  shows "firsts (table af s') = fsplit (firsts bs) i" and "table_ok af me (table af s')"
    and "in_table (table af s') n = in_table bs n" and "frame af s s'"
proof -
  let ?b = "bs ! i" and ?fs = "firsts bs" and ?L = "take i bs" and ?R = "drop (Suc i) bs"
  let ?e = "?b\<lparr>b_nodes := [], b_count := 0\<rparr>"
  have sh: "shape_ok ?fs" using assms(1,2) by (rule table_ok_shape)
  have i: "length ?L = i" using assms(2) by simp
  have fs': "firsts bs' = fsplit ?fs i"
    using assms(2,4) by (simp add: assms(9) firsts_def fsplit_def take_map drop_map take_Suc_conv_app_nth)
  have sh': "shape_ok (firsts bs')" unfolding fs' using shape_split [OF sh] assms(2,3) by simp
  note fr = frange_split [OF sh, of i, simplified, OF assms(2,3)]
  have b: "bucket_ok af me ?fs i ?b" using assms(1,2) by (rule table_ok_bucket)
  then have nok: "nodes_ok af me ?fs i (b_nodes ?b)" by (simp add: bucket_ok_def)
  then have each: "sa_family (n_ss n) = af \<and> id_ok (n_id n) \<and> frange ?fs i (n_id n)"
    if "n \<in> set (b_nodes ?b)" for n
    using that by (auto simp: nodes_ok_def node_ok_def)
  let ?P = "\<lambda>n. frange (fsplit ?fs i) i (n_id n)"
  define lo hi where "lo = filter ?P (b_nodes ?b)" and "hi = filter (\<lambda>n. \<not> ?P n) (b_nodes ?b)"
  have s': "s' = set_table af (?L @ add_nodes lo ?e # add_nodes hi c # ?R) s"
    using insert_nodes_split [of ?L ?e c ?R "b_nodes ?b" af s] sh' each fr(1,2)
    unfolding assms(10) assms(9) [symmetric] fs' i lo_def hi_def
    by (metis (no_types, lifting) not_le)
  then have t': "table af s' = ?L @ add_nodes lo ?e # add_nodes hi c # ?R" by simp
  show "frame af s s'" unfolding s' by (rule frame_set_table)
  show "in_table (table af s') n = in_table bs n"
    using arg_cong [OF split_at_bucket [OF assms(2)], of "\<lambda>bs. in_table bs n"]
    by (auto simp: t' assms(6) lo_def hi_def)
  have "firsts (table af s') = firsts bs'" by (simp add: t' assms(9) firsts_def)
  then show f': "firsts (table af s') = fsplit ?fs i" by (simp add: fs')
  have "nodes_ok af me (fsplit ?fs i) i (rev lo)"
    unfolding lo_def using nok by (rule nodes_ok_filter)
  moreover have "nodes_ok af me (fsplit ?fs i) (Suc i) (rev hi)"
    unfolding hi_def using nok by (rule nodes_ok_filter) (use each fr(1,2) in auto)
  ultimately have halves: "bucket_ok af me (fsplit ?fs i) i (add_nodes lo ?e)"
    "bucket_ok af me (fsplit ?fs i) (Suc i) (add_nodes hi c)"
    using b assms(5-8) by (simp_all add: bucket_ok_def)
  have "bucket_ok af me (fsplit ?fs i) j (table af s' ! j)" if "j < length (table af s')" for j
  proof -
    have keep: "bucket_ok af me (fsplit ?fs i) k' (bs ! k)"
      if "k < length bs" "\<And>x. frange (fsplit ?fs i) k' x = frange ?fs k x" for k k'
      using table_ok_bucket [OF assms(1) that(1)] that(2) by (simp add: bucket_ok_def nodes_ok_def)
    consider "j < i" | "j = i" | "j = Suc i" | k where "j = Suc k" "i < k" by (cases j) force+
    then show ?thesis
    proof cases
      case 1
      with keep [of j j] fr(3) assms(2) show ?thesis by (simp add: t' nth_append)
    next
      case 4
      with keep [of k j] fr(4) assms(2) that show ?thesis
        by (simp add: t' nth_append nth_Cons' i)
    qed (use halves i assms(2) in \<open>simp_all add: t' nth_append\<close>)
  qed
  then show "table_ok af me (table af s')"
    using sh' fs' f' by (simp add: table_ok_def)
qed

lemma split_bucket_spec:
  assumes "table_ok af me (table af s)" "i < length (table af s)"
    and "fbit (firsts (table af s)) i < 160" "\<forall>k. env_calloc s k"
    and "s' = snd (split_bucket af i s)"
  shows "frame af s s'" and "table_ok af me (table af s')"
    and "firsts (table af s') = fsplit (firsts (table af s)) i"
    and "in_table (table af s') n = in_table (table af s) n"
proof -
  let ?t = "table af s" and ?i = i
  obtain s1 where c: "calloc s = (True, s1)" using assms(4) by (simp add: calloc_def)
  have s1: "frame af s s1" "table af s1 = ?t" using frame_calloc [OF c] by auto
  define s2 where "s2 = snd (send_cached_ping af i s1)"
  have s2: "frame af s1 s2" "table_ok af me (table af s2)"
    "\<exists>c l. table af s2 = ?t[i := (?t ! i)\<lparr>b_cached := c, b_cachedlen := l\<rparr>]"
    using send_cached_ping_table [of af me s1 i] assms(1,2) s1(2) by (simp_all add: s2_def)
  then obtain c l where t2: "table af s2 = ?t[i := (?t ! i)\<lparr>b_cached := c, b_cachedlen := l\<rparr>]" by blast
  let ?b = "table af s2 ! i"
  have f2: "firsts (table af s2) = firsts ?t" using t2 by (simp add: firsts_upd)
  have l2: "i < length (table af s2)" using t2 assms(2) by simp
  have af: "b_af ?b = af" using table_ok_bucket [OF s2(2) l2] by (simp add: bucket_ok_def)
  define new where "new = \<lparr>b_af = b_af ?b, b_first = fmid (firsts ?t) i, b_count = 0, b_time = b_time ?b,
    b_nodes = [], b_cached = no_sockaddr, b_cachedlen = 0\<rparr>"
  define bs' where "bs' = take i (table af s2) @ ?b\<lparr>b_nodes := [], b_count := 0\<rparr> # new #
    drop (Suc i) (table af s2)"
  have "s' = fold (\<lambda>n s. snd (insert_node n s)) (b_nodes ?b) (set_table af bs' s2)"
    using assms(2,3,5) c by (simp add: split_bucket_def bucket_middle_fmid s2_def [symmetric]
        bs'_def new_def Let_def)
  note sp = table_ok_split [OF s2(2) l2, of new bs' s' s2, unfolded f2, OF assms(3) _ _ _ _ _ bs'_def this]
  have n: "b_first new = fmid (firsts ?t) i" "b_af new = af" "b_nodes new = []" "b_count new = 0"
    "sa_family (b_cached new) = 0"
    by (simp_all add: new_def af no_sockaddr_def)
  have "in_table (table af s2) n = in_table ?t n"
    unfolding t2 in_table_nth using assms(2) by (auto simp: nth_list_update split: if_splits)
  then show "frame af s s'" "table_ok af me (table af s')"
    "firsts (table af s') = fsplit (firsts ?t) i" "in_table (table af s') n = in_table ?t n"
    using sp [OF n] frame_trans [OF frame_trans [OF s1(1) s2(1)]] by auto
qed

section \<open>What learning about a node does to the table\<close>

text \<open>A node that will not be replaced: it is not bad, or was pinged a moment ago.\<close>

definition safe_node :: "int \<Rightarrow> node \<Rightarrow> bool" where
  "safe_node now n \<longleftrightarrow> n_pinged n < 3 \<or> now - 15 \<le> n_pinged_time n"

definition id_in :: "byte list \<Rightarrow> bucket list \<Rightarrow> bool" where
  "id_in x bs \<longleftrightarrow> (\<exists>n. in_table bs n \<and> n_id n = x)"

definition evolves :: "int \<Rightarrow> bucket list \<Rightarrow> bucket list \<Rightarrow> bool" where
  "evolves now t t' \<longleftrightarrow>
     (\<forall>n. in_table t n \<longrightarrow> safe_node now n \<longrightarrow> (\<exists>n'. in_table t' n' \<and> n_id n' = n_id n \<and> safe_node now n')) \<and>
     (\<forall>n. in_table t' n \<longrightarrow> id_in (n_id n) t)"

definition learns :: "byte list \<Rightarrow> int \<Rightarrow> bucket list \<Rightarrow> bucket list \<Rightarrow> bool" where
  "learns x now t t' \<longleftrightarrow>
     (\<forall>n. in_table t n \<longrightarrow> safe_node now n \<longrightarrow> id_in (n_id n) t') \<and>
     (\<forall>n. in_table t' n \<longrightarrow> n_id n = x \<or> id_in (n_id n) t)"

lemma evolves_refl [simp]: "evolves now t t"
  by (auto simp: evolves_def id_in_def)

lemma evolves_trans: "evolves now t t' \<Longrightarrow> evolves now t' t'' \<Longrightarrow> evolves now t t''"
  unfolding evolves_def id_in_def by metis

lemma evolves_learns: "evolves now t t' \<Longrightarrow> learns x now t t'"
  unfolding evolves_def learns_def id_in_def by metis

lemma learns_trans: "evolves now t t' \<Longrightarrow> learns x now t' t'' \<Longrightarrow> learns x now t t''"
  unfolding evolves_def learns_def id_in_def by metis

lemma in_table_upd:
  assumes "i < length t"
  shows "in_table (t[i := b]) n \<longleftrightarrow>
    n \<in> set (b_nodes b) \<or> (\<exists>k < length t. k \<noteq> i \<and> n \<in> set (b_nodes (t ! k)))"
  unfolding in_table_nth using assms by (auto simp: nth_list_update)

lemma in_table_old:
  assumes "i < length t"
  shows "in_table t n \<longleftrightarrow>
    n \<in> set (b_nodes (t ! i)) \<or> (\<exists>k < length t. k \<noteq> i \<and> n \<in> set (b_nodes (t ! k)))"
  using in_table_upd [OF assms, of "t ! i" n] by simp

lemma evolves_upd:
  assumes "i < length t"
    and "\<forall>n \<in> set (b_nodes (t ! i)). safe_node now n \<longrightarrow>
      (\<exists>n' \<in> set (b_nodes b). n_id n' = n_id n \<and> safe_node now n')"
    and "\<forall>n \<in> set (b_nodes b). n_id n \<in> n_id ` set (b_nodes (t ! i))"
  shows "evolves now t (t[i := b])"
proof -
  have "\<exists>n'. in_table (t[i := b]) n' \<and> n_id n' = n_id n \<and> safe_node now n'"
    if "in_table t n" "safe_node now n" for n
    using that assms(2) in_table_old [OF assms(1), of n] in_table_upd [OF assms(1), of b] by blast
  moreover have "id_in (n_id n) t" if n: "in_table (t[i := b]) n" for n
  proof (cases "n \<in> set (b_nodes b)")
    case True
    then obtain n' where "n' \<in> set (b_nodes (t ! i))" "n_id n' = n_id n" using assms(3) by force
    then show ?thesis unfolding id_in_def in_table_old [OF assms(1)] by blast
  next
    case False
    with n show ?thesis unfolding id_in_def in_table_upd [OF assms(1)] in_table_old [OF assms(1)] by blast
  qed
  ultimately show ?thesis unfolding evolves_def by blast
qed

lemma learns_upd:
  assumes "i < length t"
    and "\<forall>n \<in> set (b_nodes (t ! i)). safe_node now n \<longrightarrow> n_id n \<in> n_id ` set (b_nodes b)"
    and "\<forall>n \<in> set (b_nodes b). n_id n = x \<or> n_id n \<in> n_id ` set (b_nodes (t ! i))"
  shows "learns x now t (t[i := b])"
proof -
  have "id_in (n_id n) (t[i := b])" if n: "in_table t n" "safe_node now n" for n
  proof (cases "n \<in> set (b_nodes (t ! i))")
    case True
    then obtain n' where "n' \<in> set (b_nodes b)" "n_id n' = n_id n" using assms(2) n(2) by force
    then show ?thesis unfolding id_in_def in_table_upd [OF assms(1)] by blast
  next
    case False
    with n(1) show ?thesis unfolding id_in_def in_table_upd [OF assms(1)] in_table_old [OF assms(1)] by blast
  qed
  moreover have "n_id n = x \<or> id_in (n_id n) t" if n: "in_table (t[i := b]) n" for n
  proof (cases "n \<in> set (b_nodes b) \<and> n_id n \<noteq> x")
    case True
    then obtain n' where "n' \<in> set (b_nodes (t ! i))" "n_id n' = n_id n" using assms(3) by force
    then show ?thesis unfolding id_in_def in_table_old [OF assms(1)] by blast
  next
    case False
    with n show ?thesis unfolding id_in_def in_table_upd [OF assms(1)] in_table_old [OF assms(1)] by blast
  qed
  ultimately show ?thesis unfolding learns_def by blast
qed

text \<open>A step that keeps the ranges, the invariant and the safe nodes.\<close>

definition step :: "nat \<Rightarrow> dht \<Rightarrow> dht \<Rightarrow> bool" where
  "step af s s' \<longleftrightarrow> frame af s s' \<and> table_ok af (myid s) (table af s') \<and>
     firsts (table af s') = firsts (table af s) \<and> evolves (now_sec s) (table af s) (table af s')"

lemma step_trans:
  assumes "step af s s'" "step af s' s''"
  shows "step af s s''"
proof -
  have f: "frame af s s'" using assms(1) by (simp add: step_def)
  with assms frame_eq(1,3) [OF f] frame_trans [OF f, of s'']
    evolves_trans [of "now_sec s" "table af s" "table af s'" "table af s''"]
  show ?thesis by (simp add: step_def)
qed

lemma step_same_table:
  "table_ok af (myid s) (table af s) \<Longrightarrow> frame af s s' \<Longrightarrow> table af s' = table af s \<Longrightarrow> step af s s'"
  by (simp add: step_def)

lemma step_length: "step af s s' \<Longrightarrow> length (table af s') = length (table af s)"
  unfolding step_def by (metis length_firsts)

definition found_at :: "nat \<Rightarrow> byte list \<Rightarrow> (nat \<times> nat) option \<Rightarrow> dht \<Rightarrow> bool" where
  "found_at af x r s \<longleftrightarrow> (case r of None \<Rightarrow> True | Some (i, j) \<Rightarrow>
     i < length (table af s) \<and> j < length (b_nodes (table af s ! i)) \<and> n_id (the_node af i j s) = x)"

definition learned :: "nat \<Rightarrow> byte list \<Rightarrow> dht \<Rightarrow> (nat \<times> nat) option \<times> dht \<Rightarrow> bool" where
  "learned af x s q \<longleftrightarrow> frame af s (snd q) \<and> table_ok af (myid s) (table af (snd q)) \<and>
     learns x (now_sec s) (table af s) (table af (snd q)) \<and> found_at af x (fst q) (snd q)"

lemma learned_step:
  assumes "step af s s'" "learned af x s' q"
  shows "learned af x s q"
proof -
  have f: "frame af s s'" using assms(1) by (simp add: step_def)
  with assms frame_eq(1,3) [OF f] frame_trans [OF f, of "snd q"]
    learns_trans [of "now_sec s" "table af s" "table af s'" x "table af (snd q)"]
  show ?thesis by (simp add: step_def learned_def)
qed

lemma learned_nothing:
  assumes "step af s s'"
  shows "learned af x s (None, s')"
proof -
  have "learned af x s' (None, s')"
    using assms frame_eq [of af s s'] by (simp add: step_def learned_def found_at_def evolves_learns)
  with assms show ?thesis by (rule learned_step)
qed

lemma learned_upd:
  assumes "table_ok af (myid s) (table af s)" "i < length (table af s)"
    and "frame af s s'" "table af s' = (table af s)[i := b]"
    and "b_first b = b_first (table af s ! i)" "bucket_ok af (myid s) (firsts (table af s)) i b"
    and "\<forall>n \<in> set (b_nodes (table af s ! i)). safe_node (now_sec s) n \<longrightarrow> n_id n \<in> n_id ` set (b_nodes b)"
    and "\<forall>n \<in> set (b_nodes b). n_id n = x \<or> n_id n \<in> n_id ` set (b_nodes (table af s ! i))"
    and "j < length (b_nodes b)" "n_id (b_nodes b ! j) = x"
  shows "learned af x s (Some (i, j), s')"
  using assms table_ok_upd [OF assms(1,2,5,6)] learns_upd [OF assms(2,7,8)]
  by (simp add: learned_def found_at_def the_node_def)

lemma step_upd:
  assumes "table_ok af (myid s) (table af s)" "i < length (table af s)"
    and "frame af s s'" "table af s' = (table af s)[i := b]"
    and "b_first b = b_first (table af s ! i)" "bucket_ok af (myid s) (firsts (table af s)) i b"
    and "\<forall>n \<in> set (b_nodes (table af s ! i)). safe_node (now_sec s) n \<longrightarrow>
      (\<exists>n' \<in> set (b_nodes b). n_id n' = n_id n \<and> safe_node (now_sec s) n')"
    and "\<forall>n \<in> set (b_nodes b). n_id n \<in> n_id ` set (b_nodes (table af s ! i))"
  shows "step af s s'"
  using assms table_ok_upd [OF assms(1,2,5,6)] evolves_upd [OF assms(2,7,8)]
  by (simp add: step_def firsts_upd)

text \<open>Changing one node of a bucket without touching its identifier.\<close>

lemma set_upd_same:
  assumes "j < length ns" "n_id n = n_id (ns ! j)"
  shows "n_id ` set (ns[j := n]) = n_id ` set ns"
proof -
  have "map n_id (ns[j := n]) = map n_id ns"
    using assms by (simp add: map_update list_update_same_conv)
  then have "set (map n_id (ns[j := n])) = set (map n_id ns)" by (rule arg_cong)
  then show ?thesis by simp
qed

lemma upd_safe:
  assumes "j < length ns" "n_id n = n_id (ns ! j)" "safe_node now n" "m \<in> set ns" "safe_node now m"
  shows "\<exists>n' \<in> set (ns[j := n]). n_id n' = n_id m \<and> safe_node now n'"
proof -
  obtain k where k: "k < length ns" "m = ns ! k" using assms(4) by (auto simp: in_set_conv_nth)
  show ?thesis
  proof (cases "k = j")
    case True
    with assms(1-3) k show ?thesis by (intro bexI [of _ n]) (simp_all add: set_update_memI)
  next
    case False
    then have "ns[j := n] ! k = m" using k by simp
    then have "m \<in> set (ns[j := n])" using k(1) by (metis length_list_update nth_mem)
    with assms(5) show ?thesis by blast
  qed
qed

lemma dubious_loop_less:
  "dubious_loop s ns k d = (d', Some j) \<Longrightarrow> k \<le> j \<and> j < k + length ns"
  by (induction s ns k d rule: dubious_loop.induct) (auto split: if_splits)

lemma ping_dubious_step:
  assumes "table_ok af (myid s) (table af s)" "i < length (table af s)"
  shows "step af s (snd (ping_dubious af i s))"
proof -
  let ?b = "table af s ! i"
  obtain d pick where dl: "dubious_loop s (b_nodes ?b) 0 False = (d, pick)" by fastforce
  show ?thesis
  proof (cases pick)
    case None
    with dl assms(1) show ?thesis by (simp add: ping_dubious_def step_same_table)
  next
    case (Some j)
    then have j: "j < length (b_nodes ?b)" using dl dubious_loop_less by fastforce
    let ?n = "b_nodes ?b ! j"
    have b: "bucket_ok af (myid s) (firsts (table af s)) i ?b" using assms by (rule table_ok_bucket)
    then have nok: "node_ok af (myid s) ?n" using j by (auto simp: bucket_ok_def nodes_ok_def)
    then have "n_sslen ?n \<noteq> 0" by (simp add: node_ok_def)
    then obtain x where x: "snd (send_ping (n_ss ?n) (n_sslen ?n) (make_tid ''pn'' 0) s) = s\<lparr>sent := x\<rparr>"
      by (rule send_ping_sent)
    let ?n' = "?n\<lparr>n_pinged := n_pinged ?n + 1, n_pinged_time := now_sec s\<rparr>"
    let ?b' = "?b\<lparr>b_nodes := (b_nodes ?b)[j := ?n']\<rparr>"
    let ?s' = "upd_node af i j (\<lambda>n. n\<lparr>n_pinged := n_pinged n + 1, n_pinged_time := now_sec s\<rparr>) (s\<lparr>sent := x\<rparr>)"
    have s': "snd (ping_dubious af i s) = ?s'"
      using dl Some x by (simp add: ping_dubious_def the_node_def Let_def)
    have "frame af s ?s'" using frame_sent frame_upd_node by (rule frame_trans)
    moreover have "table af ?s' = (table af s)[i := ?b']" by (simp add: table_upd_node)
    moreover have "nodes_ok af (myid s) (firsts (table af s)) i ((b_nodes ?b)[j := ?n'])"
      using b j nok by (intro nodes_ok_upd) (simp_all add: bucket_ok_def node_ok_def)
    then have "bucket_ok af (myid s) (firsts (table af s)) i ?b'"
      using b by (simp add: bucket_ok_def)
    ultimately show ?thesis
      unfolding s' using assms upd_safe [OF j, of ?n' "now_sec s"] set_upd_same [OF j, of ?n']
      by (intro step_upd [of af s i _ ?b']) (auto simp: safe_node_def)
  qed
qed

lemma find_bucket_firsts:
  assumes "shape_ok (firsts bs)" "firsts bs' = firsts bs" "id_ok x"
  shows "find_bucket_loop x bs' 0 = find_bucket_loop x bs 0"
  using find_bucket_range [OF assms(1,3)] find_bucket_unique [of bs' x "find_bucket_loop x bs 0"] assms
  by (metis length_firsts)

text \<open>The bit of the bucket that an identifier belongs to: it grows with every split.\<close>

definition depth_of :: "byte list \<Rightarrow> bucket list \<Rightarrow> nat" where
  "depth_of x bs = nat (fbit (firsts bs) (find_bucket_loop x bs 0))"

lemma depth_of_split:
  assumes "shape_ok (firsts bs)" "id_ok x" "i = find_bucket_loop x bs 0"
    and "fbit (firsts bs) i < 160" "firsts bs' = fsplit (firsts bs) i"
  shows "depth_of x bs' = Suc (depth_of x bs)"
proof -
  have i: "i < length bs" "frange (firsts bs) i x"
    using find_bucket_range [OF assms(1,2)] assms(3) by simp_all
  have sh: "shape_ok (firsts bs')" unfolding assms(5) using shape_split assms(1,4) i(1) by simp
  have l: "length bs' = Suc (length bs)"
    using arg_cong [OF assms(5), of length] i(1) by (simp add: length_fsplit)
  have "frange (firsts bs') i x \<or> frange (firsts bs') (Suc i) x"
    unfolding assms(5) using frange_split(1,2) [OF assms(1), of i x] i assms(4) by auto
  then have "find_bucket_loop x bs' 0 = i \<or> find_bucket_loop x bs' 0 = Suc i"
    using find_bucket_unique [OF sh assms(2)] i(1) l by auto
  then show ?thesis
    using fsplit_halves(1,2) [OF assms(1), of i] i(1) assms(3,4,5) fbit_nonneg [of "firsts bs" i]
    by (auto simp: depth_of_def)
qed

text \<open>A bucket of one identifier is not full.\<close>

lemma full_bucket_splits:
  assumes "table_ok af me bs" "i < length bs" "8 \<le> b_count (bs ! i)"
  shows "fbit (firsts bs) i < 160"
proof (rule ccontr)
  assume "\<not> ?thesis"
  then have top: "160 \<le> fbit (firsts bs) i" by simp
  have sh: "shape_ok (firsts bs)" using assms(1,2) by (rule table_ok_shape)
  let ?ns = "b_nodes (bs ! i)"
  have b: "bucket_ok af me (firsts bs) i (bs ! i)" using assms(1,2) by (rule table_ok_bucket)
  then have l: "8 \<le> length ?ns" using assms(3) by (simp add: bucket_ok_def)
  have "n_id (?ns ! 0) = n_id (?ns ! 1)"
  proof (rule frange_single [OF sh _ top])
    show "i < length (firsts bs)" using assms(2) by simp
    show "id_ok (n_id (?ns ! 0))" "id_ok (n_id (?ns ! 1))"
      "frange (firsts bs) i (n_id (?ns ! 0))" "frange (firsts bs) i (n_id (?ns ! 1))"
      using b l nth_mem [of 0 ?ns] nth_mem [of 1 ?ns]
      by (auto simp: bucket_ok_def nodes_ok_def node_ok_def)
  qed
  moreover have "distinct (map n_id ?ns)" using b by (simp add: bucket_ok_def nodes_ok_def)
  ultimately show False
    using l nth_eq_iff_index_eq [of "map n_id ?ns" 0 1] by (cases "?ns = []") simp_all
qed

section \<open>Learning about a node\<close>

lemma known_simps [simp]:
  "n_id (new_node_known sa confirm now n) = n_id n"
  "n_sslen (new_node_known sa confirm now n) = n_sslen n"
  by (simp_all add: new_node_known_def Let_def)

lemma known_family:
  "sa_family (n_ss n) = sa_family sa \<Longrightarrow> sa_family (n_ss (new_node_known sa confirm now n)) = sa_family sa"
  by (simp add: new_node_known_def Let_def)

lemma known_sa_ok:
  "sa_ok (n_ss n) \<Longrightarrow> sa_ok sa \<Longrightarrow> sa_ok (n_ss (new_node_known sa confirm now n))"
  by (simp add: new_node_known_def Let_def)

lemma first_index_id:
  assumes "first_index (\<lambda>n. id_cmp (n_id n) x = 0) ns = None"
    and "nodes_ok af me fs i ns" "id_ok x"
  shows "x \<notin> n_id ` set ns"
  using assms by (auto simp: first_index_None nodes_ok_def node_ok_def id_cmp_zero)

lemma learned_known:
  assumes "table_ok af (myid s) (table af s)" "i < length (table af s)" "sa_family sa = af" "id_ok x"
    and "first_index (\<lambda>n. id_cmp (n_id n) x = 0) (b_nodes (table af s ! i)) = Some j"
    and "sa_ok sa"
  shows "learned af x s (Some (i, j), upd_node af i j (new_node_known sa confirm now) s)"
proof -
  let ?b = "table af s ! i" and ?f = "new_node_known sa confirm now"
  let ?n = "b_nodes ?b ! j"
  let ?b' = "?b\<lparr>b_nodes := (b_nodes ?b)[j := ?f ?n]\<rparr>"
  have b: "bucket_ok af (myid s) (firsts (table af s)) i ?b" using assms(1,2) by (rule table_ok_bucket)
  have j: "j < length (b_nodes ?b)" "id_cmp (n_id ?n) x = 0" using assms(5) by (auto simp: first_index_Some)
  then have nok: "node_ok af (myid s) ?n" using b by (auto simp: bucket_ok_def nodes_ok_def)
  with j(2) assms(4) have x: "n_id ?n = x" by (simp add: id_cmp_zero node_ok_def)
  have "nodes_ok af (myid s) (firsts (table af s)) i ((b_nodes ?b)[j := ?f ?n])"
    using b j nok assms(3,6)
    by (intro nodes_ok_upd) (simp_all add: bucket_ok_def node_ok_def known_family known_sa_ok)
  then have "bucket_ok af (myid s) (firsts (table af s)) i ?b'" using b by (simp add: bucket_ok_def)
  moreover have "n_id ` set (b_nodes ?b') = n_id ` set (b_nodes ?b)" using j(1) by (simp add: set_upd_same)
  ultimately show ?thesis
    using assms(1,2) j(1) x by (intro learned_upd [of af s i _ ?b'])
      (auto simp: frame_upd_node table_upd_node)
qed

lemma learned_replace:
  assumes "table_ok af (myid s) (table af s)" "i < length (table af s)" "sa_family sa = af" "id_ok x"
    and "x \<noteq> myid s" "frange (firsts (table af s)) i x"
    and "first_index (\<lambda>n. id_cmp (n_id n) x = 0) (b_nodes (table af s ! i)) = None"
    and "first_index (\<lambda>n. 3 \<le> n_pinged n \<and> n_pinged_time n < now_sec s - 15) (b_nodes (table af s ! i)) = Some j"
    and "sa_ok sa"
  shows "learned af x s (Some (i, j), upd_node af i j (new_node_replace x sa confirm now) s)"
proof -
  let ?b = "table af s ! i" and ?f = "new_node_replace x sa confirm now"
  let ?ns = "b_nodes ?b"
  let ?n = "?ns ! j"
  let ?b' = "?b\<lparr>b_nodes := ?ns[j := ?f ?n]\<rparr>"
  have b: "bucket_ok af (myid s) (firsts (table af s)) i ?b" using assms(1,2) by (rule table_ok_bucket)
  then have ns: "nodes_ok af (myid s) (firsts (table af s)) i ?ns" by (simp add: bucket_ok_def)
  have j: "j < length ?ns" "\<not> safe_node (now_sec s) ?n"
    using assms(8) by (auto simp: first_index_Some safe_node_def)
  have fid: "n_id (?f ?n) = x" "sa_family (n_ss (?f ?n)) = af" "n_sslen (?f ?n) = n_sslen ?n"
    "sa_ok (n_ss (?f ?n))"
    using assms(3,9) by (simp_all add: new_node_replace_def)
  have new: "x \<notin> n_id ` set ?ns" using first_index_id [OF assms(7) ns assms(4)] .
  have ids: "map n_id (?ns[j := ?f ?n]) = (map n_id ?ns)[j := x]" using fid(1) by (simp add: map_update)
  have "distinct (map n_id (?ns[j := ?f ?n]))"
    unfolding ids using ns new by (intro distinct_list_update) (auto simp: nodes_ok_def)
  moreover have "node_ok af (myid s) (?f ?n) \<and> frange (firsts (table af s)) i (n_id (?f ?n))"
    using ns j(1) fid assms(4-6) by (auto simp: nodes_ok_def node_ok_def)
  ultimately have "nodes_ok af (myid s) (firsts (table af s)) i (?ns[j := ?f ?n])"
    using ns set_update_subset_insert [of ?ns j "?f ?n"] by (auto simp: nodes_ok_def)
  then have "bucket_ok af (myid s) (firsts (table af s)) i ?b'" using b by (simp add: bucket_ok_def)
  moreover have "n_id n \<in> n_id ` set (?ns[j := ?f ?n])"
    if "n \<in> set ?ns" "safe_node (now_sec s) n" for n
  proof -
    obtain k where k: "k < length ?ns" "n = ?ns ! k" using \<open>n \<in> set ?ns\<close> by (auto simp: in_set_conv_nth)
    with j(2) that(2) have "?ns[j := ?f ?n] ! k = n" by (cases "k = j") auto
    then show ?thesis using k(1) by (metis image_eqI length_list_update nth_mem)
  qed
  moreover have "n_id n = x \<or> n_id n \<in> n_id ` set ?ns" if "n \<in> set (?ns[j := ?f ?n])" for n
    using that fid(1) set_update_subset_insert [of ?ns j "?f ?n"] by auto
  ultimately show ?thesis
    using assms(1,2) j(1) fid(1) by (intro learned_upd [of af s i _ ?b'])
      (auto simp: frame_upd_node table_upd_node)
qed

lemma learned_create:
  assumes "table_ok af (myid s) (table af s)" "i < length (table af s)" "sa_family sa = af" "id_ok x"
    and "x \<noteq> myid s" "frange (firsts (table af s)) i x" "salen \<noteq> 0"
    and "first_index (\<lambda>n. id_cmp (n_id n) x = 0) (b_nodes (table af s ! i)) = None"
    and "\<not> 8 \<le> b_count (table af s ! i)" "frame af s s'" "table af s' = table af s"
    and "sa_ok sa"
  shows "learned af x s (Some (i, 0), upd_bucket af i (\<lambda>b. b\<lparr>b_nodes :=
    new_node_create x sa salen confirm now # b_nodes b,
    b_count := b_count b + 1\<rparr>) s')"
proof -
  let ?b = "table af s ! i" and ?n = "new_node_create x sa salen confirm now"
  let ?b' = "?b\<lparr>b_nodes := ?n # b_nodes ?b, b_count := b_count ?b + 1\<rparr>"
  have b: "bucket_ok af (myid s) (firsts (table af s)) i ?b" using assms(1,2) by (rule table_ok_bucket)
  then have ns: "nodes_ok af (myid s) (firsts (table af s)) i (b_nodes ?b)" by (simp add: bucket_ok_def)
  have "x \<notin> n_id ` set (b_nodes ?b)" using first_index_id [OF assms(8) ns assms(4)] .
  then have "nodes_ok af (myid s) (firsts (table af s)) i (?n # b_nodes ?b)"
    using ns b assms(3-7,9,12) by (auto simp: nodes_ok_def node_ok_def new_node_create_def bucket_ok_def)
  then have "bucket_ok af (myid s) (firsts (table af s)) i ?b'" using b by (simp add: bucket_ok_def)
  then show ?thesis
    using assms(1,2,11) frame_trans [OF assms(10) frame_upd_bucket]
    by (intro learned_upd [of af s i _ ?b']) (auto simp: new_node_create_def)
qed

lemma step_cache:
  assumes "table_ok af (myid s) (table af s)" "i < length (table af s)" "salen \<noteq> 0"
  shows "step af s (upd_bucket af i (\<lambda>b. b\<lparr>b_cached := sa, b_cachedlen := salen\<rparr>) s)"
  using assms table_ok_bucket [OF assms(1,2)]
  by (intro step_upd [of af s i _ "(table af s ! i)\<lparr>b_cached := sa, b_cachedlen := salen\<rparr>"])
    (auto simp: frame_upd_bucket bucket_ok_def)

lemma step_time:
  assumes "table_ok af (myid s) (table af s)" "i < length (table af s)"
  shows "step af s (upd_bucket af i (\<lambda>b. b\<lparr>b_time := x\<rparr>) s)"
  using assms table_ok_bucket [OF assms(1,2)]
  by (intro step_upd [of af s i _ "(table af s ! i)\<lparr>b_time := x\<rparr>"])
    (auto simp: frame_upd_bucket bucket_ok_def)

lemma learned_split:
  assumes "table_ok af (myid s) (table af s)" "i < length (table af s)"
    and "fbit (firsts (table af s)) i < 160" "\<forall>k. env_calloc s k"
    and "learned af x (snd (split_bucket af i s)) q"
  shows "learned af x s q"
proof -
  let ?s = "snd (split_bucket af i s)"
  note sp = split_bucket_spec [OF assms(1-4) refl]
  have "evolves (now_sec s) (table af s) (table af ?s)"
    unfolding evolves_def id_in_def sp(4) by blast
  then show ?thesis
    using assms(5) sp(1) frame_eq(1,3) [OF sp(1)] frame_trans [OF sp(1)] learns_trans
    unfolding learned_def by (metis (no_types, lifting))
qed

lemma new_node_rec_learned:
  assumes "table_ok af (myid s) (table af s)" "sa_family sa = af" "id_ok x" "id_ok (myid s)"
    and "salen \<noteq> 0" "\<forall>k. env_calloc s k" "160 - depth_of x (table af s) < d" "sa_ok sa"
  shows "learned af x s (new_node_rec d x sa salen confirm s)"
  using assms(1,4,6,7)
proof (induction d arbitrary: s)
  case 0
  then show ?case by simp
next
  case (Suc d)
  note ok = Suc.prems(1)
  show ?case
  proof (cases "table af s = [] \<or> id_cmp x (myid s) = 0 \<or> is_martian sa")
    case True
    then have "new_node_rec (Suc d) x sa salen confirm s = (None, s)"
      using assms(2) by (auto simp: new_node_rec.simps find_bucket_def Let_def)
    then show ?thesis using learned_nothing [OF step_same_table [OF ok frame_refl refl]] by simp
  next
    case False
    define i where "i = find_bucket_loop x (table af s) 0"
    have sh: "shape_ok (firsts (table af s))" using ok False by (auto simp: table_ok_def)
    have i: "i < length (table af s)" "frange (firsts (table af s)) i x"
      using find_bucket_range [OF sh assms(3)] by (simp_all add: i_def)
    have me: "x \<noteq> myid s" using False Suc.prems(2) assms(3) by (auto simp: id_cmp_zero)
    define mb where "mb = in_bucket (myid s) (table af s) i"
    define s1 where "s1 = (if confirm = 2
      then upd_bucket af i (\<lambda>b. b\<lparr>b_time := to_int32 (now_sec s)\<rparr>) s else s)"
    define s2 where "s2 = (if mb then if af = AF_INET then s1\<lparr>mybucket_grow_time := now_sec s\<rparr>
      else s1\<lparr>mybucket6_grow_time := now_sec s\<rparr> else s1)"
    have st1: "step af s s1"
      using step_time [OF ok i(1)] step_same_table [OF ok frame_refl refl] by (simp add: s1_def)
    have fr1: "frame af s s1" using st1 by (simp add: step_def)
    have ok1: "table_ok af (myid s1) (table af s1)" "i < length (table af s1)"
      using st1 frame_eq [OF fr1] step_length [OF st1] i(1) by (simp_all add: step_def)
    have t2: "table af s2 = table af s1" "frame af s1 s2"
      by (simp_all add: s2_def frame_grow)
    have st2: "step af s s2" using step_trans [OF st1 step_same_table [OF ok1(1) t2(2,1)]] .
    have fr2: "frame af s s2" using st2 by (simp add: step_def)
    note eq2 = frame_eq [OF fr2]
    have ok2: "table_ok af (myid s2) (table af s2)" "i < length (table af s2)"
      using ok1 t2 frame_eq [OF t2(2)] by simp_all
    have f2: "firsts (table af s2) = firsts (table af s)" using st2 by (simp add: step_def)
    have c2: "\<forall>k. env_calloc s2 k" using fr2 Suc.prems(3) by (auto simp: frame_def)
    let ?b = "table af s2 ! i"
    let ?known = "first_index (\<lambda>n. id_cmp (n_id n) x = 0) (b_nodes ?b)"
    let ?bad = "first_index (\<lambda>n. 3 \<le> n_pinged n \<and> n_pinged_time n < now_sec s - 15) (b_nodes ?b)"
    have run: "new_node_rec (Suc d) x sa salen confirm s =
      (case ?known of
         Some j \<Rightarrow> (Some (i, j), upd_node af i j (new_node_known sa confirm (now_sec s)) s1)
       | None \<Rightarrow> case ?bad of
           Some j \<Rightarrow> (Some (i, j), upd_node af i j (new_node_replace x sa confirm (now_sec s)) s2)
         | None \<Rightarrow> if 8 \<le> b_count ?b
             then let (dubious, s3) = ping_dubious af i s2
               in if should_split (b_af ?b) mb dubious s3
                  then new_node_rec d x sa salen confirm (snd (split_bucket af i s3))
                  else if confirm \<noteq> 0 \<or> sa_family (b_cached (table af s3 ! i)) = 0
                  then (None, upd_bucket af i (\<lambda>b. b\<lparr>b_cached := sa, b_cachedlen := salen\<rparr>) s3)
                  else (None, s3)
             else let (ok, s3) = calloc s2
               in if \<not> ok then (None, s3)
                  else (Some (i, 0), upd_bucket af i (\<lambda>b. b\<lparr>b_nodes :=
                    new_node_create x sa salen confirm (now_sec s) # b_nodes b,
                    b_count := b_count b + 1\<rparr>) s3))"
    proof -
      have c: "(table af s = []) = False" "(id_cmp x (myid s) = 0) = False" "is_martian sa = False"
        using False by simp_all
      show ?thesis
        by (simp only: new_node_rec.simps find_bucket_def Let_def assms(2) c if_False option.case
            i_def [symmetric] mb_def [symmetric] s1_def [symmetric] s2_def [symmetric] t2(1) [symmetric])
    qed
    show ?thesis
    proof (cases ?known)
      case (Some j)
      then have "learned af x s1 (Some (i, j), upd_node af i j (new_node_known sa confirm (now_sec s)) s1)"
        using learned_known [OF ok1 assms(2,3) _ assms(8)] t2(1) by simp
      with Some run show ?thesis using learned_step [OF st1] by simp
    next
      case known: None
      show ?thesis
      proof (cases ?bad)
        case (Some j)
        then have "learned af x s2 (Some (i, j), upd_node af i j (new_node_replace x sa confirm (now_sec s)) s2)"
          using learned_replace [OF ok2 assms(2,3) _ _ known _ assms(8)] me i(2) f2 eq2 by simp
        with Some known run show ?thesis using learned_step [OF st2] by simp
      next
        case bad: None
        show ?thesis
        proof (cases "8 \<le> b_count ?b")
          case full: True
          obtain dub s3 where d: "ping_dubious af i s2 = (dub, s3)" by fastforce
          have st23: "step af s2 s3" using ping_dubious_step [OF ok2] d by simp
          have st3: "step af s s3" using step_trans [OF st2 st23] .
          have fr3: "frame af s s3" using st3 by (simp add: step_def)
          note eq3 = frame_eq [OF fr3]
          have ok3: "table_ok af (myid s3) (table af s3)" "i < length (table af s3)"
            using st3 eq3 step_length [OF st3] i(1) by (simp_all add: step_def)
          have f3: "firsts (table af s3) = firsts (table af s)" using st3 by (simp add: step_def)
          show ?thesis
          proof (cases "should_split (b_af ?b) mb dub s3")
            case True
            let ?s4 = "snd (split_bucket af i s3)"
            have bit: "fbit (firsts (table af s3)) i < 160"
              using full_bucket_splits [OF ok2 full] f2 f3 by simp
            have c3: "\<forall>k. env_calloc s3 k" using fr3 Suc.prems(3) by (auto simp: frame_def)
            note sp = split_bucket_spec [OF ok3 bit c3 refl]
            have i3: "i = find_bucket_loop x (table af s3) 0"
              using find_bucket_firsts [OF sh f3 assms(3)] by (simp add: i_def)
            have "depth_of x (table af ?s4) = Suc (depth_of x (table af s3))"
              using depth_of_split [OF _ assms(3) i3 bit sp(3)] sh f3 by simp
            also have "depth_of x (table af s3) = depth_of x (table af s)"
              using i3 f3 i_def by (simp add: depth_of_def)
            finally have "depth_of x (table af ?s4) = Suc (depth_of x (table af s))" .
            moreover have "depth_of x (table af s) < 160"
              using bit f3 i_def fbit_nonneg [of "firsts (table af s)" i] by (simp add: depth_of_def)
            ultimately have "160 - depth_of x (table af ?s4) < d" using Suc.prems(4) by linarith
            moreover have "\<forall>k. env_calloc ?s4 k" using sp(1) c3 by (auto simp: frame_def)
            ultimately have "learned af x ?s4 (new_node_rec d x sa salen confirm ?s4)"
              using Suc.IH [of ?s4] sp(2) frame_eq [OF sp(1)] eq3 Suc.prems(2) by simp
            then have "learned af x s3 (new_node_rec d x sa salen confirm ?s4)"
              by (rule learned_split [OF ok3 bit c3])
            then have "learned af x s (new_node_rec d x sa salen confirm ?s4)"
              by (rule learned_step [OF st3])
            with known bad full d True run show ?thesis by simp
          next
            case False
            have "learned af x s (None, upd_bucket af i (\<lambda>b. b\<lparr>b_cached := sa, b_cachedlen := salen\<rparr>) s3)"
              using step_trans [OF st3 step_cache [OF ok3 assms(5)]] by (rule learned_nothing)
            moreover have "learned af x s (None, s3)" using st3 by (rule learned_nothing)
            ultimately show ?thesis using known bad full d False run by simp
          qed
        next
          case False
          obtain s3 where c: "calloc s2 = (True, s3)" using c2 by (simp add: calloc_def)
          have "learned af x s2 (Some (i, 0), upd_bucket af i (\<lambda>b. b\<lparr>b_nodes :=
              new_node_create x sa salen confirm (now_sec s) # b_nodes b, b_count := b_count b + 1\<rparr>) s3)"
            using learned_create [OF ok2 assms(2,3) _ _ assms(5) known False _ _ assms(8)] me i(2) f2 eq2
              frame_calloc [OF c] by simp
          with known bad False c run show ?thesis using learned_step [OF st2] by simp
        qed
      qed
    qed
  qed
qed

lemma new_node_learned:
  assumes "table_ok af (myid s) (table af s)" "sa_family sa = af" "id_ok x" "id_ok (myid s)"
    and "salen \<noteq> 0" "\<forall>k. env_calloc s k" "161 \<le> env_depth s" "sa_ok sa"
  shows "learned af x s (new_node x sa salen confirm s)"
  unfolding new_node_def using assms by (intro new_node_rec_learned) auto

lemma find_node_found:
  assumes "table_ok af me (table af s)" "i < length (table af s)"
    and "j < length (b_nodes (table af s ! i))" "n_id (the_node af i j s) = x"
  shows "find_node x af s = Some (i, j)"
proof -
  let ?ns = "b_nodes (table af s ! i)"
  have b: "nodes_ok af me (firsts (table af s)) i ?ns"
    using table_ok_bucket [OF assms(1,2)] by (simp add: bucket_ok_def)
  then have x: "id_ok x" "frange (firsts (table af s)) i x"
    using assms(3,4) nth_mem [OF assms(3)] by (auto simp: nodes_ok_def node_ok_def the_node_def)
  have fb: "find_bucket_loop x (table af s) 0 = i"
    using table_ok_shape [OF assms(1,2)] x assms(2) by (intro find_bucket_unique) simp_all
  have "id_cmp (n_id (?ns ! k)) x \<noteq> 0" if "k < j" for k
  proof -
    have k: "k < length ?ns" using that assms(3) by simp
    then have "n_id (?ns ! k) \<noteq> n_id (?ns ! j)"
      using b that assms(3) nth_eq_iff_index_eq [of "map n_id ?ns" k j] by (simp add: nodes_ok_def)
    moreover have "id_ok (n_id (?ns ! k))" using b nth_mem [OF k] by (auto simp: nodes_ok_def node_ok_def)
    ultimately show ?thesis using assms(4) x(1) by (simp add: id_cmp_zero the_node_def)
  qed
  then have "first_index (\<lambda>n. id_cmp (n_id n) x = 0) ?ns = Some j"
    using assms(3,4) by (auto simp: first_index_Some the_node_def)
  with fb assms(2) show ?thesis by (auto simp: find_node_def find_bucket_def)
qed

lemma find_node_index:
  assumes "table_ok af me (table af s)" "id_ok x" "find_node x af s = Some (i, j)"
  shows "i < length (table af s)" and "j < length (b_nodes (table af s ! i))"
    and "n_id (the_node af i j s) = x" and "find_bucket x af s = Some i"
proof -
  have ne: "table af s \<noteq> []" and i: "i = find_bucket_loop x (table af s) 0"
    and fi: "first_index (\<lambda>n. id_cmp (n_id n) x = 0) (b_nodes (table af s ! i)) = Some j"
    using assms(3) by (auto simp: find_node_def find_bucket_def split: if_splits)
  have "shape_ok (firsts (table af s))" using assms(1) ne by (simp add: table_ok_def)
  then show il: "i < length (table af s)" unfolding i using assms(2) by (rule find_bucket_range)
  show j: "j < length (b_nodes (table af s ! i))" using fi by (rule first_index_less)
  have "bucket_ok af me (firsts (table af s)) i (table af s ! i)" using assms(1) il by (rule table_ok_bucket)
  then have "id_ok (n_id (the_node af i j s))"
    using nth_mem [OF j] by (auto simp: bucket_ok_def nodes_ok_def node_ok_def the_node_def)
  with fi assms(2) show "n_id (the_node af i j s) = x"
    by (simp add: first_index_Some id_cmp_zero the_node_def)
  show "find_bucket x af s = Some i" using ne i by (simp add: find_bucket_def)
qed

section \<open>Pinged nodes and expiry\<close>

lemma pinged_table:
  assumes "table_ok af (myid s) (table af s)" "i < length (table af s)"
    and "j < length (b_nodes (table af s ! i))" "b = None \<or> (\<exists>k < length (table af s). b = Some k)"
  shows "frame af s (pinged af i j b s)" and "table_ok af (myid s) (table af (pinged af i j b s))"
    and "firsts (table af (pinged af i j b s)) = firsts (table af s)"
    and "map b_nodes (table af (pinged af i j b s)) = (map b_nodes (table af s))[i :=
      (b_nodes (table af s ! i))[j := (b_nodes (table af s ! i) ! j)
        \<lparr>n_pinged := n_pinged (b_nodes (table af s ! i) ! j) + 1, n_pinged_time := now_sec s\<rparr>]]"
proof -
  let ?b = "table af s ! i"
  let ?n = "b_nodes ?b ! j"
  let ?f = "\<lambda>n. n\<lparr>n_pinged := n_pinged n + 1, n_pinged_time := now_sec s\<rparr>"
  let ?b' = "?b\<lparr>b_nodes := (b_nodes ?b)[j := ?f ?n]\<rparr>"
  define s1 where "s1 = upd_node af i j ?f s"
  have bk: "bucket_ok af (myid s) (firsts (table af s)) i ?b" using assms(1,2) by (rule table_ok_bucket)
  then have nok: "node_ok af (myid s) ?n" using nth_mem [OF assms(3)] by (auto simp: bucket_ok_def nodes_ok_def)
  have "nodes_ok af (myid s) (firsts (table af s)) i ((b_nodes ?b)[j := ?f ?n])"
    using bk assms(3) nok by (intro nodes_ok_upd) (simp_all add: bucket_ok_def node_ok_def)
  then have t1: "table af s1 = (table af s)[i := ?b']" "table_ok af (myid s) (table af s1)"
    using assms(1,2) bk by (auto simp: s1_def table_upd_node intro!: table_ok_upd simp: bucket_ok_def)
  have f1: "frame af s s1" by (simp add: s1_def frame_upd_node)
  have n1: "the_node af i j s1 = ?f ?n" using assms(2,3) by (simp add: the_node_def t1(1))
  have fs1: "firsts (table af s1) = firsts (table af s)" by (simp add: t1(1) firsts_upd)
  have fam: "sa_family (n_ss ?n) = af" using nok by (simp add: node_ok_def)
  have "\<exists>k < length (table af s). pinged af i j b s = s1 \<or> pinged af i j b s = snd (send_cached_ping af k s1)"
  proof (cases b)
    case (Some k)
    with assms(2,4) show ?thesis by (auto simp: pinged_def s1_def [symmetric] Let_def)
  next
    case None
    have sh: "shape_ok (firsts (table af s1))" using table_ok_shape [OF assms(1,2)] fs1 by simp
    let ?k = "find_bucket_loop (n_id ?n) (table af s1) 0"
    have "?k < length (table af s1)" using find_bucket_range(1) [OF sh] nok by (simp add: node_ok_def)
    moreover from this have "find_bucket (n_id ?n) af s1 = Some ?k" by (auto simp: find_bucket_def)
    ultimately show ?thesis
      using None t1(1) fam n1 by (intro exI [of _ ?k]) (simp add: pinged_def s1_def [symmetric] Let_def)
  qed
  then obtain k where k: "k < length (table af s)"
    "pinged af i j b s = s1 \<or> pinged af i j b s = snd (send_cached_ping af k s1)" by blast
  have k1: "k < length (table af s1)" using k(1) t1(1) by simp
  obtain c l where cl: "table af (snd (send_cached_ping af k s1)) =
      (table af s1)[k := (table af s1 ! k)\<lparr>b_cached := c, b_cachedlen := l\<rparr>]"
    using send_cached_ping_table(2) [OF t1(2) k1] by blast
  have "map b_nodes (table af s1) = (map b_nodes (table af s))[i := (b_nodes ?b)[j := ?f ?n]]"
    by (simp add: t1(1) map_update)
  moreover have "map b_nodes (table af (snd (send_cached_ping af k s1))) = map b_nodes (table af s1)"
    unfolding cl map_update using k1 by (metis bucket.select_convs(5) bucket.surjective bucket.update_convs(6,7) list_update_id nth_map)
  ultimately show "map b_nodes (table af (pinged af i j b s)) =
      (map b_nodes (table af s))[i := (b_nodes ?b)[j := ?f ?n]]"
    using k(2) by auto
  have "firsts (table af (snd (send_cached_ping af k s1))) = firsts (table af s1)"
    unfolding cl by (simp add: firsts_upd)
  with k(2) f1 t1(2) fs1 send_cached_ping_table(1,3) [OF t1(2) k1] frame_trans [OF f1]
  show "frame af s (pinged af i j b s)" "table_ok af (myid s) (table af (pinged af i j b s))"
    "firsts (table af (pinged af i j b s)) = firsts (table af s)"
    by auto
qed

lemma expire_front_dropWhile: "expire_front ns = dropWhile (\<lambda>n. 4 \<le> n_pinged n) ns"
  by (induction ns) auto

lemma expire_filter: "expire_rest (expire_front ns) = filter (\<lambda>n. n_pinged n < 4) ns"
proof (induction "length ns" arbitrary: ns rule: less_induct)
  case less
  show ?case
  proof (cases ns)
    case (Cons n ms)
    with less [of ms] show ?thesis by auto
  qed simp
qed

lemma expire_bucket_table:
  assumes "table_ok af (myid s) (table af s)" "i < length (table af s)"
    and "s' = expire_bucket af i s"
  shows "frame af s s'" and "table_ok af (myid s) (table af s')"
    and "map b_nodes (table af s') =
      (map b_nodes (table af s))[i := filter (\<lambda>n. n_pinged n < 4) (b_nodes (table af s ! i))]"
    and "firsts (table af s') = firsts (table af s)"
proof -
  let ?b = "table af s ! i"
  let ?ns = "filter (\<lambda>n. n_pinged n < 4) (b_nodes ?b)"
  define removed where "removed = length (b_nodes ?b) - length ?ns"
  let ?b' = "?b\<lparr>b_nodes := ?ns, b_count := b_count ?b - int removed\<rparr>"
  define s1 where "s1 = upd_bucket af i (\<lambda>b. b\<lparr>b_nodes := ?ns, b_count := b_count b - int removed\<rparr>) s"
  have bk: "bucket_ok af (myid s) (firsts (table af s)) i ?b" using assms(1,2) by (rule table_ok_bucket)
  have "nodes_ok af (myid s) (firsts (table af s)) i ?ns"
    using bk by (auto simp: bucket_ok_def nodes_ok_def distinct_map inj_on_def intro: le_trans [OF length_filter_le])
  moreover have "length ?ns \<le> length (b_nodes ?b)" by (rule length_filter_le)
  ultimately have "bucket_ok af (myid s) (firsts (table af s)) i ?b'"
    using bk by (simp add: bucket_ok_def removed_def)
  then have t1: "table af s1 = (table af s)[i := ?b']" "table_ok af (myid s) (table af s1)"
    using assms(1,2) by (auto simp: s1_def intro!: table_ok_upd)
  have f1: "frame af s s1" by (simp add: s1_def frame_upd_bucket)
  have k1: "i < length (table af s1)" using assms(2) t1(1) by simp
  have s': "s' = (if 0 < removed then snd (send_cached_ping af i s1) else s1)"
    by (simp add: assms(3) expire_bucket_def expire_filter Let_def removed_def s1_def)
  obtain c l where t: "table af (snd (send_cached_ping af i s1)) =
      (table af s1)[i := (table af s1 ! i)\<lparr>b_cached := c, b_cachedlen := l\<rparr>]"
    using send_cached_ping_table(2) [OF t1(2) k1] by blast
  show "frame af s s'" "table_ok af (myid s) (table af s')"
    using s' f1 t1(2) send_cached_ping_table(1,3) [OF t1(2) k1] frame_trans [OF f1] by auto
  show "map b_nodes (table af s') = (map b_nodes (table af s))[i := ?ns]"
    using s' t t1(1) assms(2) by (auto simp: map_update)
  show "firsts (table af s') = firsts (table af s)"
    using s' t t1(1) assms(2) by (auto simp: firsts_upd)
qed

lemma expire_loop_table:
  assumes "table_ok af (myid s) (table af s)" "k \<le> length (table af s)"
    and "s' = fold (expire_bucket af) [0..<k] s"
  shows "frame af s s' \<and> table_ok af (myid s) (table af s') \<and>
    firsts (table af s') = firsts (table af s) \<and>
    map b_nodes (table af s') = map (filter (\<lambda>n. n_pinged n < 4)) (take k (map b_nodes (table af s))) @
      drop k (map b_nodes (table af s))"
  using assms(2,3)
proof (induction k arbitrary: s')
  case 0
  with assms(1) show ?case by simp
next
  case (Suc k)
  define s1 where "s1 = fold (expire_bucket af) [0..<k] s"
  have IH: "frame af s s1" "table_ok af (myid s) (table af s1)" "firsts (table af s1) = firsts (table af s)"
    "map b_nodes (table af s1) = map (filter (\<lambda>n. n_pinged n < 4)) (take k (map b_nodes (table af s))) @
      drop k (map b_nodes (table af s))"
    using Suc.IH [of s1] Suc.prems(1) s1_def by simp_all
  have s': "s' = expire_bucket af k s1" using Suc.prems(2) by (simp add: s1_def)
  have l: "k < length (table af s1)" using arg_cong [OF IH(3), of length] Suc.prems(1) by simp
  have me: "myid s1 = myid s" using frame_eq [OF IH(1)] by simp
  note ex = expire_bucket_table [of af s1 k s', unfolded me, OF IH(2) l s']
  have nth: "b_nodes (table af s1 ! k) = b_nodes (table af s ! k)"
    using arg_cong [OF IH(4), of "\<lambda>xs. xs ! k"] l Suc.prems(1) by (simp add: nth_append)
  have "map b_nodes (table af s') = map (filter (\<lambda>n. n_pinged n < 4)) (take (Suc k) (map b_nodes (table af s))) @
      drop (Suc k) (map b_nodes (table af s))"
    unfolding ex(3) nth IH(4) using Suc.prems(1)
    by (simp add: list_update_append take_Suc_conv_app_nth Cons_nth_drop_Suc [symmetric] min_def)
  with ex IH(1,3) frame_trans [OF IH(1)] show ?case by simp
qed

lemma expire_buckets_table:
  assumes "table_ok af (myid s) (table af s)"
  shows "frame af s (expire_buckets af s)" and "table_ok af (myid s) (table af (expire_buckets af s))"
    and "firsts (table af (expire_buckets af s)) = firsts (table af s)"
    and "map b_nodes (table af (expire_buckets af s)) =
      map (filter (\<lambda>n. n_pinged n < 4) \<circ> b_nodes) (table af s)"
proof -
  define s1 where "s1 = fold (expire_bucket af) [0..<length (table af s)] s"
  obtain r s2 where r: "random s1 = (r, s2)" by (cases "random s1")
  have e: "expire_buckets af s = s2\<lparr>expire_stuff_time := now_sec s2 + 120 + int (r mod 240)\<rparr>"
    by (simp add: expire_buckets_def s1_def [symmetric] r)
  have fr: "frame af s2 (expire_buckets af s)" "table af (expire_buckets af s) = table af s2"
    by (simp_all add: e frame_def outside_def table_def)
  note l = expire_loop_table [OF assms le_refl s1_def]
  note fr2 = frame_random [OF r, of af]
  show "frame af s (expire_buckets af s)" using l fr2 fr(1) frame_trans by blast
  show "table_ok af (myid s) (table af (expire_buckets af s))"
    "firsts (table af (expire_buckets af s)) = firsts (table af s)"
    "map b_nodes (table af (expire_buckets af s)) = map (filter (\<lambda>n. n_pinged n < 4) \<circ> b_nodes) (table af s)"
    using l fr2 fr(2) by simp_all
qed

end
