(* ===== verification/Dht_Table_Props.thy ===== *)
theory Dht_Table_Props
  imports Dht_Routing
begin

text \<open>
  The properties of the routing table of \<^verbatim>\<open>dht/dht.c\<close>: buckets partition the identifiers,
  their middle and random identifiers lie inside, splitting loses no node, learning about a
  node ends, keeps the invariant and makes the node findable, expiry removes the dead.
\<close>

text \<open>A table with one bucket of three nodes, for the witnesses.\<close>

definition demo_node :: "byte \<Rightarrow> node" where
  "demo_node c = \<lparr>n_id = c # replicate 19 0, n_ss = \<lparr>sa_family = AF_INET, sa_port = [0, 80],
     sa_addr = [10, 0, 0, c], sa_misc = []\<rparr>, n_sslen = 16, n_time = 990, n_reply_time = 990,
     n_pinged_time = 0, n_pinged = (if c = 3 then 4 else 0)\<rparr>"

definition demo_bucket :: bucket where
  "demo_bucket = \<lparr>b_af = AF_INET, b_first = zeroes, b_count = 3, b_time = 0,
     b_nodes = map demo_node [1, 200, 3], b_cached = no_sockaddr, b_cachedlen = 0\<rparr>"

definition demo_dht :: dht where
  "demo_dht = dht_start\<lparr>myid := 2 # replicate 19 0, buckets := [demo_bucket], now_sec := 1000\<rparr>"

lemma lowbit_zeroes: "lowbit zeroes = -1"
proof (cases zeroes rule: lowbit_cases)
  case (bit k)
  then have "k div 8 < 20" by auto
  then have "\<not> id_bit zeroes k" by (simp add: id_bit_def zeroes_def)
  with bit show ?thesis by blast
qed

lemma demo_table_ok: "table_ok AF_INET (2 # replicate 19 0) [demo_bucket]"
proof -
  have r: "frange [zeroes] 0 x" if "id_ok x" for x
    using be_val_id_less [OF that] by (simp add: frange_def ftop_def)
  show ?thesis
    using shape_initial by (auto simp: table_ok_def firsts_def bucket_ok_def nodes_ok_def node_ok_def
        demo_bucket_def demo_node_def no_sockaddr_def r AF_INET_def
        AF_INET6_def sa_ok_def)
qed

lemma demo_tables_ok: "tables_ok demo_dht"
  using demo_table_ok by (simp add: tables_ok_def demo_dht_def dht_start_def table_ok_def)

lemma demo_dht_simps [simp]:
  "table AF_INET demo_dht = [demo_bucket]" "env_calloc demo_dht = (\<lambda>_. True)"
  "env_depth demo_dht = 1000" "died demo_dht = None" "myid demo_dht = 2 # replicate 19 0"
  by (simp_all add: demo_dht_def dht_start_def table_def)

section \<open>Buckets and identifiers\<close>

text \<open>C16. In a well-formed table \<open>find_bucket\<close> returns the one bucket an identifier lies in, by the
  test \<open>in_bucket\<close>; \<open>find_node\<close> finds a node if and only if its identifier is in the
  table, and then the node itself.\<close>

theorem find_bucket_correct:
  assumes "tables_ok s" and "family_ok af" and "id_ok x" and "table af s \<noteq> []"
  shows "\<exists>i < length (table af s). find_bucket x af s = Some i \<and> in_bucket x (table af s) i \<and>
      (\<forall>k < length (table af s). in_bucket x (table af s) k \<longrightarrow> k = i) \<and>
      (find_node x af s = None \<longleftrightarrow> \<not> id_in x (table af s)) \<and>
      (\<forall>j. find_node x af s = Some (i, j) \<longrightarrow> n_id (the_node af i j s) = x)"
proof -
  note ok = tables_ok_table [OF assms(1,2)]
  have sh: "shape_ok (firsts (table af s))" using ok assms(4) by (simp add: table_ok_def)
  let ?i = "find_bucket_loop x (table af s) 0"
  note fb = find_bucket_range [OF sh assms(3)]
  have uniq: "k = ?i" if "k < length (table af s)" "in_bucket x (table af s) k" for k
    using find_bucket_unique [OF sh assms(3), of k] that in_bucket_range [OF sh that(1) assms(3)] by simp
  have "id_in x (table af s)" if "find_node x af s = Some (i, j)" for i j
    using find_node_index [OF ok assms(3) that] unfolding id_in_def in_table_nth the_node_def by force
  moreover have "find_node x af s \<noteq> None" if known: "id_in x (table af s)"
  proof -
    obtain i n where n: "i < length (table af s)" "n \<in> set (b_nodes (table af s ! i))" "n_id n = x"
      using known unfolding id_in_def in_table_nth by blast
    then obtain j where "j < length (b_nodes (table af s ! i))" "n = b_nodes (table af s ! i) ! j"
      by (auto simp: in_set_conv_nth)
    then show ?thesis using find_node_found [OF ok n(1), of j x] n(3) by (simp add: the_node_def)
  qed
  moreover have "find_bucket x af s = Some ?i" using assms(4) by (simp add: find_bucket_def)
  moreover have "n_id (the_node af ?i j s) = x" if "find_node x af s = Some (?i, j)" for j
    using find_node_index(3) [OF ok assms(3) that] .
  ultimately show ?thesis using fb uniq by (intro exI [of _ ?i]) (metis not_None_eq old.prod.exhaust)
qed

theorem find_bucket_correct_witness:
  "\<exists>i < length (table AF_INET demo_dht). find_bucket zeroes AF_INET demo_dht = Some i \<and>
      in_bucket zeroes (table AF_INET demo_dht) i \<and>
      (\<forall>k < length (table AF_INET demo_dht). in_bucket zeroes (table AF_INET demo_dht) k \<longrightarrow> k = i) \<and>
      (find_node zeroes AF_INET demo_dht = None \<longleftrightarrow> \<not> id_in zeroes (table AF_INET demo_dht)) \<and>
      (\<forall>j. find_node zeroes AF_INET demo_dht = Some (i, j) \<longrightarrow>
        n_id (the_node AF_INET i j demo_dht) = zeroes)"
  by (rule find_bucket_correct [OF demo_tables_ok]) (simp_all add: family_ok_def)

lemma same_prefix:
  assumes "id_ok a" "id_ok b" "d \<le> 160" "\<And>j. j < d \<Longrightarrow> id_bit a j = id_bit b j"
  shows "be_val a div 2 ^ (160 - d) = be_val b div 2 ^ (160 - d)"
proof -
  have "drop_bit (160 - d) (be_val a) = drop_bit (160 - d) (be_val b)"
  proof (rule bit_eqI)
    fix m
    show "bit (drop_bit (160 - d) (be_val a)) m = bit (drop_bit (160 - d) (be_val b)) m"
    proof (cases "160 - d + m < 160")
      case True
      then have "159 - (159 - (160 - d + m)) = 160 - d + m" "159 - (160 - d + m) < d" using assms(3) by linarith+
      with assms(4) [of "159 - (160 - d + m)"] bit_be_val_id [OF assms(1), of "159 - (160 - d + m)"]
        bit_be_val_id [OF assms(2), of "159 - (160 - d + m)"] True
      show ?thesis by (simp add: bit_drop_bit_eq)
    next
      case False
      then show ?thesis
        using bit_be_val_high [OF assms(1)] bit_be_val_high [OF assms(2)] by (simp add: bit_drop_bit_eq)
    qed
  qed
  then show ?thesis by (simp add: drop_bit_eq_div)
qed

lemma length_random_octets: "length (fst (random_octets n s)) = n"
  by (induction n arbitrary: s) (simp_all add: case_prod_beta)

lemma id_bit_first:
  "id_bit (take q xs @ c # rs) j = (if j div 8 < q then id_bit xs j
    else if j div 8 = q then bit c (7 - j mod 8) else id_bit (rs) (j - 8 * Suc q))" if "q < length xs"
proof -
  have l: "length (take q xs) = q" using that by simp
  have "j div 8 - Suc q = (j - 8 * Suc q) div 8" "(j - 8 * Suc q) mod 8 = j mod 8" if "q < j div 8"
  proof -
    have "8 * Suc q \<le> 8 * (j div 8)" using that by simp
    also have "\<dots> \<le> j" by simp
    finally have "8 * Suc q \<le> j" .
    then obtain m where "j = m + 8 * Suc q" using le_Suc_ex by (metis add.commute)
    then show "j div 8 - Suc q = (j - 8 * Suc q) div 8" "(j - 8 * Suc q) mod 8 = j mod 8"
      by (simp_all del: mult_Suc_right)
  qed
  then show ?thesis using l by (auto simp: id_bit_def nth_append nth_Cons')
qed

lemma random_octet_keeps:
  assumes "k < 8" "i < k"
  shows "bit ((x AND ucast (drop_bit k (0xFF00 :: 16 word))) OR (y AND drop_bit k (0xFF :: byte))) (7 - i) =
    bit (x :: byte) (7 - i)"
proof -
  have "k = 1 \<or> k = 2 \<or> k = 3 \<or> k = 4 \<or> k = 5 \<or> k = 6 \<or> k = 7" using assms by linarith
  moreover have "i = 0 \<or> i = 1 \<or> i = 2 \<or> i = 3 \<or> i = 4 \<or> i = 5 \<or> i = 6" using assms by linarith
  ultimately show ?thesis using assms(2)
    by (elim disjE) (simp_all add: bit_or_iff bit_and_iff bit_ucast_iff bit_drop_bit_eq)
qed

lemma bucket_random_range:
  assumes "shape_ok (firsts bs)" "i < length bs"
  shows "id_ok (fst (bucket_random bs i s)) \<and> frange (firsts bs) i (fst (bucket_random bs i s))"
proof -
  let ?fs = "firsts bs" and ?first = "b_first (bs ! i)"
  have first: "id_ok ?first" using shape_first [OF assms(1), of i] assms(2) by simp
  have top: "fbit ?fs i \<le> 160" "ftop ?fs i = be_val ?first + 2 ^ (160 - nat (fbit ?fs i))"
    using assms by (simp_all add: shape_ok_def)
  show ?thesis
  proof (cases "160 \<le> fbit ?fs i")
    case True
    then have "fst (bucket_random bs i s) = ?first"
      using assms(2) by (simp add: bucket_random_def bucket_bit_fbit Let_def)
    with first top assms(2) show ?thesis by (simp add: frange_def)
  next
    case False
    define d where "d = nat (fbit ?fs i)"
    have d: "d < 160" "fbit ?fs i = int d" using False fbit_nonneg [of ?fs i] by (simp_all add: d_def)
    define q k where "q = d div 8" and "k = d mod 8"
    have qk: "q < 20" "k < 8" "d = 8 * q + k" using d(1) by (auto simp: q_def k_def)
    obtain r s1 where r: "random s = (r, s1)" by (cases "random s")
    define c where "c = (?first ! q AND ucast (drop_bit k (0xFF00 :: 16 word))) OR
      ((of_nat r :: byte) AND drop_bit k 0xFF)"
    define rs where "rs = fst (random_octets (20 - (q + 1)) s1)"
    let ?x = "take q ?first @ c # rs"
    have x: "fst (bucket_random bs i s) = ?x"
      using False assms(2) r by (simp add: bucket_random_def bucket_bit_fbit Let_def case_prod_beta
          d_def [symmetric] q_def [symmetric] k_def [symmetric] c_def rs_def)
    have idx: "id_ok ?x" using first qk(1) by (simp add: rs_def length_random_octets)
    have low: "lowbit ?first < int d" using d(2) assms(2) by (simp add: fbit_def)
    have "id_bit ?x j = id_bit ?first j" if "j < d" for j
    proof -
      have "j div 8 < q \<or> (j div 8 = q \<and> j mod 8 < k)"
      proof -
        have "j = 8 * (j div 8) + j mod 8" by simp
        with that qk show ?thesis by linarith
      qed
      then show ?thesis
        using qk(1,2) first random_octet_keeps [of k "j mod 8" "?first ! q" "of_nat r"]
        by (auto simp: id_bit_first c_def [symmetric]) (simp_all add: id_bit_def)
    qed
    then have eq: "be_val ?x div 2 ^ (160 - d) = be_val ?first div 2 ^ (160 - d)"
      using idx first d(1) by (intro same_prefix) simp_all
    have "2 ^ (160 - d) dvd be_val ?first" using lowbit_dvd [OF first low] d(1) by simp
    then have b: "be_val ?first = be_val ?x div 2 ^ (160 - d) * 2 ^ (160 - d)" using eq by simp
    have "be_val ?x = be_val ?x div 2 ^ (160 - d) * 2 ^ (160 - d) + be_val ?x mod 2 ^ (160 - d)"
      by (rule div_mult_mod_eq [symmetric])
    moreover have "be_val ?x mod 2 ^ (160 - d) < 2 ^ (160 - d)" by simp
    ultimately have "be_val ?first \<le> be_val ?x" "be_val ?x < be_val ?first + 2 ^ (160 - d)"
      unfolding b by linarith+
    with idx top(2) assms(2) show ?thesis by (simp add: x frange_def d_def)
  qed
qed

text \<open>The identifiers a bucket makes up for itself lie in it: the middle, when the bucket has
  more than one identifier, is strictly inside and halves the range, and a random
  identifier is in the bucket whatever the random numbers are.\<close>

theorem bucket_identifiers_inside:
  assumes "tables_ok s" and "family_ok af" and "i < length (table af s)"
  shows "(case bucket_middle (table af s) i of
      None \<Rightarrow> ftop (firsts (table af s)) i = be_val (b_first (table af s ! i)) + 1
    | Some m \<Rightarrow> id_ok m \<and> in_bucket m (table af s) i \<and> m \<noteq> b_first (table af s ! i) \<and>
        2 * be_val m = be_val (b_first (table af s ! i)) + ftop (firsts (table af s)) i) \<and>
    in_bucket (fst (bucket_random (table af s) i r)) (table af s) i"
proof -
  let ?bs = "table af s" and ?fs = "firsts (table af s)"
  have sh: "shape_ok ?fs" using tables_ok_table [OF assms(1,2)] assms(3) by (rule table_ok_shape)
  have rnd: "in_bucket (fst (bucket_random ?bs i r)) ?bs i"
    using bucket_random_range [OF sh assms(3)] in_bucket_range [OF sh assms(3)] by simp
  show ?thesis
  proof (cases "160 \<le> fbit ?fs i")
    case True
    then have "fbit ?fs i = 160" using sh assms(3) by (auto simp: shape_ok_def intro: order_antisym)
    then have "ftop ?fs i = be_val (b_first (?bs ! i)) + 1" using sh assms(3) by (simp add: shape_ok_def)
    with True rnd assms(3) show ?thesis by (simp add: bucket_middle_fmid)
  next
    case False
    then have lt: "fbit ?fs i < 160" by simp
    have i: "i < length ?fs" using assms(3) by simp
    note m = fmid_props [OF sh i lt]
    have "in_bucket (fmid ?fs i) ?bs i"
      using m(1,4,5) in_bucket_range [OF sh assms(3)] assms(3) by (simp add: frange_def)
    moreover have "fmid ?fs i \<noteq> b_first (?bs ! i)" using m(4) assms(3) by auto
    ultimately show ?thesis using False rnd m(1,3,6) assms(3) by (simp add: bucket_middle_fmid)
  qed
qed

theorem bucket_identifiers_inside_witness:
  "(case bucket_middle (table AF_INET demo_dht) 0 of
      None \<Rightarrow> ftop (firsts (table AF_INET demo_dht)) 0 = be_val (b_first (table AF_INET demo_dht ! 0)) + 1
    | Some m \<Rightarrow> id_ok m \<and> in_bucket m (table AF_INET demo_dht) 0 \<and> m \<noteq> b_first (table AF_INET demo_dht ! 0) \<and>
        2 * be_val m = be_val (b_first (table AF_INET demo_dht ! 0)) + ftop (firsts (table AF_INET demo_dht)) 0) \<and>
    in_bucket (fst (bucket_random (table AF_INET demo_dht) 0 demo_dht)) (table AF_INET demo_dht) 0"
  by (rule bucket_identifiers_inside [OF demo_tables_ok]) (simp_all add: family_ok_def)

section \<open>Splitting and learning\<close>

text \<open>C13. Splitting a bucket of a well-formed table keeps the table well-formed, loses and
  invents no node, and puts each node of the old bucket into the half its identifier
  belongs to.\<close>

theorem split_bucket_correct:
  assumes "tables_ok s" and "family_ok af" and "i < length (table af s)"
    and "bucket_middle (table af s) i = Some m" and "\<forall>k. env_calloc s k"
  shows "let s' = snd (split_bucket af i s)
    in tables_ok s' \<and> died s' = died s \<and>
       map b_first (table af s') = take (Suc i) (map b_first (table af s)) @ m #
         drop (Suc i) (map b_first (table af s)) \<and>
       (\<forall>n. in_table (table af s') n \<longleftrightarrow> in_table (table af s) n) \<and>
       (\<forall>k < length (table af s'). \<forall>n \<in> set (b_nodes (table af s' ! k)). in_bucket (n_id n) (table af s') k)"
proof -
  let ?s = "snd (split_bucket af i s)" and ?fs = "firsts (table af s)"
  note ok = tables_ok_table [OF assms(1,2)]
  have bit: "fbit ?fs i < 160" and m: "m = fmid ?fs i"
    using assms(3,4) by (auto simp: bucket_middle_fmid split: if_splits)
  note sp = split_bucket_spec [OF ok assms(3) bit assms(5) refl]
  have ok': "tables_ok ?s" using assms(1) sp(1) assms(2) sp(2) by (rule tables_ok_frame)
  have "in_bucket (n_id n) (table af ?s) k"
    if "k < length (table af ?s)" "n \<in> set (b_nodes (table af ?s ! k))" for k n
    using table_ok_bucket [OF sp(2) that(1)] table_ok_shape [OF sp(2) that(1)] that
    by (simp add: in_bucket_range bucket_ok_def nodes_ok_def node_ok_def)
  then show ?thesis
    using ok' frame_eq(2) [OF sp(1)] sp(3,4) m by (simp add: Let_def firsts_def fsplit_def)
qed

theorem split_bucket_correct_witness:
  "let s' = snd (split_bucket AF_INET 0 demo_dht)
    in tables_ok s' \<and> died s' = died demo_dht \<and>
       map b_first (table AF_INET s') = take (Suc 0) (map b_first (table AF_INET demo_dht)) @ (0x80 # replicate 19 0) #
         drop (Suc 0) (map b_first (table AF_INET demo_dht)) \<and>
       (\<forall>n. in_table (table AF_INET s') n \<longleftrightarrow> in_table (table AF_INET demo_dht) n) \<and>
       (\<forall>k < length (table AF_INET s'). \<forall>n \<in> set (b_nodes (table AF_INET s' ! k)).
         in_bucket (n_id n) (table AF_INET s') k)"
proof (rule split_bucket_correct [OF demo_tables_ok])
  show "bucket_middle (table AF_INET demo_dht) 0 = Some (0x80 # replicate 19 0)"
    by (simp add: bucket_middle_def bucket_bit_def demo_bucket_def lowbit_zeroes set_bit_at_def)
      (simp add: zeroes_def numeral_eq_Suc)
qed (simp_all add: family_ok_def)

text \<open>C2. Learning about a node always ends when memory can be allocated (its recursion is at
  most 161 deep), crashes nowhere and keeps both tables well-formed; a node it returns is
  the one \<open>find_node\<close> finds for that identifier from then on; no other identifier enters
  the table, and only nodes that failed three requests and were not pinged in the last 15
  seconds can leave it.\<close>

theorem new_node_correct:
  assumes "tables_ok s" and "family_ok (sa_family sa)" and "id_ok x" and "salen \<noteq> 0"
    and "\<forall>k. env_calloc s k" and "161 \<le> env_depth s" and "died s = None"
    and "sa_ok sa"
  shows "let af = sa_family sa; (r, s') = new_node x sa salen confirm s
    in died s' = None \<and> tables_ok s' \<and>
       (r \<noteq> None \<longrightarrow> find_node x af s' = r) \<and>
       (\<forall>n. in_table (table af s) n \<longrightarrow> safe_node (now_sec s) n \<longrightarrow> find_node (n_id n) af s' \<noteq> None) \<and>
       (\<forall>n. in_table (table af s') n \<longrightarrow> n_id n = x \<or> id_in (n_id n) (table af s))"
proof -
  let ?af = "sa_family sa"
  obtain r s' where r: "new_node x sa salen confirm s = (r, s')" by fastforce
  note ok = tables_ok_table [OF assms(1,2)]
  have me: "id_ok (myid s)" using assms(1) by (simp add: tables_ok_def)
  have l: "learned ?af x s (r, s')"
    using new_node_learned [OF ok refl assms(3) me assms(4,5,6,8), of confirm] r by simp
  then have fr: "frame ?af s s'" and t': "table_ok ?af (myid s) (table ?af s')"
    by (simp_all add: learned_def)
  have ok': "tables_ok s'" using assms(1) fr assms(2) t' by (rule tables_ok_frame)
  have "find_node x ?af s' = r" if ne: "r \<noteq> None"
  proof -
    obtain i j where ij: "r = Some (i, j)" using ne by auto
    with l show ?thesis using find_node_found [OF t', of i j x] by (simp add: learned_def found_at_def)
  qed
  moreover have "find_node (n_id n) ?af s' \<noteq> None"
    if n: "in_table (table ?af s) n" "safe_node (now_sec s) n" for n
  proof -
    have "id_in (n_id n) (table ?af s')" using l n by (simp add: learned_def learns_def)
    then obtain i m where m: "i < length (table ?af s')" "m \<in> set (b_nodes (table ?af s' ! i))" "n_id m = n_id n"
      unfolding id_in_def in_table_nth by blast
    then obtain j where "j < length (b_nodes (table ?af s' ! i))" "m = b_nodes (table ?af s' ! i) ! j"
      by (auto simp: in_set_conv_nth)
    then show ?thesis using find_node_found [OF t' m(1), of j "n_id n"] m(3) by (simp add: the_node_def)
  qed
  moreover have "\<forall>n. in_table (table ?af s') n \<longrightarrow> n_id n = x \<or> id_in (n_id n) (table ?af s)"
    using l by (simp add: learned_def learns_def)
  ultimately show ?thesis using ok' frame_eq(2) [OF fr] assms(7) by (simp add: r Let_def)
qed

theorem new_node_correct_witness:
  "let sa = \<lparr>sa_family = AF_INET, sa_port = [0, 90], sa_addr = [10, 0, 0, 9], sa_misc = []\<rparr>;
      (r, s') = new_node (9 # replicate 19 0) sa 16 2 demo_dht
    in died s' = None \<and> tables_ok s' \<and>
       (r \<noteq> None \<longrightarrow> find_node (9 # replicate 19 0) AF_INET s' = r)"
  using new_node_correct [OF demo_tables_ok, of
      "\<lparr>sa_family = AF_INET, sa_port = [0, 90], sa_addr = [10, 0, 0, 9], sa_misc = []\<rparr>"
      "9 # replicate 19 0" 16 2]
  by (simp add: family_ok_def case_prod_beta Let_def sa_ok_def)

text \<open>C21. Expiry keeps the tables well-formed and removes from every bucket exactly the nodes
  that have not answered four requests, in one pass and without changing the order of the
  others.\<close>

theorem expire_buckets_exact:
  assumes "tables_ok s" and "family_ok af"
  shows "tables_ok (expire_buckets af s) \<and> died (expire_buckets af s) = died s \<and>
    map b_first (table af (expire_buckets af s)) = map b_first (table af s) \<and>
    map b_nodes (table af (expire_buckets af s)) =
      map (filter (\<lambda>n. n_pinged n < 4)) (map b_nodes (table af s)) \<and>
    now_sec s + 120 \<le> expire_stuff_time (expire_buckets af s) \<and>
    expire_stuff_time (expire_buckets af s) < now_sec s + 360"
proof -
  note e = expire_buckets_table [OF tables_ok_table [OF assms]]
  have "tables_ok (expire_buckets af s)" using assms(1) e(1) assms(2) e(2) by (rule tables_ok_frame)
  moreover have "now_sec s + 120 \<le> expire_stuff_time (expire_buckets af s) \<and>
      expire_stuff_time (expire_buckets af s) < now_sec s + 360"
    using frame_eq(3) [OF e(1)] by (simp add: expire_buckets_def case_prod_beta Let_def)
  ultimately show ?thesis using e(3,4) frame_eq(2) [OF e(1)] by (simp add: firsts_def)
qed

theorem expire_buckets_exact_witness:
  "map (map n_id) (map b_nodes (table AF_INET (expire_buckets AF_INET demo_dht))) =
    [[1 # replicate 19 0, 200 # replicate 19 0]]"
  using expire_buckets_exact [OF demo_tables_ok, of AF_INET]
  by (simp add: family_ok_def demo_bucket_def demo_node_def)

end
