(* ===== verification/Dht_Search.thy ===== *)
theory Dht_Search
  imports Dht_Routing
begin

text \<open>
  Searches and the lists of closest nodes. A search keeps at most 14 nodes, nearest to the
  target first; a reply carries at most 8, in the same order. Both insert a node by the
  same scan. A pointer to a search is its index in the list \<open>searches\<close>, a pointer to one of
  its nodes an index too.
\<close>

section \<open>Searches\<close>

definition find_search :: "16 word \<Rightarrow> nat \<Rightarrow> dht \<Rightarrow> nat option" where
  "find_search tid af s = first_index (\<lambda>sr. sr_tid sr = tid \<and> sr_af sr = af) (searches s)"

definition upd_search :: "nat \<Rightarrow> (search \<Rightarrow> search) \<Rightarrow> dht \<Rightarrow> dht" where
  "upd_search k f s = s\<lparr>searches := (searches s)[k := f (searches s ! k)]\<rparr>"

definition upd_search_node :: "nat \<Rightarrow> nat \<Rightarrow> (search_node \<Rightarrow> search_node) \<Rightarrow> dht \<Rightarrow> dht" where
  "upd_search_node k i f s =
     upd_search k (\<lambda>sr. sr\<lparr>sr_nodes := (sr_nodes sr)[i := f (sr_nodes sr ! i)]\<rparr>) s"

text \<open>
  The loop that looks for the place of an identifier among those of a list: whether it is
  there already, and the index where it is or belongs.
\<close>

fun place_loop :: "byte list \<Rightarrow> byte list \<Rightarrow> byte list list \<Rightarrow> nat \<Rightarrow> bool \<times> nat" where
  "place_loop ident ref [] i = (False, i)"
| "place_loop ident ref (y # ys) i =
     (if id_cmp ident y = 0 then (True, i)
      else if xorcmp ident y ref < 0 then (False, i)
      else place_loop ident ref ys (Suc i))"

definition new_search_node :: "byte list \<Rightarrow> search_node" where
  "new_search_node ident =
     \<lparr>sn_id = ident, sn_ss = no_sockaddr, sn_sslen = 0, sn_request_time = 0, sn_reply_time = 0,
      sn_pinged = 0, sn_token = replicate 40 0, sn_token_len = 0, sn_replied = False, sn_acked = False\<rparr>"

text \<open>What happens at the label \<^verbatim>\<open>found\<close>. A token of 40 bytes or more is ignored.\<close>

definition note_search_node ::
    "int \<Rightarrow> sockaddr \<Rightarrow> int \<Rightarrow> bool \<Rightarrow> byte list option \<Rightarrow> search_node \<Rightarrow> search_node" where
  "note_search_node now sa salen replied token n =
     (let n1 = n\<lparr>sn_ss := sa, sn_sslen := salen\<rparr>;
          n2 = (if replied
                then n1\<lparr>sn_replied := True, sn_reply_time := now, sn_request_time := 0, sn_pinged := 0\<rparr>
                else n1)
      in case token of
           None \<Rightarrow> n2
         | Some t \<Rightarrow>
             if 40 \<le> length t then n2
             else n2\<lparr>sn_token := t @ drop (length t) (sn_token n2), sn_token_len := int (length t)\<rparr>)"

definition insert_search_node ::
    "int \<Rightarrow> byte list \<Rightarrow> sockaddr \<Rightarrow> int \<Rightarrow> bool \<Rightarrow> byte list option \<Rightarrow> search \<Rightarrow> bool \<times> search" where
  "insert_search_node now ident sa salen replied token sr =
     (if sa_family sa \<noteq> sr_af sr then (False, sr)
      else
        let nodes = sr_nodes sr;
            (found, i) = place_loop ident (sr_id sr) (map sn_id nodes) 0;
            note = note_search_node now sa salen replied token
        in if found then (True, sr\<lparr>sr_nodes := nodes[i := note (nodes ! i)]\<rparr>)
           else if i = SEARCH_NODES then (False, sr)
           else
             let numnodes = (if length nodes < SEARCH_NODES then length nodes + 1 else length nodes);
                 nodes' = take numnodes (take i nodes @ new_search_node ident # drop i nodes)
             in (True, sr\<lparr>sr_nodes := nodes'[i := note (nodes' ! i)]\<rparr>))"

definition flush_search_node :: "nat \<Rightarrow> search \<Rightarrow> search" where
  "flush_search_node i sr = sr\<lparr>sr_nodes := take i (sr_nodes sr) @ drop (Suc i) (sr_nodes sr)\<rparr>"

text \<open>The searches that stay, and how many are dropped.\<close>

fun expire_searches_loop :: "int \<Rightarrow> search list \<Rightarrow> search list \<times> nat" where
  "expire_searches_loop now [] = ([], 0)"
| "expire_searches_loop now (sr # srs) =
     (let (kept, n) = expire_searches_loop now srs
      in if sr_step_time sr < now - DHT_SEARCH_EXPIRE_TIME then (kept, Suc n)
         else (sr # kept, n))"

definition expire_searches :: "dht \<Rightarrow> dht" where
  "expire_searches s =
     (let (kept, n) = expire_searches_loop (now_sec s) (searches s)
      in s\<lparr>searches := kept, numsearches := numsearches s - int n\<rparr>)"

section \<open>Sending the requests of a search\<close>

definition may_ask :: "int \<Rightarrow> search_node \<Rightarrow> bool" where
  "may_ask now n \<longleftrightarrow> sn_pinged n < 3 \<and> \<not> sn_replied n \<and> sn_request_time n < now - 15"

text \<open>The loop for a NULL node has no \<^verbatim>\<open>break\<close>: the last candidate is taken.\<close>

fun last_candidate :: "int \<Rightarrow> search_node list \<Rightarrow> nat \<Rightarrow> nat option \<Rightarrow> nat option" where
  "last_candidate now [] i pick = pick"
| "last_candidate now (n # ns) i pick =
     last_candidate now ns (Suc i) (if may_ask now n then Some i else pick)"

text \<open>If the node is in the routing table, mark it as pinged there too.\<close>

definition mark_pinged :: "byte list \<Rightarrow> nat \<Rightarrow> dht \<Rightarrow> dht" where
  "mark_pinged ident af s =
     (case find_node ident af s of None \<Rightarrow> s | Some (i, j) \<Rightarrow> pinged af i j None s)"

definition search_send_get_peers :: "nat \<Rightarrow> nat option \<Rightarrow> dht \<Rightarrow> nat \<times> dht" where
  "search_send_get_peers k n s =
     (let sr = searches s ! k;
          n' = (case n of None \<Rightarrow> last_candidate (now_sec s) (sr_nodes sr) 0 None | Some i \<Rightarrow> Some i)
      in case n' of
           None \<Rightarrow> (0, s)
         | Some i \<Rightarrow>
             let n = sr_nodes sr ! i
             in if 3 \<le> sn_pinged n \<or> sn_replied n \<or> now_sec s - 15 \<le> sn_request_time n then (0, s)
                else
                  let s1 = snd (send_get_peers (sn_ss n) (sn_sslen n) (make_tid ''gp'' (sr_tid sr))
                                  (sr_id sr) (-1) (now_sec s - 15 \<le> sn_reply_time n) s);
                      s2 = upd_search_node k i
                             (\<lambda>n. n\<lparr>sn_pinged := sn_pinged n + 1, sn_request_time := now_sec s\<rparr>) s1
                  in (1, mark_pinged (sn_id n) (sa_family (sn_ss n)) s2))"

text \<open>Whether the first 8 live nodes have replied; \<open>j\<close> counts the live ones.\<close>

fun all_done_loop :: "search_node list \<Rightarrow> nat \<Rightarrow> bool" where
  "all_done_loop [] j = True"
| "all_done_loop (n # ns) j =
     (if j < 8
      then if 3 \<le> sn_pinged n then all_done_loop ns j
           else if \<not> sn_replied n then False
           else all_done_loop ns (Suc j)
      else True)"

text \<open>
  The loop that announces to the first 8 live nodes, over the indices still to visit. The
  length of the address given to \<open>send_announce_peer\<close> is that of the whole storage, 128.
\<close>

fun announce_loop :: "nat \<Rightarrow> nat list \<Rightarrow> nat \<Rightarrow> bool \<Rightarrow> dht \<Rightarrow> bool \<times> dht" where
  "announce_loop k [] j all_acked s = (all_acked, s)"
| "announce_loop k (i # is) j all_acked s =
     (if j < 8
      then
        let n = sr_nodes (searches s ! k) ! i
        in if 3 \<le> sn_pinged n then announce_loop k is j all_acked s
           else
             let s1 = (if sn_token_len n = 0
                       then upd_search_node k i (\<lambda>n. n\<lparr>sn_acked := True\<rparr>) s else s);
                 sr = searches s1 ! k;
                 n1 = sr_nodes sr ! i
             in if \<not> sn_acked n1
                then
                  let s2 = snd (send_announce_peer (sn_ss n1) 128 (make_tid ''ap'' (sr_tid sr)) (sr_id sr)
                                  (sr_port sr) (take (nat (sn_token_len n1)) (sn_token n1))
                                  (now_sec s - 15 \<le> sn_reply_time n1) s1);
                      s3 = upd_search_node k i
                             (\<lambda>n. n\<lparr>sn_pinged := sn_pinged n + 1, sn_request_time := now_sec s\<rparr>) s2;
                      s4 = mark_pinged (sn_id n1) (sa_family (sn_ss n1)) s3
                  in announce_loop k is (Suc j) False s4
                else announce_loop k is (Suc j) all_acked s1
      else (all_acked, s))"

fun get_peers_loop :: "nat \<Rightarrow> nat list \<Rightarrow> nat \<Rightarrow> dht \<Rightarrow> dht" where
  "get_peers_loop k [] j s = s"
| "get_peers_loop k (i # is) j s =
     (let (r, s1) = search_send_get_peers k (Some i) s
      in if 3 \<le> j + r then s1 else get_peers_loop k is (j + r) s1)"

definition log_event :: "event_kind \<Rightarrow> byte list \<Rightarrow> byte list \<Rightarrow> dht \<Rightarrow> dht" where
  "log_event k hash data s = s\<lparr>events := events s @ [\<lparr>ev_kind = k, ev_hash = hash, ev_data = data\<rparr>]\<rparr>"

definition search_done :: "nat \<Rightarrow> bool \<Rightarrow> dht \<Rightarrow> dht" where
  "search_done k callback s =
     (let s1 = upd_search k (\<lambda>sr. sr\<lparr>sr_done := True\<rparr>) s;
          sr = searches s1 ! k;
          s2 = (if callback
                then log_event (if sr_af sr = AF_INET then DHT_EVENT_SEARCH_DONE else DHT_EVENT_SEARCH_DONE6)
                       (sr_id sr) [] s1
                else s1)
      in upd_search k (\<lambda>sr. sr\<lparr>sr_step_time := now_sec s\<rparr>) s2)"

text \<open>\<open>callback\<close> says whether one is given.\<close>

definition search_step :: "nat \<Rightarrow> bool \<Rightarrow> dht \<Rightarrow> dht" where
  "search_step k callback s =
     (let sr = searches s ! k; is = [0..<length (sr_nodes sr)];
          stamp = upd_search k (\<lambda>sr. sr\<lparr>sr_step_time := now_sec s\<rparr>)
      in if all_done_loop (sr_nodes sr) 0
         then if sr_port sr = 0 then search_done k callback s
              else let (all_acked, s1) = announce_loop k is 0 True s
                   in if all_acked then search_done k callback s1 else stamp s1
         else if now_sec s \<le> sr_step_time sr + 15 then s
         else stamp (get_peers_loop k is 0 s))"

section \<open>Starting a search\<close>

fun oldest_loop :: "search list \<Rightarrow> nat \<Rightarrow> (nat \<times> int) option \<Rightarrow> (nat \<times> int) option" where
  "oldest_loop [] k oldest = oldest"
| "oldest_loop (sr # srs) k oldest =
     oldest_loop srs (Suc k)
       (if sr_done sr \<and> (case oldest of None \<Rightarrow> True | Some (_, t) \<Rightarrow> sr_step_time sr < t)
        then Some (k, sr_step_time sr) else oldest)"

definition zero_search :: search where
  "zero_search = \<lparr>sr_tid = 0, sr_af = 0, sr_step_time = 0, sr_id = replicate 20 0, sr_port = 0,
     sr_done = False, sr_nodes = []\<rparr>"

definition new_search :: "dht \<Rightarrow> nat option \<times> dht" where
  "new_search s =
     (let oldest = oldest_loop (searches s) 0 None
      in case oldest of
           Some (k, t) \<Rightarrow>
             if t < now_sec s - DHT_SEARCH_EXPIRE_TIME then (Some k, s)
             else if numsearches s < DHT_MAX_SEARCHES
             then let (ok, s1) = calloc s
                  in if ok then (Some 0, s1\<lparr>searches := zero_search # searches s1,
                                           numsearches := numsearches s1 + 1\<rparr>)
                     else (Some k, s1)
             else (Some k, s)
         | None \<Rightarrow>
             if numsearches s < DHT_MAX_SEARCHES
             then let (ok, s1) = calloc s
                  in if ok then (Some 0, s1\<lparr>searches := zero_search # searches s1,
                                           numsearches := numsearches s1 + 1\<rparr>)
                     else (None, s1)
             else (None, s))"

definition insert_search_bucket :: "int \<Rightarrow> bucket \<Rightarrow> search \<Rightarrow> search" where
  "insert_search_bucket now b sr =
     fold (\<lambda>n sr. snd (insert_search_node now (n_id n) (n_ss n) (n_sslen n) False None sr)) (b_nodes b) sr"

text \<open>
  The loop at the label \<^verbatim>\<open>again\<close>: a doubtful node is flushed and the loop starts over;
  another one is reset.
\<close>

definition doubtful :: "int \<Rightarrow> search_node \<Rightarrow> bool" where
  "doubtful now n \<longleftrightarrow> 3 \<le> sn_pinged n \<or> sn_reply_time n < now - 7200"

definition reset_search_node :: "search_node \<Rightarrow> search_node" where
  "reset_search_node n = n\<lparr>sn_pinged := 0, sn_token_len := 0, sn_replied := False, sn_acked := False\<rparr>"

function again_loop :: "int \<Rightarrow> search \<Rightarrow> nat \<Rightarrow> search" where
  "again_loop now sr i =
     (if i < length (sr_nodes sr)
      then if doubtful now (sr_nodes sr ! i)
           then again_loop now (flush_search_node i sr) 0
           else again_loop now
                  (sr\<lparr>sr_nodes := (sr_nodes sr)[i := reset_search_node (sr_nodes sr ! i)]\<rparr>) (Suc i)
      else sr)"
  by pat_completeness auto
termination
  by (relation "measures [\<lambda>(now, sr, i). length (sr_nodes sr), \<lambda>(now, sr, i). length (sr_nodes sr) - i]")
    (auto simp: flush_search_node_def)

declare again_loop.simps [simp del]

text \<open>The nodes of the bucket, then of its neighbours, then of our own bucket.\<close>

definition fill_search :: "nat \<Rightarrow> nat \<Rightarrow> dht \<Rightarrow> search \<Rightarrow> search" where
  "fill_search af i s sr =
     (let bs = table af s; ins = \<lambda>k. insert_search_bucket (now_sec s) (bs ! k);
          sr1 = ins i sr;
          sr2 = (if length (sr_nodes sr1) < SEARCH_NODES
                 then let sr' = (if Suc i < length bs then ins (Suc i) sr1 else sr1)
                      in case previous_bucket af i s of None \<Rightarrow> sr' | Some p \<Rightarrow> ins p sr'
                 else sr1)
      in if length (sr_nodes sr2) < SEARCH_NODES
         then case find_bucket (myid s) af s of None \<Rightarrow> sr2 | Some m \<Rightarrow> ins m sr2
         else sr2)"

definition dht_search :: "byte list \<Rightarrow> int \<Rightarrow> nat \<Rightarrow> bool \<Rightarrow> dht \<Rightarrow> int \<times> dht" where
  "dht_search ident port af callback s =
     (case find_bucket ident af s of
        None \<Rightarrow> (-1, s)
      | Some i \<Rightarrow>
          let (slot, s1) =
                (case first_index (\<lambda>sr. sr_af sr = af \<and> id_cmp (sr_id sr) ident = 0) (searches s) of
                   Some k \<Rightarrow> (Some k, upd_search k (\<lambda>sr. again_loop (now_sec s) (sr\<lparr>sr_done := False\<rparr>) 0) s)
                 | None \<Rightarrow>
                     let (slot, s') = new_search s
                     in case slot of
                          None \<Rightarrow> (None, s')
                        | Some k \<Rightarrow>
                            (Some k, upd_search k (\<lambda>sr. sr\<lparr>sr_af := af, sr_tid := search_id s', sr_step_time := 0,
                                        sr_id := ident, sr_done := False, sr_nodes := []\<rparr>)
                                      (s'\<lparr>search_id := search_id s' + 1\<rparr>)))
          in case slot of
               None \<Rightarrow> (-1, s1)
             | Some k \<Rightarrow>
                 let s2 = upd_search k (\<lambda>sr. fill_search af i s1 (sr\<lparr>sr_port := of_int port\<rparr>)) s1;
                     s3 = search_step k callback s2
                 in (1, s3\<lparr>search_time := now_sec s\<rparr>))"

section \<open>The closest nodes\<close>

text \<open>
  The array \<open>nodes\<close> of a reply as the list of its entries: identifier, address and port. A
  node of another family aborts.
\<close>

definition compact_node :: "node \<Rightarrow> byte list res" where
  "compact_node n =
     (if sa_family (n_ss n) = AF_INET \<or> sa_family (n_ss n) = AF_INET6
      then Inr (n_id n @ sa_addr (n_ss n) @ sa_port (n_ss n))
      else Inl Aborted)"

definition insert_closest_node :: "byte list \<Rightarrow> byte list list \<Rightarrow> node \<Rightarrow> byte list list res" where
  "insert_closest_node ident nodes n =
     rbind (compact_node n) (\<lambda>e.
       let (found, i) = place_loop (n_id n) ident (map (take 20) nodes) 0
       in if found then Inr nodes
          else if i = 8 then Inr nodes
          else let numnodes = (if length nodes < 8 then length nodes + 1 else length nodes)
               in Inr (take numnodes (take i nodes @ e # drop i nodes)))"

fun buffer_closest_nodes :: "dht \<Rightarrow> byte list \<Rightarrow> byte list list \<Rightarrow> node list \<Rightarrow> byte list list res" where
  "buffer_closest_nodes s ident nodes [] = Inr nodes"
| "buffer_closest_nodes s ident nodes (n # ns) =
     rbind (if node_good s n then insert_closest_node ident nodes n else Inr nodes)
       (\<lambda>nodes'. buffer_closest_nodes s ident nodes' ns)"

definition closest_nodes :: "nat \<Rightarrow> byte list \<Rightarrow> dht \<Rightarrow> byte list list res" where
  "closest_nodes af ident s =
     (case find_bucket ident af s of
        None \<Rightarrow> Inr []
      | Some i \<Rightarrow>
          let bs = table af s
          in rbind (buffer_closest_nodes s ident [] (b_nodes (bs ! i))) (\<lambda>nodes1.
             rbind (if Suc i < length bs then buffer_closest_nodes s ident nodes1 (b_nodes (bs ! Suc i))
                    else Inr nodes1) (\<lambda>nodes2.
             case previous_bucket af i s of
               None \<Rightarrow> Inr nodes2
             | Some p \<Rightarrow> buffer_closest_nodes s ident nodes2 (b_nodes (bs ! p)))))"

definition send_closest_nodes ::
    "sockaddr \<Rightarrow> int \<Rightarrow> byte list \<Rightarrow> byte list \<Rightarrow> int \<Rightarrow> nat \<Rightarrow> storage option \<Rightarrow> byte list \<Rightarrow>
     dht \<Rightarrow> int \<times> dht" where
  "send_closest_nodes sa salen tid ident want af st token s =
     (let want' = (if want < 0 then if sa_family sa = AF_INET then WANT4 else WANT6 else want);
          r = rbind (if want' AND WANT4 \<noteq> 0 then closest_nodes AF_INET ident s else Inr []) (\<lambda>nodes.
              rbind (if want' AND WANT6 \<noteq> 0 then closest_nodes AF_INET6 ident s else Inr []) (\<lambda>nodes6.
              Inr (nodes, nodes6)))
      in case r of
           Inl f \<Rightarrow> (0, die f s)
         | Inr (nodes, nodes6) \<Rightarrow>
             send_nodes_peers sa salen tid (concat nodes) (concat nodes6) af st token s)"

end
