(* ===== verification/Dht_Search_Props.thy ===== *)
theory Dht_Search_Props
  imports Dht_Search Dht_Table_Props
begin

text \<open>
  The properties of searches and of the lists of closest nodes: they stay sorted by distance
  and bounded, keep the best candidates, and every step of a search keeps the invariants
  of the searches and of the routing table.
\<close>

section \<open>Finding the place of an identifier\<close>

abbreviation closer :: "byte list \<Rightarrow> byte list \<Rightarrow> byte list \<Rightarrow> int" where
  "closer ref \<equiv> (\<lambda>a b. xorcmp a b ref)"

lemmas closer_order = comparator.cmp_not_less [OF comparator_xorcmp]
lemmas closer_insert = comparator.ordered_insert [OF comparator_xorcmp]
lemmas closer_best = comparator.capped_insert_best [OF comparator_xorcmp]
lemmas closer_distinct = comparator.ordered_distinct [OF comparator_xorcmp]

lemma place_loop_spec:
  assumes "id_ok x" "id_ok ref" "\<forall>y \<in> set ys. id_ok y" "place_loop x ref ys k = (found, i)"
  shows "k \<le> i \<and> (if found then i - k < length ys \<and> ys ! (i - k) = x
    else i - k \<le> length ys \<and> (\<forall>y \<in> set (take (i - k) ys). closer ref y x < 0) \<and>
      (i - k < length ys \<longrightarrow> closer ref x (ys ! (i - k)) < 0))"
  using assms(3,4)
proof (induction ys arbitrary: k)
  case Nil
  then show ?case by simp
next
  case (Cons y ys)
  have y: "id_cmp x y = 0 \<longleftrightarrow> x = y" using Cons.prems assms(1) by (auto simp: id_cmp_zero)
  consider "x = y" | "x \<noteq> y" "closer ref x y < 0" | "x \<noteq> y" "\<not> closer ref x y < 0" by blast
  then show ?case
  proof cases
    case 3
    then have "closer ref y x < 0" using closer_order [OF assms(2), of x y] assms(1) Cons.prems by simp
    moreover have "place_loop x ref ys (Suc k) = (found, i)" using 3 y Cons.prems by simp
    with Cons.IH [of "Suc k"] Cons.prems
    have IH: "Suc k \<le> i \<and> (if found then i - Suc k < length ys \<and> ys ! (i - Suc k) = x
      else i - Suc k \<le> length ys \<and> (\<forall>y \<in> set (take (i - Suc k) ys). closer ref y x < 0) \<and>
        (i - Suc k < length ys \<longrightarrow> closer ref x (ys ! (i - Suc k)) < 0))" by simp
    moreover from IH have "i - k = Suc (i - Suc k)" by linarith
    ultimately show ?thesis by (auto split: if_splits)
  qed (use y Cons.prems in auto)
qed

text \<open>Inserting at that place into a sorted list and cutting it to its capacity.\<close>

lemma place_insert:
  assumes "id_ok x" "id_ok ref" "\<forall>y \<in> set ys. id_ok y" "ordered_by (closer ref) ys"
    and "place_loop x ref ys 0 = (False, i)" "ys' = take cap (take i ys @ x # drop i ys)"
  shows "ordered_by (closer ref) ys'" and "\<forall>y \<in> set ys'. id_ok y" and "set ys' \<subseteq> insert x (set ys)"
    and "x \<notin> set ys" and "i \<le> length ys"
    and "z \<in> set ys' \<Longrightarrow> y \<in> insert x (set ys) \<Longrightarrow> y \<notin> set ys' \<Longrightarrow> closer ref z y < 0"
proof -
  have i: "i \<le> length ys" "\<forall>y \<in> set (take i ys). closer ref y x < 0"
    "i < length ys \<Longrightarrow> closer ref x (ys ! i) < 0"
    using place_loop_spec [OF assms(1-3,5)] by auto
  have ok: "\<forall>y \<in> set (take i ys @ drop i ys). id_ok y" using assms(3) by simp
  have hd: "drop i ys = [] \<or> closer ref x (hd (drop i ys)) < 0"
    using i(3) by (cases "i < length ys") (simp_all add: hd_drop_conv_nth)
  have ord: "ordered_by (closer ref) (take i ys @ x # drop i ys)"
    using assms(4) by (intro closer_insert [OF assms(2,1) ok _ i(2) hd]) simp
  then show "ordered_by (closer ref) ys'" unfolding assms(6) by (rule ordered_by_take)
  have "distinct (take i ys @ x # drop i ys)"
    using assms(1) ok by (intro closer_distinct [OF assms(2) _ ord]) (metis Un_iff insert_iff list.simps(15) set_append)
  then have "x \<notin> set (take i ys) \<union> set (drop i ys)" by auto
  then show "x \<notin> set ys" by (metis append_take_drop_id set_append)
  show "i \<le> length ys" by (rule i(1))
  have sub: "set (take i ys @ x # drop i ys) = insert x (set ys)"
    by (metis Un_insert_right append_take_drop_id list.simps(15) set_append)
  then show "set ys' \<subseteq> insert x (set ys)" unfolding assms(6) by (metis set_take_subset)
  then show "\<forall>y \<in> set ys'. id_ok y" using assms(1,3) by auto
  show "closer ref z y < 0" if "z \<in> set ys'" "y \<in> insert x (set ys)" "y \<notin> set ys'"
    using closer_best [OF assms(2) ord, of z cap y] that unfolding assms(6) by simp
qed

section \<open>The invariant of a search\<close>

definition sentry_ok :: "nat \<Rightarrow> search_node \<Rightarrow> bool" where
  "sentry_ok af n \<longleftrightarrow> id_ok (sn_id n) \<and> sa_family (sn_ss n) = af \<and> sn_sslen n \<noteq> 0 \<and>
     length (sn_token n) = 40 \<and> 0 \<le> sn_token_len n \<and> sn_token_len n < 40"

definition search_ok :: "search \<Rightarrow> bool" where
  "search_ok sr \<longleftrightarrow> id_ok (sr_id sr) \<and> family_ok (sr_af sr) \<and> length (sr_nodes sr) \<le> SEARCH_NODES \<and>
     ordered_by (closer (sr_id sr)) (map sn_id (sr_nodes sr)) \<and>
     (\<forall>n \<in> set (sr_nodes sr). sentry_ok (sr_af sr) n)"

definition searches_ok :: "dht \<Rightarrow> bool" where
  "searches_ok s \<longleftrightarrow> (\<forall>sr \<in> set (searches s). search_ok sr)"

lemma search_ids_ok: "search_ok sr \<Longrightarrow> \<forall>y \<in> set (map sn_id (sr_nodes sr)). id_ok y"
  by (auto simp: search_ok_def sentry_ok_def)

lemma note_simps [simp]:
  "sn_id (note_search_node now sa salen replied token n) = sn_id n"
  "sn_ss (note_search_node now sa salen replied token n) = sa"
  "sn_sslen (note_search_node now sa salen replied token n) = salen"
  by (auto simp: note_search_node_def Let_def split: option.split)

lemma note_token_ok:
  assumes "length (sn_token n) = 40" "0 \<le> sn_token_len n" "sn_token_len n < 40"
  shows "length (sn_token (note_search_node now sa salen replied token n)) = 40 \<and>
    0 \<le> sn_token_len (note_search_node now sa salen replied token n) \<and>
    sn_token_len (note_search_node now sa salen replied token n) < 40"
  using assms by (auto simp: note_search_node_def Let_def split: option.split)

lemma ordered_upd_same:
  assumes "j < length ns" "sn_id n = sn_id (ns ! j)"
  shows "map sn_id (ns[j := n]) = map sn_id ns"
  using assms by (simp add: map_update list_update_same_conv)

text \<open>The result of an insertion on the identifiers, and that it keeps the invariant.\<close>

definition insert_ids :: "byte list \<Rightarrow> byte list \<Rightarrow> nat \<Rightarrow> byte list list \<Rightarrow> byte list list" where
  "insert_ids x ref cap ys =
     (let (found, i) = place_loop x ref ys 0
      in if found then ys else take cap (take i ys @ x # drop i ys))"

lemma insert_search_node_spec:
  assumes "search_ok sr" "id_ok x" "sa_family sa = sr_af sr" "salen \<noteq> 0"
    and "insert_search_node now x sa salen replied token sr = (ok, sr')"
  shows "search_ok sr'" and "map sn_id (sr_nodes sr') = insert_ids x (sr_id sr) SEARCH_NODES (map sn_id (sr_nodes sr))"
    and "sr_id sr' = sr_id sr" and "sr_af sr' = sr_af sr" and "sr_tid sr' = sr_tid sr"
    and "ok \<longleftrightarrow> x \<in> set (map sn_id (sr_nodes sr'))"
proof -
  let ?ns = "sr_nodes sr"
  let ?ids = "map sn_id ?ns"
  let ?note = "note_search_node now sa salen replied token"
  obtain found i where p: "place_loop x (sr_id sr) ?ids 0 = (found, i)" by fastforce
  have id: "id_ok (sr_id sr)" and len: "length ?ns \<le> SEARCH_NODES"
    and ord: "ordered_by (closer (sr_id sr)) ?ids" and es: "\<forall>n \<in> set ?ns. sentry_ok (sr_af sr) n"
    using assms(1) by (auto simp: search_ok_def)
  note ids = search_ids_ok [OF assms(1)]
  note spec = place_loop_spec [OF assms(2) id ids p]
  have new: "length (sn_token (new_search_node x)) = 40" "sn_token_len (new_search_node x) = 0"
    "sn_id (new_search_node x) = x"
    by (simp_all add: new_search_node_def)
  have "search_ok sr' \<and> map sn_id (sr_nodes sr') = insert_ids x (sr_id sr) SEARCH_NODES ?ids \<and>
    sr_id sr' = sr_id sr \<and> sr_af sr' = sr_af sr \<and> sr_tid sr' = sr_tid sr \<and>
    (ok \<longleftrightarrow> x \<in> set (map sn_id (sr_nodes sr')))"
  proof (cases found)
    case True
    then have il: "i < length ?ns" using spec by simp
    with True have i: "i < length ?ns" "sn_id (?ns ! i) = x" using spec by auto
    have sr': "ok" "sr' = sr\<lparr>sr_nodes := ?ns[i := ?note (?ns ! i)]\<rparr>"
      using assms(3,5) p True by (simp_all add: insert_search_node_def Let_def)
    have e: "sentry_ok (sr_af sr) (?ns ! i)" using es i(1) by simp
    then have "sentry_ok (sr_af sr) (?note (?ns ! i))"
      using assms(3,4) note_token_ok [of "?ns ! i"] by (simp add: sentry_ok_def)
    then have "\<forall>n \<in> set (?ns[i := ?note (?ns ! i)]). sentry_ok (sr_af sr) n"
      using es set_update_subset_insert [of ?ns i "?note (?ns ! i)"] by auto
    moreover have "map sn_id (?ns[i := ?note (?ns ! i)]) = ?ids"
      using i(1) by (simp add: ordered_upd_same)
    moreover have "x \<in> set ?ids" using i nth_mem [OF i(1)] by auto
    ultimately show ?thesis
      using sr' assms(1) True p by (simp add: search_ok_def insert_ids_def)
  next
    case False
    have i: "i \<le> length ?ns" using spec False by simp
    have p': "place_loop x (sr_id sr) ?ids 0 = (False, i)" using p False by simp
    note ins = place_insert [OF assms(2) id ids ord p']
    let ?L = "take i ?ns @ new_search_node x # drop i ?ns"
    have mL: "map sn_id ?L = take i ?ids @ x # drop i ?ids" using new by (simp add: take_map drop_map)
    show ?thesis
    proof (cases "i = SEARCH_NODES")
      case True
      then have "length ?ns = i" using i len by simp
      then have "take SEARCH_NODES (take i ?ids @ x # drop i ?ids) = ?ids" using True by simp
      moreover have "\<not> ok" "sr' = sr" using assms(3,5) p True False by (simp_all add: insert_search_node_def Let_def)
      ultimately show ?thesis using p False assms(1) ins(4) [OF refl] by (simp add: insert_ids_def)
    next
      case less: False
      define num where "num = (if length ?ns < SEARCH_NODES then length ?ns + 1 else length ?ns)"
      have inum: "i < num" "num \<le> SEARCH_NODES" "num \<le> length ?L"
        using i len less by (auto simp: num_def)
      have tk: "take num ?L = take SEARCH_NODES ?L"
        using len i by (auto simp: num_def)
      let ?ns' = "take SEARCH_NODES ?L"
      have li: "i < length ?ns'" "?ns' ! i = new_search_node x"
        using inum tk i by (auto simp: nth_append min_def)
      have sr': "ok" "sr' = sr\<lparr>sr_nodes := ?ns'[i := ?note (?ns' ! i)]\<rparr>"
        using assms(3,5) p False less tk by (simp_all add: insert_search_node_def Let_def num_def [symmetric])
      have m: "map sn_id (?ns'[i := ?note (?ns' ! i)]) = take SEARCH_NODES (take i ?ids @ x # drop i ?ids)"
        using ordered_upd_same [OF li(1), of "?note (?ns' ! i)"] mL by (simp add: take_map [symmetric])
      have "sentry_ok (sr_af sr) (?note (new_search_node x))"
        using assms(2-4) note_token_ok [of "new_search_node x"] new by (simp add: sentry_ok_def)
      moreover have "set ?ns' \<subseteq> insert (new_search_node x) (set ?ns)"
        by (auto dest!: in_set_takeD in_set_dropD)
      moreover have "set (?ns'[i := ?note (new_search_node x)]) \<subseteq>
          insert (?note (new_search_node x)) (set ?ns)"
      proof
        fix n
        assume "n \<in> set (?ns'[i := ?note (new_search_node x)])"
        then obtain k where k: "k < length ?ns'" "n = ?ns'[i := ?note (new_search_node x)] ! k"
          by (auto simp: in_set_conv_nth)
        show "n \<in> insert (?note (new_search_node x)) (set ?ns)"
        proof (cases "k = i")
          case True
          with k li show ?thesis by simp
        next
          case False
          have kl: "k < length ?L" "k < SEARCH_NODES" using k(1) unfolding length_take by simp_all
          have "n = ?ns' ! k" unfolding k(2) by (rule nth_list_update_neq) (use False in simp)
          also have "\<dots> = ?L ! k" using kl(2) by (rule nth_take)
          finally have "n = ?L ! k" .
          moreover have "?L ! k \<in> set ?ns"
          proof (cases "k < i")
            case True
            with i have "?L ! k = ?ns ! k" "k < length ?ns" by (simp_all add: nth_append)
            then show ?thesis by simp
          next
            case False
            with \<open>k \<noteq> i\<close> have k': "k = Suc (k - 1)" "i \<le> k - 1" by simp_all
            then have "?L ! k = ?ns ! (k - 1)" "k - 1 < length ?ns"
              using i kl(1) by (simp_all add: nth_append nth_Cons')
            then show ?thesis by simp
          qed
          ultimately show ?thesis by simp
        qed
      qed
      ultimately have "\<forall>n \<in> set (?ns'[i := ?note (?ns' ! i)]). sentry_ok (sr_af sr) n"
        using es li(2) by auto
      moreover have "x \<in> set (take SEARCH_NODES (take i ?ids @ x # drop i ?ids))"
      proof -
        let ?I = "take i ?ids @ x # drop i ?ids"
        have "i < SEARCH_NODES" "i < length ?I" "?I ! i = x"
          using inum i by (simp_all add: nth_append min_def)
        moreover from this have "take SEARCH_NODES ?I ! i = x" by (metis nth_take)
        ultimately have "i < length (take SEARCH_NODES ?I)" "take SEARCH_NODES ?I ! i = x"
          unfolding length_take by simp_all
        then show ?thesis by (metis nth_mem)
      qed
      ultimately show ?thesis
        using sr' assms(1) p False m ins(1) [OF refl] by (simp add: search_ok_def insert_ids_def)
    qed
  qed
  then show "search_ok sr'" "map sn_id (sr_nodes sr') = insert_ids x (sr_id sr) SEARCH_NODES ?ids"
    "sr_id sr' = sr_id sr" "sr_af sr' = sr_af sr" "sr_tid sr' = sr_tid sr"
    "ok \<longleftrightarrow> x \<in> set (map sn_id (sr_nodes sr'))"
    by blast+
qed

lemma insert_search_bucket_ok:
  assumes "search_ok sr" "\<forall>n \<in> set ns. id_ok (n_id n) \<and> sa_family (n_ss n) = sr_af sr \<and> n_sslen n \<noteq> 0"
    and "sr' = fold (\<lambda>n sr. snd (insert_search_node now (n_id n) (n_ss n) (n_sslen n) False None sr)) ns sr"
  shows "search_ok sr' \<and> sr_id sr' = sr_id sr \<and> sr_af sr' = sr_af sr \<and> sr_tid sr' = sr_tid sr"
  using assms
proof (induction ns arbitrary: sr)
  case (Cons n ns)
  obtain ok sr1 where i: "insert_search_node now (n_id n) (n_ss n) (n_sslen n) False None sr = (ok, sr1)"
    by fastforce
  have "search_ok sr1" "sr_id sr1 = sr_id sr" "sr_af sr1 = sr_af sr" "sr_tid sr1 = sr_tid sr"
    using insert_search_node_spec [OF Cons.prems(1) _ _ _ i] Cons.prems(2) by simp_all
  then show ?case using Cons.IH [of sr1] Cons.prems(2,3) i by simp
qed simp

text \<open>Restarting a search keeps the nodes that are not doubtful, reset.\<close>

lemma reset_simps [simp]:
  "reset_search_node (reset_search_node n) = reset_search_node n"
  "sn_id (reset_search_node n) = sn_id n"
  "\<not> doubtful now n \<Longrightarrow> \<not> doubtful now (reset_search_node n)"
  by (simp_all add: reset_search_node_def doubtful_def)

lemma again_loop_nodes:
  assumes "\<forall>n \<in> set (take i (sr_nodes sr)). \<not> doubtful now n \<and> reset_search_node n = n"
  shows "again_loop now sr i = sr\<lparr>sr_nodes :=
    map reset_search_node (filter (\<lambda>n. \<not> doubtful now n) (sr_nodes sr))\<rparr>"
  using assms
proof (induction now sr i rule: again_loop.induct)
  case (1 now sr i)
  let ?ns = "sr_nodes sr"
  show ?case
  proof (cases "i < length ?ns")
    case False
    with "1.prems" have "\<forall>n \<in> set ?ns. \<not> doubtful now n \<and> reset_search_node n = n" by simp
    then have "filter (\<lambda>n. \<not> doubtful now n) ?ns = ?ns" "map reset_search_node ?ns = ?ns"
      by (simp_all add: map_idI)
    with False show ?thesis by (simp add: again_loop.simps [of now sr i])
  next
    case True
    let ?n = "?ns ! i"
    have ns: "?ns = take i ?ns @ ?n # drop (Suc i) ?ns" using True by (rule id_take_nth_drop)
    show ?thesis
    proof (cases "doubtful now ?n")
      case d: True
      have "filter (\<lambda>n. \<not> doubtful now n) ?ns =
          filter (\<lambda>n. \<not> doubtful now n) (take i ?ns @ drop (Suc i) ?ns)"
        using arg_cong [OF ns, of "filter (\<lambda>n. \<not> doubtful now n)"] d by simp
      with True d "1.IH"(1) show ?thesis
        by (simp add: again_loop.simps [of now sr i] flush_search_node_def)
    next
      case d: False
      let ?sr = "sr\<lparr>sr_nodes := ?ns[i := reset_search_node ?n]\<rparr>"
      have upd: "?ns[i := reset_search_node ?n] = take i ?ns @ reset_search_node ?n # drop (Suc i) ?ns"
        using True by (rule upd_conv_take_nth_drop)
      have "take (Suc i) (sr_nodes ?sr) = take i ?ns @ [reset_search_node ?n]"
        using True by (simp add: upd)
      then have "\<forall>n \<in> set (take (Suc i) (sr_nodes ?sr)). \<not> doubtful now n \<and> reset_search_node n = n"
        using "1.prems" d by auto
      then have "again_loop now ?sr (Suc i) = ?sr\<lparr>sr_nodes :=
          map reset_search_node (filter (\<lambda>n. \<not> doubtful now n) (sr_nodes ?sr))\<rparr>"
        using "1.IH"(2) True d by blast
      moreover have "map reset_search_node (filter (\<lambda>n. \<not> doubtful now n) (sr_nodes ?sr)) =
          map reset_search_node (filter (\<lambda>n. \<not> doubtful now n) ?ns)"
        using arg_cong [OF ns, of "\<lambda>xs. map reset_search_node (filter (\<lambda>n. \<not> doubtful now n) xs)"] d
        by (simp add: upd)
      ultimately show ?thesis using True d by (simp add: again_loop.simps [of now sr i])
    qed
  qed
qed

lemma again_loop_ok:
  assumes "search_ok sr"
  shows "search_ok (again_loop now sr 0)" and "sr_id (again_loop now sr 0) = sr_id sr"
    and "sr_af (again_loop now sr 0) = sr_af sr"
proof -
  have e: "again_loop now sr 0 = sr\<lparr>sr_nodes :=
      map reset_search_node (filter (\<lambda>n. \<not> doubtful now n) (sr_nodes sr))\<rparr>"
    by (simp add: again_loop_nodes)
  have ord: "ordered_by (closer (sr_id sr)) (map sn_id (sr_nodes sr))" using assms by (simp add: search_ok_def)
  have "ordered_by (closer (sr_id sr)) (map sn_id (filter (\<lambda>n. \<not> doubtful now n) (sr_nodes sr)))"
    using sorted_wrt_filter [of "\<lambda>a b. closer (sr_id sr) (sn_id a) (sn_id b) < 0" "sr_nodes sr"] ord
    by (simp add: ordered_by_def sorted_wrt_map)
  moreover have "length (filter (\<lambda>n. \<not> doubtful now n) (sr_nodes sr)) \<le> SEARCH_NODES"
    using assms by (intro le_trans [OF length_filter_le]) (simp add: search_ok_def)
  ultimately show "search_ok (again_loop now sr 0)"
    using assms unfolding e by (auto simp: search_ok_def sentry_ok_def reset_search_node_def o_def)
  show "sr_id (again_loop now sr 0) = sr_id sr" "sr_af (again_loop now sr 0) = sr_af sr"
    by (simp_all add: e)
qed

lemma expire_searches_loop_filter:
  "expire_searches_loop now srs =
    (filter (\<lambda>sr. now - DHT_SEARCH_EXPIRE_TIME \<le> sr_step_time sr) srs,
     length (filter (\<lambda>sr. sr_step_time sr < now - DHT_SEARCH_EXPIRE_TIME) srs))"
  by (induction srs) auto

section \<open>Steps that keep the invariants\<close>

definition core_ok :: "dht \<Rightarrow> bool" where
  "core_ok s \<longleftrightarrow> tables_ok s \<and> searches_ok s \<and> died s = None"

text \<open>What no step of a search changes: the searches' targets and the identifiers they hold.\<close>

definition search_shape :: "dht \<Rightarrow> (byte list \<times> nat \<times> 16 word \<times> byte list list) list" where
  "search_shape s = map (\<lambda>sr. (sr_id sr, sr_af sr, sr_tid sr, map sn_id (sr_nodes sr))) (searches s)"

definition timers :: "dht \<Rightarrow> int \<times> int \<times> int \<times> int \<times> int \<times> int" where
  "timers s = (dht_socket s, dht_socket6 s, search_time s, confirm_nodes_time s,
     rotate_secrets_time s, token_bucket_tokens s)"

lemma timers_simps [simp]:
  "timers (s\<lparr>searches := a\<rparr>) = timers s" "timers (s\<lparr>sent := b\<rparr>) = timers s"
  "timers (s\<lparr>events := c\<rparr>) = timers s"
  by (simp_all add: timers_def)

lemma timers_outside: "outside s' = outside s \<Longrightarrow> timers s' = timers s"
proof -
  have out: "timers (outside u) = timers u" for u by (simp add: timers_def outside_def)
  assume "outside s' = outside s"
  then have "timers (outside s') = timers (outside s)" by simp
  then show ?thesis by (simp only: out)
qed

definition node_ids :: "bucket list \<Rightarrow> byte list list list" where
  "node_ids bs = map (\<lambda>b. map n_id (b_nodes b)) bs"

lemma id_in_node_ids: "id_in x bs \<longleftrightarrow> (\<exists>ids \<in> set (node_ids bs). x \<in> set ids)"
  by (auto simp: id_in_def in_table_def node_ids_def)

lemma node_ids_upd:
  assumes "map b_nodes t' = (map b_nodes t)[i := (b_nodes (t ! i))[j := n]]"
    and "i < length t" "j < length (b_nodes (t ! i))" "n_id n = n_id (b_nodes (t ! i) ! j)"
  shows "node_ids t' = node_ids t"
proof -
  have m: "node_ids u = map (map n_id) (map b_nodes u)" for u by (simp add: node_ids_def)
  have "map n_id ((b_nodes (t ! i))[j := n]) = map n_id (b_nodes (t ! i))"
    using assms(3,4) by (simp add: map_update list_update_same_conv)
  then have "map (map n_id) (map b_nodes t') = map (map n_id) (map b_nodes t)"
    using assms(1,2) by (simp add: map_update list_update_same_conv del: map_map)
  then show ?thesis by (simp only: m)
qed

definition calm :: "dht \<Rightarrow> dht \<Rightarrow> bool" where
  "calm s s' \<longleftrightarrow> core_ok s' \<and> search_shape s' = search_shape s \<and> myid s' = myid s \<and>
     now_sec s' = now_sec s \<and> env_depth s' = env_depth s \<and>
     ((\<forall>k. env_calloc s k) \<longrightarrow> (\<forall>k. env_calloc s' k)) \<and>
     storages s' = storages s \<and> numstorage s' = numstorage s \<and>
     blacklist s' = blacklist s \<and> next_blacklisted s' = next_blacklisted s \<and>
     timers s' = timers s \<and>
     node_ids (buckets s') = node_ids (buckets s) \<and> node_ids (buckets6 s') = node_ids (buckets6 s) \<and>
     firsts (buckets s') = firsts (buckets s) \<and> firsts (buckets6 s') = firsts (buckets6 s)"

text \<open>A step that also tells the callback nothing and finishes no search.\<close>

definition quiet :: "dht \<Rightarrow> dht \<Rightarrow> bool" where
  "quiet s s' \<longleftrightarrow> calm s s' \<and> events s' = events s \<and>
     map sr_done (searches s') = map sr_done (searches s)"

lemma calm_refl: "core_ok s \<Longrightarrow> calm s s"
  by (simp add: calm_def)

lemma calm_trans: "calm s s' \<Longrightarrow> calm s' s'' \<Longrightarrow> calm s s''"
  by (simp add: calm_def)

lemma calm_core: "calm s s' \<Longrightarrow> core_ok s'"
  by (simp add: calm_def)

lemma calm_shape: "calm s s' \<Longrightarrow> search_shape s' = search_shape s"
  by (simp add: calm_def)

lemma quiet_calm: "quiet s s' \<Longrightarrow> calm s s'"
  by (simp add: quiet_def)

lemma quiet_refl: "core_ok s \<Longrightarrow> quiet s s"
  by (simp add: quiet_def calm_refl)

lemma quiet_trans: "quiet s s' \<Longrightarrow> quiet s' s'' \<Longrightarrow> quiet s s''"
  using calm_trans by (simp add: quiet_def) blast

lemma quiet_core: "quiet s s' \<Longrightarrow> core_ok s'"
  by (simp add: quiet_def calm_def)

lemma quiet_shape: "quiet s s' \<Longrightarrow> search_shape s' = search_shape s"
  by (simp add: quiet_def calm_def)

lemma shape_length:
  assumes "search_shape s' = search_shape s"
  shows "length (searches s') = length (searches s)"
    and "k < length (searches s) \<Longrightarrow> length (sr_nodes (searches s' ! k)) = length (sr_nodes (searches s ! k))"
proof -
  show l: "length (searches s') = length (searches s)"
    using arg_cong [OF assms, of length] by (simp add: search_shape_def)
  assume "k < length (searches s)"
  then have "map sn_id (sr_nodes (searches s' ! k)) = map sn_id (sr_nodes (searches s ! k))"
    using arg_cong [OF assms, of "\<lambda>xs. xs ! k"] l by (simp add: search_shape_def)
  then show "length (sr_nodes (searches s' ! k)) = length (sr_nodes (searches s ! k))"
    by (metis length_map)
qed

lemma table_searches [simp]: "table af (s\<lparr>searches := x\<rparr>) = table af s"
  by (simp add: table_def)

lemma tables_ok_simps [simp]:
  "tables_ok (s\<lparr>searches := x\<rparr>) = tables_ok s" "tables_ok (s\<lparr>sent := y\<rparr>) = tables_ok s"
  "tables_ok (s\<lparr>events := z\<rparr>) = tables_ok s"
  by (simp_all add: tables_ok_def)

lemma quiet_sent: "core_ok s \<Longrightarrow> quiet s (s\<lparr>sent := x\<rparr>)"
  by (simp add: quiet_def calm_def core_ok_def searches_ok_def search_shape_def)

lemma calm_event: "core_ok s \<Longrightarrow> calm s (log_event k h d s)"
  by (simp add: calm_def core_ok_def searches_ok_def search_shape_def log_event_def)

lemma calm_upd_search:
  assumes "core_ok s" "k < length (searches s)"
    and "search_ok (f (searches s ! k))" "sr_id (f (searches s ! k)) = sr_id (searches s ! k)"
    and "sr_af (f (searches s ! k)) = sr_af (searches s ! k)"
    and "sr_tid (f (searches s ! k)) = sr_tid (searches s ! k)"
    and "map sn_id (sr_nodes (f (searches s ! k))) = map sn_id (sr_nodes (searches s ! k))"
  shows "calm s (upd_search k f s)"
proof -
  have "search_shape (upd_search k f s) = search_shape s"
    using assms(2,4-7) by (simp add: search_shape_def upd_search_def map_update list_update_same_conv)
  moreover have "searches_ok (upd_search k f s)"
    using assms(1,3) set_update_subset_insert [of "searches s" k "f (searches s ! k)"]
    by (auto simp: searches_ok_def core_ok_def upd_search_def)
  ultimately show ?thesis using assms(1) by (simp add: calm_def core_ok_def upd_search_def)
qed

lemma quiet_upd_search:
  assumes "calm s (upd_search k f s)" "k < length (searches s)"
    and "sr_done (f (searches s ! k)) = sr_done (searches s ! k)"
  shows "quiet s (upd_search k f s)"
  using assms by (simp add: quiet_def upd_search_def map_update list_update_same_conv)

lemma searches_ok_nth: "core_ok s \<Longrightarrow> k < length (searches s) \<Longrightarrow> search_ok (searches s ! k)"
  by (simp add: core_ok_def searches_ok_def)

lemma search_ok_entry:
  "search_ok sr \<Longrightarrow> i < length (sr_nodes sr) \<Longrightarrow> sentry_ok (sr_af sr) (sr_nodes sr ! i)"
  by (simp add: search_ok_def)

lemma quiet_upd_node:
  assumes "core_ok s" "k < length (searches s)" "i < length (sr_nodes (searches s ! k))"
    and "\<And>n. sentry_ok (sr_af (searches s ! k)) n \<Longrightarrow> sentry_ok (sr_af (searches s ! k)) (f n)"
    and "\<And>n. sn_id (f n) = sn_id n"
  shows "quiet s (upd_search_node k i f s)"
proof -
  let ?sr = "searches s ! k"
  have ok: "search_ok ?sr" using assms(1,2) by (rule searches_ok_nth)
  have "map sn_id ((sr_nodes ?sr)[i := f (sr_nodes ?sr ! i)]) = map sn_id (sr_nodes ?sr)"
    using assms(3,5) by (simp add: ordered_upd_same)
  moreover have "\<forall>n \<in> set ((sr_nodes ?sr)[i := f (sr_nodes ?sr ! i)]). sentry_ok (sr_af ?sr) n"
    using ok assms(3,4) set_update_subset_insert [of "sr_nodes ?sr" i "f (sr_nodes ?sr ! i)"]
    by (auto simp: search_ok_def)
  ultimately show ?thesis
    using ok assms(1,2) unfolding upd_search_node_def
    by (intro quiet_upd_search calm_upd_search) (simp_all add: search_ok_def)
qed

lemma core_ok_table: "core_ok s \<Longrightarrow> family_ok af \<Longrightarrow> table_ok af (myid s) (table af s)"
  by (simp add: core_ok_def tables_ok_table)

text \<open>A step on the table that keeps its ranges is quiet.\<close>

lemma quiet_frame:
  assumes "core_ok s" "family_ok af" "frame af s s'" "table_ok af (myid s) (table af s')"
    and "firsts (table af s') = firsts (table af s)" "node_ids (table af s') = node_ids (table af s)"
  shows "quiet s s'"
proof -
  have o: "outside s' = outside s" using assms(3) by (simp add: frame_def)
  have other: "table a s' = table a s" if "(a = AF_INET) \<noteq> (af = AF_INET)" for a
    using assms(3) that by (auto simp: frame_def)
  have "tables_ok s'"
    using assms(1) tables_ok_frame [OF _ assms(3,2,4)] by (simp add: core_ok_def)
  moreover have "firsts (buckets s') = firsts (buckets s)" "firsts (buckets6 s') = firsts (buckets6 s)"
      "node_ids (buckets s') = node_ids (buckets s)" "node_ids (buckets6 s') = node_ids (buckets6 s)"
    using assms(2,5,6) other [of AF_INET] other [of AF_INET6]
    by (auto simp: family_ok_def table_def AF_INET_def AF_INET6_def split: if_splits)
  ultimately show ?thesis
    using assms(1,3) outside_eq [OF o] timers_outside [OF o]
    by (simp add: quiet_def calm_def core_ok_def searches_ok_def search_shape_def frame_def)
qed

lemma quiet_pinged:
  assumes "core_ok s" "family_ok af" "i < length (table af s)"
    and "j < length (b_nodes (table af s ! i))" "b = None \<or> (\<exists>k < length (table af s). b = Some k)"
  shows "quiet s (pinged af i j b s)"
proof -
  note p = pinged_table [OF core_ok_table [OF assms(1,2)] assms(3-5)]
  have "node_ids (table af (pinged af i j b s)) = node_ids (table af s)"
    using p(4) assms(3,4) by (rule node_ids_upd) simp
  with assms(1,2) p(1-3) show ?thesis by (rule quiet_frame)
qed

lemma quiet_mark_pinged:
  assumes "core_ok s" "family_ok af" "id_ok x"
  shows "quiet s (mark_pinged x af s)"
proof (cases "find_node x af s")
  case None
  then show ?thesis using assms(1) by (simp add: mark_pinged_def quiet_refl)
next
  case (Some p)
  obtain i j where p: "p = (i, j)" by fastforce
  note f = find_node_index [OF core_ok_table [OF assms(1,2)] assms(3) Some [unfolded p]]
  show ?thesis using quiet_pinged [OF assms(1,2) f(1,2)] Some p by (simp add: mark_pinged_def)
qed

lemma quiet_send_or_fail:
  assumes "core_ok s" "salen \<noteq> 0"
  shows "quiet s (snd (send_or_fail m fl sa salen s))"
  using send_or_fail_sent [OF assms(2), of m fl sa s] quiet_sent [OF assms(1)] by metis

section \<open>The steps of a search\<close>

lemma last_candidate_less:
  "last_candidate now ns i pick = Some j \<Longrightarrow> (\<forall>p. pick = Some p \<longrightarrow> p < i) \<Longrightarrow> j < i + length ns"
  by (induction now ns i pick rule: last_candidate.induct) (fastforce split: if_splits)+

definition ask_pick :: "nat \<Rightarrow> nat option \<Rightarrow> dht \<Rightarrow> nat option" where
  "ask_pick k n s = (case n of None \<Rightarrow> last_candidate (now_sec s) (sr_nodes (searches s ! k)) 0 None
     | Some i \<Rightarrow> Some i)"

lemma search_send_get_peers_quiet:
  assumes "core_ok s" "k < length (searches s)"
    and "\<forall>i. n = Some i \<longrightarrow> i < length (sr_nodes (searches s ! k))"
  shows "quiet s (snd (search_send_get_peers k n s))" and "fst (search_send_get_peers k n s) \<le> 1"
proof -
  let ?sr = "searches s ! k"
  have ok: "search_ok ?sr" using assms(1,2) by (rule searches_ok_nth)
  have "quiet s (snd (search_send_get_peers k n s)) \<and> fst (search_send_get_peers k n s) \<le> 1"
  proof (cases "ask_pick k n s")
    case None
    then show ?thesis using assms(1)
      by (cases n) (simp_all add: search_send_get_peers_def ask_pick_def quiet_refl Let_def)
  next
    case (Some i)
    then have i: "i < length (sr_nodes ?sr)"
      using assms(3) last_candidate_less [of "now_sec s" "sr_nodes ?sr" 0 None i]
      by (cases n) (simp_all add: ask_pick_def)
    let ?n = "sr_nodes ?sr ! i"
    have e: "sentry_ok (sr_af ?sr) ?n" using ok i by (rule search_ok_entry)
    define s1 where "s1 = snd (send_get_peers (sn_ss ?n) (sn_sslen ?n) (make_tid ''gp'' (sr_tid ?sr))
      (sr_id ?sr) (-1) (now_sec s - 15 \<le> sn_reply_time ?n) s)"
    define s2 where "s2 = upd_search_node k i
      (\<lambda>n. n\<lparr>sn_pinged := sn_pinged n + 1, sn_request_time := now_sec s\<rparr>) s1"
    have q1: "quiet s s1"
      using e quiet_send_or_fail [OF assms(1)] by (simp add: s1_def send_get_peers_def sentry_ok_def)
    note sh = shape_length [OF quiet_shape [OF q1]]
    have "quiet s1 s2"
      unfolding s2_def using quiet_core [OF q1] assms(2) i sh
      by (intro quiet_upd_node) (simp_all add: sentry_ok_def)
    with q1 have q2: "quiet s s2" by (rule quiet_trans)
    have "quiet s2 (mark_pinged (sn_id ?n) (sa_family (sn_ss ?n)) s2)"
      using quiet_core [OF q2] e ok by (intro quiet_mark_pinged) (simp_all add: sentry_ok_def search_ok_def)
    then have q3: "quiet s (mark_pinged (sn_id ?n) (sa_family (sn_ss ?n)) s2)"
      using q2 quiet_trans by blast
    have "search_send_get_peers k n s =
        (if 3 \<le> sn_pinged ?n \<or> sn_replied ?n \<or> now_sec s - 15 \<le> sn_request_time ?n then (0, s)
         else (1, mark_pinged (sn_id ?n) (sa_family (sn_ss ?n)) s2))"
      using Some unfolding search_send_get_peers_def ask_pick_def
      by (simp add: Let_def s2_def s1_def)
    with q3 assms(1) show ?thesis by (simp add: quiet_refl)
  qed
  then show "quiet s (snd (search_send_get_peers k n s))" "fst (search_send_get_peers k n s) \<le> 1"
    by simp_all
qed

lemma get_peers_loop_quiet:
  assumes "core_ok s" "k < length (searches s)" "\<forall>i \<in> set is. i < length (sr_nodes (searches s ! k))"
  shows "quiet s (get_peers_loop k is j s)"
  using assms
proof (induction "is" arbitrary: j s)
  case Nil
  then show ?case by (simp add: quiet_refl)
next
  case (Cons i "is")
  obtain r s1 where r: "search_send_get_peers k (Some i) s = (r, s1)" by fastforce
  then have q: "quiet s s1"
    using search_send_get_peers_quiet(1) [OF Cons.prems(1,2), of "Some i"] Cons.prems(3) by simp
  note sh = shape_length [OF quiet_shape [OF q]]
  have "quiet s1 (get_peers_loop k is (j + r) s1)"
    using Cons.IH [of s1] quiet_core [OF q] Cons.prems(2,3) sh by simp
  with q r show ?case by (auto intro: quiet_trans)
qed

lemma announce_loop_quiet:
  assumes "core_ok s" "k < length (searches s)" "\<forall>i \<in> set is. i < length (sr_nodes (searches s ! k))"
  shows "quiet s (snd (announce_loop k is j acked s))"
  using assms
proof (induction "is" arbitrary: j acked s)
  case Nil
  then show ?case by (simp add: quiet_refl)
next
  case (Cons i "is")
  let ?n = "sr_nodes (searches s ! k) ! i"
  have il: "i < length (sr_nodes (searches s ! k))" using Cons.prems(3) by simp
  show ?case
  proof (cases "j < 8")
    case False
    then show ?thesis using Cons.prems(1) by (simp add: quiet_refl)
  next
    case j: True
    show ?thesis
    proof (cases "3 \<le> sn_pinged ?n")
      case True
      then show ?thesis using Cons.IH [of s] Cons.prems j by simp
    next
      case np: False
      define s1 where "s1 = (if sn_token_len ?n = 0
        then upd_search_node k i (\<lambda>n. n\<lparr>sn_acked := True\<rparr>) s else s)"
      have q1: "quiet s s1"
        using quiet_upd_node [OF Cons.prems(1,2) il, of "\<lambda>n. n\<lparr>sn_acked := True\<rparr>"] quiet_refl [OF Cons.prems(1)]
        by (simp add: s1_def sentry_ok_def)
      note sh1 = shape_length [OF quiet_shape [OF q1]]
      have k1: "k < length (searches s1)" "i < length (sr_nodes (searches s1 ! k))"
        "\<forall>i \<in> set is. i < length (sr_nodes (searches s1 ! k))"
        using sh1 Cons.prems(2,3) by simp_all
      let ?sr = "searches s1 ! k"
      let ?n1 = "sr_nodes ?sr ! i"
      have ok: "search_ok ?sr" using quiet_core [OF q1] k1(1) by (rule searches_ok_nth)
      then have e: "sentry_ok (sr_af ?sr) ?n1" using k1(2) by (rule search_ok_entry)
      define s2 where "s2 = snd (send_announce_peer (sn_ss ?n1) 128 (make_tid ''ap'' (sr_tid ?sr)) (sr_id ?sr)
        (sr_port ?sr) (take (nat (sn_token_len ?n1)) (sn_token ?n1)) (now_sec s - 15 \<le> sn_reply_time ?n1) s1)"
      define s3 where "s3 = upd_search_node k i
        (\<lambda>n. n\<lparr>sn_pinged := sn_pinged n + 1, sn_request_time := now_sec s\<rparr>) s2"
      define s4 where "s4 = mark_pinged (sn_id ?n1) (sa_family (sn_ss ?n1)) s3"
      have q2: "quiet s1 s2"
        using quiet_send_or_fail [OF quiet_core [OF q1]] by (simp add: s2_def send_announce_peer_def)
      note sh2 = shape_length [OF quiet_shape [OF q2]]
      have "quiet s2 s3"
        unfolding s3_def using quiet_core [OF q2] k1 sh2 by (intro quiet_upd_node) (simp_all add: sentry_ok_def)
      then have q3: "quiet s1 s3" using q2 quiet_trans by blast
      have "quiet s3 s4"
        unfolding s4_def using quiet_core [OF q3] e ok
        by (intro quiet_mark_pinged) (simp_all add: sentry_ok_def search_ok_def)
      then have q4: "quiet s s4" using q3 q1 quiet_trans by blast
      note sh4 = shape_length [OF quiet_shape [OF q4]]
      have a: "announce_loop k (i # is) j acked s = (if \<not> sn_acked ?n1
          then announce_loop k is (Suc j) False s4 else announce_loop k is (Suc j) acked s1)"
        using j np by (simp add: Let_def s1_def [symmetric] s2_def [symmetric] s3_def [symmetric] s4_def [symmetric])
      show ?thesis
      proof (cases "sn_acked ?n1")
        case True
        have "quiet s1 (snd (announce_loop k is (Suc j) acked s1))"
          using Cons.IH [of s1] quiet_core [OF q1] k1 by simp
        with q1 have "quiet s (snd (announce_loop k is (Suc j) acked s1))" by (rule quiet_trans)
        with True a show ?thesis by simp
      next
        case False
        have "quiet s4 (snd (announce_loop k is (Suc j) False s4))"
          using Cons.IH [of s4] quiet_core [OF q4] Cons.prems(2,3) sh4 by simp
        with q4 have "quiet s (snd (announce_loop k is (Suc j) False s4))" by (rule quiet_trans)
        with False a show ?thesis by simp
      qed
    qed
  qed
qed

lemma search_stamp:
  assumes "core_ok s" "k < length (searches s)"
  shows "quiet s (upd_search k (\<lambda>sr. sr\<lparr>sr_step_time := x\<rparr>) s)"
    and "calm s (upd_search k (\<lambda>sr. sr\<lparr>sr_done := y\<rparr>) s)"
  using assms searches_ok_nth [OF assms] by (auto intro!: quiet_upd_search calm_upd_search simp: search_ok_def)

lemmas calm_stamp = quiet_calm [OF search_stamp(1)]

lemma search_done_calm:
  assumes "core_ok s" "k < length (searches s)"
  shows "calm s (search_done k callback s)"
proof -
  define s1 where "s1 = upd_search k (\<lambda>sr. sr\<lparr>sr_done := True\<rparr>) s"
  define s2 where "s2 = (if callback then log_event (if sr_af (searches s1 ! k) = AF_INET
      then DHT_EVENT_SEARCH_DONE else DHT_EVENT_SEARCH_DONE6) (sr_id (searches s1 ! k)) [] s1 else s1)"
  have q1: "calm s s1" using search_stamp(2) [OF assms] by (simp add: s1_def)
  have "calm s1 s2" using calm_event [OF calm_core [OF q1]] calm_refl [OF calm_core [OF q1]] by (simp add: s2_def)
  with q1 have q2: "calm s s2" by (rule calm_trans)
  have "calm s2 (upd_search k (\<lambda>sr. sr\<lparr>sr_step_time := now_sec s\<rparr>) s2)"
    using calm_stamp [OF calm_core [OF q2]] shape_length(1) [OF calm_shape [OF q2]] assms(2) by simp
  with q2 have "calm s (upd_search k (\<lambda>sr. sr\<lparr>sr_step_time := now_sec s\<rparr>) s2)" by (rule calm_trans)
  then show ?thesis
    unfolding search_done_def Let_def s1_def [symmetric] s2_def [symmetric] .
qed

lemma search_step_calm:
  assumes "core_ok s" "k < length (searches s)"
  shows "calm s (search_step k callback s)"
proof -
  let ?is = "[0..<length (sr_nodes (searches s ! k))]"
  obtain acked s1 where a: "announce_loop k ?is 0 True s = (acked, s1)" by fastforce
  have q1: "calm s s1" using quiet_calm [OF announce_loop_quiet [OF assms, of ?is 0 True]] a by simp
  have k1: "k < length (searches s1)" using shape_length(1) [OF calm_shape [OF q1]] assms(2) by simp
  have qg: "calm s (get_peers_loop k ?is 0 s)" using quiet_calm [OF get_peers_loop_quiet [OF assms]] by simp
  have kg: "k < length (searches (get_peers_loop k ?is 0 s))"
    using shape_length(1) [OF calm_shape [OF qg]] assms(2) by simp
  show ?thesis
    using a q1 qg calm_refl [OF assms(1)] search_done_calm [OF assms]
      calm_trans [OF q1 search_done_calm [OF calm_core [OF q1] k1]]
      calm_trans [OF q1 calm_stamp [OF calm_core [OF q1] k1]]
      calm_trans [OF qg calm_stamp [OF calm_core [OF qg] kg]]
    by (simp add: search_step_def Let_def)
qed

section \<open>Starting a search\<close>

lemma oldest_loop_less:
  "oldest_loop srs i old = Some (k, t) \<Longrightarrow> (\<forall>p. old = Some p \<longrightarrow> fst p < i) \<Longrightarrow> k < i + length srs"
  by (induction srs i old rule: oldest_loop.induct) (fastforce split: if_splits)+

text \<open>A new slot: every other search is one that was there.\<close>

lemma new_search_spec:
  assumes "core_ok s" "new_search s = (slot, s')"
  shows "frame AF_INET (s\<lparr>searches := searches s', numsearches := numsearches s'\<rparr>) s' \<and>
    table af s' = table af s \<and>
    (case slot of None \<Rightarrow> searches s' = searches s
     | Some k \<Rightarrow> k < length (searches s') \<and>
         (\<forall>j < length (searches s'). j \<noteq> k \<longrightarrow> search_ok (searches s' ! j)))"
proof -
  have ok: "\<forall>sr \<in> set (searches s). search_ok sr" using assms(1) by (simp add: core_ok_def searches_ok_def)
  have self: "s\<lparr>searches := searches s, numsearches := numsearches s\<rparr> = s" by simp
  obtain c s1 where c: "calloc s = (c, s1)" by fastforce
  have s1: "searches s1 = searches s" "numsearches s1 = numsearches s" "table af s1 = table af s"
    "frame AF_INET (s\<lparr>searches := x, numsearches := y\<rparr>) (s1\<lparr>searches := x, numsearches := y\<rparr>)" for x y
    using c by (auto simp: calloc_def table_def frame_def outside_def)
  have new: "\<forall>j < length (zero_search # searches s). j \<noteq> 0 \<longrightarrow> search_ok ((zero_search # searches s) ! j)"
    using ok by (auto simp: nth_Cons')
  have old: "k < length (searches s)" if "oldest_loop (searches s) 0 None = Some (k, t)" for k t
    using oldest_loop_less [OF that] by simp
  have tb: "table af (s1\<lparr>searches := x, numsearches := y\<rparr>) = table af s" for x y
    using c by (auto simp: calloc_def table_def)
  have ss: "s1\<lparr>searches := searches s1, numsearches := numsearches s1\<rparr> = s1" by simp
  note s1f = s1(4) [where x = "searches s1" and y = "numsearches s1", unfolded ss, unfolded s1(1,2)]
  show ?thesis
    using assms(2) c s1(1,2,3) s1(4) [where x = "zero_search # searches s" and y = "numsearches s + 1"] s1f tb self new ok old
    unfolding new_search_def Let_def
    by (auto split: option.splits if_splits simp: nth_Cons' less_Suc_eq)
qed

lemma nodes_for_search:
  assumes "table_ok af me bs" "k < length bs"
  shows "\<forall>n \<in> set (b_nodes (bs ! k)). id_ok (n_id n) \<and> sa_family (n_ss n) = af \<and> n_sslen n \<noteq> 0"
  using table_ok_bucket [OF assms] by (auto simp: bucket_ok_def nodes_ok_def node_ok_def)

lemma fill_search_ok:
  assumes "table_ok af me (table af s)" "id_ok (myid s)" "i < length (table af s)"
    and "search_ok sr" "sr_af sr = af"
  shows "search_ok (fill_search af i s sr)" and "sr_id (fill_search af i s sr) = sr_id sr"
proof -
  let ?bs = "table af s"
  let ?ins = "\<lambda>k. insert_search_bucket (now_sec s) (?bs ! k)"
  have ins: "search_ok (?ins k x) \<and> sr_id (?ins k x) = sr_id x \<and> sr_af (?ins k x) = af"
    if "k < length ?bs" "search_ok x" "sr_af x = af" for k x
    using insert_search_bucket_ok [OF that(2) _ refl, of "b_nodes (?bs ! k)" "now_sec s"]
      nodes_for_search [OF assms(1) that(1)] that(3) by (simp add: insert_search_bucket_def)
  let ?g = "\<lambda>x. search_ok x \<and> sr_id x = sr_id sr \<and> sr_af x = af"
  have step: "?g (?ins k x)" if "k < length ?bs" "?g x" for k x using ins that by simp
  let ?sr1 = "?ins i sr"
  have g1: "?g ?sr1" using step assms(3-5) by simp
  let ?sr' = "if Suc i < length ?bs then ?ins (Suc i) ?sr1 else ?sr1"
  have g': "?g ?sr'" using g1 step by simp
  define sr2 where "sr2 = (if length (sr_nodes ?sr1) < SEARCH_NODES
    then case previous_bucket af i s of None \<Rightarrow> ?sr' | Some p \<Rightarrow> ?ins p ?sr' else ?sr1)"
  have prev: "p < length ?bs" if "previous_bucket af i s = Some p" for p
    using that assms(3) by (simp add: previous_bucket_eq split: if_splits)
  have g2: "?g sr2" using g1 g' step [OF prev] by (auto simp: sr2_def split: option.split)
  have "m < length ?bs" if "find_bucket (myid s) af s = Some m" for m
    using that find_bucket_range(1) [OF table_ok_shape [OF assms(1,3)] assms(2)]
    by (simp add: find_bucket_def split: if_splits)
  then have "?g (fill_search af i s sr)"
    using g2 step unfolding fill_search_def Let_def sr2_def [symmetric]
    by (auto split: option.split)
  then show "search_ok (fill_search af i s sr)" "sr_id (fill_search af i s sr) = sr_id sr" by simp_all
qed

lemma upd_search_all_ok:
  assumes "\<forall>j < length (searches s). j \<noteq> k \<longrightarrow> search_ok (searches s ! j)" "k < length (searches s)"
    and "search_ok (f (searches s ! k))"
  shows "searches_ok (upd_search k f s)"
proof -
  have "search_ok ((searches s)[k := f (searches s ! k)] ! j)" if "j < length (searches s)" for j
    using assms that by (cases "j = k") simp_all
  then show ?thesis by (auto simp: searches_ok_def upd_search_def in_set_conv_nth)
qed

lemma core_ok_misc:
  "core_ok (s\<lparr>search_time := x\<rparr>) = core_ok s" "core_ok (s\<lparr>search_id := y\<rparr>) = core_ok s"
  "tables_ok (s\<lparr>search_id := y\<rparr>) = tables_ok s" "table af (s\<lparr>search_id := y\<rparr>) = table af s"
  "tables_ok (s\<lparr>numsearches := z\<rparr>) = tables_ok s"
  by (simp_all add: core_ok_def tables_ok_def searches_ok_def table_def)

text \<open>A step that only sets up a search.\<close>

definition seeks :: "dht \<Rightarrow> dht \<Rightarrow> bool" where
  "seeks s s' \<longleftrightarrow> (\<exists>a b c d. s' = s\<lparr>searches := a, numsearches := b, search_id := c, env_calloc := d\<rparr> \<and>
     ((\<forall>k. env_calloc s k) \<longrightarrow> (\<forall>k. d k)))"

lemma seeksI:
  "s' = s\<lparr>searches := a, numsearches := b, search_id := c, env_calloc := d\<rparr> \<Longrightarrow>
   (\<And>k. \<forall>k. env_calloc s k \<Longrightarrow> d k) \<Longrightarrow> seeks s s'"
  unfolding seeks_def by blast

lemma seeks_searches: "seeks s (s\<lparr>searches := a\<rparr>)"
  by (rule seeksI [where a = a and b = "numsearches s" and c = "search_id s" and d = "env_calloc s"]) simp_all

lemma seeks_id: "seeks s (s\<lparr>search_id := c\<rparr>)"
  by (rule seeksI [where a = "searches s" and b = "numsearches s" and c = c and d = "env_calloc s"]) simp_all

lemma seeks_refl [simp]: "seeks s s"
  by (rule seeksI [where a = "searches s" and b = "numsearches s" and c = "search_id s" and d = "env_calloc s"]) simp_all

lemma seeks_trans:
  assumes "seeks s s'" "seeks s' s''"
  shows "seeks s s''"
proof -
  obtain a b c d where 1: "s' = s\<lparr>searches := a, numsearches := b, search_id := c, env_calloc := d\<rparr>"
      "(\<forall>k. env_calloc s k) \<longrightarrow> (\<forall>k. d k)"
    using assms(1) unfolding seeks_def by blast
  obtain a' b' c' d' where 2: "s'' = s'\<lparr>searches := a', numsearches := b', search_id := c', env_calloc := d'\<rparr>"
      "(\<forall>k. env_calloc s' k) \<longrightarrow> (\<forall>k. d' k)"
    using assms(2) unfolding seeks_def by blast
  show ?thesis
    by (rule seeksI [where a = a' and b = b' and c = c' and d = d']) (use 1 2 in simp_all)
qed

lemma new_search_seeks:
  assumes "new_search s = (slot, s')"
  shows "seeks s s'"
proof -
  have c: "seeks s (s\<lparr>searches := a, numsearches := b, env_calloc := \<lambda>i. env_calloc s (Suc i)\<rparr>)" for a b
    by (rule seeksI [where a = a and b = b and c = "search_id s" and d = "\<lambda>i. env_calloc s (Suc i)"]) simp_all
  from c [where a = "searches s" and b = "numsearches s"] have c': "seeks s (s\<lparr>env_calloc := \<lambda>i. env_calloc s (Suc i)\<rparr>)" by simp
  have "s' \<in> {s, s\<lparr>env_calloc := \<lambda>i. env_calloc s (Suc i)\<rparr>, s\<lparr>searches := zero_search # searches s,
      numsearches := numsearches s + 1, env_calloc := \<lambda>i. env_calloc s (Suc i)\<rparr>}"
    using assms unfolding new_search_def calloc_def Let_def by (auto split: option.split_asm if_split_asm)
  then show ?thesis using c c' by auto
qed

lemma dht_search_steps:
  assumes "core_ok s" "id_ok x" "family_ok af"
  shows "\<exists>s2. core_ok s2 \<and> seeks s s2 \<and>
    (snd (dht_search x port af callback s) = s2 \<or>
     (\<exists>k < length (searches s2). snd (dht_search x port af callback s) =
        (search_step k callback s2)\<lparr>search_time := now_sec s\<rparr>))"
proof (cases "find_bucket x af s")
  case None
  then show ?thesis using assms(1) by (intro exI [of _ s]) (simp add: dht_search_def)
next
  case (Some i)
  have tab: "table_ok af (myid s) (table af s)" using core_ok_table [OF assms(1,3)] .
  have ne: "table af s \<noteq> []" using Some by (auto simp: find_bucket_def)
  have sh: "shape_ok (firsts (table af s))" using tab ne by (simp add: table_ok_def)
  have il: "i < length (table af s)"
    using Some find_bucket_range(1) [OF sh assms(2)] ne by (auto simp: find_bucket_def)
  have me: "id_ok (myid s)" using assms(1) by (simp add: core_ok_def tables_ok_def)
  let ?old = "first_index (\<lambda>sr. sr_af sr = af \<and> id_cmp (sr_id sr) x = 0) (searches s)"
  define q where "q = (case ?old of
       Some k \<Rightarrow> (Some k, upd_search k (\<lambda>sr. again_loop (now_sec s) (sr\<lparr>sr_done := False\<rparr>) 0) s)
     | None \<Rightarrow>
         let (slot, s') = new_search s
         in case slot of
              None \<Rightarrow> (None, s')
            | Some k \<Rightarrow> (Some k, upd_search k (\<lambda>sr. sr\<lparr>sr_af := af, sr_tid := search_id s', sr_step_time := 0,
                            sr_id := x, sr_done := False, sr_nodes := []\<rparr>)
                          (s'\<lparr>search_id := search_id s' + 1\<rparr>)))"
  obtain slot s1 where q: "q = (slot, s1)" by fastforce
  have inv: "core_ok s1 \<and> seeks s s1 \<and> table af s1 = table af s \<and> myid s1 = myid s \<and>
    (\<forall>k. slot = Some k \<longrightarrow> k < length (searches s1) \<and> sr_af (searches s1 ! k) = af)"
  proof (cases ?old)
    case (Some k)
    then have k: "k < length (searches s)" "sr_af (searches s ! k) = af" by (auto simp: first_index_Some)
    let ?sr = "searches s ! k"
    have ok: "search_ok (?sr\<lparr>sr_done := False\<rparr>)" using searches_ok_nth [OF assms(1) k(1)] by (simp add: search_ok_def)
    have "searches_ok (upd_search k (\<lambda>sr. again_loop (now_sec s) (sr\<lparr>sr_done := False\<rparr>) 0) s)"
      using k(1) again_loop_ok(1) [OF ok] searches_ok_nth [OF assms(1)] by (intro upd_search_all_ok) simp_all
    then show ?thesis
      using q Some k again_loop_ok(3) [OF ok] assms(1) unfolding q_def
      by (auto simp: core_ok_def upd_search_def seeks_searches)
  next
    case None
    obtain sl s' where n: "new_search s = (sl, s')" by fastforce
    note sp = new_search_spec [OF assms(1) n]
    have fr: "frame AF_INET (s\<lparr>searches := searches s', numsearches := numsearches s'\<rparr>) s'" using sp by blast
    have tb: "table a s' = table a s" for a using new_search_spec [OF assms(1) n] by blast
    have same: "buckets s' = buckets s" "buckets6 s' = buckets6 s"
      using tb [of AF_INET] tb [of AF_INET6] by (simp_all add: table_def AF_INET_def AF_INET6_def)
    have eq: "myid s' = myid s" "died s' = died s" using frame_eq [OF fr] by simp_all
    have tok: "tables_ok s'" using assms(1) same eq by (simp add: core_ok_def tables_ok_def)
    show ?thesis
    proof (cases sl)
      case N: None
      then have "searches s' = searches s" using sp by simp
      then show ?thesis using q None n N assms(1) tok eq tb new_search_seeks [OF n] unfolding q_def
        by (auto simp: core_ok_def searches_ok_def)
    next
      case (Some k)
      let ?f = "\<lambda>sr. sr\<lparr>sr_af := af, sr_tid := search_id s', sr_step_time := 0,
                            sr_id := x, sr_done := False, sr_nodes := []\<rparr>"
      let ?s = "s'\<lparr>search_id := search_id s' + 1\<rparr>"
      have k: "k < length (searches s')" "\<forall>j < length (searches s'). j \<noteq> k \<longrightarrow> search_ok (searches s' ! j)"
        using sp Some by simp_all
      have "searches_ok (upd_search k ?f ?s)"
        using k assms(2,3) by (intro upd_search_all_ok) (simp_all add: search_ok_def)
      then have "core_ok (upd_search k ?f ?s)"
        using tok eq(2) assms(1) by (simp add: core_ok_def upd_search_def core_ok_misc)
      moreover have "slot = Some k" "s1 = upd_search k ?f ?s"
        using q None n Some unfolding q_def by simp_all
      moreover have "seeks s ?s" using new_search_seeks [OF n] seeks_id by (rule seeks_trans)
      then have "seeks s (upd_search k ?f ?s)"
        unfolding upd_search_def using seeks_searches by (rule seeks_trans)
      ultimately show ?thesis using k(1) eq tb by (simp add: upd_search_def core_ok_misc)
    qed
  qed
  have run: "dht_search x port af callback s = (case slot of
      None \<Rightarrow> (-1, s1)
    | Some k \<Rightarrow> (1, (search_step k callback
        (upd_search k (\<lambda>sr. fill_search af i s1 (sr\<lparr>sr_port := of_int port\<rparr>)) s1))\<lparr>search_time := now_sec s\<rparr>))"
    using Some q unfolding dht_search_def q_def Let_def by (simp split: option.split)
  show ?thesis
  proof (cases slot)
    case None
    with run inv show ?thesis by (intro exI [of _ s1]) simp
  next
    case (Some k)
    let ?f = "\<lambda>sr. fill_search af i s1 (sr\<lparr>sr_port := of_int port\<rparr>)"
    let ?s2 = "upd_search k ?f s1"
    have k: "k < length (searches s1)" "sr_af (searches s1 ! k) = af" and core1: "core_ok s1"
      using inv Some by simp_all
    have "search_ok ((searches s1 ! k)\<lparr>sr_port := of_int port\<rparr>)"
      using searches_ok_nth [OF core1 k(1)] by (simp add: search_ok_def)
    then have "search_ok (?f (searches s1 ! k))"
      using tab il me inv k(2) by (intro fill_search_ok(1) [of af "myid s"]) simp_all
    then have "searches_ok ?s2"
      using k(1) searches_ok_nth [OF core1] by (intro upd_search_all_ok) simp_all
    then have "core_ok ?s2" using core1 by (simp add: core_ok_def upd_search_def)
    moreover have "seeks s ?s2"
      unfolding upd_search_def using inv seeks_searches seeks_trans by blast
    moreover have "k < length (searches ?s2)" using k(1) by (simp add: upd_search_def)
    moreover have "snd (dht_search x port af callback s) = (search_step k callback ?s2)\<lparr>search_time := now_sec s\<rparr>"
      using run Some by simp
    ultimately show ?thesis by blast
  qed
qed

lemma dht_search_core:
  assumes "core_ok s" "id_ok x" "family_ok af"
  shows "core_ok (snd (dht_search x port af callback s))"
  using dht_search_steps [OF assms, of port callback] calm_core [OF search_step_calm]
  by (auto simp: core_ok_misc)

section \<open>Keeping the best candidates\<close>

text \<open>
  \<open>best cap ref C L\<close>: \<open>L\<close> holds the \<open>cap\<close> candidates of \<open>C\<close> that are nearest to \<open>ref\<close>, nearest
  first, or all of them when there are fewer.
\<close>

definition best :: "nat \<Rightarrow> byte list \<Rightarrow> byte list set \<Rightarrow> byte list list \<Rightarrow> bool" where
  "best cap ref C L \<longleftrightarrow> ordered_by (closer ref) L \<and> (\<forall>y \<in> C. id_ok y) \<and> set L \<subseteq> C \<and> length L \<le> cap \<and>
     (length L < cap \<longrightarrow> set L = C) \<and> (\<forall>y \<in> C - set L. \<forall>z \<in> set L. closer ref z y < 0)"

lemma best_empty: "best cap ref {} []"
  by (simp add: best_def)

lemma best_insert:
  assumes "best cap ref C L" "id_ok x" "id_ok ref"
  shows "best cap ref (insert x C) (insert_ids x ref cap L)"
proof -
  have L: "ordered_by (closer ref) L" "\<forall>y \<in> set L. id_ok y" "set L \<subseteq> C" "length L \<le> cap"
    "length L < cap \<Longrightarrow> set L = C" "\<And>y z. y \<in> C \<Longrightarrow> y \<notin> set L \<Longrightarrow> z \<in> set L \<Longrightarrow> closer ref z y < 0"
    and C: "\<forall>y \<in> C. id_ok y"
    using assms(1) by (auto simp: best_def)
  obtain found i where p: "place_loop x ref L 0 = (found, i)" by fastforce
  show ?thesis
  proof (cases found)
    case True
    then have "x \<in> set L" using place_loop_spec [OF assms(2,3) L(2) p] by auto
    then have "insert x C = C" using L(3) by auto
    then show ?thesis using assms(1) p True by (simp add: insert_ids_def)
  next
    case False
    have p': "place_loop x ref L 0 = (False, i)" using p False by simp
    define L' where "L' = take cap (take i L @ x # drop i L)"
    note ins = place_insert [OF assms(2,3) L(2,1) p' L'_def]
    have "length (take i L @ x # drop i L) = Suc (length L)" using ins(5) by simp
    then have len: "length L' = min cap (Suc (length L))" by (simp only: L'_def length_take min.commute)
    have dist: "distinct L" "distinct L'"
      using closer_distinct [OF assms(3) L(2,1)] closer_distinct [OF assms(3) ins(2,1)] by simp_all
    have all: "set L' = insert x (set L)" if "Suc (length L) \<le> cap"
    proof -
      have "L' = take i L @ x # drop i L" using that ins(5) by (simp add: L'_def)
      then have "set L' = insert x (set (take i L) \<union> set (drop i L))" by simp
      also have "set (take i L) \<union> set (drop i L) = set L" by (metis append_take_drop_id set_append)
      finally show ?thesis .
    qed
    have "closer ref z y < 0" if y: "y \<in> insert x C" "y \<notin> set L'" and z: "z \<in> set L'" for y z
    proof (cases "y \<in> insert x (set L)")
      case True
      with y(2) z ins(6) show ?thesis by blast
    next
      case False
      then have yC: "y \<in> C" "y \<notin> set L" using y(1) by auto
      then have full: "length L = cap" using L(4,5) by fastforce
      show ?thesis
      proof (cases "z = x")
        case False
        then show ?thesis using z ins(3) yC L(6) by blast
      next
        case True
        have "\<exists>w \<in> set L. w \<notin> set L'"
        proof (rule ccontr)
          assume "\<not> ?thesis"
          then have "insert x (set L) \<subseteq> set L'" using z True by auto
          then have "card (insert x (set L)) \<le> card (set L')" by (intro card_mono) simp_all
          then show False using ins(4) dist len full by (simp add: distinct_card)
        qed
        then obtain w where w: "w \<in> set L" "w \<notin> set L'" by blast
        have "closer ref x w < 0" using ins(6) z True w by blast
        moreover have "closer ref w y < 0" using L(6) yC w(1) by blast
        ultimately show ?thesis
          using comparator.cmp_trans [OF comparator_xorcmp [OF assms(3)], of x w y] True assms(2) L(2) C w(1) yC(1)
          by blast
      qed
    qed
    moreover have "length L' < cap \<longrightarrow> set L' = insert x C" using len all L(5) by auto
    moreover have "set L' \<subseteq> insert x C" using ins(3) L(3) by blast
    ultimately have "best cap ref (insert x C) L'"
      using ins(1) C assms(2) len unfolding best_def by auto
    then show ?thesis using p' by (simp add: insert_ids_def L'_def)
  qed
qed

section \<open>The closest nodes of a reply\<close>

definition entry_of :: "node \<Rightarrow> byte list" where
  "entry_of n = n_id n @ sa_addr (n_ss n) @ sa_port (n_ss n)"

lemma insert_closest_ids:
  assumes "id_ok (n_id n)" "family_ok (sa_family (n_ss n))" "best 8 ref C (map (take 20) L)" "id_ok ref"
  shows "\<exists>L'. insert_closest_node ref L n = Inr L' \<and> best 8 ref (insert (n_id n) C) (map (take 20) L') \<and>
    set L' \<subseteq> insert (entry_of n) (set L)"
proof -
  obtain found i where p: "place_loop (n_id n) ref (map (take 20) L) 0 = (found, i)" by fastforce
  have len: "length L \<le> 8" using assms(3) by (simp add: best_def)
  have "set (map (take 20) L) \<subseteq> C" "\<forall>y \<in> C. id_ok y" using assms(3) unfolding best_def by blast+
  then have ids: "\<forall>y \<in> set (map (take 20) L). id_ok y" by blast
  have c: "compact_node n = Inr (entry_of n)" using assms(2) by (auto simp: compact_node_def family_ok_def entry_of_def)
  let ?M = "take i L @ entry_of n # drop i L"
  let ?num = "if length L < 8 then length L + 1 else length L"
  have e20: "take 20 (entry_of n) = n_id n" using assms(1) by (simp add: entry_of_def)
  have r: "insert_closest_node ref L n = Inr (if found \<or> i = 8 then L else take ?num ?M)"
    using p c by (simp add: insert_closest_node_def Let_def)
  have b: "best 8 ref (insert (n_id n) C) (insert_ids (n_id n) ref 8 (map (take 20) L))"
    using assms(1,3,4) by (intro best_insert)
  have il: "i \<le> length L" if "\<not> found" using place_loop_spec [OF assms(1,4) ids p] that by simp
  have eq: "insert_ids (n_id n) ref 8 (map (take 20) L) = map (take 20) (if found \<or> i = 8 then L else take ?num ?M)"
  proof (cases "found \<or> i = 8")
    case True
    then show ?thesis using p il len by (auto simp: insert_ids_def)
  next
    case False
    have tk: "take ?num ?M = take 8 ?M" using il len False by auto
    have "map (take 20) ?M = take i (map (take 20) L) @ n_id n # drop i (map (take 20) L)"
      using e20 by (simp add: take_map drop_map)
    then have "map (take 20) (take ?num ?M) =
        take 8 (take i (map (take 20) L) @ n_id n # drop i (map (take 20) L))"
      unfolding tk by (simp only: take_map [symmetric])
    with False p show ?thesis by (simp add: insert_ids_def)
  qed
  have "set (if found \<or> i = 8 then L else take ?num ?M) \<subseteq> insert (entry_of n) (set L)"
    by (auto dest!: in_set_takeD in_set_dropD)
  with r b eq show ?thesis by (intro exI [of _ "if found \<or> i = 8 then L else take ?num ?M"]) simp
qed

lemma buffer_closest_ids:
  assumes "\<forall>n \<in> set ns. id_ok (n_id n) \<and> family_ok (sa_family (n_ss n))"
    and "best 8 ref C (map (take 20) L)" "id_ok ref"
  shows "\<exists>L'. buffer_closest_nodes s ref L ns = Inr L' \<and>
    best 8 ref (C \<union> n_id ` {n \<in> set ns. node_good s n}) (map (take 20) L') \<and>
    set L' \<subseteq> set L \<union> entry_of ` {n \<in> set ns. node_good s n}"
  using assms(1,2)
proof (induction ns arbitrary: C L)
  case Nil
  then show ?case by simp
next
  case (Cons n ns)
  show ?case
  proof (cases "node_good s n")
    case True
    obtain L1 where L1: "insert_closest_node ref L n = Inr L1"
      "best 8 ref (insert (n_id n) C) (map (take 20) L1)" "set L1 \<subseteq> insert (entry_of n) (set L)"
      using insert_closest_ids [OF _ _ Cons.prems(2) assms(3), of n] Cons.prems(1) by auto
    obtain L2 where L2: "buffer_closest_nodes s ref L1 ns = Inr L2"
      "best 8 ref (insert (n_id n) C \<union> n_id ` {n \<in> set ns. node_good s n}) (map (take 20) L2)"
      "set L2 \<subseteq> set L1 \<union> entry_of ` {n \<in> set ns. node_good s n}"
      using Cons.IH [OF _ L1(2)] Cons.prems(1) by auto
    have "{m \<in> set (n # ns). node_good s m} = insert n {m \<in> set ns. node_good s m}" using True by auto
    then have "C \<union> n_id ` {m \<in> set (n # ns). node_good s m} =
        insert (n_id n) C \<union> n_id ` {m \<in> set ns. node_good s m}" by auto
    with True L1 L2 show ?thesis by auto
  next
    case False
    then have "{m \<in> set (n # ns). node_good s m} = {m \<in> set ns. node_good s m}" by auto
    with False Cons show ?thesis by auto
  qed
qed

text \<open>The good nodes of the bucket of an identifier and of its neighbours.\<close>

definition near_nodes :: "nat \<Rightarrow> byte list \<Rightarrow> dht \<Rightarrow> node set" where
  "near_nodes af x s = (case find_bucket x af s of None \<Rightarrow> {} | Some i \<Rightarrow>
     {n. node_good s n \<and> (\<exists>k < length (table af s). (k = i \<or> k = Suc i \<or> Suc k = i) \<and>
       n \<in> set (b_nodes (table af s ! k)))})"

lemma closest_nodes_best:
  assumes "table_ok af me (table af s)" "family_ok af" "id_ok x"
  shows "\<exists>L. closest_nodes af x s = Inr L \<and> best 8 x (n_id ` near_nodes af x s) (map (take 20) L) \<and>
    set L \<subseteq> entry_of ` near_nodes af x s"
proof (cases "find_bucket x af s")
  case None
  then show ?thesis by (simp add: closest_nodes_def near_nodes_def best_empty)
next
  case (Some i)
  let ?bs = "table af s"
  let ?good = "\<lambda>k. {n \<in> set (b_nodes (?bs ! k)). node_good s n}"
  have ne: "?bs \<noteq> []" and i: "i = find_bucket_loop x ?bs 0" using Some by (auto simp: find_bucket_def split: if_splits)
  have sh: "shape_ok (firsts ?bs)" using assms(1) ne by (simp add: table_ok_def)
  have il: "i < length ?bs" unfolding i by (rule find_bucket_range [OF sh assms(3)])
  have nodes: "\<forall>n \<in> set (b_nodes (?bs ! k)). id_ok (n_id n) \<and> family_ok (sa_family (n_ss n))"
    if "k < length ?bs" for k
    using nodes_for_search [OF assms(1) that] assms(2) by auto
  obtain L1 where L1: "buffer_closest_nodes s x [] (b_nodes (?bs ! i)) = Inr L1"
    "best 8 x (n_id ` ?good i) (map (take 20) L1)" "set L1 \<subseteq> entry_of ` ?good i"
    using buffer_closest_ids [OF nodes [OF il], of x "{}" "[]" s] assms(3) by (auto simp: best_empty)
  define G2 where "G2 = (if Suc i < length ?bs then ?good (Suc i) else {})"
  obtain L2 where L2: "(if Suc i < length ?bs then buffer_closest_nodes s x L1 (b_nodes (?bs ! Suc i)) else Inr L1) = Inr L2"
    "best 8 x (n_id ` (?good i \<union> G2)) (map (take 20) L2)" "set L2 \<subseteq> entry_of ` (?good i \<union> G2)"
  proof (cases "Suc i < length ?bs")
    case True
    obtain L2 where "buffer_closest_nodes s x L1 (b_nodes (?bs ! Suc i)) = Inr L2"
      "best 8 x (n_id ` ?good i \<union> n_id ` ?good (Suc i)) (map (take 20) L2)"
      "set L2 \<subseteq> set L1 \<union> entry_of ` ?good (Suc i)"
      using buffer_closest_ids [OF nodes [OF True] L1(2) assms(3), of s] by blast
    with True L1(3) show thesis by (intro that [of L2]) (auto simp: G2_def image_Un)
  next
    case False
    with L1 show thesis by (intro that [of L1]) (auto simp: G2_def)
  qed
  define G3 where "G3 = (case previous_bucket af i s of None \<Rightarrow> {} | Some p \<Rightarrow> ?good p)"
  have prev: "previous_bucket af i s = (if i = 0 then None else Some (i - 1))" using il by (rule previous_bucket_eq)
  obtain L3 where L3: "(case previous_bucket af i s of None \<Rightarrow> Inr L2
      | Some p \<Rightarrow> buffer_closest_nodes s x L2 (b_nodes (?bs ! p))) = Inr L3"
    "best 8 x (n_id ` (?good i \<union> G2 \<union> G3)) (map (take 20) L3)" "set L3 \<subseteq> entry_of ` (?good i \<union> G2 \<union> G3)"
  proof (cases "i = 0")
    case True
    with prev L2 show thesis by (intro that [of L2]) (auto simp: G3_def)
  next
    case False
    then have pl: "i - 1 < length ?bs" using il by simp
    obtain L3 where "buffer_closest_nodes s x L2 (b_nodes (?bs ! (i - 1))) = Inr L3"
      "best 8 x (n_id ` (?good i \<union> G2) \<union> n_id ` ?good (i - 1)) (map (take 20) L3)"
      "set L3 \<subseteq> set L2 \<union> entry_of ` ?good (i - 1)"
      using buffer_closest_ids [OF nodes [OF pl] L2(2) assms(3), of s] by blast
    with False prev L2(3) show thesis by (intro that [of L3]) (auto simp: G3_def image_Un)
  qed
  have near: "near_nodes af x s = ?good i \<union> G2 \<union> G3"
    using Some il prev
    by (auto simp: near_nodes_def G2_def G3_def intro: exI [of _ "i - Suc 0"] split: if_splits)
  have "closest_nodes af x s = Inr L3"
    using Some L1(1) L2(1) L3(1) by (simp add: closest_nodes_def Let_def)
  with L3(2,3) near show ?thesis by auto
qed

lemma near_node_ok:
  assumes "table_ok af me (table af s)" "n \<in> near_nodes af x s"
  shows "node_ok af me n"
  using assms by (auto simp: near_nodes_def split: option.splits
      dest!: table_ok_bucket simp: bucket_ok_def nodes_ok_def)

section \<open>Properties of searches and of closest nodes\<close>

text \<open>A search with three nodes of the demonstration table, for the witnesses.\<close>

definition demo_search :: search where
  "demo_search = fold (\<lambda>n sr. snd (insert_search_node 1000 (n_id n) (n_ss n) (n_sslen n) False None sr))
     (map demo_node [1, 200, 3]) (zero_search\<lparr>sr_af := AF_INET, sr_tid := 7\<rparr>)"

lemma demo_search_ok: "search_ok demo_search"
proof -
  have "search_ok (zero_search\<lparr>sr_af := AF_INET, sr_tid := 7\<rparr>)"
    by (simp add: search_ok_def zero_search_def family_ok_def)
  then show ?thesis
    using insert_search_bucket_ok [of "zero_search\<lparr>sr_af := AF_INET, sr_tid := 7\<rparr>"
        "map demo_node [1, 200, 3]" demo_search 1000]
    by (simp add: demo_search_def zero_search_def demo_node_def)
qed

definition demo_searching :: dht where
  "demo_searching = demo_dht\<lparr>searches := [demo_search], numsearches := 1\<rparr>"

lemma demo_searching_ok: "core_ok demo_searching"
  using demo_tables_ok demo_search_ok
  by (simp add: core_ok_def demo_searching_def searches_ok_def tables_ok_def demo_dht_def dht_start_def)

text \<open>C12. A search keeps its nodes sorted by distance to the target, nearest first, at most 14
  and without duplicates; whatever candidates it has been offered, it holds the nearest
  ones, so that a new candidate is inserted at its place and only a farther node drops
  out. The insertion reports success exactly when the candidate is in the list afterwards.\<close>

theorem insert_search_node_keeps_best:
  assumes "search_ok sr" and "id_ok x" and "sa_family sa = sr_af sr" and "salen \<noteq> 0"
    and "best 14 (sr_id sr) offered (map sn_id (sr_nodes sr))"
  shows "let (ok, sr') = insert_search_node now x sa salen replied token sr
    in search_ok sr' \<and> distinct (map sn_id (sr_nodes sr')) \<and>
       best 14 (sr_id sr) (insert x offered) (map sn_id (sr_nodes sr')) \<and>
       (ok \<longleftrightarrow> x \<in> sn_id ` set (sr_nodes sr'))"
proof -
  obtain ok sr' where i: "insert_search_node now x sa salen replied token sr = (ok, sr')" by fastforce
  note sp = insert_search_node_spec [OF assms(1-4) i]
  have id: "id_ok (sr_id sr)" using assms(1) by (simp add: search_ok_def)
  have "best 14 (sr_id sr) (insert x offered) (map sn_id (sr_nodes sr'))"
    unfolding sp(2) SEARCH_NODES_def using best_insert [OF assms(5,2) id] .
  moreover have "distinct (map sn_id (sr_nodes sr'))"
    using closer_distinct [OF id search_ids_ok [OF sp(1)]] sp(1,3) by (simp add: search_ok_def)
  ultimately show ?thesis using sp(1,6) i by simp
qed

theorem insert_search_node_keeps_best_witness:
  "let (ok, sr') = insert_search_node 0 (5 # replicate 19 0) (no_sockaddr\<lparr>sa_family := AF_INET\<rparr>) 16 False None
        (zero_search\<lparr>sr_af := AF_INET\<rparr>)
    in search_ok sr' \<and> distinct (map sn_id (sr_nodes sr')) \<and>
       best 14 (replicate 20 0) {5 # replicate 19 0} (map sn_id (sr_nodes sr')) \<and>
       (ok \<longleftrightarrow> 5 # replicate 19 0 \<in> sn_id ` set (sr_nodes sr'))"
  using insert_search_node_keeps_best [of "zero_search\<lparr>sr_af := AF_INET\<rparr>" "5 # replicate 19 0"
      "no_sockaddr\<lparr>sa_family := AF_INET\<rparr>" 16 "{}" 0 False None]
  by (simp add: search_ok_def zero_search_def family_ok_def best_empty)

text \<open>C11. The nodes a reply names are the eight good nodes nearest to the asked identifier, in
  order, among those of its bucket and of the two neighbouring buckets; each entry is the
  identifier, address and port of such a node, so that the reply has whole entries only.\<close>

theorem closest_nodes_correct:
  assumes "tables_ok s" and "family_ok af" and "id_ok x"
  shows "\<exists>L. closest_nodes af x s = Inr L \<and>
    best 8 x (n_id ` near_nodes af x s) (map (take 20) L) \<and>
    (\<forall>e \<in> set L. \<exists>n \<in> near_nodes af x s. e = n_id n @ sa_addr (n_ss n) @ sa_port (n_ss n)) \<and>
    length (concat L) = length L * (if af = AF_INET then 26 else 38)"
proof -
  note ok = tables_ok_table [OF assms(1,2)]
  obtain L where L: "closest_nodes af x s = Inr L" "best 8 x (n_id ` near_nodes af x s) (map (take 20) L)"
    "set L \<subseteq> entry_of ` near_nodes af x s"
    using closest_nodes_best [OF ok assms(2,3)] by blast
  have "length e = (if af = AF_INET then 26 else 38)" if "e \<in> set L" for e
  proof -
    obtain n where n: "n \<in> near_nodes af x s" "e = entry_of n" using L(3) \<open>e \<in> set L\<close> by blast
    then have "node_ok af (myid s) n" using near_node_ok [OF ok] by blast
    with n(2) assms(2) show ?thesis by (auto simp: entry_of_def node_ok_def sa_ok_def family_ok_def)
  qed
  then have "length (concat L) = length L * (if af = AF_INET then 26 else 38)"
    by (induction L) auto
  with L show ?thesis by (auto simp: entry_of_def)
qed

theorem closest_nodes_correct_witness:
  "\<exists>L. closest_nodes AF_INET zeroes demo_dht = Inr L \<and>
    best 8 zeroes (n_id ` near_nodes AF_INET zeroes demo_dht) (map (take 20) L) \<and>
    (\<forall>e \<in> set L. \<exists>n \<in> near_nodes AF_INET zeroes demo_dht. e = n_id n @ sa_addr (n_ss n) @ sa_port (n_ss n)) \<and>
    length (concat L) = length L * 26"
  using closest_nodes_correct [OF demo_tables_ok, of AF_INET zeroes] by (simp add: family_ok_def)

lemma all_done_loop_iff:
  "j \<le> 8 \<Longrightarrow> all_done_loop ns j \<longleftrightarrow>
    (\<forall>n \<in> set (take (8 - j) (filter (\<lambda>n. sn_pinged n < 3) ns)). sn_replied n)"
proof (induction ns arbitrary: j)
  case (Cons n ns)
  show ?case
  proof (cases "j < 8 \<and> sn_pinged n < 3")
    case True
    then have "8 - j = Suc (8 - Suc j)" by linarith
    with True Cons show ?thesis by auto
  next
    case False
    with Cons show ?thesis by (cases "j < 8") auto
  qed
qed simp

text \<open>C17. A pure search ends at the first step at which its eight nearest live nodes have all
  replied: it is marked done and the callback is told once; before that, a step leaves it
  open and tells nobody. Every step keeps the invariants of the searches and of the table.\<close>

theorem search_step_completes:
  assumes "core_ok s" and "k < length (searches s)" and "sr_port (searches s ! k) = 0"
  shows "let sr = searches s ! k; s' = search_step k True s;
      finished = (\<forall>n \<in> set (take 8 (filter (\<lambda>n. sn_pinged n < 3) (sr_nodes sr))). sn_replied n)
    in core_ok s' \<and>
       (finished \<longrightarrow> sr_done (searches s' ! k) \<and> sr_step_time (searches s' ! k) = now_sec s \<and>
          events s' = events s @ [\<lparr>ev_kind = (if sr_af sr = AF_INET then DHT_EVENT_SEARCH_DONE
            else DHT_EVENT_SEARCH_DONE6), ev_hash = sr_id sr, ev_data = []\<rparr>]) \<and>
       (\<not> finished \<longrightarrow> sr_done (searches s' ! k) = sr_done sr \<and> events s' = events s)"
proof -
  let ?sr = "searches s ! k" and ?is = "[0..<length (sr_nodes (searches s ! k))]"
  have core: "core_ok (search_step k True s)" using calm_core [OF search_step_calm [OF assms(1,2)]] .
  show ?thesis
  proof (cases "all_done_loop (sr_nodes ?sr) 0")
    case True
    then have "search_step k True s = search_done k True s" using assms(3) by (simp add: search_step_def Let_def)
    with True core assms(2) show ?thesis
      by (simp add: search_done_def upd_search_def log_event_def Let_def all_done_loop_iff)
  next
    case False
    let ?g = "get_peers_loop k ?is 0 s"
    have q: "quiet s ?g" using get_peers_loop_quiet [OF assms(1,2)] by simp
    have l: "length (searches ?g) = length (searches s)" by (rule shape_length(1) [OF quiet_shape [OF q]])
    have "map sr_done (searches ?g) ! k = map sr_done (searches s) ! k" "events ?g = events s"
      using q by (simp_all add: quiet_def)
    then have "sr_done (searches ?g ! k) = sr_done ?sr" "events ?g = events s"
      using l assms(2) by simp_all
    then have "sr_done (searches (search_step k True s) ! k) = sr_done ?sr \<and>
        events (search_step k True s) = events s"
      using False assms(2) l by (simp add: search_step_def upd_search_def Let_def)
    with False core show ?thesis by (simp add: all_done_loop_iff Let_def)
  qed
qed

lemma insert_search_node_port: "sr_port (snd (insert_search_node now x sa l r t sr)) = sr_port sr"
  by (simp add: insert_search_node_def Let_def case_prod_beta)

theorem search_step_completes_witness:
  "core_ok (search_step 0 True demo_searching) \<and> events (search_step 0 True demo_searching) = []"
proof -
  have p: "sr_port demo_search = 0"
    by (simp add: demo_search_def insert_search_node_port zero_search_def)
  have "searches demo_searching = [demo_search]" "events demo_searching = []"
    by (simp_all add: demo_searching_def demo_dht_def dht_start_def)
  moreover have "\<not> (\<forall>n \<in> set (take 8 (filter (\<lambda>n. sn_pinged n < 3) (sr_nodes demo_search))). sn_replied n)"
    by code_simp
  ultimately show ?thesis
    using search_step_completes [OF demo_searching_ok, of 0] p by (simp add: Let_def)
qed

lemma dht_search_reused:
  assumes "table af s \<noteq> []"
    and "first_index (\<lambda>sr. sr_af sr = af \<and> id_cmp (sr_id sr) x = 0) (searches s) = Some k"
  shows "fst (dht_search x port af callback s) = 1"
  using assms
  by (simp only: dht_search_def find_bucket_def if_False option.case Let_def prod.case fst_conv)

lemma dht_search_fresh:
  assumes "table af s \<noteq> []"
    and "first_index (\<lambda>sr. sr_af sr = af \<and> id_cmp (sr_id sr) x = 0) (searches s) = None"
    and "new_search s = (slot, s')"
  shows "fst (dht_search x port af callback s) = (case slot of None \<Rightarrow> -1 | Some k \<Rightarrow> 1)"
  using assms
  by (cases slot)
    (simp_all only: dht_search_def find_bucket_def if_False option.case Let_def prod.case fst_conv)

lemma new_search_succeeds:
  "env_calloc s 0 \<Longrightarrow> numsearches s < DHT_MAX_SEARCHES \<Longrightarrow> fst (new_search s) \<noteq> None"
  by (auto simp: new_search_def calloc_def Let_def split: option.split)

text \<open>Starting a search for an identifier of a known family keeps every invariant: of the
  routing table, and of all searches, reused, recycled or new. It fails only when there
  is no table of the family or no slot for the search.\<close>

theorem dht_search_keeps_invariants:
  assumes "core_ok s" and "id_ok x" and "family_ok af"
  shows "core_ok (snd (dht_search x port af callback s)) \<and>
    (fst (dht_search x port af callback s) = 1 \<or> fst (dht_search x port af callback s) = -1) \<and>
    (table af s = [] \<longrightarrow> dht_search x port af callback s = (-1, s)) \<and>
    (table af s \<noteq> [] \<and> env_calloc s 0 \<and> numsearches s < DHT_MAX_SEARCHES \<longrightarrow>
      fst (dht_search x port af callback s) = 1)"
proof -
  let ?r = "fst (dht_search x port af callback s)"
  obtain slot s' where n: "new_search s = (slot, s')" by fastforce
  have none: "dht_search x port af callback s = (-1, s)" if "table af s = []"
    using that by (simp add: dht_search_def find_bucket_def)
  have res: "?r = (case slot of None \<Rightarrow> -1 | Some k \<Rightarrow> 1) \<or> ?r = 1" if "table af s \<noteq> []"
  proof (cases "first_index (\<lambda>sr. sr_af sr = af \<and> id_cmp (sr_id sr) x = 0) (searches s)")
    case None
    then show ?thesis using dht_search_fresh [OF that None n] by simp
  next
    case (Some k)
    then show ?thesis using dht_search_reused [OF that Some] by simp
  qed
  have r: "?r = 1 \<or> ?r = -1"
  proof (cases "table af s = []")
    case True
    then show ?thesis using none by simp
  next
    case False
    then show ?thesis using res by (cases slot) auto
  qed
  have "?r = 1" if "table af s \<noteq> []" "env_calloc s 0" "numsearches s < DHT_MAX_SEARCHES"
    using res [OF that(1)] new_search_succeeds [OF that(2,3)] n by (cases slot) simp_all
  with r none show ?thesis using dht_search_core [OF assms] by simp
qed

theorem dht_search_keeps_invariants_witness:
  "core_ok (snd (dht_search zeroes 0 AF_INET True demo_searching)) \<and>
   fst (dht_search zeroes 0 AF_INET True demo_searching) = 1"
  using dht_search_keeps_invariants [OF demo_searching_ok, of zeroes AF_INET 0 True]
  by (simp add: family_ok_def demo_searching_def demo_dht_def dht_start_def table_def DHT_MAX_SEARCHES_def)

end
