(* ===== verification/Rbtree.thy ===== *)
theory Rbtree
  imports Main "HOL-Library.Monad_Syntax"
begin

text \<open>
  The red-black trees of \<^verbatim>\<open>rbtree.c\<close> and \<^verbatim>\<open>rbtree.h\<close>, on an explicit store: a pointer is
  a number, 0 for NULL, and every cell has the four fields of \<^verbatim>\<open>struct rb_node\<close>. A
  function returns None when it dereferences a null pointer, or does not return.
\<close>

section \<open>The store\<close>

type_synonym addr = nat

datatype colour = RB_RED | RB_BLACK

record rb_node =
  rb_parent :: addr
  rb_right :: addr
  rb_left :: addr
  rb_color :: colour

record rb_root =
  cells :: "addr \<Rightarrow> rb_node"
  root :: addr

definition fetch :: "addr \<Rightarrow> rb_root \<Rightarrow> rb_node option" where
  "fetch p s = (if p = 0 then None else Some (cells s p))"

definition amend :: "addr \<Rightarrow> (rb_node \<Rightarrow> rb_node) \<Rightarrow> rb_root \<Rightarrow> rb_root option" where
  "amend p f s = (if p = 0 then None else Some (s\<lparr>cells := (cells s)(p := f (cells s p))\<rparr>))"

definition paint :: "addr \<Rightarrow> colour \<Rightarrow> rb_root \<Rightarrow> rb_root option" where
  "paint p c = amend p (\<lambda>n. n\<lparr>rb_color := c\<rparr>)"

definition set_parent :: "addr \<Rightarrow> addr \<Rightarrow> rb_root \<Rightarrow> rb_root option" where
  "set_parent p q = amend p (\<lambda>n. n\<lparr>rb_parent := q\<rparr>)"

definition set_left :: "addr \<Rightarrow> addr \<Rightarrow> rb_root \<Rightarrow> rb_root option" where
  "set_left p q = amend p (\<lambda>n. n\<lparr>rb_left := q\<rparr>)"

definition set_right :: "addr \<Rightarrow> addr \<Rightarrow> rb_root \<Rightarrow> rb_root option" where
  "set_right p q = amend p (\<lambda>n. n\<lparr>rb_right := q\<rparr>)"

text \<open>\<^verbatim>\<open>!p || p->rb_color == RB_BLACK\<close>\<close>

definition is_black :: "addr \<Rightarrow> rb_root \<Rightarrow> bool" where
  "is_black p s \<longleftrightarrow> p = 0 \<or> rb_color (cells s p) = RB_BLACK"

text \<open>The pointer that leads to \<open>old\<close>, from its parent or from the root, is made to lead to \<open>new\<close>.\<close>

definition relink :: "addr \<Rightarrow> addr \<Rightarrow> addr \<Rightarrow> rb_root \<Rightarrow> rb_root option" where
  "relink parent old new s =
     (if parent \<noteq> 0
      then do {
        p \<leftarrow> fetch parent s;
        if rb_left p = old then set_left parent new s else set_right parent new s
      }
      else Some (s\<lparr>root := new\<rparr>))"

section \<open>Linking and rotating\<close>

text \<open>The pointer to a child pointer that an insertion ends with.\<close>

datatype rb_link = Root_Link | Left_Link addr | Right_Link addr

definition rb_link_node :: "addr \<Rightarrow> addr \<Rightarrow> rb_link \<Rightarrow> rb_root \<Rightarrow> rb_root option" where
  "rb_link_node node parent link s = do {
     s \<leftarrow> amend node (\<lambda>n. n\<lparr>rb_parent := parent, rb_color := RB_RED, rb_left := 0, rb_right := 0\<rparr>) s;
     case link of
       Root_Link \<Rightarrow> Some (s\<lparr>root := node\<rparr>)
     | Left_Link q \<Rightarrow> set_left q node s
     | Right_Link q \<Rightarrow> set_right q node s
   }"

definition rb_rotate_left :: "addr \<Rightarrow> rb_root \<Rightarrow> rb_root option" where
  "rb_rotate_left node s = do {
     n \<leftarrow> fetch node s;
     let right = rb_right n;
     r \<leftarrow> fetch right s;
     s \<leftarrow> set_right node (rb_left r) s;
     s \<leftarrow> (if rb_left r \<noteq> 0 then set_parent (rb_left r) node s else Some s);
     s \<leftarrow> set_left right node s;
     n \<leftarrow> fetch node s;
     s \<leftarrow> set_parent right (rb_parent n) s;
     s \<leftarrow> relink (rb_parent n) node right s;
     set_parent node right s
   }"

text \<open>The mirror image looks at the right child of the parent first.\<close>

definition relink_right_first :: "addr \<Rightarrow> addr \<Rightarrow> addr \<Rightarrow> rb_root \<Rightarrow> rb_root option" where
  "relink_right_first parent old new s =
     (if parent \<noteq> 0
      then do {
        p \<leftarrow> fetch parent s;
        if rb_right p = old then set_right parent new s else set_left parent new s
      }
      else Some (s\<lparr>root := new\<rparr>))"

definition rb_rotate_right :: "addr \<Rightarrow> rb_root \<Rightarrow> rb_root option" where
  "rb_rotate_right node s = do {
     n \<leftarrow> fetch node s;
     let left = rb_left n;
     l \<leftarrow> fetch left s;
     s \<leftarrow> set_left node (rb_right l) s;
     s \<leftarrow> (if rb_right l \<noteq> 0 then set_parent (rb_right l) node s else Some s);
     s \<leftarrow> set_right left node s;
     n \<leftarrow> fetch node s;
     s \<leftarrow> set_parent left (rb_parent n) s;
     s \<leftarrow> relink_right_first (rb_parent n) node left s;
     set_parent node left s
   }"

section \<open>Rebalancing after an insertion\<close>

partial_function (option) insert_color_loop :: "addr \<Rightarrow> rb_root \<Rightarrow> rb_root option" where
  "insert_color_loop node s = do {
     n \<leftarrow> fetch node s;
     let parent = rb_parent n;
     if is_black parent s then Some s
     else do {
       p \<leftarrow> fetch parent s;
       let gparent = rb_parent p;
       g \<leftarrow> fetch gparent s;
       if parent = rb_left g
       then
         if \<not> is_black (rb_right g) s
         then do {
           s \<leftarrow> paint (rb_right g) RB_BLACK s;
           s \<leftarrow> paint parent RB_BLACK s;
           s \<leftarrow> paint gparent RB_RED s;
           insert_color_loop gparent s
         }
         else do {
           (node, parent, s) \<leftarrow>
             (if rb_right p = node
              then do { s \<leftarrow> rb_rotate_left parent s; Some (parent, node, s) }
              else Some (node, parent, s));
           s \<leftarrow> paint parent RB_BLACK s;
           s \<leftarrow> paint gparent RB_RED s;
           s \<leftarrow> rb_rotate_right gparent s;
           insert_color_loop node s
         }
       else
         if \<not> is_black (rb_left g) s
         then do {
           s \<leftarrow> paint (rb_left g) RB_BLACK s;
           s \<leftarrow> paint parent RB_BLACK s;
           s \<leftarrow> paint gparent RB_RED s;
           insert_color_loop gparent s
         }
         else do {
           (node, parent, s) \<leftarrow>
             (if rb_left p = node
              then do { s \<leftarrow> rb_rotate_right parent s; Some (parent, node, s) }
              else Some (node, parent, s));
           s \<leftarrow> paint parent RB_BLACK s;
           s \<leftarrow> paint gparent RB_RED s;
           s \<leftarrow> rb_rotate_left gparent s;
           insert_color_loop node s
         }
     }
   }"

definition rb_insert_color :: "addr \<Rightarrow> rb_root \<Rightarrow> rb_root option" where
  "rb_insert_color node s = do {
     s \<leftarrow> insert_color_loop node s;
     paint (root s) RB_BLACK s
   }"

section \<open>Rebalancing after a removal\<close>

text \<open>
  The two branches of the loop: the node is the left or the right child. The result says
  whether the loop goes on above the parent; else it is left at the \<^verbatim>\<open>break\<close>.
\<close>

definition erase_step_left :: "addr \<Rightarrow> rb_root \<Rightarrow> (bool \<times> rb_root) option" where
  "erase_step_left parent s = do {
     p \<leftarrow> fetch parent s;
     o1 \<leftarrow> fetch (rb_right p) s;
     s \<leftarrow> (if rb_color o1 = RB_RED
           then do {
             s \<leftarrow> paint (rb_right p) RB_BLACK s;
             s \<leftarrow> paint parent RB_RED s;
             rb_rotate_left parent s
           }
           else Some s);
     p \<leftarrow> fetch parent s;
     let other = rb_right p;
     o2 \<leftarrow> fetch other s;
     if is_black (rb_left o2) s \<and> is_black (rb_right o2) s
     then do { s \<leftarrow> paint other RB_RED s; Some (True, s) }
     else do {
       s \<leftarrow> (if is_black (rb_right o2) s
             then do {
               s \<leftarrow> (if rb_left o2 \<noteq> 0 then paint (rb_left o2) RB_BLACK s else Some s);
               s \<leftarrow> paint other RB_RED s;
               rb_rotate_right other s
             }
             else Some s);
       p \<leftarrow> fetch parent s;
       let other = rb_right p;
       s \<leftarrow> paint other (rb_color p) s;
       s \<leftarrow> paint parent RB_BLACK s;
       o3 \<leftarrow> fetch other s;
       s \<leftarrow> (if rb_right o3 \<noteq> 0 then paint (rb_right o3) RB_BLACK s else Some s);
       s \<leftarrow> rb_rotate_left parent s;
       Some (False, s)
     }
   }"

definition erase_step_right :: "addr \<Rightarrow> rb_root \<Rightarrow> (bool \<times> rb_root) option" where
  "erase_step_right parent s = do {
     p \<leftarrow> fetch parent s;
     o1 \<leftarrow> fetch (rb_left p) s;
     s \<leftarrow> (if rb_color o1 = RB_RED
           then do {
             s \<leftarrow> paint (rb_left p) RB_BLACK s;
             s \<leftarrow> paint parent RB_RED s;
             rb_rotate_right parent s
           }
           else Some s);
     p \<leftarrow> fetch parent s;
     let other = rb_left p;
     o2 \<leftarrow> fetch other s;
     if is_black (rb_left o2) s \<and> is_black (rb_right o2) s
     then do { s \<leftarrow> paint other RB_RED s; Some (True, s) }
     else do {
       s \<leftarrow> (if is_black (rb_left o2) s
             then do {
               s \<leftarrow> (if rb_right o2 \<noteq> 0 then paint (rb_right o2) RB_BLACK s else Some s);
               s \<leftarrow> paint other RB_RED s;
               rb_rotate_left other s
             }
             else Some s);
       p \<leftarrow> fetch parent s;
       let other = rb_left p;
       s \<leftarrow> paint other (rb_color p) s;
       s \<leftarrow> paint parent RB_BLACK s;
       o3 \<leftarrow> fetch other s;
       s \<leftarrow> (if rb_left o3 \<noteq> 0 then paint (rb_left o3) RB_BLACK s else Some s);
       s \<leftarrow> rb_rotate_right parent s;
       Some (False, s)
     }
   }"

partial_function (option) erase_color_loop ::
    "addr \<Rightarrow> addr \<Rightarrow> rb_root \<Rightarrow> (addr \<times> rb_root) option" where
  "erase_color_loop node parent s =
     (if \<not> (is_black node s \<and> node \<noteq> root s) then Some (node, s)
      else do {
        p \<leftarrow> fetch parent s;
        (on, s) \<leftarrow> (if rb_left p = node then erase_step_left parent s else erase_step_right parent s);
        if on then do { p \<leftarrow> fetch parent s; erase_color_loop parent (rb_parent p) s }
        else Some (root s, s)
      })"

definition rb_erase_color :: "addr \<Rightarrow> addr \<Rightarrow> rb_root \<Rightarrow> rb_root option" where
  "rb_erase_color node parent s = do {
     (node, s) \<leftarrow> erase_color_loop node parent s;
     if node \<noteq> 0 then paint node RB_BLACK s else Some s
   }"

section \<open>Walking\<close>

partial_function (option) leftmost :: "addr \<Rightarrow> rb_root \<Rightarrow> addr option" where
  "leftmost p s = do { n \<leftarrow> fetch p s; if rb_left n = 0 then Some p else leftmost (rb_left n) s }"

partial_function (option) rightmost :: "addr \<Rightarrow> rb_root \<Rightarrow> addr option" where
  "rightmost p s = do { n \<leftarrow> fetch p s; if rb_right n = 0 then Some p else rightmost (rb_right n) s }"

definition rb_first :: "rb_root \<Rightarrow> addr option" where
  "rb_first s = (if root s = 0 then Some 0 else leftmost (root s) s)"

definition rb_last :: "rb_root \<Rightarrow> addr option" where
  "rb_last s = (if root s = 0 then Some 0 else rightmost (root s) s)"

text \<open>Up to the first ancestor of which the way does not come from the right, or the left.\<close>

partial_function (option) climb_right :: "addr \<Rightarrow> rb_root \<Rightarrow> addr option" where
  "climb_right p s = do {
     n \<leftarrow> fetch p s;
     if rb_parent n = 0 then Some 0
     else do {
       q \<leftarrow> fetch (rb_parent n) s;
       if p = rb_right q then climb_right (rb_parent n) s else Some (rb_parent n)
     }
   }"

partial_function (option) climb_left :: "addr \<Rightarrow> rb_root \<Rightarrow> addr option" where
  "climb_left p s = do {
     n \<leftarrow> fetch p s;
     if rb_parent n = 0 then Some 0
     else do {
       q \<leftarrow> fetch (rb_parent n) s;
       if p = rb_left q then climb_left (rb_parent n) s else Some (rb_parent n)
     }
   }"

definition rb_next :: "addr \<Rightarrow> rb_root \<Rightarrow> addr option" where
  "rb_next node s = do {
     n \<leftarrow> fetch node s;
     if rb_right n \<noteq> 0 then leftmost (rb_right n) s else climb_right node s
   }"

definition rb_prev :: "addr \<Rightarrow> rb_root \<Rightarrow> addr option" where
  "rb_prev node s = do {
     n \<leftarrow> fetch node s;
     if rb_left n \<noteq> 0 then rightmost (rb_left n) s else climb_left node s
   }"

section \<open>Removing and replacing\<close>

text \<open>
  The tail shared by both ways to unlink a node: the child takes its place and, when the
  node was black, the tree is rebalanced.
\<close>

definition erase_color :: "colour \<Rightarrow> addr \<Rightarrow> addr \<Rightarrow> rb_root \<Rightarrow> rb_root option" where
  "erase_color color child parent s =
     (if color = RB_BLACK then rb_erase_color child parent s else Some s)"

definition erase_single :: "addr \<Rightarrow> addr \<Rightarrow> rb_root \<Rightarrow> rb_root option" where
  "erase_single node child s = do {
     n \<leftarrow> fetch node s;
     let parent = rb_parent n;
     s \<leftarrow> (if child \<noteq> 0 then set_parent child parent s else Some s);
     s \<leftarrow> relink parent node child s;
     erase_color (rb_color n) child parent s
   }"

text \<open>A node with two children gives its place to its successor.\<close>

definition erase_double :: "addr \<Rightarrow> rb_root \<Rightarrow> rb_root option" where
  "erase_double old s = do {
     n \<leftarrow> fetch old s;
     node \<leftarrow> leftmost (rb_right n) s;
     m \<leftarrow> fetch node s;
     let child = rb_right m;
     let parent = rb_parent m;
     let color = rb_color m;
     s \<leftarrow> (if child \<noteq> 0 then set_parent child parent s else Some s);
     s \<leftarrow> relink parent node child s;
     m \<leftarrow> fetch node s;
     let parent' = (if rb_parent m = old then node else parent);
     n \<leftarrow> fetch old s;
     s \<leftarrow> amend node (\<lambda>m. m\<lparr>rb_parent := rb_parent n, rb_color := rb_color n,
                             rb_right := rb_right n, rb_left := rb_left n\<rparr>) s;
     s \<leftarrow> relink (rb_parent n) old node s;
     s \<leftarrow> set_parent (rb_left n) node s;
     n \<leftarrow> fetch old s;
     s \<leftarrow> (if rb_right n \<noteq> 0 then set_parent (rb_right n) node s else Some s);
     erase_color color child parent' s
   }"

definition rb_erase :: "addr \<Rightarrow> rb_root \<Rightarrow> rb_root option" where
  "rb_erase node s = do {
     n \<leftarrow> fetch node s;
     if rb_left n = 0 then erase_single node (rb_right n) s
     else if rb_right n = 0 then erase_single node (rb_left n) s
     else erase_double node s
   }"

definition rb_replace_node :: "addr \<Rightarrow> addr \<Rightarrow> rb_root \<Rightarrow> rb_root option" where
  "rb_replace_node victim new s = do {
     v \<leftarrow> fetch victim s;
     s \<leftarrow> (if rb_parent v \<noteq> 0
           then do {
             p \<leftarrow> fetch (rb_parent v) s;
             if victim = rb_left p then set_left (rb_parent v) new s else set_right (rb_parent v) new s
           }
           else Some (s\<lparr>root := new\<rparr>));
     s \<leftarrow> (if rb_left v \<noteq> 0 then set_parent (rb_left v) new s else Some s);
     s \<leftarrow> (if rb_right v \<noteq> 0 then set_parent (rb_right v) new s else Some s);
     v \<leftarrow> fetch victim s;
     amend new (\<lambda>_. v) s
   }"

end
