(* ===== verification/Rbtree_Shape.thy ===== *)
theory Rbtree_Shape
  imports Rbtree
begin

text \<open>
  Which tree a store holds. A node in the middle of a tree is seen as a subtree and the path
  from it up to the root, so that what an operation changes locally is separated from what
  it leaves alone. Every operation on the store is shown to be one on trees and paths.
\<close>

section \<open>Trees and paths\<close>

datatype rbt = Leaf | Node rbt colour addr rbt

text \<open>A step up: the subtree is the left or the right child; the sibling stays.\<close>

datatype crumb = On_Left colour addr rbt | On_Right rbt colour addr

fun addrs :: "rbt \<Rightarrow> addr list" where
  "addrs Leaf = []"
| "addrs (Node l c x r) = addrs l @ x # addrs r"

fun plug :: "rbt \<Rightarrow> crumb list \<Rightarrow> rbt" where
  "plug t [] = t"
| "plug t (On_Left c x r # cs) = plug (Node t c x r) cs"
| "plug t (On_Right l c x # cs) = plug (Node l c x t) cs"

fun crumb_addrs :: "crumb list \<Rightarrow> addr list" where
  "crumb_addrs [] = []"
| "crumb_addrs (On_Left c x r # cs) = x # addrs r @ crumb_addrs cs"
| "crumb_addrs (On_Right l c x # cs) = x # addrs l @ crumb_addrs cs"

fun apex :: "rbt \<Rightarrow> addr" where
  "apex Leaf = 0"
| "apex (Node l c x r) = x"

fun up :: "crumb list \<Rightarrow> addr" where
  "up [] = 0"
| "up (On_Left c x r # cs) = x"
| "up (On_Right l c x # cs) = x"

lemma apex_in: "t \<noteq> Leaf \<Longrightarrow> apex t \<in> set (addrs t)"
  by (cases t) auto

lemma plug_addrs: "set (addrs (plug t cs)) = set (addrs t) \<union> set (crumb_addrs cs)"
  by (induction t cs rule: plug.induct) auto

lemma plug_distinct: "distinct (addrs (plug t cs)) \<longleftrightarrow> distinct (addrs t @ crumb_addrs cs)"
  by (induction t cs rule: plug.induct) auto

text \<open>The addresses before and after the subtree, in order.\<close>

fun before :: "crumb list \<Rightarrow> addr list" where
  "before [] = []"
| "before (On_Left c x r # cs) = before cs"
| "before (On_Right l c x # cs) = before cs @ addrs l @ [x]"

fun after :: "crumb list \<Rightarrow> addr list" where
  "after [] = []"
| "after (On_Left c x r # cs) = x # addrs r @ after cs"
| "after (On_Right l c x # cs) = after cs"

lemma plug_inorder: "addrs (plug t cs) = before cs @ addrs t @ after cs"
  by (induction t cs rule: plug.induct) auto

section \<open>What a store holds\<close>

fun shape :: "rb_root \<Rightarrow> addr \<Rightarrow> addr \<Rightarrow> rbt \<Rightarrow> bool" where
  "shape s q p Leaf \<longleftrightarrow> p = 0"
| "shape s q p (Node l c x r) \<longleftrightarrow> p = x \<and> x \<noteq> 0 \<and> rb_parent (cells s x) = q \<and> rb_color (cells s x) = c \<and>
     shape s x (rb_left (cells s x)) l \<and> shape s x (rb_right (cells s x)) r"

fun path :: "rb_root \<Rightarrow> addr \<Rightarrow> crumb list \<Rightarrow> bool" where
  "path s p [] \<longleftrightarrow> root s = p"
| "path s p (On_Left c x r # cs) \<longleftrightarrow> x \<noteq> 0 \<and> rb_left (cells s x) = p \<and> rb_color (cells s x) = c \<and>
     rb_parent (cells s x) = up cs \<and> shape s x (rb_right (cells s x)) r \<and> path s x cs"
| "path s p (On_Right l c x # cs) \<longleftrightarrow> x \<noteq> 0 \<and> rb_right (cells s x) = p \<and> rb_color (cells s x) = c \<and>
     rb_parent (cells s x) = up cs \<and> shape s x (rb_left (cells s x)) l \<and> path s x cs"

text \<open>The store holds subtree \<open>t\<close> under the path \<open>cs\<close>.\<close>

definition holds :: "rb_root \<Rightarrow> rbt \<Rightarrow> crumb list \<Rightarrow> bool" where
  "holds s t cs \<longleftrightarrow> shape s (up cs) (apex t) t \<and> path s (apex t) cs \<and> distinct (addrs t @ crumb_addrs cs)"

lemma shape_apex: "shape s q p t \<Longrightarrow> p = apex t"
  by (cases t) auto

lemma shape_iff: "shape s q p t \<longleftrightarrow> p = apex t \<and> shape s q (apex t) t"
  by (cases t) auto

lemma shape_nonzero: "shape s q p t \<Longrightarrow> x \<in> set (addrs t) \<Longrightarrow> x \<noteq> 0"
  by (induction s q p t rule: shape.induct) auto

lemma path_nonzero: "path s p cs \<Longrightarrow> x \<in> set (crumb_addrs cs) \<Longrightarrow> x \<noteq> 0"
  by (induction s p cs rule: path.induct) (auto dest: shape_nonzero)

lemma shape_cong:
  "(\<And>x. x \<in> set (addrs t) \<Longrightarrow> cells s' x = cells s x) \<Longrightarrow> shape s' q p t = shape s q p t"
  by (induction s q p t rule: shape.induct) auto

lemma path_cong:
  "(\<And>x. x \<in> set (crumb_addrs cs) \<Longrightarrow> cells s' x = cells s x) \<Longrightarrow> root s' = root s \<Longrightarrow>
   path s' p cs = path s p cs"
proof (induction s p cs rule: path.induct)
  case (2 s p c x r cs)
  then show ?case using shape_cong [of r s' s] by auto
next
  case (3 s p l c x cs)
  then show ?case using shape_cong [of l s' s] by auto
qed simp

lemma shape_same:
  "shape s q p t \<Longrightarrow> (\<And>x. x \<in> set (addrs t) \<Longrightarrow> cells s' x = cells s x) \<Longrightarrow> shape s' q p t"
  using shape_cong by blast

lemma path_same:
  "path s p cs \<Longrightarrow> (\<And>x. x \<in> set (crumb_addrs cs) \<Longrightarrow> cells s' x = cells s x) \<Longrightarrow> root s' = root s \<Longrightarrow>
   path s' p cs"
  using path_cong by blast

text \<open>Moving up and down.\<close>

lemma holds_up_left: "holds s t (On_Left c x r # cs) \<longleftrightarrow> holds s (Node t c x r) cs"
  using shape_iff [of s x "rb_left (cells s x)" t] by (auto simp: holds_def)

lemma holds_up_right: "holds s t (On_Right l c x # cs) \<longleftrightarrow> holds s (Node l c x t) cs"
  using shape_iff [of s x "rb_right (cells s x)" t] by (auto simp: holds_def)

lemma holds_plug: "holds s t cs \<longleftrightarrow> holds s (plug t cs) []"
  by (induction t cs rule: plug.induct) (simp_all add: holds_up_left holds_up_right)

lemma holds_root: "holds s t [] \<Longrightarrow> root s = apex t"
  by (simp add: holds_def)

section \<open>Local changes\<close>

lemma fetch_Some: "p \<noteq> 0 \<Longrightarrow> fetch p s = Some (cells s p)"
  by (simp add: fetch_def)

lemma amend_Some: "p \<noteq> 0 \<Longrightarrow> amend p f s = Some (s\<lparr>cells := (cells s)(p := f (cells s p))\<rparr>)"
  by (simp add: amend_def)

lemmas store_ops = fetch_Some paint_def set_parent_def set_left_def set_right_def amend_Some

text \<open>A subtree whose top gets another parent.\<close>

lemma shape_reparent:
  assumes "shape s q p t" "distinct (addrs t)"
    and "\<And>x. x \<in> set (addrs t) \<Longrightarrow> x \<noteq> p \<Longrightarrow> cells s' x = cells s x"
    and "t \<noteq> Leaf \<Longrightarrow> cells s' p = (cells s p)\<lparr>rb_parent := q'\<rparr>"
  shows "shape s' q' p t"
proof (cases t)
  case Leaf
  then show ?thesis using assms(1) by simp
next
  case (Node l c x r)
  then have "shape s' x a l = shape s x a l" "shape s' x a r = shape s x a r" for a
    using assms(1-3) by (auto intro!: shape_cong)
  then show ?thesis using assms(1,4) Node by auto
qed

text \<open>A path whose lower end gets another child.\<close>

lemma relink_spec:
  assumes "path s p cs" "p \<noteq> 0" "p \<notin> set (crumb_addrs cs)" "distinct (crumb_addrs cs)"
  shows "\<exists>s'. relink (up cs) p p' s = Some s' \<and> path s' p' cs \<and>
    (\<forall>x. x \<notin> set (crumb_addrs cs) \<longrightarrow> cells s' x = cells s x)"
proof (cases cs)
  case Nil
  then show ?thesis by (intro exI [of _ "s\<lparr>root := p'\<rparr>"]) (simp add: relink_def)
next
  case (Cons k ks)
  show ?thesis
  proof (cases k)
    case (On_Left c x r)
    let ?s' = "s\<lparr>cells := (cells s)(x := (cells s x)\<lparr>rb_left := p'\<rparr>)\<rparr>"
    have "path ?s' x ks = path s x ks" using assms(4) Cons On_Left by (intro path_cong) auto
    moreover have "shape ?s' x a r = shape s x a r" for a
      using assms(4) Cons On_Left by (intro shape_cong) auto
    ultimately show ?thesis
      using assms(1) Cons On_Left by (intro exI [of _ ?s']) (auto simp: relink_def store_ops)
  next
    case (On_Right l c x)
    let ?s' = "s\<lparr>cells := (cells s)(x := (cells s x)\<lparr>rb_right := p'\<rparr>)\<rparr>"
    have "path ?s' x ks = path s x ks" using assms(4) Cons On_Right by (intro path_cong) auto
    moreover have "shape ?s' x a l = shape s x a l" for a
      using assms(4) Cons On_Right by (intro shape_cong) auto
    moreover have "rb_left (cells s x) \<noteq> p"
      using assms(1-3) Cons On_Right apex_in [of l] by (cases l) (auto dest!: shape_apex)
    ultimately show ?thesis
      using assms(1) Cons On_Right by (intro exI [of _ ?s']) (auto simp: relink_def store_ops)
  qed
qed

lemma relink_right_first_eq:
  assumes "path s p cs" "p \<noteq> 0" "p \<notin> set (crumb_addrs cs)"
  shows "relink_right_first (up cs) p p' s = relink (up cs) p p' s"
proof (cases cs)
  case Nil
  then show ?thesis by (simp add: relink_def relink_right_first_def)
next
  case (Cons k ks)
  have ne: "a \<noteq> p" if "shape s x a t" "set (addrs t) \<subseteq> set (crumb_addrs cs)" for a x t
    using that assms(2,3) by (cases t) auto
  show ?thesis
    using assms(1) Cons by (cases k) (auto simp: relink_def relink_right_first_def store_ops dest: ne)
qed

section \<open>Rotations\<close>

lemma rotate_left_holds:
  assumes "holds s (Node a c x (Node b d y e)) cs"
  shows "\<exists>s'. rb_rotate_left x s = Some s' \<and> holds s' (Node (Node a c x b) d y e) cs"
proof -
  have sh: "x \<noteq> 0" "y \<noteq> 0" "rb_parent (cells s x) = up cs" "rb_color (cells s x) = c"
      "shape s x (rb_left (cells s x)) a" "rb_right (cells s x) = y" "rb_color (cells s y) = d"
      "shape s y (rb_left (cells s y)) b" "shape s y (rb_right (cells s y)) e"
    and p: "path s x cs" and di: "distinct (addrs (Node a c x (Node b d y e)) @ crumb_addrs cs)"
    using assms by (auto simp: holds_def)
  let ?z = "rb_left (cells s y)"
  have z: "?z = apex b" using sh(8) by (rule shape_apex)
  have zx: "?z \<noteq> 0 \<Longrightarrow> ?z \<in> set (addrs b)" using z by (cases b) auto
  define m where "m = (let m1 = (cells s)(x := (cells s x)\<lparr>rb_right := ?z\<rparr>);
      m2 = (if ?z \<noteq> 0 then m1(?z := (cells s ?z)\<lparr>rb_parent := x\<rparr>) else m1)
    in m2(y := (cells s y)\<lparr>rb_left := x, rb_parent := up cs\<rparr>))"
  have m: "m x = (cells s x)\<lparr>rb_right := ?z\<rparr>" "m y = (cells s y)\<lparr>rb_left := x, rb_parent := up cs\<rparr>"
      "?z \<noteq> 0 \<Longrightarrow> m ?z = (cells s ?z)\<lparr>rb_parent := x\<rparr>"
      "w \<noteq> x \<Longrightarrow> w \<noteq> y \<Longrightarrow> w \<noteq> ?z \<Longrightarrow> m w = cells s w" for w
    using di zx unfolding m_def Let_def by (auto split: if_splits)
  let ?s1 = "s\<lparr>cells := m\<rparr>"
  have run: "rb_rotate_left x s = relink (up cs) x y ?s1 \<bind> (\<lambda>s. set_parent x y s)"
  proof (cases "?z = 0")
    case True
    then show ?thesis using sh(1-3,6) di unfolding m_def
      by (simp add: rb_rotate_left_def store_ops Let_def)
  next
    case False
    have "x \<noteq> y" "?z \<noteq> x" "?z \<noteq> y" using zx [OF False] di by auto
    then show ?thesis using sh(1-3,6) False unfolding m_def
      by (simp add: rb_rotate_left_def store_ops Let_def fun_upd_twist)
  qed
  have fr: "w \<noteq> x \<Longrightarrow> w \<noteq> y \<Longrightarrow> w \<notin> set (addrs b) \<Longrightarrow> m w = cells s w" for w
    using m(3,4) zx by (cases "w = ?z") (auto simp: m_def Let_def)
  have "m w = cells s w" if "w \<in> set (crumb_addrs cs)" for w
    using fr [of w] that di by fastforce
  then have "path ?s1 x cs" using p path_cong [of cs ?s1 s x] by simp
  then obtain s2 where s2: "relink (up cs) x y ?s1 = Some s2" "path s2 y cs"
      "\<And>w. w \<notin> set (crumb_addrs cs) \<Longrightarrow> cells s2 w = m w"
    using relink_spec [of ?s1 x cs y] sh(1) di by fastforce
  define s3 where "s3 = s2\<lparr>cells := (cells s2)(x := (cells s2 x)\<lparr>rb_parent := y\<rparr>)\<rparr>"
  have r: "rb_rotate_left x s = Some s3" using run s2(1) sh(1) by (simp add: store_ops s3_def)
  have c3: "w \<notin> set (crumb_addrs cs) \<Longrightarrow> w \<noteq> x \<Longrightarrow> cells s3 w = m w" for w by (simp add: s3_def s2(3))
  have x3: "cells s3 x = (cells s x)\<lparr>rb_right := ?z, rb_parent := y\<rparr>"
    using di by (simp add: s3_def s2(3) m(1))
  have y3: "cells s3 y = (cells s y)\<lparr>rb_left := x, rb_parent := up cs\<rparr>"
    using di c3 [of y] by (auto simp: m(2))
  have keep: "cells s3 w = cells s w"
    if "w \<notin> set (crumb_addrs cs)" "w \<noteq> x" "w \<noteq> y" "w \<notin> set (addrs b)" for w
    using c3 [of w] fr [of w] that by simp
  have inb: "w \<notin> set (crumb_addrs cs) \<and> w \<noteq> x \<and> w \<noteq> y" if "w \<in> set (addrs b)" for w
    using that di by auto
  have "shape s3 x (rb_left (cells s x)) a" by (rule shape_same [OF sh(5)], rule keep) (use di in auto)
  moreover have "shape s3 y (rb_right (cells s y)) e" by (rule shape_same [OF sh(9)], rule keep) (use di in auto)
  moreover have "shape s3 x ?z b"
  proof (rule shape_reparent [OF sh(8)])
    show "distinct (addrs b)" using di by simp
    show "cells s3 w = cells s w" if "w \<in> set (addrs b)" "w \<noteq> ?z" for w
      using inb [OF that(1)] that(2) c3 [of w] m(4) [of w] by simp
    show "cells s3 ?z = (cells s ?z)\<lparr>rb_parent := x\<rparr>" if "b \<noteq> Leaf"
    proof -
      have "?z \<noteq> 0" using z that sh(8) by (cases b) auto
      then show ?thesis using inb [OF zx] c3 [of ?z] m(3) by simp
    qed
  qed
  moreover have "path s3 y cs"
    by (rule path_same [OF s2(2)]) (use di in \<open>auto simp: s3_def\<close>)
  ultimately have "holds s3 (Node (Node a c x b) d y e) cs"
    using di sh x3 y3 unfolding holds_def by auto
  with r show ?thesis by blast
qed

section \<open>Mirror images\<close>

text \<open>
  The code treats left and right alike. Exchanging the two in a store turns each operation
  into its mirror image, so that what is shown of one holds of the other.
\<close>

definition flip :: "rb_node \<Rightarrow> rb_node" where
  "flip n = n\<lparr>rb_left := rb_right n, rb_right := rb_left n\<rparr>"

definition mirror :: "rb_root \<Rightarrow> rb_root" where
  "mirror s = s\<lparr>cells := (\<lambda>p. flip (cells s p))\<rparr>"

lemma flip_simps [simp]:
  "rb_left (flip n) = rb_right n" "rb_right (flip n) = rb_left n" "rb_parent (flip n) = rb_parent n"
  "rb_color (flip n) = rb_color n" "flip (flip n) = n"
  by (simp_all add: flip_def)

lemma mirror_simps [simp]:
  "cells (mirror s) p = flip (cells s p)" "root (mirror s) = root s" "mirror (mirror s) = s"
  by (simp_all add: mirror_def)

lemma mirror_root [simp]: "mirror (s\<lparr>root := p\<rparr>) = (mirror s)\<lparr>root := p\<rparr>"
  by (simp add: mirror_def)

lemma mirror_fetch: "fetch p (mirror s) = map_option flip (fetch p s)"
  by (simp add: fetch_def)

lemma mirror_amend:
  assumes "\<And>n. f (flip n) = flip (g n)"
  shows "amend p f (mirror s) = map_option mirror (amend p g s)"
  using assms by (auto simp: amend_def mirror_def fun_eq_iff)

lemma mirror_ops:
  "set_left p q (mirror s) = map_option mirror (set_right p q s)"
  "set_right p q (mirror s) = map_option mirror (set_left p q s)"
  "set_parent p q (mirror s) = map_option mirror (set_parent p q s)"
  "paint p c (mirror s) = map_option mirror (paint p c s)"
  unfolding set_left_def set_right_def set_parent_def paint_def
  by (rule mirror_amend, simp add: flip_def)+

lemma mirror_black [simp]: "is_black p (mirror s) = is_black p s"
  by (simp add: is_black_def)

lemma mirror_relink: "relink p old new (mirror s) = map_option mirror (relink_right_first p old new s)"
  by (simp add: relink_def relink_right_first_def mirror_fetch mirror_ops fetch_def)

lemma bind_mirror1: "Option.bind (map_option f m) k = Option.bind m (\<lambda>x. k (f x))"
  by (cases m) simp_all

lemma bind_mirror2: "map_option f (Option.bind m k) = Option.bind m (\<lambda>x. map_option f (k x))"
  by (cases m) simp_all

lemmas bind_mirror = bind_mirror1 bind_mirror2

lemma mirror_if:
  "(if b then map_option mirror m else Some (mirror s)) = map_option mirror (if b then m else Some s)"
  by simp

lemma mirror_rotate_left: "rb_rotate_left x (mirror s) = map_option mirror (rb_rotate_right x s)"
  unfolding rb_rotate_left_def rb_rotate_right_def Let_def
  by (simp add: mirror_fetch mirror_ops mirror_relink bind_mirror mirror_if cong: if_cong)

fun mirror_tree :: "rbt \<Rightarrow> rbt" where
  "mirror_tree Leaf = Leaf"
| "mirror_tree (Node l c x r) = Node (mirror_tree r) c x (mirror_tree l)"

fun mirror_path :: "crumb list \<Rightarrow> crumb list" where
  "mirror_path [] = []"
| "mirror_path (On_Left c x r # cs) = On_Right (mirror_tree r) c x # mirror_path cs"
| "mirror_path (On_Right l c x # cs) = On_Left c x (mirror_tree l) # mirror_path cs"

lemma mirror_tree_twice [simp]: "mirror_tree (mirror_tree t) = t"
  by (induction t) auto

lemma mirror_path_twice [simp]: "mirror_path (mirror_path cs) = cs"
  by (induction cs rule: mirror_path.induct) auto

lemma mirror_addrs [simp]: "addrs (mirror_tree t) = rev (addrs t)"
  by (induction t) auto

lemma mirror_crumb_addrs [simp]: "set (crumb_addrs (mirror_path cs)) = set (crumb_addrs cs)"
  "distinct (crumb_addrs (mirror_path cs)) = distinct (crumb_addrs cs)"
  by (induction cs rule: mirror_path.induct) auto

lemma mirror_apex [simp]: "apex (mirror_tree t) = apex t"
  by (cases t) auto

lemma mirror_up [simp]: "up (mirror_path cs) = up cs"
  by (cases cs rule: mirror_path.cases) auto

lemma mirror_shape [simp]: "shape (mirror s) q p (mirror_tree t) = shape s q p t"
  by (induction s q p t rule: shape.induct) auto

lemma mirror_path_iff [simp]: "path (mirror s) p (mirror_path cs) = path s p cs"
  by (induction s p cs rule: path.induct) auto

lemma mirror_holds [simp]: "holds (mirror s) (mirror_tree t) (mirror_path cs) = holds s t cs"
  by (simp add: holds_def)

lemma holds_mirror: "holds (mirror s) t cs = holds s (mirror_tree t) (mirror_path cs)"
  using mirror_holds [of s "mirror_tree t" "mirror_path cs"] by simp

lemma rotate_right_holds:
  assumes "holds s (Node (Node b d y e) c x a) cs"
  shows "\<exists>s'. rb_rotate_right x s = Some s' \<and> holds s' (Node b d y (Node e c x a)) cs"
proof -
  have "holds (mirror s) (Node (mirror_tree a) c x (Node (mirror_tree e) d y (mirror_tree b))) (mirror_path cs)"
    using assms by (simp add: holds_mirror)
  from rotate_left_holds [OF this] obtain s' where "rb_rotate_left x (mirror s) = Some s'"
      "holds s' (Node (Node (mirror_tree a) c x (mirror_tree e)) d y (mirror_tree b)) (mirror_path cs)" by blast
  then show ?thesis
    by (auto simp: mirror_rotate_left holds_mirror)
qed

end
