(* ===== verification/Rbtree_Insert.thy ===== *)
theory Rbtree_Insert
  imports Rbtree_Shape
begin

text \<open>
  \<open>rb_insert_color\<close> on a red-black tree with one more red leaf: it returns, and the store
  holds a red-black tree over the same nodes in the same order.
\<close>

section \<open>Reading and painting\<close>

fun hue :: "rbt \<Rightarrow> colour" where
  "hue Leaf = RB_BLACK"
| "hue (Node l c x r) = c"

lemma holds_cell:
  assumes "holds s (Node l c x r) cs"
  shows "x \<noteq> 0" "cells s x = \<lparr>rb_parent = up cs, rb_right = apex r, rb_left = apex l, rb_color = c\<rparr>"
proof -
  have h: "x \<noteq> 0" "rb_parent (cells s x) = up cs" "rb_color (cells s x) = c"
    "shape s x (rb_left (cells s x)) l" "shape s x (rb_right (cells s x)) r"
    using assms by (auto simp: holds_def)
  then show "x \<noteq> 0" "cells s x = \<lparr>rb_parent = up cs, rb_right = apex r, rb_left = apex l, rb_color = c\<rparr>"
    using shape_apex [OF h(4)] shape_apex [OF h(5)] by simp_all
qed

lemma holds_left_cell:
  assumes "holds s t (On_Left c x r # cs)"
  shows "x \<noteq> 0" "cells s x = \<lparr>rb_parent = up cs, rb_right = apex r, rb_left = apex t, rb_color = c\<rparr>"
  using holds_cell [OF assms [unfolded holds_up_left]] by simp_all

lemma holds_right_cell:
  assumes "holds s t (On_Right l c x # cs)"
  shows "x \<noteq> 0" "cells s x = \<lparr>rb_parent = up cs, rb_right = apex t, rb_left = apex l, rb_color = c\<rparr>"
  using holds_cell [OF assms [unfolded holds_up_right]] by simp_all

lemma holds_black:
  assumes "holds s t cs"
  shows "is_black (apex t) s \<longleftrightarrow> hue t = RB_BLACK"
proof (cases t)
  case (Node l c x r)
  then show ?thesis using holds_cell [of s l c x r cs] assms by (simp add: is_black_def)
qed (simp add: is_black_def)

lemma holds_apex_zero: "holds s t cs \<Longrightarrow> apex t = 0 \<longleftrightarrow> t = Leaf"
  by (cases t) (auto simp: holds_def)

lemma holds_apex_distinct:
  assumes "holds s t (On_Left c x r # cs)" "apex t \<noteq> 0"
  shows "apex t \<noteq> apex r" "apex t \<noteq> x"
proof -
  have "apex t \<in> set (addrs t)" using assms by (intro apex_in) (auto simp: holds_def)
  moreover have "apex r = 0 \<or> apex r \<in> set (addrs r)" by (cases r) auto
  ultimately show "apex t \<noteq> apex r" "apex t \<noteq> x" using assms by (auto simp: holds_def)
qed

lemma paint_holds:
  assumes "holds s (Node l c x r) cs"
  shows "\<exists>s'. paint x c' s = Some s' \<and> holds s' (Node l c' x r) cs"
proof -
  let ?s' = "s\<lparr>cells := (cells s)(x := (cells s x)\<lparr>rb_color := c'\<rparr>)\<rparr>"
  have d: "x \<notin> set (addrs l)" "x \<notin> set (addrs r)" "x \<notin> set (crumb_addrs cs)"
    using assms by (auto simp: holds_def)
  have "shape ?s' q p l = shape s q p l" "shape ?s' q p r = shape s q p r" for q p
    using d by (auto intro!: shape_cong)
  moreover have "path ?s' x cs = path s x cs" using d by (intro path_cong) auto
  ultimately have "holds ?s' (Node l c' x r) cs" using assms by (simp add: holds_def)
  then show ?thesis using holds_cell [OF assms] by (simp add: paint_def amend_Some)
qed

section \<open>Red-black trees\<close>

text \<open>No red node has a red child; every way down passes \<open>n\<close> black nodes.\<close>

fun rb_ok :: "nat \<Rightarrow> rbt \<Rightarrow> bool" where
  "rb_ok n Leaf \<longleftrightarrow> n = 0"
| "rb_ok n (Node l RB_RED x r) \<longleftrightarrow> hue l = RB_BLACK \<and> hue r = RB_BLACK \<and> rb_ok n l \<and> rb_ok n r"
| "rb_ok n (Node l RB_BLACK x r) \<longleftrightarrow> 0 < n \<and> rb_ok (n - 1) l \<and> rb_ok (n - 1) r"

definition red_black :: "rbt \<Rightarrow> bool" where
  "red_black t \<longleftrightarrow> hue t = RB_BLACK \<and> (\<exists>n. rb_ok n t)"

fun crumb_hue :: "crumb list \<Rightarrow> colour" where
  "crumb_hue [] = RB_RED"
| "crumb_hue (On_Left c x r # cs) = c"
| "crumb_hue (On_Right l c x # cs) = c"

text \<open>A path that fits a subtree of black height \<open>n\<close>; its upper end is black.\<close>

fun path_ok :: "nat \<Rightarrow> crumb list \<Rightarrow> bool" where
  "path_ok n [] \<longleftrightarrow> True"
| "path_ok n (On_Left RB_RED x r # cs) \<longleftrightarrow> rb_ok n r \<and> hue r = RB_BLACK \<and> crumb_hue cs = RB_BLACK \<and> path_ok n cs"
| "path_ok n (On_Left RB_BLACK x r # cs) \<longleftrightarrow> rb_ok n r \<and> path_ok (Suc n) cs"
| "path_ok n (On_Right l RB_RED x # cs) \<longleftrightarrow> rb_ok n l \<and> hue l = RB_BLACK \<and> crumb_hue cs = RB_BLACK \<and> path_ok n cs"
| "path_ok n (On_Right l RB_BLACK x # cs) \<longleftrightarrow> rb_ok n l \<and> path_ok (Suc n) cs"

lemma plug_ok:
  assumes "rb_ok n t" "path_ok n cs" "hue t = RB_RED \<Longrightarrow> cs = [] \<or> crumb_hue cs = RB_BLACK"
  shows "\<exists>m. rb_ok m (plug t cs)" "cs \<noteq> [] \<Longrightarrow> hue (plug t cs) = RB_BLACK"
proof -
  have "(\<exists>m. rb_ok m (plug t cs)) \<and> (cs \<noteq> [] \<longrightarrow> hue (plug t cs) = RB_BLACK)"
    using assms
  proof (induction n cs arbitrary: t rule: path_ok.induct)
    case (1 n)
    then show ?case by auto
  next
    case (2 n x r cs)
    have "(\<exists>m. rb_ok m (plug (Node t RB_RED x r) cs)) \<and> (cs \<noteq> [] \<longrightarrow> hue (plug (Node t RB_RED x r) cs) = RB_BLACK)"
      using "2.prems" by (intro "2.IH") (cases "hue t"; auto)+
    then show ?case using "2.prems" by (cases cs) auto
  next
    case (3 n x r cs)
    have "(\<exists>m. rb_ok m (plug (Node t RB_BLACK x r) cs)) \<and> (cs \<noteq> [] \<longrightarrow> hue (plug (Node t RB_BLACK x r) cs) = RB_BLACK)"
      using "3.prems" by (intro "3.IH") auto
    then show ?case by (cases cs) auto
  next
    case (4 n l x cs)
    have "(\<exists>m. rb_ok m (plug (Node l RB_RED x t) cs)) \<and> (cs \<noteq> [] \<longrightarrow> hue (plug (Node l RB_RED x t) cs) = RB_BLACK)"
      using "4.prems" by (intro "4.IH") (cases "hue t"; auto)+
    then show ?case using "4.prems" by (cases cs) auto
  next
    case (5 n l x cs)
    have "(\<exists>m. rb_ok m (plug (Node l RB_BLACK x t) cs)) \<and> (cs \<noteq> [] \<longrightarrow> hue (plug (Node l RB_BLACK x t) cs) = RB_BLACK)"
      using "5.prems" by (intro "5.IH") auto
    then show ?case by (cases cs) auto
  qed
  then show "\<exists>m. rb_ok m (plug t cs)" "cs \<noteq> [] \<Longrightarrow> hue (plug t cs) = RB_BLACK" by blast+
qed

lemma blacken_ok: "rb_ok n (Node l c x r) \<Longrightarrow> red_black (Node l RB_BLACK x r)"
  by (cases c) (auto simp: red_black_def intro: exI [of _ "Suc n"] exI [of _ n])

section \<open>The loop\<close>

definition settled :: "rb_root option \<Rightarrow> addr list \<Rightarrow> bool" where
  "settled r xs \<longleftrightarrow> (\<exists>s t n. r = Some s \<and> holds s t [] \<and> addrs t = xs \<and> rb_ok n t \<and> t \<noteq> Leaf)"

lemma settled_plug:
  assumes "holds s t cs" "rb_ok n t" "path_ok n cs" "hue t = RB_RED \<Longrightarrow> cs = [] \<or> crumb_hue cs = RB_BLACK"
    and "t \<noteq> Leaf"
  shows "settled (Some s) (addrs (plug t cs))"
proof -
  have "plug u cs \<noteq> Leaf" if "u \<noteq> Leaf" for u using that by (induction u cs rule: plug.induct) auto
  then show ?thesis
    using plug_ok(1) [OF assms(2-4)] assms(1,5) holds_plug [of s t cs] unfolding settled_def by blast
qed

text \<open>The loop stops below a black node and at the root.\<close>

lemma loop_stops:
  assumes "holds s (Node a c x b) cs" "cs = [] \<or> crumb_hue cs = RB_BLACK"
  shows "insert_color_loop x s = Some s"
proof -
  have "is_black (up cs) s"
  proof (cases cs rule: crumb_hue.cases)
    case 1
    then show ?thesis by (simp add: is_black_def)
  next
    case (2 d y r ds)
    then show ?thesis using holds_left_cell [of s _ d y r ds] assms by (auto simp: is_black_def)
  next
    case (3 l d y ds)
    then show ?thesis using holds_right_cell [of s _ l d y ds] assms by (auto simp: is_black_def)
  qed
  then show ?thesis
    using holds_cell [OF assms(1)] by (subst insert_color_loop.simps) (simp add: fetch_Some)
qed

text \<open>With a red uncle the colours move up; focus is the subtree of the grandparent afterwards.\<close>

lemma child_cell:
  assumes "holds s (Node l c p r) cs" "l = Node a d x b \<or> r = Node a d x b"
  shows "x \<noteq> 0" "rb_parent (cells s x) = p"
proof -
  have "holds s (Node a d x b) (On_Left c p r # cs) \<or> holds s (Node a d x b) (On_Right l c p # cs)"
    using assms by (auto simp: holds_up_left holds_up_right)
  then show "x \<noteq> 0" "rb_parent (cells s x) = p" using holds_cell [of s a d x b] by fastforce+
qed

lemma loop_red_uncle_left:
  assumes "holds s (Node (Node l RB_RED p r) RB_BLACK g (Node ul RB_RED u ur)) cs"
    and "l = Node a RB_RED x b \<or> r = Node a RB_RED x b"
  shows "\<exists>s'. insert_color_loop x s = insert_color_loop g s' \<and>
    holds s' (Node (Node l RB_BLACK p r) RB_RED g (Node ul RB_BLACK u ur)) cs"
proof -
  have hp: "holds s (Node l RB_RED p r) (On_Left RB_BLACK g (Node ul RB_RED u ur) # cs)"
    using assms(1) by (simp add: holds_up_left)
  have hu: "holds s (Node ul RB_RED u ur) (On_Right (Node l RB_RED p r) RB_BLACK g # cs)"
    using assms(1) by (simp add: holds_up_right)
  obtain s1 where s1: "paint u RB_BLACK s = Some s1"
      "holds s1 (Node ul RB_BLACK u ur) (On_Right (Node l RB_RED p r) RB_BLACK g # cs)"
    using paint_holds [OF hu] by blast
  have "holds s1 (Node l RB_RED p r) (On_Left RB_BLACK g (Node ul RB_BLACK u ur) # cs)"
    using s1(2) by (simp add: holds_up_right holds_up_left)
  from paint_holds [OF this] obtain s2 where s2: "paint p RB_BLACK s1 = Some s2"
      "holds s2 (Node l RB_BLACK p r) (On_Left RB_BLACK g (Node ul RB_BLACK u ur) # cs)" by blast
  from s2(2) have "holds s2 (Node (Node l RB_BLACK p r) RB_BLACK g (Node ul RB_BLACK u ur)) cs"
    by (simp add: holds_up_left)
  from paint_holds [OF this] obtain s3 where s3: "paint g RB_RED s2 = Some s3"
      "holds s3 (Node (Node l RB_BLACK p r) RB_RED g (Node ul RB_BLACK u ur)) cs" by blast
  have "insert_color_loop x s = insert_color_loop g s3"
    using child_cell [OF hp assms(2)] holds_cell [OF hp] holds_cell [OF assms(1)] holds_cell [OF hu]
    by (subst insert_color_loop.simps) (simp add: fetch_Some is_black_def s1(1) s2(1) s3(1))
  with s3(2) show ?thesis by blast
qed

lemma loop_red_uncle_right:
  assumes "holds s (Node (Node ul RB_RED u ur) RB_BLACK g (Node l RB_RED p r)) cs"
    and "l = Node a RB_RED x b \<or> r = Node a RB_RED x b"
  shows "\<exists>s'. insert_color_loop x s = insert_color_loop g s' \<and>
    holds s' (Node (Node ul RB_BLACK u ur) RB_RED g (Node l RB_BLACK p r)) cs"
proof -
  have hp: "holds s (Node l RB_RED p r) (On_Right (Node ul RB_RED u ur) RB_BLACK g # cs)"
    using assms(1) by (simp add: holds_up_right)
  have hu: "holds s (Node ul RB_RED u ur) (On_Left RB_BLACK g (Node l RB_RED p r) # cs)"
    using assms(1) by (simp add: holds_up_left)
  have ne: "p \<noteq> u" using assms(1) by (auto simp: holds_def)
  obtain s1 where s1: "paint u RB_BLACK s = Some s1"
      "holds s1 (Node ul RB_BLACK u ur) (On_Left RB_BLACK g (Node l RB_RED p r) # cs)"
    using paint_holds [OF hu] by blast
  have "holds s1 (Node l RB_RED p r) (On_Right (Node ul RB_BLACK u ur) RB_BLACK g # cs)"
    using s1(2) by (simp add: holds_up_right holds_up_left)
  from paint_holds [OF this] obtain s2 where s2: "paint p RB_BLACK s1 = Some s2"
      "holds s2 (Node l RB_BLACK p r) (On_Right (Node ul RB_BLACK u ur) RB_BLACK g # cs)" by blast
  from s2(2) have "holds s2 (Node (Node ul RB_BLACK u ur) RB_BLACK g (Node l RB_BLACK p r)) cs"
    by (simp add: holds_up_right)
  from paint_holds [OF this] obtain s3 where s3: "paint g RB_RED s2 = Some s3"
      "holds s3 (Node (Node ul RB_BLACK u ur) RB_RED g (Node l RB_BLACK p r)) cs" by blast
  have "insert_color_loop x s = insert_color_loop g s3"
    using child_cell [OF hp assms(2)] holds_cell [OF hp] holds_cell [OF assms(1)] holds_cell [OF hu] ne
    by (subst insert_color_loop.simps) (simp add: fetch_Some is_black_def s1(1) s2(1) s3(1))
  with s3(2) show ?thesis by blast
qed

text \<open>With a black uncle: two colours and one rotation, after another one in the inner case.\<close>

lemma rotate_up_right:
  assumes "holds s (Node (Node t c p r) d g u) cs"
  shows "\<exists>s1 s2 s3. paint p RB_BLACK s = Some s1 \<and> paint g RB_RED s1 = Some s2 \<and>
    rb_rotate_right g s2 = Some s3 \<and> holds s3 (Node t RB_BLACK p (Node r RB_RED g u)) cs"
proof -
  have "holds s (Node t c p r) (On_Left d g u # cs)" using assms by (simp add: holds_up_left)
  from paint_holds [OF this] obtain s1 where s1: "paint p RB_BLACK s = Some s1"
      "holds s1 (Node t RB_BLACK p r) (On_Left d g u # cs)" by blast
  then have "holds s1 (Node (Node t RB_BLACK p r) d g u) cs" by (simp add: holds_up_left)
  from paint_holds [OF this] obtain s2 where s2: "paint g RB_RED s1 = Some s2"
      "holds s2 (Node (Node t RB_BLACK p r) RB_RED g u) cs" by blast
  from rotate_right_holds [OF s2(2)] s1(1) s2(1) show ?thesis by blast
qed

lemma rotate_up_left:
  assumes "holds s (Node u d g (Node l c p t)) cs"
  shows "\<exists>s1 s2 s3. paint p RB_BLACK s = Some s1 \<and> paint g RB_RED s1 = Some s2 \<and>
    rb_rotate_left g s2 = Some s3 \<and> holds s3 (Node (Node u RB_RED g l) RB_BLACK p t) cs"
proof -
  have "holds s (Node l c p t) (On_Right u d g # cs)" using assms by (simp add: holds_up_right)
  from paint_holds [OF this] obtain s1 where s1: "paint p RB_BLACK s = Some s1"
      "holds s1 (Node l RB_BLACK p t) (On_Right u d g # cs)" by blast
  then have "holds s1 (Node u d g (Node l RB_BLACK p t)) cs" by (simp add: holds_up_right)
  from paint_holds [OF this] obtain s2 where s2: "paint g RB_RED s1 = Some s2"
      "holds s2 (Node u RB_RED g (Node l RB_BLACK p t)) cs" by blast
  from rotate_left_holds [OF s2(2)] s1(1) s2(1) show ?thesis by blast
qed

lemma loop_outer_left:
  assumes "holds s (Node (Node t RB_RED p r) RB_BLACK g u) cs" "t = Node a RB_RED x b" "hue u = RB_BLACK"
  shows "\<exists>s'. insert_color_loop x s = insert_color_loop x s' \<and> holds s' (Node t RB_BLACK p (Node r RB_RED g u)) cs"
proof -
  have hp: "holds s (Node t RB_RED p r) (On_Left RB_BLACK g u # cs)" using assms(1) by (simp add: holds_up_left)
  have hx: "holds s t (On_Left RB_RED p r # On_Left RB_BLACK g u # cs)" using hp by (simp add: holds_up_left)
  have hu: "holds s u (On_Right (Node t RB_RED p r) RB_BLACK g # cs)" using assms(1) by (simp add: holds_up_right)
  have ne: "apex r \<noteq> x" using holds_apex_distinct(1) [OF hx] holds_cell(1) [OF hx [unfolded assms(2)]] assms(2) by simp
  from rotate_up_right [OF assms(1)] obtain s1 s2 s3 where r: "paint p RB_BLACK s = Some s1" "paint g RB_RED s1 = Some s2"
      "rb_rotate_right g s2 = Some s3" "holds s3 (Node t RB_BLACK p (Node r RB_RED g u)) cs" by blast
  have "insert_color_loop x s = insert_color_loop x s3"
    using holds_cell [OF hx [unfolded assms(2)]] holds_cell [OF hp] holds_cell [OF assms(1)] holds_black [OF hu] ne assms(3)
    by (subst insert_color_loop.simps) (simp add: fetch_Some is_black_def r(1-3))
  with r(4) show ?thesis by blast
qed

lemma loop_outer_right:
  assumes "holds s (Node u RB_BLACK g (Node l RB_RED p t)) cs" "t = Node a RB_RED x b" "hue u = RB_BLACK"
  shows "\<exists>s'. insert_color_loop x s = insert_color_loop x s' \<and> holds s' (Node (Node u RB_RED g l) RB_BLACK p t) cs"
proof -
  have hp: "holds s (Node l RB_RED p t) (On_Right u RB_BLACK g # cs)" using assms(1) by (simp add: holds_up_right)
  have hx: "holds s t (On_Right l RB_RED p # On_Right u RB_BLACK g # cs)" using hp by (simp add: holds_up_right)
  have hu: "holds s u (On_Left RB_BLACK g (Node l RB_RED p t) # cs)" using assms(1) by (simp add: holds_up_left)
  have hl: "holds s l (On_Left RB_RED p t # On_Right u RB_BLACK g # cs)" using hp by (simp add: holds_up_left)
  have nu: "apex u \<noteq> p"
    using holds_apex_distinct(1) [OF hu] holds_cell(1) [OF hp] by auto
  have nl: "apex l \<noteq> x"
    using holds_apex_distinct(1) [OF hl] holds_cell(1) [OF hx [unfolded assms(2)]] assms(2) by auto
  from rotate_up_left [OF assms(1)] obtain s1 s2 s3 where r: "paint p RB_BLACK s = Some s1" "paint g RB_RED s1 = Some s2"
      "rb_rotate_left g s2 = Some s3" "holds s3 (Node (Node u RB_RED g l) RB_BLACK p t) cs" by blast
  have "insert_color_loop x s = insert_color_loop x s3"
    using holds_cell [OF hx [unfolded assms(2)]] holds_cell [OF hp] holds_cell [OF assms(1)] holds_black [OF hu] nu nl assms(3)
    by (subst insert_color_loop.simps) (simp add: fetch_Some is_black_def r(1-3))
  with r(4) show ?thesis by blast
qed

lemma loop_inner_left:
  assumes "holds s (Node (Node l RB_RED p t) RB_BLACK g u) cs" "t = Node a RB_RED x b" "hue u = RB_BLACK"
  shows "\<exists>s'. insert_color_loop x s = insert_color_loop p s' \<and>
    holds s' (Node (Node l RB_RED p a) RB_BLACK x (Node b RB_RED g u)) cs"
proof -
  have hp: "holds s (Node l RB_RED p t) (On_Left RB_BLACK g u # cs)" using assms(1) by (simp add: holds_up_left)
  have hx: "holds s t (On_Right l RB_RED p # On_Left RB_BLACK g u # cs)" using hp by (simp add: holds_up_right)
  have hu: "holds s u (On_Right (Node l RB_RED p t) RB_BLACK g # cs)" using assms(1) by (simp add: holds_up_right)
  obtain s0 where s0: "rb_rotate_left p s = Some s0" "holds s0 (Node (Node l RB_RED p a) RB_RED x b) (On_Left RB_BLACK g u # cs)"
    using rotate_left_holds [OF hp [unfolded assms(2)]] by blast
  have "holds s0 (Node (Node (Node l RB_RED p a) RB_RED x b) RB_BLACK g u) cs" using s0(2) by (simp add: holds_up_left)
  from rotate_up_right [OF this] obtain s1 s2 s3 where r: "paint x RB_BLACK s0 = Some s1" "paint g RB_RED s1 = Some s2"
      "rb_rotate_right g s2 = Some s3" "holds s3 (Node (Node l RB_RED p a) RB_BLACK x (Node b RB_RED g u)) cs" by blast
  have "insert_color_loop x s = insert_color_loop p s3"
    using holds_cell [OF hx [unfolded assms(2)]] holds_cell [OF hp] holds_cell [OF assms(1)] holds_black [OF hu] assms(2,3)
    by (subst insert_color_loop.simps) (simp add: fetch_Some is_black_def r(1-3) s0(1))
  with r(4) show ?thesis by blast
qed

lemma loop_inner_right:
  assumes "holds s (Node u RB_BLACK g (Node t RB_RED p r)) cs" "t = Node a RB_RED x b" "hue u = RB_BLACK"
  shows "\<exists>s'. insert_color_loop x s = insert_color_loop p s' \<and>
    holds s' (Node (Node u RB_RED g a) RB_BLACK x (Node b RB_RED p r)) cs"
proof -
  have hp: "holds s (Node t RB_RED p r) (On_Right u RB_BLACK g # cs)" using assms(1) by (simp add: holds_up_right)
  have hx: "holds s t (On_Left RB_RED p r # On_Right u RB_BLACK g # cs)" using hp by (simp add: holds_up_left)
  have hu: "holds s u (On_Left RB_BLACK g (Node t RB_RED p r) # cs)" using assms(1) by (simp add: holds_up_left)
  have nu: "apex u \<noteq> p"
    using holds_apex_distinct(1) [OF hu] holds_cell(1) [OF hp] by auto
  obtain s0 where s0: "rb_rotate_right p s = Some s0" "holds s0 (Node a RB_RED x (Node b RB_RED p r)) (On_Right u RB_BLACK g # cs)"
    using rotate_right_holds [OF hp [unfolded assms(2)]] by blast
  have "holds s0 (Node u RB_BLACK g (Node a RB_RED x (Node b RB_RED p r))) cs" using s0(2) by (simp add: holds_up_right)
  from rotate_up_left [OF this] obtain s1 s2 s3 where r: "paint x RB_BLACK s0 = Some s1" "paint g RB_RED s1 = Some s2"
      "rb_rotate_left g s2 = Some s3" "holds s3 (Node (Node u RB_RED g a) RB_BLACK x (Node b RB_RED p r)) cs" by blast
  have "insert_color_loop x s = insert_color_loop p s3"
    using holds_cell [OF hx [unfolded assms(2)]] holds_cell [OF hp] holds_cell [OF assms(1)] holds_black [OF hu] nu assms(2,3)
    by (subst insert_color_loop.simps) (simp add: fetch_Some is_black_def r(1-3) s0(1))
  with r(4) show ?thesis by blast
qed

text \<open>One round below a red parent leads to a red node with a shorter path above it.\<close>

definition steps_to :: "addr \<Rightarrow> rb_root \<Rightarrow> addr list \<Rightarrow> nat \<Rightarrow> bool" where
  "steps_to x s xs k \<longleftrightarrow> (\<exists>y s' a b cs n. insert_color_loop x s = insert_color_loop y s' \<and>
     holds s' (Node a RB_RED y b) cs \<and> rb_ok n (Node a RB_RED y b) \<and> path_ok n cs \<and>
     addrs (plug (Node a RB_RED y b) cs) = xs \<and> length cs < k)"

lemma steps_toI:
  assumes "insert_color_loop x s = insert_color_loop y s'" "holds s' (Node a RB_RED y b) cs"
    and "rb_ok n (Node a RB_RED y b)" "path_ok n cs" "addrs (plug (Node a RB_RED y b) cs) = xs" "length cs < k"
  shows "steps_to x s xs k"
  using assms unfolding steps_to_def by blast

lemma red_uncle_steps:
  assumes "hue u = RB_RED" "rb_ok n u" "rb_ok n l" "rb_ok n r" "l = Node a RB_RED x b \<or> r = Node a RB_RED x b"
    and "path_ok (Suc n) es"
  shows "holds s (Node (Node l RB_RED p r) RB_BLACK g u) es \<Longrightarrow>
      steps_to x s (addrs (plug (Node (Node l RB_RED p r) RB_BLACK g u) es)) (Suc (length es))"
    and "holds s (Node u RB_BLACK g (Node l RB_RED p r)) es \<Longrightarrow>
      steps_to x s (addrs (plug (Node u RB_BLACK g (Node l RB_RED p r)) es)) (Suc (length es))"
proof -
  obtain ul y ur where u: "u = Node ul RB_RED y ur" using assms(1) by (cases u) auto
  assume H: "holds s (Node (Node l RB_RED p r) RB_BLACK g u) es"
  obtain s' where s': "insert_color_loop x s = insert_color_loop g s'"
      "holds s' (Node (Node l RB_BLACK p r) RB_RED g (Node ul RB_BLACK y ur)) es"
    using loop_red_uncle_left [OF H [unfolded u] assms(5)] by blast
  show "steps_to x s (addrs (plug (Node (Node l RB_RED p r) RB_BLACK g u) es)) (Suc (length es))"
    using assms u by (intro steps_toI [OF s', of "Suc n"]) (simp_all add: plug_inorder)
next
  obtain ul y ur where u: "u = Node ul RB_RED y ur" using assms(1) by (cases u) auto
  assume H: "holds s (Node u RB_BLACK g (Node l RB_RED p r)) es"
  obtain s' where s': "insert_color_loop x s = insert_color_loop g s'"
      "holds s' (Node (Node ul RB_BLACK y ur) RB_RED g (Node l RB_BLACK p r)) es"
    using loop_red_uncle_right [OF H [unfolded u] assms(5)] by blast
  show "steps_to x s (addrs (plug (Node u RB_BLACK g (Node l RB_RED p r)) es)) (Suc (length es))"
    using assms u by (intro steps_toI [OF s', of "Suc n"]) (simp_all add: plug_inorder)
qed

lemma outer_steps:
  assumes "hue u = RB_BLACK" "rb_ok n u" "rb_ok n r" "hue r = RB_BLACK" "rb_ok n (Node a RB_RED x b)"
    and "path_ok (Suc n) es"
  shows "holds s (Node (Node (Node a RB_RED x b) RB_RED p r) RB_BLACK g u) es \<Longrightarrow>
      steps_to x s (addrs (plug (Node (Node (Node a RB_RED x b) RB_RED p r) RB_BLACK g u) es)) (Suc (Suc (length es)))"
    and "holds s (Node u RB_BLACK g (Node r RB_RED p (Node a RB_RED x b))) es \<Longrightarrow>
      steps_to x s (addrs (plug (Node u RB_BLACK g (Node r RB_RED p (Node a RB_RED x b))) es)) (Suc (Suc (length es)))"
proof -
  assume H: "holds s (Node (Node (Node a RB_RED x b) RB_RED p r) RB_BLACK g u) es"
  obtain s' where s': "insert_color_loop x s = insert_color_loop x s'"
      "holds s' (Node (Node a RB_RED x b) RB_BLACK p (Node r RB_RED g u)) es"
    using loop_outer_left [OF H refl assms(1)] by blast
  have h: "holds s' (Node a RB_RED x b) (On_Left RB_BLACK p (Node r RB_RED g u) # es)"
    using s'(2) by (simp add: holds_up_left)
  show "steps_to x s (addrs (plug (Node (Node (Node a RB_RED x b) RB_RED p r) RB_BLACK g u) es)) (Suc (Suc (length es)))"
    using assms by (intro steps_toI [OF s'(1) h, of n]) (simp_all add: plug_inorder)
next
  assume H: "holds s (Node u RB_BLACK g (Node r RB_RED p (Node a RB_RED x b))) es"
  obtain s' where s': "insert_color_loop x s = insert_color_loop x s'"
      "holds s' (Node (Node u RB_RED g r) RB_BLACK p (Node a RB_RED x b)) es"
    using loop_outer_right [OF H refl assms(1)] by blast
  have h: "holds s' (Node a RB_RED x b) (On_Right (Node u RB_RED g r) RB_BLACK p # es)"
    using s'(2) by (simp add: holds_up_right)
  show "steps_to x s (addrs (plug (Node u RB_BLACK g (Node r RB_RED p (Node a RB_RED x b))) es)) (Suc (Suc (length es)))"
    using assms by (intro steps_toI [OF s'(1) h, of n]) (simp_all add: plug_inorder)
qed

lemma inner_steps:
  assumes "hue u = RB_BLACK" "rb_ok n u" "rb_ok n l" "hue l = RB_BLACK" "rb_ok n (Node a RB_RED x b)"
    and "path_ok (Suc n) es"
  shows "holds s (Node (Node l RB_RED p (Node a RB_RED x b)) RB_BLACK g u) es \<Longrightarrow>
      steps_to x s (addrs (plug (Node (Node l RB_RED p (Node a RB_RED x b)) RB_BLACK g u) es)) (Suc (Suc (length es)))"
    and "holds s (Node u RB_BLACK g (Node (Node a RB_RED x b) RB_RED p l)) es \<Longrightarrow>
      steps_to x s (addrs (plug (Node u RB_BLACK g (Node (Node a RB_RED x b) RB_RED p l)) es)) (Suc (Suc (length es)))"
proof -
  assume H: "holds s (Node (Node l RB_RED p (Node a RB_RED x b)) RB_BLACK g u) es"
  obtain s' where s': "insert_color_loop x s = insert_color_loop p s'"
      "holds s' (Node (Node l RB_RED p a) RB_BLACK x (Node b RB_RED g u)) es"
    using loop_inner_left [OF H refl assms(1)] by blast
  have h: "holds s' (Node l RB_RED p a) (On_Left RB_BLACK x (Node b RB_RED g u) # es)"
    using s'(2) by (simp add: holds_up_left)
  show "steps_to x s (addrs (plug (Node (Node l RB_RED p (Node a RB_RED x b)) RB_BLACK g u) es)) (Suc (Suc (length es)))"
    using assms by (intro steps_toI [OF s'(1) h, of n]) (simp_all add: plug_inorder)
next
  assume H: "holds s (Node u RB_BLACK g (Node (Node a RB_RED x b) RB_RED p l)) es"
  obtain s' where s': "insert_color_loop x s = insert_color_loop p s'"
      "holds s' (Node (Node u RB_RED g a) RB_BLACK x (Node b RB_RED p l)) es"
    using loop_inner_right [OF H refl assms(1)] by blast
  have h: "holds s' (Node b RB_RED p l) (On_Right (Node u RB_RED g a) RB_BLACK x # es)"
    using s'(2) by (simp add: holds_up_right)
  show "steps_to x s (addrs (plug (Node u RB_BLACK g (Node (Node a RB_RED x b) RB_RED p l)) es)) (Suc (Suc (length es)))"
    using assms by (intro steps_toI [OF s'(1) h, of n]) (simp_all add: plug_inorder)
qed

lemma red_parent_steps:
  assumes "holds s (Node a RB_RED x b) (k # k2 # es)" "rb_ok n (Node a RB_RED x b)" "path_ok n (k # k2 # es)"
    and "crumb_hue (k # k2 # es) = RB_RED"
  shows "steps_to x s (addrs (plug (Node a RB_RED x b) (k # k2 # es))) (length (k # k2 # es))"
proof -
  have more: "steps_to x s xs (Suc (Suc (length es)))" if "steps_to x s xs (Suc (length es))" for xs
    using that unfolding steps_to_def by (elim exE conjE) (intro exI conjI, assumption+, simp)
  show ?thesis
  proof (cases k)
    case k: (On_Left c p r)
    show ?thesis
    proof (cases k2)
      case k2: (On_Left c2 g u)
      then show ?thesis
        using assms k more red_uncle_steps(1) [of u n "Node a RB_RED x b" r a x b es s p g]
          outer_steps(1) [of u n r a x b es s p g]
        by (cases c2; cases "hue u") (simp_all add: holds_up_left)
    next
      case k2: (On_Right u c2 g)
      then show ?thesis
        using assms k more red_uncle_steps(2) [of u n "Node a RB_RED x b" r a x b es s g p]
          inner_steps(2) [of u n r a x b es s g p]
        by (cases c2; cases "hue u") (simp_all add: holds_up_left holds_up_right)
    qed
  next
    case k: (On_Right l c p)
    show ?thesis
    proof (cases k2)
      case k2: (On_Left c2 g u)
      then show ?thesis
        using assms k more red_uncle_steps(1) [of u n l "Node a RB_RED x b" a x b es s p g]
          inner_steps(1) [of u n l a x b es s p g]
        by (cases c2; cases "hue u") (simp_all add: holds_up_left holds_up_right)
    next
      case k2: (On_Right u c2 g)
      then show ?thesis
        using assms k more red_uncle_steps(2) [of u n l "Node a RB_RED x b" a x b es s g p]
          outer_steps(2) [of u n l a x b es s g p]
        by (cases c2; cases "hue u") (simp_all add: holds_up_right)
    qed
  qed
qed

lemma red_crumb_above:
  assumes "path_ok n cs" "cs \<noteq> []" "crumb_hue cs = RB_RED"
  obtains k k2 es where "cs = k # k2 # es"
proof -
  obtain k ds where cs: "cs = k # ds" using assms(2) by (cases cs) auto
  then have "crumb_hue ds = RB_BLACK" using assms(1,3) by (cases k) auto
  then obtain k2 es where "ds = k2 # es" by (cases ds) auto
  with cs show thesis by (intro that) simp
qed

lemma insert_color_loop_settled:
  assumes "holds s (Node a RB_RED x b) cs" "rb_ok n (Node a RB_RED x b)" "path_ok n cs"
  shows "settled (insert_color_loop x s) (addrs (plug (Node a RB_RED x b) cs))"
  using assms
proof (induction "length cs" arbitrary: s a x b cs n rule: less_induct)
  case less
  show ?case
  proof (cases "cs = [] \<or> crumb_hue cs = RB_BLACK")
    case True
    then show ?thesis using loop_stops [OF less.prems(1)] settled_plug [OF less.prems] by simp
  next
    case False
    then have red: "cs \<noteq> []" "crumb_hue cs = RB_RED" by (cases "crumb_hue cs"; simp)+
    obtain k k2 es where cs: "cs = k # k2 # es" using less.prems(3) red by (rule red_crumb_above)
    obtain y s' a' b' cs' m where st: "insert_color_loop x s = insert_color_loop y s'"
        "holds s' (Node a' RB_RED y b') cs'" "rb_ok m (Node a' RB_RED y b')" "path_ok m cs'"
        "addrs (plug (Node a' RB_RED y b') cs') = addrs (plug (Node a RB_RED x b) cs)" "length cs' < length cs"
      using red_parent_steps [of s a x b k k2 es n] less.prems red(2) unfolding cs steps_to_def by blast
    show ?thesis using less.hyps [OF st(6,2-4)] st(1,5) by simp
  qed
qed

section \<open>Inserting\<close>

lemma rb_insert_color_ok:
  assumes "holds s (Node Leaf RB_RED x Leaf) cs" "path_ok 0 cs"
  shows "\<exists>s' t. rb_insert_color x s = Some s' \<and> holds s' t [] \<and> red_black t \<and>
    addrs t = before cs @ x # after cs"
proof -
  have "settled (insert_color_loop x s) (addrs (plug (Node Leaf RB_RED x Leaf) cs))"
    using assms by (intro insert_color_loop_settled) simp_all
  then obtain s1 t n where 1: "insert_color_loop x s = Some s1" "holds s1 t []"
      "addrs t = addrs (plug (Node Leaf RB_RED x Leaf) cs)" "rb_ok n t" "t \<noteq> Leaf"
    unfolding settled_def by blast
  obtain l c y r where t: "t = Node l c y r" using 1(5) by (cases t) auto
  have h: "holds s1 (Node l c y r) []" using 1(2) t by simp
  obtain s2 where "paint y RB_BLACK s1 = Some s2" "holds s2 (Node l RB_BLACK y r) []"
    using paint_holds [OF h] by blast
  moreover have "root s1 = y" using holds_root [OF h] by simp
  moreover have "red_black (Node l RB_BLACK y r)" using 1(4) t blacken_ok by blast
  moreover have "addrs (Node l RB_BLACK y r) = before cs @ x # after cs"
    using 1(3) by (simp add: t plug_inorder)
  ultimately show ?thesis using 1(1) by (auto simp: rb_insert_color_def)
qed

end
