(* ===== verification/Rbtree_Erase.thy ===== *)
theory Rbtree_Erase
  imports Rbtree_Insert
begin

text \<open>
  \<open>rb_erase\<close>: it returns, unlinks exactly the given node, keeps the order of the others, and
  a red-black tree stays one.
\<close>

section \<open>Rebalancing\<close>

lemma bind_if: "Option.bind (if b then m else m') k = (if b then Option.bind m k else Option.bind m' k)"
  by simp

lemma map_if: "map_option f (if b then m else m') = (if b then map_option f m else map_option f m')"
  by simp

lemma mirror_step:
  "erase_step_left p (mirror s) = map_option (map_prod id mirror) (erase_step_right p s)"
proof -
  have rr: "rb_rotate_right x (mirror s) = map_option mirror (rb_rotate_left x s)" for x s
    using mirror_rotate_left [of x "mirror s"] by (simp add: option.map_comp comp_def option.map_ident)
  show ?thesis
    unfolding erase_step_left_def erase_step_right_def Let_def
    by (simp add: mirror_fetch mirror_ops mirror_rotate_left rr bind_mirror bind_if map_if conj_commute
        cong: if_cong)
qed

text \<open>
  What one round does for a black subtree that lacks one black node: it settles the whole
  tree, or the lack moves to the parent, whose other child has become red.
\<close>

definition step_spec :: "nat \<Rightarrow> addr \<Rightarrow> addr list \<Rightarrow> nat \<Rightarrow> (bool \<times> rb_root) option \<Rightarrow> bool" where
  "step_spec n p xs k r \<longleftrightarrow>
     (\<exists>s' u. r = Some (False, s') \<and> holds s' u [] \<and> red_black u \<and> addrs u = xs) \<or>
     (\<exists>s' l c q cs. r = Some (True, s') \<and> holds s' (Node l c p q) cs \<and> addrs (plug (Node l c p q) cs) = xs \<and>
        rb_ok (Suc n) (Node l RB_BLACK p q) \<and> path_ok (if c = RB_BLACK then Suc (Suc n) else Suc n) cs \<and>
        (c = RB_BLACK \<longrightarrow> length cs < k) \<and> (c = RB_RED \<longrightarrow> crumb_hue cs = RB_BLACK))"

text \<open>The end of the branch for a red far child.\<close>

lemma finish_left:
  assumes "holds s (Node t c p (Node ol d y (Node rl e z rr))) cs"
  shows "\<exists>s1 s2 s3 s4. paint y c s = Some s1 \<and> paint p RB_BLACK s1 = Some s2 \<and>
    fetch y s2 = Some \<lparr>rb_parent = p, rb_right = z, rb_left = apex ol, rb_color = c\<rparr> \<and> z \<noteq> 0 \<and>
    paint z RB_BLACK s2 = Some s3 \<and> rb_rotate_left p s3 = Some s4 \<and>
    holds s4 (Node (Node t RB_BLACK p ol) c y (Node rl RB_BLACK z rr)) cs"
proof -
  have "holds s (Node ol d y (Node rl e z rr)) (On_Right t c p # cs)" using assms by (simp add: holds_up_right)
  from paint_holds [OF this] obtain s1 where s1: "paint y c s = Some s1"
      "holds s1 (Node ol c y (Node rl e z rr)) (On_Right t c p # cs)" by blast
  from s1(2) have "holds s1 (Node t c p (Node ol c y (Node rl e z rr))) cs" by (simp add: holds_up_right)
  from paint_holds [OF this] obtain s2 where s2: "paint p RB_BLACK s1 = Some s2"
      "holds s2 (Node t RB_BLACK p (Node ol c y (Node rl e z rr))) cs" by blast
  from s2(2) have hy: "holds s2 (Node ol c y (Node rl e z rr)) (On_Right t RB_BLACK p # cs)"
    by (simp add: holds_up_right)
  then have hz: "holds s2 (Node rl e z rr) (On_Right ol c y # On_Right t RB_BLACK p # cs)" by (simp add: holds_up_right)
  from paint_holds [OF this] obtain s3 where s3: "paint z RB_BLACK s2 = Some s3"
      "holds s3 (Node rl RB_BLACK z rr) (On_Right ol c y # On_Right t RB_BLACK p # cs)" by blast
  from s3(2) have "holds s3 (Node t RB_BLACK p (Node ol c y (Node rl RB_BLACK z rr))) cs" by (simp add: holds_up_right)
  from rotate_left_holds [OF this] show ?thesis
    using s1(1) s2(1) s3(1) holds_cell [OF hy] holds_cell(1) [OF hz] by (simp add: fetch_Some)
qed

lemma step_far_red:
  assumes "holds s (Node t c p (Node ol RB_BLACK y (Node rl RB_RED z rr))) cs"
  shows "\<exists>s'. erase_step_left p s = Some (False, s') \<and>
    holds s' (Node (Node t RB_BLACK p ol) c y (Node rl RB_BLACK z rr)) cs"
proof -
  have hy: "holds s (Node ol RB_BLACK y (Node rl RB_RED z rr)) (On_Right t c p # cs)"
    using assms by (simp add: holds_up_right)
  then have hz: "holds s (Node rl RB_RED z rr) (On_Right ol RB_BLACK y # On_Right t c p # cs)" by (simp add: holds_up_right)
  obtain s1 s2 s3 s4 where f: "paint y c s = Some s1" "paint p RB_BLACK s1 = Some s2"
      "fetch y s2 = Some \<lparr>rb_parent = p, rb_right = z, rb_left = apex ol, rb_color = c\<rparr>" "z \<noteq> 0"
      "paint z RB_BLACK s2 = Some s3" "rb_rotate_left p s3 = Some s4"
      "holds s4 (Node (Node t RB_BLACK p ol) c y (Node rl RB_BLACK z rr)) cs"
    using finish_left [OF assms] by blast
  have "erase_step_left p s = Some (False, s4)"
    unfolding erase_step_left_def Let_def
    using holds_cell [OF assms] holds_cell [OF hy] holds_black [OF hz] f(1-6) by (simp add: fetch_Some)
  with f(7) show ?thesis by blast
qed

lemma step_near_red:
  assumes "holds s (Node t c p (Node (Node ll RB_RED w lr) RB_BLACK y r)) cs" "hue r = RB_BLACK"
  shows "\<exists>s'. erase_step_left p s = Some (False, s') \<and>
    holds s' (Node (Node t RB_BLACK p ll) c w (Node lr RB_BLACK y r)) cs"
proof -
  have hy: "holds s (Node (Node ll RB_RED w lr) RB_BLACK y r) (On_Right t c p # cs)"
    using assms(1) by (simp add: holds_up_right)
  then have hw: "holds s (Node ll RB_RED w lr) (On_Left RB_BLACK y r # On_Right t c p # cs)"
    and hr: "holds s r (On_Right (Node ll RB_RED w lr) RB_BLACK y # On_Right t c p # cs)"
    by (simp_all add: holds_up_left holds_up_right)
  from paint_holds [OF hw] obtain s1 where s1: "paint w RB_BLACK s = Some s1"
      "holds s1 (Node ll RB_BLACK w lr) (On_Left RB_BLACK y r # On_Right t c p # cs)" by blast
  from s1(2) have "holds s1 (Node (Node ll RB_BLACK w lr) RB_BLACK y r) (On_Right t c p # cs)" by (simp add: holds_up_left)
  from paint_holds [OF this] obtain s2 where s2: "paint y RB_RED s1 = Some s2"
      "holds s2 (Node (Node ll RB_BLACK w lr) RB_RED y r) (On_Right t c p # cs)" by blast
  from rotate_right_holds [OF s2(2)] obtain s3 where s3: "rb_rotate_right y s2 = Some s3"
      "holds s3 (Node ll RB_BLACK w (Node lr RB_RED y r)) (On_Right t c p # cs)" by blast
  from s3(2) have h3: "holds s3 (Node t c p (Node ll RB_BLACK w (Node lr RB_RED y r))) cs" by (simp add: holds_up_right)
  obtain t1 t2 t3 t4 where f: "paint w c s3 = Some t1" "paint p RB_BLACK t1 = Some t2"
      "fetch w t2 = Some \<lparr>rb_parent = p, rb_right = y, rb_left = apex ll, rb_color = c\<rparr>" "y \<noteq> 0"
      "paint y RB_BLACK t2 = Some t3" "rb_rotate_left p t3 = Some t4"
      "holds t4 (Node (Node t RB_BLACK p ll) c w (Node lr RB_BLACK y r)) cs"
    using finish_left [OF h3] by blast
  have "erase_step_left p s = Some (False, t4)"
    unfolding erase_step_left_def Let_def
    using holds_cell [OF assms(1)] holds_cell [OF hy] holds_black [OF hr] holds_cell [OF hw] holds_cell [OF h3]
      assms(2) f(1-6) s1(1) s2(1) s3(1)
    by (simp add: fetch_Some is_black_def)
  with f(7) show ?thesis by blast
qed

lemma step_both_black:
  assumes "holds s (Node t c p (Node ol RB_BLACK y r)) cs" "hue ol = RB_BLACK" "hue r = RB_BLACK"
  shows "\<exists>s'. erase_step_left p s = Some (True, s') \<and> holds s' (Node t c p (Node ol RB_RED y r)) cs"
proof -
  have hy: "holds s (Node ol RB_BLACK y r) (On_Right t c p # cs)" using assms(1) by (simp add: holds_up_right)
  then have hl: "holds s ol (On_Left RB_BLACK y r # On_Right t c p # cs)"
    and hr: "holds s r (On_Right ol RB_BLACK y # On_Right t c p # cs)"
    by (simp_all add: holds_up_left holds_up_right)
  from paint_holds [OF hy] obtain s1 where s1: "paint y RB_RED s = Some s1"
      "holds s1 (Node ol RB_RED y r) (On_Right t c p # cs)" by blast
  have "erase_step_left p s = Some (True, s1)"
    unfolding erase_step_left_def Let_def
    using holds_cell [OF assms(1)] holds_cell [OF hy] holds_black [OF hr] holds_black [OF hl] assms(2,3) s1(1)
    by (simp add: fetch_Some)
  with s1(2) show ?thesis by (auto simp: holds_up_right)
qed

lemma step_red_sibling:
  assumes "holds s (Node t c p (Node ol RB_RED y r)) cs" "hue ol = RB_BLACK" "ol \<noteq> Leaf"
  shows "\<exists>s'. erase_step_left p s = erase_step_left p s' \<and> holds s' (Node t RB_RED p ol) (On_Left RB_BLACK y r # cs)"
proof -
  have hy: "holds s (Node ol RB_RED y r) (On_Right t c p # cs)" using assms(1) by (simp add: holds_up_right)
  from paint_holds [OF this] obtain s1 where s1: "paint y RB_BLACK s = Some s1"
      "holds s1 (Node ol RB_BLACK y r) (On_Right t c p # cs)" by blast
  then have "holds s1 (Node t c p (Node ol RB_BLACK y r)) cs" by (simp add: holds_up_right)
  from paint_holds [OF this] obtain s2 where s2: "paint p RB_RED s1 = Some s2"
      "holds s2 (Node t RB_RED p (Node ol RB_BLACK y r)) cs" by blast
  from rotate_left_holds [OF s2(2)] obtain s3 where s3: "rb_rotate_left p s2 = Some s3"
      "holds s3 (Node (Node t RB_RED p ol) RB_BLACK y r) cs" by blast
  from s3(2) have h3: "holds s3 (Node t RB_RED p ol) (On_Left RB_BLACK y r # cs)" by (simp add: holds_up_left)
  obtain a z b where ol: "ol = Node a RB_BLACK z b" using assms(2,3) by (cases ol) auto
  have hz: "holds s3 (Node a RB_BLACK z b) (On_Right t RB_RED p # On_Left RB_BLACK y r # cs)"
    using h3 ol by (simp add: holds_up_right)
  have "erase_step_left p s = erase_step_left p s3"
    unfolding erase_step_left_def Let_def
    using holds_cell [OF assms(1)] holds_cell [OF hy] holds_cell [OF h3] holds_cell [OF hz] ol s1(1) s2(1) s3(1)
    by (simp add: fetch_Some)
  with h3 show ?thesis by blast
qed

lemma settled_black:
  assumes "holds s t cs" "rb_ok n t" "path_ok n cs" "hue t = RB_RED \<Longrightarrow> crumb_hue cs = RB_BLACK"
  shows "\<exists>u. holds s u [] \<and> red_black u \<and> addrs u = addrs (plug t cs)"
proof -
  have "red_black (plug t cs)"
    using plug_ok [of n t cs] assms(2-4) unfolding red_black_def by (cases cs; cases "hue t") auto
  then show ?thesis using assms(1) holds_plug [of s t cs] by blast
qed

lemma step_settles:
  assumes "erase_step_left p s = Some (False, s')" "holds s' t cs" "rb_ok n t" "path_ok n cs"
    and "hue t = RB_RED \<Longrightarrow> crumb_hue cs = RB_BLACK" "addrs (plug t cs) = xs"
  shows "step_spec m p xs k (erase_step_left p s)"
  using settled_black [OF assms(2-5)] assms(1,6) unfolding step_spec_def by blast

lemma step_rises:
  assumes "erase_step_left p s = Some (True, s')" "holds s' (Node l c p q) cs" "addrs (plug (Node l c p q) cs) = xs"
    and "rb_ok (Suc n) (Node l RB_BLACK p q)" "path_ok (if c = RB_BLACK then Suc (Suc n) else Suc n) cs"
    and "c = RB_BLACK \<Longrightarrow> length cs < k" "c = RB_RED \<Longrightarrow> crumb_hue cs = RB_BLACK"
  shows "step_spec n p xs k (erase_step_left p s)"
  unfolding step_spec_def by (rule disjI2) (use assms in blast)

lemma path_left_split:
  assumes "path_ok n (On_Left c p q # cs)"
  shows "rb_ok n q" "path_ok (if c = RB_BLACK then Suc n else n) cs" "c = RB_RED \<Longrightarrow> hue q = RB_BLACK"
    "c = RB_RED \<Longrightarrow> crumb_hue cs = RB_BLACK"
  using assms by (cases c; simp)+

lemma step_left_black:
  assumes h: "holds s (Node t c p (Node ol RB_BLACK y r)) cs" and t: "rb_ok n t" "hue t = RB_BLACK"
    and pa: "path_ok (Suc n) (On_Left c p (Node ol RB_BLACK y r) # cs)"
    and k: "c = RB_BLACK \<Longrightarrow> length cs < k"
  shows "step_spec n p (addrs (plug (Node t c p (Node ol RB_BLACK y r)) cs)) k (erase_step_left p s)"
proof -
  note pa = path_left_split [OF pa]
  have ok: "rb_ok n ol" "rb_ok n r" using pa(1) by simp_all
  consider "hue r = RB_RED" | "hue r = RB_BLACK" "hue ol = RB_RED" | "hue r = RB_BLACK" "hue ol = RB_BLACK"
    by (cases "hue r"; cases "hue ol") auto
  then show ?thesis
  proof cases
    case 1
    then obtain rl z rr where r: "r = Node rl RB_RED z rr" by (cases r) auto
    obtain s' where s': "erase_step_left p s = Some (False, s')"
        "holds s' (Node (Node t RB_BLACK p ol) c y (Node rl RB_BLACK z rr)) cs"
      using step_far_red [OF h [unfolded r]] by blast
    show ?thesis
      using pa t ok r by (intro step_settles [OF s', of "if c = RB_BLACK then Suc (Suc n) else Suc n"])
        (cases c; simp add: plug_inorder)+
  next
    case 2
    then obtain ll w lr where ol: "ol = Node ll RB_RED w lr" by (cases ol) auto
    obtain s' where s': "erase_step_left p s = Some (False, s')"
        "holds s' (Node (Node t RB_BLACK p ll) c w (Node lr RB_BLACK y r)) cs"
      using step_near_red [OF h [unfolded ol] 2(1)] by blast
    show ?thesis
      using pa t ok ol by (intro step_settles [OF s', of "if c = RB_BLACK then Suc (Suc n) else Suc n"])
        (cases c; simp add: plug_inorder)+
  next
    case 3
    obtain s' where s': "erase_step_left p s = Some (True, s')" "holds s' (Node t c p (Node ol RB_RED y r)) cs"
      using step_both_black [OF h 3(2,1)] by blast
    show ?thesis
      using pa t ok 3 k by (intro step_rises [OF s']) (simp_all add: plug_inorder)
  qed
qed

lemma step_left:
  assumes h: "holds s (Node t c p q) cs" and t: "rb_ok n t" "hue t = RB_BLACK"
    and pa: "path_ok (Suc n) (On_Left c p q # cs)" and k: "length cs < k"
  shows "step_spec n p (addrs (plug (Node t c p q) cs)) k (erase_step_left p s)"
proof -
  note pa' = path_left_split [OF pa]
  obtain ol d y r where q: "q = Node ol d y r" using pa'(1) by (cases q) auto
  show ?thesis
  proof (cases d)
    case RB_BLACK
    then show ?thesis using step_left_black [of s t c p ol y r cs n k] assms q by simp
  next
    case RB_RED
    have ok: "c = RB_BLACK" "rb_ok (Suc n) ol" "rb_ok (Suc n) r" "hue ol = RB_BLACK" "hue r = RB_BLACK"
      using pa' q RB_RED by (cases c; simp)+
    obtain a z b where ol: "ol = Node a RB_BLACK z b" using ok(2,4) by (cases ol) auto
    obtain s' where s': "erase_step_left p s = erase_step_left p s'" "holds s' (Node t RB_RED p ol) (On_Left RB_BLACK y r # cs)"
      using step_red_sibling [OF h [unfolded q RB_RED] ok(4)] ol by blast
    have "step_spec n p (addrs (plug (Node t RB_RED p ol) (On_Left RB_BLACK y r # cs))) k (erase_step_left p s')"
      unfolding ol by (rule step_left_black [OF s'(2) [unfolded ol] t]) (use ok pa' ol in simp_all)
    then show ?thesis using s'(1) by (simp add: q plug_inorder)
  qed
qed

text \<open>The right-hand branch is the mirror image.\<close>

lemma mirror_hue [simp]: "hue (mirror_tree t) = hue t"
  by (cases t) auto

lemma mirror_ok [simp]: "rb_ok n (mirror_tree t) = rb_ok n t"
  by (induction n t rule: rb_ok.induct) auto

lemma mirror_crumb_hue [simp]: "crumb_hue (mirror_path cs) = crumb_hue cs"
  by (cases cs rule: crumb_hue.cases) auto

lemma mirror_path_ok [simp]: "path_ok n (mirror_path cs) = path_ok n cs"
  by (induction n cs rule: path_ok.induct) auto

lemma mirror_length [simp]: "length (mirror_path cs) = length cs"
  by (induction cs rule: mirror_path.induct) auto

lemma mirror_plug: "plug (mirror_tree t) (mirror_path cs) = mirror_tree (plug t cs)"
  by (induction t cs rule: plug.induct) auto

lemma mirror_red_black [simp]: "red_black (mirror_tree t) = red_black t"
  by (simp add: red_black_def)

lemma step_right:
  assumes h: "holds s (Node q c p t) cs" and t: "rb_ok n t" "hue t = RB_BLACK"
    and pa: "path_ok (Suc n) (On_Right q c p # cs)" and k: "length cs < k"
  shows "step_spec n p (addrs (plug (Node q c p t) cs)) k (erase_step_right p s)"
proof -
  let ?m = mirror_tree
  have "holds (mirror s) (Node (?m t) c p (?m q)) (mirror_path cs)" using h by (simp add: holds_mirror)
  moreover have "path_ok (Suc n) (On_Left c p (?m q) # mirror_path cs)"
    using pa mirror_path_ok [of "Suc n" "On_Right q c p # cs"] by simp
  ultimately have "step_spec n p (addrs (plug (?m (Node q c p t)) (mirror_path cs))) k (erase_step_left p (mirror s))"
    using t k by (simp add: step_left)
  then have st: "step_spec n p (rev (addrs (plug (Node q c p t) cs))) k (map_option (map_prod id mirror) (erase_step_right p s))"
    by (simp only: mirror_plug mirror_addrs mirror_step)
  let ?xs = "addrs (plug (Node q c p t) cs)" and ?r = "erase_step_right p s"
  from st consider s' u where "map_option (map_prod id mirror) ?r = Some (False, s')" "holds s' u []" "red_black u"
      "addrs u = rev ?xs"
    | s' l d r ds where "map_option (map_prod id mirror) ?r = Some (True, s')" "holds s' (Node l d p r) ds"
        "addrs (plug (Node l d p r) ds) = rev ?xs" "rb_ok (Suc n) (Node l RB_BLACK p r)"
        "path_ok (if d = RB_BLACK then Suc (Suc n) else Suc n) ds" "d = RB_BLACK \<longrightarrow> length ds < k"
        "d = RB_RED \<longrightarrow> crumb_hue ds = RB_BLACK"
    unfolding step_spec_def by blast
  then show ?thesis
  proof cases
    case 1
    then obtain s0 where "?r = Some (False, s0)" "mirror s0 = s'" by auto
    moreover have "holds s0 (?m u) []"
      using 1(2) calculation(2) mirror_holds [of s0 "?m u" "[]"] by simp
    ultimately show ?thesis
      unfolding step_spec_def using 1(3,4) by (intro disjI1 exI [of _ s0] exI [of _ "?m u"]) simp
  next
    case 2
    then obtain s0 where "?r = Some (True, s0)" "mirror s0 = s'" by auto
    moreover have "holds s0 (Node (?m r) d p (?m l)) (mirror_path ds)"
      using 2(2) calculation(2) mirror_holds [of s0 "?m (Node l d p r)" "mirror_path ds"] by simp
    moreover have "addrs (plug (Node (?m r) d p (?m l)) (mirror_path ds)) = ?xs"
      using 2(3) mirror_plug [of "Node l d p r" ds] by simp
    ultimately show ?thesis
      unfolding step_spec_def using 2(4-7)
      by (intro disjI2 exI [of _ s0] exI [of _ "?m r"] exI [of _ d] exI [of _ "?m l"] exI [of _ "mirror_path ds"]) simp
  qed
qed

section \<open>The loop\<close>

text \<open>What the loop meets: a subtree one black node short, unless its red top is painted black.\<close>

fun lacks :: "nat \<Rightarrow> rbt \<Rightarrow> bool" where
  "lacks n (Node l RB_RED x r) \<longleftrightarrow> rb_ok (Suc n) (Node l RB_BLACK x r)"
| "lacks n t \<longleftrightarrow> rb_ok n t"

definition restored :: "rb_root option \<Rightarrow> addr list \<Rightarrow> bool" where
  "restored r xs \<longleftrightarrow> (\<exists>s u. r = Some s \<and> holds s u [] \<and> red_black u \<and> addrs u = xs)"

lemma path_root: "path s p cs \<Longrightarrow> cs \<noteq> [] \<Longrightarrow> root s \<in> set (crumb_addrs cs)"
proof (induction s p cs rule: path.induct)
  case (2 s p c x r cs)
  then show ?case by (cases cs) auto
next
  case (3 s p l c x cs)
  then show ?case by (cases cs) auto
qed simp

lemma holds_not_root:
  assumes "holds s t cs" "cs \<noteq> []"
  shows "apex t \<noteq> root s"
proof -
  have r: "root s \<in> set (crumb_addrs cs)" using assms path_root by (auto simp: holds_def)
  then have "root s \<noteq> 0" using assms(1) path_nonzero by (auto simp: holds_def)
  moreover have "root s \<notin> set (addrs t)" using r assms(1) by (auto simp: holds_def)
  ultimately show ?thesis using apex_in [of t] by (cases t) auto
qed

lemma erase_color_red:
  assumes "holds s (Node l RB_RED x r) cs" "rb_ok (Suc n) (Node l RB_BLACK x r)" "path_ok (Suc n) cs"
  shows "restored (rb_erase_color x q s) (addrs (plug (Node l RB_RED x r) cs))"
proof -
  obtain s1 where s1: "paint x RB_BLACK s = Some s1" "holds s1 (Node l RB_BLACK x r) cs"
    using paint_holds [OF assms(1)] by blast
  have "rb_erase_color x q s = Some s1"
    unfolding rb_erase_color_def using holds_cell [OF assms(1)] s1(1)
    by (subst erase_color_loop.simps) (simp add: is_black_def)
  then show ?thesis
    using settled_black [OF s1(2) assms(2,3)] by (auto simp: restored_def plug_inorder)
qed

lemma paint_root:
  assumes "holds s u []" "red_black u"
  shows "restored (if root s \<noteq> 0 then paint (root s) RB_BLACK s else Some s) (addrs u)"
proof (cases u)
  case Leaf
  then show ?thesis using assms holds_root [OF assms(1)] by (auto simp: restored_def)
next
  case (Node l c x r)
  then have "c = RB_BLACK" using assms(2) by (simp add: red_black_def)
  moreover have h: "holds s (Node l c x r) []" using assms(1) Node by simp
  moreover obtain s' where "paint x RB_BLACK s = Some s'" "holds s' (Node l RB_BLACK x r) []"
    using paint_holds [OF h] by blast
  ultimately show ?thesis
    using holds_root [OF h] holds_cell(1) [OF h] assms(2) Node
    unfolding restored_def by (intro exI [of _ s'] exI [of _ u]) simp
qed

lemma red_black_root: "rb_ok n t \<Longrightarrow> hue t = RB_BLACK \<Longrightarrow> red_black t"
  by (auto simp: red_black_def)

lemma rb_erase_color_step:
  assumes "is_black node s" "node \<noteq> root s" "parent \<noteq> 0"
    and "(if rb_left (cells s parent) = node then erase_step_left parent s else erase_step_right parent s) = r"
  shows "r = Some (False, s') \<Longrightarrow> rb_erase_color node parent s = (if root s' \<noteq> 0 then paint (root s') RB_BLACK s' else Some s')"
    and "r = Some (True, s') \<Longrightarrow> rb_erase_color node parent s = rb_erase_color parent (rb_parent (cells s' parent)) s'"
  using assms unfolding rb_erase_color_def
  by (subst erase_color_loop.simps, simp add: fetch_Some)+

lemma erase_color_restores:
  assumes "holds s t cs" "lacks n t" "path_ok (Suc n) cs"
  shows "restored (rb_erase_color (apex t) (up cs) s) (addrs (plug t cs))"
  using assms
proof (induction "length cs" arbitrary: s t cs n rule: less_induct)
  case less
  show ?case
  proof (cases "hue t")
    case RB_RED
    then obtain l x r where "t = Node l RB_RED x r" by (cases t) auto
    then show ?thesis using less.prems erase_color_red [of s l x r cs n] by simp
  next
    case black: RB_BLACK
    then have ok: "rb_ok n t" using less.prems(2) by (cases t) auto
    show ?thesis
    proof (cases cs)
      case Nil
      then have "rb_erase_color (apex t) (up cs) s = (if root s \<noteq> 0 then paint (root s) RB_BLACK s else Some s)"
        unfolding rb_erase_color_def using holds_root less.prems(1)
        by (subst erase_color_loop.simps) simp
      then show ?thesis
        using Nil paint_root [of s t] red_black_root [OF ok black] less.prems(1) by simp
    next
      case (Cons k ds)
      let ?p = "up cs"
      obtain r where r: "(if rb_left (cells s ?p) = apex t then erase_step_left ?p s else erase_step_right ?p s) = r"
        and sp: "step_spec n ?p (addrs (plug t cs)) (length cs) r" and p: "?p \<noteq> 0"
      proof (cases k)
        case k: (On_Left c p q)
        have h: "holds s (Node t c p q) ds" using less.prems(1) Cons k by (simp add: holds_up_left)
        have "path_ok (Suc n) (On_Left c p q # ds)" using less.prems(3) Cons k by simp
        from step_left [OF h ok black this, of "length cs"] show thesis
          using Cons k holds_cell [OF h] by (intro that) simp_all
      next
        case k: (On_Right q c p)
        have h: "holds s (Node q c p t) ds" using less.prems(1) Cons k by (simp add: holds_up_right)
        then have hq: "holds s q (On_Left c p t # ds)" by (simp add: holds_up_left)
        have pa: "path_ok (Suc n) (On_Right q c p # ds)" using less.prems(3) Cons k by simp
        then have "q \<noteq> Leaf" by (cases c) auto
        then have "apex q \<noteq> apex t" using holds_apex_distinct(1) [OF hq] holds_apex_zero [OF hq] by simp
        with step_right [OF h ok black pa, of "length cs"] show thesis
          using Cons k holds_cell [OF h] by (intro that) simp_all
      qed
      have nr: "is_black (apex t) s" "apex t \<noteq> root s"
        using holds_black [OF less.prems(1)] black holds_not_root [OF less.prems(1)] Cons by simp_all
      note step = rb_erase_color_step [OF nr p r]
      from sp consider s' u where "r = Some (False, s')" "holds s' u []" "red_black u" "addrs u = addrs (plug t cs)"
        | s' l c q es where "r = Some (True, s')" "holds s' (Node l c ?p q) es"
            "addrs (plug (Node l c ?p q) es) = addrs (plug t cs)" "rb_ok (Suc n) (Node l RB_BLACK ?p q)"
            "path_ok (if c = RB_BLACK then Suc (Suc n) else Suc n) es" "c = RB_BLACK \<longrightarrow> length es < length cs"
        unfolding step_spec_def by blast
      then show ?thesis
      proof cases
        case 1
        then show ?thesis using step(1) [OF 1(1)] paint_root [OF 1(2,3)] by simp
      next
        case 2
        have "restored (rb_erase_color ?p (up es) s') (addrs (plug (Node l c ?p q) es))"
        proof (cases c)
          case RB_RED
          then show ?thesis using 2 erase_color_red [of s' l ?p q es n] by simp
        next
          case RB_BLACK
          then show ?thesis using 2 less.hyps [of es s' "Node l c ?p q" "Suc n"] by simp
        qed
        then show ?thesis using step(2) [OF 2(1)] holds_cell [OF 2(2)] 2(3) by simp
      qed
    qed
  qed
qed

section \<open>Unlinking\<close>

text \<open>A node with at most one child gives its place to that child; its own cell stays.\<close>

lemma splice_holds:
  assumes "holds s (Node l c x r) cs" "l = Leaf \<and> t = r \<or> r = Leaf \<and> t = l"
  shows "\<exists>s'. Option.bind (if apex t \<noteq> 0 then set_parent (apex t) (up cs) s else Some s) (relink (up cs) x (apex t)) = Some s' \<and>
    holds s' t cs \<and> cells s' x = cells s x"
proof -
  have h: "shape s x (apex t) t" "path s x cs" "x \<noteq> 0" "distinct (addrs t @ crumb_addrs cs)"
      "x \<notin> set (addrs t)" "x \<notin> set (crumb_addrs cs)"
    using assms holds_cell [OF assms(1)] by (auto simp: holds_def)
  let ?c = "(if t \<noteq> Leaf then (cells s)(apex t := (cells s (apex t))\<lparr>rb_parent := up cs\<rparr>) else cells s)"
  let ?s1 = "s\<lparr>cells := ?c\<rparr>"
  have z: "apex t = 0 \<longleftrightarrow> t = Leaf" using h(1) by (cases t) auto
  have s1: "(if apex t \<noteq> 0 then set_parent (apex t) (up cs) s else Some s) = Some ?s1"
    using z by (simp add: store_ops)
  have "path ?s1 x cs"
    by (rule path_same [OF h(2)]) (use h(4) apex_in [of t] in auto)
  then obtain s2 where s2: "relink (up cs) x (apex t) ?s1 = Some s2" "path s2 (apex t) cs"
      "\<And>w. w \<notin> set (crumb_addrs cs) \<Longrightarrow> cells s2 w = ?c w"
    using relink_spec [of ?s1 x cs "apex t"] h(3,4,6) by fastforce
  have "shape s2 (up cs) (apex t) t"
  proof (rule shape_reparent [OF h(1)])
    show "cells s2 w = cells s w" if "w \<in> set (addrs t)" "w \<noteq> apex t" for w
      using s2(3) [of w] that h(4) by (cases "t = Leaf") auto
    show "cells s2 (apex t) = (cells s (apex t))\<lparr>rb_parent := up cs\<rparr>" if "t \<noteq> Leaf"
      using s2(3) [of "apex t"] that h(4) apex_in [OF that] by (cases "t = Leaf") auto
  qed (use h(4) in simp)
  moreover have "cells s2 x = cells s x" using s2(3) [of x] h(5,6) apex_in [of t] by (cases "t = Leaf") auto
  ultimately show ?thesis using s1 s2(1,2) h(4) by (simp add: holds_def)
qed

lemma erase_single_holds:
  assumes "holds s (Node l c x r) cs" "l = Leaf \<and> t = r \<or> r = Leaf \<and> t = l"
  shows "\<exists>s'. holds s' t cs \<and> erase_single x (apex t) s = erase_color c (apex t) (up cs) s'"
proof -
  obtain s' where s': "Option.bind (if apex t \<noteq> 0 then set_parent (apex t) (up cs) s else Some s) (relink (up cs) x (apex t)) = Some s'"
      "holds s' t cs"
    using splice_holds [OF assms] by blast
  have "erase_single x (apex t) s = Option.bind
      (Option.bind (if apex t \<noteq> 0 then set_parent (apex t) (up cs) s else Some s) (relink (up cs) x (apex t)))
      (erase_color c (apex t) (up cs))"
    unfolding erase_single_def Let_def using holds_cell [OF assms(1)] by (simp add: fetch_Some cong: if_cong)
  from this [unfolded s'(1)] show ?thesis using s'(2) by auto
qed

text \<open>A fresh node takes the place, the colour and the children of another.\<close>

lemma swap_holds:
  assumes "holds s (Node l c x r) cs" "y \<notin> set (addrs (Node l c x r) @ crumb_addrs cs)" "y \<noteq> 0"
    and "path s' y cs" "cells s' y = cells s x"
    and "\<And>w. w \<in> set (addrs l) \<union> set (addrs r) \<Longrightarrow> cells s' w =
      (if w = apex l \<or> w = apex r then (cells s w)\<lparr>rb_parent := y\<rparr> else cells s w)"
  shows "holds s' (Node l c y r) cs"
proof -
  have d: "distinct (addrs (Node l c x r) @ crumb_addrs cs)" and sh: "shape s x (apex l) l" "shape s x (apex r) r"
    using assms(1) holds_cell [OF assms(1)] by (auto simp: holds_def)
  have ne: "apex l \<notin> set (addrs r)" "apex r \<notin> set (addrs l)"
    using d apex_in [of l] apex_in [of r] shape_nonzero [OF sh(1)] shape_nonzero [OF sh(2)] by (cases l; cases r; auto)+
  have "shape s' y (apex l) l"
    by (rule shape_reparent [OF sh(1)]) (use d assms(6) ne apex_in [of l] in auto)
  moreover have "shape s' y (apex r) r"
    by (rule shape_reparent [OF sh(2)]) (use d assms(6) ne apex_in [of r] in auto)
  ultimately show ?thesis
    using assms(2-5) holds_cell [OF assms(1)] d by (simp add: holds_def)
qed

lemma replace_holds:
  assumes h: "holds s (Node l c x r) cs" and y: "y \<notin> set (addrs (Node l c x r) @ crumb_addrs cs)" "y \<noteq> 0"
    and l: "l \<noteq> Leaf"
  shows "\<exists>s1 s2 s3 s4. amend y (\<lambda>m. m\<lparr>rb_parent := up cs, rb_color := c, rb_right := apex r, rb_left := apex l\<rparr>) s = Some s1 \<and>
    relink (up cs) x y s1 = Some s2 \<and> set_parent (apex l) y s2 = Some s3 \<and> fetch x s3 = Some (cells s x) \<and>
    (if apex r \<noteq> 0 then set_parent (apex r) y s3 else Some s3) = Some s4 \<and> holds s4 (Node l c y r) cs"
proof -
  have d: "distinct (addrs (Node l c x r) @ crumb_addrs cs)" and p: "path s x cs" and x: "x \<noteq> 0"
      and sh: "shape s x (apex l) l" "shape s x (apex r) r"
    using h holds_cell [OF h] by (auto simp: holds_def)
  have z: "apex l \<noteq> 0" "apex r = 0 \<longleftrightarrow> r = Leaf" using l shape_nonzero [OF sh(1) apex_in] sh(2) by (auto, cases r, auto)
  let ?s1 = "s\<lparr>cells := (cells s)(y := (cells s y)\<lparr>rb_parent := up cs, rb_color := c, rb_right := apex r, rb_left := apex l\<rparr>)\<rparr>"
  have "path ?s1 x cs" by (rule path_same [OF p]) (use y in auto)
  then obtain s2 where s2: "relink (up cs) x y ?s1 = Some s2" "path s2 y cs"
      "\<And>w. w \<notin> set (crumb_addrs cs) \<Longrightarrow> cells s2 w = cells ?s1 w"
    using relink_spec [of ?s1 x cs y] x d by fastforce
  let ?s3 = "s2\<lparr>cells := (cells s2)(apex l := (cells s2 (apex l))\<lparr>rb_parent := y\<rparr>)\<rparr>"
  let ?s4 = "?s3\<lparr>cells := (if r \<noteq> Leaf then (cells ?s3)(apex r := (cells ?s3 (apex r))\<lparr>rb_parent := y\<rparr>) else cells ?s3)\<rparr>"
  have li: "apex l \<in> set (addrs l)" and ri: "r \<noteq> Leaf \<Longrightarrow> apex r \<in> set (addrs r)" using l apex_in by auto
  have out: "w \<notin> set (crumb_addrs cs)" if "w \<in> set (addrs l) \<union> set (addrs r)" for w using d that by auto
  have x3: "cells ?s3 x = cells s x" using s2(3) [of x] d li y(1) by auto
  have "holds ?s4 (Node l c y r) cs"
  proof (rule swap_holds [OF h y])
    show "path ?s4 y cs" by (rule path_same [OF s2(2)]) (use d li ri in \<open>auto split: if_splits\<close>)
    have "cells ?s4 y = cells ?s1 y" using s2(3) [of y] y li ri by (auto split: if_splits)
    then show "cells ?s4 y = cells s x" using holds_cell [OF h] by simp
    show "cells ?s4 w = (if w = apex l \<or> w = apex r then (cells s w)\<lparr>rb_parent := y\<rparr> else cells s w)"
      if "w \<in> set (addrs l) \<union> set (addrs r)" for w
    proof -
      have "w \<noteq> y" "w \<noteq> 0" using that y shape_nonzero [OF sh(1)] shape_nonzero [OF sh(2)] by auto
      then show ?thesis using s2(3) [OF out [OF that]] z by auto
    qed
  qed
  moreover have "set_parent (apex l) y s2 = Some ?s3" using z(1) by (simp add: store_ops)
  moreover have "fetch x ?s3 = Some (cells s x)" unfolding fetch_Some [OF x] x3 ..
  moreover have "(if apex r \<noteq> 0 then set_parent (apex r) y ?s3 else Some ?s3) = Some ?s4"
    using z(2) by (simp add: store_ops)
  ultimately show ?thesis using s2(1) amend_Some [OF y(2), of _ s] by blast
qed

end
