(* ===== verification/Rbtree_Walk.thy ===== *)
theory Rbtree_Walk
  imports Rbtree_Insert
begin

text \<open>
  \<open>rb_first\<close>, \<open>rb_next\<close>, \<open>rb_last\<close> and \<open>rb_prev\<close> walk the nodes of a tree in order, from end
  to end, whatever its colours.
\<close>

section \<open>Down to an end\<close>

definition first :: "addr list \<Rightarrow> addr" where
  "first xs = (case xs of [] \<Rightarrow> 0 | x # _ \<Rightarrow> x)"

lemma first_simps [simp]: "first [] = 0" "first (x # xs) = x"
  by (simp_all add: first_def)

lemma first_append: "first (xs @ ys) = (if xs = [] then first ys else first xs)"
  by (cases xs) simp_all

lemma addrs_empty [simp]: "addrs t = [] \<longleftrightarrow> t = Leaf"
  by (cases t) simp_all

lemma leftmost_first: "holds s t cs \<Longrightarrow> t \<noteq> Leaf \<Longrightarrow> leftmost (apex t) s = Some (first (addrs t))"
proof (induction t arbitrary: cs)
  case (Node l c x r)
  have h: "holds s l (On_Left c x r # cs)" using Node.prems(1) by (simp add: holds_up_left)
  show ?case
    using Node.IH(1) [OF h] holds_cell [OF Node.prems(1)] holds_apex_zero [OF h]
    by (subst leftmost.simps) (simp add: fetch_Some first_append)
qed simp

lemma rightmost_first: "holds s t cs \<Longrightarrow> t \<noteq> Leaf \<Longrightarrow> rightmost (apex t) s = Some (first (rev (addrs t)))"
proof (induction t arbitrary: cs)
  case (Node l c x r)
  have h: "holds s r (On_Right l c x # cs)" using Node.prems(1) by (simp add: holds_up_right)
  show ?case
    using Node.IH(2) [OF h] holds_cell [OF Node.prems(1)] holds_apex_zero [OF h]
    by (subst rightmost.simps) (simp add: fetch_Some first_append)
qed simp

lemma leftmost_split: "t \<noteq> Leaf \<Longrightarrow> \<exists>ds d y b. t = plug (Node Leaf d y b) ds \<and> before ds = []"
proof (induction t)
  case (Node l c x r)
  have app: "plug t (ds @ es) = plug (plug t ds) es" "before (ds @ es) = before es @ before ds" for t ds es
    by (induction t ds rule: plug.induct) auto
  show ?case
  proof (cases "l = Leaf")
    case True
    then have "Node l c x r = plug (Node Leaf c x r) [] \<and> before [] = []" by simp
    then show ?thesis by blast
  next
    case False
    then obtain ds d y b where "l = plug (Node Leaf d y b) ds" "before ds = []" using Node.IH(1) by blast
    then have "Node l c x r = plug (Node Leaf d y b) (ds @ [On_Left c x r]) \<and> before (ds @ [On_Left c x r]) = []"
      by (simp add: app)
    then show ?thesis by blast
  qed
qed simp

section \<open>Up to the neighbour\<close>

lemma climb_right_after: "holds s t cs \<Longrightarrow> t \<noteq> Leaf \<Longrightarrow> climb_right (apex t) s = Some (first (after cs))"
proof (induction t cs rule: plug.induct)
  case (1 t)
  then obtain l c x r where t: "t = Node l c x r" by (cases t) auto
  show ?case
    using holds_cell [OF 1(1) [unfolded t]] t by (subst climb_right.simps) (simp add: fetch_Some)
next
  case (2 t c p r cs)
  obtain l d x q where t: "t = Node l d x q" using 2(3) by (cases t) auto
  show ?case
    using holds_cell [OF 2(2) [unfolded t]] holds_left_cell [OF 2(2)] holds_apex_distinct(1) [OF 2(2)] t
    by (subst climb_right.simps) (simp add: fetch_Some)
next
  case (3 t l c p cs)
  obtain a d x b where t: "t = Node a d x b" using 3(3) by (cases t) auto
  show ?case
    using holds_cell [OF 3(2) [unfolded t]] holds_right_cell [OF 3(2)] t 3(1) 3(2)
    by (subst climb_right.simps) (simp add: fetch_Some holds_up_right)
qed

lemma climb_left_before: "holds s t cs \<Longrightarrow> t \<noteq> Leaf \<Longrightarrow> climb_left (apex t) s = Some (first (rev (before cs)))"
proof (induction t cs rule: plug.induct)
  case (1 t)
  then obtain l c x r where t: "t = Node l c x r" by (cases t) auto
  show ?case
    using holds_cell [OF 1(1) [unfolded t]] t by (subst climb_left.simps) (simp add: fetch_Some)
next
  case (2 t c p r cs)
  obtain l d x q where t: "t = Node l d x q" using 2(3) by (cases t) auto
  show ?case
    using holds_cell [OF 2(2) [unfolded t]] holds_left_cell [OF 2(2)] t 2(1) 2(2)
    by (subst climb_left.simps) (simp add: fetch_Some holds_up_left)
next
  case (3 t l c p cs)
  obtain a d x b where t: "t = Node a d x b" using 3(3) by (cases t) auto
  have h: "holds s l (On_Left c p t # cs)" using 3(2) by (simp add: holds_up_left holds_up_right)
  have "x \<noteq> apex l"
    using holds_apex_distinct(1) [OF h] holds_cell [OF 3(2) [unfolded t]] t by (cases "apex l = 0") auto
  then show ?case
    using holds_cell [OF 3(2) [unfolded t]] holds_right_cell [OF 3(2)] t
    by (subst climb_left.simps) (simp add: fetch_Some)
qed

lemma rb_next_after:
  assumes "holds s (Node l c x r) cs"
  shows "rb_next x s = Some (first (addrs r @ after cs))"
proof -
  have h: "holds s r (On_Right l c x # cs)" using assms by (simp add: holds_up_right)
  show ?thesis
    using holds_cell [OF assms] holds_apex_zero [OF h] leftmost_first [OF h] climb_right_after [OF assms]
    by (simp add: rb_next_def fetch_Some first_append)
qed

lemma rb_prev_before:
  assumes "holds s (Node l c x r) cs"
  shows "rb_prev x s = Some (first (rev (before cs @ addrs l)))"
proof -
  have h: "holds s l (On_Left c x r # cs)" using assms by (simp add: holds_up_left)
  show ?thesis
    using holds_cell [OF assms] holds_apex_zero [OF h] rightmost_first [OF h] climb_left_before [OF assms]
    by (simp add: rb_prev_def fetch_Some first_append)
qed

section \<open>From end to end\<close>

lemma find_node:
  assumes "x \<in> set (addrs t)"
  shows "\<exists>l c r cs. t = plug (Node l c x r) cs"
  using assms
proof (induction t)
  case (Node l c y r)
  have app: "plug t (ds @ es) = plug (plug t ds) es" for t ds es by (induction t ds rule: plug.induct) auto
  consider "x = y" | "x \<in> set (addrs l)" | "x \<in> set (addrs r)" using Node.prems by auto
  then show ?case
  proof cases
    case 1
    then have "Node l c y r = plug (Node l c x r) []" by simp
    then show ?thesis by blast
  next
    case 2
    then obtain l' c' r' cs where "l = plug (Node l' c' x r') cs" using Node.IH(1) by blast
    then have "Node l c y r = plug (Node l' c' x r') (cs @ [On_Left c y r])" by (simp add: app)
    then show ?thesis by blast
  next
    case 3
    then obtain l' c' r' cs where "r = plug (Node l' c' x r') cs" using Node.IH(2) by blast
    then have "Node l c y r = plug (Node l' c' x r') (cs @ [On_Right l c y])" by (simp add: app)
    then show ?thesis by blast
  qed
qed simp

lemma rb_first_addrs: "holds s t [] \<Longrightarrow> rb_first s = Some (first (addrs t))"
  using holds_root [of s t] holds_apex_zero [of s t "[]"] leftmost_first [of s t "[]"] by (simp add: rb_first_def)

lemma rb_last_addrs: "holds s t [] \<Longrightarrow> rb_last s = Some (first (rev (addrs t)))"
  using holds_root [of s t] holds_apex_zero [of s t "[]"] rightmost_first [of s t "[]"] by (simp add: rb_last_def)

lemma neighbours:
  assumes "holds s t []" "addrs t = xs @ x # ys"
  shows "rb_next x s = Some (first ys)" "rb_prev x s = Some (first (rev xs))"
proof -
  obtain l c r cs where t: "t = plug (Node l c x r) cs" using find_node [of x t] assms(2) by auto
  have h: "holds s (Node l c x r) cs" using assms(1) t holds_plug by blast
  have "distinct (xs @ x # ys)" using assms by (simp add: holds_def)
  then have "x \<notin> set xs" "x \<notin> set ys" by simp_all
  moreover have "xs @ x # ys = (before cs @ addrs l) @ x # (addrs r @ after cs)"
    using t assms(2) by (simp add: plug_inorder)
  ultimately have "xs = before cs @ addrs l \<and> ys = addrs r @ after cs"
    by (rule iffD1 [OF append_Cons_eq_iff])
  then show "rb_next x s = Some (first ys)" "rb_prev x s = Some (first (rev xs))"
    using rb_next_after [OF h] rb_prev_before [OF h] by simp_all
qed

end
