(* ===== verification/Rbtree_Remove.thy ===== *)
theory Rbtree_Remove
  imports Rbtree_Erase Rbtree_Walk
begin

text \<open>
  \<open>rb_erase\<close> as a whole, on red-black trees and on the trees the operation table builds,
  which are never rebalanced; \<open>rb_link_node\<close> and \<open>rb_replace_node\<close>.
\<close>

section \<open>A node with two children\<close>

lemma plug_append: "plug t (ds @ es) = plug (plug t ds) es"
  by (induction t ds rule: plug.induct) auto

lemma up_append: "up (ds @ es) = (if ds = [] then up es else up ds)"
  by (cases ds rule: crumb_hue.cases) auto

lemma crumb_addrs_append: "crumb_addrs (ds @ es) = crumb_addrs ds @ crumb_addrs es"
  by (induction ds rule: crumb_addrs.induct) auto

lemma before_append: "before (ds @ es) = before es @ before ds"
  by (induction ds rule: before.induct) auto

lemma after_append: "after (ds @ es) = after ds @ after es"
  by (induction ds rule: after.induct) auto

lemma up_in: "ds \<noteq> [] \<Longrightarrow> up ds \<in> set (crumb_addrs ds)"
  by (cases ds rule: crumb_hue.cases) auto

lemma erase_double_holds:
  assumes h: "holds s (Node l c x (plug (Node Leaf d y b) ds)) cs" and l: "l \<noteq> Leaf"
    and first: "before ds = []"
  shows "\<exists>s'. holds s' b (ds @ On_Right l c y # cs) \<and>
    erase_double x s = erase_color d (apex b) (up (ds @ On_Right l c y # cs)) s'"
proof -
  let ?r = "plug (Node Leaf d y b) ds" and ?es = "ds @ On_Right l c x # cs"
  have hr: "holds s ?r (On_Right l c x # cs)" using h by (simp add: holds_up_right)
  have r: "?r \<noteq> Leaf" using plug_inorder [of "Node Leaf d y b" ds] by (cases ?r) auto
  have lm: "leftmost (apex ?r) s = Some y"
    using leftmost_first [OF hr r] first by (simp add: plug_inorder)
  have hy: "holds s (Node Leaf d y b) ?es"
    using hr holds_plug [of s ?r] holds_plug [of s "Node Leaf d y b" ?es] by (simp add: plug_append)
  obtain s1 where s1: "Option.bind (if apex b \<noteq> 0 then set_parent (apex b) (up ?es) s else Some s) (relink (up ?es) y (apex b)) = Some s1"
      "holds s1 b ?es" "cells s1 y = cells s y"
    using splice_holds [OF hy, of b] by blast
  have h1: "holds s1 (Node l c x (plug b ds)) cs"
    using s1(2) holds_plug [of s1 "Node l c x (plug b ds)" cs] holds_plug [of s1 b ?es] by (simp add: plug_append)
  have dy: "distinct (addrs (Node Leaf d y b) @ crumb_addrs ?es)" using hy by (simp add: holds_def)
  have y: "y \<notin> set (addrs (Node l c x (plug b ds)) @ crumb_addrs cs)" "y \<noteq> 0"
    using dy holds_cell(1) [OF hy] plug_addrs [of b ds] by (auto simp: crumb_addrs_append)
  obtain s2 s3 s4 s5 where s: "amend y (\<lambda>m. m\<lparr>rb_parent := up cs, rb_color := c, rb_right := apex (plug b ds), rb_left := apex l\<rparr>) s1 = Some s2"
      "relink (up cs) x y s2 = Some s3" "set_parent (apex l) y s3 = Some s4" "fetch x s4 = Some (cells s1 x)"
      "(if apex (plug b ds) \<noteq> 0 then set_parent (apex (plug b ds)) y s4 else Some s4) = Some s5"
      "holds s5 (Node l c y (plug b ds)) cs"
    using replace_holds [OF h1 y l] by blast
  have up: "(if up ?es = x then y else up ?es) = up (ds @ On_Right l c y # cs)"
    using dy up_in [of ds] by (auto simp: up_append crumb_addrs_append)
  from s1(1) obtain s0 where s0: "(if apex b \<noteq> 0 then set_parent (apex b) (up ?es) s else Some s) = Some s0"
      "relink (up ?es) y (apex b) s0 = Some s1"
    by (cases "if apex b \<noteq> 0 then set_parent (apex b) (up ?es) s else Some s") simp_all
  have x1: "cells s1 x = \<lparr>rb_parent = up cs, rb_right = apex (plug b ds), rb_left = apex l, rb_color = c\<rparr>" "x \<noteq> 0"
    using holds_cell [OF h1] by simp_all
  have "erase_double x s = erase_color d (apex b) (up (ds @ On_Right l c y # cs)) s5"
    unfolding erase_double_def Let_def
    using holds_cell [OF h] holds_cell [OF hy] lm s0 s1(3) x1 s(1-5) up
    by (cases "apex b = 0"; cases "apex (plug b ds) = 0"; cases "up ?es = x") (simp_all add: fetch_Some)
  moreover have "holds s5 b (ds @ On_Right l c y # cs)"
    using s(6) holds_plug [of s5 "Node l c y (plug b ds)" cs] holds_plug [of s5 b "ds @ On_Right l c y # cs"]
    by (simp add: plug_append)
  ultimately show ?thesis by blast
qed

section \<open>Any node\<close>

fun paints :: "rbt \<Rightarrow> colour set" where
  "paints Leaf = {}"
| "paints (Node l c x r) = insert c (paints l \<union> paints r)"

fun crumb_paints :: "crumb list \<Rightarrow> colour set" where
  "crumb_paints [] = {}"
| "crumb_paints (On_Left c x r # cs) = insert c (paints r \<union> crumb_paints cs)"
| "crumb_paints (On_Right l c x # cs) = insert c (paints l \<union> crumb_paints cs)"

lemma plug_paints: "paints (plug t cs) = paints t \<union> crumb_paints cs"
  by (induction t cs rule: plug.induct) auto

lemma crumb_paints_append: "crumb_paints (ds @ es) = crumb_paints ds \<union> crumb_paints es"
  by (induction ds rule: crumb_paints.induct) auto

lemma unplug_ok:
  assumes "rb_ok m (plug t cs)" "hue (plug t cs) = RB_BLACK"
  shows "\<exists>n. rb_ok n t \<and> path_ok n cs \<and> (hue t = RB_RED \<longrightarrow> crumb_hue cs = RB_BLACK)"
  using assms
proof (induction t cs rule: plug.induct)
  case (2 t c x r cs)
  then obtain n where n: "rb_ok n (Node t c x r)" "path_ok n cs" "c = RB_RED \<longrightarrow> crumb_hue cs = RB_BLACK" by auto
  then show ?case
    by (cases c) (auto intro: exI [of _ n] exI [of _ "n - 1"])
next
  case (3 t l c x cs)
  then obtain n where n: "rb_ok n (Node l c x t)" "path_ok n cs" "c = RB_RED \<longrightarrow> crumb_hue cs = RB_BLACK" by auto
  then show ?case
    by (cases c) (auto intro: exI [of _ n] exI [of _ "n - 1"])
qed auto

text \<open>What is left where a node of colour \<open>d\<close> with at most one child was.\<close>

definition vacated :: "colour \<Rightarrow> rbt \<Rightarrow> crumb list \<Rightarrow> bool" where
  "vacated d t cs \<longleftrightarrow> (if d = RB_BLACK then \<exists>n. lacks n t \<and> path_ok (Suc n) cs else red_black (plug t cs))"

lemma lacks_ok: "rb_ok n t \<Longrightarrow> lacks n t"
  by (cases "(n, t)" rule: lacks.cases) auto

lemma vacated_ok:
  assumes "rb_ok n (Node l d x r)" "l = Leaf \<and> t = r \<or> r = Leaf \<and> t = l" "path_ok n cs"
    and "d = RB_RED \<Longrightarrow> crumb_hue cs = RB_BLACK"
  shows "vacated d t cs"
proof (cases d)
  case RB_BLACK
  then have "lacks (n - 1) t" "Suc (n - 1) = n" using assms(1,2) lacks_ok by auto
  then show ?thesis using assms(3) RB_BLACK unfolding vacated_def by auto
next
  case RB_RED
  then have "rb_ok n t" "hue t = RB_BLACK" using assms(1,2) by auto
  then show ?thesis
    using plug_ok [of n t cs] assms(3) RB_RED unfolding vacated_def red_black_def by (cases cs) auto
qed

lemma path_ok_rename: "path_ok n (ds @ On_Right l c x # cs) = path_ok n (ds @ On_Right l c y # cs)"
proof (induction n ds rule: path_ok.induct)
  case (1 n)
  then show ?case by (cases c) simp_all
next
  case (2 n z r ds)
  then show ?case by (cases ds rule: crumb_hue.cases) simp_all
next
  case (4 n l' z ds)
  then show ?case by (cases ds rule: crumb_hue.cases) simp_all
qed simp_all

lemma crumb_hue_rename: "crumb_hue (ds @ On_Right l c x # cs) = crumb_hue (ds @ On_Right l c y # cs)"
  by (cases ds rule: crumb_hue.cases) simp_all

lemma rb_erase_cases:
  assumes h: "holds s (Node l c x r) cs"
  shows "\<exists>s' t ds d. rb_erase x s = erase_color d (apex t) (up ds) s' \<and> holds s' t ds \<and>
    addrs (plug t ds) = before cs @ addrs l @ addrs r @ after cs \<and>
    insert d (paints (plug t ds)) \<subseteq> paints (plug (Node l c x r) cs) \<and>
    (red_black (plug (Node l c x r) cs) \<longrightarrow> vacated d t ds)"
proof -
  have run: "rb_erase x s = (if l = Leaf then erase_single x (apex r) s
      else if r = Leaf then erase_single x (apex l) s else erase_double x s)"
  proof -
    have "holds s l (On_Left c x r # cs)" "holds s r (On_Right l c x # cs)"
      using h by (simp_all add: holds_up_left holds_up_right)
    then show ?thesis
      using holds_apex_zero holds_cell [OF h] by (simp add: rb_erase_def fetch_Some)
  qed
  have single: ?thesis
    if t: "l = Leaf \<and> t = r \<or> r = Leaf \<and> t = l" and e: "rb_erase x s = erase_single x (apex t) s" for t
  proof -
    obtain s' where s': "holds s' t cs" "erase_single x (apex t) s = erase_color c (apex t) (up cs) s'"
      using erase_single_holds [OF h t] by blast
    have "vacated c t cs" if rb: "red_black (plug (Node l c x r) cs)"
    proof -
      obtain n where n: "rb_ok n (Node l c x r)" "path_ok n cs" "c = RB_RED \<longrightarrow> crumb_hue cs = RB_BLACK"
        using rb unplug_ok [of _ "Node l c x r" cs] unfolding red_black_def by auto
      show ?thesis using vacated_ok [OF n(1) t n(2)] n(3) by simp
    qed
    with s' e t show ?thesis
      by (intro exI [of _ s'] exI [of _ t] exI [of _ cs] exI [of _ c]) (auto simp: plug_inorder plug_paints)
  qed
  show ?thesis
  proof (cases "l = Leaf \<or> r = Leaf")
    case True
    then show ?thesis using run single [of r] single [of l] by auto
  next
    case False
    then obtain ds d y b where r: "r = plug (Node Leaf d y b) ds" "before ds = []"
      using leftmost_split by blast
    let ?es = "ds @ On_Right l c y # cs" and ?xs = "ds @ On_Right l c x # cs"
    obtain s' where s': "holds s' b ?es" "erase_double x s = erase_color d (apex b) (up ?es) s'"
      using erase_double_holds [of s l c x d y b ds cs] h r False by blast
    have e: "plug (Node l c x r) cs = plug (Node Leaf d y b) ?xs" by (simp add: plug_append r(1))
    have "vacated d b ?es" if "red_black (plug (Node l c x r) cs)"
    proof -
      have rb: "red_black (plug (Node Leaf d y b) ?xs)" using that e by simp
      then obtain n where n: "rb_ok n (Node Leaf d y b)" "path_ok n ?xs" "d = RB_RED \<longrightarrow> crumb_hue ?xs = RB_BLACK"
        using unplug_ok [of _ "Node Leaf d y b" ?xs] unfolding red_black_def by auto
      have "path_ok n ?es" "d = RB_RED \<Longrightarrow> crumb_hue ?es = RB_BLACK"
        using n(2,3) path_ok_rename [of n ds l c x cs y] crumb_hue_rename [of ds l c x cs y] by simp_all
      then show ?thesis using vacated_ok [OF n(1)] by simp
    qed
    moreover have "addrs (plug b ?es) = before cs @ addrs l @ addrs r @ after cs"
      by (simp add: plug_inorder before_append after_append r)
    moreover have "insert d (paints (plug b ?es)) \<subseteq> paints (plug (Node l c x r) cs)"
      by (auto simp: e plug_paints crumb_paints_append)
    ultimately show ?thesis
      using run False s' by (intro exI [of _ s'] exI [of _ b] exI [of _ ?es] exI [of _ d]) simp
  qed
qed

lemma removeAll_middle: "distinct (xs @ x # ys) \<Longrightarrow> removeAll x (xs @ x # ys) = xs @ ys"
  by (simp add: removeAll_id)

lemma erased_addrs:
  assumes "holds s (plug (Node l c x r) cs) []"
  shows "before cs @ addrs l @ addrs r @ after cs = removeAll x (addrs (plug (Node l c x r) cs))"
  using removeAll_middle [of "before cs @ addrs l" x "addrs r @ after cs"] assms
  by (simp add: holds_def plug_inorder)

lemma rb_erase_red_black:
  assumes "holds s t []" "red_black t" "x \<in> set (addrs t)"
  shows "restored (rb_erase x s) (removeAll x (addrs t))"
proof -
  obtain l c r cs where t: "t = plug (Node l c x r) cs" using find_node [OF assms(3)] by blast
  have h: "holds s (Node l c x r) cs" using assms(1) t holds_plug by blast
  obtain s' u ds d where e: "rb_erase x s = erase_color d (apex u) (up ds) s'" "holds s' u ds"
      "addrs (plug u ds) = removeAll x (addrs t)" "vacated d u ds"
    using rb_erase_cases [OF h] assms(1,2) t erased_addrs by force
  show ?thesis
  proof (cases d)
    case RB_BLACK
    then show ?thesis
      using e erase_color_restores [OF e(2)] by (auto simp: vacated_def erase_color_def)
  next
    case RB_RED
    then show ?thesis
      using e holds_plug [of s' u ds] by (auto simp: vacated_def erase_color_def restored_def)
  qed
qed

lemma rb_erase_all_red:
  assumes "holds s t []" "paints t \<subseteq> {RB_RED}" "x \<in> set (addrs t)"
  shows "\<exists>s' u. rb_erase x s = Some s' \<and> holds s' u [] \<and> paints u \<subseteq> {RB_RED} \<and> addrs u = removeAll x (addrs t)"
proof -
  obtain l c r cs where t: "t = plug (Node l c x r) cs" using find_node [OF assms(3)] by blast
  have h: "holds s (Node l c x r) cs" using assms(1) t holds_plug by blast
  obtain s' u ds d where e: "rb_erase x s = erase_color d (apex u) (up ds) s'" "holds s' u ds"
      "addrs (plug u ds) = removeAll x (addrs t)" "insert d (paints (plug u ds)) \<subseteq> paints t"
    using rb_erase_cases [OF h] assms(1) t erased_addrs by force
  then have "rb_erase x s = Some s'" using assms(2) by (auto simp: erase_color_def)
  then show ?thesis using e assms(2) holds_plug [of s' u ds] by blast
qed

end
