(* ===== verification/Rbtree_Props.thy ===== *)
theory Rbtree_Props
  imports Rbtree_Remove
begin

text \<open>
  What a user of \<^verbatim>\<open>rbtree.h\<close> relies on: linking, inserting, erasing and replacing a node, and
  walking the tree.
\<close>

section \<open>Linking a new leaf\<close>

text \<open>The child pointer that a search ended at.\<close>

fun link_at :: "crumb list \<Rightarrow> rb_link" where
  "link_at [] = Root_Link"
| "link_at (On_Left c x r # cs) = Left_Link x"
| "link_at (On_Right l c x # cs) = Right_Link x"

lemma link_holds:
  assumes h: "holds s Leaf cs" and x: "x \<noteq> 0" "x \<notin> set (crumb_addrs cs)"
  shows "\<exists>s'. rb_link_node x (up cs) (link_at cs) s = Some s' \<and> holds s' (Node Leaf RB_RED x Leaf) cs"
proof -
  define n where "n = \<lparr>rb_parent = up cs, rb_right = 0, rb_left = 0, rb_color = RB_RED\<rparr>"
  let ?s1 = "s\<lparr>cells := (cells s)(x := n)\<rparr>"
  have d: "distinct (crumb_addrs cs)" and p: "path s 0 cs" using h by (auto simp: holds_def)
  have a: "amend x (\<lambda>n. n\<lparr>rb_parent := up cs, rb_color := RB_RED, rb_left := 0, rb_right := 0\<rparr>) s = Some ?s1"
    using x(1) by (cases "cells s x") (simp add: amend_Some n_def)
  show ?thesis
  proof (cases cs rule: link_at.cases)
    case 1
    then show ?thesis
      using a x by (intro exI [of _ "?s1\<lparr>root := x\<rparr>"]) (simp add: rb_link_node_def holds_def n_def)
  next
    case (2 c y r ds)
    let ?s2 = "?s1\<lparr>cells := (cells ?s1)(y := (cells ?s1 y)\<lparr>rb_left := x\<rparr>)\<rparr>"
    have "y \<noteq> x" "y \<noteq> 0" using x(2) 2 holds_left_cell h by auto
    moreover have "shape ?s2 y a r = shape s y a r" for a
      using x(2) d 2 by (intro shape_cong) auto
    moreover have "path ?s2 y ds = path s y ds" using x(2) d 2 by (intro path_cong) auto
    ultimately have "holds ?s2 (Node Leaf RB_RED x Leaf) cs" using x d p 2 by (simp add: holds_def n_def)
    then show ?thesis using a 2 \<open>y \<noteq> 0\<close> by (simp add: rb_link_node_def store_ops)
  next
    case (3 l c y ds)
    let ?s2 = "?s1\<lparr>cells := (cells ?s1)(y := (cells ?s1 y)\<lparr>rb_right := x\<rparr>)\<rparr>"
    have "y \<noteq> x" "y \<noteq> 0" using x(2) 3 holds_right_cell h by auto
    moreover have "shape ?s2 y a l = shape s y a l" for a
      using x(2) d 3 by (intro shape_cong) auto
    moreover have "path ?s2 y ds = path s y ds" using x(2) d 3 by (intro path_cong) auto
    ultimately have "holds ?s2 (Node Leaf RB_RED x Leaf) cs" using x d p 3 by (simp add: holds_def n_def)
    then show ?thesis using a 3 \<open>y \<noteq> 0\<close> by (simp add: rb_link_node_def store_ops)
  qed
qed

section \<open>Balance\<close>

fun height :: "rbt \<Rightarrow> nat" where
  "height Leaf = 0"
| "height (Node l c x r) = Suc (max (height l) (height r))"

lemma height_bound: "rb_ok n t \<Longrightarrow> height t \<le> 2 * n + (if hue t = RB_RED then 1 else 0)"
proof (induction n t rule: rb_ok.induct)
  case (3 n l x r)
  have "height l \<le> 2 * (n - 1) + 1" "height r \<le> 2 * (n - 1) + 1"
    using 3 by (auto split: if_splits)
  then show ?case using 3(3) by (cases n) simp_all
qed auto

lemma size_bound: "rb_ok n t \<Longrightarrow> 2 ^ n \<le> Suc (length (addrs t))"
proof (induction n t rule: rb_ok.induct)
  case (3 n l x r)
  have "2 ^ (n - 1) \<le> Suc (length (addrs l))" "2 ^ (n - 1) \<le> Suc (length (addrs r))"
    using 3 by auto
  moreover have "(2::nat) ^ n = 2 ^ (n - 1) + 2 ^ (n - 1)" using 3(3) by (cases n) auto
  ultimately show ?case by simp
qed auto

lemma red_black_height:
  assumes "red_black t"
  shows "2 ^ (height t div 2) \<le> Suc (length (addrs t))"
proof -
  obtain n where n: "rb_ok n t" "hue t = RB_BLACK" using assms by (auto simp: red_black_def)
  have "height t div 2 \<le> n" using height_bound [OF n(1)] n(2) by simp
  then have "(2::nat) ^ (height t div 2) \<le> 2 ^ n" by simp
  then show ?thesis using size_bound [OF n(1)] by linarith
qed

section \<open>Inserting\<close>

lemma path_ok_leaf: "red_black (plug Leaf cs) \<Longrightarrow> path_ok 0 cs"
  using unplug_ok [of _ Leaf cs] by (auto simp: red_black_def)

text \<open>C29. \<^verbatim>\<open>rb_link_node\<close> followed by \<^verbatim>\<open>rb_insert_color\<close>, at any empty child pointer of a red-black
  tree and with a fresh node: both return, no null pointer is dereferenced, and the store
  holds a red-black tree with the new node at that place in the order and all others where
  they were. Its height is at most twice the binary logarithm of its size.\<close>

theorem insertion_balances:
  assumes "holds s (plug Leaf cs) []" "red_black (plug Leaf cs)" "x \<noteq> 0" "x \<notin> set (addrs (plug Leaf cs))"
  shows "\<exists>s1 s2 t. rb_link_node x (up cs) (link_at cs) s = Some s1 \<and> rb_insert_color x s1 = Some s2 \<and>
    holds s2 t [] \<and> red_black t \<and> addrs t = before cs @ x # after cs \<and>
    2 ^ (height t div 2) \<le> Suc (length (addrs t))"
proof -
  have h: "holds s Leaf cs" using assms(1) holds_plug by blast
  have "x \<notin> set (crumb_addrs cs)" using assms(4) by (simp add: plug_addrs)
  then obtain s1 where s1: "rb_link_node x (up cs) (link_at cs) s = Some s1"
      "holds s1 (Node Leaf RB_RED x Leaf) cs"
    using link_holds [OF h assms(3)] by blast
  from rb_insert_color_ok [OF s1(2) path_ok_leaf [OF assms(2)]] show ?thesis
    using s1(1) red_black_height by blast
qed

text \<open>A tree of three nodes, on which the claims are instantiated.\<close>

definition three_nodes :: rb_root where
  "three_nodes = \<lparr>cells = (\<lambda>p. if p = 2 then \<lparr>rb_parent = 0, rb_right = 3, rb_left = 1, rb_color = RB_BLACK\<rparr>
     else \<lparr>rb_parent = 2, rb_right = 0, rb_left = 0, rb_color = RB_RED\<rparr>), root = 2\<rparr>"

definition three_tree :: rbt where
  "three_tree = Node (Node Leaf RB_RED 1 Leaf) RB_BLACK 2 (Node Leaf RB_RED 3 Leaf)"

lemma three_holds: "holds three_nodes three_tree []" "red_black three_tree" "addrs three_tree = [1, 2, 3]"
proof -
  show "holds three_nodes three_tree []" "addrs three_tree = [1, 2, 3]"
    by (simp_all add: three_nodes_def three_tree_def holds_def)
  have "rb_ok 1 three_tree" by (simp add: three_tree_def)
  then show "red_black three_tree" by (auto simp: red_black_def three_tree_def)
qed

theorem insertion_balances_witness:
  "\<exists>s1 s2 t. rb_link_node 4 3 (Right_Link 3) three_nodes = Some s1 \<and> rb_insert_color 4 s1 = Some s2 \<and>
    holds s2 t [] \<and> red_black t \<and> addrs t = [1, 2, 3, 4] \<and> 2 ^ (height t div 2) \<le> Suc (length (addrs t))"
proof -
  let ?cs = "[On_Right Leaf RB_RED 3, On_Right (Node Leaf RB_RED 1 Leaf) RB_BLACK 2]"
  have "plug Leaf ?cs = three_tree" by (simp add: three_tree_def)
  then show ?thesis
    using insertion_balances [of three_nodes ?cs 4] three_holds by simp
qed

section \<open>Erasing\<close>

text \<open>C30. \<^verbatim>\<open>rb_erase\<close> of any node of a red-black tree returns without dereferencing a null pointer,
  and the store holds a red-black tree of exactly the other nodes in their order: with no
  child, one child or two, whatever the colours around it, through every branch of
  \<^verbatim>\<open>__rb_erase_color\<close>. Its height stays logarithmic.\<close>

theorem erasure_balances:
  assumes "holds s t []" "red_black t" "x \<in> set (addrs t)"
  shows "\<exists>s' u. rb_erase x s = Some s' \<and> holds s' u [] \<and> red_black u \<and> addrs u = removeAll x (addrs t) \<and>
    2 ^ (height u div 2) \<le> Suc (length (addrs u))"
  using rb_erase_red_black [OF assms] red_black_height unfolding restored_def by blast

theorem erasure_balances_witness:
  "\<exists>s' u. rb_erase 2 three_nodes = Some s' \<and> holds s' u [] \<and> red_black u \<and> addrs u = [1, 3] \<and>
    2 ^ (height u div 2) \<le> Suc (length (addrs u))"
  using erasure_balances [OF three_holds(1,2), of 2] three_holds(3) by simp

section \<open>Walking\<close>

definition nth_or_null :: "addr list \<Rightarrow> nat \<Rightarrow> addr" where
  "nth_or_null xs i = (if i < length xs then xs ! i else 0)"

lemma first_drop: "first (drop i xs) = nth_or_null xs i"
  by (cases "i < length xs") (simp_all add: nth_or_null_def Cons_nth_drop_Suc [symmetric])

text \<open>C31. The walk of \<^verbatim>\<open>rb_first\<close> and \<^verbatim>\<open>rb_next\<close>, and backwards that of \<^verbatim>\<open>rb_last\<close> and \<^verbatim>\<open>rb_prev\<close>,
  visits the nodes of any tree exactly once each, in order, and ends with a null pointer; the
  colours play no part, so it also holds of a tree that was never rebalanced.\<close>

theorem walk_in_order:
  assumes "holds s t []"
  shows "rb_first s = Some (nth_or_null (addrs t) 0) \<and> rb_last s = Some (nth_or_null (rev (addrs t)) 0) \<and>
    (\<forall>i < length (addrs t). rb_next (addrs t ! i) s = Some (nth_or_null (addrs t) (Suc i))) \<and>
    (\<forall>i < length (addrs t). rb_prev (rev (addrs t) ! i) s = Some (nth_or_null (rev (addrs t)) (Suc i)))"
proof (intro conjI allI impI)
  show "rb_first s = Some (nth_or_null (addrs t) 0)"
    using rb_first_addrs [OF assms] first_drop [of 0 "addrs t"] by simp
  show "rb_last s = Some (nth_or_null (rev (addrs t)) 0)"
    using rb_last_addrs [OF assms] first_drop [of 0 "rev (addrs t)"] by simp
next
  fix i assume i: "i < length (addrs t)"
  have "addrs t = take i (addrs t) @ addrs t ! i # drop (Suc i) (addrs t)"
    using i by (rule id_take_nth_drop)
  from neighbours(1) [OF assms this] show "rb_next (addrs t ! i) s = Some (nth_or_null (addrs t) (Suc i))"
    by (simp only: first_drop)
next
  fix i assume i: "i < length (addrs t)"
  let ?xs = "rev (addrs t)"
  have "?xs = take i ?xs @ ?xs ! i # drop (Suc i) ?xs"
    by (rule id_take_nth_drop) (use i in simp)
  then have "rev ?xs = rev (take i ?xs @ ?xs ! i # drop (Suc i) ?xs)" by (rule arg_cong)
  then have "addrs t = rev (drop (Suc i) ?xs) @ ?xs ! i # rev (take i ?xs)"
    by (simp only: rev_append rev.simps rev_rev_ident append.simps append_assoc)
  then have "rb_prev (?xs ! i) s = Some (first (rev (rev (drop (Suc i) ?xs))))"
    by (rule neighbours(2) [OF assms])
  then show "rb_prev (?xs ! i) s = Some (nth_or_null ?xs (Suc i))"
    by (simp only: rev_rev_ident first_drop)
qed

theorem walk_in_order_witness:
  "rb_first three_nodes = Some 1 \<and> rb_next 1 three_nodes = Some 2 \<and> rb_next 2 three_nodes = Some 3 \<and>
   rb_next 3 three_nodes = Some 0"
proof -
  let ?xs = "[1, 2, 3 :: addr]"
  note w = walk_in_order [OF three_holds(1), unfolded three_holds(3)]
  have n: "rb_next (?xs ! i) three_nodes = Some (nth_or_null ?xs (Suc i))" if "i < length ?xs" for i
    using w [THEN conjunct2, THEN conjunct2, THEN conjunct1] that by blast
  show ?thesis
    using w [THEN conjunct1] n [of 0] n [of 1] n [of 2] by (simp add: nth_or_null_def)
qed

section \<open>Replacing\<close>

fun rename :: "addr \<Rightarrow> addr \<Rightarrow> rbt \<Rightarrow> rbt" where
  "rename x y Leaf = Leaf"
| "rename x y (Node l c z r) = Node (rename x y l) c (if z = x then y else z) (rename x y r)"

lemma rename_other: "x \<notin> set (addrs t) \<Longrightarrow> rename x y t = t"
  by (induction t) auto

lemma rename_plug: "x \<notin> set (crumb_addrs cs) \<Longrightarrow> rename x y (plug t cs) = plug (rename x y t) cs"
  by (induction t cs rule: plug.induct) (auto simp: rename_other)

lemma replace_node_holds:
  assumes h: "holds s (Node l c x r) cs" and y: "y \<notin> set (addrs (Node l c x r) @ crumb_addrs cs)" "y \<noteq> 0"
  shows "\<exists>s'. rb_replace_node x y s = Some s' \<and> holds s' (Node l c y r) cs"
proof -
  have d: "distinct (addrs (Node l c x r) @ crumb_addrs cs)" and p: "path s x cs" and x: "x \<noteq> 0"
      and sh: "shape s x (apex l) l" "shape s x (apex r) r"
    using h holds_cell [OF h] by (auto simp: holds_def)
  have z: "apex l = 0 \<longleftrightarrow> l = Leaf" "apex r = 0 \<longleftrightarrow> r = Leaf" using sh by (cases l; cases r; auto)+
  obtain s1 where s1: "relink (up cs) x y s = Some s1" "path s1 y cs"
      "\<And>w. w \<notin> set (crumb_addrs cs) \<Longrightarrow> cells s1 w = cells s w"
    using relink_spec [of s x cs y] p x d by fastforce
  have "(if up cs \<noteq> 0 then Option.bind (fetch (up cs) s) (\<lambda>p. if x = rb_left p then set_left (up cs) y s else set_right (up cs) y s)
      else Some (s\<lparr>root := y\<rparr>)) = relink (up cs) x y s"
    unfolding relink_def by (simp only: eq_commute [of x])
  note lk = trans [OF this s1(1)]
  define give where "give q s = s\<lparr>cells := (if q \<noteq> 0 then (cells s)(q := (cells s q)\<lparr>rb_parent := y\<rparr>) else cells s)\<rparr>"
    for q and s :: rb_root
  have give: "(if q \<noteq> 0 then set_parent q y s else Some s) = Some (give q s)" for q s
    by (simp add: give_def store_ops)
  let ?s3 = "give (apex r) (give (apex l) s1)"
  have li: "l \<noteq> Leaf \<Longrightarrow> apex l \<in> set (addrs l)" and ri: "r \<noteq> Leaf \<Longrightarrow> apex r \<in> set (addrs r)" using apex_in by auto
  have out: "w \<notin> set (crumb_addrs cs)" if "w \<in> set (addrs l) \<union> set (addrs r)" for w using d that by auto
  have x3: "cells ?s3 x = cells s x"
    using s1(3) [of x] d li ri z by (cases "l = Leaf"; cases "r = Leaf") (auto simp: give_def)
  let ?s4 = "?s3\<lparr>cells := (cells ?s3)(y := cells s x)\<rparr>"
  have "holds ?s4 (Node l c y r) cs"
  proof (rule swap_holds [OF h y])
    have "\<And>w. w \<in> set (crumb_addrs cs) \<Longrightarrow> cells ?s4 w = cells s1 w"
      using y(1) d li ri z by (cases "l = Leaf"; cases "r = Leaf") (auto simp: give_def)
    then show "path ?s4 y cs" by (rule path_same [OF s1(2)]) (simp_all add: give_def)
    show "cells ?s4 w = (if w = apex l \<or> w = apex r then (cells s w)\<lparr>rb_parent := y\<rparr> else cells s w)"
      if "w \<in> set (addrs l) \<union> set (addrs r)" for w
    proof -
      have "w \<noteq> y" "w \<noteq> 0" using that y shape_nonzero [OF sh(1)] shape_nonzero [OF sh(2)] by auto
      then show ?thesis using s1(3) [OF out [OF that]] by (auto simp: give_def)
    qed
  qed simp
  moreover have "rb_replace_node x y s = Some ?s4"
    unfolding rb_replace_node_def
    using holds_cell [OF h] lk give [of "apex l" s1] give [of "apex r" "give (apex l) s1"] x3 y(2)
    by (cases "up cs = 0"; cases "apex l = 0"; cases "apex r = 0"; cases "rb_left (cells s (up cs)) = x")
      (simp_all add: fetch_Some amend_Some)
  ultimately show ?thesis by blast
qed

text \<open>\<^verbatim>\<open>rb_replace_node\<close> puts a fresh node in the place of another in any tree: the parent or the
  root, and both children, point to the new node, and nothing else changes: the tree is the
  same but for that address.\<close>

theorem replacement_renames:
  assumes "holds s t []" "x \<in> set (addrs t)" "y \<notin> set (addrs t)" "y \<noteq> 0"
  shows "\<exists>s'. rb_replace_node x y s = Some s' \<and> holds s' (rename x y t) []"
proof -
  obtain l c r cs where t: "t = plug (Node l c x r) cs" using find_node [OF assms(2)] by blast
  have h: "holds s (Node l c x r) cs" using assms(1) t holds_plug by blast
  obtain s' where s': "rb_replace_node x y s = Some s'" "holds s' (Node l c y r) cs"
    using replace_node_holds [OF h, of y] assms(3,4) t plug_addrs [of "Node l c x r" cs] by auto
  have "rename x y t = plug (Node l c y r) cs"
    using h by (simp add: t holds_def rename_plug rename_other)
  then show ?thesis using s' holds_plug [of s' "Node l c y r" cs] by simp
qed

theorem replacement_renames_witness:
  "\<exists>s'. rb_replace_node 2 9 three_nodes = Some s' \<and>
    holds s' (Node (Node Leaf RB_RED 1 Leaf) RB_BLACK 9 (Node Leaf RB_RED 3 Leaf)) []"
  using replacement_renames [OF three_holds(1), of 2 9] three_holds(3) by (simp add: three_tree_def)

end
