(* ===== verification/Properties.thy ===== *)
theory Properties
  imports Prelude
begin

text \<open>
  The parser of \<^verbatim>\<open>properties.c\<close> for \<open>key = value\<close> lines, which works in place on a buffer of
  1024 bytes. The buffer is part of the model, as the code can read what an earlier line
  left in it.
\<close>

section \<open>One line\<close>

definition isspace :: "byte \<Rightarrow> bool" where
  "isspace c \<longleftrightarrow> c = 32 \<or> (9 \<le> c \<and> c \<le> 13)"

text \<open>The loop that looks for the end of the key. It does not stop at a NUL.\<close>

fun scan_key :: "byte list \<Rightarrow> (byte list \<times> byte list) res" where
  "scan_key [] = Inl Out_Of_Bounds"
| "scan_key (c # cs) =
     (if isspace c \<or> c = ch_equals then Inr ([], c # cs)
      else rbind (scan_key cs) (\<lambda>(key, v). Inr (c # key, v)))"

text \<open>The loop that moves \<open>end\<close> back; it never passes the first byte.\<close>

function trim_end :: "byte list \<Rightarrow> byte list" where
  "trim_end v = (if 1 < length v \<and> isspace (last v) then trim_end (butlast v) else v)"
  by auto
termination by (relation "measure length") auto

declare trim_end.simps [simp del]

text \<open>
  \<^verbatim>\<open>properties_parse_line\<close>: the buffer is \<open>mem\<close>, the result the headers and the buffer as it is
  left. \<open>add\<close> is \<open>evhttp_add_header\<close> of libevent.
\<close>

definition properties_parse_line ::
    "(byte list \<Rightarrow> byte list \<Rightarrow> 'h \<Rightarrow> 'h) \<Rightarrow> byte list \<Rightarrow> 'h \<Rightarrow> ('h \<times> byte list) res" where
  "properties_parse_line add mem out =
     (let sp = takeWhile isspace mem; k = dropWhile isspace mem
      in case k of
           [] \<Rightarrow> Inl Out_Of_Bounds
         | c # _ \<Rightarrow>
             if c = ch_semi then Inr (out, mem)
             else rbind (scan_key k) (\<lambda>(key, v).
               let ws = takeWhile isspace v;
                   left = sp @ key @ replicate (length ws) 0
               in case dropWhile isspace v of
                    [] \<Rightarrow> Inl Out_Of_Bounds
                  | c # v' \<Rightarrow>
                      if c \<noteq> ch_equals then Inr (out, left @ c # v')
                      else let sp' = takeWhile isspace v'; v'' = dropWhile isspace v'
                           in rbind (cstring v'') (\<lambda>s.
                                let value = trim_end s; key' = takeWhile (\<lambda>c. c \<noteq> 0) key;
                                    mem' = left @ 0 # sp' @ v''[length value := 0]
                                in if key' \<noteq> [] \<and> value \<noteq> [] then Inr (add key' value out, mem')
                                   else Inr (out, mem'))))"

section \<open>The file\<close>

text \<open>
  \<open>fgets\<close> with a buffer of 1024 bytes: at most 1023 bytes, up to and with a newline, and a
  NUL behind them.
\<close>

fun line_of :: "nat \<Rightarrow> byte list \<Rightarrow> byte list" where
  "line_of 0 f = []"
| "line_of (Suc n) [] = []"
| "line_of (Suc n) (c # f) = (if c = 10 then [c] else c # line_of n f)"

lemma line_of_prefix: "\<exists>rest. f = line_of n f @ rest"
  by (induction n f rule: line_of.induct) auto

lemma line_of_length: "length (line_of n f) \<le> n"
  by (induction n f rule: line_of.induct) auto

definition fgets :: "byte list \<Rightarrow> byte list \<Rightarrow> (byte list \<times> byte list) option" where
  "fgets f mem =
     (if f = [] then None
      else let l = line_of 1023 f in Some (drop (length l) f, l @ 0 # drop (Suc (length l)) mem))"

lemma fgets_less: "fgets f mem = Some (f', mem') \<Longrightarrow> length f' < length f"
  by (cases f) (auto simp: fgets_def Let_def eval_nat_numeral)

function properties_parse_file ::
    "(byte list \<Rightarrow> byte list \<Rightarrow> 'h \<Rightarrow> 'h) \<Rightarrow> byte list \<Rightarrow> byte list \<Rightarrow> 'h \<Rightarrow> 'h res" where
  "properties_parse_file add f mem out =
     (case fgets f mem of
        None \<Rightarrow> Inr out
      | Some (f', mem') \<Rightarrow>
          rbind (properties_parse_line add mem' out) (\<lambda>(out, mem).
            properties_parse_file add f' mem out))"
  by auto
termination
  by (relation "measure (\<lambda>(add, f, mem, out). length f)") (auto dest: fgets_less)

declare properties_parse_file.simps [simp del]

section \<open>Well-formed files\<close>

text \<open>
  An entry: a key without white space, NUL or equals sign that does not start a comment, and
  a value without NUL or newline and without white space at its ends. It fits a line.
\<close>

definition key_char :: "byte \<Rightarrow> bool" where
  "key_char c \<longleftrightarrow> \<not> isspace c \<and> c \<noteq> 0 \<and> c \<noteq> ch_equals"

definition entry_ok :: "byte list \<times> byte list \<Rightarrow> bool" where
  "entry_ok e \<longleftrightarrow> fst e \<noteq> [] \<and> (\<forall>c \<in> set (fst e). key_char c) \<and> hd (fst e) \<noteq> ch_semi \<and>
     snd e \<noteq> [] \<and> 0 \<notin> set (snd e) \<and> 10 \<notin> set (snd e) \<and> \<not> isspace (hd (snd e)) \<and> \<not> isspace (last (snd e)) \<and>
     length (fst e) + length (snd e) < 1000"

text \<open>White space that may surround the parts of a line.\<close>

definition blanks :: "byte list \<Rightarrow> bool" where
  "blanks s \<longleftrightarrow> (\<forall>c \<in> set s. isspace c \<and> c \<noteq> 10) \<and> length s \<le> 4"

fun line :: "byte list \<times> byte list \<times> byte list \<times> byte list \<Rightarrow> byte list \<times> byte list \<Rightarrow> byte list" where
  "line (a, b, c, d) (k, v) = a @ k @ b @ ch_equals # c @ v @ d @ [10]"

lemma isspace_zero [simp]: "\<not> isspace 0" "isspace 10" "\<not> isspace ch_equals"
  by (simp_all add: isspace_def)

lemma takeWhile_blanks:
  assumes "blanks s" "xs \<noteq> [] \<Longrightarrow> \<not> isspace (hd xs)"
  shows "takeWhile isspace (s @ xs) = s" "dropWhile isspace (s @ xs) = xs"
proof -
  have "\<forall>c \<in> set s. isspace c" using assms(1) by (simp add: blanks_def)
  then have "takeWhile isspace (s @ xs) = s @ takeWhile isspace xs" "dropWhile isspace (s @ xs) = dropWhile isspace xs"
    by (simp_all add: takeWhile_append2 dropWhile_append2)
  then show "takeWhile isspace (s @ xs) = s" "dropWhile isspace (s @ xs) = xs"
    using assms(2) by (cases xs; simp)+
qed

lemma scan_key_ok:
  assumes "\<forall>c \<in> set k. key_char c" "xs \<noteq> []" "isspace (hd xs) \<or> hd xs = ch_equals"
  shows "scan_key (k @ xs) = Inr (k, xs)"
  using assms
proof (induction k)
  case Nil
  then show ?case by (cases xs) auto
next
  case (Cons c k)
  then show ?case by (auto simp: key_char_def)
qed

lemma trim_end_ok:
  assumes "v \<noteq> []" "\<not> isspace (last v)" "\<forall>c \<in> set s. isspace c"
  shows "trim_end (v @ s) = v"
  using assms(3)
proof (induction s rule: rev_induct)
  case Nil
  then show ?case using assms(2) by (subst trim_end.simps) simp
next
  case (snoc c s)
  have "1 < length (v @ s @ [c])" using assms(1) by (cases v) auto
  then show ?case using snoc by (subst trim_end.simps) (simp add: butlast_append)
qed

lemma parse_line_ok:
  assumes "entry_ok (k, v)" "blanks a" "blanks b" "blanks c" "blanks d"
  shows "\<exists>mem'. properties_parse_line add (line (a, b, c, d) (k, v) @ 0 # rest) out = Inr (add k v out, mem') \<and>
    length mem' = length (line (a, b, c, d) (k, v) @ 0 # rest)"
proof -
  have k: "k \<noteq> []" "\<forall>c \<in> set k. key_char c" "hd k \<noteq> ch_semi" "\<not> isspace (hd k)"
    and v: "v \<noteq> []" "0 \<notin> set v" "\<not> isspace (hd v)" "\<not> isspace (last v)"
    using assms(1) by (auto simp: entry_ok_def key_char_def)
  have d: "\<forall>c \<in> set (d @ [10]). isspace c" "0 \<notin> set (d @ [10])"
    using assms(5) by (auto simp: blanks_def)
  define tl2 where "tl2 = v @ (d @ [10]) @ 0 # rest"
  define tl1 where "tl1 = ch_equals # c @ tl2"
  have e: "line (a, b, c, d) (k, v) @ 0 # rest = a @ k @ b @ tl1" by (simp add: tl1_def tl2_def)
  have 1: "takeWhile isspace (a @ k @ b @ tl1) = a" "dropWhile isspace (a @ k @ b @ tl1) = k @ b @ tl1"
    using takeWhile_blanks [OF assms(2), of "k @ b @ tl1"] k by simp_all
  have 2: "scan_key (k @ b @ tl1) = Inr (k, b @ tl1)"
  proof (rule scan_key_ok [OF k(2)])
    show "isspace (hd (b @ tl1)) \<or> hd (b @ tl1) = ch_equals"
      using assms(3) by (cases b) (auto simp: blanks_def tl1_def)
  qed (simp add: tl1_def)
  have 3: "takeWhile isspace (b @ tl1) = b" "dropWhile isspace (b @ tl1) = tl1"
    using takeWhile_blanks [OF assms(3), of tl1] by (simp_all add: tl1_def)
  have 4: "takeWhile isspace (c @ tl2) = c" "dropWhile isspace (c @ tl2) = tl2"
    using takeWhile_blanks [OF assms(4), of tl2] v(1,3) by (simp_all add: tl2_def)
  have 5: "cstring tl2 = Inr (v @ d @ [10])"
    using cstring_append_0 [of "v @ d @ [10]" rest] v(2) d(2) by (simp add: tl2_def)
  have 6: "trim_end (v @ d @ [10]) = v" by (rule trim_end_ok [OF v(1,4) d(1)])
  have 7: "takeWhile (\<lambda>c. c \<noteq> 0) k = k" using k(2) by (auto simp: takeWhile_eq_all_conv key_char_def)
  obtain k0 k1 where ks: "k = k0 # k1" using k(1) by (cases k) auto
  have 8: "k0 \<noteq> ch_semi" using k(3) ks by simp
  have "properties_parse_line add (a @ k @ b @ tl1) out =
      Inr (add k v out, a @ k @ replicate (length b) 0 @ 0 # c @ tl2[length v := 0])"
    unfolding properties_parse_line_def Let_def 1 using 2 3 4 5 6 7 8 ks v(1)
    by (simp add: tl1_def)
  then show ?thesis unfolding e by (simp add: tl1_def)
qed

lemma line_of_ok: "10 \<notin> set s \<Longrightarrow> length s < n \<Longrightarrow> line_of n (s @ 10 # f) = s @ [10]"
proof (induction s arbitrary: n)
  case Nil
  then show ?case by (cases n) simp_all
next
  case (Cons c s)
  then show ?case by (cases n) auto
qed

text \<open>C19. A file of well-formed entries, each on a line of its own and surrounded by white space in
  any way, gives exactly these entries, in order, whatever the buffer held before.\<close>

theorem properties_file_roundtrip:
  assumes "\<forall>(w, e) \<in> set es. entry_ok e \<and> (case w of (a, b, c, d) \<Rightarrow> blanks a \<and> blanks b \<and> blanks c \<and> blanks d)"
    and "length mem = 1024"
  shows "properties_parse_file add (concat (map (\<lambda>(w, e). line w e) es)) mem out =
    Inr (fold (\<lambda>(w, k, v) h. add k v h) es out)"
  using assms
proof (induction es arbitrary: mem out)
  case Nil
  show ?case by (subst properties_parse_file.simps) (simp add: fgets_def)
next
  case (Cons we es)
  obtain a b c d k v where we: "we = ((a, b, c, d), (k, v))" by (metis prod.exhaust)
  have e: "entry_ok (k, v)" and w: "blanks a" "blanks b" "blanks c" "blanks d" using Cons.prems(1) we by auto
  let ?l = "line (a, b, c, d) (k, v)" and ?f = "concat (map (\<lambda>(w, e). line w e) es)"
  define s where "s = a @ k @ b @ ch_equals # c @ v @ d"
  have l: "?l = s @ [10]" by (simp add: s_def)
  have n: "10 \<notin> set s" using e w by (auto simp: s_def entry_ok_def key_char_def blanks_def isspace_def)
  have m: "length s < 1023" using e w by (simp add: s_def entry_ok_def blanks_def)
  have "line_of 1023 (?l @ ?f) = ?l" "?l @ ?f \<noteq> []" unfolding l using line_of_ok [OF n m, of ?f] by simp_all
  then have g: "fgets (?l @ ?f) mem = Some (?f, ?l @ 0 # drop (Suc (length ?l)) mem)"
    by (simp add: fgets_def Let_def del: line.simps)
  obtain mem' where p: "properties_parse_line add (?l @ 0 # drop (Suc (length ?l)) mem) out = Inr (add k v out, mem')"
      "length mem' = length (?l @ 0 # drop (Suc (length ?l)) mem)"
    using parse_line_ok [OF e w, of add "drop (Suc (length ?l)) mem" out] by (elim exE conjE)
  have "length mem' = 1024" using p(2) m Cons.prems(2) unfolding l by simp
  then have ih: "properties_parse_file add ?f mem' (add k v out) = Inr (fold (\<lambda>(w, k, v) h. add k v h) es (add k v out))"
    using Cons.prems(1) by (intro Cons.IH) simp_all
  have "concat (map (\<lambda>(w, e). line w e) (we # es)) = ?l @ ?f" by (simp add: we del: line.simps)
  moreover have "properties_parse_file add (?l @ ?f) mem out = properties_parse_file add ?f mem' (add k v out)"
    unfolding properties_parse_file.simps [of add "?l @ ?f"] g by (simp only: option.case prod.case p(1) rbind_Inr)
  ultimately show ?case using ih by (simp add: we)
qed

theorem properties_file_roundtrip_witness:
  "properties_parse_file (\<lambda>k v h. h @ [(k, v)]) (ascii ''a.net = 6881'' @ [10]) (replicate 1024 7) [] =
     Inr [(ascii ''a.net'', ascii ''6881'')]"
proof -
  have "entry_ok (ascii ''a.net'', ascii ''6881'')" by (simp add: entry_ok_def key_char_def isspace_def)
  moreover have "blanks []" "blanks [32]" by (simp_all add: blanks_def isspace_def)
  ultimately show ?thesis
    using properties_file_roundtrip [of "[(([], [32], [32], []), (ascii ''a.net'', ascii ''6881''))]" "replicate 1024 7"
        "\<lambda>k v h. h @ [(k, v)]" "[]"]
    by simp
qed

text \<open>
  A last line without newline, white space or equals sign: the search for the end of the key
  runs over the NUL into what the line before left in the buffer, and takes its value.
\<close>

theorem unterminated_line_reads_on:
  "properties_parse_line (\<lambda>k v h. h @ [(k, v)]) (ascii ''ab'' @ [0] @ ascii ''x=9'' @ [0]) [] =
     Inr ([(ascii ''ab'', ascii ''9'')], ascii ''ab'' @ [0] @ ascii ''x'' @ [0] @ ascii ''9'' @ [0])"
  by (simp add: properties_parse_line_def isspace_def trim_end.simps)

end
