(* ===== verification/Ops.thy ===== *)
theory Ops
  imports Rbtree_Props Dht_Id
begin

text \<open>
  The pending operations of \<^verbatim>\<open>ops.c\<close> and \<^verbatim>\<open>op_get.c\<close>: a search tree whose nodes are embedded in
  the operations, so that the address of a node is the address of its operation. A function
  returns None when it does not return: a null or freed pointer is dereferenced, an
  assertion fails, or a loop does not end.
\<close>

section \<open>Operations and their context\<close>

definition F4OP_MODE_PUT :: byte where "F4OP_MODE_PUT = 10"
definition F4OP_MODE_GET :: byte where "F4OP_MODE_GET = 20"

text \<open>The functions that the callback fields can point to.\<close>

datatype handler = opget_dht_callback | opget_dns_callback

text \<open>
  \<^verbatim>\<open>struct f4op\<close> without its tree node. A string is its bytes, \<open>op_data\<close> an address; an absent
  string or callback is NULL.
\<close>

record f4op =
  op_id :: "byte list"
  op_mode :: byte
  op_type :: "byte list option"
  op_fqn :: "byte list option"
  op_data :: addr
  op_dht :: "handler option"
  op_dns :: "handler option"

text \<open>
  The memory: the tree with its nodes, the operations and the \<^verbatim>\<open>struct f4op_get\<close>s that are
  allocated (of which the field \<open>request\<close> is kept), and the allocator, any function from
  what is allocated to the next address; 0 says that the allocation fails.
\<close>

record f4ops =
  tree :: rb_root
  op_at :: "addr \<Rightarrow> f4op option"
  get_at :: "addr \<Rightarrow> addr option"
  malloc :: "(addr \<Rightarrow> bool) \<Rightarrow> addr"

definition allocated :: "f4ops \<Rightarrow> addr \<Rightarrow> bool" where
  "allocated d p \<longleftrightarrow> op_at d p \<noteq> None \<or> get_at d p \<noteq> None"

definition put_op :: "addr \<Rightarrow> f4op \<Rightarrow> f4ops \<Rightarrow> f4ops" where
  "put_op p x d = d\<lparr>op_at := (op_at d)(p \<mapsto> x)\<rparr>"

section \<open>Creating and freeing\<close>

text \<open>\<^verbatim>\<open>f4op_get_new\<close>: the caller has just created the operation.\<close>

definition f4op_get_new :: "addr \<Rightarrow> f4ops \<Rightarrow> f4ops option" where
  "f4op_get_new p d = do {
     x \<leftarrow> op_at d p;
     if op_mode x \<noteq> F4OP_MODE_GET then None
     else let q = malloc d (allocated d)
          in if q = 0 then None
             else Some (put_op p (x\<lparr>op_data := q, op_dht := Some opget_dht_callback, op_dns := Some opget_dns_callback\<rparr>)
                          (d\<lparr>get_at := (get_at d)(q \<mapsto> 0)\<rparr>))
   }"

definition f4op_get_free :: "addr \<Rightarrow> f4ops \<Rightarrow> f4ops option" where
  "f4op_get_free p d = do {
     x \<leftarrow> op_at d p;
     if op_mode x \<noteq> F4OP_MODE_GET then None
     else do {
       request \<leftarrow> get_at d (op_data x);
       if request \<noteq> 0 then None
       else Some (put_op p (x\<lparr>op_data := 0\<rparr>) (d\<lparr>get_at := (get_at d)(op_data x := None)\<rparr>))
     }
   }"

definition f4op_new :: "byte \<Rightarrow> byte list \<Rightarrow> f4ops \<Rightarrow> (addr \<times> f4ops) option" where
  "f4op_new mode ident d =
     (let p = malloc d (allocated d)
      in if p = 0 \<or> length ident < 20 then None
         else let x = \<lparr>op_id = take 20 ident, op_mode = mode, op_type = None, op_fqn = None, op_data = 0,
                       op_dht = None, op_dns = None\<rparr>;
                  n = \<lparr>rb_parent = 0, rb_right = 0, rb_left = 0, rb_color = RB_RED\<rparr>;
                  d1 = put_op p x (d\<lparr>tree := (tree d)\<lparr>cells := (cells (tree d))(p := n)\<rparr>\<rparr>)
              in if mode = F4OP_MODE_GET
                 then map_option (Pair p) (f4op_get_new p d1)
                 else None)"

text \<open>What \<^verbatim>\<open>opget_dns_callback\<close> does to the operation before it starts the search.\<close>

definition set_request :: "addr \<Rightarrow> addr \<Rightarrow> f4ops \<Rightarrow> f4ops option" where
  "set_request req p d = do {
     x \<leftarrow> op_at d p;
     _ \<leftarrow> get_at d (op_data x);
     if req = 0 then None else Some (d\<lparr>get_at := (get_at d)(op_data x \<mapsto> req)\<rparr>)
   }"

definition f4op_free :: "addr \<Rightarrow> f4ops \<Rightarrow> f4ops option" where
  "f4op_free p d = do { _ \<leftarrow> op_at d p; Some (d\<lparr>op_at := (op_at d)(p := None)\<rparr>) }"

section \<open>The search tree\<close>

text \<open>What a pointer to a child pointer points to.\<close>

definition read_link :: "rb_link \<Rightarrow> rb_root \<Rightarrow> addr option" where
  "read_link link s = (case link of
       Root_Link \<Rightarrow> Some (root s)
     | Left_Link q \<Rightarrow> map_option rb_left (fetch q s)
     | Right_Link q \<Rightarrow> map_option rb_right (fetch q s))"

text \<open>The way down of \<^verbatim>\<open>f4op_add\<close>: the operation found, or the parent and the empty child pointer.\<close>

partial_function (option) add_walk ::
    "byte list \<Rightarrow> addr \<Rightarrow> rb_link \<Rightarrow> f4ops \<Rightarrow> (addr + addr \<times> rb_link) option" where
  "add_walk ident parent link d = do {
     p \<leftarrow> read_link link (tree d);
     if p = 0 then Some (Inr (parent, link))
     else do {
       x \<leftarrow> op_at d p;
       let comp = memcmp ident (op_id x);
       if comp < 0 then add_walk ident p (Left_Link p) d
       else if 0 < comp then add_walk ident p (Right_Link p) d
       else Some (Inl p)
     }
   }"

definition f4op_add :: "addr \<Rightarrow> f4ops \<Rightarrow> (addr \<times> f4ops) option" where
  "f4op_add p d = do {
     x \<leftarrow> op_at d p;
     r \<leftarrow> add_walk (op_id x) 0 Root_Link d;
     case r of
       Inl q \<Rightarrow> Some (q, d)
     | Inr (parent, link) \<Rightarrow> do {
         s \<leftarrow> rb_link_node p parent link (tree d);
         Some (0, d\<lparr>tree := s\<rparr>)
       }
   }"

partial_function (option) find_walk :: "byte list \<Rightarrow> addr \<Rightarrow> f4ops \<Rightarrow> addr option" where
  "find_walk ident n d =
     (if n = 0 then Some 0
      else do {
        x \<leftarrow> op_at d n;
        let comp = memcmp ident (op_id x);
        if comp < 0 then do { c \<leftarrow> fetch n (tree d); find_walk ident (rb_left c) d }
        else if 0 < comp then do { c \<leftarrow> fetch n (tree d); find_walk ident (rb_right c) d }
        else Some n
      })"

definition f4op_find :: "byte list \<Rightarrow> f4ops \<Rightarrow> addr option" where
  "f4op_find ident d = (if length ident < 20 then None else find_walk (take 20 ident) (root (tree d)) d)"

definition f4op_remove :: "addr \<Rightarrow> addr \<Rightarrow> f4ops \<Rightarrow> f4ops option" where
  "f4op_remove n p d = do {
     s \<leftarrow> rb_erase n (tree d);
     f4op_free p (d\<lparr>tree := s\<rparr>)
   }"

section \<open>The context\<close>

text \<open>The flag says whether the allocation of the context succeeds.\<close>

definition f4op_new_ctx :: "bool \<Rightarrow> f4ops \<Rightarrow> f4ops option" where
  "f4op_new_ctx ok d = (if ok then Some (d\<lparr>tree := (tree d)\<lparr>root := 0\<rparr>\<rparr>) else None)"

definition f4op_init_ctx :: "f4ops \<Rightarrow> bool" where
  "f4op_init_ctx d = True"

partial_function (option) free_ctx_loop :: "addr \<Rightarrow> f4ops \<Rightarrow> f4ops option" where
  "free_ctx_loop p d =
     (if p = 0 then Some d
      else do {
        q \<leftarrow> rb_next p (tree d);
        d \<leftarrow> f4op_remove p p d;
        free_ctx_loop q d
      })"

definition f4op_free_ctx :: "f4ops \<Rightarrow> f4ops option" where
  "f4op_free_ctx d = do {
     p \<leftarrow> rb_first (tree d);
     d \<leftarrow> free_ctx_loop p d;
     Some (d\<lparr>tree := (tree d)\<lparr>root := 0\<rparr>\<rparr>)
   }"

end
