(* ===== verification/Ops_Props.thy ===== *)
theory Ops_Props
  imports Ops Keyed_Store
begin

text \<open>
  The pending operations refine a finite map from identifiers to operations, although their
  tree is never rebalanced; freeing the context frees every operation in the tree.
\<close>

section \<open>The invariant\<close>

definition ident :: "f4ops \<Rightarrow> addr \<Rightarrow> byte list" where
  "ident d p = (case op_at d p of Some x \<Rightarrow> op_id x | None \<Rightarrow> [])"

definition request_of :: "f4ops \<Rightarrow> addr \<Rightarrow> addr option" where
  "request_of d p = (case op_at d p of Some x \<Rightarrow> get_at d (op_data x) | None \<Rightarrow> None)"

lemma request_of_tree [simp]: "request_of (d\<lparr>tree := s\<rparr>) = request_of d"
  by (simp add: request_of_def fun_eq_iff split: option.split)

lemma request_of_freed [simp]:
  "request_of (d\<lparr>tree := s, op_at := (op_at d)(x := None)\<rparr>) z = (if z = x then None else request_of d z)"
  by (simp add: request_of_def split: option.split)

definition keyed :: "f4ops \<Rightarrow> addr list \<Rightarrow> bool" where
  "keyed d xs \<longleftrightarrow> (\<forall>x \<in> set xs. op_at d x \<noteq> None \<and> request_of d x \<noteq> None \<and> id_ok (ident d x)) \<and>
     sorted_wrt (\<lambda>x y. be_val (ident d x) < be_val (ident d y)) xs"

text \<open>
  The operations of the tree and their request contexts are allocated, and the operations
  are ordered by identifier. All nodes are red, as
  \<open>rb_insert_color\<close> is never called: \<open>rb_erase\<close> then recolours nothing.
\<close>

definition pending :: "f4ops \<Rightarrow> rbt \<Rightarrow> bool" where
  "pending d t \<longleftrightarrow> holds (tree d) t [] \<and> paints t \<subseteq> {RB_RED} \<and> keyed d (addrs t)"

lemma keyed_append: "keyed d (xs @ ys) \<longleftrightarrow> keyed d xs \<and> keyed d ys \<and>
    (\<forall>x \<in> set xs. \<forall>y \<in> set ys. be_val (ident d x) < be_val (ident d y))"
  by (auto simp: keyed_def sorted_wrt_append)

lemma keyed_Cons: "keyed d (x # xs) \<longleftrightarrow> op_at d x \<noteq> None \<and> request_of d x \<noteq> None \<and> id_ok (ident d x) \<and> keyed d xs \<and>
    (\<forall>y \<in> set xs. be_val (ident d x) < be_val (ident d y))"
  by (auto simp: keyed_def)

lemma keyed_Nil [simp]: "keyed d []"
  by (simp add: keyed_def)

lemma keyed_cong:
  "(\<And>x. x \<in> set xs \<Longrightarrow> op_at d' x = op_at d x \<and> request_of d' x = request_of d x) \<Longrightarrow> keyed d' xs = keyed d xs"
proof (induction xs)
  case (Cons x xs)
  have e: "y \<in> set (x # xs) \<Longrightarrow> ident d' y = ident d y" for y using Cons.prems by (simp add: ident_def)
  show ?case using Cons.IH Cons.prems e by (simp add: keyed_Cons)
qed simp

text \<open>The finite map that the tree stands for: from identifiers to addresses.\<close>

definition op_entries :: "f4ops \<Rightarrow> addr list \<Rightarrow> (byte list \<times> addr) list" where
  "op_entries d xs = map (\<lambda>x. (ident d x, x)) xs"

lemma op_entries_simps [simp]: "op_entries d [] = []" "op_entries d (x # xs) = (ident d x, x) # op_entries d xs"
  "op_entries d (xs @ ys) = op_entries d xs @ op_entries d ys"
  by (simp_all add: op_entries_def)

lemma op_entries_None: "map_of (op_entries d xs) k = None \<longleftrightarrow> k \<notin> ident d ` set xs"
  by (induction xs) auto

lemma op_entries_Some: "map_of (op_entries d xs) k = Some x \<Longrightarrow> x \<in> set xs \<and> ident d x = k"
  by (induction xs) (auto split: if_splits)

lemma memcmp_id: "id_ok a \<Longrightarrow> id_ok b \<Longrightarrow> memcmp a b < 0 \<longleftrightarrow> be_val a < be_val b"
  "id_ok a \<Longrightarrow> id_ok b \<Longrightarrow> 0 < memcmp a b \<longleftrightarrow> be_val b < be_val a"
  "id_ok a \<Longrightarrow> id_ok b \<Longrightarrow> be_val a = be_val b \<longleftrightarrow> a = b"
  by (simp_all add: memcmp_neg memcmp_pos be_val_inj)

section \<open>Finding\<close>

lemma op_entries_mid:
  assumes "keyed d (xs @ x # ys)" "id_ok k"
  shows "map_of (op_entries d (xs @ x # ys)) k =
    (if be_val k < be_val (ident d x) then map_of (op_entries d xs) k
     else if be_val (ident d x) < be_val k then map_of (op_entries d ys) k else Some x)"
proof -
  have o: "id_ok (ident d x)" "y \<in> set xs \<Longrightarrow> be_val (ident d y) < be_val (ident d x)"
      "y \<in> set ys \<Longrightarrow> be_val (ident d x) < be_val (ident d y)" for y
    using assms(1) by (auto simp: keyed_append keyed_Cons)
  have n: "map_of (op_entries d xs) k = None" if "\<not> be_val k < be_val (ident d x)"
    using o(2) that by (auto simp: op_entries_None)
  have m: "map_of (op_entries d ys) k = None" if "\<not> be_val (ident d x) < be_val k"
    using o(3) that by (auto simp: op_entries_None)
  show ?thesis
    using n m memcmp_id(3) [OF assms(2) o(1)] by (auto simp: map_add_def split: option.splits)
qed

lemma find_walk_ok:
  assumes "holds (tree d) t cs" "keyed d (addrs t)" "id_ok k"
  shows "find_walk k (apex t) d = Some (case map_of (op_entries d (addrs t)) k of None \<Rightarrow> 0 | Some x \<Rightarrow> x)"
  using assms(1,2)
proof (induction t arbitrary: cs)
  case Leaf
  show ?case by (subst find_walk.simps) simp
next
  case (Node l c x r)
  have hl: "holds (tree d) l (On_Left c x r # cs)" and hr: "holds (tree d) r (On_Right l c x # cs)"
    using Node.prems(1) by (simp_all add: holds_up_left holds_up_right)
  have k: "keyed d (addrs l)" "keyed d (addrs r)" "id_ok (ident d x)" "op_at d x \<noteq> None"
    using Node.prems(2) by (auto simp: keyed_append keyed_Cons)
  then obtain y where y: "op_at d x = Some y" "op_id y = ident d x" by (auto simp: ident_def)
  show ?case
    using holds_cell [OF Node.prems(1)] Node.IH(1) [OF hl k(1)] Node.IH(2) [OF hr k(2)] y
      memcmp_id(1,2) [OF assms(3) k(3)] op_entries_mid [of d "addrs l" x "addrs r" k] Node.prems(2) assms(3)
    by (subst find_walk.simps) (simp add: fetch_Some)
qed

lemma f4op_find_ok:
  assumes "pending d t" "id_ok k"
  shows "f4op_find k d = Some (case map_of (op_entries d (addrs t)) k of None \<Rightarrow> 0 | Some x \<Rightarrow> x)"
  using find_walk_ok [of d t "[]" k] assms holds_root [of "tree d" t]
  by (simp add: pending_def f4op_find_def)

section \<open>Adding\<close>

lemma read_link_at: "holds s t cs \<Longrightarrow> read_link (link_at cs) s = Some (apex t)"
  using holds_root [of s t] holds_left_cell holds_right_cell
  by (cases cs rule: link_at.cases) (fastforce simp: read_link_def fetch_Some)+

lemma add_walk_ok:
  assumes "holds (tree d) t cs" "keyed d (addrs (plug t cs))" "id_ok k"
    and "\<forall>y \<in> set (before cs). be_val (ident d y) < be_val k" "\<forall>y \<in> set (after cs). be_val k < be_val (ident d y)"
  shows "(\<exists>x \<in> set (addrs t). add_walk k (up cs) (link_at cs) d = Some (Inl x) \<and> ident d x = k) \<or>
    (\<exists>es. add_walk k (up cs) (link_at cs) d = Some (Inr (up es, link_at es)) \<and> plug Leaf es = plug t cs \<and>
       (\<forall>y \<in> set (before es). be_val (ident d y) < be_val k) \<and>
       (\<forall>y \<in> set (after es). be_val k < be_val (ident d y)))"
  using assms(1,2,4,5)
proof (induction t arbitrary: cs)
  case Leaf
  show ?case
    using read_link_at [OF Leaf(1)] Leaf(2-4)
    by (intro disjI2 exI [of _ cs]) (subst add_walk.simps, simp)
next
  case (Node l c x r)
  have hl: "holds (tree d) l (On_Left c x r # cs)" and hr: "holds (tree d) r (On_Right l c x # cs)"
    using Node.prems(1) by (simp_all add: holds_up_left holds_up_right)
  have o: "id_ok (ident d x)" "op_at d x \<noteq> None" "\<forall>y \<in> set (addrs l). be_val (ident d y) < be_val (ident d x)"
      "\<forall>y \<in> set (addrs r). be_val (ident d x) < be_val (ident d y)"
    using Node.prems(2) by (auto simp: plug_inorder keyed_append keyed_Cons)
  then obtain y where y: "op_at d x = Some y" "op_id y = ident d x" by (auto simp: ident_def)
  note run = read_link_at [OF Node.prems(1)] holds_cell(1) [OF Node.prems(1)] y memcmp_id(1,2) [OF assms(3) o(1)]
  consider "be_val k < be_val (ident d x)" | "be_val (ident d x) < be_val k" | "be_val k = be_val (ident d x)"
    by linarith
  then show ?case
  proof cases
    case 1
    then have e: "add_walk k (up cs) (link_at cs) d = add_walk k x (Left_Link x) d"
      using run by (subst add_walk.simps) simp
    have a: "\<forall>y \<in> set (after (On_Left c x r # cs)). be_val k < be_val (ident d y)"
      using 1 o(4) Node.prems(4) by fastforce
    show ?thesis using Node.IH(1) [OF hl _ _ a] Node.prems(2,3) e by auto
  next
    case 2
    then have e: "add_walk k (up cs) (link_at cs) d = add_walk k x (Right_Link x) d"
      using run by (subst add_walk.simps) simp
    have a: "\<forall>y \<in> set (before (On_Right l c x # cs)). be_val (ident d y) < be_val k"
      using 2 o(3) Node.prems(3) by fastforce
    show ?thesis using Node.IH(2) [OF hr _ a] Node.prems(2,4) e by auto
  next
    case 3
    then have "add_walk k (up cs) (link_at cs) d = Some (Inl x)"
      using run by (subst add_walk.simps) simp
    then show ?thesis using 3 memcmp_id(3) [OF assms(3) o(1)] by simp
  qed
qed

text \<open>A fresh operation is linked where its identifier belongs; one with a known identifier is not.\<close>

lemma op_entries_insert:
  assumes "ident d p \<notin> ident d ` set (xs @ ys)"
  shows "map_of (op_entries d (xs @ p # ys)) = (map_of (op_entries d (xs @ ys)))(ident d p \<mapsto> p)"
proof
  fix k
  have "k = ident d p \<Longrightarrow> map_of (op_entries d xs) k = None" "k = ident d p \<Longrightarrow> map_of (op_entries d ys) k = None"
    using assms by (auto simp: op_entries_None)
  then show "map_of (op_entries d (xs @ p # ys)) k = ((map_of (op_entries d (xs @ ys)))(ident d p \<mapsto> p)) k"
    by (auto simp: map_add_def split: option.splits)
qed

lemma op_entries_cong: "(\<And>x. x \<in> set xs \<Longrightarrow> op_at d' x = op_at d x) \<Longrightarrow> op_entries d' xs = op_entries d xs"
  by (simp add: op_entries_def ident_def)

lemma add_found:
  assumes "pending d t" "op_at d p = Some x" "id_ok (op_id x)" "map_of (op_entries d (addrs t)) (op_id x) = Some q"
  shows "f4op_add p d = Some (q, d)"
proof -
  have h: "holds (tree d) t []" and k: "keyed d (addrs t)" using assms(1) by (simp_all add: pending_def)
  have q: "q \<in> set (addrs t)" "ident d q = op_id x" using op_entries_Some [OF assms(4)] by auto
  consider y where "y \<in> set (addrs t)" "add_walk (op_id x) 0 Root_Link d = Some (Inl y)" "ident d y = op_id x"
    | es where "plug Leaf es = t" "\<forall>y \<in> set (before es). be_val (ident d y) < be_val (op_id x)"
        "\<forall>y \<in> set (after es). be_val (op_id x) < be_val (ident d y)"
    using add_walk_ok [OF h _ assms(3)] k by auto
  then show ?thesis
  proof cases
    case 1
    have "y = q"
    proof (rule ccontr)
      assume "y \<noteq> q"
      then obtain xs ys zs where "addrs t = xs @ y # ys @ q # zs \<or> addrs t = xs @ q # ys @ y # zs"
        using 1(1) q(1) by (metis split_list Un_iff append.assoc append_Cons set_append set_ConsD)
      then show False using k 1(3) q(2) by (auto simp: keyed_append keyed_Cons)
    qed
    then show ?thesis using 1(2) assms(2) by (simp add: f4op_add_def)
  next
    case 2
    then have "q \<in> set (before es) \<union> set (after es)" using q(1) by (auto simp: plug_inorder)
    then show ?thesis using 2(2,3) q(2) by auto
  qed
qed

lemma add_fresh:
  assumes "pending d t" "op_at d p = Some x" "id_ok (op_id x)" "map_of (op_entries d (addrs t)) (op_id x) = None"
    and "request_of d p \<noteq> None" and p: "p \<noteq> 0" "p \<notin> set (addrs t)"
  shows "\<exists>s u. f4op_add p d = Some (0, d\<lparr>tree := s\<rparr>) \<and> pending (d\<lparr>tree := s\<rparr>) u \<and>
    map_of (op_entries (d\<lparr>tree := s\<rparr>) (addrs u)) = (map_of (op_entries d (addrs t)))(op_id x \<mapsto> p)"
proof -
  have h: "holds (tree d) t []" and k: "keyed d (addrs t)" and r: "paints t \<subseteq> {RB_RED}"
    using assms(1) by (simp_all add: pending_def)
  have new: "op_id x \<notin> ident d ` set (addrs t)" using assms(4) by (simp add: op_entries_None)
  then have "\<forall>y \<in> set (addrs t). ident d y \<noteq> op_id x" by force
  then obtain es where es: "add_walk (op_id x) 0 Root_Link d = Some (Inr (up es, link_at es))" "plug Leaf es = t"
      "\<forall>y \<in> set (before es). be_val (ident d y) < be_val (op_id x)"
      "\<forall>y \<in> set (after es). be_val (op_id x) < be_val (ident d y)"
    using add_walk_ok [OF h _ assms(3)] k by auto
  have a: "addrs t = before es @ after es" using es(2) plug_inorder [of Leaf es] by simp
  have hl: "holds (tree d) Leaf es" using h es(2) holds_plug by blast
  have "p \<notin> set (crumb_addrs es)" using p(2) plug_addrs [of Leaf es] es(2) by auto
  then obtain s where s: "rb_link_node p (up es) (link_at es) (tree d) = Some s" "holds s (Node Leaf RB_RED p Leaf) es"
    using link_holds [OF hl p(1)] by blast
  let ?d = "d\<lparr>tree := s\<rparr>" and ?u = "plug (Node Leaf RB_RED p Leaf) es"
  have au: "addrs ?u = before es @ p # after es" by (simp add: plug_inorder)
  have i: "ident ?d y = ident d y" "op_at ?d y = op_at d y" for y by (simp_all add: ident_def)
  have ip: "ident d p = op_id x" using assms(2) by (simp add: ident_def)
  have "keyed d (before es @ p # after es)"
    using k es(3,4) assms(2,3,5) a ip by (simp add: keyed_append keyed_Cons)
  then have "keyed ?d (before es @ p # after es)"
    using keyed_cong [of "before es @ p # after es" ?d d] by simp
  moreover have "paints ?u \<subseteq> {RB_RED}" using r es(2) plug_paints [of Leaf es] by (auto simp: plug_paints)
  moreover have "holds s ?u []" using s(2) holds_plug by blast
  ultimately have "pending ?d ?u" by (simp add: pending_def au)
  moreover have "map_of (op_entries ?d (addrs ?u)) = (map_of (op_entries d (addrs t)))(op_id x \<mapsto> p)"
    using op_entries_insert [of d p "before es" "after es"] new op_entries_cong [of "addrs ?u" ?d d]
    by (simp add: au a ip)
  moreover have "f4op_add p d = Some (0, ?d)" using assms(2) es(1) s(1) by (simp add: f4op_add_def)
  ultimately show ?thesis by blast
qed

section \<open>Removing\<close>

lemma keyed_removeAll: "keyed d xs \<Longrightarrow> keyed d (removeAll x xs)"
  by (induction xs) (auto simp: keyed_Cons)

lemma op_entries_remove:
  assumes "keyed d xs" "x \<in> set xs"
  shows "map_of (op_entries d (removeAll x xs)) = (map_of (op_entries d xs))(ident d x := None)"
proof -
  obtain ys zs where xs: "xs = ys @ x # zs" using assms(2) split_list by fast
  then have "ident d x \<notin> ident d ` set (ys @ zs)" using assms(1) by (auto simp: keyed_append keyed_Cons)
  moreover from this have "x \<notin> set ys" "x \<notin> set zs" by auto
  then have "removeAll x xs = ys @ zs" using xs by (simp add: removeAll_id)
  ultimately show ?thesis using op_entries_insert [of d x ys zs] xs op_entries_None [of d "ys @ zs" "ident d x"] by auto
qed

lemma f4op_remove_ok:
  assumes "pending d t" "x \<in> set (addrs t)"
  shows "\<exists>s u. f4op_remove x x d = Some (d\<lparr>tree := s, op_at := (op_at d)(x := None)\<rparr>) \<and>
    pending (d\<lparr>tree := s, op_at := (op_at d)(x := None)\<rparr>) u \<and> addrs u = removeAll x (addrs t)"
proof -
  have h: "holds (tree d) t []" and k: "keyed d (addrs t)" and r: "paints t \<subseteq> {RB_RED}"
    using assms(1) by (simp_all add: pending_def)
  obtain s u where s: "rb_erase x (tree d) = Some s" "holds s u []" "paints u \<subseteq> {RB_RED}" "addrs u = removeAll x (addrs t)"
    using rb_erase_all_red [OF h r assms(2)] by blast
  let ?d = "d\<lparr>tree := s, op_at := (op_at d)(x := None)\<rparr>"
  have "op_at d x \<noteq> None" using k assms(2) by (auto simp: keyed_def)
  then have "f4op_remove x x d = Some ?d" using s(1) by (auto simp: f4op_remove_def f4op_free_def)
  moreover have "keyed ?d (addrs u)"
    using keyed_removeAll [OF k] keyed_cong [of "addrs u" ?d d] s(4) by simp
  ultimately show ?thesis using s(2-4)
    by (intro exI [of _ s] exI [of _ u]) (simp add: pending_def)
qed

section \<open>Freeing the context\<close>

lemma free_ctx_loop_ok:
  assumes "pending d t"
  shows "\<exists>s. free_ctx_loop (first (addrs t)) d =
      Some (d\<lparr>tree := s, op_at := (\<lambda>p. if p \<in> set (addrs t) then None else op_at d p)\<rparr>) \<and> root s = 0"
  using assms
proof (induction "addrs t" arbitrary: d t)
  case Nil
  then have "t = Leaf" using addrs_empty [of t] by simp
  then have "root (tree d) = 0" using Nil(2) holds_root by (fastforce simp: pending_def)
  moreover have "free_ctx_loop 0 d = Some d" by (subst free_ctx_loop.simps) simp
  ultimately show ?case using Nil(1) [symmetric] by (intro exI [of _ "tree d"]) simp
next
  case (Cons x xs)
  have h: "holds (tree d) t []" using Cons.prems by (simp add: pending_def)
  have a: "addrs t = x # xs" using Cons.hyps(2) by simp
  have d: "distinct (x # xs)" using h a by (simp add: holds_def)
  have x: "x \<noteq> 0" using h a shape_nonzero by (fastforce simp: holds_def)
  obtain s u where s: "f4op_remove x x d = Some (d\<lparr>tree := s, op_at := (op_at d)(x := None)\<rparr>)"
      "pending (d\<lparr>tree := s, op_at := (op_at d)(x := None)\<rparr>) u" "addrs u = removeAll x (addrs t)"
    using f4op_remove_ok [OF Cons.prems, of x] a by auto
  have u: "addrs u = xs" using s(3) a d by (simp add: removeAll_id)
  let ?d = "d\<lparr>tree := s, op_at := (op_at d)(x := None)\<rparr>"
  obtain s' where s': "free_ctx_loop (first xs) ?d =
      Some (?d\<lparr>tree := s', op_at := (\<lambda>p. if p \<in> set xs then None else op_at ?d p)\<rparr>)" "root s' = 0"
    using Cons.hyps(1) [OF u [symmetric] s(2)] unfolding u by blast
  have "(\<lambda>p. if p \<in> set xs then None else op_at ?d p) = (\<lambda>p. if p \<in> set (addrs t) then None else op_at d p)"
    by (auto simp: a fun_eq_iff)
  then have "?d\<lparr>tree := s', op_at := (\<lambda>p. if p \<in> set xs then None else op_at ?d p)\<rparr> =
      d\<lparr>tree := s', op_at := (\<lambda>p. if p \<in> set (addrs t) then None else op_at d p)\<rparr>" by simp
  moreover have "free_ctx_loop (first (addrs t)) d = free_ctx_loop (first xs) (d\<lparr>tree := s, op_at := (op_at d)(x := None)\<rparr>)"
    using neighbours(1) [OF h, of "[]" x xs] a x s(1) by (subst free_ctx_loop.simps) simp
  ultimately show ?case using s' by (intro exI [of _ s']) simp
qed

text \<open>\<^verbatim>\<open>f4op_free_ctx\<close> returns: its loop over \<^verbatim>\<open>rb_first\<close> and \<^verbatim>\<open>rb_next\<close>, which unlinks the node it
  stands on, meets every operation of the tree once and uses no freed one, whatever the
  shape of the tree. Exactly these operations are freed and the tree is empty; the request
  contexts they point to stay allocated.\<close>

theorem free_ctx_frees_operations:
  assumes "pending d t"
  shows "\<exists>s. f4op_free_ctx d =
      Some (d\<lparr>tree := s, op_at := (\<lambda>p. if p \<in> set (addrs t) then None else op_at d p)\<rparr>) \<and> root s = 0"
proof -
  obtain s where s: "free_ctx_loop (first (addrs t)) d =
      Some (d\<lparr>tree := s, op_at := (\<lambda>p. if p \<in> set (addrs t) then None else op_at d p)\<rparr>)"
    using free_ctx_loop_ok [OF assms] by blast
  moreover have "rb_first (tree d) = Some (first (addrs t))"
    using assms rb_first_addrs by (simp add: pending_def)
  ultimately show ?thesis
    by (intro exI [of _ "s\<lparr>root := 0\<rparr>"]) (simp add: f4op_free_ctx_def)
qed

section \<open>The refinement\<close>

definition ops_ok :: "f4ops \<Rightarrow> bool" where
  "ops_ok d \<longleftrightarrow> (\<exists>t. pending d t) \<and> finite {p. allocated d p} \<and>
     (\<forall>A. finite {p. A p} \<longrightarrow> malloc d A \<noteq> 0 \<and> \<not> A (malloc d A))"

text \<open>
  What a client does: it creates an operation, fills in the strings (NULL when \<^verbatim>\<open>strdup\<close>
  fails), notes the request it answers (or none, 0) and adds it; it looks one up, or
  removes it.
\<close>

type_synonym op_value = "byte list option \<times> byte list option \<times> addr"

definition queue_op :: "byte list \<Rightarrow> op_value \<Rightarrow> f4ops \<Rightarrow> (addr \<times> f4ops) option" where
  "queue_op k v d = do {
     (p, d) \<leftarrow> f4op_new F4OP_MODE_GET k d;
     x \<leftarrow> op_at d p;
     let (ty, fqn, req) = v;
     let d = put_op p (x\<lparr>op_type := ty, op_fqn := fqn\<rparr>) d;
     d \<leftarrow> (if req = 0 then Some d else set_request req p d);
     f4op_add p d
   }"

definition contents :: "f4ops \<Rightarrow> f4op \<Rightarrow> op_value" where
  "contents d x = (op_type x, op_fqn x, case get_at d (op_data x) of Some r \<Rightarrow> r | None \<Rightarrow> 0)"

definition ops_find :: "f4ops \<Rightarrow> byte list \<Rightarrow> op_value option" where
  "ops_find d k = do { p \<leftarrow> f4op_find k d; if p = 0 then None else map_option (contents d) (op_at d p) }"

definition ops_add :: "f4ops \<Rightarrow> byte list \<Rightarrow> op_value \<Rightarrow> bool \<times> f4ops" where
  "ops_add d k v = (case queue_op k v d of Some (q, d') \<Rightarrow> (q = 0, d') | None \<Rightarrow> (False, d))"

definition ops_remove :: "f4ops \<Rightarrow> byte list \<Rightarrow> op_value option \<times> f4ops" where
  "ops_remove d k = (ops_find d k,
     case do { p \<leftarrow> f4op_find k d; f4op_remove p p d } of Some d' \<Rightarrow> d' | None \<Rightarrow> d)"

lemma pending_frame:
  assumes "pending d t" "root (tree d') = root (tree d)"
    and "\<And>x. x \<in> set (addrs t) \<Longrightarrow> cells (tree d') x = cells (tree d) x \<and>
      op_at d' x = op_at d x \<and> request_of d' x = request_of d x"
  shows "pending d' t"
proof -
  have h: "shape (tree d) 0 (apex t) t" "root (tree d) = apex t" "distinct (addrs t)"
    using assms(1) by (simp_all add: pending_def holds_def)
  have "shape (tree d') 0 (apex t) t" using shape_same [OF h(1)] assms(3) by blast
  then show ?thesis
    using assms h(2,3) keyed_cong [of "addrs t" d' d] by (simp add: pending_def holds_def)
qed

lemma pending_allocated:
  "pending d t \<Longrightarrow> x \<in> set (addrs t) \<Longrightarrow> op_at d x \<noteq> None \<and> request_of d x \<noteq> None \<and> x \<noteq> 0"
  using shape_nonzero by (fastforce simp: pending_def keyed_def holds_def)

lemma f4op_new_ok:
  assumes "ops_ok d" "pending d t" "id_ok k"
  shows "\<exists>p q d1 x. f4op_new F4OP_MODE_GET k d = Some (p, d1) \<and> p \<noteq> 0 \<and> p \<notin> set (addrs t) \<and>
    root (tree d1) = root (tree d) \<and> (\<forall>z \<in> set (addrs t). cells (tree d1) z = cells (tree d) z) \<and>
    op_at d1 = (op_at d)(p \<mapsto> x) \<and> op_id x = k \<and> op_data x = q \<and> get_at d q = None \<and>
    get_at d1 = (get_at d)(q \<mapsto> 0) \<and> malloc d1 = malloc d"
proof -
  let ?p = "malloc d (allocated d)"
  have m: "finite {p. A p} \<Longrightarrow> malloc d A \<noteq> 0 \<and> \<not> A (malloc d A)" for A
    using assms(1) unfolding ops_ok_def by blast
  have f: "finite {p. allocated d p}" using assms(1) by (simp add: ops_ok_def)
  have p: "?p \<noteq> 0" "\<not> allocated d ?p" using m [OF f] by simp_all
  then have pt: "?p \<notin> set (addrs t)"
    using pending_allocated [OF assms(2), of ?p] unfolding allocated_def by blast
  define x where "x = \<lparr>op_id = k, op_mode = F4OP_MODE_GET, op_type = None, op_fqn = None, op_data = 0,
      op_dht = None, op_dns = None\<rparr>"
  define d0 where "d0 = put_op ?p x (d\<lparr>tree := (tree d)\<lparr>cells := (cells (tree d))(?p :=
      \<lparr>rb_parent = 0, rb_right = 0, rb_left = 0, rb_color = RB_RED\<rparr>)\<rparr>\<rparr>)"
  have "{p. allocated d0 p} \<subseteq> insert ?p {p. allocated d p}" by (auto simp: d0_def allocated_def put_op_def)
  then have f0: "finite {p. allocated d0 p}" using f by (meson finite_insert finite_subset)
  have "malloc d0 = malloc d" by (simp add: d0_def put_op_def)
  then have q: "malloc d0 (allocated d0) \<noteq> 0" "\<not> allocated d0 (malloc d0 (allocated d0))"
    using m [OF f0] by simp_all
  let ?q = "malloc d0 (allocated d0)"
  let ?x = "x\<lparr>op_data := ?q, op_dht := Some opget_dht_callback, op_dns := Some opget_dns_callback\<rparr>"
  let ?d = "put_op ?p ?x (d0\<lparr>get_at := (get_at d0)(?q \<mapsto> 0)\<rparr>)"
  have "f4op_get_new ?p d0 = Some ?d"
    using q by (simp add: f4op_get_new_def d0_def put_op_def x_def Let_def)
  then have "f4op_new F4OP_MODE_GET k d = Some (?p, ?d)"
    using p(1) assms(3) by (simp add: f4op_new_def d0_def x_def Let_def)
  moreover have "op_at ?d = (op_at d)(?p \<mapsto> ?x)" "get_at ?d = (get_at d)(?q \<mapsto> 0)" "malloc ?d = malloc d"
      "root (tree ?d) = root (tree d)" "\<forall>z \<in> set (addrs t). cells (tree ?d) z = cells (tree d) z"
    using pt by (auto simp: put_op_def d0_def)
  moreover have "op_id ?x = k" "op_data ?x = ?q" "get_at d ?q = None"
    using q(2) by (simp_all add: x_def allocated_def d0_def put_op_def)
  ultimately show ?thesis using p(1) pt by blast
qed

lemma f4op_new_callbacks:
  assumes "f4op_new mode k d = Some (p, d1)"
  shows "\<exists>x. op_at d1 p = Some x \<and> op_id x = take 20 k \<and> op_dht x = Some opget_dht_callback \<and>
    op_dns x = Some opget_dns_callback"
  using assms
  by (auto simp: f4op_new_def f4op_get_new_def Let_def put_op_def split: if_splits bind_splits)

lemma ops_find_eq:
  assumes "pending d t" "id_ok k"
  shows "ops_find d k = Option.bind (map_of (op_entries d (addrs t)) k) (\<lambda>x. map_option (contents d) (op_at d x))"
  using f4op_find_ok [OF assms] pending_allocated [OF assms(1)] op_entries_Some [of d "addrs t" k]
  by (auto simp: ops_find_def split: option.splits)

lemma ops_find_None:
  assumes "pending d t" "id_ok k"
  shows "ops_find d k = None \<longleftrightarrow> map_of (op_entries d (addrs t)) k = None"
  using ops_find_eq [OF assms] pending_allocated [OF assms(1)] op_entries_Some [of d "addrs t" k]
  by (cases "map_of (op_entries d (addrs t)) k") auto

text \<open>Before the last step of \<open>queue_op\<close>, nothing has changed for the operations in the tree.\<close>

lemma queue_op_prepares:
  assumes "ops_ok d" "pending d t" "id_ok k"
  shows "\<exists>p d' x. queue_op k v d = f4op_add p d' \<and> p \<noteq> 0 \<and> p \<notin> set (addrs t) \<and> pending d' t \<and>
    op_at d' = (op_at d)(p \<mapsto> x) \<and> op_id x = k \<and> contents d' x = v \<and> request_of d' p \<noteq> None \<and>
    finite {r. allocated d' r} \<and> malloc d' = malloc d \<and>
    (\<forall>z \<in> set (addrs t). request_of d' z = request_of d z)"
proof -
  obtain p q d1 x where n: "f4op_new F4OP_MODE_GET k d = Some (p, d1)" "p \<noteq> 0" "p \<notin> set (addrs t)"
      "root (tree d1) = root (tree d)" "\<forall>z \<in> set (addrs t). cells (tree d1) z = cells (tree d) z"
      "op_at d1 = (op_at d)(p \<mapsto> x)" "op_id x = k" "op_data x = q" "get_at d q = None"
      "get_at d1 = (get_at d)(q \<mapsto> 0)" "malloc d1 = malloc d"
    using f4op_new_ok [OF assms] by blast
  obtain ty fqn req where v: "v = (ty, fqn, req)" by (cases v)
  let ?y = "x\<lparr>op_type := ty, op_fqn := fqn\<rparr>"
  let ?d = "d1\<lparr>op_at := (op_at d)(p \<mapsto> ?y), get_at := (get_at d)(q \<mapsto> req)\<rparr>"
  have run: "queue_op k v d = f4op_add p ?d"
  proof (cases "req = 0")
    case True
    have "?d = put_op p ?y d1" using True n(6,10) by (simp add: put_op_def)
    then show ?thesis using True by (simp add: queue_op_def v n(1,6))
  next
    case False
    have "set_request req p (put_op p ?y d1) = Some ?d"
      using False n(6,8,10) by (simp add: set_request_def put_op_def)
    then show ?thesis using False by (simp add: queue_op_def v n(1,6))
  qed
  have old: "request_of ?d z = request_of d z \<and> op_at ?d z = op_at d z" if z: "z \<in> set (addrs t)" for z
  proof -
    obtain w where w: "op_at d z = Some w" "get_at d (op_data w) \<noteq> None"
      using pending_allocated [OF assms(2) z] by (auto simp: request_of_def)
    then have "op_data w \<noteq> q" using n(9) by auto
    then show ?thesis using w n(3) z by (auto simp: request_of_def)
  qed
  have "pending ?d t" by (rule pending_frame [OF assms(2)]) (use n(4,5) old in auto)
  moreover have "{r. allocated ?d r} \<subseteq> insert p (insert q {r. allocated d r})"
    by (auto simp: allocated_def)
  then have "finite {r. allocated ?d r}"
    using assms(1) by (simp add: ops_ok_def finite_subset)
  moreover have "contents ?d ?y = v" by (simp add: contents_def v n(8))
  moreover have "request_of ?d p \<noteq> None" by (simp add: request_of_def n(8))
  ultimately show ?thesis
    using run n(2,3,7,11) old by (intro exI [of _ p] exI [of _ ?d] exI [of _ ?y]) simp
qed

lemma contents_same:
  assumes "request_of d' z = request_of d z" "op_at d' z = op_at d z"
  shows "map_option (contents d') (op_at d' z) = map_option (contents d) (op_at d z)"
  using assms by (cases "op_at d z") (simp_all add: contents_def request_of_def)

lemma ops_find_same:
  assumes "pending d t" "pending d' t" "id_ok k"
    and "\<And>z. z \<in> set (addrs t) \<Longrightarrow> request_of d' z = request_of d z \<and> op_at d' z = op_at d z"
  shows "ops_find d' k = ops_find d k"
proof -
  have e: "op_entries d' (addrs t) = op_entries d (addrs t)" by (rule op_entries_cong) (use assms(4) in simp)
  show ?thesis
    using ops_find_eq [OF assms(1,3)] ops_find_eq [OF assms(2,3)] op_entries_Some [of d "addrs t" k]
      contents_same [of d' _ d] assms(4)
    by (cases "map_of (op_entries d (addrs t)) k") (simp_all add: e)
qed

lemma queue_op_ok:
  assumes "ops_ok d" "id_ok k"
  shows "\<exists>q d'. queue_op k v d = Some (q, d') \<and> ops_ok d' \<and> (q = 0 \<longleftrightarrow> ops_find d k = None) \<and>
    (\<forall>k'. id_ok k' \<longrightarrow> ops_find d' k' = (if k' = k \<and> ops_find d k = None then Some v else ops_find d k'))"
proof -
  obtain t where t: "pending d t" using assms(1) by (auto simp: ops_ok_def)
  obtain p d1 x where n: "queue_op k v d = f4op_add p d1" "p \<noteq> 0" "p \<notin> set (addrs t)" "pending d1 t"
      "op_at d1 = (op_at d)(p \<mapsto> x)" "op_id x = k" "contents d1 x = v" "request_of d1 p \<noteq> None"
      "finite {r. allocated d1 r}" "malloc d1 = malloc d"
      "\<forall>z \<in> set (addrs t). request_of d1 z = request_of d z"
    using queue_op_prepares [OF assms(1) t assms(2), of v] by blast
  have keep: "request_of d1 z = request_of d z \<and> op_at d1 z = op_at d z" if "z \<in> set (addrs t)" for z
    using n(3,5,11) that by auto
  have e: "op_entries d1 (addrs t) = op_entries d (addrs t)" by (rule op_entries_cong) (use keep in simp)
  have y: "op_at d1 p = Some x" "id_ok (op_id x)" using n(5,6) assms(2) by simp_all
  have old: "ops_find d1 k' = ops_find d k'" if "id_ok k'" for k'
    using ops_find_same [OF t n(4) that] keep by blast
  show ?thesis
  proof (cases "map_of (op_entries d (addrs t)) k")
    case (Some r)
    have "f4op_add p d1 = Some (r, d1)" using add_found [OF n(4) y] n(6) e Some by simp
    moreover have "r \<noteq> 0" using op_entries_Some [OF Some] pending_allocated [OF t] by blast
    moreover have "ops_ok d1" using n(4,9,10) assms(1) by (auto simp: ops_ok_def)
    moreover have "ops_find d k \<noteq> None" using ops_find_None [OF t assms(2)] Some by simp
    ultimately show ?thesis using n(1) old by auto
  next
    case None
    obtain s u where s: "f4op_add p d1 = Some (0, d1\<lparr>tree := s\<rparr>)" "pending (d1\<lparr>tree := s\<rparr>) u"
        "map_of (op_entries (d1\<lparr>tree := s\<rparr>) (addrs u)) = (map_of (op_entries d (addrs t)))(k \<mapsto> p)"
      using add_fresh [OF n(4) y _ n(8,2,3)] n(6) e None by auto
    have nf: "ops_find d k = None" using ops_find_None [OF t assms(2)] None by simp
    have "ops_ok (d1\<lparr>tree := s\<rparr>)"
      using s(2) n(9,10) assms(1) by (auto simp: ops_ok_def allocated_def)
    moreover have "ops_find (d1\<lparr>tree := s\<rparr>) k' = (if k' = k then Some v else ops_find d k')"
      if k': "id_ok k'" for k'
    proof -
      have c: "contents (d1\<lparr>tree := s\<rparr>) = contents d1" by (simp add: contents_def fun_eq_iff)
      have "ops_find (d1\<lparr>tree := s\<rparr>) k' = Option.bind (((map_of (op_entries d (addrs t)))(k \<mapsto> p)) k')
          (\<lambda>z. map_option (contents d1) (op_at d1 z))"
        using ops_find_eq [OF s(2) k'] unfolding s(3) c by simp
      then show ?thesis
        using ops_find_eq [OF n(4) k'] e old [OF k'] y(1) n(7) by simp
    qed
    ultimately show ?thesis using n(1) s(1) nf by auto
  qed
qed

lemma remove_ok:
  assumes "ops_ok d" "id_ok k" "ops_find d k \<noteq> None"
  shows "\<exists>p d'. f4op_find k d = Some p \<and> p \<noteq> 0 \<and> f4op_remove p p d = Some d' \<and> ops_ok d' \<and>
    (\<forall>k'. id_ok k' \<longrightarrow> ops_find d' k' = (if k' = k then None else ops_find d k'))"
proof -
  obtain t where t: "pending d t" using assms(1) by (auto simp: ops_ok_def)
  then obtain p where p: "map_of (op_entries d (addrs t)) k = Some p"
    using ops_find_None [OF t assms(2)] assms(3) by auto
  have pt: "p \<in> set (addrs t)" "ident d p = k" using op_entries_Some [OF p] by auto
  obtain s u where s: "f4op_remove p p d = Some (d\<lparr>tree := s, op_at := (op_at d)(p := None)\<rparr>)"
      "pending (d\<lparr>tree := s, op_at := (op_at d)(p := None)\<rparr>) u" "addrs u = removeAll p (addrs t)"
    using f4op_remove_ok [OF t pt(1)] by blast
  let ?d = "d\<lparr>tree := s, op_at := (op_at d)(p := None)\<rparr>"
  have e: "map_of (op_entries ?d (addrs u)) = (map_of (op_entries d (addrs t)))(k := None)"
    using op_entries_remove [of d "addrs t" p] pt t op_entries_cong [of "addrs u" ?d d] s(3)
    by (simp add: pending_def)
  have sub: "{r. allocated ?d r} \<subseteq> {r. allocated d r}" by (auto simp: allocated_def)
  have "finite {r. allocated ?d r}" using assms(1) finite_subset [OF sub] by (simp add: ops_ok_def)
  moreover have "malloc ?d = malloc d" by simp
  ultimately have "ops_ok ?d" using assms(1) s(2) unfolding ops_ok_def by metis
  moreover have "ops_find ?d k' = (if k' = k then None else ops_find d k')" if "id_ok k'" for k'
  proof -
    have "contents ?d = contents d" by (simp add: contents_def fun_eq_iff)
    then show ?thesis
      using ops_find_eq [OF s(2) that] ops_find_eq [OF t that] op_entries_Some [of d "addrs t" k'] pt(2)
      by (cases "map_of (op_entries d (addrs t)) k'") (auto simp: e)
  qed
  moreover have "f4op_find k d = Some p" "p \<noteq> 0"
    using f4op_find_ok [OF t assms(2)] p pending_allocated [OF t pt(1)] by simp_all
  ultimately show ?thesis using s(1) by blast
qed

lemma ops_add_ok:
  assumes "ops_ok d" "id_ok k"
  shows "fst (ops_add d k v) \<longleftrightarrow> ops_find d k = None" "ops_ok (snd (ops_add d k v))"
    "id_ok k' \<Longrightarrow> ops_find (snd (ops_add d k v)) k' = (if k' = k \<and> ops_find d k = None then Some v else ops_find d k')"
proof -
  obtain q d' where "queue_op k v d = Some (q, d')" "ops_ok d'" "q = 0 \<longleftrightarrow> ops_find d k = None"
      "\<forall>k'. id_ok k' \<longrightarrow> ops_find d' k' = (if k' = k \<and> ops_find d k = None then Some v else ops_find d k')"
    by (rule exE [OF queue_op_ok [OF assms, of v]]) (elim exE conjE)
  then show "fst (ops_add d k v) \<longleftrightarrow> ops_find d k = None" "ops_ok (snd (ops_add d k v))"
    "id_ok k' \<Longrightarrow> ops_find (snd (ops_add d k v)) k' = (if k' = k \<and> ops_find d k = None then Some v else ops_find d k')"
    by (simp_all add: ops_add_def)
qed

lemma ops_remove_ok:
  assumes "ops_ok d" "id_ok k"
  shows "ops_ok (snd (ops_remove d k))"
    "id_ok k' \<Longrightarrow> ops_find (snd (ops_remove d k)) k' = (if k' = k then None else ops_find d k')"
proof -
  have "ops_ok (snd (ops_remove d k)) \<and>
    (\<forall>k'. id_ok k' \<longrightarrow> ops_find (snd (ops_remove d k)) k' = (if k' = k then None else ops_find d k'))"
  proof (cases "ops_find d k = None")
    case False
    then show ?thesis using remove_ok [OF assms False] by (auto simp: ops_remove_def)
  next
    case True
    obtain t where t: "pending d t" using assms(1) by (auto simp: ops_ok_def)
    then have "f4op_find k d = Some 0" using f4op_find_ok [OF t assms(2)] ops_find_None [OF t assms(2)] True by simp
    moreover have "f4op_remove 0 0 d = None" by (simp add: f4op_remove_def rb_erase_def fetch_def)
    ultimately have "snd (ops_remove d k) = d" by (simp add: ops_remove_def)
    then show ?thesis using True assms(1) by simp
  qed
  then show "ops_ok (snd (ops_remove d k))"
    "id_ok k' \<Longrightarrow> ops_find (snd (ops_remove d k)) k' = (if k' = k then None else ops_find d k')" by blast+
qed

interpretation pending_ops: removable_store ops_find ops_add ops_ok id_ok ops_remove
  by unfold_locales (simp_all add: ops_add_ok ops_remove_ok, simp add: ops_remove_def)

text \<open>C8. The pending operations refine a finite map from identifiers to an operation's
  strings and the request it answers. Creating, filling in and adding an operation returns; \<^verbatim>\<open>f4op_add\<close> reports 0 exactly
  when the identifier was new, and then this operation is found under it; otherwise the
  older one stays. Finding and removing return, and removal makes exactly that identifier
  unknown, so that adding and removing a new identifier changes no lookup. The invariant is
  kept although the tree is never rebalanced.\<close>

theorem pending_operations_refine_map:
  assumes "ops_ok d" "id_ok k" "id_ok k'"
  shows "(\<exists>q d'. queue_op k v d = Some (q, d') \<and> ops_ok d' \<and> (q = 0 \<longleftrightarrow> ops_find d k = None) \<and>
      ops_find d' k' = (if k' = k \<and> ops_find d k = None then Some v else ops_find d k')) \<and>
    (\<exists>p. f4op_find k d = Some p \<and> (p = 0 \<longleftrightarrow> ops_find d k = None) \<and>
      (p = 0 \<or> (\<exists>d'. f4op_remove p p d = Some d' \<and> ops_ok d' \<and>
        ops_find d' k' = (if k' = k then None else ops_find d k')))) \<and>
    (ops_find d k = None \<longrightarrow> ops_find (snd (ops_remove (snd (ops_add d k v)) k)) k' = ops_find d k')"
proof (intro conjI impI)
  show "\<exists>q d'. queue_op k v d = Some (q, d') \<and> ops_ok d' \<and> (q = 0 \<longleftrightarrow> ops_find d k = None) \<and>
      ops_find d' k' = (if k' = k \<and> ops_find d k = None then Some v else ops_find d k')"
    using queue_op_ok [OF assms(1,2), of v]
    by (elim exE conjE) (intro exI conjI, assumption+, simp add: assms(3))
  obtain t where t: "pending d t" using assms(1) by (auto simp: ops_ok_def)
  show "\<exists>p. f4op_find k d = Some p \<and> (p = 0 \<longleftrightarrow> ops_find d k = None) \<and>
      (p = 0 \<or> (\<exists>d'. f4op_remove p p d = Some d' \<and> ops_ok d' \<and>
        ops_find d' k' = (if k' = k then None else ops_find d k')))"
  proof (cases "ops_find d k = None")
    case True
    then show ?thesis using f4op_find_ok [OF t assms(2)] ops_find_None [OF t assms(2)] by simp
  next
    case False
    then show ?thesis using remove_ok [OF assms(1,2) False] assms(3) by fastforce
  qed
  show "ops_find (snd (ops_remove (snd (ops_add d k v)) k)) k' = ops_find d k'" if "ops_find d k = None"
    using pending_ops.add_then_remove [OF assms(1,2) that assms(3)] .
qed

text \<open>An empty table with an allocator that returns the lowest free address.\<close>

definition no_ops :: f4ops where
  "no_ops = \<lparr>tree = \<lparr>cells = (\<lambda>_. \<lparr>rb_parent = 0, rb_right = 0, rb_left = 0, rb_color = RB_RED\<rparr>), root = 0\<rparr>,
     op_at = (\<lambda>_. None), get_at = (\<lambda>_. None), malloc = (\<lambda>A. LEAST p. p \<noteq> 0 \<and> \<not> A p)\<rparr>"

lemma no_ops_pending: "pending no_ops Leaf"
  by (simp add: pending_def no_ops_def holds_def)

lemma no_ops_ok: "ops_ok no_ops"
proof -
  have "(LEAST p. p \<noteq> 0 \<and> \<not> A p) \<noteq> 0 \<and> \<not> A (LEAST p. p \<noteq> 0 \<and> \<not> A p)" if "finite {p. A p}" for A :: "addr \<Rightarrow> bool"
  proof -
    have "finite (insert 0 {p. A p})" using that by simp
    from ex_new_if_finite [OF infinite_UNIV_nat this] obtain p where "p \<noteq> 0 \<and> \<not> A p" by auto
    then show ?thesis by (rule LeastI)
  qed
  then show ?thesis
    using no_ops_pending by (auto simp: ops_ok_def no_ops_def allocated_def)
qed

theorem pending_operations_refine_map_witness:
  "\<exists>q d'. queue_op zeroes (None, Some [107], 9) no_ops = Some (q, d') \<and> ops_ok d' \<and> q = 0 \<and>
     ops_find d' zeroes = Some (None, Some [107], 9)"
proof -
  have z: "id_ok zeroes" by (simp add: zeroes_def)
  have "ops_find no_ops zeroes = None"
    using ops_find_None [OF no_ops_pending z] by simp
  then show ?thesis
    using pending_operations_refine_map [OF no_ops_ok z z, of "(None, Some [107], 9)"] by auto
qed

text \<open>One operation at address 5, with its request context at 6.\<close>

definition one_op :: f4ops where
  "one_op = no_ops\<lparr>tree := (tree no_ops)\<lparr>root := 5\<rparr>,
     op_at := [5 \<mapsto> \<lparr>op_id = zeroes, op_mode = F4OP_MODE_GET, op_type = None, op_fqn = None, op_data = 6,
       op_dht = Some opget_dht_callback, op_dns = Some opget_dns_callback\<rparr>], get_at := [6 \<mapsto> 0]\<rparr>"

theorem free_ctx_frees_operations_witness:
  "\<exists>d. f4op_free_ctx one_op = Some d \<and> root (tree d) = 0 \<and> op_at d 5 = None \<and> get_at d 6 = Some 0"
proof -
  have "pending one_op (Node Leaf RB_RED 5 Leaf)"
    by (simp add: one_op_def no_ops_def pending_def holds_def keyed_Cons ident_def request_of_def zeroes_def)
  from free_ctx_frees_operations [OF this] show ?thesis by (auto simp: one_op_def)
qed

end
