(* ===== verification/Dht_Store.thy ===== *)
theory Dht_Store
  imports Dht_Search_Props "HOL-Library.Multiset"
begin

text \<open>
  What the node keeps for others and how it defends itself: the peers stored for each info
  hash (\<open>storage_store\<close>, \<open>expire_storage\<close>), the secret and the tokens made from it, the list
  of broken nodes and the rate control of requests. A pointer to a storage is its index in
  the list \<open>storages\<close>.
\<close>

section \<open>Stored peers\<close>

definition find_storage :: "byte list \<Rightarrow> dht \<Rightarrow> nat option" where
  "find_storage ident s = first_index (\<lambda>st. id_cmp ident (st_id st) = 0) (storages s)"

text \<open>The address, its length and the port of a peer; another family gives none.\<close>

definition peer_address :: "sockaddr \<Rightarrow> (byte list \<times> nat \<times> 16 word) option" where
  "peer_address sa =
     (if sa_family sa = AF_INET then Some (sa_addr sa, 4, ntohs (sa_port sa))
      else if sa_family sa = AF_INET6 then Some (sa_addr sa, 16, ntohs (sa_port sa))
      else None)"

definition same_peer :: "byte list \<Rightarrow> nat \<Rightarrow> 16 word \<Rightarrow> peer \<Rightarrow> bool" where
  "same_peer ip len port p \<longleftrightarrow> p_port p = port \<and> p_len p = len \<and> memcmp (p_ip p) ip = 0"

definition zero_storage :: storage where
  "zero_storage = \<lparr>st_id = replicate 20 0, st_maxpeers = 0, st_peers = []\<rparr>"

definition upd_storage :: "nat \<Rightarrow> (storage \<Rightarrow> storage) \<Rightarrow> dht \<Rightarrow> dht" where
  "upd_storage k f s = s\<lparr>storages := (storages s)[k := f (storages s ! k)]\<rparr>"

text \<open>Room for one more peer: the array is doubled, up to its limit.\<close>

definition grown_capacity :: "nat \<Rightarrow> nat" where
  "grown_capacity m = min (if m = 0 then 2 else 2 * m) DHT_MAX_PEERS"

definition store_peer :: "nat \<Rightarrow> byte list \<Rightarrow> nat \<Rightarrow> 16 word \<Rightarrow> dht \<Rightarrow> int \<times> dht" where
  "store_peer k ip len port s =
     (let st = storages s ! k;
          new_peer = \<lparr>p_time = now_sec s, p_ip = ip, p_len = len, p_port = port\<rparr>;
          append_peer = upd_storage k (\<lambda>st. st\<lparr>st_peers := st_peers st @ [new_peer]\<rparr>)
      in case first_index (same_peer ip len port) (st_peers st) of
           Some i \<Rightarrow>
             (0, upd_storage k (\<lambda>st. st\<lparr>st_peers := (st_peers st)[i := (st_peers st ! i)\<lparr>p_time := now_sec s\<rparr>]\<rparr>) s)
         | None \<Rightarrow>
             if st_maxpeers st \<le> length (st_peers st)
             then if DHT_MAX_PEERS \<le> st_maxpeers st then (0, s)
                  else let (ok, s1) = calloc s
                       in if ok
                          then (1, append_peer (upd_storage k (\<lambda>st. st\<lparr>st_maxpeers := grown_capacity (st_maxpeers st)\<rparr>) s1))
                          else (-1, s1)
             else (1, append_peer s))"

definition storage_store :: "byte list \<Rightarrow> sockaddr \<Rightarrow> dht \<Rightarrow> int \<times> dht" where
  "storage_store ident sa s =
     (case peer_address sa of
        None \<Rightarrow> (-1, s)
      | Some (ip, len, port) \<Rightarrow>
          case find_storage ident s of
            Some k \<Rightarrow> store_peer k ip len port s
          | None \<Rightarrow>
              if DHT_MAX_HASHES \<le> numstorage s then (-1, s)
              else let (ok, s1) = calloc s
                   in if ok
                      then store_peer 0 ip len port
                             (s1\<lparr>storages := zero_storage\<lparr>st_id := ident\<rparr> # storages s1,
                                 numstorage := numstorage s1 + 1\<rparr>)
                      else (-1, s1))"

text \<open>An expired peer is overwritten by the last one.\<close>

function expire_peers :: "int \<Rightarrow> peer list \<Rightarrow> nat \<Rightarrow> peer list" where
  "expire_peers now ps i =
     (if i < length ps
      then if p_time (ps ! i) < now - 32 * 60
           then expire_peers now
                  (butlast (if i \<noteq> length ps - 1 then ps[i := ps ! (length ps - 1)] else ps)) i
           else expire_peers now ps (Suc i)
      else ps)"
  by pat_completeness auto
termination by (relation "measure (\<lambda>(now, ps, i). length ps - i)") (auto split: if_splits)

declare expire_peers.simps [simp del]

fun expire_storage_loop :: "int \<Rightarrow> storage list \<Rightarrow> int \<Rightarrow> storage list \<times> int" where
  "expire_storage_loop now [] n = ([], n)"
| "expire_storage_loop now (st # sts) n =
     (let ps = expire_peers now (st_peers st) 0
      in if length ps = 0
         then let n' = n - 1 in expire_storage_loop now sts (if n' < 0 then 0 else n')
         else let (kept, n') = expire_storage_loop now sts n in (st\<lparr>st_peers := ps\<rparr> # kept, n'))"

definition expire_storage :: "dht \<Rightarrow> dht" where
  "expire_storage s =
     (let (kept, n) = expire_storage_loop (now_sec s) (storages s) (numstorage s)
      in s\<lparr>storages := kept, numstorage := n\<rparr>)"

section \<open>Broken nodes\<close>

text \<open>
  The loop that flushes an identifier from a search. As in the code, the entry that takes
  the place of a flushed one is not looked at.
\<close>

function flush_loop :: "byte list \<Rightarrow> search \<Rightarrow> nat \<Rightarrow> search" where
  "flush_loop ident sr i =
     (if i < length (sr_nodes sr)
      then flush_loop ident
             (if id_cmp (sn_id (sr_nodes sr ! i)) ident = 0 then flush_search_node i sr else sr) (Suc i)
      else sr)"
  by pat_completeness auto
termination
  by (relation "measure (\<lambda>(ident, sr, i). length (sr_nodes sr) - i)") (auto simp: flush_search_node_def)

declare flush_loop.simps [simp del]

definition broken_node :: "byte list option \<Rightarrow> sockaddr \<Rightarrow> dht \<Rightarrow> dht" where
  "broken_node ident sa s =
     (let s1 = (case ident of
                  None \<Rightarrow> s
                | Some x \<Rightarrow>
                    let s' = (case find_node x (sa_family sa) s of
                                None \<Rightarrow> s
                              | Some (i, j) \<Rightarrow>
                                  pinged (sa_family sa) i j None
                                    (upd_node (sa_family sa) i j (\<lambda>n. n\<lparr>n_pinged := 3\<rparr>) s))
                    in s'\<lparr>searches := map (\<lambda>sr. flush_loop x sr 0) (searches s')\<rparr>)
      in s1\<lparr>blacklist := (blacklist s1)[next_blacklisted s1 := sa],
            next_blacklisted := (next_blacklisted s1 + 1) mod DHT_MAX_BLACKLISTED\<rparr>)"

section \<open>Secrets and tokens\<close>

definition rotate_secrets :: "dht \<Rightarrow> dht" where
  "rotate_secrets s =
     (let (r, s1) = random s;
          s2 = s1\<lparr>rotate_secrets_time := now_sec s + 900 + int (r mod 1800), oldsecret := secret s1\<rparr>;
          (bytes, s3) = dht_random_bytes 8 s2
      in s3\<lparr>secret := bytes\<rparr>)"

text \<open>
  The hash function MD5, of libgcrypt, is a parameter of the model. \<open>dht_hash\<close> of
  \<^verbatim>\<open>ffff.c\<close> keeps the first bytes of its digest, at most 16. The port of a token is passed
  in host order, whose bytes on the little-endian hosts modelled are those of the network
  order reversed.
\<close>

definition dht_hash ::
    "(byte list \<Rightarrow> byte list) \<Rightarrow> nat \<Rightarrow> byte list \<Rightarrow> byte list \<Rightarrow> byte list \<Rightarrow> byte list" where
  "dht_hash md5 hash_size v1 v2 v3 = take (if 16 < hash_size then 16 else hash_size) (md5 (v1 @ v2 @ v3))"

definition make_token :: "(byte list \<Rightarrow> byte list) \<Rightarrow> sockaddr \<Rightarrow> bool \<Rightarrow> dht \<Rightarrow> byte list res" where
  "make_token md5 sa old s =
     (if sa_family sa = AF_INET \<or> sa_family sa = AF_INET6
      then Inr (dht_hash md5 TOKEN_SIZE (if old then oldsecret s else secret s) (sa_addr sa) (rev (sa_port sa)))
      else Inl Aborted)"

definition token_match ::
    "(byte list \<Rightarrow> byte list) \<Rightarrow> byte list \<Rightarrow> sockaddr \<Rightarrow> dht \<Rightarrow> bool res" where
  "token_match md5 token sa s =
     (if length token \<noteq> TOKEN_SIZE then Inr False
      else rbind (make_token md5 sa False s) (\<lambda>t.
             if memcmp t token = 0 then Inr True
             else rbind (make_token md5 sa True s) (\<lambda>t'. Inr (memcmp t' token = 0))))"

section \<open>Rate control\<close>

text \<open>
  The counter is an \<^verbatim>\<open>int\<close>: the refill is converted to it, and a decrement below its range is a
  signed overflow.
\<close>

definition token_bucket :: "dht \<Rightarrow> bool \<times> dht" where
  "token_bucket s =
     (let s1 = (if token_bucket_tokens s = 0
                then s\<lparr>token_bucket_tokens :=
                         to_int32 (min MAX_TOKEN_BUCKET_TOKENS (4 * (now_sec s - token_bucket_time s))),
                       token_bucket_time := now_sec s\<rparr>
                else s)
      in if token_bucket_tokens s1 = 0 then (False, s1)
         else if token_bucket_tokens s1 = - (2 ^ 31) then (True, die Signed_Overflow s1)
         else (True, s1\<lparr>token_bucket_tokens := token_bucket_tokens s1 - 1\<rparr>))"

end
