(* ===== verification/Dht_Store_Props.thy ===== *)
theory Dht_Store_Props
  imports Dht_Store
begin

text \<open>
  The stored peers as a map from info hash, address and port to the time of the last
  announcement, and what the operations of the storage do to that map; the tokens; the rate
  control; the removal of a broken node.
\<close>

section \<open>The map of stored peers\<close>

definition pkey :: "peer \<Rightarrow> byte list \<times> 16 word" where
  "pkey p = (p_ip p, p_port p)"

definition storage_ok :: "storage \<Rightarrow> bool" where
  "storage_ok st \<longleftrightarrow> id_ok (st_id st) \<and> length (st_peers st) \<le> st_maxpeers st \<and>
     st_maxpeers st \<le> DHT_MAX_PEERS \<and> distinct (map pkey (st_peers st)) \<and>
     (\<forall>p \<in> set (st_peers st). p_len p = length (p_ip p))"

definition storages_ok :: "dht \<Rightarrow> bool" where
  "storages_ok s \<longleftrightarrow> (\<forall>st \<in> set (storages s). storage_ok st) \<and> distinct (map st_id (storages s)) \<and>
     numstorage s = int (length (storages s)) \<and> numstorage s \<le> DHT_MAX_HASHES"

text \<open>The abstract view: when a peer was last announced for a hash.\<close>

definition stored :: "dht \<Rightarrow> byte list \<times> byte list \<times> 16 word \<Rightarrow> int option" where
  "stored s = (\<lambda>(h, ip, port).
     case find_storage h s of
       None \<Rightarrow> None
     | Some k \<Rightarrow>
         (case first_index (same_peer ip (length ip) port) (st_peers (storages s ! k)) of
            None \<Rightarrow> None
          | Some i \<Rightarrow> Some (p_time (st_peers (storages s ! k) ! i))))"

lemma same_peer_iff:
  "p_len p = length (p_ip p) \<Longrightarrow> same_peer ip (length ip) port p \<longleftrightarrow> pkey p = (ip, port)"
  using memcmp_eq_0 [of "p_ip p" ip] by (auto simp: same_peer_def pkey_def)

text \<open>Looking for a key where keys are distinct.\<close>

lemma first_index_key:
  assumes "distinct (map f xs)" "\<And>x. x \<in> set xs \<Longrightarrow> P x \<longleftrightarrow> f x = a"
  shows "first_index P xs = Some i \<longleftrightarrow> i < length xs \<and> f (xs ! i) = a"
proof -
  have "\<not> P (xs ! j)" if "j < i" "i < length xs" "f (xs ! i) = a" for j
    using nth_eq_iff_index_eq [OF assms(1), of j i] that assms(2) [of "xs ! j"] by auto
  then show ?thesis
    using assms(2) [OF nth_mem, of i] by (auto simp: first_index_Some)
qed

lemma first_index_nokey:
  assumes "\<And>x. x \<in> set xs \<Longrightarrow> P x \<longleftrightarrow> f x = a"
  shows "first_index P xs = None \<longleftrightarrow> a \<notin> f ` set xs"
  using assms by (auto simp: first_index_None)

lemma hash_eq_iff:
  assumes "storages_ok s" "id_ok h" "st \<in> set (storages s)"
  shows "id_cmp h (st_id st) = 0 \<longleftrightarrow> st_id st = h"
  using assms id_cmp_zero [of h "st_id st"] by (auto simp: storages_ok_def storage_ok_def)

lemma find_storage_iff:
  assumes "storages_ok s" "id_ok h"
  shows "find_storage h s = Some k \<longleftrightarrow> k < length (storages s) \<and> st_id (storages s ! k) = h"
  unfolding find_storage_def
  using assms by (intro first_index_key hash_eq_iff) (auto simp: storages_ok_def)

lemma find_storage_none:
  assumes "storages_ok s" "id_ok h"
  shows "find_storage h s = None \<longleftrightarrow> h \<notin> st_id ` set (storages s)"
  unfolding find_storage_def using assms by (intro first_index_nokey hash_eq_iff)

lemma key_eq_iff:
  assumes "storage_ok st" "p \<in> set (st_peers st)"
  shows "same_peer ip (length ip) port p \<longleftrightarrow> pkey p = (ip, port)"
  using assms by (intro same_peer_iff) (auto simp: storage_ok_def)

lemma peer_index_iff:
  assumes "storage_ok st"
  shows "first_index (same_peer ip (length ip) port) (st_peers st) = Some i \<longleftrightarrow>
    i < length (st_peers st) \<and> pkey (st_peers st ! i) = (ip, port)"
  using assms by (intro first_index_key key_eq_iff) (auto simp: storage_ok_def)

lemma peer_index_none:
  assumes "storage_ok st"
  shows "first_index (same_peer ip (length ip) port) (st_peers st) = None \<longleftrightarrow>
    (ip, port) \<notin> pkey ` set (st_peers st)"
  using assms by (intro first_index_nokey key_eq_iff)

text \<open>With distinct keys, the map is the set of stored triples.\<close>

definition entries :: "storage \<Rightarrow> (byte list \<times> (byte list \<times> 16 word) \<times> int) set" where
  "entries st = (\<lambda>p. (st_id st, pkey p, p_time p)) ` set (st_peers st)"

definition triples :: "dht \<Rightarrow> (byte list \<times> (byte list \<times> 16 word) \<times> int) set" where
  "triples s = (\<Union>st \<in> set (storages s). entries st)"

lemma stored_iff:
  assumes "storages_ok s" "id_ok h"
  shows "stored s (h, ip, port) = Some t \<longleftrightarrow> (h, (ip, port), t) \<in> triples s" (is "?l \<longleftrightarrow> ?r")
proof
  have ok: "storage_ok (storages s ! k)" if "k < length (storages s)" for k
    using assms(1) that by (auto simp: storages_ok_def)
  { assume ?l
    then obtain k i where k: "find_storage h s = Some k"
      and i: "first_index (same_peer ip (length ip) port) (st_peers (storages s ! k)) = Some i"
      and t: "p_time (st_peers (storages s ! k) ! i) = t"
      by (auto simp: stored_def split: option.splits)
    from k have kk: "k < length (storages s)" "st_id (storages s ! k) = h"
      by (simp_all add: find_storage_iff [OF assms])
    from i have "i < length (st_peers (storages s ! k))" "pkey (st_peers (storages s ! k) ! i) = (ip, port)"
      by (simp_all add: peer_index_iff [OF ok [OF kk(1)]])
    with kk t nth_mem [OF kk(1)] show ?r
      by (force simp: triples_def entries_def in_set_conv_nth) }
  { assume ?r
    then obtain st p where "st \<in> set (storages s)" "st_id st = h" "p \<in> set (st_peers st)"
        "pkey p = (ip, port)" "p_time p = t" by (auto simp: triples_def entries_def)
    then obtain k i where k: "k < length (storages s)" "st_id (storages s ! k) = h"
      and i: "i < length (st_peers (storages s ! k))" "pkey (st_peers (storages s ! k) ! i) = (ip, port)"
        "p_time (st_peers (storages s ! k) ! i) = t"
      by (metis in_set_conv_nth)
    from k have "find_storage h s = Some k" by (simp add: find_storage_iff [OF assms])
    moreover from i have "first_index (same_peer ip (length ip) port) (st_peers (storages s ! k)) = Some i"
      by (simp add: peer_index_iff [OF ok [OF k(1)]])
    ultimately show ?l using i(3) by (simp add: stored_def) }
qed

text \<open>So an operation is described by what it does to the triples.\<close>

lemma stored_eqI:
  assumes "storages_ok s" "id_ok h" "\<And>t. (h, (ip, port), t) \<in> triples s \<longleftrightarrow> r = Some t"
  shows "stored s (h, ip, port) = r"
proof -
  have "stored s (h, ip, port) = Some t \<longleftrightarrow> r = Some t" for t
    by (simp only: stored_iff [OF assms(1,2)] assms(3))
  then show ?thesis by (cases r) (simp_all, metis not_None_eq)
qed

lemma list_upd_map_same:
  "k < length xs \<Longrightarrow> f x = f (xs ! k) \<Longrightarrow> map f (xs[k := x]) = map f xs"
  by (metis list_update_id map_update nth_map)

lemma storages_ok_upd:
  assumes "storages_ok s" "k < length (storages s)" "st_id (f (storages s ! k)) = st_id (storages s ! k)"
    and "storage_ok (f (storages s ! k))"
  shows "storages_ok (upd_storage k f s)"
proof -
  have "set (storages (upd_storage k f s)) \<subseteq> insert (f (storages s ! k)) (set (storages s))"
    by (simp add: upd_storage_def set_update_subset_insert)
  then have "\<forall>st \<in> set (storages (upd_storage k f s)). storage_ok st"
    using assms(1,4) by (auto simp: storages_ok_def)
  moreover have "map st_id (storages (upd_storage k f s)) = map st_id (storages s)"
    using list_upd_map_same [OF assms(2), of st_id, OF assms(3)] by (simp add: upd_storage_def)
  moreover have "length (storages (upd_storage k f s)) = length (storages s)"
      "numstorage (upd_storage k f s) = numstorage s"
    by (simp_all add: upd_storage_def)
  ultimately show ?thesis
    using assms(1) unfolding storages_ok_def by metis
qed

lemma triples_upd:
  assumes "storages_ok s" "k < length (storages s)"
  shows "triples (upd_storage k f s) =
    {x \<in> triples s. fst x \<noteq> st_id (storages s ! k)} \<union> entries (f (storages s ! k))"
proof -
  let ?st = "storages s ! k"
  have d: "distinct (map st_id (storages s))" using assms(1) by (simp add: storages_ok_def)
  then have "distinct (storages s)" by (simp add: distinct_map)
  then have set: "set (storages (upd_storage k f s)) = insert (f ?st) (set (storages s) - {?st})"
    using assms(2) by (simp add: upd_storage_def set_update_distinct)
  have mem: "?st \<in> set (storages s)" using assms(2) by simp
  have other: "st_id st \<noteq> st_id ?st" if "st \<in> set (storages s)" "st \<noteq> ?st" for st
    using d that mem unfolding distinct_map inj_on_def by metis
  have ids: "fst x = st_id st" if "x \<in> entries st" for x st
    using that by (auto simp: entries_def)
  have "(\<Union>st \<in> set (storages s) - {?st}. entries st) = {x \<in> triples s. fst x \<noteq> st_id ?st}"
  proof (intro set_eqI iffI)
    fix x assume "x \<in> (\<Union>st \<in> set (storages s) - {?st}. entries st)"
    then obtain st where "st \<in> set (storages s)" "st \<noteq> ?st" "x \<in> entries st" by auto
    with other ids show "x \<in> {x \<in> triples s. fst x \<noteq> st_id ?st}" by (auto simp: triples_def)
  next
    fix x assume "x \<in> {x \<in> triples s. fst x \<noteq> st_id ?st}"
    then obtain st where "st \<in> set (storages s)" "x \<in> entries st" "fst x \<noteq> st_id ?st"
      by (auto simp: triples_def)
    with ids show "x \<in> (\<Union>st \<in> set (storages s) - {?st}. entries st)" by fastforce
  qed
  then show ?thesis unfolding triples_def set by auto
qed

lemma triples_self:
  assumes "storages_ok s" "k < length (storages s)"
  shows "{x \<in> triples s. fst x = st_id (storages s ! k)} = entries (storages s ! k)"
proof -
  have d: "distinct (map st_id (storages s))" using assms(1) by (simp add: storages_ok_def)
  have "st = storages s ! k" if "st \<in> set (storages s)" "st_id st = st_id (storages s ! k)" for st
    using d that nth_mem [OF assms(2)] by (auto simp: distinct_map inj_on_def)
  then show ?thesis using nth_mem [OF assms(2)] by (fastforce simp: triples_def entries_def)
qed

lemma triples_self_iff:
  assumes "storages_ok s" "k < length (storages s)" "fst x = st_id (storages s ! k)"
  shows "x \<in> triples s \<longleftrightarrow> x \<in> entries (storages s ! k)"
  unfolding triples_self [OF assms(1,2), symmetric] using assms(3) by simp

text \<open>Only the storage and the allocator are touched.\<close>

definition storage_frame :: "dht \<Rightarrow> dht \<Rightarrow> bool" where
  "storage_frame s s' \<longleftrightarrow>
     (\<exists>sts n c. s' = s\<lparr>storages := sts, numstorage := n, env_calloc := c\<rparr>)"

lemma storage_frameI: "s' = s\<lparr>storages := sts, numstorage := n, env_calloc := c\<rparr> \<Longrightarrow> storage_frame s s'"
  unfolding storage_frame_def by blast

lemma storage_frame_refl [simp]: "storage_frame s s"
  by (rule storage_frameI [where sts = "storages s" and n = "numstorage s" and c = "env_calloc s"]) simp

lemma storage_frame_trans:
  assumes "storage_frame s s'" "storage_frame s' s''"
  shows "storage_frame s s''"
proof -
  obtain a b c where 1: "s' = s\<lparr>storages := a, numstorage := b, env_calloc := c\<rparr>"
    using assms(1) unfolding storage_frame_def by blast
  obtain a' b' c' where 2: "s'' = s'\<lparr>storages := a', numstorage := b', env_calloc := c'\<rparr>"
    using assms(2) unfolding storage_frame_def by blast
  show ?thesis by (rule storage_frameI [where sts = a' and n = b' and c = c']) (simp add: 1 2)
qed

lemma storage_frame_upd [simp]: "storage_frame s (upd_storage k f s)"
  by (rule storage_frameI [where sts = "(storages s)[k := f (storages s ! k)]" and n = "numstorage s" and c = "env_calloc s"])
    (simp add: upd_storage_def)

section \<open>Storing a peer\<close>

text \<open>
  What storing one peer does: the invariant stays; the triple of the peer is replaced by one
  of the current time when the peer was there or there is room; nothing else changes.
\<close>

definition announced :: "byte list \<Rightarrow> byte list \<times> 16 word \<Rightarrow> int \<times> dht \<Rightarrow> dht \<Rightarrow> bool" where
  "announced h key r s \<longleftrightarrow>
     (let known = (\<exists>t. (h, key, t) \<in> triples s)
      in storages_ok (snd r) \<and> storage_frame s (snd r) \<and> fst r \<in> {-1, 0, 1} \<and>
         (fst r = 1 \<longrightarrow> \<not> known) \<and> (fst r = -1 \<longrightarrow> \<not> known) \<and>
         triples (snd r) =
           (if fst r = 1 \<or> known
            then insert (h, key, now_sec s) {x \<in> triples s. (fst x, fst (snd x)) \<noteq> (h, key)}
            else triples s))"

lemma grown_capacity_room:
  "m < DHT_MAX_PEERS \<Longrightarrow> m < grown_capacity m \<and> grown_capacity m \<le> DHT_MAX_PEERS"
  by (auto simp: grown_capacity_def DHT_MAX_PEERS_def)

lemma entries_refresh:
  assumes "storage_ok st" "i < length (st_peers st)"
  shows "entries (st\<lparr>st_peers := (st_peers st)[i := (st_peers st ! i)\<lparr>p_time := now\<rparr>]\<rparr>) =
    insert (st_id st, pkey (st_peers st ! i), now)
      {x \<in> entries st. fst (snd x) \<noteq> pkey (st_peers st ! i)}"
proof -
  let ?ps = "st_peers st" and ?p = "st_peers st ! i"
  have d: "distinct (map pkey ?ps)" using assms(1) by (simp add: storage_ok_def)
  then have "distinct ?ps" by (simp add: distinct_map)
  then have set: "set (?ps[i := ?p\<lparr>p_time := now\<rparr>]) = insert (?p\<lparr>p_time := now\<rparr>) (set ?ps - {?p})"
    using assms(2) by (simp add: set_update_distinct)
  have mem: "?p \<in> set ?ps" using assms(2) by simp
  have "inj_on pkey (set ?ps)" using d by (simp add: distinct_map)
  then have other: "pkey q \<noteq> pkey ?p \<longleftrightarrow> q \<noteq> ?p" if "q \<in> set ?ps" for q
    using inj_on_eq_iff [OF _ that mem] by blast
  have k: "pkey (?p\<lparr>p_time := now\<rparr>) = pkey ?p" by (simp add: pkey_def)
  have filt: "set ?ps - {?p} = {q \<in> set ?ps. pkey q \<noteq> pkey ?p}" using other by blast
  have "(\<lambda>p. (st_id st, pkey p, p_time p)) ` {q \<in> S. pkey q \<noteq> a} =
      {x \<in> (\<lambda>p. (st_id st, pkey p, p_time p)) ` S. fst (snd x) \<noteq> a}" for S a
    by auto
  then have "(\<lambda>p. (st_id st, pkey p, p_time p)) ` (set ?ps - {?p}) =
      {x \<in> (\<lambda>p. (st_id st, pkey p, p_time p)) ` set ?ps. fst (snd x) \<noteq> pkey ?p}"
    unfolding filt .
  then have image: "insert (st_id st, pkey ?p, now) ((\<lambda>p. (st_id st, pkey p, p_time p)) ` (set ?ps - {?p})) =
      insert (st_id st, pkey ?p, now)
        {x \<in> (\<lambda>p. (st_id st, pkey p, p_time p)) ` set ?ps. fst (snd x) \<noteq> pkey ?p}"
    by (rule arg_cong)
  have "entries (st\<lparr>st_peers := ?ps[i := ?p\<lparr>p_time := now\<rparr>]\<rparr>) =
      (\<lambda>p. (st_id st, pkey p, p_time p)) ` insert (?p\<lparr>p_time := now\<rparr>) (set ?ps - {?p})"
    by (simp only: entries_def set [symmetric]) simp
  also have "\<dots> = insert (st_id st, pkey ?p, now) ((\<lambda>p. (st_id st, pkey p, p_time p)) ` (set ?ps - {?p}))"
    by (simp only: image_insert k) simp
  finally show ?thesis unfolding entries_def [of st] image .
qed

lemma store_peer_announced:
  assumes s: "storages_ok s" and k: "k < length (storages s)" and len: "len = length ip"
  shows "announced (st_id (storages s ! k)) (ip, port) (store_peer k ip len port s) s"
proof -
  let ?st = "storages s ! k" and ?h = "st_id (storages s ! k)"
  let ?new = "\<lparr>p_time = now_sec s, p_ip = ip, p_len = len, p_port = port\<rparr>"
  have ok: "storage_ok ?st" using s k by (simp add: storages_ok_def)
  have ids: "fst x = ?h" if "x \<in> entries ?st" for x using that by (auto simp: entries_def)
  have "(?h, (ip, port), t) \<in> triples s \<longleftrightarrow> (\<exists>p \<in> set (st_peers ?st). pkey p = (ip, port) \<and> p_time p = t)" for t
    unfolding triples_self_iff [OF s k, of "(?h, (ip, port), t)", simplified] entries_def by (force simp: image_iff)
  then have "(\<exists>t. (?h, (ip, port), t) \<in> triples s) \<longleftrightarrow> (\<exists>p \<in> set (st_peers ?st). (ip, port) = pkey p)"
    by (simp only:) metis
  then have known: "(\<exists>t. (?h, (ip, port), t) \<in> triples s) \<longleftrightarrow> (ip, port) \<in> pkey ` set (st_peers ?st)"
    unfolding image_iff .
  have split: "x \<in> triples s \<longleftrightarrow> x \<in> triples s \<and> fst x \<noteq> ?h \<or> x \<in> entries ?st" for x
    using triples_self_iff [OF s k, of x] ids [of x] by blast
  have sp: "storage_ok (?st\<lparr>st_maxpeers := m, st_peers := st_peers ?st @ [?new]\<rparr>)"
    if "(ip, port) \<notin> pkey ` set (st_peers ?st)" "length (st_peers ?st) < m" "m \<le> DHT_MAX_PEERS" for m
    using ok that len by (auto simp: storage_ok_def pkey_def)
  have se: "entries (?st\<lparr>st_maxpeers := m, st_peers := st_peers ?st @ [?new]\<rparr>) =
      insert (?h, (ip, port), now_sec s) (entries ?st)" for m
    by (simp add: entries_def pkey_def)
  have fresh: "{x \<in> triples s. (fst x, fst (snd x)) \<noteq> (?h, (ip, port))} = triples s"
    if "\<not> (\<exists>t. (?h, (ip, port), t) \<in> triples s)"
    using that by force
  show ?thesis
  proof (cases "first_index (same_peer ip len port) (st_peers ?st)")
    case (Some i)
    then have i: "i < length (st_peers ?st)" "pkey (st_peers ?st ! i) = (ip, port)"
      by (simp_all add: len peer_index_iff [OF ok])
    then have kn: "\<exists>t. (?h, (ip, port), t) \<in> triples s"
      by (auto simp: known intro!: rev_image_eqI [of "st_peers ?st ! i"])
    let ?f = "\<lambda>st. st\<lparr>st_peers := (st_peers st)[i := (st_peers st ! i)\<lparr>p_time := now_sec s\<rparr>]\<rparr>"
    have r: "store_peer k ip len port s = (0, upd_storage k ?f s)"
      by (simp add: store_peer_def Some Let_def)
    have "pkey ((st_peers ?st ! i)\<lparr>p_time := now_sec s\<rparr>) = pkey (st_peers ?st ! i)"
      by (simp add: pkey_def)
    then have "map pkey ((st_peers ?st)[i := (st_peers ?st ! i)\<lparr>p_time := now_sec s\<rparr>]) = map pkey (st_peers ?st)"
      using i(1) by (intro list_upd_map_same)
    moreover have "\<forall>p \<in> set ((st_peers ?st)[i := (st_peers ?st ! i)\<lparr>p_time := now_sec s\<rparr>]). p_len p = length (p_ip p)"
      using ok i(1) set_update_subset_insert [of "st_peers ?st" i] nth_mem [OF i(1)]
      by (fastforce simp: storage_ok_def)
    ultimately have "storage_ok (?f ?st)"
      using ok by (simp add: storage_ok_def)
    then have 1: "storages_ok (upd_storage k ?f s)"
      using s k by (intro storages_ok_upd) simp_all
    have "triples (upd_storage k ?f s) = insert (?h, (ip, port), now_sec s)
        {x \<in> triples s. (fst x, fst (snd x)) \<noteq> (?h, (ip, port))}"
    proof (rule set_eqI)
      fix x
      show "x \<in> triples (upd_storage k ?f s) \<longleftrightarrow> x \<in> insert (?h, (ip, port), now_sec s)
          {x \<in> triples s. (fst x, fst (snd x)) \<noteq> (?h, (ip, port))}"
        unfolding triples_upd [OF s k] entries_refresh [OF ok i(1)] i(2)
        using split [of x] ids [of x] by auto
    qed
    with 1 kn show ?thesis by (simp add: announced_def r Let_def)
  next
    case None
    then have nk: "\<not> (\<exists>t. (?h, (ip, port), t) \<in> triples s)"
      by (simp add: known len peer_index_none [OF ok])
    then have nk': "(ip, port) \<notin> pkey ` set (st_peers ?st)" by (simp add: known)
    let ?g = "\<lambda>m st. st\<lparr>st_maxpeers := m, st_peers := st_peers st @ [?new]\<rparr>"
    have appended: "announced ?h (ip, port) (1, upd_storage k (?g m) (s\<lparr>env_calloc := c\<rparr>)) s"
      if "length (st_peers ?st) < m" "m \<le> DHT_MAX_PEERS" for m c
    proof -
      have s': "storages_ok (s\<lparr>env_calloc := c\<rparr>)" using s by (simp add: storages_ok_def)
      have "storages_ok (upd_storage k (?g m) (s\<lparr>env_calloc := c\<rparr>))"
        using k sp [OF nk' that] by (intro storages_ok_upd [OF s']) simp_all
      moreover have "storage_frame s (upd_storage k (?g m) (s\<lparr>env_calloc := c\<rparr>))"
        by (rule storage_frameI [where sts = "(storages s)[k := ?g m ?st]" and n = "numstorage s" and c = c])
          (simp add: upd_storage_def)
      moreover have "triples (upd_storage k (?g m) (s\<lparr>env_calloc := c\<rparr>)) =
          insert (?h, (ip, port), now_sec s) (triples s)"
      proof (rule set_eqI)
        fix x
        have "triples (s\<lparr>env_calloc := c\<rparr>) = triples s" by (simp add: triples_def)
        then show "x \<in> triples (upd_storage k (?g m) (s\<lparr>env_calloc := c\<rparr>)) \<longleftrightarrow>
            x \<in> insert (?h, (ip, port), now_sec s) (triples s)"
          using triples_upd [OF s', of k "?g m"] k se [of m] split [of x] by simp
      qed
      ultimately show ?thesis using nk fresh [OF nk] by (simp add: announced_def Let_def)
    qed
    have keep: "announced ?h (ip, port) (c, s\<lparr>env_calloc := e\<rparr>) s" if "c = 0 \<or> c = -1" for c e
    proof -
      have "triples (s\<lparr>env_calloc := e\<rparr>) = triples s" by (simp add: triples_def)
      moreover have "storage_frame s (s\<lparr>env_calloc := e\<rparr>)"
        by (rule storage_frameI [where sts = "storages s" and n = "numstorage s" and c = e]) simp
      ultimately show ?thesis using s nk that by (auto simp: announced_def storages_ok_def Let_def)
    qed

    have upd_eq: "upd_storage k u s' = upd_storage k v s'" if "u (storages s' ! k) = v (storages s' ! k)" for u v s'
      using that by (simp add: upd_storage_def)
    have append1: "announced ?h (ip, port)
        (1, upd_storage k (\<lambda>st. st\<lparr>st_peers := st_peers st @ [?new]\<rparr>) s) s"
      if "length (st_peers ?st) < st_maxpeers ?st"
    proof -
      have "st_maxpeers ?st \<le> DHT_MAX_PEERS" using ok by (simp add: storage_ok_def)
      from appended [OF that this, of "env_calloc s"]
      have "announced ?h (ip, port) (1, upd_storage k (?g (st_maxpeers ?st)) s) s" by simp
      moreover have "upd_storage k (\<lambda>st. st\<lparr>st_peers := st_peers st @ [?new]\<rparr>) s =
          upd_storage k (?g (st_maxpeers ?st)) s"
        by (rule upd_eq) simp
      ultimately show ?thesis by simp
    qed
    have append2: "announced ?h (ip, port)
        (1, upd_storage k (\<lambda>st. st\<lparr>st_peers := st_peers st @ [?new]\<rparr>)
              (upd_storage k (\<lambda>st. st\<lparr>st_maxpeers := grown_capacity (st_maxpeers st)\<rparr>) (s\<lparr>env_calloc := c\<rparr>))) s"
      if "st_maxpeers ?st < DHT_MAX_PEERS" for c
    proof -
      have "length (st_peers ?st) \<le> st_maxpeers ?st" using ok by (simp add: storage_ok_def)
      then have "announced ?h (ip, port)
          (1, upd_storage k (?g (grown_capacity (st_maxpeers ?st))) (s\<lparr>env_calloc := c\<rparr>)) s"
        using grown_capacity_room [OF that] by (intro appended) simp_all
      then show ?thesis using k by (simp add: upd_storage_def)
    qed
    have p: "store_peer k ip len port s =
      (if st_maxpeers ?st \<le> length (st_peers ?st)
       then if DHT_MAX_PEERS \<le> st_maxpeers ?st then (0, s)
            else if env_calloc s 0
                 then (1, upd_storage k (\<lambda>st. st\<lparr>st_peers := st_peers st @ [?new]\<rparr>)
                       (upd_storage k (\<lambda>st. st\<lparr>st_maxpeers := grown_capacity (st_maxpeers st)\<rparr>)
                         (s\<lparr>env_calloc := \<lambda>i. env_calloc s (Suc i)\<rparr>)))
                 else (-1, s\<lparr>env_calloc := \<lambda>i. env_calloc s (Suc i)\<rparr>)
       else (1, upd_storage k (\<lambda>st. st\<lparr>st_peers := st_peers st @ [?new]\<rparr>) s))"
      by (simp add: store_peer_def None calloc_def)
    show ?thesis
      unfolding p using append1 append2 keep [of 0 "env_calloc s"] keep [of "-1"] by simp
  qed
qed

text \<open>With room for the hash, the whole operation.\<close>

lemma announced_none: "storages_ok s \<Longrightarrow> \<not> (\<exists>t. (h, key, t) \<in> triples s) \<Longrightarrow> announced h key (-1, s) s"
  by (simp add: announced_def)

lemma storage_store_announced:
  assumes s: "storages_ok s" and h: "id_ok h" and a: "peer_address sa = Some (ip, length ip, port)"
  shows "announced h (ip, port) (storage_store h sa s) s"
proof (cases "find_storage h s")
  case (Some k)
  then have "k < length (storages s)" "st_id (storages s ! k) = h"
    by (simp_all add: find_storage_iff [OF s h])
  with store_peer_announced [OF s, of k "length ip" ip port] show ?thesis
    by (simp add: storage_store_def a Some)
next
  case None
  then have new: "h \<notin> st_id ` set (storages s)" by (simp add: find_storage_none [OF s h])
  then have nk: "\<not> (\<exists>t. (h, key, t) \<in> triples s)" for key
    by (auto simp: triples_def entries_def)
  let ?e = "\<lambda>i. env_calloc s (Suc i)"
  let ?s1 = "s\<lparr>env_calloc := ?e\<rparr>"
  let ?s2 = "s\<lparr>env_calloc := ?e, storages := zero_storage\<lparr>st_id := h\<rparr> # storages s,
               numstorage := numstorage s + 1\<rparr>"
  have t1: "triples ?s1 = triples s" by (simp add: triples_def)
  have t2: "triples ?s2 = triples s" by (simp add: triples_def entries_def zero_storage_def)
  have f1: "storage_frame s ?s1"
    by (rule storage_frameI [where sts = "storages s" and n = "numstorage s" and c = ?e]) simp
  have f2: "storage_frame s ?s2"
    by (rule storage_frameI [where sts = "zero_storage\<lparr>st_id := h\<rparr> # storages s"
          and n = "numstorage s + 1" and c = ?e]) simp
  have "announced h (ip, port) (store_peer 0 ip (length ip) port ?s2) s" if "numstorage s < DHT_MAX_HASHES"
  proof -
    have "storages_ok ?s2"
      using s h new that by (auto simp: storages_ok_def storage_ok_def zero_storage_def)
    from store_peer_announced [OF this, of 0 "length ip" ip port]
    have "announced h (ip, port) (store_peer 0 ip (length ip) port ?s2) ?s2" by simp
    then show ?thesis
      unfolding announced_def t2 using storage_frame_trans [OF f2] by (simp add: Let_def)
  qed
  moreover have "announced h (ip, port) (-1, ?s1) s"
    using s nk f1 t1 by (simp add: announced_def storages_ok_def)
  moreover have "announced h (ip, port) (-1, s) s" using s nk by (rule announced_none)
  ultimately show ?thesis
    by (simp add: storage_store_def a None calloc_def)
qed

text \<open>Nothing but a full table, a full array or a failed allocation refuses a peer.\<close>

lemma storage_store_succeeds:
  assumes s: "storages_ok s" and h: "id_ok h" and a: "peer_address sa = Some (ip, length ip, port)"
    and "\<forall>k. env_calloc s k" "numstorage s < DHT_MAX_HASHES"
    and "\<forall>st \<in> set (storages s). st_id st = h \<longrightarrow> length (st_peers st) < DHT_MAX_PEERS"
  shows "fst (storage_store h sa s) = 1 \<or> (\<exists>t. (h, (ip, port), t) \<in> triples s)"
proof -
  have store: "fst (store_peer k ip (length ip) port s') = 1 \<or>
      (\<exists>i. first_index (same_peer ip (length ip) port) (st_peers (storages s' ! k)) = Some i)"
    if "storage_ok (storages s' ! k)" "length (st_peers (storages s' ! k)) < DHT_MAX_PEERS" "env_calloc s' 0" for k s'
    using that by (auto simp: store_peer_def storage_ok_def calloc_def Let_def split: option.split)
  show ?thesis
  proof (cases "find_storage h s")
    case (Some k)
    then have k: "k < length (storages s)" "st_id (storages s ! k) = h"
      by (simp_all add: find_storage_iff [OF s h])
    have ok: "storage_ok (storages s ! k)" using s k(1) by (simp add: storages_ok_def)
    from store [OF this] assms(4,6) k
    consider "fst (store_peer k ip (length ip) port s) = 1"
      | i where "first_index (same_peer ip (length ip) port) (st_peers (storages s ! k)) = Some i"
      by auto
    then show ?thesis
    proof cases
      case 1
      then show ?thesis by (simp add: storage_store_def a Some)
    next
      case 2
      then have i: "i < length (st_peers (storages s ! k))" "pkey (st_peers (storages s ! k) ! i) = (ip, port)"
        by (simp_all add: peer_index_iff [OF ok])
      then have "(h, (ip, port), p_time (st_peers (storages s ! k) ! i)) \<in> triples s"
        using k unfolding triples_def entries_def by (force simp: in_set_conv_nth)
      then show ?thesis by blast
    qed
  next
    case None
    then show ?thesis
      using store [of "s\<lparr>env_calloc := \<lambda>i. env_calloc s (Suc i),
          storages := zero_storage\<lparr>st_id := h\<rparr> # storages s, numstorage := numstorage s + 1\<rparr>" 0] assms(4,5) h
      by (simp add: storage_store_def a calloc_def storage_ok_def zero_storage_def DHT_MAX_PEERS_def)
  qed
qed

section \<open>Expiry\<close>

abbreviation fresh_peer :: "int \<Rightarrow> peer \<Rightarrow> bool" where
  "fresh_peer now p \<equiv> now - 32 * 60 \<le> p_time p"

lemma swap_with_last:
  assumes "i < length xs"
  shows "take i (butlast (if i \<noteq> length xs - 1 then xs[i := xs ! (length xs - 1)] else xs)) = take i xs"
    and "mset (drop i xs) =
      add_mset (xs ! i) (mset (drop i (butlast (if i \<noteq> length xs - 1 then xs[i := xs ! (length xs - 1)] else xs))))"
proof -
  have d: "xs = take i xs @ xs ! i # drop (Suc i) xs" using assms by (rule id_take_nth_drop)
  define ys where "ys = butlast (if i \<noteq> length xs - 1 then xs[i := xs ! (length xs - 1)] else xs)"
  have "take i ys = take i xs \<and> mset (drop i xs) = add_mset (xs ! i) (mset (drop i ys))"
  proof (cases "drop (Suc i) xs" rule: rev_cases)
    case Nil
    then have i: "i = length xs - 1" using assms by simp
    then have "ys = take i xs" by (simp add: ys_def butlast_conv_take)
    moreover have "drop i xs = [xs ! i]" using Cons_nth_drop_Suc [OF assms] Nil by simp
    ultimately show ?thesis by simp
  next
    case (snoc r l)
    have x: "xs = take i xs @ xs ! i # r @ [l]" using d snoc by simp
    have len: "length (take i xs) = i" using assms by simp
    obtain as where as: "as = take i xs" "length as = i" "xs = as @ xs ! i # r @ [l]" using x len by blast
    then obtain a where a: "xs = as @ a # r @ [l]" by blast
    have ys: "ys = as @ l # r"
      using as(2) by (simp add: ys_def a list_update_append nth_append butlast_append)
    show ?thesis using as(2) by (simp add: ys a nth_append)
  qed
  then show "take i ys = take i xs" "mset (drop i xs) = add_mset (xs ! i) (mset (drop i ys))" by blast+
qed

lemma expire_peers_mset:
  "i \<le> length ps \<Longrightarrow> mset (expire_peers now ps i) =
     mset (take i ps) + filter_mset (fresh_peer now) (mset (drop i ps))"
proof (induction now ps i rule: expire_peers.induct)
  case (1 now ps i)
  let ?ps' = "butlast (if i \<noteq> length ps - 1 then ps[i := ps ! (length ps - 1)] else ps)"
  show ?case
  proof (cases "i < length ps")
    case True
    note sw = swap_with_last [OF True]
    have len: "i \<le> length ?ps'" using True by auto
    show ?thesis
    proof (cases "p_time (ps ! i) < now - 32 * 60")
      case old: True
      have "expire_peers now ps i = expire_peers now ?ps' i"
        using True old by (subst expire_peers.simps) (simp only: if_True)
      then show ?thesis using "1.IH"(1) [OF True old len] sw old by simp
    next
      case new: False
      have "expire_peers now ps i = expire_peers now ps (Suc i)"
        using True new by (subst expire_peers.simps) (simp only: if_True if_False)
      moreover have "mset (take (Suc i) ps) = add_mset (ps ! i) (mset (take i ps))"
        using True by (simp add: take_Suc_conv_app_nth)
      moreover have "mset (drop i ps) = add_mset (ps ! i) (mset (drop (Suc i) ps))"
        using Cons_nth_drop_Suc [OF True] by (metis mset.simps(2))
      ultimately show ?thesis using "1.IH"(2) [OF True new] True new by simp
    qed
  next
    case False
    with "1.prems" show ?thesis by (simp add: expire_peers.simps)
  qed
qed

lemma expire_peers_filter:
  "mset (expire_peers now ps 0) = mset (filter (fresh_peer now) ps)"
  using expire_peers_mset [of 0 ps now] by simp

lemma expire_peers_set: "set (expire_peers now ps 0) = {p \<in> set ps. fresh_peer now p}"
  using expire_peers_filter [THEN mset_eq_setD] by simp

definition expired_storage :: "int \<Rightarrow> storage \<Rightarrow> storage" where
  "expired_storage now st = st\<lparr>st_peers := expire_peers now (st_peers st) 0\<rparr>"

lemma expire_storage_loop_filter:
  "int (length sts) \<le> n \<Longrightarrow> expire_storage_loop now sts n =
     (let kept = filter (\<lambda>st. st_peers st \<noteq> []) (map (expired_storage now) sts)
      in (kept, n - int (length sts) + int (length kept)))"
  by (induction sts arbitrary: n) (auto simp: Let_def expired_storage_def case_prod_beta)

lemma expired_storage_ok:
  assumes "storage_ok st"
  shows "storage_ok (expired_storage now st)"
proof -
  have m: "mset (expire_peers now (st_peers st) 0) = mset (filter (fresh_peer now) (st_peers st))"
    by (rule expire_peers_filter)
  have "length (expire_peers now (st_peers st) 0) \<le> length (st_peers st)"
    using mset_eq_length [OF m] by simp
  moreover have "distinct (map pkey (expire_peers now (st_peers st) 0))"
  proof -
    have "mset (map pkey (expire_peers now (st_peers st) 0)) = mset (map pkey (filter (fresh_peer now) (st_peers st)))"
      using m by simp
    moreover have "distinct (map pkey (filter (fresh_peer now) (st_peers st)))"
      using assms by (simp add: storage_ok_def distinct_map_filter)
    ultimately show ?thesis using mset_eq_imp_distinct_iff by blast
  qed
  ultimately show ?thesis
    using assms by (auto simp: storage_ok_def expired_storage_def expire_peers_set)
qed

lemma expire_storage_spec:
  assumes "storages_ok s"
  shows "storages_ok (expire_storage s)"
    and "storages (expire_storage s) =
      filter (\<lambda>st. st_peers st \<noteq> []) (map (expired_storage (now_sec s)) (storages s))"
    and "triples (expire_storage s) = {x \<in> triples s. now_sec s - 32 * 60 \<le> snd (snd x)}"
    and "storage_frame s (expire_storage s)"
proof -
  let ?kept = "filter (\<lambda>st. st_peers st \<noteq> []) (map (expired_storage (now_sec s)) (storages s))"
  have n: "numstorage s = int (length (storages s))" using assms by (simp add: storages_ok_def)
  have e: "expire_storage s = s\<lparr>storages := ?kept, numstorage := int (length ?kept)\<rparr>"
    unfolding expire_storage_def using expire_storage_loop_filter [of "storages s" "numstorage s" "now_sec s"] n
    by (simp add: Let_def)
  show k: "storages (expire_storage s) = ?kept" by (simp add: e)
  have id: "st_id (expired_storage now st) = st_id st" for now st by (simp add: expired_storage_def)
  have "distinct (map st_id (map (expired_storage (now_sec s)) (storages s)))"
    using assms by (simp add: storages_ok_def id comp_def)
  then have d: "distinct (map st_id ?kept)" by (rule distinct_map_filter)
  have "length ?kept \<le> length (storages s)" using length_filter_le [of _ "map (expired_storage (now_sec s)) (storages s)"] by simp
  then have "int (length ?kept) \<le> int (length (storages s))" by (simp only: of_nat_le_iff)
  then have "int (length ?kept) \<le> DHT_MAX_HASHES" using assms n unfolding storages_ok_def by linarith
  moreover have "\<forall>st \<in> set ?kept. storage_ok st"
    using assms by (auto simp: storages_ok_def intro: expired_storage_ok)
  ultimately show "storages_ok (expire_storage s)"
    using d unfolding storages_ok_def e by simp
  have ent: "entries (expired_storage now st) = {x \<in> entries st. now - 32 * 60 \<le> snd (snd x)}" for now st
    by (auto simp: entries_def expired_storage_def expire_peers_set)
  have emp: "st_peers st = [] \<Longrightarrow> entries st = {}" for st by (simp add: entries_def)
  have "(\<Union>st \<in> set ?kept. entries st) = (\<Union>st \<in> set (storages s). entries (expired_storage (now_sec s) st))"
    using emp by auto
  then show "triples (expire_storage s) = {x \<in> triples s. now_sec s - 32 * 60 \<le> snd (snd x)}"
    unfolding triples_def k by (auto simp: ent)
  show "storage_frame s (expire_storage s)"
    by (rule storage_frameI [where sts = ?kept and n = "int (length ?kept)" and c = "env_calloc s"]) (simp add: e)
qed

section \<open>Rate control\<close>

text \<open>Requests that arrive at the given times, and how many of them are let through.\<close>

fun requests :: "int list \<Rightarrow> dht \<Rightarrow> nat \<times> dht" where
  "requests [] s = (0, s)"
| "requests (t # ts) s =
     (let (ok, s1) = token_bucket (s\<lparr>now_sec := t\<rparr>); (n, s2) = requests ts s1
      in ((if ok then Suc n else n), s2))"

text \<open>A request uses up a token; a refill is paid for with the time since the last one.\<close>

lemma token_bucket_pays:
  assumes "token_bucket (s\<lparr>now_sec := t\<rparr>) = (ok, s')" "0 \<le> token_bucket_tokens s" "token_bucket_time s \<le> t"
  shows "0 \<le> token_bucket_tokens s'" "token_bucket_time s \<le> token_bucket_time s'" "token_bucket_time s' \<le> t"
    and "(if ok then 1 else 0) + token_bucket_tokens s' \<le>
      token_bucket_tokens s + 4 * (token_bucket_time s' - token_bucket_time s)"
    and "token_bucket_tokens s \<le> MAX_TOKEN_BUCKET_TOKENS \<Longrightarrow> token_bucket_tokens s' \<le> MAX_TOKEN_BUCKET_TOKENS"
proof -
  have "to_int32 (min MAX_TOKEN_BUCKET_TOKENS (4 * (t - token_bucket_time s))) =
      min MAX_TOKEN_BUCKET_TOKENS (4 * (t - token_bucket_time s))"
    using assms(3) by (intro to_int32_fits) (auto simp: MAX_TOKEN_BUCKET_TOKENS_def)
  with assms show "0 \<le> token_bucket_tokens s'" "token_bucket_time s \<le> token_bucket_time s'" "token_bucket_time s' \<le> t"
    "(if ok then 1 else 0) + token_bucket_tokens s' \<le>
      token_bucket_tokens s + 4 * (token_bucket_time s' - token_bucket_time s)"
    "token_bucket_tokens s \<le> MAX_TOKEN_BUCKET_TOKENS \<Longrightarrow> token_bucket_tokens s' \<le> MAX_TOKEN_BUCKET_TOKENS"
    by (auto simp: token_bucket_def MAX_TOKEN_BUCKET_TOKENS_def Let_def min_def split: if_splits)
qed

lemma requests_bounded:
  assumes "sorted (token_bucket_time s # ts)" "0 \<le> token_bucket_tokens s" "requests ts s = (n, s')"
  shows "int n + token_bucket_tokens s' \<le>
      token_bucket_tokens s + 4 * (token_bucket_time s' - token_bucket_time s) \<and>
    0 \<le> token_bucket_tokens s' \<and> token_bucket_time s' \<le> last (token_bucket_time s # ts)"
  using assms
proof (induction ts arbitrary: s n s')
  case Nil
  then show ?case by simp
next
  case (Cons t ts)
  obtain ok s1 where b: "token_bucket (s\<lparr>now_sec := t\<rparr>) = (ok, s1)" by fastforce
  obtain m s2 where r: "requests ts s1 = (m, s2)" by fastforce
  have n: "n = (if ok then Suc m else m)" "s' = s2" using Cons.prems(3) b r by auto
  have "token_bucket_time s \<le> t" using Cons.prems(1) by simp
  note pay = token_bucket_pays [OF b Cons.prems(2) this]
  have sorted: "sorted (token_bucket_time s1 # ts)" using Cons.prems(1) pay(3) by auto
  note ih = Cons.IH [OF sorted pay(1) r]
  have "last (token_bucket_time s1 # ts) \<le> last (token_bucket_time s # t # ts)"
    using pay(3) by (cases ts) auto
  then show ?case using ih pay n by auto
qed

lemma requests_negative:
  "token_bucket_tokens s < 0 \<Longrightarrow> int (length ts) \<le> token_bucket_tokens s + 2 ^ 31 \<Longrightarrow>
   fst (requests ts s) = length ts"
proof (induction ts arbitrary: s)
  case (Cons t ts)
  let ?s1 = "s\<lparr>now_sec := t, token_bucket_tokens := token_bucket_tokens s - 1\<rparr>"
  have "token_bucket (s\<lparr>now_sec := t\<rparr>) = (True, ?s1)"
    using Cons.prems by (simp add: token_bucket_def)
  moreover have "fst (requests ts ?s1) = length ts" using Cons.prems by (intro Cons.IH) simp_all
  ultimately show ?case by (simp add: case_prod_beta)
qed simp

section \<open>Properties\<close>

text \<open>C22. The storage refines a map from info hash, address and port to the time of the last
  announcement. Storing a peer sets its entry to the current time and touches no other
  entry, or, when it fails, changes no entry at all; it cannot fail while memory can be
  allocated, the table of hashes is not full and the hash has fewer than 2048 peers. The
  invariant (at most 16384 hashes, at most 2048 peers each within the allocated capacity, no
  duplicates) is kept, and nothing outside the storage changes.\<close>

theorem storage_store_refines_map:
  assumes "storages_ok s" and "id_ok h" and "family_ok (sa_family sa)" and "sa_ok sa"
  shows "let r = storage_store h sa s; key = (h, sa_addr sa, ntohs (sa_port sa))
    in storages_ok (snd r) \<and> storage_frame s (snd r) \<and> fst r \<in> {-1, 0, 1} \<and>
       (fst r = 1 \<longrightarrow> stored s key = None) \<and>
       (\<forall>h' a q. id_ok h' \<longrightarrow> stored (snd r) (h', a, q) =
          (if (h', a, q) = key \<and> (fst r = 1 \<or> stored s key \<noteq> None) then Some (now_sec s)
           else stored s (h', a, q))) \<and>
       ((\<forall>k. env_calloc s k) \<and> numstorage s < DHT_MAX_HASHES \<and>
        (\<forall>st \<in> set (storages s). st_id st = h \<longrightarrow> length (st_peers st) < DHT_MAX_PEERS) \<longrightarrow>
        stored (snd r) key = Some (now_sec s))"
proof -
  let ?r = "storage_store h sa s" and ?ip = "sa_addr sa" and ?port = "ntohs (sa_port sa)"
  have a: "peer_address sa = Some (?ip, length ?ip, ?port)"
    using assms(3,4) by (auto simp: peer_address_def family_ok_def sa_ok_def)
  have n: "announced h (?ip, ?port) ?r s"
    using assms(1,2) a by (rule storage_store_announced)
  then have ok: "storages_ok (snd ?r)" "storage_frame s (snd ?r)" "fst ?r \<in> {-1, 0, 1}"
    by (simp_all add: announced_def Let_def)
  have known: "(\<exists>t. (h, (?ip, ?port), t) \<in> triples s) \<longleftrightarrow> stored s (h, ?ip, ?port) \<noteq> None"
    using stored_iff [OF assms(1,2), of ?ip ?port] by auto
  have eff: "stored (snd ?r) (h', a, q) =
      (if (h', a, q) = (h, ?ip, ?port) \<and> (fst ?r = 1 \<or> stored s (h, ?ip, ?port) \<noteq> None)
       then Some (now_sec s) else stored s (h', a, q))" if "id_ok h'" for h' a q
    using n known stored_iff [OF assms(1) that, of a q]
    by (intro stored_eqI [OF ok(1) that]) (auto simp: announced_def Let_def)
  have "stored (snd ?r) (h, ?ip, ?port) = Some (now_sec s)"
    if "\<forall>k. env_calloc s k" "numstorage s < DHT_MAX_HASHES"
      "\<forall>st \<in> set (storages s). st_id st = h \<longrightarrow> length (st_peers st) < DHT_MAX_PEERS"
    using storage_store_succeeds [OF assms(1,2) a that] known eff [OF assms(2)] by simp
  moreover have "fst ?r = 1 \<longrightarrow> stored s (h, ?ip, ?port) = None"
    using n known by (auto simp: announced_def Let_def)
  ultimately show ?thesis using ok eff by (simp add: Let_def)
qed

definition demo_peer :: sockaddr where
  "demo_peer = \<lparr>sa_family = AF_INET, sa_port = [0x1A, 0xE1], sa_addr = [10, 0, 0, 1], sa_misc = []\<rparr>"

lemma demo_peer_simps [simp]:
  "family_ok (sa_family demo_peer)" "sa_ok demo_peer" "sa_addr demo_peer = [10, 0, 0, 1]"
  "ntohs (sa_port demo_peer) = 0x1AE1"
  by (simp_all add: demo_peer_def family_ok_def sa_ok_def ntohs_def)

lemma demo_storages_ok: "storages_ok demo_dht"
  by (simp add: storages_ok_def demo_dht_def dht_start_def DHT_MAX_HASHES_def)

lemma demo_storage_simps [simp]: "storages demo_dht = []" "numstorage demo_dht = 0" "now_sec demo_dht = 1000"
  by (simp_all add: demo_dht_def dht_start_def)

theorem storage_store_refines_map_witness:
  "storages_ok (snd (storage_store zeroes demo_peer demo_dht)) \<and>
   stored (snd (storage_store zeroes demo_peer demo_dht)) (zeroes, [10, 0, 0, 1], 0x1AE1) = Some 1000"
proof -
  note w = storage_store_refines_map [OF demo_storages_ok length_zeroes demo_peer_simps(1,2),
      unfolded Let_def demo_peer_simps demo_storage_simps]
  have "(\<forall>k. env_calloc demo_dht k) \<and> 0 < DHT_MAX_HASHES \<and>
      (\<forall>st \<in> set []. st_id st = zeroes \<longrightarrow> length (st_peers st) < DHT_MAX_PEERS)"
    by (simp add: DHT_MAX_HASHES_def)
  with w show ?thesis by blast
qed

text \<open>Expiry removes from the map exactly the entries older than 32 minutes, drops the
  hashes that are left without peers, and keeps the invariant, the count of hashes
  included.\<close>

theorem expire_storage_exact:
  assumes "storages_ok s"
  shows "storages_ok (expire_storage s) \<and>
    (\<forall>st \<in> set (storages (expire_storage s)). st_peers st \<noteq> []) \<and>
    (\<forall>h ip port. id_ok h \<longrightarrow> stored (expire_storage s) (h, ip, port) =
       (case stored s (h, ip, port) of
          None \<Rightarrow> None
        | Some t \<Rightarrow> if t < now_sec s - 32 * 60 then None else Some t))"
proof -
  note sp = expire_storage_spec [OF assms]
  have "stored (expire_storage s) (h, ip, port) =
      (case stored s (h, ip, port) of None \<Rightarrow> None | Some t \<Rightarrow> if t < now_sec s - 32 * 60 then None else Some t)"
    if "id_ok h" for h ip port
    by (intro stored_eqI [OF sp(1) that])
      (auto simp: sp(3) stored_iff [OF assms that, symmetric] split: option.split)
  then show ?thesis using sp(1,2) by auto
qed

definition demo_storing :: dht where
  "demo_storing = demo_dht\<lparr>now_sec := 2921, numstorage := 2,
     storages := [\<lparr>st_id = zeroes, st_maxpeers = 2, st_peers = [\<lparr>p_time = 1000, p_ip = [10, 0, 0, 1], p_len = 4, p_port = 1\<rparr>]\<rparr>,
       \<lparr>st_id = replicate 20 1, st_maxpeers = 2, st_peers = [\<lparr>p_time = 1000, p_ip = [10, 0, 0, 1], p_len = 4, p_port = 1\<rparr>,
          \<lparr>p_time = 1001, p_ip = [10, 0, 0, 2], p_len = 4, p_port = 1\<rparr>]\<rparr>]\<rparr>"

lemma demo_storing_ok: "storages_ok demo_storing"
  by (simp add: storages_ok_def storage_ok_def demo_storing_def DHT_MAX_HASHES_def DHT_MAX_PEERS_def
      pkey_def zeroes_def numeral_eq_Suc)

theorem expire_storage_exact_witness:
  "stored (expire_storage demo_storing) (zeroes, [10, 0, 0, 1], 1) = None \<and>
   stored (expire_storage demo_storing) (replicate 20 1, [10, 0, 0, 2], 1) = Some 1001"
proof -
  have "stored demo_storing (zeroes, [10, 0, 0, 1], 1) = Some 1000"
    "stored demo_storing (replicate 20 1, [10, 0, 0, 2], 1) = Some 1001"
    by code_simp+
  moreover have "now_sec demo_storing = 2921" by (simp add: demo_storing_def)
  ultimately show ?thesis using expire_storage_exact [OF demo_storing_ok] by simp
qed

text \<open>C23. A token given to a peer is accepted from that peer, by the node as it is and after
  one change of the secret. Whatever is accepted is the digest of the current or of the
  previous secret with the peer's address and port, so that a token for other secrets is
  refused after two changes unless the digests collide.\<close>

theorem token_lifetime:
  assumes "family_ok (sa_family sa)" and "\<forall>m. TOKEN_SIZE \<le> length (md5 m)"
  shows "\<exists>t. make_token md5 sa False s = Inr t \<and> length t = TOKEN_SIZE \<and>
    token_match md5 t sa s = Inr True \<and> token_match md5 t sa (rotate_secrets s) = Inr True \<and>
    (\<forall>t' s'. token_match md5 t' sa s' =
       Inr (\<exists>key \<in> {secret s', oldsecret s'}.
              t' = take TOKEN_SIZE (md5 (key @ sa_addr sa @ rev (sa_port sa))))) \<and>
    oldsecret (rotate_secrets (rotate_secrets s)) = secret (rotate_secrets s)"
proof -
  let ?d = "\<lambda>key. take TOKEN_SIZE (md5 (key @ sa_addr sa @ rev (sa_port sa)))"
  have len: "length (?d key) = TOKEN_SIZE" for key using assms(2) by simp
  have mk: "make_token md5 sa old s' = Inr (?d (if old then oldsecret s' else secret s'))" for old s'
    using assms(1) by (auto simp: make_token_def family_ok_def dht_hash_def TOKEN_SIZE_def)
  have tm: "token_match md5 t' sa s' = Inr (\<exists>key \<in> {secret s', oldsecret s'}. t' = ?d key)" for t' s'
    using len memcmp_eq_0 [of "?d (secret s')" t'] memcmp_eq_0 [of "?d (oldsecret s')" t']
    by (auto simp: token_match_def mk)
  have old: "oldsecret (rotate_secrets s') = secret s'" for s'
    by (simp add: rotate_secrets_def random_def dht_random_bytes_def Let_def)
  have "token_match md5 (?d (secret s)) sa s = Inr True"
    "token_match md5 (?d (secret s)) sa (rotate_secrets s) = Inr True"
    by (simp_all add: tm old)
  then show ?thesis
    using mk [of False s] len tm old by (intro exI [of _ "?d (secret s)"]) simp
qed

theorem token_lifetime_witness:
  "\<exists>t. make_token (\<lambda>m. m @ replicate 16 0) demo_peer False demo_dht = Inr t \<and> length t = 8 \<and>
     token_match (\<lambda>m. m @ replicate 16 0) t demo_peer (rotate_secrets demo_dht) = Inr True"
  using token_lifetime [of demo_peer "\<lambda>m. m @ replicate 16 0" demo_dht]
  by (auto simp: family_ok_def demo_peer_def TOKEN_SIZE_def)

text \<open>C24. Rate control: while the clock does not go back, the requests let through in any
  period are at most the tokens at its start plus four for every second of it.\<close>

theorem rate_limited:
  assumes "sorted (token_bucket_time s # ts)" and "0 \<le> token_bucket_tokens s"
  shows "int (fst (requests ts s)) \<le>
    token_bucket_tokens s + 4 * (last (token_bucket_time s # ts) - token_bucket_time s)"
  using requests_bounded [OF assms, of "fst (requests ts s)" "snd (requests ts s)"] by simp

theorem rate_limited_witness:
  "int (fst (requests [1, 1, 1, 1, 1, 2] dht_start)) \<le> 8"
  using rate_limited [of dht_start "[1, 1, 1, 1, 1, 2]"] by (simp add: dht_start_def)

text \<open>Rate control ends when the clock goes back: if the tokens are used up and the clock
  shows a time before the last refill, the counter becomes negative and every request from
  then on is let through, whatever its time, as long as the counter stays in its range.\<close>

theorem rate_limit_lost:
  assumes "token_bucket_tokens s = 0" and "t < token_bucket_time s"
    and "int (length ts) < 2 ^ 31 - 4 * (token_bucket_time s - t)"
  shows "fst (requests (t # ts) s) = Suc (length ts)"
proof -
  have "to_int32 (4 * (t - token_bucket_time s)) = 4 * (t - token_bucket_time s)"
    using assms(2,3) by (intro to_int32_fits) simp_all
  moreover have "4 * (t - token_bucket_time s) \<noteq> - (2 ^ 31)" using assms(3) by simp
  ultimately have c: "to_int32 (min MAX_TOKEN_BUCKET_TOKENS (4 * (t - token_bucket_time s))) = 4 * (t - token_bucket_time s)"
    "4 * (t - token_bucket_time s) \<noteq> - (2 ^ 31)"
    using assms(2) by (simp_all add: min_def MAX_TOKEN_BUCKET_TOKENS_def)
  let ?s1 = "s\<lparr>now_sec := t, token_bucket_tokens := 4 * (t - token_bucket_time s) - 1, token_bucket_time := t\<rparr>"
  have "token_bucket (s\<lparr>now_sec := t\<rparr>) = (True, ?s1)"
    using assms c by (simp add: token_bucket_def Let_def)
  moreover have "fst (requests ts ?s1) = length ts" using assms by (intro requests_negative) simp_all
  ultimately show ?thesis by (simp add: case_prod_beta)
qed

theorem rate_limit_lost_witness:
  "fst (requests (99 # replicate 1000 100) (dht_start\<lparr>token_bucket_time := 100\<rparr>)) = 1001"
  using rate_limit_lost [of "dht_start\<lparr>token_bucket_time := 100\<rparr>" 99 "replicate 1000 100"]
  by (simp add: dht_start_def)

end
