(* ===== verification/Dht_Broken.thy ===== *)
theory Dht_Broken
  imports Dht_Store_Props
begin

text \<open>
  What \<open>broken_node\<close> does to a node caught misbehaving: it leaves every search, is marked so
  that the next expiry drops it from the routing table, and its address is put on the list
  of the last ten nodes whose datagrams are ignored.
\<close>

section \<open>Leaving the searches\<close>

lemma flush_loop_absent:
  "x \<notin> sn_id ` set (sr_nodes sr) \<Longrightarrow> id_ok x \<Longrightarrow> \<forall>n \<in> set (sr_nodes sr). id_ok (sn_id n) \<Longrightarrow>
   flush_loop x sr i = sr"
proof (induction x sr i rule: flush_loop.induct)
  case (1 x sr i)
  show ?case
  proof (cases "i < length (sr_nodes sr)")
    case True
    then have m: "sr_nodes sr ! i \<in> set (sr_nodes sr)" by simp
    with "1.prems" have "id_cmp (sn_id (sr_nodes sr ! i)) x \<noteq> 0"
      by (auto simp: id_cmp_zero)
    with 1 True show ?thesis by (subst flush_loop.simps) simp
  qed (simp add: flush_loop.simps)
qed

lemma flush_loop_filter:
  assumes "distinct (map sn_id (sr_nodes sr))" "id_ok x" "\<forall>n \<in> set (sr_nodes sr). id_ok (sn_id n)"
  shows "flush_loop x sr i = sr\<lparr>sr_nodes := take i (sr_nodes sr) @ filter (\<lambda>n. sn_id n \<noteq> x) (drop i (sr_nodes sr))\<rparr>"
  using assms
proof (induction x sr i rule: flush_loop.induct)
  case (1 x sr i)
  let ?ns = "sr_nodes sr"
  show ?case
  proof (cases "i < length ?ns")
    case True
    then have m: "?ns ! i \<in> set ?ns" by simp
    have d: "?ns = take i ?ns @ ?ns ! i # drop (Suc i) ?ns" using True by (rule id_take_nth_drop)
    have dr: "drop i ?ns = ?ns ! i # drop (Suc i) ?ns" using True by (rule Cons_nth_drop_Suc [symmetric])
    show ?thesis
    proof (cases "sn_id (?ns ! i) = x")
      case eq: True
      let ?sr = "flush_search_node i sr"
      have nodes: "sr_nodes ?sr = take i ?ns @ drop (Suc i) ?ns" by (simp add: flush_search_node_def)
      have "distinct (map sn_id (take i ?ns @ ?ns ! i # drop (Suc i) ?ns))" using "1.prems"(1) d by simp
      then have out: "x \<notin> sn_id ` set (take i ?ns @ drop (Suc i) ?ns)" using eq by auto
      have "\<forall>n \<in> set (sr_nodes ?sr). id_ok (sn_id n)"
        using "1.prems"(3) unfolding nodes by (auto dest: in_set_takeD in_set_dropD)
      then have "flush_loop x ?sr (Suc i) = ?sr"
        using out "1.prems"(2) nodes by (intro flush_loop_absent) simp_all
      moreover have "flush_loop x sr i = flush_loop x ?sr (Suc i)"
        using True eq by (subst flush_loop.simps) (simp only: if_True id_cmp_refl simp_thms)
      moreover have "filter (\<lambda>n. sn_id n \<noteq> x) (drop (Suc i) ?ns) = drop (Suc i) ?ns"
        using out by (auto simp: filter_id_conv)
      ultimately show ?thesis using eq by (simp add: flush_search_node_def dr)
    next
      case ne: False
      then have c: "id_cmp (sn_id (?ns ! i)) x \<noteq> 0" using "1.prems"(2,3) m by (simp add: id_cmp_zero)
      have "flush_loop x sr i = flush_loop x sr (Suc i)"
        using True c by (subst flush_loop.simps) (simp only: if_True if_False)
      also have "\<dots> = sr\<lparr>sr_nodes := take (Suc i) ?ns @ filter (\<lambda>n. sn_id n \<noteq> x) (drop (Suc i) ?ns)\<rparr>"
        using 1 True c by simp
      finally show ?thesis using True ne by (simp add: dr take_Suc_conv_app_nth)
    qed
  qed (simp add: flush_loop.simps)
qed

lemma ordered_by_filter: "ordered_by cmp (map f xs) \<Longrightarrow> ordered_by cmp (map f (filter P xs))"
  by (simp add: ordered_by_def sorted_wrt_map sorted_wrt_filter)

definition without :: "byte list \<Rightarrow> search \<Rightarrow> search" where
  "without x sr = sr\<lparr>sr_nodes := filter (\<lambda>n. sn_id n \<noteq> x) (sr_nodes sr)\<rparr>"

lemma search_ok_without: "search_ok sr \<Longrightarrow> search_ok (without x sr)"
  by (auto simp: search_ok_def without_def
      intro: ordered_by_filter order_trans [OF length_filter_le])

lemma search_distinct: "search_ok sr \<Longrightarrow> distinct (map sn_id (sr_nodes sr))"
  using closer_distinct [of "sr_id sr" "map sn_id (sr_nodes sr)"] search_ids_ok [of sr]
  by (auto simp: search_ok_def)

lemma flush_loop_without:
  assumes "search_ok sr" "id_ok x"
  shows "flush_loop x sr 0 = without x sr"
  using flush_loop_filter [OF search_distinct [OF assms(1)] assms(2), of 0] assms(1)
  by (simp add: without_def search_ok_def sentry_ok_def)

section \<open>Leaving the routing table\<close>

definition mark_broken :: "byte list \<Rightarrow> nat \<Rightarrow> dht \<Rightarrow> dht" where
  "mark_broken x af s =
     (case find_node x af s of
        None \<Rightarrow> s
      | Some (i, j) \<Rightarrow> pinged af i j None (upd_node af i j (\<lambda>n. n\<lparr>n_pinged := 3\<rparr>) s))"

lemma upd_node_quiet:
  assumes "core_ok s" "family_ok af" "i < length (table af s)" "j < length (b_nodes (table af s ! i))"
    and "\<And>n. n_id (f n) = n_id n \<and> n_ss (f n) = n_ss n \<and> n_sslen (f n) = n_sslen n"
  shows "quiet s (upd_node af i j f s)"
proof -
  let ?b = "table af s ! i"
  let ?n = "b_nodes ?b ! j"
  have ok: "table_ok af (myid s) (table af s)" using assms(1,2) by (rule core_ok_table)
  have bk: "bucket_ok af (myid s) (firsts (table af s)) i ?b" using ok assms(3) by (rule table_ok_bucket)
  then have nok: "node_ok af (myid s) ?n" using nth_mem [OF assms(4)] by (auto simp: bucket_ok_def nodes_ok_def)
  have "nodes_ok af (myid s) (firsts (table af s)) i ((b_nodes ?b)[j := f ?n])"
    using bk assms(4,5) nok by (intro nodes_ok_upd) (simp_all add: bucket_ok_def node_ok_def)
  then have t: "table_ok af (myid s) (table af (upd_node af i j f s))"
    using ok assms(3) bk by (auto simp: table_upd_node intro!: table_ok_upd simp: bucket_ok_def)
  have "firsts (table af (upd_node af i j f s)) = firsts (table af s)"
    by (simp add: table_upd_node firsts_upd)
  moreover have "node_ids (table af (upd_node af i j f s)) = node_ids (table af s)"
    using assms(3-5) by (intro node_ids_upd [where i = i and j = j and n = "f ?n"])
      (simp_all add: table_upd_node map_update)
  ultimately show ?thesis using assms(1,2) frame_upd_node t by (intro quiet_frame) simp_all
qed

lemma mark_broken_spec:
  assumes "core_ok s" "family_ok af" "id_ok x"
  shows "quiet s (mark_broken x af s)"
    and "in_table (table af (mark_broken x af s)) n \<Longrightarrow> n_id n = x \<Longrightarrow> 4 \<le> n_pinged n"
proof -
  let ?s' = "mark_broken x af s"
  have ok: "table_ok af (myid s) (table af s)" using assms(1,2) by (rule core_ok_table)
  have "quiet s ?s' \<and> (in_table (table af ?s') n \<and> n_id n = x \<longrightarrow> 4 \<le> n_pinged n)"
  proof (cases "find_node x af s")
    case None
    have "\<not> (in_table (table af s) n \<and> n_id n = x)"
    proof
      assume "in_table (table af s) n \<and> n_id n = x"
      then obtain i j where "i < length (table af s)" "j < length (b_nodes (table af s ! i))"
          "n = b_nodes (table af s ! i) ! j" "n_id n = x"
        by (auto simp: in_table_nth in_set_conv_nth)
      then have "find_node x af s = Some (i, j)"
        by (intro find_node_found [OF ok]) (simp_all add: the_node_def)
      with None show False by simp
    qed
    then show ?thesis using None assms(1) by (auto simp add: mark_broken_def quiet_refl)
  next
    case (Some p)
    obtain i j where p: "p = (i, j)" by fastforce
    note f = find_node_index [OF ok assms(3) Some [unfolded p]]
    let ?s1 = "upd_node af i j (\<lambda>n. n\<lparr>n_pinged := 3\<rparr>) s"
    have s': "?s' = pinged af i j None ?s1" by (simp add: mark_broken_def Some p)
    have q1: "quiet s ?s1" using assms(1,2) f(1,2) by (intro upd_node_quiet) simp_all
    then have c1: "core_ok ?s1" by (rule quiet_core)
    have i1: "i < length (table af ?s1)" "j < length (b_nodes (table af ?s1 ! i))"
      using f(1,2) by (simp_all add: table_upd_node)
    have q2: "quiet ?s1 ?s'" unfolding s' using c1 assms(2) i1 by (intro quiet_pinged) simp_all
    let ?n = "the_node af i j s" and ?t' = "table af ?s'"
    let ?m = "?n\<lparr>n_pinged := 4, n_pinged_time := now_sec ?s1\<rparr>"
    have "map b_nodes ?t' = (map b_nodes (table af ?s1))[i := (b_nodes (table af ?s1 ! i))[j := ?m]]"
      using pinged_table(4) [OF core_ok_table [OF c1 assms(2)] i1, of None] f(1,2)
      by (simp add: s' table_upd_node the_node_def)
    then have nodes: "map b_nodes ?t' = (map b_nodes (table af s))[i := (b_nodes (table af s ! i))[j := ?m]]"
      using f(1) by (simp add: table_upd_node map_update)
    have len: "length ?t' = length (table af s)" using arg_cong [OF nodes, of length] by simp
    have bi: "b_nodes (?t' ! i) = (b_nodes (table af s ! i))[j := ?m]"
      using arg_cong [OF nodes, of "\<lambda>xs. xs ! i"] f(1) len by simp
    have at: "the_node af i j ?s' = ?m" using f(2) by (simp add: the_node_def bi)
    have c2: "core_ok ?s'" using q2 by (rule quiet_core)
    have fn: "find_node x af ?s' = Some (i, j)"
      using f len bi at by (intro find_node_found [OF core_ok_table [OF c2 assms(2)]]) simp_all
    have "4 \<le> n_pinged n" if n: "in_table ?t' n" "n_id n = x"
    proof -
      obtain i' j' where ij: "i' < length ?t'" "j' < length (b_nodes (?t' ! i'))" "n = b_nodes (?t' ! i') ! j'"
        using n(1) by (auto simp: in_table_nth in_set_conv_nth)
      then have "find_node x af ?s' = Some (i', j')"
        using n(2) by (intro find_node_found [OF core_ok_table [OF c2 assms(2)]]) (simp_all add: the_node_def)
      with fn ij(3) have "n = the_node af i j ?s'" by (simp add: the_node_def)
      then show ?thesis by (simp add: at)
    qed
    then show ?thesis using quiet_trans [OF q1 q2] by blast
  qed
  then show "quiet s ?s'" "in_table (table af ?s') n \<Longrightarrow> n_id n = x \<Longrightarrow> 4 \<le> n_pinged n" by blast+
qed

section \<open>The whole operation\<close>

definition guard_ok :: "dht \<Rightarrow> bool" where
  "guard_ok s \<longleftrightarrow> length (blacklist s) = DHT_MAX_BLACKLISTED \<and> next_blacklisted s < DHT_MAX_BLACKLISTED"

lemma broken_node_eq:
  assumes "core_ok s" "id_ok x" "family_ok (sa_family sa)"
  shows "broken_node (Some x) sa s =
    (let s1 = mark_broken x (sa_family sa) s
     in s1\<lparr>searches := map (without x) (searches s1),
           blacklist := (blacklist s1)[next_blacklisted s1 := sa],
           next_blacklisted := (next_blacklisted s1 + 1) mod DHT_MAX_BLACKLISTED\<rparr>)"
proof -
  have "core_ok (mark_broken x (sa_family sa) s)"
    using mark_broken_spec(1) [OF assms(1,3,2)] by (rule quiet_core)
  then have "map (\<lambda>sr. flush_loop x sr 0) (searches (mark_broken x (sa_family sa) s)) =
      map (without x) (searches (mark_broken x (sa_family sa) s))"
    using assms(2) by (intro map_cong refl flush_loop_without) (auto simp: core_ok_def searches_ok_def)
  moreover have "(case find_node x (sa_family sa) s of None \<Rightarrow> s
      | Some (i, j) \<Rightarrow> pinged (sa_family sa) i j None
          (upd_node (sa_family sa) i j (\<lambda>n. n\<lparr>n_pinged := 3\<rparr>) s)) = mark_broken x (sa_family sa) s"
    by (simp add: mark_broken_def)
  ultimately show ?thesis by (simp add: broken_node_def Let_def)
qed

lemma broken_node_core:
  assumes "core_ok s" "case ident of None \<Rightarrow> True | Some x \<Rightarrow> id_ok x" "family_ok (sa_family sa)"
  shows "core_ok (broken_node ident sa s)"
proof (cases ident)
  case None
  then show ?thesis
    using assms(1) by (simp add: broken_node_def Let_def core_ok_def tables_ok_def searches_ok_def)
next
  case (Some x)
  then have x: "id_ok x" using assms(2) by simp
  have c: "core_ok (mark_broken x (sa_family sa) s)"
    using mark_broken_spec(1) [OF assms(1,3) x] by (rule quiet_core)
  show ?thesis
    unfolding Some broken_node_eq [OF assms(1) x assms(3)]
    using c by (auto simp: Let_def core_ok_def searches_ok_def tables_ok_def intro: search_ok_without)
qed

text \<open>A broken node is forgotten: no search holds it any more and every other node keeps its
  place; it has the four unanswered requests at which the next expiry removes it from the
  routing table; its address is on the blacklist, which keeps its ten entries. All
  invariants are kept.\<close>

theorem broken_node_forgets:
  assumes "core_ok s" and "id_ok x" and "family_ok (sa_family sa)" and "guard_ok s"
  shows "let s' = broken_node (Some x) sa s; af = sa_family sa
    in core_ok s' \<and> guard_ok s' \<and> sa \<in> set (blacklist s') \<and>
       search_shape s' = map (\<lambda>(i, a, t, ids). (i, a, t, filter (\<lambda>y. y \<noteq> x) ids)) (search_shape s) \<and>
       (\<forall>n. in_table (table af s') n \<and> n_id n = x \<longrightarrow> 4 \<le> n_pinged n) \<and>
       \<not> id_in x (table af (expire_buckets af s'))"
proof -
  let ?af = "sa_family sa"
  let ?s1 = "mark_broken x ?af s" and ?s' = "broken_node (Some x) sa s"
  note sp = mark_broken_spec [OF assms(1,3,2)]
  have core: "core_ok ?s'" using assms by (intro broken_node_core) simp_all
  have e: "?s' = ?s1\<lparr>searches := map (without x) (searches ?s1),
      blacklist := (blacklist ?s1)[next_blacklisted ?s1 := sa],
      next_blacklisted := (next_blacklisted ?s1 + 1) mod DHT_MAX_BLACKLISTED\<rparr>"
    using broken_node_eq [OF assms(1-3)] by (simp add: Let_def)
  have c: "calm s ?s1" using sp(1) by (rule quiet_calm)
  then have b: "blacklist ?s1 = blacklist s" "next_blacklisted ?s1 = next_blacklisted s"
      "search_shape ?s1 = search_shape s"
    by (simp_all add: calm_def)
  have tb: "table ?af ?s' = table ?af ?s1" by (cases "?af = AF_INET") (simp_all add: e table_def)
  have g: "guard_ok ?s'" "sa \<in> set (blacklist ?s')"
    using assms(4) by (simp_all add: e b guard_ok_def DHT_MAX_BLACKLISTED_def set_update_memI)
  have "search_shape ?s' = map (\<lambda>(i, a, t, ids). (i, a, t, filter (\<lambda>y. y \<noteq> x) ids)) (search_shape ?s1)"
    by (simp add: e search_shape_def without_def filter_map comp_def)
  moreover have four: "4 \<le> n_pinged n" if "in_table (table ?af ?s') n" "n_id n = x" for n
    using sp(2) that by (simp add: tb)
  moreover have "\<not> id_in x (table ?af (expire_buckets ?af ?s'))"
  proof
    assume "id_in x (table ?af (expire_buckets ?af ?s'))"
    then obtain ns n where n: "ns \<in> set (map b_nodes (table ?af (expire_buckets ?af ?s')))" "n \<in> set ns" "n_id n = x"
      by (auto simp: id_in_def in_table_def)
    then have "in_table (table ?af ?s') n" "n_pinged n < 4"
      unfolding expire_buckets_table(4) [OF core_ok_table [OF core assms(3)]]
      by (auto simp: in_table_def)
    with four n(3) show False by fastforce
  qed
  ultimately show ?thesis using core g b(3) by (simp add: Let_def)
qed

lemma demo_guard_ok: "guard_ok demo_searching"
  by (simp add: guard_ok_def demo_searching_def demo_dht_def dht_start_def DHT_MAX_BLACKLISTED_def)

theorem broken_node_forgets_witness:
  "let s' = broken_node (Some (n_id (demo_node 3))) demo_peer demo_searching
   in core_ok s' \<and> demo_peer \<in> set (blacklist s') \<and>
      \<not> id_in (n_id (demo_node 3)) (table AF_INET (expire_buckets AF_INET s'))"
proof -
  have "id_ok (n_id (demo_node 3))" by (simp add: demo_node_def)
  moreover have "sa_family demo_peer = AF_INET" by (simp add: demo_peer_def)
  ultimately show ?thesis
    using broken_node_forgets [OF demo_searching_ok _ _ demo_guard_ok, of "n_id (demo_node 3)" demo_peer]
    by (simp add: Let_def family_ok_def)
qed

end
