(* ===== verification/Dht_Run.thy ===== *)
theory Dht_Run
  imports Dht_Broken Dht_Msg
begin

text \<open>
  The node at work: starting and stopping it, what it does with a datagram, and the periodic
  maintenance (\<open>dht_init\<close>, \<open>dht_uninit\<close>, \<open>dht_periodic\<close> and the functions they call).

  What the system calls return is an input of a run of \<open>dht_periodic\<close>: the time, the two
  \<open>recvfrom\<close>, the heap around the parser's blocks. The local variable \<open>rc\<close> of
  \<open>dht_periodic\<close> is read but never written, so its value is an input too (\<open>in_junk\<close>).
\<close>

section \<open>Maintenance\<close>

text \<open>
  The choice both maintenance functions make: the bucket itself, or its neighbours, when it
  is empty and sometimes otherwise.
\<close>

definition pick_bucket :: "nat \<Rightarrow> nat \<Rightarrow> dht \<Rightarrow> nat \<times> dht" where
  "pick_bucket af i s =
     (let bs = table af s;
          (q1, s1) =
            (if Suc i < length bs
             then if b_count (bs ! i) = 0 then (Suc i, s)
                  else let (r, s') = random s in (if r mod 8 = 0 then Suc i else i, s')
             else (i, s));
          (try_previous, s2) =
            (if b_count (bs ! q1) = 0 then (True, s1)
             else let (r, s') = random s1 in (r mod 8 = 0, s'))
      in (if try_previous
          then case previous_bucket af i s2 of
                 None \<Rightarrow> q1
               | Some r \<Rightarrow> if 0 < b_count (bs ! r) then r else q1
          else q1, s2))"

definition ask_find_node :: "nat \<Rightarrow> nat \<Rightarrow> nat \<Rightarrow> byte list \<Rightarrow> int \<Rightarrow> dht \<Rightarrow> dht" where
  "ask_find_node af q j ident want s =
     (let n = the_node af q j s;
          s1 = snd (send_find_node (n_ss n) (n_sslen n) (make_tid ''fn'' 0) ident want
                      (now_sec s - 15 \<le> n_reply_time n) s)
      in pinged af q j (Some q) s1)"

definition neighbourhood_maintenance :: "nat \<Rightarrow> dht \<Rightarrow> bool \<times> dht" where
  "neighbourhood_maintenance af s =
     (case find_bucket (myid s) af s of
        None \<Rightarrow> (False, s)
      | Some i \<Rightarrow>
          let (r, s1) = random s;
              ident = (myid s)[19 := of_nat (r mod 256)];
              (q, s2) = pick_bucket af i s1;
              want = (if 0 \<le> dht_socket s \<and> 0 \<le> dht_socket6 s then WANT4 OR WANT6 else -1);
              (n, s3) = random_node (table af s2 ! q) s2
          in (True, case n of None \<Rightarrow> s3 | Some j \<Rightarrow> ask_find_node af q j ident want s3))"

definition maintenance_want :: "nat \<Rightarrow> byte list \<Rightarrow> dht \<Rightarrow> int \<times> dht" where
  "maintenance_want af ident s =
     (if 0 \<le> dht_socket s \<and> 0 \<le> dht_socket6 s
      then
        let other = (if af = AF_INET then AF_INET6 else AF_INET)
        in case find_bucket ident other s of
             Some k \<Rightarrow>
               if b_count (table other s ! k) < 8 then (WANT4 OR WANT6, s)
               else let (r, s1) = random s in (if r mod 37 = 0 then WANT4 OR WANT6 else -1, s1)
           | None \<Rightarrow> let (r, s1) = random s in (if r mod 37 = 0 then WANT4 OR WANT6 else -1, s1)
      else (-1, s))"

text \<open>The loop over the buckets still to visit; it stops at the first query sent.\<close>

fun bucket_maintenance_loop :: "nat \<Rightarrow> nat list \<Rightarrow> dht \<Rightarrow> bool \<times> dht" where
  "bucket_maintenance_loop af [] s = (False, s)"
| "bucket_maintenance_loop af (i # is) s =
     (if b_time (table af s ! i) < now_sec s - 600
      then
        let (ident, s1) = bucket_random (table af s) i s;
            (q, s2) = pick_bucket af i s1;
            (n, s3) = random_node (table af s2 ! q) s2
        in case n of
             None \<Rightarrow> bucket_maintenance_loop af is s3
           | Some j \<Rightarrow>
               let (want, s4) = maintenance_want af ident s3
               in (True, ask_find_node af q j ident want s4)
      else bucket_maintenance_loop af is s)"

definition bucket_maintenance :: "nat \<Rightarrow> dht \<Rightarrow> bool \<times> dht" where
  "bucket_maintenance af s = bucket_maintenance_loop af [0..<length (table af s)] s"

section \<open>Handling a message\<close>

definition handle_query :: "dht_message \<Rightarrow> dht \<Rightarrow> int \<times> dht" where
  "handle_query m s = (if m_type m = DHT_MSG_QUERY then (0, s) else (0, die Assert_Fail s))"

text \<open>\<^verbatim>\<open>obj->as.bstr\<close> of a looked-up value: reading it from another type confuses the union.\<close>

definition bytes_of :: "bobj option \<Rightarrow> byte list option res" where
  "bytes_of x =
     (case x of
        None \<Rightarrow> Inr None
      | Some (BENC_BSTR t) \<Rightarrow> Inr (Some t)
      | Some _ \<Rightarrow> Inl Type_Confusion)"

definition on_res :: "'a res \<Rightarrow> dht \<Rightarrow> ('a \<Rightarrow> int \<times> dht) \<Rightarrow> int \<times> dht" where
  "on_res r s k = (case r of Inl f \<Rightarrow> (0, die f s) | Inr x \<Rightarrow> k x)"

definition compact_entries :: "nat \<Rightarrow> byte list \<Rightarrow> byte list list" where
  "compact_entries len bytes = map (\<lambda>i. take len (drop (i * len) bytes)) [0..<length bytes div len]"

definition compact_sockaddr :: "nat \<Rightarrow> byte list \<Rightarrow> sockaddr" where
  "compact_sockaddr af ni =
     (if af = AF_INET
      then \<lparr>sa_family = AF_INET, sa_port = take 2 (drop 24 ni), sa_addr = take 4 (drop 20 ni),
            sa_misc = replicate 8 0\<rparr>
      else \<lparr>sa_family = AF_INET6, sa_port = take 2 (drop 36 ni), sa_addr = take 16 (drop 20 ni),
            sa_misc = replicate 8 0\<rparr>)"

text \<open>The loops over the nodes of a reply; \<open>k\<close> is the search the reply belongs to.\<close>

definition learn_entry :: "nat \<Rightarrow> nat option \<Rightarrow> byte list \<Rightarrow> dht \<Rightarrow> dht" where
  "learn_entry af k ni s =
     (let ident = take 20 ni; sa = compact_sockaddr af ni; salen = (if af = AF_INET then 16 else 28)
      in if id_cmp ident (myid s) = 0 then s
         else
           let s1 = snd (new_node ident sa salen 0 s)
           in case k of
                None \<Rightarrow> s1
              | Some k' \<Rightarrow>
                  if sr_af (searches s1 ! k') = af
                  then upd_search k' (\<lambda>sr. snd (insert_search_node (now_sec s) ident sa salen False None sr)) s1
                  else s1)"

text \<open>
  What is left when the reply belongs to search \<open>k\<close>: another request, the replying node, the
  values. The debug print looks into both values, whether they are there or not.
\<close>

definition reply_values :: "bobj \<Rightarrow> (byte list option \<times> byte list option) res" where
  "reply_values r =
     rbind (bobj_dict_lookup r (ascii ''values'')) (\<lambda>values.
     rbind (bobj_dict_lookup r (ascii ''values6'')) (\<lambda>values6.
       if values = None \<and> values6 = None then Inr (None, None)
       else if values = None \<or> values6 = None then Inl Null_Deref
       else rbind (bytes_of values) (\<lambda>v. rbind (bytes_of values6) (\<lambda>v6. Inr (v, v6)))))"

definition search_reply ::
    "nat \<Rightarrow> dht_message \<Rightarrow> byte list \<Rightarrow> byte list \<Rightarrow> sockaddr \<Rightarrow> int \<Rightarrow> bool \<Rightarrow> dht \<Rightarrow> int \<times> dht" where
  "search_reply k m ident token source sourcelen callback s =
     (let s1 = snd (search_send_get_peers k None s);
          s2 = upd_search k
                 (\<lambda>sr. snd (insert_search_node (now_sec s) ident source sourcelen True (Some token) sr)) s1
      in case m_r m of
           None \<Rightarrow> (0, die Null_Deref s2)
         | Some r \<Rightarrow>
             on_res (reply_values r) s2 (\<lambda>(v, v6).
               let hash = sr_id (searches s2 ! k);
                   tell = (\<lambda>kind v s. case v of None \<Rightarrow> s | Some d \<Rightarrow> log_event kind hash d s)
               in (1, if callback then tell DHT_EVENT_VALUES6 v6 (tell DHT_EVENT_VALUES v s2) else s2)))"

text \<open>
  The part of the handler for replies with nodes. The lengths of missing lists are not
  initialised; the debug print reads them.
\<close>

definition nodes_reply ::
    "dht_message \<Rightarrow> bobj \<Rightarrow> byte list \<Rightarrow> sockaddr \<Rightarrow> int \<Rightarrow> bool \<Rightarrow> dht \<Rightarrow> int \<times> dht" where
  "nodes_reply m a ident source sourcelen callback s =
     on_res (bobj_dict_lookup a (ascii ''nodes'')) s (\<lambda>nodes_obj.
     on_res (bobj_dict_lookup a (ascii ''nodes6'')) s (\<lambda>nodes6_obj.
       if nodes_obj = None \<and> nodes6_obj = None then (0, broken_node (Some ident) source s)
       else
         on_res (bytes_of nodes_obj) s (\<lambda>nodes.
         on_res (bytes_of nodes6_obj) s (\<lambda>nodes6.
           let gp = tid_match (m_t m) ''gp'';
               sr = (case gp of None \<Rightarrow> None | Some ttid \<Rightarrow> find_search ttid (sa_family source) s)
           in on_res (if sr = None then Inr None else bobj_dict_lookup a (ascii ''token'')) s (\<lambda>token_obj.
             if sr \<noteq> None \<and> token_obj = None then (0, broken_node (Some ident) source s)
             else
               case (nodes, nodes6) of
                 (Some ns, Some ns6) \<Rightarrow>
                   if length ns mod 26 \<noteq> 0 \<or> length ns6 mod 38 \<noteq> 0
                   then (0, broken_node (Some ident) source s)
                   else if gp \<noteq> None \<and> sr = None
                   then (0, snd (new_node ident source sourcelen 1 s))
                   else
                     let s1 = snd (new_node ident source sourcelen 2 s);
                         s2 = fold (learn_entry AF_INET sr) (compact_entries 26 ns) s1;
                         s3 = fold (learn_entry AF_INET6 sr) (compact_entries 38 ns6) s2
                     in (case sr of
                           None \<Rightarrow> (1, s3)
                         | Some k \<Rightarrow>
                             on_res (bytes_of token_obj) s3 (\<lambda>token.
                               case token of
                                 None \<Rightarrow> (0, die Null_Deref s3)
                               | Some t \<Rightarrow> search_reply k m ident t source sourcelen callback s3))
               | _ \<Rightarrow> (0, die Uninitialised s))))))"

text \<open>
  The handler. A reply to a ping is learnt under the transaction identifier, of which only
  4 bytes are allocated, in place of the node's identifier; replies with nodes look for them
  in \<^verbatim>\<open>msg->a\<close>, which a response does not have.
\<close>

definition handle_response ::
    "dht_message \<Rightarrow> sockaddr \<Rightarrow> int \<Rightarrow> bool \<Rightarrow> dht \<Rightarrow> int \<times> dht" where
  "handle_response m source sourcelen callback s =
     (if m_type m \<noteq> DHT_MSG_RESPONSE then (0, die Assert_Fail s)
      else if m_t_len m \<noteq> 4 then (0, broken_node (m_arg_id m) source s)
      else if tid_match (m_t m) ''pn'' \<noteq> None
      then if length (m_t m) < 20 then (0, die Out_Of_Bounds s)
           else (1, snd (new_node (take 20 (m_t m)) source sourcelen 2 s))
      else if tid_match (m_t m) ''fn'' = None \<and> tid_match (m_t m) ''gp'' = None
      then (0, die Assert_Fail s)
      else case (m_a m, m_arg_id m) of
             (Some a, Some ident) \<Rightarrow> nodes_reply m a ident source sourcelen callback s
           | _ \<Rightarrow> (0, die Null_Deref s))"

section \<open>Receiving\<close>

text \<open>
  What a call of \<open>recvfrom\<close> leaves behind: its result, the bytes, the address and its length,
  and whether \<open>errno\<close> then is \<open>EAGAIN\<close>.
\<close>

record recv =
  rv_rc :: int
  rv_buf :: "byte list"
  rv_from :: sockaddr
  rv_fromlen :: nat
  rv_again :: bool

record input =
  in_now :: int
  in_available :: bool
  in_junk :: int
  in_recv :: recv
  in_recv6 :: recv
  in_heap :: heap

definition received_datagram :: "recv \<Rightarrow> (byte list \<times> sockaddr \<times> nat) option" where
  "received_datagram r =
     (if rv_rc r < 0 \<or> 128 < rv_fromlen r then None
      else Some (take (nat (rv_rc r)) (rv_buf r), rv_from r, rv_fromlen r))"

text \<open>\<open>Inl\<close> is an early return; \<open>Inr None\<close> the jump to \<^verbatim>\<open>dontread\<close>.\<close>

definition receive :: "input \<Rightarrow> dht \<Rightarrow> int + (byte list \<times> sockaddr \<times> nat) option" where
  "receive inp s =
     (if 0 \<le> dht_socket s \<and> in_junk inp < 0 \<and> \<not> rv_again (in_recv inp)
      then Inl (rv_rc (in_recv inp))
      else if 0 \<le> dht_socket6 s \<and> in_junk inp < 0
      then if \<not> rv_again (in_recv6 inp) then Inl (rv_rc (in_recv6 inp))
           else Inr (received_datagram (in_recv6 inp))
      else if 0 \<le> dht_socket s then Inr (received_datagram (in_recv inp))
      else Inr None)"

text \<open>
  The bytes of an address in a structure of 128 bytes: in IPv6 the flow information stands
  before the address, the scope behind it. The comparison with a blacklist entry covers
  \<open>sourcelen\<close> bytes, none when that is 0.
\<close>

definition storage_bytes :: "sockaddr \<Rightarrow> byte list" where
  "storage_bytes sa =
     (let body = (if sa_family sa = AF_INET6 then take 4 (sa_misc sa) @ sa_addr sa @ drop 4 (sa_misc sa)
                  else sa_addr sa @ sa_misc sa);
          bytes = [of_nat (sa_family sa), of_nat (sa_family sa div 256)] @ sa_port sa @ body
      in take 128 (bytes @ replicate 128 0))"

definition blacklisted :: "sockaddr \<Rightarrow> nat \<Rightarrow> dht \<Rightarrow> bool" where
  "blacklisted source sourcelen s \<longleftrightarrow>
     (\<exists>b \<in> set (blacklist s). take sourcelen (storage_bytes b) = take sourcelen (storage_bytes source))"

definition handle_message :: "dht_message \<Rightarrow> sockaddr \<Rightarrow> nat \<Rightarrow> dht \<Rightarrow> dht" where
  "handle_message m source sourcelen s =
     (case m_arg_id m of
        None \<Rightarrow> die Null_Deref s
      | Some ident \<Rightarrow>
          if id_cmp ident (myid s) = 0 then s
          else
            let (ok, s1) = (if m_type m \<noteq> DHT_MSG_RESPONSE then token_bucket s else (True, s))
            in if \<not> ok then s1
               else if m_type m = DHT_MSG_RESPONSE
               then snd (handle_response m source (int sourcelen) False s1)
               else if m_type m = DHT_MSG_QUERY then snd (handle_query m s1)
               else s1)"

definition handle_datagram :: "heap \<Rightarrow> byte list \<Rightarrow> sockaddr \<Rightarrow> nat \<Rightarrow> dht \<Rightarrow> dht" where
  "handle_datagram h bytes source sourcelen s =
     (if is_martian source \<or> blacklisted source sourcelen s then s
      else if 1536 \<le> length bytes then s
      else case dht_message_parse h (bytes @ [0]) (length bytes) of
             Inl f \<Rightarrow> die f s
           | Inr None \<Rightarrow> s
           | Inr (Some m) \<Rightarrow> handle_message m source sourcelen s)"

section \<open>The periodic part\<close>

definition expire_stuff :: "dht \<Rightarrow> dht" where
  "expire_stuff s =
     expire_searches (expire_storage (expire_buckets AF_INET6 (expire_buckets AF_INET s)))"

definition step_if_due :: "bool \<Rightarrow> nat \<Rightarrow> dht \<Rightarrow> dht" where
  "step_if_due callback k s =
     (let sr = searches s ! k
      in if \<not> sr_done sr \<and> sr_step_time sr + 5 \<le> now_sec s then search_step k callback s else s)"

text \<open>The time of the next search step, over the searches still to visit.\<close>

fun schedule_loop :: "search list \<Rightarrow> dht \<Rightarrow> dht" where
  "schedule_loop [] s = s"
| "schedule_loop (sr # srs) s =
     schedule_loop srs
       (if sr_done sr then s
        else
          let (r, s1) = random s; tm = sr_step_time sr + 15 + int (r mod 10)
          in if search_time s1 = 0 \<or> tm < search_time s1 then s1\<lparr>search_time := tm\<rparr> else s1)"

definition run_searches :: "bool \<Rightarrow> dht \<Rightarrow> dht" where
  "run_searches callback s =
     (if 0 < search_time s \<and> search_time s \<le> now_sec s
      then let s1 = fold (step_if_due callback) [0..<length (searches s)] s
           in schedule_loop (searches s1) (s1\<lparr>search_time := 0\<rparr>)
      else s)"

definition confirm_nodes :: "dht \<Rightarrow> dht" where
  "confirm_nodes s =
     (if confirm_nodes_time s \<le> now_sec s
      then
        let (soon4, s1) = bucket_maintenance AF_INET s;
            (soon6, s2) = bucket_maintenance AF_INET6 s1;
            soon = (soon4 \<or> soon6);
            (n4, s3) = (if \<not> soon \<and> now_sec s2 - 150 \<le> mybucket_grow_time s2
                        then neighbourhood_maintenance AF_INET s2 else (False, s2));
            (n6, s4) = (if \<not> soon \<and> now_sec s3 - 150 \<le> mybucket6_grow_time s3
                        then neighbourhood_maintenance AF_INET6 s3 else (False, s3));
            (r, s5) = random s4
        in s5\<lparr>confirm_nodes_time := now_sec s5 +
                (if soon \<or> n4 \<or> n6 then 5 + int (r mod 20) else 60 + int (r mod 120))\<rparr>
      else s)"

definition sleep_time :: "dht \<Rightarrow> int" where
  "sleep_time s =
     (let t = (if now_sec s < confirm_nodes_time s then confirm_nodes_time s - now_sec s else 0)
      in if 0 < search_time s
         then if search_time s \<le> now_sec s then 0
              else if search_time s - now_sec s < t then search_time s - now_sec s else t
         else t)"

text \<open>All that follows the label \<^verbatim>\<open>dontread\<close>.\<close>

definition tick :: "bool \<Rightarrow> dht \<Rightarrow> dht" where
  "tick callback s =
     (let s1 = (if rotate_secrets_time s \<le> now_sec s then rotate_secrets s else s);
          s2 = (if expire_stuff_time s1 \<le> now_sec s1 then expire_stuff s1 else s1)
      in confirm_nodes (run_searches callback s2))"

text \<open>
  The result, the time to sleep (none is written on an early return) and the new state. A
  fault while the datagram is handled ends the process.
\<close>

definition dht_periodic :: "input \<Rightarrow> bool \<Rightarrow> dht \<Rightarrow> int \<times> int option \<times> dht" where
  "dht_periodic inp callback s =
     (let s0 = s\<lparr>now_sec := in_now inp\<rparr>;
          go_on = (\<lambda>s'. let s'' = tick callback s' in (1, Some (sleep_time s''), s''))
      in if in_available inp
         then case receive inp s0 of
                Inl rc \<Rightarrow> (rc, None, s0)
              | Inr None \<Rightarrow> go_on s0
              | Inr (Some (bytes, source, sourcelen)) \<Rightarrow>
                  let s1 = handle_datagram (in_heap inp) bytes source sourcelen s0
                  in if died s1 \<noteq> None then (0, None, s1) else go_on s1
         else go_on s0)"

section \<open>Starting and stopping\<close>

text \<open>The results of the two \<open>fcntl\<close> calls.\<close>

definition set_nonblocking :: "int \<Rightarrow> int \<Rightarrow> int" where
  "set_nonblocking getfl setfl = (if getfl < 0 then -1 else if setfl < 0 then -1 else 0)"

definition zero_bucket :: "nat \<Rightarrow> bucket" where
  "zero_bucket af = \<lparr>b_af = af, b_first = zeroes, b_count = 0, b_time = 0, b_nodes = [],
     b_cached = no_sockaddr, b_cachedlen = 0\<rparr>"

text \<open>
  The bucket of one family: \<open>Inl\<close> is a failure with its state. A failed \<open>set_nonblocking\<close>
  frees the buckets of IPv4 only.
\<close>

definition init_family :: "nat \<Rightarrow> int \<Rightarrow> int \<Rightarrow> dht \<Rightarrow> dht + dht" where
  "init_family af sock nonblocking s =
     (if 0 \<le> sock
      then let (ok, s1) = calloc s
           in if \<not> ok then Inl s1
              else let s2 = set_table af [zero_bucket af] s1
                   in if nonblocking < 0 then Inl (s2\<lparr>buckets := []\<rparr>) else Inr s2
      else Inr s)"

definition dht_init ::
    "int \<Rightarrow> int \<Rightarrow> byte list \<Rightarrow> byte list option \<Rightarrow> int \<Rightarrow> int \<Rightarrow> int \<Rightarrow> dht \<Rightarrow> int \<times> dht" where
  "dht_init sock sock6 ident v nonblocking nonblocking6 now s =
     (if 0 \<le> dht_socket s \<or> 0 \<le> dht_socket6 s \<or> buckets s \<noteq> [] \<or> buckets6 s \<noteq> [] then (-1, s)
      else
        case init_family AF_INET sock nonblocking
               (s\<lparr>searches := [], numsearches := 0, storages := [], numstorage := 0\<rparr>) of
          Inl s1 \<Rightarrow> (-1, s1)
        | Inr s1 \<Rightarrow>
            case init_family AF_INET6 sock6 nonblocking6 s1 of
              Inl s2 \<Rightarrow> (-1, s2)
            | Inr s2 \<Rightarrow>
                let s3 = (case v of
                            None \<Rightarrow> s2\<lparr>myid := ident, have_v := False\<rparr>
                          | Some x \<Rightarrow> s2\<lparr>myid := ident, my_v := ascii ''1:v4:'' @ take 4 x, have_v := True\<rparr>);
                    (r, s4) = random (s3\<lparr>now_sec := now, mybucket_grow_time := now, mybucket6_grow_time := now\<rparr>);
                    (r', s5) = random (s4\<lparr>confirm_nodes_time := now + int (r mod 3)\<rparr>);
                    s6 = rotate_secrets
                           (s5\<lparr>search_id := of_nat r', search_time := 0, next_blacklisted := 0,
                              token_bucket_time := now, token_bucket_tokens := MAX_TOKEN_BUCKET_TOKENS,
                              secret := replicate 8 0\<rparr>)
                in (1, expire_buckets AF_INET6 (expire_buckets AF_INET
                         (s6\<lparr>dht_socket := sock, dht_socket6 := sock6\<rparr>))))"

definition dht_uninit :: "bool \<Rightarrow> dht \<Rightarrow> int \<times> dht" where
  "dht_uninit dofree s =
     (if dht_socket s < 0 then (-1, s)
      else if \<not> dofree then (1, s)
      else (1, s\<lparr>buckets := [], storages := [], searches := []\<rparr>))"

end
