(* ===== verification/Dht_Run_Props.thy ===== *)
theory Dht_Run_Props
  imports Dht_Run Dht_Msg_Props
begin

text \<open>
  The node at work keeps its invariants: lemmas on the maintenance, on the handling of a
  datagram, on \<open>dht_init\<close> and on \<open>dht_periodic\<close>; and what a node in operation can and
  cannot come to.
\<close>

section \<open>Drawing random numbers\<close>

definition draws :: "dht \<Rightarrow> dht \<Rightarrow> bool" where
  "draws s s' \<longleftrightarrow> s' = s\<lparr>env_random := env_random s'\<rparr>"

lemma draws_refl [simp]: "draws s s"
  by (simp add: draws_def)

lemma draws_trans:
  assumes "draws s s'" "draws s' s''"
  shows "draws s s''"
proof -
  have "s'' = s'\<lparr>env_random := env_random s''\<rparr>" "s' = s\<lparr>env_random := env_random s'\<rparr>"
    using assms by (simp_all only: draws_def [symmetric])
  then have "s'' = s\<lparr>env_random := env_random s'\<rparr>\<lparr>env_random := env_random s''\<rparr>" by simp
  then show ?thesis by (simp add: draws_def)
qed

lemma draws_random: "random s = (r, s') \<Longrightarrow> draws s s'"
  by (auto simp: random_def draws_def)

lemma draws_eq:
  assumes "draws s s'"
  shows "table af s' = table af s" "now_sec s' = now_sec s" "searches s' = searches s"
proof -
  obtain e where "s' = s\<lparr>env_random := e\<rparr>" using assms unfolding draws_def by blast
  then show "table af s' = table af s" "now_sec s' = now_sec s" "searches s' = searches s"
    by (simp_all add: table_def)
qed

lemma draws_octets: "random_octets n s = (bs, s') \<Longrightarrow> draws s s'"
  by (induction n arbitrary: s bs s') (auto split: prod.splits intro: draws_trans draws_random)

lemma draws_bucket_random: "bucket_random bs i s = (x, s') \<Longrightarrow> draws s s'"
  by (auto simp: bucket_random_def Let_def split: if_splits prod.splits
      intro: draws_trans draws_random draws_octets)

lemma draws_random_node:
  assumes "random_node b s = (j, s')"
  shows "draws s s'" and "j = Some i \<Longrightarrow> i < length (b_nodes b)"
  using assms by (auto simp: random_node_def Let_def split: if_splits prod.splits intro: draws_random)

lemma draws_pick_bucket:
  assumes "i < length (table af s)" "pick_bucket af i s = (q, s')"
  shows "draws s s' \<and> q < length (table af s)"
proof -
  let ?bs = "table af s"
  obtain q1 s1 where 1: "(if Suc i < length ?bs
       then if b_count (?bs ! i) = 0 then (Suc i, s)
            else let (r, s') = random s in (if r mod 8 = 0 then Suc i else i, s')
       else (i, s)) = (q1, s1)" by fastforce
  obtain tp s2 where 2: "(if b_count (?bs ! q1) = 0 then (True, s1)
       else let (r, s') = random s1 in (r mod 8 = 0, s')) = (tp, s2)" by fastforce
  have d1: "draws s s1" "q1 < length ?bs"
    using 1 assms(1) by (auto split: if_splits prod.splits intro: draws_random)
  have d2: "draws s1 s2" using 2 by (auto split: if_splits prod.splits intro: draws_random)
  have d: "draws s s2" using d1(1) d2 by (rule draws_trans)
  have prev: "r < length ?bs" if "previous_bucket af i s2 = Some r" for r
    using that previous_bucket_eq [of i af s2] assms(1) draws_eq(1) [OF d, of af] by (auto split: if_splits)
  have "pick_bucket af i s = (if tp
      then case previous_bucket af i s2 of None \<Rightarrow> q1
           | Some r \<Rightarrow> if 0 < b_count (?bs ! r) then r else q1 else q1, s2)"
    using 1 2 by (simp add: pick_bucket_def)
  then show ?thesis using assms(2) d d1(2) prev by (auto split: option.splits if_splits)
qed

lemma draws_maintenance_want: "maintenance_want af x s = (w, s') \<Longrightarrow> draws s s'"
  by (auto simp: maintenance_want_def Let_def split: if_splits prod.splits option.splits
      intro: draws_random)

section \<open>Upkeep of a table\<close>

definition upkeep :: "nat \<Rightarrow> dht \<Rightarrow> dht \<Rightarrow> bool" where
  "upkeep af s s' \<longleftrightarrow> quiet s s' \<and> frame af s s'"

lemma upkeep_refl: "core_ok s \<Longrightarrow> upkeep af s s"
  by (simp add: upkeep_def quiet_refl)

lemma upkeep_trans: "upkeep af s s' \<Longrightarrow> upkeep af s' s'' \<Longrightarrow> upkeep af s s''"
  unfolding upkeep_def using quiet_trans frame_trans by blast

lemma upkeep_core: "upkeep af s s' \<Longrightarrow> core_ok s'"
  unfolding upkeep_def by (blast intro: quiet_core)

lemma upkeep_draws:
  assumes "core_ok s" "draws s s'"
  shows "upkeep af s s'"
proof -
  obtain e where "s' = s\<lparr>env_random := e\<rparr>" using assms(2) unfolding draws_def by blast
  then show ?thesis
    using assms(1) by (simp add: upkeep_def quiet_def calm_def core_ok_def tables_ok_def searches_ok_def
        search_shape_def timers_def frame_def outside_def table_def)
qed

lemma upkeep_eq:
  assumes "upkeep af s s'"
  shows "now_sec s' = now_sec s" "myid s' = myid s" "searches s' = searches s"
    "length (table af s') = length (table af s)"
proof -
  have f: "frame af s s'" and q: "calm s s'" using assms by (simp_all add: upkeep_def quiet_def)
  show "now_sec s' = now_sec s" "myid s' = myid s" "searches s' = searches s"
    using frame_eq [OF f] by simp_all
  have "node_ids (table af s') = node_ids (table af s)" using q by (simp add: calm_def table_def)
  then have "length (node_ids (table af s')) = length (node_ids (table af s))" by (rule arg_cong)
  then show "length (table af s') = length (table af s)" by (simp add: node_ids_def)
qed

lemma upkeep_sent:
  assumes "core_ok s" "salen \<noteq> 0"
  shows "upkeep af s (snd (send_or_fail m fl sa salen s))"
proof -
  obtain x where "snd (send_or_fail m fl sa salen s) = s\<lparr>sent := x\<rparr>"
    using send_or_fail_sent [OF assms(2)] by blast
  then show ?thesis using quiet_sent [OF assms(1)] by (simp add: upkeep_def frame_sent)
qed

lemma upkeep_ask:
  assumes "core_ok s" "family_ok af" "q < length (table af s)" "j < length (b_nodes (table af s ! q))"
  shows "upkeep af s (ask_find_node af q j x want s)"
proof -
  let ?n = "the_node af q j s"
  let ?m = "find_node_msg s (make_tid ''fn'' 0) x want"
  let ?c = "now_sec s - 15 \<le> n_reply_time ?n"
  have "bucket_ok af (myid s) (firsts (table af s)) q (table af s ! q)"
    using core_ok_table [OF assms(1,2)] assms(3) by (rule table_ok_bucket)
  then have "n_sslen ?n \<noteq> 0"
    using nth_mem [OF assms(4)] by (simp add: bucket_ok_def nodes_ok_def node_ok_def the_node_def)
  then obtain y where y: "snd (send_or_fail ?m ?c (n_ss ?n) (n_sslen ?n) s) = s\<lparr>sent := y\<rparr>"
    using send_or_fail_sent by blast
  let ?s1 = "s\<lparr>sent := y\<rparr>"
  have u: "upkeep af s ?s1" using quiet_sent [OF assms(1)] by (simp add: upkeep_def frame_sent)
  have t: "table af ?s1 = table af s" by (simp add: table_def)
  have c: "core_ok ?s1" using u by (rule upkeep_core)
  have "table_ok af (myid ?s1) (table af ?s1)" using c assms(2) by (rule core_ok_table)
  then have "frame af ?s1 (pinged af q j (Some q) ?s1)"
    using assms(3,4) by (intro pinged_table(1)) (simp_all add: t)
  moreover have "quiet ?s1 (pinged af q j (Some q) ?s1)"
    using c assms(2-4) by (intro quiet_pinged) (simp_all add: t)
  ultimately have "upkeep af s (pinged af q j (Some q) ?s1)"
    using u upkeep_trans unfolding upkeep_def by blast
  then show ?thesis by (simp add: ask_find_node_def send_find_node_def Let_def y)
qed

lemma neighbourhood_upkeep:
  assumes "core_ok s" "family_ok af"
  shows "upkeep af s (snd (neighbourhood_maintenance af s))"
proof (cases "find_bucket (myid s) af s")
  case None
  then show ?thesis using assms(1) by (simp add: neighbourhood_maintenance_def upkeep_refl)
next
  case (Some i)
  have ne: "table af s \<noteq> []" using Some by (auto simp: find_bucket_def)
  have me: "id_ok (myid s)" using assms(1) by (simp add: core_ok_def tables_ok_def)
  have "shape_ok (firsts (table af s))" using core_ok_table [OF assms] ne by (simp add: table_ok_def)
  from find_bucket_range(1) [OF this me] have il: "i < length (table af s)"
    using Some ne by (simp add: find_bucket_def)
  obtain r s1 where r: "random s = (r, s1)" by fastforce
  obtain q s2 where p: "pick_bucket af i s1 = (q, s2)" by fastforce
  obtain n s3 where n: "random_node (table af s2 ! q) s2 = (n, s3)" by fastforce
  have d1: "draws s s1" using r by (rule draws_random)
  have d2: "draws s1 s2" "q < length (table af s)"
    using draws_pick_bucket [OF _ p] il draws_eq(1) [OF d1, of af] by simp_all
  have d3: "draws s2 s3" using n by (rule draws_random_node)
  have d: "draws s s2" "draws s s3" using d1 d2(1) d3 draws_trans by blast+
  have u: "upkeep af s s3" using assms(1) d(2) by (rule upkeep_draws)
  have t: "table af s3 = table af s" "table af s2 = table af s"
    using draws_eq(1) [OF d(2)] draws_eq(1) [OF d(1)] by simp_all
  have "upkeep af s3 (ask_find_node af q j x w s3)" if "n = Some j" for j x w
    using upkeep_core [OF u] assms(2) d2(2) draws_random_node(2) [OF n that]
    by (intro upkeep_ask) (simp_all add: t)
  then have "upkeep af s (ask_find_node af q j x w s3)" if "n = Some j" for j x w
    using u that upkeep_trans by blast
  then show ?thesis
    using u Some r p n by (simp add: neighbourhood_maintenance_def Let_def split: option.split)
qed

lemma bucket_maintenance_upkeep:
  assumes "core_ok s" "family_ok af" "\<forall>i \<in> set is. i < length (table af s)"
  shows "upkeep af s (snd (bucket_maintenance_loop af is s))"
  using assms
proof (induction af "is" s rule: bucket_maintenance_loop.induct)
  case (1 af s)
  then show ?case by (simp add: upkeep_refl)
next
  case (2 af i "is" s)
  show ?case
  proof (cases "b_time (table af s ! i) < now_sec s - 600")
    case False
    then show ?thesis using 2 by simp
  next
    case True
    obtain x s1 where x: "bucket_random (table af s) i s = (x, s1)" by fastforce
    obtain q s2 where p: "pick_bucket af i s1 = (q, s2)" by fastforce
    obtain n s3 where n: "random_node (table af s2 ! q) s2 = (n, s3)" by fastforce
    have d1: "draws s s1" using x by (rule draws_bucket_random)
    have d2: "draws s1 s2" "q < length (table af s)"
      using draws_pick_bucket [OF _ p] "2.prems"(3) draws_eq(1) [OF d1, of af] by simp_all
    have d3: "draws s2 s3" using n by (rule draws_random_node)
    have d: "draws s s2" "draws s s3" using d1 d2(1) d3 draws_trans by blast+
    have u: "upkeep af s s3" using "2.prems"(1) d(2) by (rule upkeep_draws)
    have t: "table af s3 = table af s" "table af s2 = table af s"
      using draws_eq(1) [OF d(2)] draws_eq(1) [OF d(1)] by simp_all
    show ?thesis
    proof (cases n)
      case None
      have "upkeep af s3 (snd (bucket_maintenance_loop af is s3))"
        using "2.IH"(1) [OF True x [symmetric] refl p [symmetric] refl n [symmetric] refl None]
          upkeep_core [OF u] "2.prems"(2,3) t(1) by simp
      with u have "upkeep af s (snd (bucket_maintenance_loop af is s3))" by (rule upkeep_trans)
      then show ?thesis using True x p n None by simp
    next
      case (Some j)
      obtain w s4 where w: "maintenance_want af x s3 = (w, s4)" by fastforce
      have d4: "draws s3 s4" using w by (rule draws_maintenance_want)
      have u4: "upkeep af s s4" using u upkeep_draws [OF upkeep_core [OF u] d4] by (rule upkeep_trans)
      have "upkeep af s4 (ask_find_node af q j x w s4)"
        using upkeep_core [OF u4] "2.prems"(2) d2(2) draws_random_node(2) [OF n Some]
        by (intro upkeep_ask) (simp_all add: t draws_eq(1) [OF d4])
      with u4 have "upkeep af s (ask_find_node af q j x w s4)" by (rule upkeep_trans)
      then show ?thesis using True x p n Some w by simp
    qed
  qed
qed

section \<open>The invariants of a node\<close>

definition node_inv :: "dht \<Rightarrow> bool" where
  "node_inv s \<longleftrightarrow> core_ok s \<and> storages_ok s \<and> guard_ok s"

text \<open>Memory is available, and the stack is deep enough for \<open>new_node\<close>.\<close>

definition env_ok :: "dht \<Rightarrow> bool" where
  "env_ok s \<longleftrightarrow> (\<forall>k. env_calloc s k) \<and> 161 \<le> env_depth s"

definition knows :: "byte list \<Rightarrow> dht \<Rightarrow> bool" where
  "knows x s \<longleftrightarrow> id_in x (buckets s) \<or> id_in x (buckets6 s)"

text \<open>A step that keeps the invariants and learns of no node and no peer.\<close>

definition advances :: "dht \<Rightarrow> dht \<Rightarrow> bool" where
  "advances s s' \<longleftrightarrow> node_inv s' \<and> (env_ok s \<longrightarrow> env_ok s') \<and> (\<forall>x. knows x s' \<longrightarrow> knows x s) \<and>
     (storages s = [] \<longrightarrow> storages s' = []) \<and> myid s' = myid s"

lemma advances_refl: "node_inv s \<Longrightarrow> advances s s"
  by (simp add: advances_def)

lemma advances_trans: "advances s s' \<Longrightarrow> advances s' s'' \<Longrightarrow> advances s s''"
  by (simp add: advances_def)

lemma advances_inv: "advances s s' \<Longrightarrow> node_inv s'"
  by (simp add: advances_def)

lemma advances_calm:
  assumes "node_inv s" "calm s s'"
  shows "advances s s'"
  using assms by (simp add: advances_def node_inv_def calm_def env_ok_def knows_def id_in_node_ids
      storages_ok_def guard_ok_def)

lemma advances_upkeep: "node_inv s \<Longrightarrow> upkeep af s s' \<Longrightarrow> advances s s'"
  unfolding upkeep_def by (blast intro: advances_calm quiet_calm)

lemma advances_draws: "node_inv s \<Longrightarrow> draws s s' \<Longrightarrow> advances s s'"
  using upkeep_draws advances_upkeep [where af = AF_INET] by (auto simp: node_inv_def)

lemmas inv_defs = advances_def node_inv_def env_ok_def knows_def core_ok_def tables_ok_def searches_ok_def
  storages_ok_def guard_ok_def

lemma advances_time:
  assumes "node_inv s"
  shows "advances s (s\<lparr>search_time := t\<rparr>)" "advances s (s\<lparr>confirm_nodes_time := t\<rparr>)"
    "advances s (s\<lparr>now_sec := t\<rparr>)" "advances s (s\<lparr>env_random := e, search_time := t\<rparr>)"
  using assms by (simp_all add: inv_defs)

lemma advances_token_bucket:
  "node_inv s \<Longrightarrow> died (snd (token_bucket s)) = None \<Longrightarrow> advances s (snd (token_bucket s))"
  by (auto simp: token_bucket_def Let_def inv_defs die_def split: if_splits)

lemma advances_rotate:
  assumes "node_inv s"
  shows "advances s (rotate_secrets s)" "searches (rotate_secrets s) = searches s"
    "search_time (rotate_secrets s) = search_time s" "now_sec (rotate_secrets s) = now_sec s"
    "confirm_nodes_time (rotate_secrets s) = confirm_nodes_time s"
  using assms by (simp_all add: rotate_secrets_def random_def dht_random_bytes_def Let_def inv_defs)

lemma advances_expire_buckets:
  assumes "node_inv s" "family_ok af"
  shows "advances s (expire_buckets af s)"
proof -
  let ?s' = "expire_buckets af s"
  have c: "core_ok s" using assms(1) by (simp add: node_inv_def)
  note e = expire_buckets_table [OF core_ok_table [OF c assms(2)]]
  have o: "outside ?s' = outside s" using e(1) by (simp add: frame_def)
  have t: "tables_ok ?s'" using c assms(2) by (intro tables_ok_frame [OF _ e(1) _ e(2)]) (simp_all add: core_ok_def)
  have core: "core_ok ?s'" using c t outside_eq [OF o] by (simp add: core_ok_def searches_ok_def)
  have "id_in x (table af ?s') \<Longrightarrow> id_in x (table af s)" for x
  proof -
    assume "id_in x (table af ?s')"
    then obtain ns n where "ns \<in> set (map b_nodes (table af ?s'))" "n \<in> set ns" "n_id n = x"
      by (auto simp: id_in_def in_table_def)
    then show "id_in x (table af s)" unfolding e(4) id_in_def in_table_def by fastforce
  qed
  moreover have "table a ?s' = table a s" if "(a = AF_INET) \<noteq> (af = AF_INET)" for a
    using e(1) that by (auto simp: frame_def)
  ultimately have "id_in x (table a ?s') \<Longrightarrow> id_in x (table a s)" for a x
    by (cases "(a = AF_INET) = (af = AF_INET)") (simp_all add: table_def)
  from this [of _ AF_INET] this [of _ AF_INET6] have k: "knows x ?s' \<Longrightarrow> knows x s" for x
    by (auto simp: knows_def table_def AF_INET_def AF_INET6_def)
  have "env_ok s \<Longrightarrow> env_ok ?s'" using e(1) frame_eq(4) [OF e(1)] by (simp add: env_ok_def frame_def)
  then show ?thesis
    using core k assms(1) outside_eq [OF o]
    by (simp add: advances_def node_inv_def storages_ok_def guard_ok_def)
qed

lemma expire_buckets_time:
  assumes "core_ok s" "family_ok af"
  shows "now_sec (expire_buckets af s) = now_sec s" "searches (expire_buckets af s) = searches s"
    "search_time (expire_buckets af s) = search_time s"
    "confirm_nodes_time (expire_buckets af s) = confirm_nodes_time s"
proof -
  have o: "outside (expire_buckets af s) = outside s"
    using expire_buckets_table(1) [OF core_ok_table [OF assms]] by (simp add: frame_def)
  from outside_eq [OF o] timers_outside [OF o]
  show "now_sec (expire_buckets af s) = now_sec s" "searches (expire_buckets af s) = searches s"
    "search_time (expire_buckets af s) = search_time s"
    "confirm_nodes_time (expire_buckets af s) = confirm_nodes_time s"
    by (simp_all add: timers_def)
qed

lemma expire_storage_fields:
  obtains sts n where "expire_storage s = s\<lparr>storages := sts, numstorage := n\<rparr>"
    "storages s = [] \<Longrightarrow> sts = []"
proof -
  obtain sts n where e: "expire_storage_loop (now_sec s) (storages s) (numstorage s) = (sts, n)" by fastforce
  then have "expire_storage s = s\<lparr>storages := sts, numstorage := n\<rparr>" by (simp add: expire_storage_def)
  moreover have "storages s = [] \<Longrightarrow> sts = []" using e by simp
  ultimately show ?thesis by (rule that)
qed

lemma advances_expire_storage:
  assumes "node_inv s"
  shows "advances s (expire_storage s)"
proof -
  have ok: "storages_ok (expire_storage s)" using assms by (intro expire_storage_spec) (simp add: node_inv_def)
  obtain sts n where e: "expire_storage s = s\<lparr>storages := sts, numstorage := n\<rparr>" "storages s = [] \<Longrightarrow> sts = []"
    using expire_storage_fields by blast
  show ?thesis using assms ok unfolding e(1) by (simp add: inv_defs e(2))
qed

lemma expire_searches_eq:
  "expire_searches s = s\<lparr>searches := filter (\<lambda>sr. now_sec s - DHT_SEARCH_EXPIRE_TIME \<le> sr_step_time sr) (searches s),
     numsearches := numsearches (expire_searches s)\<rparr>"
  by (simp add: expire_searches_def expire_searches_loop_filter)

lemma advances_expire_searches:
  assumes "node_inv s"
  shows "advances s (expire_searches s)"
  by (subst expire_searches_eq) (use assms in \<open>simp add: inv_defs\<close>)

section \<open>Maintenance, searches and the tick\<close>

lemma advances_expire_stuff:
  assumes "node_inv s"
  shows "advances s (expire_stuff s)"
proof -
  have f: "family_ok AF_INET" "family_ok AF_INET6" by (simp_all add: family_ok_def)
  show ?thesis
    unfolding expire_stuff_def
    using assms f by (meson advances_trans advances_inv advances_expire_buckets advances_expire_storage
        advances_expire_searches)
qed

lemma expire_stuff_time:
  assumes "node_inv s"
  shows "now_sec (expire_stuff s) = now_sec s \<and> search_time (expire_stuff s) = search_time s \<and>
    confirm_nodes_time (expire_stuff s) = confirm_nodes_time s \<and>
    set (searches (expire_stuff s)) \<subseteq> set (searches s)"
proof -
  have f: "family_ok AF_INET" "family_ok AF_INET6" by (simp_all add: family_ok_def)
  let ?s1 = "expire_buckets AF_INET s"
  let ?s2 = "expire_buckets AF_INET6 ?s1"
  have c: "core_ok s" "core_ok ?s1"
    using assms advances_expire_buckets [OF assms f(1)] by (simp_all add: node_inv_def advances_def)
  obtain sts n where e: "expire_storage ?s2 = ?s2\<lparr>storages := sts, numstorage := n\<rparr>"
    using expire_storage_fields by blast
  show ?thesis
    unfolding expire_stuff_def e
    by (subst (1 2 3 4) expire_searches_eq)
      (auto simp: expire_buckets_time [OF c(1) f(1)] expire_buckets_time [OF c(2) f(2)])
qed

lemma step_if_due_calm:
  assumes "core_ok s" "k < length (searches s)"
  shows "calm s (step_if_due callback k s)"
  using assms by (simp add: step_if_due_def Let_def calm_refl search_step_calm)

lemma step_loop_calm:
  assumes "core_ok s" "\<forall>k \<in> set ks. k < length (searches s)"
  shows "calm s (fold (step_if_due callback) ks s)"
  using assms
proof (induction ks arbitrary: s)
  case Nil
  then show ?case by (simp add: calm_refl)
next
  case (Cons k ks)
  let ?s1 = "step_if_due callback k s"
  have c: "calm s ?s1" using Cons.prems by (intro step_if_due_calm) simp_all
  then have "calm ?s1 (fold (step_if_due callback) ks ?s1)"
    using Cons.prems(2) shape_length(1) [OF calm_shape [OF c]] by (intro Cons.IH calm_core [OF c]) simp
  with c show ?case by (auto intro: calm_trans)
qed

definition schedule_one :: "search \<Rightarrow> dht \<Rightarrow> dht" where
  "schedule_one sr s =
     (if sr_done sr then s
      else let (r, s1) = random s; tm = sr_step_time sr + 15 + int (r mod 10)
           in if search_time s1 = 0 \<or> tm < search_time s1 then s1\<lparr>search_time := tm\<rparr> else s1)"

lemma schedule_loop_Cons: "schedule_loop (sr # srs) s = schedule_loop srs (schedule_one sr s)"
  by (simp add: schedule_one_def)

lemma schedule_one_spec:
  assumes "0 \<le> search_time s" "\<not> sr_done sr \<Longrightarrow> 0 \<le> sr_step_time sr"
  defines "t \<equiv> search_time (schedule_one sr s)"
  shows "0 \<le> t" "0 < search_time s \<Longrightarrow> 0 < t \<and> t \<le> search_time s"
    "\<not> sr_done sr \<Longrightarrow> 0 < t \<and> t \<le> sr_step_time sr + 24"
    "(\<not> sr_done sr \<longrightarrow> b \<le> sr_step_time sr + 15) \<Longrightarrow> search_time s = 0 \<or> b \<le> search_time s \<Longrightarrow>
      t = 0 \<or> b \<le> t"
proof -
  define tm where "tm = sr_step_time sr + 15 + int (fst (random s) mod 10)"
  have tm: "sr_step_time sr + 15 \<le> tm" "tm \<le> sr_step_time sr + 24"
    unfolding tm_def by simp_all
  have t: "t = (if sr_done sr then search_time s
      else if search_time s = 0 \<or> tm < search_time s then tm else search_time s)"
    unfolding t_def tm_def schedule_one_def by (simp add: random_def Let_def)
  show "0 \<le> t" "0 < search_time s \<Longrightarrow> 0 < t \<and> t \<le> search_time s"
    "\<not> sr_done sr \<Longrightarrow> 0 < t \<and> t \<le> sr_step_time sr + 24"
    "(\<not> sr_done sr \<longrightarrow> b \<le> sr_step_time sr + 15) \<Longrightarrow> search_time s = 0 \<or> b \<le> search_time s \<Longrightarrow>
      t = 0 \<or> b \<le> t"
    unfolding t using assms(1,2) tm by (auto split: if_split)
qed

lemma schedule_loop_fields: "\<exists>e t. schedule_loop srs s = s\<lparr>env_random := e, search_time := t\<rparr>"
proof (induction srs arbitrary: s)
  case Nil
  have "s = s\<lparr>env_random := env_random s, search_time := search_time s\<rparr>" by simp
  then show ?case unfolding schedule_loop.simps by blast
next
  case (Cons sr srs)
  have "schedule_one sr s = s\<lparr>env_random := env_random (schedule_one sr s),
      search_time := search_time (schedule_one sr s)\<rparr>"
    by (simp add: schedule_one_def random_def Let_def)
  then obtain e t where e: "schedule_one sr s = s\<lparr>env_random := e, search_time := t\<rparr>" by blast
  obtain e' t' where "schedule_loop srs (schedule_one sr s) = (schedule_one sr s)\<lparr>env_random := e', search_time := t'\<rparr>"
    using Cons.IH by blast
  then show ?case unfolding schedule_loop_Cons e by auto
qed

text \<open>The time scheduled is early enough for every unfinished search, and no earlier than one asks.\<close>

lemma schedule_loop_early:
  assumes "\<forall>sr \<in> set srs. \<not> sr_done sr \<longrightarrow> 0 \<le> sr_step_time sr" "0 \<le> search_time s"
  shows "0 \<le> search_time (schedule_loop srs s) \<and>
    (0 < search_time s \<longrightarrow> 0 < search_time (schedule_loop srs s) \<and> search_time (schedule_loop srs s) \<le> search_time s) \<and>
    (\<forall>sr \<in> set srs. \<not> sr_done sr \<longrightarrow> 0 < search_time (schedule_loop srs s) \<and>
       search_time (schedule_loop srs s) \<le> sr_step_time sr + 24)"
  using assms
proof (induction srs arbitrary: s)
  case (Cons sr srs)
  note one = schedule_one_spec [of s sr]
  have ih: "0 \<le> search_time (schedule_loop srs (schedule_one sr s)) \<and>
    (0 < search_time (schedule_one sr s) \<longrightarrow> 0 < search_time (schedule_loop srs (schedule_one sr s)) \<and>
      search_time (schedule_loop srs (schedule_one sr s)) \<le> search_time (schedule_one sr s)) \<and>
    (\<forall>sr' \<in> set srs. \<not> sr_done sr' \<longrightarrow> 0 < search_time (schedule_loop srs (schedule_one sr s)) \<and>
       search_time (schedule_loop srs (schedule_one sr s)) \<le> sr_step_time sr' + 24)"
    using Cons.prems one(1) by (intro Cons.IH) simp_all
  show ?case
    unfolding schedule_loop_Cons using ih one(2,3) Cons.prems by (fastforce)
qed simp

lemma schedule_loop_late:
  assumes "\<forall>sr \<in> set srs. \<not> sr_done sr \<longrightarrow> 0 \<le> sr_step_time sr \<and> b \<le> sr_step_time sr + 15"
    "0 \<le> search_time s" "search_time s = 0 \<or> b \<le> search_time s"
  shows "search_time (schedule_loop srs s) = 0 \<or> b \<le> search_time (schedule_loop srs s)"
  using assms
proof (induction srs arbitrary: s)
  case (Cons sr srs)
  note one = schedule_one_spec [of s sr]
  show ?case
    unfolding schedule_loop_Cons using Cons.prems one(1) one(4) [of b] by (intro Cons.IH) simp_all
qed simp

text \<open>What the steps of a search do to the times of the searches.\<close>

definition stamps :: "dht \<Rightarrow> (bool \<times> int) list" where
  "stamps s = map (\<lambda>sr. (sr_done sr, sr_step_time sr)) (searches s)"

lemma searches_die [simp]: "searches (die f s) = searches s"
  by (simp add: die_def)

lemma searches_send [simp]: "searches (snd (send_or_fail m fl sa salen s)) = searches s"
  by (auto simp: send_or_fail_def dht_send_def Let_def split: option.split)

lemma searches_set_table [simp]: "searches (set_table af bs s) = searches s"
  by (simp add: set_table_def)

lemma searches_upd_node [simp]: "searches (upd_node af i j f s) = searches s"
  by (simp add: upd_node_def upd_bucket_def)

lemma searches_cached_ping [simp]: "searches (snd (send_cached_ping af i s)) = searches s"
  by (simp add: send_cached_ping_def send_ping_def Let_def case_prod_beta upd_bucket_def)

lemma searches_pinged [simp]: "searches (pinged af i j b s) = searches s"
  by (auto simp: pinged_def Let_def split: option.split)

lemma searches_mark_pinged [simp]: "searches (mark_pinged x af s) = searches s"
  by (auto simp: mark_pinged_def split: option.split)

lemma stamps_upd_node [simp]: "stamps (upd_search_node k i f s) = stamps s"
proof -
  have "map (\<lambda>sr. (sr_done sr, sr_step_time sr)) ((searches s)[k := (searches s ! k)\<lparr>sr_nodes := x\<rparr>]) =
      map (\<lambda>sr. (sr_done sr, sr_step_time sr)) (searches s)" for x
    by (cases "k < length (searches s)") (simp_all add: map_update list_update_same_conv list_update_beyond)
  then show ?thesis by (simp add: stamps_def upd_search_node_def upd_search_def)
qed

lemma stamps_cong: "searches s' = searches s \<Longrightarrow> stamps s' = stamps s"
  by (simp add: stamps_def)

lemma stamps_ask [simp]: "stamps (snd (search_send_get_peers k n s)) = stamps s"
proof -
  have "stamps (mark_pinged x af (upd_search_node k i f (snd (send_or_fail m c sa l s)))) = stamps s"
    for x af i f m c sa l
    using stamps_cong [OF searches_mark_pinged [of x af "upd_search_node k i f (snd (send_or_fail m c sa l s))"]]
      stamps_cong [OF searches_send [of m c sa l s]] by simp
  then show ?thesis
    by (simp add: search_send_get_peers_def send_get_peers_def Let_def split: option.split)
qed

lemma stamps_get_peers_loop [simp]: "stamps (get_peers_loop k is j s) = stamps s"
proof (induction k "is" j s rule: get_peers_loop.induct)
  case (2 k i "is" j s)
  then show ?case
    by (cases "search_send_get_peers k (Some i) s") (use stamps_ask [of k "Some i" s] in auto)
qed simp

lemma stamps_announce_loop: "stamps (snd (announce_loop k is j b s)) = stamps s"
proof (induction "is" arbitrary: j b s)
  case (Cons i "is")
  have "stamps (mark_pinged x af (upd_search_node k i f (snd (send_or_fail m c sa l s')))) = stamps s'"
    for x af f m c sa l s'
    using stamps_cong [OF searches_mark_pinged [of x af "upd_search_node k i f (snd (send_or_fail m c sa l s'))"]]
      stamps_cong [OF searches_send [of m c sa l s']] by simp
  then show ?case
    by (simp add: Cons.IH Let_def send_announce_peer_def)
qed simp

lemma stamps_upd_search:
  "k < length (searches s) \<Longrightarrow> stamps (upd_search k f s) =
     (stamps s)[k := (sr_done (f (searches s ! k)), sr_step_time (f (searches s ! k)))]"
  by (simp add: stamps_def upd_search_def map_update)

lemma stamps_step:
  assumes "core_ok s" "k < length (searches s)"
  obtains x where "stamps (step_if_due callback k s) = (stamps s)[k := x]"
    "fst x \<or> now_sec s \<le> snd x + 15" "0 \<le> now_sec s \<Longrightarrow> 0 \<le> snd (stamps s ! k) \<Longrightarrow> 0 \<le> snd x"
proof -
  let ?sr = "searches s ! k"
  let ?is = "[0..<length (sr_nodes ?sr)]"
  let ?stamp = "upd_search k (\<lambda>sr. sr\<lparr>sr_step_time := now_sec s\<rparr>)"
  have at: "stamps s ! k = (sr_done ?sr, sr_step_time ?sr)" using assms(2) by (simp add: stamps_def)
  have stay: "stamps s = (stamps s)[k := (sr_done ?sr, sr_step_time ?sr)]" by (simp add: at [symmetric])
  obtain acked s1 where a: "announce_loop k ?is 0 True s = (acked, s1)" by fastforce
  have c1: "calm s s1" using quiet_calm [OF announce_loop_quiet [OF assms, of ?is 0 True]] a by simp
  have k1: "k < length (searches s1)" "now_sec s1 = now_sec s"
    using shape_length(1) [OF calm_shape [OF c1]] assms(2) c1 by (simp_all add: calm_def)
  have st1: "stamps s1 = stamps s" using stamps_announce_loop [of k ?is 0 True s] a by simp
  let ?s2 = "get_peers_loop k ?is 0 s"
  have c2: "calm s ?s2" using quiet_calm [OF get_peers_loop_quiet [OF assms]] by simp
  have k2: "k < length (searches ?s2)" using shape_length(1) [OF calm_shape [OF c2]] assms(2) by simp
  have sd: "stamps (upd_search k f u) = (stamps u)[k := (sr_done (searches u ! k), now_sec s)]"
    if "k < length (searches u)" "f = (\<lambda>sr. sr\<lparr>sr_step_time := now_sec s\<rparr>)" for u f
    using that by (simp add: stamps_upd_search)
  have dn: "stamps (search_done k callback u) = (stamps u)[k := (True, now_sec u)]"
    if "k < length (searches u)" for u
    using that by (simp add: search_done_def Let_def stamps_def upd_search_def log_event_def map_update)
  have now: "\<exists>x. stamps u = (stamps s)[k := x] \<and>
      (fst x \<or> now_sec s \<le> snd x + 15) \<and> (snd x = now_sec s \<or> snd x = sr_step_time ?sr)"
    if "stamps u = (stamps s)[k := (d, now_sec s)]" for u d
    using that by (intro exI [of _ "(d, now_sec s)"]) simp
  consider "sr_done ?sr \<or> now_sec s < sr_step_time ?sr + 5"
    | "\<not> sr_done ?sr" "step_if_due callback k s = search_step k callback s"
    unfolding step_if_due_def Let_def
    by (cases "sr_done ?sr \<or> now_sec s < sr_step_time ?sr + 5") (simp_all add: not_less)
  then have "\<exists>x. stamps (step_if_due callback k s) = (stamps s)[k := x] \<and>
      (fst x \<or> now_sec s \<le> snd x + 15) \<and> (snd x = now_sec s \<or> snd x = sr_step_time ?sr)"
  proof cases
    case 1
    then have "step_if_due callback k s = s" unfolding step_if_due_def Let_def by auto
    then show ?thesis using stay 1 by (intro exI [of _ "(sr_done ?sr, sr_step_time ?sr)"]) auto
  next
    case 2
    consider "search_step k callback s = search_done k callback s"
      | "search_step k callback s = search_done k callback s1"
      | "search_step k callback s = ?stamp s1" | "search_step k callback s = ?stamp ?s2"
      | "search_step k callback s = s" "now_sec s \<le> sr_step_time ?sr + 15"
      by (cases "all_done_loop (sr_nodes ?sr) 0"; cases "sr_port ?sr = 0"; cases acked;
          cases "now_sec s \<le> sr_step_time ?sr + 15") (simp_all add: search_step_def Let_def a)
    then show ?thesis
    proof cases
      case 5
      then show ?thesis using 2 stay by (intro exI [of _ "(sr_done ?sr, sr_step_time ?sr)"]) auto
    next
      case 1
      show ?thesis by (rule now [where d = True]) (use 2 1 dn [OF assms(2)] in simp)
    next
      case c: 2
      show ?thesis by (rule now [where d = True]) (use 2 c dn [OF k1(1)] st1 k1(2) in simp)
    next
      case 3
      show ?thesis by (rule now) (use 2 3 sd [OF k1(1) refl] st1 in simp)
    next
      case 4
      show ?thesis by (rule now) (use 2 4 sd [OF k2 refl] in simp)
    qed
  qed
  then obtain x where x: "stamps (step_if_due callback k s) = (stamps s)[k := x]"
      "fst x \<or> now_sec s \<le> snd x + 15" "snd x = now_sec s \<or> snd x = sr_step_time ?sr" by blast
  show ?thesis by (rule that [OF x(1,2)]) (use x(3) at in auto)
qed

text \<open>A search that is done, or not due again before its next step at \<open>now\<close>.\<close>

definition stepped :: "int \<Rightarrow> bool \<times> int \<Rightarrow> bool" where
  "stepped now x \<longleftrightarrow> fst x \<or> now \<le> snd x + 15"

lemma step_loop_stamps:
  assumes "core_ok s" "\<forall>k \<in> set ks. k < length (searches s)" "0 \<le> now_sec s" "\<forall>x \<in> set (stamps s). 0 \<le> snd x"
  shows "(\<forall>x \<in> set (stamps (fold (step_if_due callback) ks s)). 0 \<le> snd x) \<and>
    (\<forall>j < length (searches s). j \<in> set ks \<or> stepped (now_sec s) (stamps s ! j) \<longrightarrow>
       stepped (now_sec s) (stamps (fold (step_if_due callback) ks s) ! j))"
  using assms
proof (induction ks arbitrary: s)
  case (Cons k ks)
  let ?s1 = "step_if_due callback k s"
  have k: "k < length (searches s)" "k < length (stamps s)" using Cons.prems(2) by (simp_all add: stamps_def)
  have c: "calm s ?s1" using Cons.prems(1) k(1) by (rule step_if_due_calm)
  have n: "now_sec ?s1 = now_sec s" "length (searches ?s1) = length (searches s)"
    using c shape_length(1) [OF calm_shape [OF c]] by (simp_all add: calm_def)
  obtain x where x: "stamps ?s1 = (stamps s)[k := x]" "stepped (now_sec s) x"
      "0 \<le> now_sec s \<Longrightarrow> 0 \<le> snd (stamps s ! k) \<Longrightarrow> 0 \<le> snd x"
    using stamps_step [OF Cons.prems(1) k(1), of callback] unfolding stepped_def by metis
  have "0 \<le> snd x" using x(3) Cons.prems(3,4) nth_mem [OF k(2)] by blast
  then have pos: "\<forall>y \<in> set (stamps ?s1). 0 \<le> snd y"
    unfolding x(1) using Cons.prems(4) set_update_subset_insert [of "stamps s" k x] by blast
  have ih: "(\<forall>x \<in> set (stamps (fold (step_if_due callback) ks ?s1)). 0 \<le> snd x) \<and>
    (\<forall>j < length (searches ?s1). j \<in> set ks \<or> stepped (now_sec ?s1) (stamps ?s1 ! j) \<longrightarrow>
       stepped (now_sec ?s1) (stamps (fold (step_if_due callback) ks ?s1) ! j))"
    using Cons.prems(2,3) pos n by (intro Cons.IH calm_core [OF c]) simp_all
  have "stepped (now_sec s) (stamps ?s1 ! j)" if "j = k \<or> stepped (now_sec s) (stamps s ! j)" for j
    using that x(1,2) k(2) by (cases "j = k") simp_all
  then show ?case using ih n by (auto simp del: fold.simps(1))
qed simp

lemma run_searches_calm:
  assumes "core_ok s"
  shows "\<exists>s1 e t. calm s s1 \<and> run_searches callback s = s1\<lparr>env_random := e, search_time := t\<rparr>"
proof (cases "0 < search_time s \<and> search_time s \<le> now_sec s")
  case True
  let ?s1 = "fold (step_if_due callback) [0..<length (searches s)] s"
  have c: "calm s ?s1" using assms by (intro step_loop_calm) simp_all
  obtain e t where "schedule_loop (searches ?s1) (?s1\<lparr>search_time := 0\<rparr>) =
      (?s1\<lparr>search_time := 0\<rparr>)\<lparr>env_random := e, search_time := t\<rparr>" using schedule_loop_fields by blast
  then have "run_searches callback s = ?s1\<lparr>env_random := e, search_time := t\<rparr>"
    using True by (simp add: run_searches_def Let_def)
  with c show ?thesis by blast
next
  case False
  then have "run_searches callback s = s" unfolding run_searches_def by (rule if_not_P)
  then have "run_searches callback s = s\<lparr>env_random := env_random s, search_time := search_time s\<rparr>" by simp
  with calm_refl [OF assms] show ?thesis by blast
qed

lemma advances_run_searches:
  assumes "node_inv s"
  shows "advances s (run_searches callback s)" "now_sec (run_searches callback s) = now_sec s"
    "confirm_nodes_time (run_searches callback s) = confirm_nodes_time s"
proof -
  have "core_ok s" using assms by (simp add: node_inv_def)
  then obtain s1 e t where c: "calm s s1" "run_searches callback s = s1\<lparr>env_random := e, search_time := t\<rparr>"
    using run_searches_calm by blast
  have a: "advances s s1" using assms c(1) by (rule advances_calm)
  show "advances s (run_searches callback s)"
    unfolding c(2) using a advances_time(4) [OF advances_inv [OF a]] by (rule advances_trans)
  show "now_sec (run_searches callback s) = now_sec s"
    "confirm_nodes_time (run_searches callback s) = confirm_nodes_time s"
    using c by (simp_all add: calm_def timers_def)
qed

lemma run_searches_schedule:
  fixes callback :: bool
  assumes "core_ok s" "0 \<le> now_sec s" "\<forall>sr \<in> set (searches s). 0 \<le> sr_step_time sr" "0 \<le> search_time s"
  defines "s' \<equiv> run_searches callback s"
  shows "search_time s' = 0 \<or> now_sec s \<le> search_time s'"
    and "0 < search_time s \<Longrightarrow> search_time s \<le> now_sec s \<Longrightarrow>
      \<forall>sr \<in> set (searches s'). \<not> sr_done sr \<longrightarrow> 0 < search_time s' \<and> search_time s' \<le> sr_step_time sr + 24"
proof -
  let ?s1 = "fold (step_if_due callback) [0..<length (searches s)] s"
  let ?s2 = "?s1\<lparr>search_time := 0\<rparr>"
  let ?s3 = "schedule_loop (searches ?s1) ?s2"
  have c: "calm s ?s1" using assms(1) by (intro step_loop_calm) simp_all
  have n: "length (searches ?s1) = length (searches s)" using calm_shape [OF c] by (rule shape_length(1))
  have st: "\<forall>x \<in> set (stamps s). 0 \<le> snd x" using assms(3) by (auto simp: stamps_def)
  note l = step_loop_stamps [OF assms(1) _ assms(2) st, of "[0..<length (searches s)]" callback]
  have step: "0 \<le> sr_step_time sr \<and> (\<not> sr_done sr \<longrightarrow> now_sec s \<le> sr_step_time sr + 15)"
    if m: "sr \<in> set (searches ?s1)" for sr
  proof -
    obtain j where j: "j < length (searches ?s1)" "searches ?s1 ! j = sr" using m unfolding in_set_conv_nth by blast
    then have "stamps ?s1 ! j = (sr_done sr, sr_step_time sr)" by (simp add: stamps_def)
    moreover have "stamps ?s1 ! j \<in> set (stamps ?s1)" using j(1) by (simp add: stamps_def)
    ultimately show ?thesis using l j(1) n by (fastforce simp: stepped_def)
  qed
  obtain e t where e: "?s3 = ?s2\<lparr>env_random := e, search_time := t\<rparr>" using schedule_loop_fields by blast
  have due: "s' = ?s3" "searches s' = searches ?s1" if "0 < search_time s \<and> search_time s \<le> now_sec s"
    using that e by (simp_all add: s'_def run_searches_def Let_def)
  have off: "s' = s" if "\<not> (0 < search_time s \<and> search_time s \<le> now_sec s)"
    unfolding s'_def run_searches_def using that by (rule if_not_P)
  show "search_time s' = 0 \<or> now_sec s \<le> search_time s'"
  proof (cases "0 < search_time s \<and> search_time s \<le> now_sec s")
    case True
    have "search_time ?s3 = 0 \<or> now_sec s \<le> search_time ?s3"
      using step by (intro schedule_loop_late) auto
    then show ?thesis unfolding due(1) [OF True] .
  next
    case False
    then show ?thesis using off assms(4) by auto
  qed
  assume d: "0 < search_time s" "search_time s \<le> now_sec s"
  have "\<forall>sr \<in> set (searches ?s1). \<not> sr_done sr \<longrightarrow> 0 < search_time ?s3 \<and> search_time ?s3 \<le> sr_step_time sr + 24"
    using schedule_loop_early [of "searches ?s1" ?s2] step by simp
  then show "\<forall>sr \<in> set (searches s'). \<not> sr_done sr \<longrightarrow> 0 < search_time s' \<and> search_time s' \<le> sr_step_time sr + 24"
    using due [OF conjI [OF d]] by simp
qed

text \<open>Maintenance of either family: a calm step that leaves the searches alone.\<close>

definition tends :: "dht \<Rightarrow> dht \<Rightarrow> bool" where
  "tends s s' \<longleftrightarrow> calm s s' \<and> searches s' = searches s \<and> events s' = events s"

lemma tends_trans: "tends s s' \<Longrightarrow> tends s' s'' \<Longrightarrow> tends s s''"
  unfolding tends_def using calm_trans by auto

lemma tends_core: "tends s s' \<Longrightarrow> core_ok s'"
  unfolding tends_def by (blast intro: calm_core)

lemma tends_upkeep:
  assumes "upkeep af s s'"
  shows "tends s s'"
proof -
  have q: "quiet s s'" using assms by (simp only: upkeep_def)
  have "events s' = events s" using q by (simp only: quiet_def)
  then show ?thesis unfolding tends_def using quiet_calm [OF q] upkeep_eq(3) [OF assms] by (intro conjI)
qed

lemma tends_maintenance:
  assumes "core_ok s" "family_ok af"
  shows "tends s (snd (bucket_maintenance af s))" "tends s (snd (neighbourhood_maintenance af s))"
proof -
  have "upkeep af s (snd (bucket_maintenance af s))"
    unfolding bucket_maintenance_def using assms by (intro bucket_maintenance_upkeep) simp_all
  then show "tends s (snd (bucket_maintenance af s))" by (rule tends_upkeep)
  show "tends s (snd (neighbourhood_maintenance af s))"
    using neighbourhood_upkeep [OF assms] by (rule tends_upkeep)
qed

lemma tends_eq:
  assumes "tends s s'"
  shows "now_sec s' = now_sec s" "search_time s' = search_time s"
    "confirm_nodes_time s' = confirm_nodes_time s" "searches s' = searches s" "events s' = events s"
  using assms by (simp_all add: tends_def calm_def timers_def)

lemma confirm_nodes_tends:
  assumes "core_ok s" "confirm_nodes_time s \<le> now_sec s"
  shows "\<exists>s' t. tends s s' \<and> now_sec s < t \<and> t < now_sec s + 180 \<and>
    confirm_nodes s = s'\<lparr>confirm_nodes_time := t\<rparr>"
proof -
  have f: "family_ok AF_INET" "family_ok AF_INET6" by (simp_all add: family_ok_def)
  obtain b4 s1 where 1: "bucket_maintenance AF_INET s = (b4, s1)" by fastforce
  obtain b6 s2 where 2: "bucket_maintenance AF_INET6 s1 = (b6, s2)" by fastforce
  let ?n4 = "if \<not> (b4 \<or> b6) \<and> now_sec s2 - 150 \<le> mybucket_grow_time s2
      then neighbourhood_maintenance AF_INET s2 else (False, s2)"
  obtain n4 s3 where 3: "?n4 = (n4, s3)" by fastforce
  let ?n6 = "if \<not> (b4 \<or> b6) \<and> now_sec s3 - 150 \<le> mybucket6_grow_time s3
      then neighbourhood_maintenance AF_INET6 s3 else (False, s3)"
  obtain n6 s4 where 4: "?n6 = (n6, s4)" by fastforce
  obtain r s5 where 5: "random s4 = (r, s5)" by fastforce
  have t1: "tends s s1" using tends_maintenance(1) [OF assms(1) f(1)] 1 by simp
  have t2: "tends s s2"
    using tends_trans [OF t1] tends_maintenance(1) [OF tends_core [OF t1] f(2)] 2 by simp
  have s3: "s3 = s2 \<or> s3 = snd (neighbourhood_maintenance AF_INET s2)"
    using arg_cong [OF 3, of snd] by (auto split: if_splits)
  have t3: "tends s s3"
    using s3 t2 tends_trans [OF t2] tends_maintenance(2) [OF tends_core [OF t2] f(1)] by auto
  have s4: "s4 = s3 \<or> s4 = snd (neighbourhood_maintenance AF_INET6 s3)"
    using arg_cong [OF 4, of snd] by (auto split: if_splits)
  have t4: "tends s s4"
    using s4 t3 tends_trans [OF t3] tends_maintenance(2) [OF tends_core [OF t3] f(2)] by auto
  have t5: "tends s s5"
    using tends_trans [OF t4] upkeep_draws [OF tends_core [OF t4] draws_random [OF 5]] tends_upkeep by blast
  let ?t = "now_sec s5 + (if (b4 \<or> b6) \<or> n4 \<or> n6 then 5 + int (r mod 20) else 60 + int (r mod 120))"
  have e: "confirm_nodes s = s5\<lparr>confirm_nodes_time := ?t\<rparr>"
    using assms(2) unfolding confirm_nodes_def by (simp only: if_True Let_def 1 2 3 4 5 prod.case)
  have m: "r mod 20 < 20" "r mod 120 < 120" by simp_all
  have b: "now_sec s < ?t" "?t < now_sec s + 180"
    using m tends_eq(1) [OF t5] by (cases "(b4 \<or> b6) \<or> n4 \<or> n6"; simp)+
  show ?thesis using t5 e b by (intro exI conjI)
qed

lemma confirm_nodes_spec:
  assumes "node_inv s"
  shows "advances s (confirm_nodes s)" "now_sec (confirm_nodes s) = now_sec s"
    "searches (confirm_nodes s) = searches s" "search_time (confirm_nodes s) = search_time s"
    "now_sec s < confirm_nodes_time (confirm_nodes s)"
    "confirm_nodes_time s \<le> now_sec s \<Longrightarrow> confirm_nodes_time (confirm_nodes s) < now_sec s + 180"
    "now_sec s < confirm_nodes_time s \<Longrightarrow> confirm_nodes_time (confirm_nodes s) = confirm_nodes_time s"
proof -
  have "advances s (confirm_nodes s) \<and> now_sec (confirm_nodes s) = now_sec s \<and>
    searches (confirm_nodes s) = searches s \<and> search_time (confirm_nodes s) = search_time s \<and>
    now_sec s < confirm_nodes_time (confirm_nodes s) \<and>
    (confirm_nodes_time s \<le> now_sec s \<longrightarrow> confirm_nodes_time (confirm_nodes s) < now_sec s + 180) \<and>
    (now_sec s < confirm_nodes_time s \<longrightarrow> confirm_nodes_time (confirm_nodes s) = confirm_nodes_time s)"
  proof (cases "confirm_nodes_time s \<le> now_sec s")
    case True
    have "core_ok s" using assms by (simp add: node_inv_def)
    then obtain s' t where t: "tends s s'" "now_sec s < t" "t < now_sec s + 180"
        "confirm_nodes s = s'\<lparr>confirm_nodes_time := t\<rparr>"
      using confirm_nodes_tends True by blast
    have a: "advances s s'" using assms t(1) unfolding tends_def by (blast intro: advances_calm)
    have "advances s (confirm_nodes s)"
      unfolding t(4) using a advances_time(2) [OF advances_inv [OF a]] by (rule advances_trans)
    then show ?thesis using t True tends_eq [OF t(1)] by simp
  next
    case False
    then have "confirm_nodes s = s" unfolding confirm_nodes_def by (rule if_not_P)
    then show ?thesis using False advances_refl [OF assms] by simp
  qed
  then show "advances s (confirm_nodes s)" "now_sec (confirm_nodes s) = now_sec s"
    "searches (confirm_nodes s) = searches s" "search_time (confirm_nodes s) = search_time s"
    "now_sec s < confirm_nodes_time (confirm_nodes s)"
    "confirm_nodes_time s \<le> now_sec s \<Longrightarrow> confirm_nodes_time (confirm_nodes s) < now_sec s + 180"
    "now_sec s < confirm_nodes_time s \<Longrightarrow> confirm_nodes_time (confirm_nodes s) = confirm_nodes_time s"
    by blast+
qed

lemma confirm_nodes_events: "core_ok s \<Longrightarrow> events (confirm_nodes s) = events s"
proof (cases "confirm_nodes_time s \<le> now_sec s")
  case True
  assume "core_ok s"
  then obtain s' t where "tends s s'" "confirm_nodes s = s'\<lparr>confirm_nodes_time := t\<rparr>"
    using confirm_nodes_tends True by blast
  then show ?thesis using tends_eq(5) by simp
qed (simp add: confirm_nodes_def)

section \<open>A tick\<close>

text \<open>What precedes the searches: the secret is changed and old things expire, when it is time.\<close>

definition housekeeping :: "dht \<Rightarrow> dht" where
  "housekeeping s =
     (let s1 = (if rotate_secrets_time s \<le> now_sec s then rotate_secrets s else s)
      in if expire_stuff_time s1 \<le> now_sec s1 then expire_stuff s1 else s1)"

lemma tick_housekeeping: "tick callback s = confirm_nodes (run_searches callback (housekeeping s))"
  by (simp add: tick_def housekeeping_def Let_def)

lemma housekeeping_spec:
  assumes "node_inv s"
  shows "advances s (housekeeping s)" "now_sec (housekeeping s) = now_sec s"
    "search_time (housekeeping s) = search_time s" "confirm_nodes_time (housekeeping s) = confirm_nodes_time s"
    "set (searches (housekeeping s)) \<subseteq> set (searches s)"
proof -
  define s1 where "s1 = (if rotate_secrets_time s \<le> now_sec s then rotate_secrets s else s)"
  define s2 where "s2 = (if expire_stuff_time s1 \<le> now_sec s1 then expire_stuff s1 else s1)"
  have h: "housekeeping s = s2" by (simp only: housekeeping_def Let_def s1_def s2_def)
  have 1: "advances s s1" "now_sec s1 = now_sec s" "search_time s1 = search_time s"
      "confirm_nodes_time s1 = confirm_nodes_time s" "searches s1 = searches s"
    using advances_rotate [OF assms] advances_refl [OF assms] by (simp_all add: s1_def)
  have i1: "node_inv s1" using 1(1) by (rule advances_inv)
  have 2: "advances s1 s2" "now_sec s2 = now_sec s1" "search_time s2 = search_time s1"
      "confirm_nodes_time s2 = confirm_nodes_time s1" "set (searches s2) \<subseteq> set (searches s1)"
    using advances_expire_stuff [OF i1] expire_stuff_time [OF i1] advances_refl [OF i1]
    by (simp_all add: s2_def)
  show "advances s (housekeeping s)" unfolding h using 1(1) 2(1) by (rule advances_trans)
  show "now_sec (housekeeping s) = now_sec s" "search_time (housekeeping s) = search_time s"
    "confirm_nodes_time (housekeeping s) = confirm_nodes_time s"
    "set (searches (housekeeping s)) \<subseteq> set (searches s)"
    unfolding h using 1(2-5) 2(2-5) by simp_all
qed

lemma advances_tick: "node_inv s \<Longrightarrow> advances s (tick callback s)"
  unfolding tick_housekeeping
  by (meson housekeeping_spec(1) advances_run_searches(1) confirm_nodes_spec(1) advances_trans advances_inv)

lemma tick_schedule:
  fixes callback :: bool
  assumes "node_inv s" "0 \<le> now_sec s" "\<forall>sr \<in> set (searches s). 0 \<le> sr_step_time sr" "0 \<le> search_time s"
  defines "s' \<equiv> tick callback s"
  shows "now_sec s' = now_sec s" "now_sec s < confirm_nodes_time s'"
    "confirm_nodes_time s' < now_sec s + 180 \<or> confirm_nodes_time s' = confirm_nodes_time s"
    "search_time s' = 0 \<or> now_sec s \<le> search_time s'"
    "0 < search_time s \<Longrightarrow> search_time s \<le> now_sec s \<Longrightarrow>
      \<forall>sr \<in> set (searches s'). \<not> sr_done sr \<longrightarrow> 0 < search_time s' \<and> search_time s' \<le> sr_step_time sr + 24"
proof -
  let ?h = "housekeeping s"
  let ?r = "run_searches callback ?h"
  note h = housekeeping_spec [OF assms(1)]
  have ih: "node_inv ?h" using h(1) by (rule advances_inv)
  have ch: "core_ok ?h" using ih by (simp add: node_inv_def)
  note r = advances_run_searches [OF ih, of callback]
  note c = confirm_nodes_spec [OF advances_inv [OF r(1)]]
  have e: "s' = confirm_nodes ?r" by (simp add: s'_def tick_housekeeping)
  have p: "\<forall>sr \<in> set (searches ?h). 0 \<le> sr_step_time sr" using assms(3) h(5) by blast
  note sch = run_searches_schedule [OF ch _ p, of callback, unfolded h(2,3), OF assms(2,4)]
  show "now_sec s' = now_sec s" "now_sec s < confirm_nodes_time s'"
    using c(2,5) r(2) h(2) unfolding e by simp_all
  show "confirm_nodes_time s' < now_sec s + 180 \<or> confirm_nodes_time s' = confirm_nodes_time s"
    using c(6,7) r(2,3) h(2,4) unfolding e by (cases "confirm_nodes_time s \<le> now_sec s") simp_all
  show "search_time s' = 0 \<or> now_sec s \<le> search_time s'" using sch(1) c(4) unfolding e by simp
  show "\<forall>sr \<in> set (searches s'). \<not> sr_done sr \<longrightarrow> 0 < search_time s' \<and> search_time s' \<le> sr_step_time sr + 24"
    if "0 < search_time s" "search_time s \<le> now_sec s"
    using sch(2) [OF that] c(3,4) unfolding e by simp
qed

end
