(* ===== verification/Runs.thy ===== *)
theory Runs
  imports Main
begin

text \<open>
  Machines that run: the states a step relation reaches, with the actions taken on the way,
  and the rule that an invariant kept by every step holds of all of them.
\<close>

inductive runs :: "('s \<Rightarrow> 'a \<Rightarrow> 's \<Rightarrow> bool) \<Rightarrow> 's \<Rightarrow> 'a list \<Rightarrow> 's \<Rightarrow> bool"
  for step :: "'s \<Rightarrow> 'a \<Rightarrow> 's \<Rightarrow> bool" and s :: 's
where
  runs_none: "runs step s [] s"
| runs_more: "runs step s as s' \<Longrightarrow> step s' a s'' \<Longrightarrow> runs step s (as @ [a]) s''"

lemma runs_append:
  assumes "runs step s' bs s''" "runs step s as s'"
  shows "runs step s (as @ bs) s''"
  using assms
proof (induction rule: runs.induct)
  case runs_none
  then show ?case by simp
next
  case (runs_more bs t a u)
  then have "runs step s ((as @ bs) @ [a]) u" by (blast intro: runs.runs_more)
  then show ?case by simp
qed

text \<open>The contract of a machine with an invariant, which may look at the actions taken.\<close>

locale invariant_machine =
  fixes step :: "'s \<Rightarrow> 'a \<Rightarrow> 's \<Rightarrow> bool"
    and inv :: "'a list \<Rightarrow> 's \<Rightarrow> bool"
  assumes keeps: "inv as s \<Longrightarrow> step s a s' \<Longrightarrow> inv (as @ [a]) s'"
begin

lemma runs_inv:
  assumes "runs step s as s'" "inv [] s"
  shows "inv as s'"
  using assms by (induction rule: runs.induct) (auto intro: keeps)

lemma runs_inv_from:
  assumes "runs step s as s'" "inv bs s"
  shows "inv (bs @ as) s'"
  using assms
proof (induction rule: runs.induct)
  case (runs_more as t a u)
  then show ?case using keeps [of "bs @ as" t a u] by simp
qed simp

end

end
