(* ===== verification/Dht_Node.thy ===== *)
theory Dht_Node
  imports Dht_Run_Props Runs
begin

text \<open>
  A node in operation: what a datagram can do to it, the invariants it keeps from
  \<open>dht_init\<close> on, its timing, and what it comes to know of the network.
\<close>

section \<open>Datagrams\<close>

lemma response_breaks_sender:
  assumes "message_ok m" "m_type m = DHT_MSG_RESPONSE"
  shows "handle_response m source n callback s = (0, broken_node (m_arg_id m) source s)"
  using assms by (simp add: handle_response_def message_ok_def)

lemma handle_message_cases:
  assumes "message_ok m"
  shows "(\<exists>f. handle_message m source n s = die f s) \<or> handle_message m source n s = s \<or>
    handle_message m source n s = snd (token_bucket s) \<or>
    (\<exists>x. id_ok x \<and> handle_message m source n s = broken_node (Some x) source s)"
proof (cases "m_arg_id m")
  case None
  then show ?thesis by (auto simp: handle_message_def)
next
  case (Some x)
  have ne: "m_type m \<noteq> DHT_MSG_ERR" "id_ok x" using assms Some by (simp_all add: message_ok_def)
  show ?thesis
  proof (cases "id_cmp x (myid s) = 0")
    case True
    then show ?thesis using Some by (simp add: handle_message_def)
  next
    case False
    show ?thesis
    proof (cases "m_type m = DHT_MSG_RESPONSE")
      case True
      then have "handle_message m source n s = broken_node (Some x) source s"
        using Some False response_breaks_sender [OF assms True] by (simp add: handle_message_def)
      then show ?thesis using ne(2) by blast
    next
      case q: False
      then have "m_type m = DHT_MSG_QUERY" using ne(1) by (cases "m_type m") simp_all
      then have "handle_message m source n s = snd (token_bucket s)"
        using Some False by (simp add: handle_message_def handle_query_def case_prod_beta)
      then show ?thesis by blast
    qed
  qed
qed

lemma datagram_outcomes:
  "let s' = handle_datagram h bytes source sourcelen s
   in (s' = s \<or> (\<exists>f. s' = die f s) \<or> s' = snd (token_bucket s) \<or>
       (\<exists>x. id_ok x \<and> s' = broken_node (Some x) source s)) \<and>
      (is_martian source \<or> blacklisted source sourcelen s \<longrightarrow> s' = s)"
proof -
  let ?p = "dht_message_parse h (bytes @ [0]) (length bytes)"
  consider "is_martian source \<or> blacklisted source sourcelen s"
    | "\<not> (is_martian source \<or> blacklisted source sourcelen s)" "1536 \<le> length bytes"
    | "\<not> (is_martian source \<or> blacklisted source sourcelen s)" "\<not> 1536 \<le> length bytes" by blast
  then show ?thesis
  proof cases
    case 3
    show ?thesis
    proof (cases ?p)
      case (Inl f)
      then have "handle_datagram h bytes source sourcelen s = die f s"
        using 3 by (simp add: handle_datagram_def)
      then show ?thesis using 3(1) by (auto simp: Let_def)
    next
      case (Inr r)
      show ?thesis
      proof (cases r)
        case None
        then show ?thesis using 3 Inr by (simp add: handle_datagram_def)
      next
        case (Some m)
        have "message_ok m" using Inr Some by (intro parse_ok) simp
        from handle_message_cases [OF this, of source sourcelen s] show ?thesis
          using 3 Inr Some by (auto simp: handle_datagram_def Let_def)
      qed
    qed
  qed (simp_all add: handle_datagram_def)
qed

text \<open>C5. Whatever a datagram holds, it has one of four effects: none; the process dies; a
  request token is used up; or, if it is a response, its sender is treated as broken. So no
  datagram makes the node answer, store a peer, learn of a node or advance a search, and
  what comes from a martian or a blacklisted address has no effect at all.\<close>

theorem datagram_effects:
  "let s' = handle_datagram h bytes source sourcelen s
   in (s' = s \<or> (\<exists>f. s' = die f s) \<or> s' = snd (token_bucket s) \<or>
       (\<exists>x. id_ok x \<and> s' = broken_node (Some x) source s)) \<and>
      (is_martian source \<or> blacklisted source sourcelen s \<longrightarrow> s' = s)"
  by (rule datagram_outcomes)

theorem datagram_effects_witness:
  "handle_datagram \<lparr>h_addr = 4096, h_copy = [], h_query = []\<rparr> (ascii ''de'')
     (demo_peer\<lparr>sa_port := [0, 0]\<rparr>) 16 demo_searching = demo_searching"
  using datagram_effects [of "\<lparr>h_addr = 4096, h_copy = [], h_query = []\<rparr>" "ascii ''de''" "demo_peer\<lparr>sa_port := [0, 0]\<rparr>" 16 demo_searching]
  by (simp add: Let_def is_martian_def demo_peer_def)

section \<open>The periodic run\<close>

definition recv_ok :: "recv \<Rightarrow> bool" where
  "recv_ok r \<longleftrightarrow> family_ok (sa_family (rv_from r)) \<and> sa_ok (rv_from r)"

definition input_ok :: "input \<Rightarrow> bool" where
  "input_ok inp \<longleftrightarrow> recv_ok (in_recv inp) \<and> recv_ok (in_recv6 inp)"

lemma received_source:
  assumes "input_ok inp" "receive inp s = Inr (Some (bytes, source, n))"
  shows "family_ok (sa_family source) \<and> sa_ok source"
  using assms by (auto simp: receive_def received_datagram_def input_ok_def recv_ok_def split: if_splits)

lemma advances_broken_node:
  assumes "node_inv s" "id_ok x" "family_ok (sa_family sa)"
  shows "advances s (broken_node (Some x) sa s)"
proof -
  have core: "core_ok s" and g: "guard_ok s" using assms(1) by (simp_all add: node_inv_def)
  let ?s1 = "mark_broken x (sa_family sa) s"
  have a: "advances s ?s1"
    using assms(1) mark_broken_spec(1) [OF core assms(3,2)] by (blast intro: advances_calm quiet_calm)
  have e: "broken_node (Some x) sa s = ?s1\<lparr>searches := map (without x) (searches ?s1),
      blacklist := (blacklist ?s1)[next_blacklisted ?s1 := sa],
      next_blacklisted := (next_blacklisted ?s1 + 1) mod DHT_MAX_BLACKLISTED\<rparr>"
    using broken_node_eq [OF core assms(2,3)] by (simp add: Let_def)
  have i: "node_inv (broken_node (Some x) sa s)"
    using broken_node_core [OF core _ assms(3), of "Some x"] assms(2) advances_inv [OF a]
    by (simp add: node_inv_def e storages_ok_def guard_ok_def DHT_MAX_BLACKLISTED_def)
  show ?thesis using a i by (simp add: advances_def e knows_def env_ok_def)
qed

lemma advances_datagram:
  assumes "node_inv s" "family_ok (sa_family source)" "died (handle_datagram h bytes source n s) = None"
  shows "advances s (handle_datagram h bytes source n s)"
proof -
  have "died (die f s) \<noteq> None" for f by (cases "died s") (simp_all add: die_def)
  then show ?thesis
    using datagram_outcomes [of h bytes source n s] assms advances_refl advances_token_bucket advances_broken_node
    unfolding Let_def by metis
qed

lemma periodic_cases:
  assumes "node_inv s" "input_ok inp" "dht_periodic inp callback s = (rc, t, s')"
  obtains "died s' \<noteq> None" "t = None" | "died s' = None" "t = None" "s' = s\<lparr>now_sec := in_now inp\<rparr>"
    | s1 where "advances (s\<lparr>now_sec := in_now inp\<rparr>) s1" "s' = tick callback s1" "t = Some (sleep_time s')" "rc = 1"
      "s1 = s\<lparr>now_sec := in_now inp\<rparr> \<or> (\<exists>h bytes source n. family_ok (sa_family source) \<and>
         s1 = handle_datagram h bytes source n (s\<lparr>now_sec := in_now inp\<rparr>))"
proof -
  let ?s0 = "s\<lparr>now_sec := in_now inp\<rparr>"
  have i0: "node_inv ?s0" using advances_time(3) [OF assms(1)] by (rule advances_inv)
  then have d0: "died ?s0 = None" by (simp add: node_inv_def core_ok_def)
  show thesis
  proof (cases "in_available inp")
    case False
    then have "s' = tick callback ?s0" "t = Some (sleep_time s')" "rc = 1"
      using assms(3) by (auto simp: dht_periodic_def Let_def)
    then show thesis using that(3) [OF advances_refl [OF i0]] by blast
  next
    case True
    show thesis
    proof (cases "receive inp ?s0")
      case (Inl c)
      then have "s' = ?s0" "t = None" using assms(3) True by (auto simp: dht_periodic_def Let_def)
      then show thesis using that(2) d0 by simp
    next
      case (Inr r)
      show thesis
      proof (cases r)
        case None
        then have "s' = tick callback ?s0" "t = Some (sleep_time s')" "rc = 1"
          using assms(3) True Inr by (auto simp: dht_periodic_def Let_def)
        then show thesis using that(3) [OF advances_refl [OF i0]] by blast
      next
        case (Some p)
        obtain bytes source n where p: "p = (bytes, source, n)" by (cases p)
        let ?s1 = "handle_datagram (in_heap inp) bytes source n ?s0"
        have src: "family_ok (sa_family source)" using received_source [OF assms(2)] Inr Some p by simp
        have run: "dht_periodic inp callback s = (if died ?s1 \<noteq> None then (0, None, ?s1)
            else (1, Some (sleep_time (tick callback ?s1)), tick callback ?s1))"
          using True Inr Some p by (simp add: dht_periodic_def Let_def)
        show thesis
        proof (cases "died ?s1 = None")
          case alive: True
          then have "s' = tick callback ?s1" "t = Some (sleep_time s')" "rc = 1" using run assms(3) by auto
          then show thesis using that(3) [OF advances_datagram [OF i0 src alive]] src by blast
        next
          case False
          then have "s' = ?s1" "t = None" using run assms(3) by auto
          then show thesis using that(1) False by blast
        qed
      qed
    qed
  qed
qed

lemma advances_periodic:
  assumes "node_inv s" "input_ok inp" "dht_periodic inp callback s = (rc, t, s')" "died s' = None"
  shows "advances s s'"
  using assms(1-3)
proof (cases rule: periodic_cases)
  case 2
  then show ?thesis using advances_time(3) [OF assms(1)] by simp
next
  case (3 s1)
  then show ?thesis
    using advances_time(3) [OF assms(1)] advances_tick [OF advances_inv [OF 3(1)], of callback]
    by (blast intro: advances_trans)
qed (use assms(4) in simp)

section \<open>Sleeping\<close>

lemma flush_loop_step_time: "sr_step_time (flush_loop x sr i) = sr_step_time sr"
proof (induction x sr i rule: flush_loop.induct)
  case (1 x sr i)
  then show ?case by (subst flush_loop.simps) (simp add: flush_search_node_def)
qed

lemma broken_node_timers:
  assumes "node_inv s" "id_ok x" "family_ok (sa_family sa)"
  defines "s' \<equiv> broken_node (Some x) sa s"
  shows "now_sec s' = now_sec s" "search_time s' = search_time s" "confirm_nodes_time s' = confirm_nodes_time s"
    "sr_step_time ` set (searches s') = sr_step_time ` set (searches s)"
proof -
  have core: "core_ok s" using assms(1) by (simp add: node_inv_def)
  let ?s1 = "mark_broken x (sa_family sa) s"
  have c: "calm s ?s1" using mark_broken_spec(1) [OF core assms(3,2)] by (rule quiet_calm)
  have e: "s' = ?s1\<lparr>searches := map (without x) (searches ?s1),
      blacklist := (blacklist ?s1)[next_blacklisted ?s1 := sa],
      next_blacklisted := (next_blacklisted ?s1 + 1) mod DHT_MAX_BLACKLISTED\<rparr>"
    using broken_node_eq [OF core assms(2,3)] by (simp add: Let_def s'_def)
  show "now_sec s' = now_sec s" "search_time s' = search_time s" "confirm_nodes_time s' = confirm_nodes_time s"
    using c by (simp_all add: e calm_def timers_def)
  have "searches ?s1 = searches s" by (auto simp: mark_broken_def split: option.split)
  then show "sr_step_time ` set (searches s') = sr_step_time ` set (searches s)"
    by (simp add: e image_image without_def)
qed

lemma datagram_timers:
  assumes "node_inv s" "family_ok (sa_family source)" "died (handle_datagram h bytes source n s) = None"
  defines "s' \<equiv> handle_datagram h bytes source n s"
  shows "now_sec s' = now_sec s \<and> search_time s' = search_time s \<and> confirm_nodes_time s' = confirm_nodes_time s \<and>
    sr_step_time ` set (searches s') = sr_step_time ` set (searches s)"
proof -
  have "died (die f s) \<noteq> None" for f by (cases "died s") (simp_all add: die_def)
  then consider "s' = s" | "s' = snd (token_bucket s)" | x where "id_ok x" "s' = broken_node (Some x) source s"
    using datagram_outcomes [of h bytes source n s] assms(3) unfolding Let_def s'_def by metis
  then show ?thesis
  proof cases
    case 2
    then show ?thesis by (simp add: token_bucket_def Let_def die_def)
  next
    case (3 x)
    then show ?thesis using broken_node_timers [OF assms(1) 3(1) assms(2)] by simp
  qed simp
qed

text \<open>Something is due at time \<open>u\<close>.\<close>

definition due :: "dht \<Rightarrow> int \<Rightarrow> bool" where
  "due s u \<longleftrightarrow> confirm_nodes_time s \<le> u \<or> 0 < search_time s \<and> search_time s \<le> u"

lemma sleep_time_exact:
  assumes "now_sec s < confirm_nodes_time s" "search_time s = 0 \<or> now_sec s \<le> search_time s"
  shows "0 \<le> sleep_time s" "due s (now_sec s + sleep_time s)"
    "now_sec s \<le> u \<Longrightarrow> u < now_sec s + sleep_time s \<Longrightarrow> \<not> due s u"
  using assms by (auto simp: sleep_time_def due_def Let_def split: if_splits)

text \<open>C6. A call of \<open>dht_periodic\<close> that comes to its end tells the caller to sleep exactly until
  something is due again, be it a search step or the maintenance: nothing is due before,
  something is then. The maintenance is always put off, by less than three minutes; and
  after a call in which a search was due, every unfinished search has its next step within
  24 seconds of its last one.\<close>

theorem periodic_sleeps_until_due:
  assumes "node_inv s" and "input_ok inp" and "dht_periodic inp callback s = (rc, Some t, s')"
    and "0 \<le> in_now inp" and "\<forall>sr \<in> set (searches s). 0 \<le> sr_step_time sr" and "0 \<le> search_time s"
  shows "rc = 1 \<and> now_sec s' = in_now inp \<and> 0 \<le> t \<and> due s' (in_now inp + t) \<and>
    (\<forall>u. in_now inp \<le> u \<and> u < in_now inp + t \<longrightarrow> \<not> due s' u) \<and>
    in_now inp < confirm_nodes_time s' \<and>
    (confirm_nodes_time s' < in_now inp + 180 \<or> confirm_nodes_time s' = confirm_nodes_time s) \<and>
    (0 < search_time s \<and> search_time s \<le> in_now inp \<longrightarrow>
      (\<forall>sr \<in> set (searches s'). \<not> sr_done sr \<longrightarrow>
         0 < search_time s' \<and> search_time s' \<le> sr_step_time sr + 24))"
  using assms(1-3)
proof (cases rule: periodic_cases)
  case (3 s1)
  let ?s0 = "s\<lparr>now_sec := in_now inp\<rparr>"
  have i0: "node_inv ?s0" using advances_time(3) [OF assms(1)] by (rule advances_inv)
  have i1: "node_inv s1" using 3(1) by (rule advances_inv)
  have "now_sec s1 = in_now inp \<and> search_time s1 = search_time s \<and> confirm_nodes_time s1 = confirm_nodes_time s \<and>
    sr_step_time ` set (searches s1) = sr_step_time ` set (searches s)"
  proof (cases "s1 = ?s0")
    case False
    then obtain h bytes source n where d: "family_ok (sa_family source)"
        "s1 = handle_datagram h bytes source n ?s0" using 3(5) by blast
    then have "died (handle_datagram h bytes source n ?s0) = None"
      using i1 by (simp add: node_inv_def core_ok_def)
    from datagram_timers [OF i0 d(1) this] show ?thesis by (simp add: d(2))
  qed simp
  then have f: "now_sec s1 = in_now inp" "search_time s1 = search_time s" "confirm_nodes_time s1 = confirm_nodes_time s"
      "sr_step_time ` set (searches s1) = sr_step_time ` set (searches s)" by blast+
  have p: "\<forall>sr \<in> set (searches s1). 0 \<le> sr_step_time sr"
  proof
    fix sr assume "sr \<in> set (searches s1)"
    then have "sr_step_time sr \<in> sr_step_time ` set (searches s)" unfolding f(4) [symmetric] by (rule imageI)
    then show "0 \<le> sr_step_time sr" using assms(5) by auto
  qed
  note ts = tick_schedule [OF i1 _ p, of callback, unfolded f(1,2,3), OF assms(4,6), folded 3(2)]
  have t: "t = sleep_time s'" using 3(3) by simp
  note sl = sleep_time_exact [of s', unfolded ts(1), OF ts(2,4)]
  show ?thesis using 3(4) ts sl unfolding t by blast
qed simp_all

lemma demo_node_inv: "node_inv demo_searching"
  using demo_searching_ok demo_guard_ok demo_storages_ok
  by (simp add: node_inv_def demo_searching_def storages_ok_def)

theorem periodic_sleeps_until_due_witness:
  "\<exists>s' t. dht_periodic \<lparr>in_now = 1000, in_available = False, in_junk = 0,
       in_recv = \<lparr>rv_rc = -1, rv_buf = [], rv_from = demo_peer, rv_fromlen = 16, rv_again = True\<rparr>,
       in_recv6 = \<lparr>rv_rc = -1, rv_buf = [], rv_from = demo_peer, rv_fromlen = 16, rv_again = True\<rparr>,
       in_heap = \<lparr>h_addr = 4096, h_copy = [], h_query = []\<rparr>\<rparr> True demo_searching = (1, Some t, s') \<and>
     0 \<le> t \<and> due s' (1000 + t)"
proof -
  let ?r = "\<lparr>rv_rc = -1, rv_buf = [], rv_from = demo_peer, rv_fromlen = 16, rv_again = True\<rparr>"
  let ?inp = "\<lparr>in_now = 1000, in_available = False, in_junk = 0, in_recv = ?r, in_recv6 = ?r,
       in_heap = \<lparr>h_addr = 4096, h_copy = [], h_query = []\<rparr>\<rparr>"
  let ?s' = "tick True (demo_searching\<lparr>now_sec := 1000\<rparr>)"
  have p: "dht_periodic ?inp True demo_searching = (1, Some (sleep_time ?s'), ?s')"
    by (simp add: dht_periodic_def Let_def)
  have "input_ok ?inp" by (simp add: input_ok_def recv_ok_def demo_peer_def family_ok_def sa_ok_def)
  moreover have "sr_step_time demo_search = 0" by code_simp
  then have "\<forall>sr \<in> set (searches demo_searching). 0 \<le> sr_step_time sr" "0 \<le> search_time demo_searching"
    by (simp_all add: demo_searching_def demo_dht_def dht_start_def)
  ultimately show ?thesis
    using periodic_sleeps_until_due [OF demo_node_inv _ p] p by auto
qed

section \<open>Starting\<close>

text \<open>The statics before the first start: no sockets and no tables.\<close>

definition idle :: "dht \<Rightarrow> bool" where
  "idle s \<longleftrightarrow> dht_socket s < 0 \<and> dht_socket6 s < 0 \<and> buckets s = [] \<and> buckets6 s = [] \<and>
     guard_ok s \<and> died s = None"

lemma zero_bucket_ok: "table_ok af me [zero_bucket af]"
  using shape_initial
  by (simp add: table_ok_def firsts_def zero_bucket_def bucket_ok_def nodes_ok_def no_sockaddr_def)

text \<open>The state before the two expiries at the end of \<open>dht_init\<close>: the tables, then the statics.\<close>

definition init_tables :: "int \<Rightarrow> int \<Rightarrow> dht \<Rightarrow> dht" where
  "init_tables sock sock6 s =
     (let s1 = s\<lparr>searches := [], numsearches := 0, storages := [], numstorage := 0\<rparr>;
          s2 = (if 0 \<le> sock then set_table AF_INET [zero_bucket AF_INET] (snd (calloc s1)) else s1)
      in if 0 \<le> sock6 then set_table AF_INET6 [zero_bucket AF_INET6] (snd (calloc s2)) else s2)"

definition init_statics ::
    "int \<Rightarrow> int \<Rightarrow> byte list \<Rightarrow> byte list option \<Rightarrow> int \<Rightarrow> dht \<Rightarrow> dht" where
  "init_statics sock sock6 ident v now s =
     (let s3 = (case v of
                  None \<Rightarrow> s\<lparr>myid := ident, have_v := False\<rparr>
                | Some x \<Rightarrow> s\<lparr>myid := ident, my_v := ascii ''1:v4:'' @ take 4 x, have_v := True\<rparr>);
          (r, s4) = random (s3\<lparr>now_sec := now, mybucket_grow_time := now, mybucket6_grow_time := now\<rparr>);
          (r', s5) = random (s4\<lparr>confirm_nodes_time := now + int (r mod 3)\<rparr>);
          s6 = rotate_secrets
                 (s5\<lparr>search_id := of_nat r', search_time := 0, next_blacklisted := 0,
                    token_bucket_time := now, token_bucket_tokens := MAX_TOKEN_BUCKET_TOKENS,
                    secret := replicate 8 0\<rparr>)
      in s6\<lparr>dht_socket := sock, dht_socket6 := sock6\<rparr>)"

definition init_state ::
    "int \<Rightarrow> int \<Rightarrow> byte list \<Rightarrow> byte list option \<Rightarrow> int \<Rightarrow> dht \<Rightarrow> dht" where
  "init_state sock sock6 ident v now s = init_statics sock sock6 ident v now (init_tables sock sock6 s)"

lemma init_family_succeeds:
  assumes "\<forall>k. env_calloc s k" "0 \<le> sock \<longrightarrow> 0 \<le> nb"
  shows "init_family af sock nb s =
    Inr (if 0 \<le> sock then set_table af [zero_bucket af] (snd (calloc s)) else s)"
  using assms by (auto simp: init_family_def calloc_def Let_def)

lemma dht_init_state:
  assumes "idle s" "env_ok s" "0 \<le> sock \<longrightarrow> 0 \<le> nb" "0 \<le> sock6 \<longrightarrow> 0 \<le> nb6"
  shows "dht_init sock sock6 ident v nb nb6 now s =
    (1, expire_buckets AF_INET6 (expire_buckets AF_INET (init_state sock sock6 ident v now s)))"
proof -
  let ?s1 = "s\<lparr>searches := [], numsearches := 0, storages := [], numstorage := 0\<rparr>"
  let ?s2 = "if 0 \<le> sock then set_table AF_INET [zero_bucket AF_INET] (snd (calloc ?s1)) else ?s1"
  have a: "\<forall>k. env_calloc ?s1 k" using assms(2) by (simp add: env_ok_def)
  then have b: "\<forall>k. env_calloc ?s2 k" by (simp add: calloc_def set_table_def)
  have n: "\<not> (0 \<le> dht_socket s \<or> 0 \<le> dht_socket6 s \<or> buckets s \<noteq> [] \<or> buckets6 s \<noteq> [])"
    using assms(1) by (simp add: idle_def)
  show ?thesis
    unfolding dht_init_def if_not_P [OF n] init_family_succeeds [OF a assms(3)] sum.case
      init_family_succeeds [OF b assms(4)] init_state_def init_statics_def init_tables_def
    by (simp only: Let_def case_prod_beta)
qed

text \<open>A start that succeeds ends in this state, whatever the environment is like.\<close>

lemma init_family_result:
  "init_family af sock nb s = Inr s' \<Longrightarrow> s' = (if 0 \<le> sock then set_table af [zero_bucket af] (snd (calloc s)) else s)"
  by (auto simp: init_family_def Let_def split: prod.split_asm if_split_asm)

lemma dht_init_result:
  assumes "idle s" "0 \<le> fst (dht_init sock sock6 ident v nb nb6 now s)"
  shows "dht_init sock sock6 ident v nb nb6 now s =
    (1, expire_buckets AF_INET6 (expire_buckets AF_INET (init_state sock sock6 ident v now s)))"
proof -
  let ?s1 = "s\<lparr>searches := [], numsearches := 0, storages := [], numstorage := 0\<rparr>"
  have n: "\<not> (0 \<le> dht_socket s \<or> 0 \<le> dht_socket6 s \<or> buckets s \<noteq> [] \<or> buckets6 s \<noteq> [])"
    using assms(1) by (simp add: idle_def)
  obtain s2 where s2: "init_family AF_INET sock nb ?s1 = Inr s2"
    using assms(2) unfolding dht_init_def if_not_P [OF n] by (cases "init_family AF_INET sock nb ?s1") simp_all
  obtain s3 where s3: "init_family AF_INET6 sock6 nb6 s2 = Inr s3"
    using assms(2) unfolding dht_init_def if_not_P [OF n] s2 sum.case by (cases "init_family AF_INET6 sock6 nb6 s2") simp_all
  have t: "s3 = init_tables sock sock6 s"
    using init_family_result [OF s2] init_family_result [OF s3] by (simp only: init_tables_def Let_def)
  show ?thesis
    unfolding dht_init_def if_not_P [OF n] s2 s3 sum.case init_state_def init_statics_def t
    by (simp only: Let_def case_prod_beta)
qed

lemma init_tables_fields:
  assumes "idle s" "p = init_tables sock sock6 s"
  shows "buckets p = (if 0 \<le> sock then [zero_bucket AF_INET] else [])"
    and "buckets6 p = (if 0 \<le> sock6 then [zero_bucket AF_INET6] else [])"
    and "searches p = []" "storages p = []" "numstorage p = 0" "died p = None"
    and "blacklist p = blacklist s" "env_depth p = env_depth s" "(\<forall>k. env_calloc s k) \<Longrightarrow> env_calloc p k"
  using assms(1) unfolding assms(2) init_tables_def Let_def calloc_def set_table_def idle_def
  by (simp_all add: AF_INET_def AF_INET6_def)

lemma init_statics_fields:
  assumes "p = init_statics sock sock6 ident v now s"
  shows "buckets p = buckets s" "buckets6 p = buckets6 s"
    and "myid p = ident" "searches p = searches s" "storages p = storages s" "numstorage p = numstorage s"
    and "died p = died s" "blacklist p = blacklist s" "next_blacklisted p = 0" "dht_socket p = sock"
    and "dht_socket6 p = sock6" "now_sec p = now" "search_time p = 0"
    and "token_bucket_tokens p = MAX_TOKEN_BUCKET_TOKENS"
    and "env_depth p = env_depth s" "env_calloc p = env_calloc s"
  unfolding assms init_statics_def rotate_secrets_def random_def dht_random_bytes_def Let_def
  by (cases v; simp)+

lemmas init_state_fields = init_statics_fields [OF init_state_def]

lemma init_state_inv:
  assumes "idle s" "id_ok ident"
  shows "node_inv (init_state sock sock6 ident v now s)" "env_ok s \<Longrightarrow> env_ok (init_state sock sock6 ident v now s)"
    "\<not> knows x (init_state sock sock6 ident v now s)"
proof -
  note f = init_state_fields [of sock sock6 ident v now s] init_tables_fields [OF assms(1) refl, of sock sock6]
  have t: "table_ok AF_INET ident (if 0 \<le> sock then [zero_bucket AF_INET] else [])"
    "table_ok AF_INET6 ident (if 0 \<le> sock6 then [zero_bucket AF_INET6] else [])"
    using zero_bucket_ok by (simp_all add: table_ok_def)
  show "node_inv (init_state sock sock6 ident v now s)"
    using t assms(1,2) unfolding inv_defs f by (simp add: idle_def guard_ok_def DHT_MAX_HASHES_def)
  show "env_ok s \<Longrightarrow> env_ok (init_state sock sock6 ident v now s)"
    using f(25) unfolding env_ok_def f(15,16,24) by blast
  show "\<not> knows x (init_state sock sock6 ident v now s)"
    unfolding knows_def f by (simp add: id_in_def in_table_def zero_bucket_def)
qed

lemma dht_init_successful:
  assumes "idle s" and "id_ok ident" and "0 \<le> fst (dht_init sock sock6 ident v nb nb6 now s)"
  shows "let (rc, s') = dht_init sock sock6 ident v nb nb6 now s
    in rc = 1 \<and> node_inv s' \<and> (env_ok s \<longrightarrow> env_ok s') \<and> myid s' = ident \<and> dht_socket s' = sock \<and> dht_socket6 s' = sock6 \<and>
       map b_first (buckets s') = (if 0 \<le> sock then [zeroes] else []) \<and>
       map b_first (buckets6 s') = (if 0 \<le> sock6 then [zeroes] else []) \<and>
       (\<forall>x. \<not> knows x s') \<and> searches s' = [] \<and> storages s' = [] \<and>
       token_bucket_tokens s' = MAX_TOKEN_BUCKET_TOKENS"
proof -
  let ?p = "init_state sock sock6 ident v now s"
  let ?q = "expire_buckets AF_INET ?p"
  let ?s' = "expire_buckets AF_INET6 ?q"
  have fam: "family_ok AF_INET" "family_ok AF_INET6" by (simp_all add: family_ok_def)
  note f = init_state_fields [of sock sock6 ident v now s] init_tables_fields [OF assms(1) refl, of sock sock6]
  note i = init_state_inv [OF assms(1,2), where sock = sock and ?sock6.0 = sock6 and v = v and now = now]
  have a1: "advances ?p ?q" using i(1) fam(1) by (rule advances_expire_buckets)
  have a2: "advances ?q ?s'" using advances_inv [OF a1] fam(2) by (rule advances_expire_buckets)
  have a: "advances ?p ?s'" using a1 a2 by (rule advances_trans)
  have c: "core_ok ?p" "core_ok ?q" using i(1) advances_inv [OF a1] by (simp_all add: node_inv_def)
  note e1 = expire_buckets_table [OF core_ok_table [OF c(1) fam(1)]]
  note e2 = expire_buckets_table [OF core_ok_table [OF c(2) fam(2)]]
  have ne: "AF_INET6 \<noteq> AF_INET" by (simp add: AF_INET_def AF_INET6_def)
  have "table AF_INET ?s' = table AF_INET ?q" "table AF_INET6 ?q = table AF_INET6 ?p"
    using e1(1) e2(1) ne unfolding frame_def by metis+
  then have "firsts (table AF_INET ?s') = firsts (table AF_INET ?p)"
      "firsts (table AF_INET6 ?s') = firsts (table AF_INET6 ?p)"
    using e1(3) e2(3) by simp_all
  then have "firsts (buckets ?s') = firsts (buckets ?p)" "firsts (buckets6 ?s') = firsts (buckets6 ?p)"
    using ne by (simp_all add: table_def)
  then have "map b_first (buckets ?s') = (if 0 \<le> sock then [zeroes] else [])"
      "map b_first (buckets6 ?s') = (if 0 \<le> sock6 then [zeroes] else [])"
    unfolding f by (simp_all add: firsts_def zero_bucket_def table_def AF_INET_def AF_INET6_def)
  moreover have o: "outside ?s' = outside ?p" using e1(1) e2(1) by (simp add: frame_def)
  ultimately show ?thesis
    unfolding dht_init_result [OF assms(1,3)]
    using a i f outside_eq [OF o] timers_outside [OF o]
    by (auto simp: advances_def timers_def)
qed

lemma dht_init_started:
  assumes "idle s" and "env_ok s" and "id_ok ident"
    and "0 \<le> sock \<longrightarrow> 0 \<le> nb" and "0 \<le> sock6 \<longrightarrow> 0 \<le> nb6"
  shows "let (rc, s') = dht_init sock sock6 ident v nb nb6 now s
    in rc = 1 \<and> node_inv s' \<and> env_ok s' \<and> myid s' = ident \<and> dht_socket s' = sock \<and> dht_socket6 s' = sock6 \<and>
       map b_first (buckets s') = (if 0 \<le> sock then [zeroes] else []) \<and>
       map b_first (buckets6 s') = (if 0 \<le> sock6 then [zeroes] else []) \<and>
       (\<forall>x. \<not> knows x s') \<and> searches s' = [] \<and> storages s' = [] \<and>
       token_bucket_tokens s' = MAX_TOKEN_BUCKET_TOKENS"
  using dht_init_successful [OF assms(1,3), of sock sock6 v nb nb6 now] assms(2) dht_init_state [OF assms(1,2,4,5)] by simp

text \<open>A start succeeds when memory is available and the sockets can be made non-blocking; it
  establishes the invariants: one empty bucket over the whole range for each family that
  has a socket, no search, no stored peer, the blacklist in order and all request tokens.\<close>

theorem dht_init_establishes:
  assumes "idle s" and "env_ok s" and "id_ok ident"
    and "0 \<le> sock \<longrightarrow> 0 \<le> nb" and "0 \<le> sock6 \<longrightarrow> 0 \<le> nb6"
  shows "let (rc, s') = dht_init sock sock6 ident v nb nb6 now s
    in rc = 1 \<and> node_inv s' \<and> env_ok s' \<and> myid s' = ident \<and> dht_socket s' = sock \<and> dht_socket6 s' = sock6 \<and>
       map b_first (buckets s') = (if 0 \<le> sock then [zeroes] else []) \<and>
       map b_first (buckets6 s') = (if 0 \<le> sock6 then [zeroes] else []) \<and>
       (\<forall>x. \<not> knows x s') \<and> searches s' = [] \<and> storages s' = [] \<and>
       token_bucket_tokens s' = MAX_TOKEN_BUCKET_TOKENS"
  using assms by (rule dht_init_started)

lemma dht_start_idle: "idle dht_start" "env_ok dht_start"
  by (simp_all add: idle_def guard_ok_def dht_start_def env_ok_def DHT_MAX_BLACKLISTED_def)

theorem dht_init_establishes_witness:
  "let (rc, s') = dht_init 3 4 (replicate 20 1) None 0 0 1000 dht_start
   in rc = 1 \<and> node_inv s' \<and> map b_first (buckets6 s') = [zeroes]"
  using dht_init_establishes [OF dht_start_idle, of "replicate 20 1" 3 0 4 0 None 1000]
  by (auto simp: Let_def)

text \<open>A node starts once. After a successful start every further start is refused, also
  after \<open>dht_uninit\<close>, which does not reset the sockets; \<open>dht_uninit\<close> itself refuses a node
  with IPv6 only, and never frees the IPv6 table. When the IPv6 socket cannot be made
  non-blocking the start fails and leaves its bucket behind, so that no later start succeeds.\<close>

theorem node_starts_once:
  assumes "idle s" and "env_ok s" and "id_ok ident" and "0 \<le> sock \<longrightarrow> 0 \<le> nb" and "0 \<le> sock6"
  shows "(0 \<le> nb6 \<longrightarrow>
      (let s1 = snd (dht_init sock sock6 ident v nb nb6 now s); (rc, s2) = dht_uninit dofree s1
       in rc = (if 0 \<le> sock then 1 else -1) \<and> buckets6 s2 = buckets6 s1 \<and>
          dht_init sock' sock6' ident' v' nb' nb6' now' s2 = (-1, s2))) \<and>
    (nb6 < 0 \<longrightarrow>
      (let (rc, s1) = dht_init sock sock6 ident v nb nb6 now s
       in rc = -1 \<and> dht_init sock' sock6' ident' v' nb' nb6' now' s1 = (-1, s1)))"
proof (intro conjI impI)
  assume "0 \<le> nb6"
  define s1 where "s1 = snd (dht_init sock sock6 ident v nb nb6 now s)"
  have so: "dht_socket s1 = sock" "dht_socket6 s1 = sock6"
    using dht_init_started [OF assms(1-4), of sock6 nb6 v now] \<open>0 \<le> nb6\<close>
    by (auto simp: s1_def case_prod_beta)
  let ?s2 = "snd (dht_uninit dofree s1)"
  have u: "fst (dht_uninit dofree s1) = (if 0 \<le> sock then 1 else -1)" "buckets6 ?s2 = buckets6 s1"
      "dht_socket6 ?s2 = sock6"
    using so by (simp_all add: dht_uninit_def)
  have "dht_init sock' sock6' ident' v' nb' nb6' now' ?s2 = (-1, ?s2)"
    using u(3) assms(5) by (simp add: dht_init_def)
  then show "let s1 = snd (dht_init sock sock6 ident v nb nb6 now s); (rc, s2) = dht_uninit dofree s1
       in rc = (if 0 \<le> sock then 1 else -1) \<and> buckets6 s2 = buckets6 s1 \<and>
          dht_init sock' sock6' ident' v' nb' nb6' now' s2 = (-1, s2)"
    using u(1,2) by (simp add: s1_def [symmetric] case_prod_beta)
next
  assume nb6: "nb6 < 0"
  let ?s1 = "s\<lparr>searches := [], numsearches := 0, storages := [], numstorage := 0\<rparr>"
  define s2 where "s2 = (if 0 \<le> sock then set_table AF_INET [zero_bucket AF_INET] (snd (calloc ?s1)) else ?s1)"
  have n: "\<not> (0 \<le> dht_socket s \<or> 0 \<le> dht_socket6 s \<or> buckets s \<noteq> [] \<or> buckets6 s \<noteq> [])"
    using assms(1) by (simp add: idle_def)
  have a: "\<forall>k. env_calloc ?s1 k" using assms(2) by (simp add: env_ok_def)
  then have "env_calloc s2 0" by (simp add: s2_def calloc_def set_table_def)
  then obtain s3 where s3: "init_family AF_INET6 sock6 nb6 s2 = Inl s3" "buckets6 s3 = [zero_bucket AF_INET6]"
    using nb6 assms(5) by (simp add: init_family_def calloc_def set_table_def AF_INET_def AF_INET6_def Let_def)
  have "dht_init sock sock6 ident v nb nb6 now s = (-1, s3)"
    unfolding dht_init_def if_not_P [OF n] init_family_succeeds [OF a assms(4)] sum.case
      s2_def [symmetric] s3(1) ..
  then show "let (rc, s1) = dht_init sock sock6 ident v nb nb6 now s
       in rc = -1 \<and> dht_init sock' sock6' ident' v' nb' nb6' now' s1 = (-1, s1)"
    using s3(2) by (simp add: dht_init_def)
qed

theorem node_starts_once_witness:
  "let s1 = snd (dht_init 3 4 (replicate 20 1) None 0 (-1) 1000 dht_start)
   in fst (dht_init 3 4 (replicate 20 1) None 0 0 1001 s1) = -1"
  using node_starts_once [OF dht_start_idle, of "replicate 20 1" 3 0 4 "-1" None 1000 False 3 4 "replicate 20 1" None 0 0 1001]
  by (auto simp: Let_def case_prod_beta)

section \<open>Operation\<close>

text \<open>What the application does with a started node.\<close>

datatype action =
    Periodic input bool
  | Search "byte list" int nat bool
  | Insert "byte list" sockaddr int
  | Ping sockaddr int

inductive node_step :: "dht \<Rightarrow> action \<Rightarrow> dht \<Rightarrow> bool" where
  periodic: "died s = None \<Longrightarrow> input_ok inp \<Longrightarrow> dht_periodic inp callback s = (rc, t, s') \<Longrightarrow>
    node_step s (Periodic inp callback) s'"
| search: "died s = None \<Longrightarrow> id_ok x \<Longrightarrow> family_ok af \<Longrightarrow>
    node_step s (Search x port af callback) (snd (dht_search x port af callback s))"
| insert: "died s = None \<Longrightarrow> id_ok x \<Longrightarrow> sa_ok sa \<Longrightarrow> salen \<noteq> 0 \<Longrightarrow>
    node_step s (Insert x sa salen) (snd (dht_insert_node x sa salen s))"
| ping: "died s = None \<Longrightarrow> salen \<noteq> 0 \<Longrightarrow> node_step s (Ping sa salen) (snd (dht_ping_node sa salen s))"

inductive_cases periodicE: "node_step s (Periodic inp callback) s'"
inductive_cases searchE: "node_step s (Search x port af callback) s'"
inductive_cases insertE: "node_step s (Insert x sa salen) s'"
inductive_cases pingE: "node_step s (Ping sa salen) s'"

lemma advances_seeks:
  assumes "node_inv s" "seeks s s'" "core_ok s'"
  shows "advances s s'"
proof -
  obtain a b c d where s': "s' = s\<lparr>searches := a, numsearches := b, search_id := c, env_calloc := d\<rparr>"
      "(\<forall>k. env_calloc s k) \<longrightarrow> (\<forall>k. d k)"
    using assms(2) unfolding seeks_def by blast
  have e: "env_ok s \<longrightarrow> env_ok s'" using s' by (simp add: env_ok_def)
  show ?thesis
    using assms(1,3) e unfolding s'(1) by (simp add: advances_def node_inv_def knows_def storages_ok_def guard_ok_def)
qed

lemma advances_search:
  assumes "node_inv s" "id_ok x" "family_ok af"
  shows "advances s (snd (dht_search x port af callback s))"
proof -
  have c: "core_ok s" using assms(1) by (simp add: node_inv_def)
  obtain s2 where s2: "core_ok s2" "seeks s s2"
    "snd (dht_search x port af callback s) = s2 \<or>
     (\<exists>k < length (searches s2). snd (dht_search x port af callback s) =
        (search_step k callback s2)\<lparr>search_time := now_sec s\<rparr>)"
    using dht_search_steps [OF c assms(2,3), of port callback] by blast
  have a: "advances s s2" using assms(1) s2(2,1) by (rule advances_seeks)
  show ?thesis
    using s2(3)
  proof
    assume "\<exists>k < length (searches s2). snd (dht_search x port af callback s) =
        (search_step k callback s2)\<lparr>search_time := now_sec s\<rparr>"
    then obtain k where k: "k < length (searches s2)" "snd (dht_search x port af callback s) =
        (search_step k callback s2)\<lparr>search_time := now_sec s\<rparr>" by blast
    have b: "advances s2 (search_step k callback s2)"
      using advances_inv [OF a] search_step_calm [OF s2(1) k(1)] by (rule advances_calm)
    show ?thesis
      unfolding k(2) using a b advances_time(1) [OF advances_inv [OF b]] by (blast intro: advances_trans)
  qed (use a in simp)
qed

lemma advances_ping:
  assumes "node_inv s" "salen \<noteq> 0"
  shows "advances s (snd (dht_ping_node sa salen s))"
proof -
  have "core_ok s" using assms(1) by (simp add: node_inv_def)
  then have "upkeep AF_INET s (snd (dht_ping_node sa salen s))"
    unfolding dht_ping_node_def send_ping_def using assms(2) by (rule upkeep_sent)
  with assms(1) show ?thesis by (rule advances_upkeep)
qed

lemma insert_node_learns:
  assumes "node_inv s" "env_ok s" "id_ok x" "sa_ok sa" "salen \<noteq> 0"
  defines "s' \<equiv> snd (dht_insert_node x sa salen s)"
  shows "node_inv s' \<and> env_ok s' \<and> (\<forall>y. knows y s' \<longrightarrow> y = x \<or> knows y s) \<and>
    storages s' = storages s"
proof (cases "sa_family sa = AF_INET")
  case False
  then have "s' = s" by (simp add: s'_def dht_insert_node_def)
  then show ?thesis using assms(1,2) by simp
next
  case True
  have c: "core_ok s" using assms(1) by (simp add: node_inv_def)
  have fam: "family_ok AF_INET" by (simp add: family_ok_def)
  have me: "id_ok (myid s)" using c by (simp add: core_ok_def tables_ok_def)
  have e: "s' = snd (new_node x sa salen 0 s)"
    using True by (simp add: s'_def dht_insert_node_def case_prod_beta)
  have l: "learned AF_INET x s (new_node x sa salen 0 s)"
    using core_ok_table [OF c fam] True assms(2-5) me by (intro new_node_learned) (simp_all add: env_ok_def)
  then have f: "frame AF_INET s s'" and t: "table_ok AF_INET (myid s) (table AF_INET s')"
    and le: "learns x (now_sec s) (table AF_INET s) (table AF_INET s')"
    by (simp_all add: learned_def e)
  have o: "outside s' = outside s" using f by (simp add: frame_def)
  have "tables_ok s'" using c by (intro tables_ok_frame [OF _ f fam t]) (simp add: core_ok_def)
  then have "core_ok s'" using c outside_eq [OF o] by (simp add: core_ok_def searches_ok_def)
  moreover have "table AF_INET6 s' = table AF_INET6 s"
    using f unfolding frame_def by (auto simp: AF_INET_def AF_INET6_def)
  then have "buckets6 s' = buckets6 s" by (simp add: table_def AF_INET_def AF_INET6_def)
  moreover have "y = x \<or> id_in y (buckets s)" if "id_in y (buckets s')" for y
    using le that by (auto simp: learns_def table_def id_in_def)
  moreover have "env_ok s'" using assms(2) f frame_eq(4) [OF f] by (simp add: env_ok_def frame_def)
  ultimately show ?thesis
    using assms(1) outside_eq [OF o] unfolding knows_def
    by (auto simp: node_inv_def storages_ok_def guard_ok_def)
qed

text \<open>
  The invariant of a node in operation, which looks at the actions: as long as it lives, it
  keeps its invariants, stores no peer and knows the nodes it was given, no others.
\<close>

definition given :: "action list \<Rightarrow> byte list set" where
  "given as = {x. \<exists>sa salen. Insert x sa salen \<in> set as}"

definition in_operation :: "action list \<Rightarrow> dht \<Rightarrow> bool" where
  "in_operation as s \<longleftrightarrow> died s = None \<longrightarrow>
     node_inv s \<and> env_ok s \<and> storages s = [] \<and> (\<forall>x. knows x s \<longrightarrow> x \<in> given as)"

lemma in_operation_advances:
  assumes "in_operation as s" "died s = None" "advances s s'"
  shows "in_operation (as @ [a]) s'"
proof -
  have "given as \<subseteq> given (as @ [a])" by (auto simp: given_def)
  then show ?thesis using assms by (auto simp: in_operation_def advances_def)
qed

interpretation node: invariant_machine node_step in_operation
proof
  fix as s a s'
  assume inv: "in_operation as s" and step: "node_step s a s'"
  show "in_operation (as @ [a]) s'"
    using step
  proof (cases rule: node_step.cases)
    case (periodic inp callback rc t)
    then have "node_inv s" using inv by (simp add: in_operation_def)
    then show ?thesis
      using advances_periodic [OF _ periodic(3,4)] in_operation_advances [OF inv periodic(2)]
      by (cases "died s' = None") (auto simp: in_operation_def)
  next
    case (search x af port callback)
    have "node_inv s" using inv search(3) by (simp add: in_operation_def)
    from in_operation_advances [OF inv search(3) advances_search [OF this search(4,5)]]
    show ?thesis unfolding search(2) .
  next
    case (insert x sa salen)
    have "node_inv s" "env_ok s" using inv insert(3) by (simp_all add: in_operation_def)
    moreover have "x \<in> given (as @ [a])" "given as \<subseteq> given (as @ [a])"
      using insert(1) by (auto simp: given_def)
    ultimately show ?thesis
      using insert_node_learns [OF _ _ insert(4-6)] inv insert(2,3) by (auto simp: in_operation_def)
  next
    case (ping salen sa)
    have "node_inv s" using inv ping(3) by (simp add: in_operation_def)
    from in_operation_advances [OF inv ping(3) advances_ping [OF this ping(4)]]
    show ?thesis unfolding ping(2) .
  qed
qed

text \<open>C3. From a successful start on, in whatever order the application runs \<open>dht_periodic\<close>,
  searches, pings and inserts nodes, and whatever datagrams arrive: as long as the process
  lives, all invariants of the tables, searches, storage and blacklist hold; and the routing
  tables hold only identifiers that the application itself inserted, the storage nothing. A
  node that is not told of others never comes to know the network.\<close>

theorem operation_keeps_invariants:
  assumes "idle s0" and "env_ok s0" and "id_ok ident"
    and "0 \<le> sock \<longrightarrow> 0 \<le> nb" and "0 \<le> sock6 \<longrightarrow> 0 \<le> nb6"
    and "dht_init sock sock6 ident v nb nb6 now s0 = (rc, s)"
    and "runs node_step s as s'" and "died s' = None"
  shows "core_ok s' \<and> storages_ok s' \<and> guard_ok s' \<and> storages s' = [] \<and>
    (\<forall>af x. id_in x (table af s') \<longrightarrow> x \<in> given as)"
proof -
  have "in_operation [] s"
    using dht_init_started [OF assms(1-5), of v now] assms(6) by (simp add: in_operation_def)
  with assms(7) have "in_operation as s'" by (rule node.runs_inv)
  then show ?thesis using assms(8) by (auto simp: in_operation_def node_inv_def knows_def table_def split: if_splits)
qed

theorem operation_keeps_invariants_witness:
  "\<exists>s'. runs node_step (snd (dht_init 3 (-1) (replicate 20 1) None 0 0 1000 dht_start))
       [Search (replicate 20 2) 0 AF_INET True, Ping demo_peer 16] s' \<and>
     core_ok s' \<and> storages s' = [] \<and> \<not> id_in (replicate 20 3) (table AF_INET s')"
proof -
  let ?i = "dht_init 3 (-1) (replicate 20 1) None 0 0 1000 dht_start"
  let ?s = "snd ?i"
  have i: "node_inv ?s"
    using dht_init_started [OF dht_start_idle, of "replicate 20 1" 3 0 "-1" 0 None 1000]
    by (simp add: case_prod_beta)
  define s1 where "s1 = snd (dht_search (replicate 20 2) 0 AF_INET True ?s)"
  have i1: "node_inv s1"
    unfolding s1_def by (rule advances_inv [OF advances_search]) (simp_all add: i family_ok_def)
  define s2 where "s2 = snd (dht_ping_node demo_peer 16 s1)"
  have i2: "node_inv s2" unfolding s2_def using i1 by (intro advances_inv [OF advances_ping]) simp_all
  have d: "died ?s = None" "died s1 = None" "died s2 = None"
    using i i1 i2 by (simp_all add: node_inv_def core_ok_def)
  have "node_step ?s (Search (replicate 20 2) 0 AF_INET True) s1"
    unfolding s1_def by (rule search [OF d(1)]) (simp_all add: family_ok_def)
  from runs_more [where step = node_step, OF runs_none this] have r1: "runs node_step ?s [Search (replicate 20 2) 0 AF_INET True] s1" by simp
  have "node_step s1 (Ping demo_peer 16) s2" unfolding s2_def by (rule ping [OF d(2)]) simp
  from runs_more [where step = node_step, OF r1 this]
  have r: "runs node_step ?s [Search (replicate 20 2) 0 AF_INET True, Ping demo_peer 16] s2" by simp
  have "core_ok s2 \<and> storages_ok s2 \<and> guard_ok s2 \<and> storages s2 = [] \<and>
    (\<forall>af x. id_in x (table af s2) \<longrightarrow> x \<in> given [Search (replicate 20 2) 0 AF_INET True, Ping demo_peer 16])"
    using r d(3)
    by (intro operation_keeps_invariants [OF dht_start_idle, of "replicate 20 1" 3 0 "-1" 0 None 1000 "fst ?i" ?s]) simp_all
  then show ?thesis using r by (auto simp: given_def)
qed

end
