(* ===== verification/Dns.thy ===== *)
theory Dns
  imports Ops_Props Dht_Node
begin

text \<open>
  The DNS front end: which names it takes (\<^verbatim>\<open>f4dns_is_valid\<close>), how they are hashed
  (\<^verbatim>\<open>dns.c\<close>, \<^verbatim>\<open>crypto.c\<close>), and what a request does (\<^verbatim>\<open>_f4dns_cb_dnsserver\<close> with \<^verbatim>\<open>op_get.c\<close>).
  A C string is the list of its bytes before the NUL.
\<close>

section \<open>Names\<close>

fun count_char :: "byte list \<Rightarrow> byte \<Rightarrow> nat" where
  "count_char [] c = 0"
| "count_char (x # xs) c = (if x = c then Suc (count_char xs c) else count_char xs c)"

text \<open>\<open>strchr\<close>: the string from the first occurrence on.\<close>

fun strchr :: "byte list \<Rightarrow> byte \<Rightarrow> byte list option" where
  "strchr [] c = None"
| "strchr (x # xs) c = (if x = c then Some (x # xs) else strchr xs c)"

lemma strchr_Some: "strchr s c = Some t \<Longrightarrow> \<exists>pre. s = pre @ t \<and> c \<notin> set pre \<and> hd t = c \<and> t \<noteq> []"
proof (induction s c rule: strchr.induct)
  case (2 x xs c)
  show ?case
  proof (cases "x = c")
    case True
    then show ?thesis using 2(2) by (intro exI [of _ "[]"]) auto
  next
    case False
    then obtain pre where "xs = pre @ t" "c \<notin> set pre" "hd t = c" "t \<noteq> []" using 2 by auto
    then show ?thesis using False by (intro exI [of _ "x # pre"]) auto
  qed
qed simp

lemma strchr_None: "strchr s c = None \<longleftrightarrow> c \<notin> set s"
  by (induction s c rule: strchr.induct) auto

lemma strchr_append: "c \<notin> set pre \<Longrightarrow> strchr (pre @ c # t) c = Some (c # t)"
  by (induction pre) auto

text \<open>The loop over the dots: \<open>b\<close> is behind the last one, \<open>a\<close> behind the one before it.\<close>

function dot_loop :: "byte list option \<Rightarrow> byte list \<Rightarrow> byte list option \<times> byte list" where
  "dot_loop a b = (case strchr b ch_dot of None \<Rightarrow> (a, b) | Some tmp \<Rightarrow> dot_loop (Some b) (tl tmp))"
  by auto
termination
proof (relation "measure (length \<circ> snd)")
  fix b tmp :: "byte list" and a :: "byte list option"
  assume "strchr b ch_dot = Some tmp"
  from strchr_Some [OF this] obtain pre where "b = pre @ tmp" "tmp \<noteq> []" by blast
  then show "((Some b, tl tmp), (a, b)) \<in> measure (length \<circ> snd)" by (cases tmp) simp_all
qed simp

declare dot_loop.simps [simp del]

definition f4dns_is_valid :: "byte list \<Rightarrow> bool res" where
  "f4dns_is_valid fqdn =
     rbind (rassert (3 < length fqdn)) (\<lambda>_.
     if hd fqdn = ch_dot then Inr False
     else case dot_loop None fqdn of
            (None, b) \<Rightarrow> Inr False
          | (Some a, b) \<Rightarrow>
              if b \<noteq> ascii ''key'' then Inr False
              else case strchr a ch_dot of
                     None \<Rightarrow> Inl Assert_Fail
                   | Some tmp \<Rightarrow>
                       let dashes = int (count_char a ch_minus)
                       in if int (length a) - int (length tmp) - dashes \<noteq> 32 then Inr False
                          else Inr True)"

section \<open>Hashing\<close>

text \<open>
  SHA-1 of libgcrypt is a parameter, and whether a digest can be opened. The prefix is
  hashed with its terminating NUL, as \<open>sizeof\<close> counts it.
\<close>

definition hash_prefix :: "byte list" where
  "hash_prefix = ascii ''F4DNS::'' @ [0]"

definition f4dns_hash :: "(byte list \<Rightarrow> byte list) \<Rightarrow> bool \<Rightarrow> byte list \<Rightarrow> byte list res" where
  "f4dns_hash sha1 opened fqn =
     rbind (rassert opened) (\<lambda>_. Inr (take 20 (sha1 (hash_prefix @ fqn))))"

definition f4crypto_hash_fqdn ::
    "(byte list \<Rightarrow> byte list) \<Rightarrow> bool \<Rightarrow> byte list \<Rightarrow> byte \<Rightarrow> byte list res" where
  "f4crypto_hash_fqdn sha1 opened fqdn replica =
     rbind (rassert (fqdn \<noteq> [])) (\<lambda>_.
     rbind (rassert opened) (\<lambda>_. Inr (take 20 (sha1 (hash_prefix @ fqdn @ [replica])))))"

section \<open>Requests\<close>

text \<open>The constants of libevent.\<close>

definition EVDNS_TYPE_A :: int where "EVDNS_TYPE_A = 1"
definition EVDNS_TYPE_NS :: int where "EVDNS_TYPE_NS = 2"
definition EVDNS_TYPE_SOA :: int where "EVDNS_TYPE_SOA = 6"
definition EVDNS_TYPE_PTR :: int where "EVDNS_TYPE_PTR = 12"
definition EVDNS_TYPE_MX :: int where "EVDNS_TYPE_MX = 15"
definition EVDNS_TYPE_TXT :: int where "EVDNS_TYPE_TXT = 16"
definition EVDNS_TYPE_AAAA :: int where "EVDNS_TYPE_AAAA = 28"
definition DNS_ERR_NOTEXIST :: int where "DNS_ERR_NOTEXIST = 3"

record question =
  q_name :: "byte list"
  q_type :: int

definition type_name :: "int \<Rightarrow> byte list res" where
  "type_name t =
     (if t = EVDNS_TYPE_A then Inr (ascii ''A'')
      else if t = EVDNS_TYPE_AAAA then Inr (ascii ''AAAA'')
      else if t = EVDNS_TYPE_MX then Inr (ascii ''MX'')
      else if t = EVDNS_TYPE_NS then Inr (ascii ''NS'')
      else if t = EVDNS_TYPE_PTR then Inr (ascii ''PTR'')
      else if t = EVDNS_TYPE_SOA then Inr (ascii ''SOA'')
      else if t = EVDNS_TYPE_TXT then Inr (ascii ''TXT'')
      else Inl Assert_Fail)"

text \<open>
  What a request touches: the pending operations, the hash table, and the responses sent.
  \<open>call\<close> turns the absence of a result into a fault.
\<close>

record resolver =
  r_ops :: f4ops
  r_dht :: dht
  r_responses :: "(addr \<times> int) list"

definition call :: "'a option \<Rightarrow> 'a res" where
  "call m = (case m of None \<Rightarrow> Inl Null_Deref | Some x \<Rightarrow> Inr x)"

lemma call_Some [simp]: "call (Some x) = Inr x"
  by (simp add: call_def)

text \<open>The services a request uses: SHA-1, opening a digest, and \<open>strdup\<close>.\<close>

record services =
  sv_sha1 :: "byte list \<Rightarrow> byte list"
  sv_opened :: bool
  sv_strdup :: "byte list \<Rightarrow> byte list option"

text \<open>\<^verbatim>\<open>opget_dns_callback\<close>: remember the request and start a search without a callback.\<close>

definition run_dns_callback :: "addr \<Rightarrow> addr \<Rightarrow> resolver \<Rightarrow> resolver res" where
  "run_dns_callback p req s =
     rbind (call (op_at (r_ops s) p)) (\<lambda>x.
     rbind (rassert (op_dns x \<noteq> None)) (\<lambda>_.
     rbind (call (set_request req p (r_ops s))) (\<lambda>d.
       let d' = snd (dht_search (op_id x) 0 AF_INET False (r_dht s))
       in case died d' of
            Some f \<Rightarrow> Inl f
          | None \<Rightarrow> Inr (s\<lparr>r_ops := d, r_dht := d'\<rparr>))))"

definition answer_question :: "services \<Rightarrow> addr \<Rightarrow> question \<Rightarrow> resolver \<Rightarrow> resolver res" where
  "answer_question sv req q s =
     rbind (type_name (q_type q)) (\<lambda>r_type.
     rbind (f4crypto_hash_fqdn (sv_sha1 sv) (sv_opened sv) (q_name q) 0) (\<lambda>ident.
     rbind (call (f4op_new F4OP_MODE_GET ident (r_ops s))) (\<lambda>(p, d).
     rbind (call (op_at d p)) (\<lambda>x.
     rbind (run_dns_callback p req
              (s\<lparr>r_ops := put_op p (x\<lparr>op_type := sv_strdup sv r_type, op_fqn := sv_strdup sv (q_name q)\<rparr>) d\<rparr>)) (\<lambda>s.
     rbind (call (f4op_add p (r_ops s))) (\<lambda>(_, d). Inr (s\<lparr>r_ops := d\<rparr>)))))))"

text \<open>
  The loop over the questions, which ends at the first name that is not valid. The context
  of the callback is not NULL.
\<close>

fun f4dns_cb_dnsserver :: "services \<Rightarrow> addr \<Rightarrow> question list \<Rightarrow> resolver \<Rightarrow> resolver res" where
  "f4dns_cb_dnsserver sv req [] s = Inr s"
| "f4dns_cb_dnsserver sv req (q # qs) s =
     rbind (f4dns_is_valid (q_name q)) (\<lambda>valid.
     if \<not> valid then Inr (s\<lparr>r_responses := r_responses s @ [(req, DNS_ERR_NOTEXIST)]\<rparr>)
     else rbind (answer_question sv req q s) (\<lambda>s. f4dns_cb_dnsserver sv req qs s))"

end
