(* ===== verification/Gcrypt.thy ===== *)
theory Gcrypt
  imports Prelude
begin

text \<open>
  The numbers of libgcrypt, as \<^verbatim>\<open>seccure\<close> uses them. An \<^verbatim>\<open>mpi\<close> is the integer it holds; comparing,
  adding, subtracting, multiplying, dividing, shifting and reading a bit are the operations
  on integers. What libgcrypt computes beyond that is a parameter, the record \<open>gcry\<close>, and
  \<open>gcry_ok\<close> says what its manual promises: arithmetic modulo a number, and the big-endian form
  of a number. Hashing, encryption and random numbers have their own parameters where they
  are used. Allocation in secure memory is taken to succeed.
\<close>

section \<open>The interface\<close>

text \<open>
  The arguments are in the order of the library's functions, without the result: \<open>mpi_mulm g u v m\<close>
  for \<^verbatim>\<open>gcry_mpi_mulm(w, u, v, m)\<close>. \<open>mpi_usg\<close> is \<^verbatim>\<open>gcry_mpi_print\<close> and \<open>mpi_scan\<close> is \<^verbatim>\<open>gcry_mpi_scan\<close> in the
  format \<^verbatim>\<open>GCRYMPI_FMT_USG\<close>; \<open>mpi_hex\<close> is \<^verbatim>\<open>gcry_mpi_scan\<close> in the format \<^verbatim>\<open>GCRYMPI_FMT_HEX\<close>, which may fail.
\<close>

record gcry =
  mpi_addm :: "int \<Rightarrow> int \<Rightarrow> int \<Rightarrow> int"
  mpi_subm :: "int \<Rightarrow> int \<Rightarrow> int \<Rightarrow> int"
  mpi_mulm :: "int \<Rightarrow> int \<Rightarrow> int \<Rightarrow> int"
  mpi_powm :: "int \<Rightarrow> int \<Rightarrow> int \<Rightarrow> int"
  mpi_invm :: "int \<Rightarrow> int \<Rightarrow> int"
  mpi_usg :: "int \<Rightarrow> byte list"
  mpi_scan :: "byte list \<Rightarrow> int"
  mpi_hex :: "string \<Rightarrow> int option"

text \<open>\<^verbatim>\<open>gcry_mpi_get_nbits\<close>: the number of binary digits.\<close>

fun nat_bits :: "nat \<Rightarrow> nat" where
  "nat_bits n = (if n = 0 then 0 else Suc (nat_bits (n div 2)))"

declare nat_bits.simps [simp del]

definition mpi_nbits :: "int \<Rightarrow> nat" where
  "mpi_nbits x = nat_bits (nat \<bar>x\<bar>)"

text \<open>Hexadecimal numbers.\<close>

definition hex_digit :: "char \<Rightarrow> nat option" where
  "hex_digit c = first_index (\<lambda>d. d = c) ''0123456789abcdef''"

fun hex_val :: "int \<Rightarrow> string \<Rightarrow> int option" where
  "hex_val x [] = Some x"
| "hex_val x (c # cs) = (case hex_digit c of None \<Rightarrow> None | Some d \<Rightarrow> hex_val (16 * x + int d) cs)"

definition gcry_ok :: "gcry \<Rightarrow> bool" where
  "gcry_ok g \<longleftrightarrow>
     (\<forall>u v m. 0 < m \<longrightarrow> mpi_addm g u v m = (u + v) mod m) \<and>
     (\<forall>u v m. 0 < m \<longrightarrow> mpi_subm g u v m = (u - v) mod m) \<and>
     (\<forall>u v m. 0 < m \<longrightarrow> mpi_mulm g u v m = (u * v) mod m) \<and>
     (\<forall>b e m. 0 < m \<longrightarrow> 0 \<le> e \<longrightarrow> mpi_powm g b e m = b ^ nat e mod m) \<and>
     (\<forall>a m. 1 < m \<longrightarrow> coprime a m \<longrightarrow>
        0 \<le> mpi_invm g a m \<and> mpi_invm g a m < m \<and> a * mpi_invm g a m mod m = 1) \<and>
     (\<forall>x. 0 \<le> x \<longrightarrow> int (be_val (mpi_usg g x)) = x \<and> length (mpi_usg g x) = (mpi_nbits x + 7) div 8) \<and>
     (\<forall>bs. mpi_scan g bs = int (be_val bs)) \<and>
     (\<forall>s x. hex_val 0 s = Some x \<longrightarrow> mpi_hex g s = Some x)"

lemma gcry_okD:
  assumes "gcry_ok g"
  shows "0 < m \<Longrightarrow> mpi_addm g u v m = (u + v) mod m"
    and "0 < m \<Longrightarrow> mpi_subm g u v m = (u - v) mod m"
    and "0 < m \<Longrightarrow> mpi_mulm g u v m = (u * v) mod m"
    and "0 < m \<Longrightarrow> 0 \<le> e \<Longrightarrow> mpi_powm g b e m = b ^ nat e mod m"
    and "0 \<le> x \<Longrightarrow> int (be_val (mpi_usg g x)) = x"
    and "0 \<le> x \<Longrightarrow> length (mpi_usg g x) = (mpi_nbits x + 7) div 8"
    and "mpi_scan g bs = int (be_val bs)"
    and "hex_val 0 s = Some v \<Longrightarrow> mpi_hex g s = Some v"
  using assms by (simp_all add: gcry_ok_def)

lemma gcry_ok_invm:
  assumes "gcry_ok g" "1 < m" "coprime a m"
  shows "0 \<le> mpi_invm g a m" "mpi_invm g a m < m" "a * mpi_invm g a m mod m = 1"
  using assms by (simp_all add: gcry_ok_def)

section \<open>The number of bits\<close>

lemma nat_bits_0 [simp]: "nat_bits 0 = 0"
  by (simp add: nat_bits.simps)

lemma nat_bits_le: "nat_bits n \<le> k \<longleftrightarrow> n < 2 ^ k"
proof (induction n arbitrary: k rule: nat_bits.induct)
  case (1 n)
  show ?case
  proof (cases "n = 0")
    case False
    then show ?thesis
    proof (cases k)
      case (Suc j)
      have "nat_bits n \<le> k \<longleftrightarrow> nat_bits (n div 2) \<le> j"
        using False Suc by (simp add: nat_bits.simps [of n])
      also have "\<dots> \<longleftrightarrow> n div 2 < 2 ^ j"
        using False by (rule 1)
      also have "\<dots> \<longleftrightarrow> n < 2 ^ k"
        unfolding Suc by (simp add: div_less_iff_less_mult mult.commute)
      finally show ?thesis .
    qed (simp add: nat_bits.simps [of n])
  qed simp
qed

lemma less_nat_bits: "n < 2 ^ nat_bits n"
  using nat_bits_le [of n "nat_bits n"] by simp

lemma octets_le: "(nat_bits n + 7) div 8 \<le> k \<longleftrightarrow> n < 256 ^ k"
proof -
  have "(nat_bits n + 7) div 8 < k + 1 \<longleftrightarrow> nat_bits n + 7 < (k + 1) * 8"
    by (rule div_less_iff_less_mult) simp
  then have "(nat_bits n + 7) div 8 \<le> k \<longleftrightarrow> nat_bits n \<le> 8 * k"
    by linarith
  also have "\<dots> \<longleftrightarrow> n < 2 ^ (8 * k)"
    by (rule nat_bits_le)
  also have "(2 :: nat) ^ (8 * k) = 256 ^ k"
    by (simp add: power_mult)
  finally show ?thesis .
qed

section \<open>The interface is not empty\<close>

text \<open>
  A record of functions that satisfies \<open>gcry_ok\<close>, for concrete runs of the model: powers by
  squaring, inverses by search, the digits of a number by division.
\<close>

fun octets_of :: "nat \<Rightarrow> nat \<Rightarrow> byte list" where
  "octets_of 0 x = []"
| "octets_of (Suc n) x = octets_of n (x div 256) @ [of_nat (x mod 256)]"

lemma length_octets_of [simp]: "length (octets_of n x) = n"
  by (induction n arbitrary: x) simp_all

lemma be_val_octets_of: "be_val (octets_of n x) = x mod 256 ^ n"
proof (induction n arbitrary: x)
  case (Suc n)
  have "unat (of_nat (x mod 256) :: byte) = x mod 256"
    by (simp add: unat_of_nat)
  with Suc show ?case
    by (simp add: be_val_append mod_mult2_eq)
qed simp

fun pow_mod :: "int \<Rightarrow> nat \<Rightarrow> int \<Rightarrow> int" where
  "pow_mod b e m =
     (if e = 0 then 1 mod m
      else (let h = pow_mod (b * b mod m) (e div 2) m in if even e then h else b * h mod m))"

declare pow_mod.simps [simp del]

lemma pow_mod_eq: "pow_mod b e m = b ^ e mod m"
proof (induction b e m rule: pow_mod.induct)
  case (1 b e m)
  show ?case
  proof (cases "e = 0")
    case False
    have h: "pow_mod (b * b mod m) (e div 2) m = (b * b) ^ (e div 2) mod m"
      using 1 [OF False] by (simp add: power_mod)
    have "(b * b) ^ (e div 2) = b ^ (2 * (e div 2))"
      by (simp add: power_mult power2_eq_square)
    moreover have "odd e \<Longrightarrow> b * b ^ (2 * (e div 2)) = b ^ e"
      by (metis odd_two_times_div_two_succ power_Suc Suc_eq_plus1)
    ultimately show ?thesis
      using False h by (auto simp: pow_mod.simps [of b e m] Let_def mod_mult_right_eq)
  qed (simp add: pow_mod.simps)
qed

definition inv_search :: "int \<Rightarrow> int \<Rightarrow> int" where
  "inv_search a m = (case first_index (\<lambda>k. a * int k mod m = 1) [0..<nat m] of None \<Rightarrow> 0 | Some k \<Rightarrow> int k)"

lemma inv_search_correct:
  assumes "1 < m" "coprime a m"
  shows "0 \<le> inv_search a m \<and> inv_search a m < m \<and> a * inv_search a m mod m = 1"
proof -
  obtain u v where "u * a + v * m = 1"
    using bezout_int [of a m] assms(2) by auto
  then have "(u * a + v * m) mod m = 1"
    using assms(1) by simp
  then have "a * (u mod m) mod m = 1"
    by (simp add: mod_mult_right_eq mult.commute)
  moreover have u: "u mod m = int (nat (u mod m))" "nat (u mod m) < nat m"
    using assms(1) by (simp_all add: nat_less_iff)
  ultimately have "first_index (\<lambda>k. a * int k mod m = 1) [0..<nat m] \<noteq> None"
    unfolding first_index_None by (metis atLeast0LessThan atLeast_upt lessThan_iff)
  then obtain k where k: "first_index (\<lambda>k. a * int k mod m = 1) [0..<nat m] = Some k"
    by blast
  then have "int k < m \<and> a * int k mod m = 1"
    by (auto simp: first_index_Some zless_nat_eq_int_zless)
  with k show ?thesis
    by (simp add: inv_search_def)
qed

definition int_gcry :: gcry where
  "int_gcry =
     \<lparr>mpi_addm = \<lambda>u v m. (u + v) mod m, mpi_subm = \<lambda>u v m. (u - v) mod m,
      mpi_mulm = \<lambda>u v m. (u * v) mod m, mpi_powm = \<lambda>b e m. pow_mod b (nat e) m,
      mpi_invm = inv_search, mpi_usg = \<lambda>x. octets_of ((mpi_nbits x + 7) div 8) (nat x),
      mpi_scan = \<lambda>bs. int (be_val bs), mpi_hex = hex_val 0\<rparr>"

lemma int_gcry_ok: "gcry_ok int_gcry"
proof -
  have "nat x mod 256 ^ ((mpi_nbits x + 7) div 8) = nat x" if "0 \<le> x" for x
    using that octets_le [of "nat x" "(nat_bits (nat x) + 7) div 8"] by (simp add: mpi_nbits_def)
  then show ?thesis
    using inv_search_correct unfolding gcry_ok_def int_gcry_def
    by (simp add: pow_mod_eq be_val_octets_of)
qed

end
