(* ===== verification/Modular.thy ===== *)
theory Modular
  imports Main
begin

text \<open>
  Arithmetic modulo a prime, as far as square roots and curves need it: congruence, Fermat's
  theorem, the number of roots of a polynomial, and that some number is not a square.
\<close>

section \<open>Congruence\<close>

definition eqm :: "int \<Rightarrow> int \<Rightarrow> int \<Rightarrow> bool" where
  "eqm p a b \<longleftrightarrow> a mod p = b mod p"

lemma eqm_refl [simp, intro]: "eqm p a a"
  by (simp add: eqm_def)

lemma eqm_sym: "eqm p a b \<Longrightarrow> eqm p b a"
  by (simp add: eqm_def)

lemma eqm_trans [trans]: "eqm p a b \<Longrightarrow> eqm p b c \<Longrightarrow> eqm p a c"
  by (simp add: eqm_def)

lemma eqm_add: "eqm p a b \<Longrightarrow> eqm p c d \<Longrightarrow> eqm p (a + c) (b + d)"
  unfolding eqm_def by (rule mod_add_cong)

lemma eqm_diff: "eqm p a b \<Longrightarrow> eqm p c d \<Longrightarrow> eqm p (a - c) (b - d)"
  unfolding eqm_def by (rule mod_diff_cong)

lemma eqm_mult: "eqm p a b \<Longrightarrow> eqm p c d \<Longrightarrow> eqm p (a * c) (b * d)"
  unfolding eqm_def by (rule mod_mult_cong)

lemma eqm_power: "eqm p a b \<Longrightarrow> eqm p (a ^ n) (b ^ n)"
  by (induction n) (simp_all add: eqm_mult)

lemma eqm_mod [simp]: "eqm p (a mod p) b \<longleftrightarrow> eqm p a b" "eqm p a (b mod p) \<longleftrightarrow> eqm p a b"
  by (simp_all add: eqm_def)

lemma eqm_dvd: "eqm p a b \<longleftrightarrow> p dvd a - b"
  by (simp add: eqm_def mod_eq_dvd_iff)

lemma eqm_small: "0 \<le> a \<Longrightarrow> a < p \<Longrightarrow> 0 \<le> b \<Longrightarrow> b < p \<Longrightarrow> eqm p a b \<longleftrightarrow> a = b"
  by (simp add: eqm_def)

section \<open>Primes\<close>

definition prime_number :: "int \<Rightarrow> bool" where
  "prime_number p \<longleftrightarrow> 1 < p \<and> (\<forall>d \<in> {2..<p}. \<not> d dvd p)"

lemma prime_gt_1: "prime_number p \<Longrightarrow> 1 < p"
  by (simp add: prime_number_def)

lemma prime_coprime:
  assumes "prime_number p" "\<not> p dvd a"
  shows "coprime a p"
proof -
  have p: "1 < p" using assms(1) by (rule prime_gt_1)
  let ?d = "gcd a p"
  have "?d dvd p" "0 < ?d" "?d \<le> p"
    using p by (auto intro: zdvd_imp_le)
  moreover have "?d \<noteq> p"
    using assms(2) by (metis gcd_dvd1)
  moreover have "?d \<notin> {2..<p}"
    using assms(1) \<open>?d dvd p\<close> by (auto simp: prime_number_def)
  ultimately have "?d = 1"
    unfolding atLeastLessThan_iff by linarith
  then show ?thesis
    by (simp add: coprime_iff_gcd_eq_1)
qed

lemma prime_dvd_mult:
  assumes "prime_number p"
  shows "p dvd a * b \<longleftrightarrow> p dvd a \<or> p dvd b"
  using prime_coprime [OF assms, of a] coprime_dvd_mult_right_iff [of p a b] by (auto simp: coprime_commute)

lemma prime_dvd_power: "prime_number p \<Longrightarrow> p dvd a ^ n \<Longrightarrow> p dvd a"
  by (induction n) (auto simp: prime_dvd_mult dest: prime_gt_1)

lemma prime_cancel:
  assumes "prime_number p" "\<not> p dvd c" "eqm p (c * a) (c * b)"
  shows "eqm p a b"
  using assms by (simp add: eqm_dvd prime_dvd_mult flip: right_diff_distrib)

lemma prime_not_dvd: "0 < a \<Longrightarrow> a < p \<Longrightarrow> \<not> p dvd (a :: int)"
  using zdvd_imp_le [of p a] by auto

lemma square_one:
  assumes "prime_number p" "eqm p (a * a) 1"
  shows "eqm p a 1 \<or> eqm p a (- 1)"
proof -
  have "p dvd (a - 1) * (a + 1)"
    using assms(2) by (simp add: eqm_dvd algebra_simps)
  then show ?thesis
    using assms(1) by (simp add: prime_dvd_mult eqm_dvd)
qed

section \<open>Fermat's theorem\<close>

lemma prime_dvd_prod:
  assumes "prime_number p" "finite A" "\<And>x. x \<in> A \<Longrightarrow> \<not> p dvd f x"
  shows "\<not> p dvd prod f A"
  using assms(2,3) prime_gt_1 [OF assms(1)]
  by (induction A rule: finite_induct) (auto simp: prime_dvd_mult [OF assms(1)])

lemma fermat:
  assumes "prime_number p" "\<not> p dvd a"
  shows "eqm p (a ^ nat (p - 1)) 1"
proof -
  have p: "1 < p" using assms(1) by (rule prime_gt_1)
  define S where "S = {1..<p}"
  define f where "f x = a * x mod p" for x
  have units: "\<not> p dvd x" if "x \<in> S" for x
    using that prime_not_dvd [of x p] by (simp add: S_def)
  have maps: "f x \<in> S" if "x \<in> S" for x
  proof -
    have "\<not> p dvd a * x"
      using units [OF that] assms by (simp add: prime_dvd_mult)
    then have "a * x mod p \<noteq> 0"
      by (simp add: dvd_eq_mod_eq_0)
    moreover have "0 \<le> a * x mod p" "a * x mod p < p"
      using p by simp_all
    ultimately show ?thesis
      by (simp add: f_def S_def)
  qed
  have inj: "inj_on f S"
  proof (rule inj_onI)
    fix x y assume *: "x \<in> S" "y \<in> S" "f x = f y"
    then have "eqm p (a * x) (a * y)"
      by (simp add: f_def eqm_def)
    then have "eqm p x y"
      by (rule prime_cancel [OF assms])
    with *(1,2) show "x = y"
      using eqm_small [of x p y] by (simp add: S_def)
  qed
  have perm: "f ` S = S"
    by (rule endo_inj_surj [OF _ _ inj]) (auto simp: S_def intro: maps [unfolded S_def])
  let ?P = "\<Prod>x\<in>S. x"
  have "prod f S = ?P"
    using prod.reindex [OF inj, of "\<lambda>x. x"] unfolding perm comp_def by (rule sym)
  moreover have "eqm p (prod f S) (\<Prod>x\<in>S. a * x)"
    unfolding eqm_def f_def by (rule mod_prod_eq)
  moreover have "(\<Prod>x\<in>S. a * x) = a ^ card S * ?P"
    by (simp only: prod.distrib prod_constant)
  moreover have "card S = nat (p - 1)"
    by (simp add: S_def)
  ultimately have e: "eqm p ?P (a ^ nat (p - 1) * ?P)"
    by (simp only:)
  have "eqm p (?P * 1) (?P * a ^ nat (p - 1))"
    using e by (simp only: mult.commute [of ?P] mult_1_left)
  moreover have "\<not> p dvd ?P"
    by (rule prime_dvd_prod [OF assms(1)]) (simp_all add: S_def units [unfolded S_def])
  ultimately have "eqm p 1 (a ^ nat (p - 1))"
    using prime_cancel [OF assms(1)] by blast
  then show ?thesis
    by (rule eqm_sym)
qed

section \<open>Roots of polynomials\<close>

text \<open>Functions that are monic polynomials of a degree.\<close>

inductive monic :: "nat \<Rightarrow> (int \<Rightarrow> int) \<Rightarrow> bool" where
  "monic 0 (\<lambda>x. 1)"
| "monic n g \<Longrightarrow> monic (Suc n) (\<lambda>x. x * g x + c)"

lemma monic_factor:
  assumes "monic n f" "0 < n"
  shows "\<exists>q. monic (n - 1) q \<and> (\<forall>x. f x - f r = (x - r) * q x)"
  using assms
proof (induction rule: monic.induct)
  case (2 n g c)
  show ?case
  proof (cases n)
    case 0
    with 2(1) have "g = (\<lambda>x. 1)" by (auto elim: monic.cases)
    with 0 show ?thesis by (auto intro!: exI [of _ "\<lambda>x. 1"] monic.intros)
  next
    case (Suc m)
    then obtain q where "monic m q" "\<And>x. g x - g r = (x - r) * q x"
      using 2 by auto
    have "(x * g x + c) - (r * g r + c) = (x - r) * (x * q x + g r)" for x
    proof -
      have "(x * g x + c) - (r * g r + c) = x * (g x - g r) + (x - r) * g r"
        by (simp add: algebra_simps)
      also have "\<dots> = (x - r) * (x * q x + g r)"
        by (simp only: \<open>\<And>x. g x - g r = (x - r) * q x\<close>) (simp add: algebra_simps)
      finally show ?thesis .
    qed
    moreover have "monic n (\<lambda>x. x * q x + g r)"
      unfolding Suc using \<open>monic m q\<close> by (rule monic.intros)
    ultimately show ?thesis by auto
  qed
qed simp

lemma monic_roots:
  assumes "prime_number p" "monic n f"
  shows "card {x \<in> {0..<p}. p dvd f x} \<le> n"
  using assms(2)
proof (induction n arbitrary: f)
  case 0
  then have "f = (\<lambda>x. 1)" by (auto elim: monic.cases)
  then show ?case using prime_gt_1 [OF assms(1)] by simp
next
  case (Suc n)
  show ?case
  proof (cases "{x \<in> {0..<p}. p dvd f x} = {}")
    case False
    then obtain r where r: "0 \<le> r" "r < p" "p dvd f r" by auto
    obtain q where q: "monic n q" "\<And>x. f x - f r = (x - r) * q x"
      using monic_factor [OF Suc.prems] by auto
    have "x = r \<or> p dvd q x" if "0 \<le> x" "x < p" "p dvd f x" for x
    proof -
      have "p dvd (x - r) * q x"
        using that r by (simp flip: q(2))
      then show ?thesis
        using prime_dvd_mult [OF assms(1)] eqm_small [of x p r] that r by (auto simp: eqm_dvd)
    qed
    then have "{x \<in> {0..<p}. p dvd f x} \<subseteq> insert r {x \<in> {0..<p}. p dvd q x}" by auto
    moreover have fin: "finite {x \<in> {0..<p}. p dvd q x}"
      by (rule finite_subset [of _ "{0..<p}"]) auto
    ultimately have "card {x \<in> {0..<p}. p dvd f x} \<le> card (insert r {x \<in> {0..<p}. p dvd q x})"
      by (intro card_mono finite.insertI)
    also have "\<dots> \<le> Suc n"
      using Suc.IH [OF q(1)] card_insert_le_m1 [of "Suc n" "{x \<in> {0..<p}. p dvd q x}" r] by simp
    finally show ?thesis .
  next
    case True
    then show ?thesis by (simp only: card.empty)
  qed
qed

lemma monic_power: "monic n (\<lambda>x. x ^ n)"
proof (induction n)
  case (Suc n)
  then show ?case using monic.intros(2) [of n "\<lambda>x. x ^ n" 0] by simp
qed (simp add: monic.intros)

lemma non_square_exists:
  assumes "prime_number p" "2 < p"
  shows "\<exists>n \<in> {2..<p}. \<not> eqm p (n ^ nat (p div 2)) 1"
proof (rule ccontr)
  assume "\<not> ?thesis"
  then have all: "eqm p (x ^ nat (p div 2)) 1" if "x \<in> {2..<p}" for x using that by blast
  obtain k where k: "nat (p div 2) = Suc k"
    using assms(2) by (cases "nat (p div 2)") auto
  have "monic (Suc k) (\<lambda>x. x * x ^ k + - 1)"
    by (intro monic.intros monic_power)
  then have "card {x \<in> {0..<p}. p dvd x * x ^ k + - 1} \<le> Suc k"
    by (rule monic_roots [OF assms(1)])
  moreover have "{1..<p} \<subseteq> {x \<in> {0..<p}. p dvd x * x ^ k + - 1}"
  proof
    fix x assume "x \<in> {1..<p}"
    then show "x \<in> {x \<in> {0..<p}. p dvd x * x ^ k + - 1}"
      using all [of x] k by (cases "x = 1") (auto simp: eqm_dvd)
  qed
  moreover have "finite {x \<in> {0..<p}. p dvd x * x ^ k + - 1}"
    by (rule finite_subset [of _ "{0..<p}"]) auto
  ultimately have "card {1..<p} \<le> Suc k"
    by (meson card_mono le_trans)
  then have "nat (p - 1) \<le> nat (p div 2)"
    using k by simp
  then show False
    using assms(2) by linarith
qed

end
