(* ===== verification/Numtheory.thy ===== *)
theory Numtheory
  imports Gcrypt Modular
begin

text \<open>
  \<^verbatim>\<open>seccure/numtheory.c\<close>: Euler's criterion and square roots modulo a prime. The loops of \<^verbatim>\<open>mod_root\<close>
  need not end for every modulus, so they are partial functions, and it is proved that they
  end for an odd prime.
\<close>

section \<open>The code\<close>

text \<open>A loop that does not end is the fault \<open>No_Return\<close>.\<close>

definition returns :: "'a option \<Rightarrow> 'a res" where
  "returns r = (case r of None \<Rightarrow> Inl No_Return | Some x \<Rightarrow> Inr x)"

lemma returns_simps [simp]: "returns None = Inl No_Return" "returns (Some x) = Inr x"
  by (simp_all add: returns_def)

definition mod_issquare :: "gcry \<Rightarrow> int \<Rightarrow> int \<Rightarrow> bool" where
  "mod_issquare g a p = (if a \<noteq> 0 then mpi_powm g a (drop_bit 1 p) p = 1 else True)"

text \<open>The four loops of \<^verbatim>\<open>mod_root\<close>, in their order.\<close>

partial_function (option) nonsquare_loop :: "gcry \<Rightarrow> int \<Rightarrow> int \<Rightarrow> int option" where
  "nonsquare_loop g p n = (if mod_issquare g n p then nonsquare_loop g p (n + 1) else Some n)"

partial_function (option) twos_loop :: "int \<Rightarrow> nat \<Rightarrow> nat option" where
  "twos_loop q r = (if \<not> bit q r then twos_loop q (r + 1) else Some r)"

partial_function (option) order_loop :: "gcry \<Rightarrow> int \<Rightarrow> int \<Rightarrow> nat \<Rightarrow> nat option" where
  "order_loop g p h m = (if h \<noteq> 1 then order_loop g p (mpi_mulm g h h p) (m + 1) else Some m)"

text \<open>\<open>r - m - 1\<close> is an \<open>int\<close> and becomes an unsigned argument of \<^verbatim>\<open>gcry_mpi_set_bit\<close>.\<close>

partial_function (option) root_loop ::
  "gcry \<Rightarrow> int \<Rightarrow> int \<Rightarrow> int \<Rightarrow> int \<Rightarrow> nat \<Rightarrow> int option" where
  "root_loop g p x y b r =
     (if b \<noteq> 1 then
        Option.bind (order_loop g p (mpi_mulm g b b p) 1) (\<lambda>m.
          let h = set_bit (nat ((int r - int m - 1) mod 2 ^ 32)) 0;
              t = mpi_powm g y h p;
              y = mpi_mulm g t t p;
              x = mpi_mulm g x t p;
              b = mpi_mulm g b y p
          in root_loop g p x y b m)
      else Some x)"

definition root_steps :: "gcry \<Rightarrow> int \<Rightarrow> int \<Rightarrow> int option" where
  "root_steps g a p =
     Option.bind (nonsquare_loop g p 2) (\<lambda>n.
     Option.bind (twos_loop (p - 1) 0) (\<lambda>r.
       let q = drop_bit r (p - 1);
           y = mpi_powm g n q p;
           h = drop_bit 1 q;
           b = mpi_powm g a h p;
           x = mpi_mulm g a b p;
           b = mpi_mulm g b x p
       in root_loop g p x y b r))"

text \<open>The result \<open>None\<close> is the return value 0, and \<open>Some x\<close> the return value 1 with the root \<open>x\<close>.\<close>

definition mod_root :: "gcry \<Rightarrow> int \<Rightarrow> int \<Rightarrow> int option res" where
  "mod_root g a p =
     (if a = 0 then Inr (Some 0)
      else if \<not> mod_issquare g a p then Inr None
      else rbind (returns (root_steps g a p)) (\<lambda>x. Inr (Some x)))"

section \<open>Euler's criterion\<close>

lemma mod_issquare:
  assumes "gcry_ok g" "1 < p" "a \<noteq> 0"
  shows "mod_issquare g a p \<longleftrightarrow> eqm p (a ^ nat (p div 2)) 1"
  using assms by (simp add: mod_issquare_def gcry_okD drop_bit_int_def eqm_def)

lemma odd_prime_half: "odd (p :: int) \<Longrightarrow> 1 < p \<Longrightarrow> nat (p - 1) = 2 * nat (p div 2)"
  by (elim oddE) (simp add: nat_mult_distrib)

lemma half_power_square:
  assumes "prime_number p" "odd p" "\<not> p dvd a"
  shows "eqm p (a ^ nat (p div 2) * a ^ nat (p div 2)) 1"
proof -
  have "a ^ nat (p div 2) * a ^ nat (p div 2) = a ^ nat (p - 1)"
    using odd_prime_half [OF assms(2) prime_gt_1 [OF assms(1)]] by (simp add: mult_2 power_add)
  then show ?thesis
    using fermat [OF assms(1,3)] by simp
qed

lemma square_half_power:
  assumes "prime_number p" "odd p" "\<not> p dvd a" "eqm p (x * x) a"
  shows "eqm p (a ^ nat (p div 2)) 1"
proof -
  have "\<not> p dvd x"
    using assms(3,4) by (metis dvd_mult eqm_def mod_0_imp_dvd dvd_imp_mod_0)
  then have "eqm p (x ^ nat (p - 1)) 1"
    by (rule fermat [OF assms(1)])
  moreover have "x ^ nat (p - 1) = (x * x) ^ nat (p div 2)"
    using odd_prime_half [OF assms(2) prime_gt_1 [OF assms(1)]] by (simp add: power_mult power2_eq_square)
  ultimately show ?thesis
    using eqm_power [OF assms(4), of "nat (p div 2)"] eqm_sym eqm_trans by metis
qed

section \<open>The loops end\<close>

lemma nonsquare_loop:
  assumes "gcry_ok g" "prime_number p" "2 < p"
  shows "\<exists>n. nonsquare_loop g p 2 = Some n \<and> \<not> p dvd n \<and> \<not> eqm p (n ^ nat (p div 2)) 1"
proof -
  obtain w where w: "2 \<le> w" "w < p" "\<not> eqm p (w ^ nat (p div 2)) 1"
    using non_square_exists [OF assms(2,3)] by auto
  have "\<exists>n. nonsquare_loop g p k = Some n \<and> \<not> p dvd n \<and> \<not> eqm p (n ^ nat (p div 2)) 1"
    if "2 \<le> k" "k \<le> w" for k
    using that
  proof (induction "nat (w - k)" arbitrary: k)
    case 0
    then show ?case
      using w assms prime_not_dvd [of w p] by (subst nonsquare_loop.simps) (simp add: mod_issquare)
  next
    case (Suc d)
    show ?case
    proof (cases "mod_issquare g k p")
      case True
      have "\<exists>n. nonsquare_loop g p (k + 1) = Some n \<and> \<not> p dvd n \<and> \<not> eqm p (n ^ nat (p div 2)) 1"
        by (rule Suc.hyps(1)) (use Suc in auto)
      with True show ?thesis by (subst nonsquare_loop.simps) simp
    next
      case False
      then show ?thesis
        using Suc w assms prime_not_dvd [of k p] by (subst nonsquare_loop.simps) (simp add: mod_issquare)
    qed
  qed
  from this [of 2] w show ?thesis by simp
qed

lemma twos_loop:
  assumes "0 < q"
  shows "\<exists>r. twos_loop q 0 = Some r \<and> q = 2 ^ r * drop_bit r q \<and> odd (drop_bit r q)"
proof -
  obtain w where w: "bit q w"
    using assms bit_eq_iff [of q 0] by auto
  have "\<exists>r. twos_loop q k = Some r \<and> q = 2 ^ r * drop_bit r q \<and> odd (drop_bit r q)"
    if "k \<le> w" "q = 2 ^ k * drop_bit k q" for k
    using that
  proof (induction "w - k" arbitrary: k)
    case 0
    with w show ?case by (subst twos_loop.simps) (simp add: bit_iff_odd_drop_bit)
  next
    case (Suc d)
    show ?case
    proof (cases "bit q k")
      case False
      then have "even (drop_bit k q)" by (simp add: bit_iff_odd_drop_bit)
      then have "drop_bit k q = 2 * drop_bit (Suc k) q"
        by (simp add: drop_bit_Suc drop_bit_half)
      then have "q = 2 ^ Suc k * drop_bit (Suc k) q"
        using Suc.prems(2) by simp
      with Suc have "\<exists>r. twos_loop q (Suc k) = Some r \<and> q = 2 ^ r * drop_bit r q \<and> odd (drop_bit r q)"
        by (intro Suc.hyps(1)) auto
      with False show ?thesis by (subst twos_loop.simps) simp
    next
      case True
      with Suc.prems(2) show ?thesis
        by (subst twos_loop.simps) (auto simp: bit_iff_odd_drop_bit)
    qed
  qed
  from this [of 0] show ?thesis by simp
qed

lemma order_loop:
  assumes "gcry_ok g" "1 < p"
  shows "0 \<le> h \<Longrightarrow> h < p \<Longrightarrow> eqm p (h ^ 2 ^ k) 1 \<Longrightarrow> (\<And>j. j < k \<Longrightarrow> \<not> eqm p (h ^ 2 ^ j) 1) \<Longrightarrow>
    order_loop g p h m = Some (m + k)"
proof (induction k arbitrary: h m)
  case 0
  then show ?case using assms eqm_small [of h p 1] by (subst order_loop.simps) simp
next
  case (Suc k)
  have "h \<noteq> 1" using Suc.prems(4) [of 0] by auto
  have sq: "eqm p ((h * h mod p) ^ 2 ^ j) (h ^ 2 ^ Suc j)" for j
  proof -
    have "eqm p ((h * h mod p) ^ 2 ^ j) ((h * h) ^ 2 ^ j)"
      by (intro eqm_power) simp
    then show ?thesis by (simp add: power_mult power2_eq_square)
  qed
  have "order_loop g p (h * h mod p) (m + 1) = Some (m + 1 + k)"
  proof (rule Suc.IH)
    show "eqm p ((h * h mod p) ^ 2 ^ k) 1"
      using sq [of k] Suc.prems(3) by (rule eqm_trans)
    show "\<not> eqm p ((h * h mod p) ^ 2 ^ j) 1" if "j < k" for j
      using Suc.prems(4) [of "Suc j"] that eqm_trans [OF eqm_sym [OF sq [of j]]] by blast
  qed (use assms(2) in simp_all)
  with \<open>h \<noteq> 1\<close> assms show ?case
    by (subst order_loop.simps) (simp add: gcry_okD)
qed

section \<open>The root\<close>

lemma power_two_Suc: "(c :: int) ^ 2 ^ Suc j = c ^ 2 ^ j * c ^ 2 ^ j"
  by (simp add: mult_2 power_add)

lemma square_powers:
  assumes "eqm p h (b * b)"
  shows "eqm p (h ^ 2 ^ j) (b ^ 2 ^ Suc j)"
proof -
  have "(b * b) ^ 2 ^ j = b ^ 2 ^ Suc j"
    by (simp add: power_mult power2_eq_square)
  with eqm_power [OF assms, of "2 ^ j"] show ?thesis
    by simp
qed

text \<open>
  What the last loop maintains: \<open>x\<close> is a root of \<open>a b\<close>, and the orders of \<open>y\<close> and \<open>b\<close> are \<open>2 ^ r\<close>
  and a smaller power of two.
\<close>

definition root_inv :: "int \<Rightarrow> int \<Rightarrow> int \<Rightarrow> int \<Rightarrow> int \<Rightarrow> nat \<Rightarrow> bool" where
  "root_inv p a x y b r \<longleftrightarrow>
     0 < r \<and> 0 \<le> b \<and> b < p \<and> 0 \<le> x \<and> x < p \<and> eqm p (x * x) (a * b) \<and>
     eqm p (y ^ 2 ^ (r - 1)) (- 1) \<and> eqm p (b ^ 2 ^ (r - 1)) 1"

lemma order_of:
  assumes "gcry_ok g" "1 < p" "root_inv p a x y b r" "b \<noteq> 1"
  shows "\<exists>m. order_loop g p (mpi_mulm g b b p) 1 = Some m \<and> 0 < m \<and> m < r \<and>
    eqm p (b ^ 2 ^ m) 1 \<and> \<not> eqm p (b ^ 2 ^ (m - 1)) 1"
proof -
  define m where "m = (LEAST m. eqm p (b ^ 2 ^ m) 1)"
  have r: "eqm p (b ^ 2 ^ (r - 1)) 1" "0 < r" "0 \<le> b" "b < p"
    using assms(3) by (simp_all add: root_inv_def)
  have one: "eqm p (b ^ 2 ^ m) 1" and "m \<le> r - 1"
    unfolding m_def using r(1) by (rule LeastI, intro Least_le)
  have least: "\<not> eqm p (b ^ 2 ^ j) 1" if "j < m" for j
    using that not_less_Least unfolding m_def by blast
  have "m \<noteq> 0"
  proof
    assume "m = 0"
    with one have "eqm p b 1" by simp
    then show False using eqm_small [of b p 1] r assms(2,4) by simp
  qed
  then obtain k where k: "m = Suc k" by (cases m) simp
  let ?h = "mpi_mulm g b b p"
  have h: "?h = b * b mod p" using assms(1,2) by (simp add: gcry_okD)
  have sq: "eqm p (?h ^ 2 ^ j) (b ^ 2 ^ Suc j)" for j
    by (rule square_powers) (simp add: h)
  have "order_loop g p ?h 1 = Some (1 + k)"
  proof (rule order_loop [OF assms(1,2)])
    show "eqm p (?h ^ 2 ^ k) 1"
      using sq [of k] one unfolding k by (rule eqm_trans)
    show "\<not> eqm p (?h ^ 2 ^ j) 1" if "j < k" for j
      using least [of "Suc j"] that eqm_trans [OF eqm_sym [OF sq [of j]]] unfolding k by blast
  qed (use assms(2) h in simp_all)
  then show ?thesis
    using one least [of k] \<open>m \<le> r - 1\<close> r(2) unfolding k by (intro exI [of _ "Suc k"]) auto
qed

lemma root_inv_step:
  assumes "prime_number p" "root_inv p a x y b r" "0 < m" "m < r" "eqm p (b ^ 2 ^ m) 1"
    "\<not> eqm p (b ^ 2 ^ (m - 1)) 1" "eqm p t (y ^ 2 ^ (r - m - 1))"
  shows "root_inv p a (x * t mod p) (t * t mod p) (b * (t * t mod p) mod p) m"
proof -
  have i: "eqm p (x * x) (a * b)" "eqm p (y ^ 2 ^ (r - 1)) (- 1)"
    using assms(2) by (simp_all add: root_inv_def)
  have p: "0 < p" using prime_gt_1 [OF assms(1)] by simp
  let ?y = "t * t mod p"
  have yt: "eqm p ?y (y ^ 2 ^ (r - m))"
  proof -
    have "eqm p (t * t) (y ^ 2 ^ (r - m - 1) * y ^ 2 ^ (r - m - 1))"
      by (intro eqm_mult assms(7))
    also have "y ^ 2 ^ (r - m - 1) * y ^ 2 ^ (r - m - 1) = y ^ 2 ^ (r - m)"
      using assms(4) power_two_Suc [of y "r - m - 1"] by (simp add: Suc_diff_Suc)
    finally show ?thesis by simp
  qed
  have y: "eqm p (?y ^ 2 ^ (m - 1)) (- 1)"
  proof -
    have "eqm p (?y ^ 2 ^ (m - 1)) ((y ^ 2 ^ (r - m)) ^ 2 ^ (m - 1))"
      by (intro eqm_power yt)
    also have "(y ^ 2 ^ (r - m)) ^ 2 ^ (m - 1) = y ^ 2 ^ (r - 1)"
      using assms(3,4) by (simp flip: power_mult power_add)
    finally show ?thesis using i(2) by (rule eqm_trans)
  qed
  have "eqm p (b ^ 2 ^ (m - 1) * b ^ 2 ^ (m - 1)) 1"
    using assms(3,5) power_two_Suc [of b "m - 1"] by simp
  then have b: "eqm p (b ^ 2 ^ (m - 1)) (- 1)"
    using square_one [OF assms(1)] assms(6) by blast
  have "eqm p ((b * ?y mod p) ^ 2 ^ (m - 1)) ((b * ?y) ^ 2 ^ (m - 1))"
    by (intro eqm_power) simp
  also have "(b * ?y) ^ 2 ^ (m - 1) = b ^ 2 ^ (m - 1) * ?y ^ 2 ^ (m - 1)"
    by (rule power_mult_distrib)
  also have "eqm p \<dots> (- 1 * - 1)"
    by (intro eqm_mult b y)
  finally have b': "eqm p ((b * ?y mod p) ^ 2 ^ (m - 1)) 1" by simp
  have "eqm p (x * t mod p * (x * t mod p)) (x * t * (x * t))"
    by (intro eqm_mult) simp_all
  also have "x * t * (x * t) = x * x * (t * t)" by simp
  also have "eqm p \<dots> (a * b * ?y)"
    by (intro eqm_mult i(1)) simp
  also have "eqm p \<dots> (a * (b * ?y mod p))"
    unfolding mult.assoc by (intro eqm_mult) simp_all
  finally show ?thesis
    using y b' p assms(3) by (simp add: root_inv_def)
qed

lemma root_loop:
  assumes "gcry_ok g" "prime_number p"
  shows "root_inv p a x y b r \<Longrightarrow> r < 2 ^ 32 \<Longrightarrow>
    \<exists>z. root_loop g p x y b r = Some z \<and> 0 \<le> z \<and> z < p \<and> eqm p (z * z) a"
proof (induction r arbitrary: x y b rule: less_induct)
  case (less r)
  have p: "1 < p" using assms(2) by (rule prime_gt_1)
  show ?case
  proof (cases "b = 1")
    case True
    with less.prems show ?thesis
      by (subst root_loop.simps) (simp add: root_inv_def)
  next
    case False
    obtain m where m: "order_loop g p (mpi_mulm g b b p) 1 = Some m" "0 < m" "m < r"
      "eqm p (b ^ 2 ^ m) 1" "\<not> eqm p (b ^ 2 ^ (m - 1)) 1"
      using order_of [OF assms(1) p less.prems(1) False] by blast
    have e: "set_bit (nat ((int r - int m - 1) mod 2 ^ 32)) 0 = (2 :: int) ^ (r - m - 1)"
    proof -
      have "int r - int m - 1 = int (r - m - 1)" using m(3) by simp
      moreover have "r - m - 1 < 2 ^ 32" using less.prems(2) by simp
      ultimately have "nat ((int r - int m - 1) mod 2 ^ 32) = r - m - 1"
        by (simp add: nat_mod_as_int flip: of_nat_diff)
      then show ?thesis by (simp add: set_bit_eq_or push_bit_eq_mult)
    qed
    define t where "t = mpi_powm g y (2 ^ (r - m - 1)) p"
    have t: "eqm p t (y ^ 2 ^ (r - m - 1))"
      using p assms(1) by (simp add: t_def gcry_okD nat_power_eq)
    have "\<exists>z. root_loop g p (x * t mod p) (t * t mod p) (b * (t * t mod p) mod p) m = Some z \<and>
        0 \<le> z \<and> z < p \<and> eqm p (z * z) a"
      using less.prems(2) m(3) by (intro less.IH root_inv_step [OF assms(2) less.prems(1) m(2-5) t]) simp_all
    moreover have "root_loop g p x y b r =
        root_loop g p (mpi_mulm g x t p) (mpi_mulm g t t p) (mpi_mulm g b (mpi_mulm g t t p) p) m"
      using False m(1) by (subst root_loop.simps) (simp only: Let_def e t_def not_False_eq_True if_True bind.simps)
    ultimately show ?thesis
      using p assms(1) by (simp add: gcry_okD)
  qed
qed

lemma root_steps:
  assumes "gcry_ok g" "prime_number p" "odd p" "mpi_nbits p < 2 ^ 31" "0 < a" "a < p"
    "eqm p (a ^ nat (p div 2)) 1"
  shows "\<exists>x. root_steps g a p = Some x \<and> 0 \<le> x \<and> x < p \<and> eqm p (x * x) a"
proof -
  have p: "2 < p" using assms(3) prime_gt_1 [OF assms(2)] by (cases "p = 2") auto
  obtain n where n: "nonsquare_loop g p 2 = Some n" "\<not> p dvd n" "\<not> eqm p (n ^ nat (p div 2)) 1"
    using nonsquare_loop [OF assms(1,2) p] by blast
  obtain r where r: "twos_loop (p - 1) 0 = Some r" "p - 1 = 2 ^ r * drop_bit r (p - 1)"
    "odd (drop_bit r (p - 1))"
    using twos_loop [of "p - 1"] p by auto
  define q where "q = drop_bit r (p - 1)"
  have q: "p - 1 = 2 ^ r * q" "odd q"
    using r(2,3) unfolding q_def by simp_all
  have "0 < 2 ^ r * q"
    using p by (simp flip: q(1))
  then have q3: "0 < q"
    by (rule zero_less_mult_pos) simp
  have r0: "0 < r"
    using q(1,2) assms(3) by (cases r) auto
  have half: "nat (p div 2) = 2 ^ (r - 1) * nat q"
  proof -
    have "p div 2 = (p - 1) div 2" using assms(3) by (elim oddE) simp
    also have "\<dots> = 2 ^ (r - 1) * q" using r0 unfolding q(1) by (cases r) simp_all
    finally show ?thesis using q3 by (simp add: nat_mult_distrib nat_power_eq)
  qed
  have bound: "r < 2 ^ 32"
  proof -
    have "(2 :: int) ^ r \<le> 2 ^ r * q" using q3 by simp
    also have "\<dots> < p" using q(1) by simp
    also have "p < 2 ^ mpi_nbits p"
      using p less_nat_bits [of "nat p"] by (simp add: mpi_nbits_def nat_less_iff)
    finally have "r < mpi_nbits p" by (rule power_less_imp_less_exp [rotated]) simp
    then show ?thesis using assms(4) by simp
  qed
  define b0 where "b0 = mpi_powm g a (drop_bit 1 q) p"
  define x where "x = a * b0 mod p"
  define b where "b = b0 * x mod p"
  define y where "y = mpi_powm g n q p"
  have b0: "b0 = a ^ nat (q div 2) mod p"
    using p q3 assms(1) by (simp add: b0_def gcry_okD drop_bit_int_def)
  have y: "eqm p (y ^ 2 ^ (r - 1)) (- 1)"
  proof -
    have "eqm p (y ^ 2 ^ (r - 1)) ((n ^ nat q) ^ 2 ^ (r - 1))"
      using p q3 assms(1) by (intro eqm_power) (simp add: y_def gcry_okD)
    also have "(n ^ nat q) ^ 2 ^ (r - 1) = n ^ nat (p div 2)"
      unfolding half by (simp add: mult.commute flip: power_mult)
    also have "eqm p \<dots> (- 1)"
      using square_one [OF assms(2) half_power_square [OF assms(2,3) n(2)]] n(3) by blast
    finally show ?thesis .
  qed
  have aq: "eqm p b (a ^ nat q)"
  proof -
    have "eqm p b0 (a ^ nat (q div 2))" using b0 by simp
    then have "eqm p (b0 * x) (a ^ nat (q div 2) * (a * a ^ nat (q div 2)))"
      by (intro eqm_mult) (simp_all add: x_def eqm_mult)
    moreover have "q = q div 2 + (q div 2 + 1)" "0 \<le> q div 2"
      using q(2) q3 by (auto elim!: oddE)
    then have "nat q = nat (q div 2) + Suc (nat (q div 2))"
      by linarith
    then have "a ^ nat (q div 2) * (a * a ^ nat (q div 2)) = a ^ nat q"
      by (simp flip: power_Suc power_add)
    ultimately show ?thesis by (simp add: b_def)
  qed
  have b: "eqm p (b ^ 2 ^ (r - 1)) 1"
  proof -
    have "eqm p (b ^ 2 ^ (r - 1)) ((a ^ nat q) ^ 2 ^ (r - 1))"
      by (intro eqm_power aq)
    also have "(a ^ nat q) ^ 2 ^ (r - 1) = a ^ nat (p div 2)"
      unfolding half by (simp add: mult.commute flip: power_mult)
    finally show ?thesis using assms(7) by (rule eqm_trans)
  qed
  have "eqm p (x * x) (a * b)"
  proof -
    have "eqm p (x * x) (a * b0 * x)" by (intro eqm_mult) (simp_all add: x_def)
    also have "eqm p (a * b0 * x) (a * b)"
      unfolding mult.assoc by (intro eqm_mult) (simp_all add: b_def)
    finally show ?thesis .
  qed
  then have "root_inv p a x y b r"
    using y b r0 p by (simp add: root_inv_def x_def b_def)
  then have "\<exists>x'. root_loop g p x y b r = Some x' \<and> 0 \<le> x' \<and> x' < p \<and> eqm p (x' * x') a"
    using bound by (rule root_loop [OF assms(1,2)])
  moreover have "root_steps g a p = root_loop g p x y b r"
    using p assms(1)
    by (simp only: root_steps_def n(1) r(1) bind.simps Let_def b_def x_def b0_def y_def q_def) (simp add: gcry_okD)
  ultimately show ?thesis by simp
qed

lemma mod_root:
  assumes "gcry_ok g" "prime_number p" "odd p" "mpi_nbits p < 2 ^ 31" "0 \<le> a" "a < p"
  shows "(\<exists>x. mod_root g a p = Inr (Some x) \<and> 0 \<le> x \<and> x < p \<and> x * x mod p = a) \<or>
    mod_root g a p = Inr None \<and> (\<forall>x. x * x mod p \<noteq> a)"
proof -
  have p: "1 < p" using assms(2) by (rule prime_gt_1)
  consider "a = 0" | "a \<noteq> 0" "eqm p (a ^ nat (p div 2)) 1" | "a \<noteq> 0" "\<not> eqm p (a ^ nat (p div 2)) 1"
    by blast
  then show ?thesis
  proof cases
    case 1
    with p show ?thesis by (auto simp: mod_root_def)
  next
    case 2
    obtain x where "root_steps g a p = Some x" "0 \<le> x" "x < p" "eqm p (x * x) a"
      using root_steps [OF assms(1-4) _ assms(6) 2(2)] 2(1) assms(5) by auto
    with 2 p assms show ?thesis
      by (auto simp: mod_root_def mod_issquare eqm_def)
  next
    case 3
    have "x * x mod p \<noteq> a" for x
      using square_half_power [OF assms(2,3) prime_not_dvd [OF _ assms(6)], of x] 3 assms(5,6)
      by (auto simp: eqm_def)
    with 3 p assms show ?thesis
      by (simp add: mod_root_def mod_issquare)
  qed
qed

text \<open>C37. Square roots modulo an odd prime: \<^verbatim>\<open>mod_root\<close> ends, it fails exactly if there is no root, and
  what it returns is a root in the range of the residues.\<close>

theorem mod_root_correct:
  assumes "gcry_ok g" "prime_number p" "odd p" "mpi_nbits p < 2 ^ 31" "0 \<le> a" "a < p"
  shows "(\<exists>x. mod_root g a p = Inr (Some x) \<and> 0 \<le> x \<and> x < p \<and> x * x mod p = a) \<or>
    mod_root g a p = Inr None \<and> (\<forall>x. x * x mod p \<noteq> a)"
  using assms by (rule mod_root)

end
