(* ===== verification/Ecc.thy ===== *)
theory Ecc
  imports Numtheory
begin

text \<open>
  \<^verbatim>\<open>seccure/ecc.c\<close>: points of an elliptic curve \<open>y\<^sup>2 = x\<^sup>3 + a x + b\<close> modulo a prime, in affine and
  in Jacobian coordinates. The affine point (0, 0) stands for the neutral element, and so does
  a Jacobian point with \<open>z = 0\<close>. A function that changes a point through a pointer returns the
  changed point; \<^verbatim>\<open>point_release\<close> and \<^verbatim>\<open>jacobian_release\<close> free numbers only.
\<close>

section \<open>Affine points\<close>

record affine_point =
  pt_x :: int
  pt_y :: int

record jacobian_point =
  jac_x :: int
  jac_y :: int
  jac_z :: int

record domain_params =
  dp_a :: int
  dp_b :: int
  dp_m :: int
  dp_order :: int
  dp_base :: affine_point
  dp_cofactor :: int

definition point_new :: affine_point where
  "point_new = \<lparr>pt_x = 0, pt_y = 0\<rparr>"

definition point_set :: "affine_point \<Rightarrow> affine_point \<Rightarrow> affine_point" where
  "point_set p1 p2 = p1\<lparr>pt_x := pt_x p2, pt_y := pt_y p2\<rparr>"

definition point_load_zero :: "affine_point \<Rightarrow> affine_point" where
  "point_load_zero p = p\<lparr>pt_x := 0, pt_y := 0\<rparr>"

definition point_is_zero :: "affine_point \<Rightarrow> bool" where
  "point_is_zero p \<longleftrightarrow> pt_x p = 0 \<and> pt_y p = 0"

definition point_on_curve :: "gcry \<Rightarrow> affine_point \<Rightarrow> domain_params \<Rightarrow> bool" where
  "point_on_curve g p dp =
     (if \<not> point_is_zero p then
        (let h1 = mpi_mulm g (pt_x p) (pt_x p) (dp_m dp);
             h1 = mpi_addm g h1 (dp_a dp) (dp_m dp);
             h1 = mpi_mulm g h1 (pt_x p) (dp_m dp);
             h1 = mpi_addm g h1 (dp_b dp) (dp_m dp);
             h2 = mpi_mulm g (pt_y p) (pt_y p) (dp_m dp)
         in h1 = h2)
      else True)"

definition point_compress :: "affine_point \<Rightarrow> bool" where
  "point_compress p = bit (pt_y p) 0"

text \<open>The flag is the value 0 or 1 of an \<open>int\<close>, here a truth value.\<close>

definition point_decompress :: "gcry \<Rightarrow> int \<Rightarrow> bool \<Rightarrow> domain_params \<Rightarrow> affine_point option res" where
  "point_decompress g x yflag dp =
     (let h = mpi_mulm g x x (dp_m dp);
          h = mpi_addm g h (dp_a dp) (dp_m dp);
          h = mpi_mulm g h x (dp_m dp);
          h = mpi_addm g h (dp_b dp) (dp_m dp)
      in rbind (mod_root g h (dp_m dp)) (\<lambda>root.
           case root of
             None \<Rightarrow> Inr None
           | Some y \<Rightarrow>
               if y \<noteq> 0 \<or> \<not> yflag then
                 (let p = \<lparr>pt_x = x, pt_y = (if bit y 0 = yflag then y else dp_m dp - y)\<rparr>
                  in rbind (rassert (point_on_curve g p dp)) (\<lambda>_. Inr (Some p)))
               else Inr None))"

definition point_double :: "gcry \<Rightarrow> affine_point \<Rightarrow> domain_params \<Rightarrow> affine_point" where
  "point_double g p dp =
     (let m = dp_m dp; x = pt_x p; y = pt_y p
      in if y \<noteq> 0 then
           (let t2 = mpi_mulm g x x m;
                t1 = mpi_addm g t2 t2 m;
                t1 = mpi_addm g t1 t2 m;
                t1 = mpi_addm g t1 (dp_a dp) m;
                t2 = mpi_addm g y y m;
                t2 = mpi_invm g t2 m;
                t1 = mpi_mulm g t1 t2 m;
                t2 = mpi_mulm g t1 t1 m;
                t2 = mpi_subm g t2 x m;
                t2 = mpi_subm g t2 x m;
                x = mpi_subm g x t2 m;
                t1 = mpi_mulm g t1 x m;
                y = mpi_subm g t1 y m;
                x = t2
            in p\<lparr>pt_x := x, pt_y := y\<rparr>)
         else p\<lparr>pt_x := 0\<rparr>)"

definition point_add :: "gcry \<Rightarrow> affine_point \<Rightarrow> affine_point \<Rightarrow> domain_params \<Rightarrow> affine_point" where
  "point_add g p1 p2 dp =
     (let m = dp_m dp; x1 = pt_x p1; y1 = pt_y p1; x2 = pt_x p2; y2 = pt_y p2
      in if \<not> point_is_zero p2 then
           if \<not> point_is_zero p1 then
             if x1 = x2 then
               if y1 = y2 then point_double g p1 dp else point_load_zero p1
             else
               (let t = mpi_subm g y1 y2 m;
                    y1 = mpi_subm g x1 x2 m;
                    y1 = mpi_invm g y1 m;
                    y1 = mpi_mulm g t y1 m;
                    t = mpi_mulm g y1 y1 m;
                    x1 = mpi_addm g x1 x2 m;
                    x1 = mpi_subm g t x1 m;
                    t = mpi_subm g x2 x1 m;
                    y1 = mpi_mulm g y1 t m;
                    y1 = mpi_subm g y1 y2 m
                in p1\<lparr>pt_x := x1, pt_y := y1\<rparr>)
           else point_set p1 p2
         else p1)"

section \<open>Jacobian points\<close>

definition jacobian_new :: jacobian_point where
  "jacobian_new = \<lparr>jac_x = 0, jac_y = 0, jac_z = 0\<rparr>"

definition jacobian_load_affine :: "jacobian_point \<Rightarrow> affine_point \<Rightarrow> jacobian_point" where
  "jacobian_load_affine p1 p2 =
     (if \<not> point_is_zero p2 then p1\<lparr>jac_x := pt_x p2, jac_y := pt_y p2, jac_z := 1\<rparr>
      else p1\<lparr>jac_z := 0\<rparr>)"

definition jacobian_load_zero :: "jacobian_point \<Rightarrow> jacobian_point" where
  "jacobian_load_zero p = p\<lparr>jac_z := 0\<rparr>"

definition jacobian_is_zero :: "jacobian_point \<Rightarrow> bool" where
  "jacobian_is_zero p \<longleftrightarrow> jac_z p = 0"

definition jacobian_double :: "gcry \<Rightarrow> jacobian_point \<Rightarrow> domain_params \<Rightarrow> jacobian_point" where
  "jacobian_double g p dp =
     (let m = dp_m dp; x = jac_x p; y = jac_y p; z = jac_z p
      in if z \<noteq> 0 then
           if y \<noteq> 0 then
             (let t1 = mpi_mulm g x x m;
                  t2 = mpi_addm g t1 t1 m;
                  t2 = mpi_addm g t2 t1 m;
                  t1 = mpi_mulm g z z m;
                  t1 = mpi_mulm g t1 t1 m;
                  t1 = mpi_mulm g t1 (dp_a dp) m;
                  t1 = mpi_addm g t1 t2 m;
                  z = mpi_mulm g z y m;
                  z = mpi_addm g z z m;
                  y = mpi_mulm g y y m;
                  y = mpi_addm g y y m;
                  t2 = mpi_mulm g x y m;
                  t2 = mpi_addm g t2 t2 m;
                  x = mpi_mulm g t1 t1 m;
                  x = mpi_subm g x t2 m;
                  x = mpi_subm g x t2 m;
                  t2 = mpi_subm g t2 x m;
                  t1 = mpi_mulm g t1 t2 m;
                  t2 = mpi_mulm g y y m;
                  t2 = mpi_addm g t2 t2 m;
                  y = mpi_subm g t1 t2 m
              in p\<lparr>jac_x := x, jac_y := y, jac_z := z\<rparr>)
           else p\<lparr>jac_z := 0\<rparr>
         else p)"

definition jacobian_affine_point_add ::
  "gcry \<Rightarrow> jacobian_point \<Rightarrow> affine_point \<Rightarrow> domain_params \<Rightarrow> jacobian_point" where
  "jacobian_affine_point_add g p1 p2 dp =
     (let m = dp_m dp; x = jac_x p1; y = jac_y p1; z = jac_z p1
      in if \<not> point_is_zero p2 then
           if z \<noteq> 0 then
             (let t1 = mpi_mulm g z z m;
                  t2 = mpi_mulm g t1 (pt_x p2) m;
                  t1 = mpi_mulm g t1 z m;
                  t1 = mpi_mulm g t1 (pt_y p2) m
              in if x = t2 then
                   if y = t1 then jacobian_double g p1 dp else jacobian_load_zero p1
                 else
                   (let x = mpi_subm g x t2 m;
                        y = mpi_subm g y t1 m;
                        z = mpi_mulm g z x m;
                        t3 = mpi_mulm g x x m;
                        t2 = mpi_mulm g t2 t3 m;
                        t3 = mpi_mulm g t3 x m;
                        t1 = mpi_mulm g t1 t3 m;
                        x = mpi_mulm g y y m;
                        x = mpi_subm g x t3 m;
                        x = mpi_subm g x t2 m;
                        x = mpi_subm g x t2 m;
                        t2 = mpi_subm g t2 x m;
                        y = mpi_mulm g y t2 m;
                        y = mpi_subm g y t1 m
                    in p1\<lparr>jac_x := x, jac_y := y, jac_z := z\<rparr>))
           else jacobian_load_affine p1 p2
         else p1)"

definition jacobian_to_affine :: "gcry \<Rightarrow> jacobian_point \<Rightarrow> domain_params \<Rightarrow> affine_point" where
  "jacobian_to_affine g p dp =
     (let r = point_new; m = dp_m dp
      in if jac_z p \<noteq> 0 then
           (let h = mpi_invm g (jac_z p) m;
                y = mpi_mulm g h h m;
                x = mpi_mulm g (jac_x p) y m;
                y = mpi_mulm g y h m;
                y = mpi_mulm g y (jac_y p) m
            in r\<lparr>pt_x := x, pt_y := y\<rparr>)
         else r)"

section \<open>Multiplication by a number\<close>

text \<open>
  The loop over the bits of the exponent, from the highest on. \<open>pointmul_affine\<close> is the version of
  the source that is switched off, on affine points.
\<close>

fun pointmul_loop ::
  "gcry \<Rightarrow> domain_params \<Rightarrow> affine_point \<Rightarrow> int \<Rightarrow> nat \<Rightarrow> jacobian_point \<Rightarrow> jacobian_point" where
  "pointmul_loop g dp p e 0 r = r"
| "pointmul_loop g dp p e (Suc n) r =
     (let r = jacobian_double g r dp;
          r = (if bit e n then jacobian_affine_point_add g r p dp else r)
      in pointmul_loop g dp p e n r)"

definition pointmul :: "gcry \<Rightarrow> affine_point \<Rightarrow> int \<Rightarrow> domain_params \<Rightarrow> affine_point res" where
  "pointmul g p e dp =
     (let r = pointmul_loop g dp p e (mpi_nbits e) jacobian_new;
          r = jacobian_to_affine g r dp
      in rbind (rassert (point_on_curve g r dp)) (\<lambda>_. Inr r))"

fun affine_loop ::
  "gcry \<Rightarrow> domain_params \<Rightarrow> affine_point \<Rightarrow> int \<Rightarrow> nat \<Rightarrow> affine_point \<Rightarrow> affine_point" where
  "affine_loop g dp p e 0 r = r"
| "affine_loop g dp p e (Suc n) r =
     (let r = point_double g r dp;
          r = (if bit e n then point_add g r p dp else r)
      in affine_loop g dp p e n r)"

definition pointmul_affine :: "gcry \<Rightarrow> affine_point \<Rightarrow> int \<Rightarrow> domain_params \<Rightarrow> affine_point res" where
  "pointmul_affine g p e dp =
     (let r = affine_loop g dp p e (mpi_nbits e) point_new
      in rbind (rassert (point_on_curve g r dp)) (\<lambda>_. Inr r))"

section \<open>Validation of keys\<close>

definition embedded_key_validation :: "gcry \<Rightarrow> affine_point \<Rightarrow> domain_params \<Rightarrow> bool" where
  "embedded_key_validation g p dp =
     (if pt_x p < 0 \<or> pt_x p \<ge> dp_m dp \<or> pt_y p < 0 \<or> pt_y p \<ge> dp_m dp then False
      else \<not> point_is_zero p \<and> point_on_curve g p dp)"

definition full_key_validation :: "gcry \<Rightarrow> affine_point \<Rightarrow> domain_params \<Rightarrow> bool res" where
  "full_key_validation g p dp =
     (if \<not> embedded_key_validation g p dp then Inr False
      else if dp_cofactor dp \<noteq> 1 then
        rbind (pointmul g p (dp_order dp) dp) (\<lambda>bp. Inr (point_is_zero bp))
      else Inr True)"

end
