(* ===== verification/Serialize.thy ===== *)
theory Serialize
  imports Gcrypt "HOL-Library.Signed_Division"
begin

text \<open>
  \<^verbatim>\<open>seccure/serialize.c\<close>: numbers as byte strings of a given length, in binary or in the digits of
  base 90 or 36. A buffer is the list of the bytes written to it, from its start on.
\<close>

section \<open>Digits\<close>

datatype disp_format = DF_BIN | DF_COMPACT | DF_BASE36

definition compact_digits :: "byte list" where
  "compact_digits = ascii
     (''!#$%&()*+,-./01'' @ ''23456789:;<=>?@'' @ ''ABCDEFGHIJKLMNO'' @ ''PQRSTUVWXYZ[]^_'' @
      ''abcdefghijklmno'' @ ''pqrstuvwxyz{|}~'')"

definition base36_digits :: "byte list" where
  "base36_digits = ascii (''0123456789abcdefgh'' @ ''ijklmnopqrstuvwxyz'')"

fun get_digits :: "disp_format \<Rightarrow> byte list res" where
  "get_digits DF_BASE36 = Inr base36_digits"
| "get_digits DF_COMPACT = Inr compact_digits"
| "get_digits DF_BIN = Inl Assert_Fail"

fun get_digit_count :: "disp_format \<Rightarrow> int res" where
  "get_digit_count DF_BASE36 = Inr 36"
| "get_digit_count DF_COMPACT = Inr 90"
| "get_digit_count DF_BIN = Inl Assert_Fail"

section \<open>The length of a number\<close>

text \<open>The loop divides until nothing is left; \<^verbatim>\<open>gcry_mpi_div\<close> with rounding 0 truncates.\<close>

partial_function (option) length_loop :: "int \<Rightarrow> int \<Rightarrow> nat \<Rightarrow> nat option" where
  "length_loop base q res = (if q = 0 then Some res else length_loop base (q sdiv base) (res + 1))"

definition get_serialization_len :: "int \<Rightarrow> disp_format \<Rightarrow> nat res" where
  "get_serialization_len x df =
     (if df = DF_BIN then Inr ((mpi_nbits x + 7) div 8)
      else rbind (get_digit_count df) (\<lambda>base.
        case length_loop base x 0 of None \<Rightarrow> Inl No_Return | Some res \<Rightarrow> Inr res))"

section \<open>Writing and reading\<close>

text \<open>
  The loop of \<^verbatim>\<open>serialize_mpi\<close> over \<open>i\<close> from the last byte down. The remainder is printed into one
  byte that is 0 before: nothing is printed for 0, and what does not fit is refused.
\<close>

definition print_digit :: "gcry \<Rightarrow> int \<Rightarrow> byte" where
  "print_digit g r = (case mpi_usg g r of [b] \<Rightarrow> b | _ \<Rightarrow> 0)"

fun digits_loop :: "gcry \<Rightarrow> byte list \<Rightarrow> int \<Rightarrow> nat \<Rightarrow> int \<Rightarrow> byte list \<Rightarrow> (int \<times> byte list) res" where
  "digits_loop g digits base 0 q out = Inr (q, out)"
| "digits_loop g digits base (Suc i) q out =
     (let digit = print_digit g (q smod base)
      in rbind (rassert (uint digit < base)) (\<lambda>_.
           digits_loop g digits base i (q sdiv base) (digits ! unat digit # out)))"

definition serialize_mpi :: "gcry \<Rightarrow> nat \<Rightarrow> disp_format \<Rightarrow> int \<Rightarrow> byte list res" where
  "serialize_mpi g outlen df x =
     (if df = DF_BIN then
        (let len = (mpi_nbits x + 7) div 8
         in rbind (rassert (len \<le> outlen)) (\<lambda>_. Inr (replicate (outlen - len) 0 @ mpi_usg g x)))
      else
        rbind (get_digits df) (\<lambda>digits.
        rbind (get_digit_count df) (\<lambda>base.
        rbind (digits_loop g digits base outlen x []) (\<lambda>(q, out).
        rbind (rassert (q = 0)) (\<lambda>_. Inr out)))))"

fun undigits_loop :: "byte list \<Rightarrow> int \<Rightarrow> int \<Rightarrow> byte list \<Rightarrow> int option" where
  "undigits_loop digits base x [] = Some x"
| "undigits_loop digits base x (c # cs) =
     (case first_index (\<lambda>d. d = c) digits of
        None \<Rightarrow> None
      | Some d \<Rightarrow> undigits_loop digits base (x * base + int d) cs)"

text \<open>\<open>None\<close> is the return value 0. A binary string is always read.\<close>

definition deserialize_mpi :: "gcry \<Rightarrow> disp_format \<Rightarrow> byte list \<Rightarrow> int option res" where
  "deserialize_mpi g df buf =
     (if df = DF_BIN then Inr (Some (mpi_scan g buf))
      else
        rbind (get_digits df) (\<lambda>digits.
        rbind (get_digit_count df) (\<lambda>base. Inr (undigits_loop digits base 0 buf))))"

section \<open>The digits of a number\<close>

lemma of_char_byte_eq: "(of_char c :: byte) = of_char d \<longleftrightarrow> c = d"
proof -
  have "unat (of_char c :: byte) = of_char c" for c
    using unat_of_nat [of "of_char c", where ?'a = 8] nat_of_char_less_256 [of c] by (simp add: of_nat_of_char)
  then show ?thesis by (metis of_char_eq_iff)
qed

lemma distinct_ascii: "distinct (ascii s) = distinct s"
  by (simp add: ascii_def distinct_map inj_on_def of_char_byte_eq)

lemma digit_tables [simp]:
  "length compact_digits = 90" "distinct compact_digits"
  "length base36_digits = 36" "distinct base36_digits"
  unfolding compact_digits_def base36_digits_def distinct_ascii
  by (simp_all del: ascii_Cons)

text \<open>The \<open>n\<close> last digits of a number, the most significant first.\<close>

fun last_digits :: "int \<Rightarrow> nat \<Rightarrow> int \<Rightarrow> nat list" where
  "last_digits b 0 q = []"
| "last_digits b (Suc n) q = last_digits b n (q div b) @ [nat (q mod b)]"

lemma length_last_digits [simp]: "length (last_digits b n q) = n"
  by (induction n arbitrary: q) simp_all

lemma sdiv_smod_nonneg: "0 \<le> a \<Longrightarrow> 0 < (b :: int) \<Longrightarrow> a sdiv b = a div b \<and> a smod b = a mod b"
  by (cases "a = 0") (simp_all add: signed_divide_int_def signed_modulo_int_def sgn_if)

lemma div_div_power: "0 < (b :: int) \<Longrightarrow> q div b div b ^ n = q div b ^ Suc n"
  by (simp add: zdiv_zmult2_eq)

lemma print_digit:
  assumes "gcry_ok g" "0 \<le> r" "r < 256"
  shows "uint (print_digit g r) = r" "unat (print_digit g r) = nat r"
proof -
  have "nat r < 256 ^ 1"
    using assms(2,3) by simp
  then have "(nat_bits (nat r) + 7) div 8 \<le> 1"
    by (simp only: octets_le)
  then have "length (mpi_usg g r) \<le> 1"
    using gcry_okD(6) [OF assms(1,2)] assms(2) by (simp add: mpi_nbits_def)
  then consider "mpi_usg g r = []" | b where "mpi_usg g r = [b]"
    by (cases "mpi_usg g r") auto
  then have "int (unat (print_digit g r)) = r" (is "int ?n = r")
    using gcry_okD(5) [OF assms(1,2)] by cases (simp_all only: print_digit_def be_val.simps list.case, simp_all)
  then show "unat (print_digit g r) = nat r" "uint (print_digit g r) = r"
    using nat_int [of ?n] by (simp_all only: uint_nat)
qed

lemma digits_loop:
  assumes "gcry_ok g" "0 \<le> q" "0 < b" "b \<le> 256"
  shows "digits_loop g ds b n q out = Inr (q div b ^ n, map ((!) ds) (last_digits b n q) @ out)"
  using assms(2)
proof (induction n arbitrary: q out)
  case (Suc n)
  have r: "0 \<le> q mod b" "q mod b < b"
    using assms(3) by simp_all
  have "print_digit g (q mod b) = print_digit g (q mod b)" ..
  moreover have "uint (print_digit g (q mod b)) = q mod b" "unat (print_digit g (q mod b)) = nat (q mod b)"
    using print_digit [OF assms(1)] r assms(4) by simp_all
  ultimately show ?case
    using Suc assms(3) r by (simp add: sdiv_smod_nonneg div_div_power pos_imp_zdiv_nonneg_iff del: power_Suc)
qed simp

lemma first_index_nth:
  "distinct ds \<Longrightarrow> i < length ds \<Longrightarrow> first_index (\<lambda>d. d = ds ! i) ds = Some i"
  by (auto simp: first_index_Some nth_eq_iff_index_eq)

lemma undigits_append:
  "undigits_loop ds b x (cs @ [c]) =
     (case undigits_loop ds b x cs of None \<Rightarrow> None
      | Some y \<Rightarrow> map_option (\<lambda>d. y * b + int d) (first_index (\<lambda>d. d = c) ds))"
  by (induction cs arbitrary: x) (auto split: option.splits)

lemma undigits_last_digits:
  assumes "distinct ds" "int (length ds) = b" "0 < b"
  shows "undigits_loop ds b 0 (map ((!) ds) (last_digits b n q)) = Some (q mod b ^ n)"
proof (induction n arbitrary: q)
  case (Suc n)
  have "nat (q mod b) < length ds"
    using assms(2,3) by (simp add: nat_less_iff)
  with Suc assms show ?case
    by (simp add: undigits_append first_index_nth zmod_zmult2_eq mult.commute)
qed simp

lemma last_digits_undigits:
  assumes "int (length ds) = b" "0 < b" "undigits_loop ds b 0 cs = Some y"
  shows "0 \<le> y \<and> y < b ^ length cs \<and> map ((!) ds) (last_digits b (length cs) y) = cs"
  using assms(3)
proof (induction cs arbitrary: y rule: rev_induct)
  case (snoc c cs)
  then obtain x d where x: "undigits_loop ds b 0 cs = Some x" and d: "first_index (\<lambda>d. d = c) ds = Some d"
    and y: "y = x * b + int d"
    by (auto simp: undigits_append split: option.splits)
  have "int d < b" "ds ! d = c"
    using d assms(1) by (auto simp: first_index_Some)
  moreover have "0 \<le> x" "x + 1 \<le> b ^ length cs"
    using snoc.IH [OF x] by simp_all
  then have "(x + 1) * b \<le> b ^ length cs * b"
    using assms(2) by (intro mult_right_mono) simp_all
  ultimately show ?case
    using snoc.IH [OF x] assms(2) \<open>0 \<le> x\<close> unfolding y by (simp add: algebra_simps)
qed simp

section \<open>Lengths\<close>

lemma int_div_less_iff:
  assumes "0 < (b :: int)"
  shows "q div b < c \<longleftrightarrow> q < c * b"
proof
  assume "q div b < c"
  then have "(q div b + 1) * b \<le> c * b"
    using assms by (intro mult_right_mono) simp_all
  moreover have "q < (q div b + 1) * b"
    using div_mult_mod_eq [of q b] pos_mod_bound [OF assms, of q] unfolding distrib_right by linarith
  ultimately show "q < c * b"
    by simp
next
  assume "q < c * b"
  then have "\<not> c * b \<le> q"
    by simp
  moreover have "(q div b) * b \<le> q"
    using div_mult_mod_eq [of q b] pos_mod_sign [OF assms, of q] by linarith
  ultimately show "q div b < c"
    using mult_right_mono [of c "q div b" b] assms by (meson less_imp_le not_less order_trans)
qed

lemma length_loop:
  assumes "1 < b" "0 \<le> q"
  shows "\<exists>n. length_loop b q r = Some (r + n) \<and> q < b ^ n \<and> (\<forall>k. q < b ^ k \<longrightarrow> n \<le> k)"
  using assms(2)
proof (induction "nat q" arbitrary: q r rule: less_induct)
  case less
  show ?case
  proof (cases "q = 0")
    case False
    have "q div b < q" "0 \<le> q div b"
      using False less.prems assms(1) by (auto intro: int_div_less_self simp: pos_imp_zdiv_nonneg_iff)
    then obtain n where n: "length_loop b (q div b) (r + 1) = Some (r + 1 + n)" "q div b < b ^ n"
      "\<And>k. q div b < b ^ k \<Longrightarrow> n \<le> k"
      using less.hyps [of "q div b" "r + 1"] by auto
    have "q div b < b ^ k \<longleftrightarrow> q < b ^ Suc k" for k
      using assms(1) by (simp add: int_div_less_iff mult.commute)
    moreover have "\<not> q < b ^ 0"
      using False less.prems by simp
    ultimately have "\<forall>k. q < b ^ k \<longrightarrow> Suc n \<le> k"
      using n(3) by (metis not0_implies_Suc Suc_le_mono)
    moreover have "q < b ^ Suc n"
      using n(2) \<open>\<And>k. (q div b < b ^ k) = (q < b ^ Suc k)\<close> by blast
    moreover have "length_loop b q r = Some (r + Suc n)"
      using n(1) False less.prems assms(1) by (subst length_loop.simps) (simp add: sdiv_smod_nonneg)
    ultimately show ?thesis
      by blast
  qed (auto simp: length_loop.simps intro!: exI [of _ 0])
qed

text \<open>The base of a format; a byte of the binary form is a digit of base 256.\<close>

fun radix :: "disp_format \<Rightarrow> int" where
  "radix DF_BIN = 256"
| "radix DF_COMPACT = 90"
| "radix DF_BASE36 = 36"

lemma serialization_len:
  assumes "0 \<le> x"
  shows "\<exists>n. get_serialization_len x df = Inr n \<and> (\<forall>k. n \<le> k \<longleftrightarrow> x < radix df ^ k)"
proof -
  have up: "(\<forall>k. n \<le> k \<longleftrightarrow> x < b ^ k)" if "1 < b" "x < b ^ n" "\<And>k. x < b ^ k \<Longrightarrow> n \<le> k" for b n
    using that by (metis less_le_trans power_increasing less_imp_le)
  have bin: "(nat_bits (nat x) + 7) div 8 \<le> k \<longleftrightarrow> x < 256 ^ k" for k
    using assms octets_le [of "nat x" k] by (simp add: nat_less_iff)
  show ?thesis
  proof (cases df)
    case DF_BIN
    with bin assms show ?thesis by (simp add: get_serialization_len_def mpi_nbits_def)
  next
    case DF_COMPACT
    with length_loop [of 90 x 0] up [of 90] assms show ?thesis
      by (auto simp: get_serialization_len_def)
  next
    case DF_BASE36
    with length_loop [of 36 x 0] up [of 36] assms show ?thesis
      by (auto simp: get_serialization_len_def)
  qed
qed

section \<open>Writing and reading are inverse\<close>

lemma serialize_text:
  assumes "gcry_ok g" "0 \<le> x" "get_digits df = Inr ds" "get_digit_count df = Inr b"
  shows "serialize_mpi g n df x =
      (if x < b ^ n then Inr (map ((!) ds) (last_digits b n x)) else Inl Assert_Fail)"
    and "deserialize_mpi g df buf = Inr (undigits_loop ds b 0 buf)"
proof -
  have df: "df \<noteq> DF_BIN" "0 < b" "b \<le> 256"
    using assms(3,4) by (cases df; auto)+
  have "x div b ^ n = 0 \<longleftrightarrow> x < b ^ n"
    using assms(2) df(2) by (auto simp: zdiv_eq_0_iff dest: zero_less_power [of b n])
  with df assms digits_loop [OF assms(1,2) df(2,3), of ds n "[]"]
  show "serialize_mpi g n df x =
      (if x < b ^ n then Inr (map ((!) ds) (last_digits b n x)) else Inl Assert_Fail)"
    by (simp add: serialize_mpi_def)
  show "deserialize_mpi g df buf = Inr (undigits_loop ds b 0 buf)"
    using df assms by (simp add: deserialize_mpi_def)
qed

lemma serialize_binary:
  assumes "gcry_ok g" "0 \<le> x"
  shows "x < 256 ^ n \<Longrightarrow> \<exists>buf. serialize_mpi g n DF_BIN x = Inr buf \<and> length buf = n \<and> int (be_val buf) = x"
    and "\<not> x < 256 ^ n \<Longrightarrow> serialize_mpi g n DF_BIN x = Inl Assert_Fail"
proof -
  have len: "(mpi_nbits x + 7) div 8 \<le> n \<longleftrightarrow> x < 256 ^ n"
    using assms octets_le [of "nat x" n] by (simp add: mpi_nbits_def nat_less_iff)
  then show "\<not> x < 256 ^ n \<Longrightarrow> serialize_mpi g n DF_BIN x = Inl Assert_Fail"
    by (simp add: serialize_mpi_def)
  show "\<exists>buf. serialize_mpi g n DF_BIN x = Inr buf \<and> length buf = n \<and> int (be_val buf) = x" if "x < 256 ^ n"
    using that len gcry_okD(5,6) [OF assms(1,2)] by (simp add: serialize_mpi_def be_val_append)
qed

lemma text_formats:
  assumes "df \<noteq> DF_BIN"
  obtains ds b where "get_digits df = Inr ds" "get_digit_count df = Inr b" "distinct ds"
    "int (length ds) = b" "0 < b" "radix df = b"
  using assms that by (cases df) auto

lemma serialize_deserialize:
  assumes "gcry_ok g" "0 \<le> x" "x < radix df ^ n"
  shows "\<exists>buf. serialize_mpi g n df x = Inr buf \<and> length buf = n \<and> deserialize_mpi g df buf = Inr (Some x)"
proof (cases "df = DF_BIN")
  case True
  with serialize_binary(1) [OF assms(1,2)] assms show ?thesis
    by (fastforce simp: deserialize_mpi_def gcry_okD(7))
next
  case False
  then obtain ds b where d: "get_digits df = Inr ds" "get_digit_count df = Inr b" "distinct ds"
    "int (length ds) = b" "0 < b" "radix df = b"
    by (rule text_formats)
  have "undigits_loop ds b 0 (map ((!) ds) (last_digits b n x)) = Some x"
    using undigits_last_digits [OF d(3-5), of n x] assms d(6) by simp
  with assms d show ?thesis
    by (simp add: serialize_text)
qed

lemma serialize_too_large:
  assumes "gcry_ok g" "0 \<le> x" "\<not> x < radix df ^ n"
  shows "serialize_mpi g n df x = Inl Assert_Fail"
proof (cases "df = DF_BIN")
  case True
  with serialize_binary(2) [OF assms(1,2)] assms(3) show ?thesis
    by simp
next
  case False
  then obtain ds b where "get_digits df = Inr ds" "get_digit_count df = Inr b" "radix df = b"
    by (rule text_formats)
  with assms show ?thesis
    by (simp add: serialize_text)
qed

lemma deserialize_serialize:
  assumes "gcry_ok g" "deserialize_mpi g df buf = Inr (Some x)"
  shows "0 \<le> x \<and> x < radix df ^ length buf \<and> serialize_mpi g (length buf) df x = Inr buf"
proof (cases "df = DF_BIN")
  case True
  then have x: "x = int (be_val buf)"
    using assms by (simp add: deserialize_mpi_def gcry_okD(7))
  have "int (be_val buf) < int (256 ^ length buf)"
    using be_val_less [of buf] by (simp only: of_nat_less_iff)
  then have lt: "x < 256 ^ length buf"
    by (simp add: x)
  then obtain buf' where "serialize_mpi g (length buf) DF_BIN x = Inr buf'" "length buf' = length buf"
    "int (be_val buf') = x"
    using serialize_binary(1) [OF assms(1), of x "length buf"] x by auto
  then show ?thesis
    using True lt x be_val_inj [of buf' buf] by simp
next
  case False
  then obtain ds b where d: "get_digits df = Inr ds" "get_digit_count df = Inr b"
    "int (length ds) = b" "0 < b" "radix df = b"
    by (rule text_formats)
  have "undigits_loop ds b 0 buf = Some x"
    using assms d(1,2) serialize_text(2) [OF assms(1) order_refl d(1,2)] by simp
  with last_digits_undigits [OF d(3,4)] have
    "0 \<le> x" "x < b ^ length buf" "map ((!) ds) (last_digits b (length buf) x) = buf"
    by blast+
  with serialize_text(1) [OF assms(1) _ d(1,2), of x "length buf"] d(5) show ?thesis
    by simp
qed

lemma deserialize_total: "gcry_ok g \<Longrightarrow> \<exists>r. deserialize_mpi g df buf = Inr r"
  by (cases df) (simp_all add: deserialize_mpi_def)

text \<open>C39. Numbers and strings of a fixed length correspond one to one. \<open>get_serialization_len\<close> returns the
  least length that holds a number; writing a number to a buffer of at least this length and
  reading it gives the number back, and with less room an assertion fails; what is read from
  a string is a number that is written back as the same string.\<close>

theorem serialization_roundtrip:
  assumes "gcry_ok g" "0 \<le> x"
  shows "(\<exists>n. get_serialization_len x df = Inr n \<and>
        (\<forall>k \<ge> n. \<exists>buf. serialize_mpi g k df x = Inr buf \<and> length buf = k \<and>
           deserialize_mpi g df buf = Inr (Some x)) \<and>
        (\<forall>k < n. serialize_mpi g k df x = Inl Assert_Fail)) \<and>
    (\<forall>buf y. deserialize_mpi g df buf = Inr (Some y) \<longrightarrow>
        0 \<le> y \<and> y < radix df ^ length buf \<and> serialize_mpi g (length buf) df y = Inr buf)"
proof -
  obtain n where "get_serialization_len x df = Inr n \<and> (\<forall>k. n \<le> k \<longleftrightarrow> x < radix df ^ k)"
    using serialization_len [OF assms(2), of df] ..
  then have n: "get_serialization_len x df = Inr n" "n \<le> k \<longleftrightarrow> x < radix df ^ k" for k
    by simp_all
  have A: "\<forall>k \<ge> n. \<exists>buf. serialize_mpi g k df x = Inr buf \<and> length buf = k \<and> deserialize_mpi g df buf = Inr (Some x)"
  proof (intro allI impI)
    fix k assume "n \<le> k"
    with n(2) [of k] have "x < radix df ^ k" by blast
    then show "\<exists>buf. serialize_mpi g k df x = Inr buf \<and> length buf = k \<and> deserialize_mpi g df buf = Inr (Some x)"
      by (rule serialize_deserialize [OF assms])
  qed
  have B: "\<forall>k < n. serialize_mpi g k df x = Inl Assert_Fail"
  proof (intro allI impI)
    fix k assume "k < n"
    with n(2) [of k] have "\<not> x < radix df ^ k" by linarith
    then show "serialize_mpi g k df x = Inl Assert_Fail"
      by (rule serialize_too_large [OF assms])
  qed
  have C: "\<forall>buf y. deserialize_mpi g df buf = Inr (Some y) \<longrightarrow>
      0 \<le> y \<and> y < radix df ^ length buf \<and> serialize_mpi g (length buf) df y = Inr buf"
    by (intro allI impI) (rule deserialize_serialize [OF assms(1)])
  have "get_serialization_len x df = Inr n \<and>
      (\<forall>k \<ge> n. \<exists>buf. serialize_mpi g k df x = Inr buf \<and> length buf = k \<and>
         deserialize_mpi g df buf = Inr (Some x)) \<and>
      (\<forall>k < n. serialize_mpi g k df x = Inl Assert_Fail)"
    by (rule conjI [OF n(1) conjI [OF A B]])
  then show ?thesis
    using C by (intro conjI [OF exI [of _ n]])
qed

end
