(* ===== verification/Curves.thy ===== *)
theory Curves
  imports Ecc Serialize
begin

text \<open>
  \<^verbatim>\<open>seccure/curves.c\<close>: the table of curves, and the parameters computed from an entry. Memory
  for them is taken to be available.
\<close>

section \<open>The table\<close>

record curve =
  c_name :: string
  c_a :: string
  c_b :: string
  c_m :: string
  c_base_x :: string
  c_base_y :: string
  c_order :: string
  c_cofactor :: int
  c_pk_len_compact :: nat

definition secp112r1 :: curve where
  "secp112r1 =
     \<lparr>c_name = ''secp112r1'',
      c_a = ''db7c2abf62e35e668076bead2088'',
      c_b = ''659ef8ba043916eede8911702b22'',
      c_m = ''db7c2abf62e35e668076bead208b'',
      c_base_x = ''09487239995a5ee76b55f9c2f098'',
      c_base_y = ''a89ce5af8724c0a23e0e0ff77500'',
      c_order = ''db7c2abf62e35e7628dfac6561c5'',
      c_cofactor = 1, c_pk_len_compact = 18\<rparr>"

definition secp128r1 :: curve where
  "secp128r1 =
     \<lparr>c_name = ''secp128r1'',
      c_a = ''fffffffdfffffffffffffffffffffffc'',
      c_b = ''e87579c11079f43dd824993c2cee5ed3'',
      c_m = ''fffffffdffffffffffffffffffffffff'',
      c_base_x = ''161ff7528b899b2d0c28607ca52c5b86'',
      c_base_y = ''cf5ac8395bafeb13c02da292dded7a83'',
      c_order = ''fffffffe0000000075a30d1b9038a115'',
      c_cofactor = 1, c_pk_len_compact = 20\<rparr>"

definition secp160r1 :: curve where
  "secp160r1 =
     \<lparr>c_name = ''secp160r1'',
      c_a = ''ffffffffffffffffffffffffffffffff7ffffffc'',
      c_b = ''1c97befc54bd7a8b65acf89f81d4d4adc565fa45'',
      c_m = ''ffffffffffffffffffffffffffffffff7fffffff'',
      c_base_x = ''4a96b5688ef573284664698968c38bb913cbfc82'',
      c_base_y = ''23a628553168947d59dcc912042351377ac5fb32'',
      c_order = ''0100000000000000000001f4c8f927aed3ca752257'',
      c_cofactor = 1, c_pk_len_compact = 25\<rparr>"

definition secp192r1 :: curve where
  "secp192r1 =
     \<lparr>c_name = ''secp192r1/nistp192'',
      c_a = ''fffffffffffffffffffffffffffffffefffffffffffffffc'',
      c_b = ''64210519e59c80e70fa7e9ab72243049feb8deecc146b9b1'',
      c_m = ''fffffffffffffffffffffffffffffffeffffffffffffffff'',
      c_base_x = ''188da80eb03090f67cbf20eb43a18800f4ff0afd82ff1012'',
      c_base_y = ''07192b95ffc8da78631011ed6b24cdd573f977a11e794811'',
      c_order = ''ffffffffffffffffffffffff99def836146bc9b1b4d22831'',
      c_cofactor = 1, c_pk_len_compact = 30\<rparr>"

definition secp224r1 :: curve where
  "secp224r1 =
     \<lparr>c_name = ''secp224r1/nistp224'',
      c_a = ''fffffffffffffffffffffffffffffffefffffffffffffffffffffffe'',
      c_b = ''b4050a850c04b3abf54132565044b0b7d7bfd8ba270b39432355ffb4'',
      c_m = ''ffffffffffffffffffffffffffffffff000000000000000000000001'',
      c_base_x = ''b70e0cbd6bb4bf7f321390b94a03c1d356c21122343280d6115c1d21'',
      c_base_y = ''bd376388b5f723fb4c22dfe6cd4375a05a07476444d5819985007e34'',
      c_order = ''ffffffffffffffffffffffffffff16a2e0b8f03e13dd29455c5c2a3d'',
      c_cofactor = 1, c_pk_len_compact = 35\<rparr>"

definition secp256r1 :: curve where
  "secp256r1 =
     \<lparr>c_name = ''secp256r1/nistp256'',
      c_a = ''ffffffff00000001000000000000000000000000fffffffffffffffffffffffc'',
      c_b = ''5ac635d8aa3a93e7b3ebbd55769886bc651d06b0cc53b0f63bce3c3e27d2604b'',
      c_m = ''ffffffff00000001000000000000000000000000ffffffffffffffffffffffff'',
      c_base_x = ''6b17d1f2e12c4247f8bce6e563a440f277037d812deb33a0f4a13945d898c296'',
      c_base_y = ''4fe342e2fe1a7f9b8ee7eb4a7c0f9e162bce33576b315ececbb6406837bf51f5'',
      c_order = ''ffffffff00000000ffffffffffffffffbce6faada7179e84f3b9cac2fc632551'',
      c_cofactor = 1, c_pk_len_compact = 40\<rparr>"

definition secp384r1 :: curve where
  "secp384r1 =
     \<lparr>c_name = ''secp384r1/nistp384'',
      c_a = (''fffffffffffffffffffffffffffffffffffffffffffffffffffffffffffffffeffffffff'' @
        ''0000000000000000fffffffc''),
      c_b = (''b3312fa7e23ee7e4988e056be3f82d19181d9c6efe8141120314088f5013875ac656398d'' @
        ''8a2ed19d2a85c8edd3ec2aef''),
      c_m = (''fffffffffffffffffffffffffffffffffffffffffffffffffffffffffffffffeffffffff'' @
        ''0000000000000000ffffffff''),
      c_base_x = (''aa87ca22be8b05378eb1c71ef320ad746e1d3b628ba79b9859f741e082542a385502f25d'' @
        ''bf55296c3a545e3872760ab7''),
      c_base_y = (''3617de4a96262c6f5d9e98bf9292dc29f8f41dbd289a147ce9da3113b5f0b8c00a60b1ce'' @
        ''1d7e819d7a431d7c90ea0e5f''),
      c_order = (''ffffffffffffffffffffffffffffffffffffffffffffffffc7634d81f4372ddf581a0db2'' @
        ''48b0a77aecec196accc52973''),
      c_cofactor = 1, c_pk_len_compact = 60\<rparr>"

definition secp521r1 :: curve where
  "secp521r1 =
     \<lparr>c_name = ''secp521r1/nistp521'',
      c_a = (''1fffffffffffffffffffffffffffffffffffffffffffffffffffffffffffffffffffffff'' @
        ''ffffffffffffffffffffffffffffffffffffffffffffffffffffffffffc''),
      c_b = (''051953eb9618e1c9a1f929a21a0b68540eea2da725b99b315f3b8b489918ef109e156193'' @
        ''951ec7e937b1652c0bd3bb1bf073573df883d2c34f1ef451fd46b503f00''),
      c_m = (''1fffffffffffffffffffffffffffffffffffffffffffffffffffffffffffffffffffffff'' @
        ''fffffffffffffffffffffffffffffffffffffffffffffffffffffffffff''),
      c_base_x = (''0c6858e06b70404e9cd9e3ecb662395b4429c648139053fb521f828af606b4d3dbaa14b5'' @
        ''e77efe75928fe1dc127a2ffa8de3348b3c1856a429bf97e7e31c2e5bd66''),
      c_base_y = (''11839296a789a3bc0045c8a5fb42c7d1bd998f54449579b446817afbd17273e662c97ee7'' @
        ''2995ef42640c550b9013fad0761353c7086a272c24088be94769fd16650''),
      c_order = (''1fffffffffffffffffffffffffffffffffffffffffffffffffffffffffffffffffa51868'' @
        ''783bf2f966b7fcc0148f709a5d03bb5c9b8899c47aebb6fb71e91386409''),
      c_cofactor = 1, c_pk_len_compact = 81\<rparr>"

definition curves :: "curve list" where
  "curves = [secp112r1, secp128r1, secp160r1, secp192r1, secp224r1, secp256r1, secp384r1, secp521r1]"

section \<open>Loading a curve\<close>

record curve_params =
  cp_name :: string
  cp_dp :: domain_params
  pk_len_bin :: nat
  pk_len_compact :: nat
  sig_len_bin :: nat
  sig_len_compact :: nat
  dh_len_bin :: nat
  dh_len_compact :: nat
  elem_len_bin :: nat
  order_len_bin :: nat

text \<open>The macro \<^verbatim>\<open>SCAN\<close>: the number is read inside an assertion.\<close>

definition scan :: "gcry \<Rightarrow> string \<Rightarrow> int res" where
  "scan g s = (case mpi_hex g s of None \<Rightarrow> Inl Assert_Fail | Some x \<Rightarrow> Inr x)"

definition load_curve :: "gcry \<Rightarrow> curve \<Rightarrow> disp_format \<Rightarrow> curve_params res" where
  "load_curve g c df =
     rbind (scan g (c_a c)) (\<lambda>a.
     rbind (scan g (c_b c)) (\<lambda>b.
     rbind (scan g (c_m c)) (\<lambda>m.
     rbind (scan g (c_order c)) (\<lambda>order.
     rbind (scan g (c_base_x c)) (\<lambda>x.
     rbind (scan g (c_base_y c)) (\<lambda>y.
       let h = m + m; h = h - 1
       in rbind (get_serialization_len h DF_BIN) (\<lambda>pk_bin.
          rbind (get_serialization_len h df) (\<lambda>pk_compact.
            let h = order * order; h = h - 1
            in rbind (get_serialization_len h DF_BIN) (\<lambda>sig_bin.
               rbind (get_serialization_len h df) (\<lambda>sig_compact.
                 let dh_bin = (mpi_nbits order div 2 + 7) div 8;
                     dh_bin = (if dh_bin > 32 then 32 else dh_bin);
                     h = set_bit (8 * dh_bin) 0;
                     h = h - 1
                 in rbind (get_serialization_len h df) (\<lambda>dh_compact.
                    rbind (get_serialization_len m DF_BIN) (\<lambda>elem_bin.
                    rbind (get_serialization_len order DF_BIN) (\<lambda>order_bin.
                      Inr \<lparr>cp_name = c_name c,
                        cp_dp = \<lparr>dp_a = a, dp_b = b, dp_m = m, dp_order = order,
                          dp_base = \<lparr>pt_x = x, pt_y = y\<rparr>, dp_cofactor = c_cofactor c\<rparr>,
                        pk_len_bin = pk_bin, pk_len_compact = pk_compact,
                        sig_len_bin = sig_bin, sig_len_compact = sig_compact,
                        dh_len_bin = dh_bin, dh_len_compact = dh_compact,
                        elem_len_bin = elem_bin, order_len_bin = order_bin\<rparr>)))))))))))))"

section \<open>Finding a curve\<close>

text \<open>\<^verbatim>\<open>strstr\<close>, as the test whether the string occurs.\<close>

fun strstr :: "string \<Rightarrow> string \<Rightarrow> bool" where
  "strstr [] needle = (needle = [])"
| "strstr (c # cs) needle = (take (length needle) (c # cs) = needle \<or> strstr cs needle)"

fun name_loop :: "gcry \<Rightarrow> string \<Rightarrow> disp_format \<Rightarrow> curve list \<Rightarrow> curve_params option res" where
  "name_loop g name df [] = Inr None"
| "name_loop g name df (c # cs) =
     (if strstr (c_name c) name then rbind (load_curve g c df) (\<lambda>cp. Inr (Some cp))
      else name_loop g name df cs)"

definition curve_by_name :: "gcry \<Rightarrow> string \<Rightarrow> disp_format \<Rightarrow> curve_params option res" where
  "curve_by_name g name df = name_loop g name df curves"

fun pk_len_loop :: "gcry \<Rightarrow> nat \<Rightarrow> disp_format \<Rightarrow> curve list \<Rightarrow> curve_params option res" where
  "pk_len_loop g n df [] = Inr None"
| "pk_len_loop g n df (c # cs) =
     rbind (load_curve g c df) (\<lambda>cp. if pk_len_compact cp = n then Inr (Some cp) else pk_len_loop g n df cs)"

definition curve_by_pk_len_compact :: "gcry \<Rightarrow> nat \<Rightarrow> disp_format \<Rightarrow> curve_params option res" where
  "curve_by_pk_len_compact g n df = pk_len_loop g n df curves"

end
