(* ===== verification/Aes256ctr.thy ===== *)
theory Aes256ctr
  imports Prelude
begin

text \<open>
  \<^verbatim>\<open>seccure/aes256ctr.c\<close>: a stream cipher on top of AES-256 in counter mode, and the random numbers
  made from it. The cipher of libgcrypt is a parameter: whether its functions succeed, and the
  block of the key stream for a key and a counter. In counter mode \<^verbatim>\<open>gcry_cipher_encrypt\<close> of
  whole blocks xors them with the next blocks of the key stream.
\<close>

section \<open>The code\<close>

record cipher =
  c_malloc :: bool
  c_open :: bool
  c_setkey :: bool
  c_setctr :: bool
  c_encrypt :: bool
  c_block :: "byte list \<Rightarrow> nat \<Rightarrow> byte list"

abbreviation CIPHER_BLOCK_SIZE :: nat where "CIPHER_BLOCK_SIZE \<equiv> 16"

abbreviation CIPHER_KEY_SIZE :: nat where "CIPHER_KEY_SIZE \<equiv> 32"

text \<open>The handle of the cipher is its key and its counter. The buffer is not set before it is used.\<close>

record aes256ctr =
  ac_key :: "byte list"
  ac_ctr :: nat
  ac_idx :: nat
  ac_buf :: "byte list"

definition xor_bytes :: "byte list \<Rightarrow> byte list \<Rightarrow> byte list" where
  "xor_bytes xs ys = map2 xor xs ys"

text \<open>\<^verbatim>\<open>gcry_cipher_encrypt\<close> in place, on a whole number of blocks.\<close>

definition cipher_encrypt :: "cipher \<Rightarrow> aes256ctr \<Rightarrow> byte list \<Rightarrow> byte list \<times> aes256ctr" where
  "cipher_encrypt c ac buf =
     (let n = length buf div CIPHER_BLOCK_SIZE
      in (xor_bytes buf (concat (map (c_block c (ac_key ac)) [ac_ctr ac..<ac_ctr ac + n])),
          ac\<lparr>ac_ctr := ac_ctr ac + n\<rparr>))"

definition aes256ctr_init :: "cipher \<Rightarrow> byte list \<Rightarrow> byte list \<Rightarrow> aes256ctr option" where
  "aes256ctr_init c key mem =
     (if \<not> c_malloc c then None
      else if \<not> c_open c then None
      else if \<not> c_setkey c then None
      else if \<not> c_setctr c then None
      else Some \<lparr>ac_key = take CIPHER_KEY_SIZE key, ac_ctr = 0, ac_idx = CIPHER_BLOCK_SIZE, ac_buf = mem\<rparr>)"

text \<open>The two loops that use up the buffer: until the data ends or the block does.\<close>

fun drain :: "aes256ctr \<Rightarrow> byte list \<Rightarrow> byte list \<times> byte list \<times> aes256ctr" where
  "drain ac [] = ([], [], ac)"
| "drain ac (x # xs) =
     (if ac_idx ac < CIPHER_BLOCK_SIZE then
        (let (out, rest, ac') = drain (ac\<lparr>ac_idx := ac_idx ac + 1\<rparr>) xs
         in (xor x (ac_buf ac ! ac_idx ac) # out, rest, ac'))
      else ([], x # xs, ac))"

definition aes256ctr_enc :: "cipher \<Rightarrow> aes256ctr \<Rightarrow> byte list \<Rightarrow> (byte list \<times> aes256ctr) res" where
  "aes256ctr_enc c ac buf =
     (let (out1, buf, ac) = drain ac buf;
          full_blocks = (length buf div CIPHER_BLOCK_SIZE) * CIPHER_BLOCK_SIZE;
          (out2, ac) = cipher_encrypt c ac (take full_blocks buf)
      in rbind (rassert (c_encrypt c)) (\<lambda>_.
           let buf = drop full_blocks buf
           in if buf \<noteq> [] then
                (let (key, ac) = cipher_encrypt c ac (replicate CIPHER_BLOCK_SIZE 0);
                     ac = ac\<lparr>ac_buf := key\<rparr>
                 in rbind (rassert (c_encrypt c)) (\<lambda>_.
                      let ac = ac\<lparr>ac_idx := 0\<rparr>;
                          (out3, rest, ac) = drain ac buf
                      in Inr (out1 @ out2 @ out3 @ rest, ac)))
              else Inr (out1 @ out2, ac)))"

abbreviation aes256ctr_dec where "aes256ctr_dec \<equiv> aes256ctr_enc"

definition aes256cprng_fillbuf :: "cipher \<Rightarrow> aes256ctr \<Rightarrow> nat \<Rightarrow> (byte list \<times> aes256ctr) res" where
  "aes256cprng_fillbuf c ac n = aes256ctr_enc c ac (replicate n 0)"

section \<open>The key stream\<close>

text \<open>What the code relies on: the cipher succeeds, and its blocks have 16 bytes.\<close>

definition cipher_ok :: "cipher \<Rightarrow> bool" where
  "cipher_ok c \<longleftrightarrow> c_malloc c \<and> c_open c \<and> c_setkey c \<and> c_setctr c \<and> c_encrypt c \<and>
     (\<forall>key n. length (c_block c key n) = CIPHER_BLOCK_SIZE)"

definition stream_byte :: "cipher \<Rightarrow> byte list \<Rightarrow> nat \<Rightarrow> byte" where
  "stream_byte c key n = c_block c key (n div 16) ! (n mod 16)"

definition stream :: "cipher \<Rightarrow> byte list \<Rightarrow> nat \<Rightarrow> nat \<Rightarrow> byte list" where
  "stream c key pos n = map (stream_byte c key) [pos..<pos + n]"

lemma length_stream [simp]: "length (stream c key pos n) = n"
  by (simp add: stream_def)

lemma stream_append: "stream c key pos (n + k) = stream c key pos n @ stream c key (pos + n) k"
  unfolding stream_def add.assoc [symmetric] by (subst upt_add_eq_append) simp_all

lemma stream_Suc: "stream c key pos (Suc n) = stream_byte c key pos # stream c key (Suc pos) n"
  by (simp add: stream_def upt_conv_Cons del: upt_Suc)

lemma xor_bytes_append:
  "length xs = length ys \<Longrightarrow> xor_bytes (xs @ xs') (ys @ ys') = xor_bytes xs ys @ xor_bytes xs' ys'"
  by (simp add: xor_bytes_def)

lemma length_xor_bytes [simp]: "length (xor_bytes xs ys) = min (length xs) (length ys)"
  by (simp add: xor_bytes_def)

lemma xor_bytes_twice: "length xs = length ys \<Longrightarrow> xor_bytes (xor_bytes xs ys) ys = xs"
  unfolding xor_bytes_def
  by (induction xs ys rule: list_induct2) (simp_all add: xor.assoc)

lemma xor_bytes_zero: "length ys = n \<Longrightarrow> xor_bytes (replicate n 0) ys = ys"
  unfolding xor_bytes_def by (induction n arbitrary: ys) (auto simp: length_Suc_conv)

lemma stream_block:
  assumes "cipher_ok c"
  shows "stream c key (16 * n) 16 = c_block c key n"
proof (rule nth_equalityI)
  show "length (stream c key (16 * n) 16) = length (c_block c key n)"
    using assms by (simp add: cipher_ok_def)
  show "stream c key (16 * n) 16 ! i = c_block c key n ! i" if "i < length (stream c key (16 * n) 16)" for i
    using that by (simp add: stream_def stream_byte_def)
qed

lemma stream_blocks:
  assumes "cipher_ok c"
  shows "concat (map (c_block c key) [m..<m + n]) = stream c key (16 * m) (16 * n)"
proof (induction n)
  case (Suc n)
  have "stream c key (16 * m) (16 * n + 16) = stream c key (16 * m) (16 * n) @ stream c key (16 * (m + n)) 16"
    by (simp add: stream_append distrib_left)
  then show ?case
    using Suc stream_block [OF assms, of key "m + n"] by (simp add: distrib_left add.commute)
qed (simp add: stream_def)

text \<open>The state after \<open>pos\<close> bytes: the rest of the current block is in the buffer.\<close>

definition at_pos :: "cipher \<Rightarrow> byte list \<Rightarrow> aes256ctr \<Rightarrow> nat \<Rightarrow> bool" where
  "at_pos c key ac pos \<longleftrightarrow>
     ac_key ac = key \<and> ac_idx ac \<le> 16 \<and> pos + 16 = 16 * ac_ctr ac + ac_idx ac \<and>
     (ac_idx ac < 16 \<longrightarrow> ac_buf ac = c_block c key (ac_ctr ac - 1))"

lemma drain:
  "at_pos c key ac pos \<Longrightarrow>
   \<exists>n out ac'. drain ac xs = (out, drop n xs, ac') \<and> n \<le> length xs \<and> out = xor_bytes (take n xs) (stream c key pos n) \<and>
     at_pos c key ac' (pos + n) \<and> (n < length xs \<longrightarrow> ac_idx ac' = 16) \<and>
     n = min (length xs) (16 - ac_idx ac)"
proof (induction ac xs arbitrary: pos rule: drain.induct)
  case (1 ac)
  then show ?case by (simp add: xor_bytes_def)
next
  case (2 ac x xs)
  show ?case
  proof (cases "ac_idx ac < 16")
    case True
    let ?ac = "ac\<lparr>ac_idx := ac_idx ac + 1\<rparr>"
    have "at_pos c key ?ac (pos + 1)"
      using 2(2) True by (simp add: at_pos_def)
    from 2(1) [OF True this] obtain n out ac' where
      n: "drain ?ac xs = (out, drop n xs, ac')" "n \<le> length xs" "out = xor_bytes (take n xs) (stream c key (pos + 1) n)"
        "at_pos c key ac' (pos + 1 + n)" "n < length xs \<longrightarrow> ac_idx ac' = 16" "n = min (length xs) (16 - ac_idx ?ac)"
      by blast
    have byte: "ac_buf ac ! ac_idx ac = stream_byte c key pos"
    proof -
      have e: "pos + 16 = 16 * ac_ctr ac + ac_idx ac" "ac_buf ac = c_block c key (ac_ctr ac - 1)"
        using 2(2) True by (simp_all add: at_pos_def)
      from e(1) True obtain t where t: "ac_ctr ac = Suc t"
        by (cases "ac_ctr ac") simp_all
      with e(1) True have "pos div 16 = t" "pos mod 16 = ac_idx ac"
        by simp_all
      with e(2) t show ?thesis by (simp add: stream_byte_def)
    qed
    show ?thesis
      using True n byte by (intro exI [of _ "Suc n"]) (simp add: stream_Suc xor_bytes_def)
  next
    case False
    with 2(2) show ?thesis
      by (intro exI [of _ 0]) (auto simp: xor_bytes_def at_pos_def)
  qed
qed

lemma init_at_pos: "cipher_ok c \<Longrightarrow> \<exists>ac. aes256ctr_init c key mem = Some ac \<and> at_pos c (take 32 key) ac 0"
  by (simp add: aes256ctr_init_def cipher_ok_def at_pos_def)

lemma cipher_encrypt:
  assumes "cipher_ok c" "at_pos c key ac pos" "ac_idx ac = 16" "length buf = 16 * n"
  shows "cipher_encrypt c ac buf = (xor_bytes buf (stream c key pos (16 * n)), ac\<lparr>ac_ctr := ac_ctr ac + n\<rparr>)"
  using assms stream_blocks [OF assms(1), of key "ac_ctr ac" n]
  by (simp add: cipher_encrypt_def at_pos_def Let_def)

lemma enc_stream:
  assumes "cipher_ok c" "at_pos c key ac pos"
  shows "\<exists>ac'. aes256ctr_enc c ac buf = Inr (xor_bytes buf (stream c key pos (length buf)), ac') \<and>
    at_pos c key ac' (pos + length buf)"
proof -
  obtain n out1 ac1 where d: "drain ac buf = (out1, drop n buf, ac1)" "n \<le> length buf"
    "out1 = xor_bytes (take n buf) (stream c key pos n)" "at_pos c key ac1 (pos + n)"
    "n < length buf \<longrightarrow> ac_idx ac1 = 16"
    using drain [OF assms(2), of buf] by blast
  define rest where "rest = drop n buf"
  have buf: "buf = take n buf @ rest" "length (take n buf) = n" "length buf = n + length rest"
    using d(2) by (simp_all add: rest_def)
  show ?thesis
  proof (cases "rest = []")
    case True
    then have "n = length buf" using d(2) by (simp add: rest_def)
    then show ?thesis
      using d assms(1) by (simp add: aes256ctr_enc_def Let_def cipher_encrypt_def cipher_ok_def xor_bytes_def)
  next
    case False
    then have idx: "ac_idx ac1 = 16" using d(5) by (simp add: rest_def)
    define k where "k = length rest div 16"
    have k: "length (take (k * 16) rest) = 16 * k" "k * 16 \<le> length rest"
      by (simp_all add: k_def)
    let ?ac2 = "ac1\<lparr>ac_ctr := ac_ctr ac1 + k\<rparr>"
    have e2: "cipher_encrypt c ac1 (take (k * 16) rest) =
        (xor_bytes (take (k * 16) rest) (stream c key (pos + n) (16 * k)), ?ac2)"
      by (rule cipher_encrypt [OF assms(1) d(4) idx k(1)])
    have p2: "at_pos c key ?ac2 (pos + n + 16 * k)" and idx2: "ac_idx ?ac2 = 16"
      using d(4) idx by (simp_all add: at_pos_def)
    define rest2 where "rest2 = drop (k * 16) rest"
    have rest: "rest = take (k * 16) rest @ rest2" "length rest = 16 * k + length rest2" "length rest2 < 16"
      using k(2) by (simp_all add: rest2_def k_def)
    have out: "xor_bytes buf (stream c key pos (n + (16 * k + length rest2))) =
        out1 @ xor_bytes (take (k * 16) rest) (stream c key (pos + n) (16 * k)) @
        xor_bytes rest2 (stream c key (pos + n + 16 * k) (length rest2))"
      using buf(1,2) rest(1) k(1) d(3)
      by (metis (no_types) add.assoc length_stream stream_append xor_bytes_append)
    show ?thesis
    proof (cases "rest2 = []")
      case True
      then show ?thesis
        using d(1) e2 p2 out assms(1) buf(3) rest(2)
        by (simp add: aes256ctr_enc_def Let_def cipher_ok_def add.assoc xor_bytes_def
            flip: rest_def k_def rest2_def)
    next
      case rest2: False
      let ?ac3 = "?ac2\<lparr>ac_ctr := ac_ctr ?ac2 + 1, ac_buf := c_block c key (ac_ctr ?ac2), ac_idx := 0\<rparr>"
      have e3: "cipher_encrypt c ?ac2 (replicate 16 0) = (c_block c key (ac_ctr ?ac2), ?ac2\<lparr>ac_ctr := ac_ctr ?ac2 + 1\<rparr>)"
        using cipher_encrypt [OF assms(1) p2 idx2, of "replicate 16 0" 1] p2 idx2 stream_block [OF assms(1), of key "ac_ctr ?ac2"]
        by (simp add: at_pos_def xor_bytes_zero)
      have p3: "at_pos c key ?ac3 (pos + n + 16 * k)"
        using p2 idx2 by (simp add: at_pos_def)
      obtain n3 out3 ac4 where d3: "drain ?ac3 rest2 = (out3, drop n3 rest2, ac4)" 
        "out3 = xor_bytes (take n3 rest2) (stream c key (pos + n + 16 * k) n3)"
        "at_pos c key ac4 (pos + n + 16 * k + n3)" "n3 = min (length rest2) (16 - ac_idx ?ac3)"
        using drain [OF p3, of rest2] by blast
      have n3: "n3 = length rest2" using d3(4) rest(3) by simp
      have "aes256ctr_enc c ac buf = Inr (out1 @ xor_bytes (take (k * 16) rest) (stream c key (pos + n) (16 * k)) @ out3, ac4)"
        using d(1) e2 e3 d3(1) assms(1) rest2 n3 unfolding rest_def [symmetric]
        by (simp add: aes256ctr_enc_def Let_def cipher_ok_def flip: k_def) (simp add: rest2_def)
      then show ?thesis
        using out d3(2,3) n3 buf(3) rest(2) by (simp add: add.assoc)
    qed
  qed
qed

end
