(* ===== verification/Protocol.thy ===== *)
theory Protocol
  imports Curves Aes256ctr
begin

text \<open>
  \<^verbatim>\<open>seccure/protocol.c\<close>: keys and points as strings, signatures (ECDSA), encryption (ECIES) and key
  agreement (DH). The digests of libgcrypt are parameters (\<open>digests\<close>), and so are the numbers
  that \<^verbatim>\<open>gcry_mpi_randomize\<close> gives, a sequence with a position. \<open>mem\<close> is the contents of a fresh
  allocation.
\<close>

section \<open>Exponents\<close>

record digests =
  d_sha256 :: "byte list \<Rightarrow> byte list"
  d_sha512 :: "byte list \<Rightarrow> byte list"
  d_hmac256 :: "byte list \<Rightarrow> byte list \<Rightarrow> byte list"
  d_hmac_open :: bool
  d_md_open :: bool

text \<open>\<^verbatim>\<open>gcry_mpi_mod\<close> returns the residue that is not negative.\<close>

definition buf_to_exponent :: "gcry \<Rightarrow> byte list \<Rightarrow> curve_params \<Rightarrow> int" where
  "buf_to_exponent g buf cp =
     (let a = mpi_scan g buf; b = dp_order (cp_dp cp) - 1; a = a mod b in a + 1)"

definition hash_to_exponent ::
  "gcry \<Rightarrow> cipher \<Rightarrow> byte list \<Rightarrow> byte list \<Rightarrow> curve_params \<Rightarrow> int res" where
  "hash_to_exponent g c mem hash cp =
     (let len = order_len_bin cp
      in case aes256ctr_init c hash mem of
           None \<Rightarrow> Inl Assert_Fail
         | Some cprng \<Rightarrow>
             rbind (aes256cprng_fillbuf c cprng len) (\<lambda>(buf, cprng). Inr (buf_to_exponent g buf cp)))"

text \<open>\<^verbatim>\<open>gcry_mpi_clear_highbit(a, n)\<close> keeps the bits below \<open>n\<close>.\<close>

partial_function (option) get_random_exponent ::
  "curve_params \<Rightarrow> (nat \<Rightarrow> int) \<Rightarrow> nat \<Rightarrow> (int \<times> nat) option" where
  "get_random_exponent cp rnd i =
     (let a = take_bit (mpi_nbits (dp_order (cp_dp cp))) (rnd i)
      in if a = 0 \<or> a \<ge> dp_order (cp_dp cp) then get_random_exponent cp rnd (i + 1)
         else Some (a, i + 1))"

section \<open>Points as strings\<close>

definition compress_to_string ::
  "gcry \<Rightarrow> disp_format \<Rightarrow> affine_point \<Rightarrow> curve_params \<Rightarrow> byte list res" where
  "compress_to_string g df P cp =
     (let outlen = (if df \<noteq> DF_BIN then pk_len_compact cp else pk_len_bin cp)
      in if point_compress P then serialize_mpi g outlen df (pt_x P + dp_m (cp_dp cp))
         else serialize_mpi g outlen df (pt_x P))"

text \<open>\<open>buf\<close> is the memory the pointer points to; a text is a NUL-terminated string.\<close>

definition decompress_from_string ::
  "gcry \<Rightarrow> byte list \<Rightarrow> disp_format \<Rightarrow> curve_params \<Rightarrow> affine_point option res" where
  "decompress_from_string g buf df cp =
     (let inlen = (if df \<noteq> DF_BIN then pk_len_compact cp else pk_len_bin cp);
          m = dp_m (cp_dp cp)
      in rbind (if df \<noteq> DF_BIN then rbind (cstring buf) (\<lambda>s. rassert (length s = inlen)) else Inr ()) (\<lambda>_.
         if length buf < inlen then Inl Out_Of_Bounds
         else rbind (deserialize_mpi g df (take inlen buf)) (\<lambda>r.
           case r of
             None \<Rightarrow> Inr None
           | Some x \<Rightarrow>
               let yflag = (x \<ge> m); x = (if yflag then x - m else x)
               in if x \<ge> 0 \<and> x < m then point_decompress g x yflag (cp_dp cp) else Inr None)))"

section \<open>Signatures\<close>

text \<open>
  The deterministic version, which is compiled. \<^verbatim>\<open>ecdsa_cprng_init\<close> does not check the generator,
  which is dereferenced at its first use.
\<close>

definition ecdsa_cprng_init ::
  "gcry \<Rightarrow> cipher \<Rightarrow> digests \<Rightarrow> byte list \<Rightarrow> byte list \<Rightarrow> int \<Rightarrow> curve_params \<Rightarrow> aes256ctr option res" where
  "ecdsa_cprng_init g c h mem msg d cp =
     rbind (serialize_mpi g (order_len_bin cp) DF_BIN d) (\<lambda>buf.
     rbind (rassert (d_hmac_open h)) (\<lambda>_.
     if length msg < 64 then Inl Out_Of_Bounds
     else Inr (aes256ctr_init c (d_hmac256 h buf (take 64 msg)) mem)))"

definition ecdsa_cprng_get_exponent ::
  "gcry \<Rightarrow> cipher \<Rightarrow> aes256ctr option \<Rightarrow> curve_params \<Rightarrow> (int \<times> aes256ctr option) res" where
  "ecdsa_cprng_get_exponent g c cprng cp =
     (case cprng of
        None \<Rightarrow> Inl Null_Deref
      | Some cprng \<Rightarrow>
          rbind (aes256cprng_fillbuf c cprng (order_len_bin cp)) (\<lambda>(buf, cprng).
            Inr (buf_to_exponent g buf cp, Some cprng)))"

text \<open>One round from \<^verbatim>\<open>Step1\<close> on: \<open>None\<close> if it has to be repeated.\<close>

definition sign_round :: "gcry \<Rightarrow> byte list \<Rightarrow> int \<Rightarrow> int \<Rightarrow> curve_params \<Rightarrow> int option res" where
  "sign_round g msg d k cp =
     (let n = dp_order (cp_dp cp)
      in rbind (pointmul g (dp_base (cp_dp cp)) k (cp_dp cp)) (\<lambda>p1.
           let r = pt_x p1 mod n
           in if r = 0 then Inr None
              else
                (let e = mpi_scan g (take 64 msg);
                     e = e mod n;
                     s = mpi_mulm g d r n;
                     s = mpi_addm g s e n;
                     e = mpi_invm g k n;
                     s = mpi_mulm g s e n
                 in if s = 0 then Inr None
                    else Inr (Some (s * n + r)))))"

partial_function (option) sign_loop ::
  "gcry \<Rightarrow> cipher \<Rightarrow> byte list \<Rightarrow> int \<Rightarrow> curve_params \<Rightarrow> aes256ctr option \<Rightarrow> int res option" where
  "sign_loop g c msg d cp cprng =
     (case ecdsa_cprng_get_exponent g c cprng cp of
        Inl e \<Rightarrow> Some (Inl e)
      | Inr (k, cprng) \<Rightarrow>
          (case sign_round g msg d k cp of
             Inl e \<Rightarrow> Some (Inl e)
           | Inr None \<Rightarrow> sign_loop g c msg d cp cprng
           | Inr (Some s) \<Rightarrow> Some (Inr s)))"

definition ECDSA_sign ::
  "gcry \<Rightarrow> cipher \<Rightarrow> digests \<Rightarrow> byte list \<Rightarrow> byte list \<Rightarrow> int \<Rightarrow> curve_params \<Rightarrow> int res" where
  "ECDSA_sign g c h mem msg d cp =
     rbind (ecdsa_cprng_init g c h mem msg d cp) (\<lambda>cprng.
     case sign_loop g c msg d cp cprng of None \<Rightarrow> Inl No_Return | Some r \<Rightarrow> r)"

definition ECDSA_verify :: "gcry \<Rightarrow> byte list \<Rightarrow> affine_point \<Rightarrow> int \<Rightarrow> curve_params \<Rightarrow> bool res" where
  "ECDSA_verify g msg Q sig cp =
     (let dp = cp_dp cp; n = dp_order dp; s = sig sdiv n; r = sig smod n
      in if s \<le> 0 \<or> s \<ge> n \<or> r \<le> 0 \<or> r \<ge> n then Inr False
         else if length msg < 64 then Inl Out_Of_Bounds
         else
           (let e = mpi_scan g (take 64 msg);
                e = e mod n;
                s = mpi_invm g s n;
                e = mpi_mulm g e s n
            in rbind (pointmul g (dp_base dp) e dp) (\<lambda>X1.
               let e = mpi_mulm g r s n
               in rbind (pointmul g Q e dp) (\<lambda>X2.
                  let X1 = point_add g X1 X2 dp
                  in if \<not> point_is_zero X1 then Inr (pt_x X1 mod n = r) else Inr False))))"

section \<open>Encryption\<close>

definition ECIES_KDF :: "gcry \<Rightarrow> digests \<Rightarrow> int \<Rightarrow> affine_point \<Rightarrow> nat \<Rightarrow> byte list res" where
  "ECIES_KDF g h Zx R elemlen =
     rbind (serialize_mpi g elemlen DF_BIN Zx) (\<lambda>b0.
     rbind (serialize_mpi g elemlen DF_BIN (pt_x R)) (\<lambda>b1.
     rbind (serialize_mpi g elemlen DF_BIN (pt_y R)) (\<lambda>b2. Inr (d_sha512 h (b0 @ b1 @ b2)))))"

text \<open>The result is the key, the point \<open>R\<close> and the position in the random numbers.\<close>

partial_function (option) encryption_step ::
  "gcry \<Rightarrow> affine_point \<Rightarrow> curve_params \<Rightarrow> (nat \<Rightarrow> int) \<Rightarrow> nat \<Rightarrow> (affine_point \<times> affine_point \<times> nat) res option" where
  "encryption_step g Q cp rnd i =
     Option.bind (get_random_exponent cp rnd i) (\<lambda>(k, i).
       case rbind (pointmul g (dp_base (cp_dp cp)) k (cp_dp cp)) (\<lambda>R.
            rbind (pointmul g Q (k * dp_cofactor (cp_dp cp)) (cp_dp cp)) (\<lambda>Z. Inr (R, Z))) of
         Inl e \<Rightarrow> Some (Inl e)
       | Inr (R, Z) \<Rightarrow> if point_is_zero Z then encryption_step g Q cp rnd i else Some (Inr (R, Z, i)))"

definition ECIES_encryption ::
  "gcry \<Rightarrow> digests \<Rightarrow> affine_point \<Rightarrow> curve_params \<Rightarrow> (nat \<Rightarrow> int) \<Rightarrow> nat \<Rightarrow> (byte list \<times> affine_point \<times> nat) res" where
  "ECIES_encryption g h Q cp rnd i =
     (case encryption_step g Q cp rnd i of
        None \<Rightarrow> Inl No_Return
      | Some r \<Rightarrow> rbind r (\<lambda>(R, Z, i).
          rbind (ECIES_KDF g h (pt_x Z) R (elem_len_bin cp)) (\<lambda>key. Inr (key, R, i))))"

text \<open>\<open>None\<close> is the return value 0.\<close>

definition ECIES_decryption ::
  "gcry \<Rightarrow> digests \<Rightarrow> affine_point \<Rightarrow> int \<Rightarrow> curve_params \<Rightarrow> byte list option res" where
  "ECIES_decryption g h R d cp =
     (if \<not> embedded_key_validation g R (cp_dp cp) then Inr None
      else
        (let e = d * dp_cofactor (cp_dp cp)
         in rbind (pointmul g R e (cp_dp cp)) (\<lambda>Z.
              if \<not> point_is_zero Z then
                rbind (ECIES_KDF g h (pt_x Z) R (elem_len_bin cp)) (\<lambda>key. Inr (Some key))
              else Inr None)))"

section \<open>Key agreement\<close>

definition DH_KDF :: "gcry \<Rightarrow> digests \<Rightarrow> affine_point \<Rightarrow> nat \<Rightarrow> byte list res" where
  "DH_KDF g h P elemlen =
     rbind (serialize_mpi g elemlen DF_BIN (pt_x P)) (\<lambda>b0.
     rbind (serialize_mpi g elemlen DF_BIN (pt_y P)) (\<lambda>b1. Inr (d_sha512 h (b0 @ b1))))"

definition DH_step1 :: "gcry \<Rightarrow> curve_params \<Rightarrow> (nat \<Rightarrow> int) \<Rightarrow> nat \<Rightarrow> (int \<times> affine_point \<times> nat) res" where
  "DH_step1 g cp rnd i =
     (case get_random_exponent cp rnd i of
        None \<Rightarrow> Inl No_Return
      | Some (a, i) \<Rightarrow>
          rbind (pointmul g (dp_base (cp_dp cp)) a (cp_dp cp)) (\<lambda>A. Inr (a, A, i)))"

definition DH_step2 :: "gcry \<Rightarrow> digests \<Rightarrow> affine_point \<Rightarrow> int \<Rightarrow> curve_params \<Rightarrow> byte list option res" where
  "DH_step2 g h B exp cp =
     rbind (full_key_validation g B (cp_dp cp)) (\<lambda>valid.
       if \<not> valid then Inr None
       else rbind (pointmul g B exp (cp_dp cp)) (\<lambda>P.
              rbind (DH_KDF g h P (elem_len_bin cp)) (\<lambda>key. Inr (Some key))))"

end
