(* ===== verification/Engine.thy ===== *)
theory Engine
  imports Dns Properties Protocol
begin

text \<open>
  The engine of \<^verbatim>\<open>ffff.c\<close>, with \<^verbatim>\<open>admin.c\<close>, the start of \<^verbatim>\<open>dns.c\<close> and the program of \<^verbatim>\<open>stub.c\<close>:
  configuration, start-up with all its error paths, events, and shutdown.
\<close>

section \<open>The context\<close>

datatype f4_error =
    F4_ERR_CANT_OPEN_DB | F4_ERR_CANT_INIT_PEERS | F4_ERR_CANT_OPEN_PUBLISH_DB | F4_ERR_CANT_OPEN_SOCKET_P2P
  | F4_ERR_CANT_INIT_P2P | F4_ERR_CANT_INIT_ADMIN | F4_ERR_CANT_INIT_DNS

text \<open>
  \<^verbatim>\<open>struct f4dns_ctx\<close> and \<^verbatim>\<open>struct f4admin_ctx\<close>: which of their pointers are set. A pointer to an
  object of a library is a flag.
\<close>

record f4dns_ctx =
  d_base :: bool
  d_sock :: int
  d_server :: bool

record f4admin_ctx =
  a_http :: bool

record f4_ctx =
  is_running :: bool
  errno :: f4_error
  base :: bool
  db_file :: "byte list option"
  db :: bool
  bootstrap_file :: "byte list option"
  bootstraps :: "(sockaddr \<times> int) list"
  publish_file :: "byte list option"
  publish_db :: bool
  role_p2p_publish :: bool
  listen_p2p :: sockaddr
  listen_p2p_sz :: int
  dht_done_init :: bool
  socket_p2p_dht :: int
  socket_p2p_dht_event :: bool
  socket_p2p_app :: int
  role_dns :: bool
  listen_dns :: sockaddr
  listen_dns_sz :: int
  dns_ctx :: "f4dns_ctx option"
  role_admin :: bool
  listen_admin :: sockaddr
  listen_admin_sz :: int
  admin_ctx :: "f4admin_ctx option"
  op_ctx :: bool
  cp :: "curve_params option"
  private_key :: "byte list"
  public_key :: "byte list"

text \<open>\<open>calloc\<close> leaves 0 in \<open>errno\<close>, which is the first error of the enumeration.\<close>

definition zero_ctx :: f4_ctx where
  "zero_ctx = \<lparr>is_running = False, errno = F4_ERR_CANT_OPEN_DB, base = False, db_file = None, db = False,
     bootstrap_file = None, bootstraps = [], publish_file = None, publish_db = False, role_p2p_publish = False,
     listen_p2p = no_sockaddr, listen_p2p_sz = 0, dht_done_init = False, socket_p2p_dht = 0,
     socket_p2p_dht_event = False, socket_p2p_app = 0, role_dns = False, listen_dns = no_sockaddr,
     listen_dns_sz = 0, dns_ctx = None, role_admin = False, listen_admin = no_sockaddr, listen_admin_sz = 0,
     admin_ctx = None, op_ctx = False, cp = None, private_key = replicate 32 0, public_key = replicate 20 0\<rparr>"

definition f4_new :: "bool \<Rightarrow> f4_ctx res" where
  "f4_new ok = rbind (rassert ok) (\<lambda>_.
     Inr (zero_ctx\<lparr>socket_p2p_app := -1, socket_p2p_dht := -1\<rparr>))"

section \<open>Services\<close>

text \<open>
  What the engine asks of the system and of the libraries. Each field is what one call
  returns, as a function of the arguments that matter.
\<close>

record world =
  w_calloc :: bool                                          \<comment> \<open>allocations succeed\<close>
  w_strdup :: "byte list \<Rightarrow> byte list option"
  w_parse_sockaddr :: "byte list \<Rightarrow> (sockaddr \<times> int) option"  \<comment> \<open>evutil\_parse\_sockaddr\_port\<close>
  w_getaddrinfo :: "byte list \<Rightarrow> byte list \<Rightarrow> (sockaddr \<times> int) list option"
  w_fopen :: "byte list \<Rightarrow> byte list option"                \<comment> \<open>the contents of the file\<close>
  w_stack :: "byte list"                                    \<comment> \<open>what the line buffer holds at first\<close>
  w_add_header :: "byte list \<Rightarrow> byte list \<Rightarrow> (byte list \<times> byte list) list \<Rightarrow> (byte list \<times> byte list) list"
  w_gcry :: gcry
  w_cipher :: cipher
  w_secmem :: "byte list"                                   \<comment> \<open>what lies in fresh secure memory\<close>
  w_private :: "byte list"                                  \<comment> \<open>the 32 bytes of gcry\_randomize\<close>
  w_tctdbnew :: bool
  w_tctdbopen :: "byte list \<Rightarrow> bool"
  w_socket :: "nat \<Rightarrow> int"
  w_listen :: int
  w_bind :: "int \<Rightarrow> sockaddr \<Rightarrow> int"
  w_fcntl :: "int \<times> int"                                    \<comment> \<open>set\_nonblocking on either socket\<close>
  w_now :: int
  w_event_new :: bool
  w_evhttp_new :: bool
  w_evdns_base :: bool
  w_dns_socket :: int
  w_evdns_server :: bool

section \<open>Configuration\<close>

definition f4_set_event_base :: "f4_ctx \<Rightarrow> bool \<Rightarrow> f4_ctx res" where
  "f4_set_event_base ctx b = rbind (rassert b) (\<lambda>_. Inr (ctx\<lparr>base := b\<rparr>))"

definition f4_set_db_file :: "world \<Rightarrow> f4_ctx \<Rightarrow> byte list \<Rightarrow> f4_ctx res" where
  "f4_set_db_file w ctx name = rbind (rassert (name \<noteq> [])) (\<lambda>_. Inr (ctx\<lparr>db_file := w_strdup w name\<rparr>))"

definition f4_set_peers_file :: "world \<Rightarrow> f4_ctx \<Rightarrow> byte list \<Rightarrow> f4_ctx res" where
  "f4_set_peers_file w ctx name = rbind (rassert (name \<noteq> [])) (\<lambda>_. Inr (ctx\<lparr>bootstrap_file := w_strdup w name\<rparr>))"

definition f4_set_publish_db_file :: "world \<Rightarrow> f4_ctx \<Rightarrow> byte list \<Rightarrow> f4_ctx res" where
  "f4_set_publish_db_file w ctx name =
     rbind (rassert (name \<noteq> [])) (\<lambda>_. Inr (ctx\<lparr>publish_file := w_strdup w name, role_p2p_publish := True\<rparr>))"

text \<open>The size is set to that of the buffer, 128 bytes, before the address is parsed.\<close>

definition f4_set_listen_dns :: "world \<Rightarrow> f4_ctx \<Rightarrow> byte list \<Rightarrow> int \<times> f4_ctx" where
  "f4_set_listen_dns w ctx address = (case w_parse_sockaddr w address of
       Some (sa, n) \<Rightarrow> (0, ctx\<lparr>listen_dns := sa, listen_dns_sz := n, role_dns := True\<rparr>)
     | None \<Rightarrow> (-1, ctx\<lparr>listen_dns_sz := 128, role_dns := False\<rparr>))"

definition f4_set_listen_p2p :: "world \<Rightarrow> f4_ctx \<Rightarrow> byte list \<Rightarrow> int \<times> f4_ctx" where
  "f4_set_listen_p2p w ctx address = (case w_parse_sockaddr w address of
       Some (sa, n) \<Rightarrow> (0, ctx\<lparr>listen_p2p := sa, listen_p2p_sz := n\<rparr>)
     | None \<Rightarrow> (-1, ctx\<lparr>listen_p2p_sz := 128\<rparr>))"

definition f4_set_listen_admin :: "world \<Rightarrow> f4_ctx \<Rightarrow> byte list \<Rightarrow> int \<times> f4_ctx" where
  "f4_set_listen_admin w ctx address = (case w_parse_sockaddr w address of
       Some (sa, n) \<Rightarrow> (0, ctx\<lparr>listen_admin := sa, listen_admin_sz := n, role_admin := True\<rparr>)
     | None \<Rightarrow> (-1, ctx\<lparr>listen_admin_sz := 128, role_admin := False\<rparr>))"

section \<open>Peers\<close>

definition f4_init_peer_from_sockaddr :: "world \<Rightarrow> f4_ctx \<Rightarrow> sockaddr \<times> int \<Rightarrow> f4_ctx res" where
  "f4_init_peer_from_sockaddr w ctx a =
     rbind (rassert (w_calloc w)) (\<lambda>_. Inr (ctx\<lparr>bootstraps := bootstraps ctx @ [a]\<rparr>))"

fun init_peers_from :: "world \<Rightarrow> f4_ctx \<Rightarrow> (sockaddr \<times> int) list \<Rightarrow> f4_ctx res" where
  "init_peers_from w ctx [] = Inr ctx"
| "init_peers_from w ctx (a # as) =
     rbind (f4_init_peer_from_sockaddr w ctx a) (\<lambda>ctx. init_peers_from w ctx as)"

definition f4_add_peer :: "world \<Rightarrow> f4_ctx \<Rightarrow> byte list \<Rightarrow> byte list \<Rightarrow> (nat \<times> f4_ctx) res" where
  "f4_add_peer w ctx host port = (case w_getaddrinfo w host port of
       None \<Rightarrow> Inr (1, ctx)
     | Some as \<Rightarrow> rbind (init_peers_from w ctx as) (\<lambda>ctx. Inr (0, ctx)))"

fun add_peers :: "world \<Rightarrow> f4_ctx \<Rightarrow> (byte list \<times> byte list) list \<Rightarrow> nat \<Rightarrow> (nat \<times> f4_ctx) res" where
  "add_peers w ctx [] invalid = Inr (invalid, ctx)"
| "add_peers w ctx ((host, port) # ps) invalid =
     rbind (f4_add_peer w ctx host port) (\<lambda>(n, ctx). add_peers w ctx ps (invalid + n))"

definition f4_init_peers :: "world \<Rightarrow> f4_ctx \<Rightarrow> (bool \<times> f4_ctx) res" where
  "f4_init_peers w ctx =
     (case bootstrap_file ctx of
        None \<Rightarrow> Inl Assert_Fail
      | Some name \<Rightarrow>
          case w_fopen w name of
            None \<Rightarrow> Inr (False, ctx)
          | Some f \<Rightarrow>
              rbind (properties_parse_file (w_add_header w) f (w_stack w) []) (\<lambda>peers.
              rbind (add_peers w ctx peers 0) (\<lambda>(invalid, ctx). Inr (invalid = 0, ctx))))"

section \<open>Start-up\<close>

text \<open>
  The key is written to the array \<^verbatim>\<open>public_key\<close>, which has 20 bytes and is at the end of the structure;
  what is longer goes into the padding behind it.
\<close>

definition f4_init_crypto :: "world \<Rightarrow> f4_ctx \<Rightarrow> f4_ctx res" where
  "f4_init_crypto w ctx =
     rbind (curve_by_name (w_gcry w) ''p160'' DF_BASE36) (\<lambda>curve.
       case curve of
         None \<Rightarrow> Inl Assert_Fail
       | Some c \<Rightarrow>
           rbind (hash_to_exponent (w_gcry w) (w_cipher w) (w_secmem w) (w_private w) c) (\<lambda>private_d.
           rbind (pointmul (w_gcry w) (dp_base (cp_dp c)) private_d (cp_dp c)) (\<lambda>private_P.
           rbind (compress_to_string (w_gcry w) DF_BIN private_P c) (\<lambda>key.
             Inr (ctx\<lparr>cp := Some c, private_key := w_private w, public_key := take 20 key\<rparr>)))))"

text \<open>
  \<^verbatim>\<open>f4_init_p2p\<close>. The test of \<open>listen\<close> is inverted: it fails when \<open>listen\<close> succeeds, which it does
  not on a datagram socket.
\<close>

definition f4_init_p2p :: "world \<Rightarrow> f4_ctx \<Rightarrow> dht \<Rightarrow> (bool \<times> f4_ctx \<times> dht) res" where
  "f4_init_p2p w ctx s =
     (let family = sa_family (listen_p2p ctx); fd = w_socket w family; ctx1 = ctx\<lparr>socket_p2p_dht := fd\<rparr>;
          bad = ctx1\<lparr>errno := F4_ERR_CANT_OPEN_SOCKET_P2P\<rparr>
      in if fd = -1 then Inr (False, bad, s)
         else if w_listen w = 0 then Inr (False, bad, s)
         else if w_bind w fd (listen_p2p ctx) \<noteq> 0 then Inr (False, bad, s)
         else rbind (rassert (family = AF_INET6 \<or> family = AF_INET)) (\<lambda>_.
           let (s4, s6) = (if family = AF_INET6 then (-1, fd) else (fd, -1));
               (rc, s1) = dht_init s4 s6 (public_key ctx) (Some (ascii ''P2NS'')) (fst (w_fcntl w)) (snd (w_fcntl w)) (w_now w) s
           in if rc < 0 then Inr (False, ctx1, s1)
              else rbind (rassert (w_event_new w)) (\<lambda>_.
                Inr (True, ctx1\<lparr>dht_done_init := True, socket_p2p_dht_event := True\<rparr>, s1))))"

definition f4admin_new :: "world \<Rightarrow> f4admin_ctx res" where
  "f4admin_new w = (if w_calloc w then Inr \<lparr>a_http = False\<rparr> else Inl Null_Deref)"

definition f4admin_init :: "world \<Rightarrow> f4admin_ctx \<Rightarrow> bool \<times> f4admin_ctx" where
  "f4admin_init w a = (True, a\<lparr>a_http := w_evhttp_new w\<rparr>)"

definition f4dns_new :: "world \<Rightarrow> f4dns_ctx res" where
  "f4dns_new w = (if w_calloc w then Inr \<lparr>d_base = False, d_sock = -1, d_server = False\<rparr> else Inl Null_Deref)"

definition f4dns_init :: "world \<Rightarrow> f4_ctx \<Rightarrow> f4dns_ctx \<Rightarrow> (bool \<times> f4dns_ctx) res" where
  "f4dns_init w ctx d =
     rbind (rassert (w_evdns_base w)) (\<lambda>_.
       let d1 = d\<lparr>d_base := True, d_sock := w_dns_socket w\<rparr>
       in if w_bind w (w_dns_socket w) (listen_dns ctx) \<noteq> 0 then Inr (False, d1)
          else Inr (True, d1\<lparr>d_server := w_evdns_server w\<rparr>))"

text \<open>One database: \<^verbatim>\<open>tctdbopen\<close> takes a file name, which must not be NULL.\<close>

definition open_db :: "world \<Rightarrow> byte list option \<Rightarrow> bool res" where
  "open_db w name =
     rbind (rassert (w_tctdbnew w)) (\<lambda>_.
       case name of None \<Rightarrow> Inl Lib_Fault | Some f \<Rightarrow> Inr (w_tctdbopen w f))"

text \<open>The steps of \<^verbatim>\<open>f4_init\<close>, in order; each returns whether it succeeded.\<close>

definition init_databases :: "world \<Rightarrow> f4_ctx \<Rightarrow> (bool \<times> f4_ctx) res" where
  "init_databases w ctx =
     rbind (rassert (w_tctdbnew w \<and> db_file ctx \<noteq> None)) (\<lambda>_.
     rbind (open_db w (db_file ctx)) (\<lambda>ok.
       let ctx = ctx\<lparr>db := True\<rparr>
       in if \<not> ok then Inr (False, ctx\<lparr>errno := F4_ERR_CANT_OPEN_DB\<rparr>)
          else if role_p2p_publish ctx
          then rbind (open_db w (publish_file ctx)) (\<lambda>ok.
                 let ctx = ctx\<lparr>publish_db := True\<rparr>
                 in if \<not> ok then Inr (False, ctx\<lparr>errno := F4_ERR_CANT_OPEN_PUBLISH_DB\<rparr>) else Inr (True, ctx))
          else Inr (True, ctx)))"

definition init_peers :: "world \<Rightarrow> f4_ctx \<Rightarrow> (bool \<times> f4_ctx) res" where
  "init_peers w ctx =
     (if bootstrap_file ctx = None then Inr (True, ctx)
      else rbind (f4_init_peers w ctx) (\<lambda>(ok, ctx).
        if ok then Inr (True, ctx) else Inr (False, ctx\<lparr>errno := F4_ERR_CANT_INIT_PEERS\<rparr>)))"

definition init_p2p :: "world \<Rightarrow> f4_ctx \<Rightarrow> dht \<Rightarrow> (bool \<times> f4_ctx \<times> dht) res" where
  "init_p2p w ctx s =
     rbind (f4_init_p2p w ctx s) (\<lambda>(ok, ctx, s).
       if ok then Inr (True, ctx, s) else Inr (False, ctx\<lparr>errno := F4_ERR_CANT_INIT_P2P\<rparr>, s))"

definition init_admin :: "world \<Rightarrow> f4_ctx \<Rightarrow> (bool \<times> f4_ctx) res" where
  "init_admin w ctx =
     (if \<not> role_admin ctx then Inr (True, ctx)
      else rbind (f4admin_new w) (\<lambda>a.
        let (ok, a) = f4admin_init w a; ctx = ctx\<lparr>admin_ctx := Some a\<rparr>
        in if ok then Inr (True, ctx) else Inr (False, ctx\<lparr>errno := F4_ERR_CANT_INIT_ADMIN\<rparr>)))"

definition init_dns :: "world \<Rightarrow> f4_ctx \<Rightarrow> (bool \<times> f4_ctx) res" where
  "init_dns w ctx =
     (if \<not> role_dns ctx then Inr (True, ctx)
      else rbind (f4dns_new w) (\<lambda>d.
           rbind (f4dns_init w ctx d) (\<lambda>(ok, d).
             let ctx = ctx\<lparr>dns_ctx := Some d\<rparr>
             in if ok then Inr (True, ctx) else Inr (False, ctx\<lparr>errno := F4_ERR_CANT_INIT_DNS\<rparr>))))"

definition f4_init :: "world \<Rightarrow> f4_ctx \<Rightarrow> dht \<Rightarrow> (bool \<times> f4_ctx \<times> dht) res" where
  "f4_init w ctx s =
     rbind (f4_init_crypto w ctx) (\<lambda>ctx.
     rbind (init_databases w ctx) (\<lambda>(ok, ctx). if \<not> ok then Inr (False, ctx, s) else
     rbind (if w_calloc w then Inr (ctx\<lparr>op_ctx := True\<rparr>) else Inl Null_Deref) (\<lambda>ctx.
     rbind (init_peers w ctx) (\<lambda>(ok, ctx). if \<not> ok then Inr (False, ctx, s) else
     rbind (init_p2p w ctx s) (\<lambda>(ok, ctx, s). if \<not> ok then Inr (False, ctx, s) else
     rbind (init_admin w ctx) (\<lambda>(ok, ctx). if \<not> ok then Inr (False, ctx, s) else
     rbind (init_dns w ctx) (\<lambda>(ok, ctx). Inr (ok, ctx, s))))))))"

section \<open>Running\<close>

text \<open>
  \<^verbatim>\<open>f4_start\<close> pings the bootstrap peers. What \<open>dht_ping_node\<close> returns is ignored.
\<close>

definition f4_start :: "f4_ctx \<Rightarrow> dht \<Rightarrow> f4_ctx \<times> dht" where
  "f4_start ctx s =
     (ctx\<lparr>is_running := True\<rparr>, fold (\<lambda>(sa, n) s. snd (dht_ping_node sa n s)) (bootstraps ctx) s)"

definition f4_stop :: "f4_ctx \<Rightarrow> f4_ctx" where
  "f4_stop ctx = ctx\<lparr>is_running := False\<rparr>"

text \<open>The DHT tells of an event; \<^verbatim>\<open>opget_dht_callback\<close> asserts false.\<close>

definition run_dht_callback :: "handler option \<Rightarrow> unit res" where
  "run_dht_callback h = (case h of
       None \<Rightarrow> Inl Null_Deref
     | Some opget_dht_callback \<Rightarrow> Inl Assert_Fail
     | Some opget_dns_callback \<Rightarrow> Inl Type_Confusion)"

definition f4_cb_dht :: "event \<Rightarrow> f4ops \<Rightarrow> unit res" where
  "f4_cb_dht e d =
     rbind (call (f4op_find (ev_hash e) d)) (\<lambda>p.
       if p = 0 then Inr ()
       else rbind (call (op_at d p)) (\<lambda>x. run_dht_callback (op_dht x)))"

fun tell_events :: "event list \<Rightarrow> f4ops \<Rightarrow> unit res" where
  "tell_events [] d = Inr ()"
| "tell_events (e # es) d = rbind (f4_cb_dht e d) (\<lambda>_. tell_events es d)"

text \<open>
  \<^verbatim>\<open>f4_cb_dht_read\<close>: one run of \<open>dht_periodic\<close>, which calls \<open>f4_cb_dht\<close> for each event. The time to
  sleep is not used.
\<close>

definition EV_READ :: int where "EV_READ = 2"

definition f4_cb_dht_read :: "int \<Rightarrow> input \<Rightarrow> resolver \<Rightarrow> resolver res" where
  "f4_cb_dht_read event inp s =
     (let (rc, tosleep, s') = dht_periodic (inp\<lparr>in_available := (event = EV_READ)\<rparr>) True (r_dht s)
      in rbind (tell_events (drop (length (events (r_dht s))) (events s')) (r_ops s)) (\<lambda>_.
           case died s' of Some f \<Rightarrow> Inl f | None \<Rightarrow> Inr (s\<lparr>r_dht := s'\<rparr>)))"

section \<open>Shutdown\<close>

text \<open>\<open>R_Event\<close> is the event while the loop watches it: \<open>event_del\<close> ends that, and does not free it.\<close>

datatype resource =
    R_Admin | R_Http | R_Event | R_Dht | R_Curve | R_Socket int | R_Bootstraps | R_Bootstrap_File | R_Db_File
  | R_Publish_File | R_Publish_Db | R_Db | R_Dns | R_Dns_Base | R_Dns_Server | R_Ops | R_Event_Memory

definition f4admin_free :: "f4admin_ctx \<Rightarrow> resource list" where
  "f4admin_free a = (if a_http a then [R_Http] else []) @ [R_Admin]"

definition f4dns_free :: "f4dns_ctx \<Rightarrow> resource list" where
  "f4dns_free d = (if d_server d then [R_Dns_Server] else []) @ (if d_base d then [R_Dns_Base] else []) @ [R_Dns]"

text \<open>What \<^verbatim>\<open>f4_free\<close> releases, in order, and the state of the DHT afterwards.\<close>

definition f4_free :: "f4_ctx \<Rightarrow> dht \<Rightarrow> resource list \<times> dht" where
  "f4_free ctx s =
     ((case admin_ctx ctx of Some a \<Rightarrow> f4admin_free a | None \<Rightarrow> []) @
      (if dht_done_init ctx then [R_Event, R_Dht] else []) @
      (if cp ctx \<noteq> None then [R_Curve] else []) @
      (if socket_p2p_app ctx \<noteq> -1 then [R_Socket (socket_p2p_app ctx)] else []) @
      (if socket_p2p_dht ctx \<noteq> -1 then [R_Socket (socket_p2p_dht ctx)] else []) @
      (if bootstraps ctx \<noteq> [] then [R_Bootstraps] else []) @
      (if bootstrap_file ctx \<noteq> None then [R_Bootstrap_File] else []) @
      (if db_file ctx \<noteq> None then [R_Db_File] else []) @
      (if publish_db ctx then [R_Publish_Db] else []) @
      (if db ctx then [R_Db] else []),
      if dht_done_init ctx then snd (dht_uninit True s) else s)"

section \<open>The program\<close>

datatype option_char = Opt_D | Opt_A | Opt_P | Opt_s | Opt_p | Opt_b | Opt_h | Opt_other

text \<open>The loop over the options that \<open>getopt\<close> returns, with their arguments.\<close>

fun parse_options :: "world \<Rightarrow> (option_char \<times> byte list) list \<Rightarrow> f4_ctx \<Rightarrow> bool \<Rightarrow> (f4_ctx \<times> bool) res" where
  "parse_options w [] ctx help = Inr (ctx, help)"
| "parse_options w ((ch, arg) # os) ctx help =
     (case ch of
        Opt_D \<Rightarrow> parse_options w os (snd (f4_set_listen_dns w ctx arg)) help
      | Opt_A \<Rightarrow> parse_options w os (snd (f4_set_listen_admin w ctx arg)) help
      | Opt_P \<Rightarrow> parse_options w os (snd (f4_set_listen_p2p w ctx arg)) help
      | Opt_s \<Rightarrow> rbind (f4_set_db_file w ctx arg) (\<lambda>ctx. parse_options w os ctx help)
      | Opt_p \<Rightarrow> rbind (f4_set_publish_db_file w ctx arg) (\<lambda>ctx. parse_options w os ctx help)
      | Opt_b \<Rightarrow> rbind (f4_set_peers_file w ctx arg) (\<lambda>ctx. parse_options w os ctx help)
      | Opt_h \<Rightarrow> parse_options w os ctx True
      | Opt_other \<Rightarrow> parse_options w os ctx help)"

text \<open>
  \<^verbatim>\<open>main\<close> after the initialisation of libgcrypt: help is shown (None), or the engine is started;
  the result says whether it came up. \<open>loop\<close> is the event loop of \<^verbatim>\<open>run_stuff\<close>, between
  \<^verbatim>\<open>f4_start\<close> and \<^verbatim>\<open>f4_stop\<close>.
\<close>

definition run_stuff :: "(f4_ctx \<times> dht \<Rightarrow> f4_ctx \<times> dht) \<Rightarrow> f4_ctx \<Rightarrow> dht \<Rightarrow> f4_ctx \<times> dht" where
  "run_stuff loop ctx s = (let (ctx, s) = loop (f4_start ctx s) in (f4_stop ctx, s))"

definition default_peers :: "world \<Rightarrow> f4_ctx \<Rightarrow> f4_ctx res" where
  "default_peers w ctx =
     (if bootstrap_file ctx \<noteq> None then Inr ctx
      else rbind (f4_add_peer w ctx (ascii ''router.bittorrent.com'') (ascii ''6881'')) (\<lambda>(_, ctx).
        if sa_family (listen_p2p ctx) = AF_INET6
        then rbind (f4_add_peer w ctx (ascii ''dht.wifi.pps.jussieu.fr'') (ascii ''6881'')) (\<lambda>(_, ctx). Inr ctx)
        else Inr ctx))"

definition main_program ::
    "world \<Rightarrow> (f4_ctx \<times> dht \<Rightarrow> f4_ctx \<times> dht) \<Rightarrow> nat \<Rightarrow> (option_char \<times> byte list) list \<Rightarrow> dht \<Rightarrow>
     (bool option \<times> resource list \<times> dht) res" where
  "main_program w loop argc opts s =
     rbind (f4_new (w_calloc w)) (\<lambda>ctx.
     rbind (parse_options w opts
              (snd (f4_set_listen_admin w (snd (f4_set_listen_p2p w ctx (ascii ''[::]:14010''))) (ascii ''[::]:14040'')))
              (argc = 1)) (\<lambda>(ctx, help).
       if help \<or> db_file ctx = None then let (rs, s) = f4_free ctx s in Inr (None, rs, s)
       else rbind (default_peers w ctx) (\<lambda>ctx.
            rbind (f4_set_event_base ctx True) (\<lambda>ctx.
            rbind (f4_init w ctx s) (\<lambda>(ok, ctx, s).
              let (ctx, s) = (if ok then run_stuff loop ctx s else (ctx, s)); (rs, s) = f4_free ctx s
              in Inr (Some ok, rs, s))))))"

end
