(* ===== verification/Protocol_Props.thy ===== *)
theory Protocol_Props
  imports Protocol Ecc_Props
begin

text \<open>
  What \<^verbatim>\<open>protocol.c\<close> achieves: points survive the way through a string, signatures verify, and the
  two sides of a key agreement or of an encryption compute the same key.
\<close>

section \<open>Compression of points\<close>

lemma decompress_solutions:
  assumes "curve_ok dp" "solves dp x y" "solves dp x y'" "in_field dp y" "in_field dp y'"
  shows "y' = y \<or> y' = dp_m dp - y"
proof -
  have "eqm (dp_m dp) (y * y) (y' * y')"
    using assms(2,3) by (simp add: solves_def eqm_def)
  then have "dp_m dp dvd (y - y') * (y + y')"
    by (simp add: eqm_dvd algebra_simps)
  then consider "dp_m dp dvd y - y'" | "dp_m dp dvd y + y'"
    using prime_dvd_mult [OF curve_okD(1) [OF assms(1)]] by blast
  then show ?thesis
  proof cases
    case 1
    then show ?thesis using in_field_eqm [OF assms(4,5)] by (simp add: eqm_dvd)
  next
    case 2
    then obtain k where k: "y + y' = dp_m dp * k" by blast
    have m: "0 < dp_m dp" using curve_okD(4) [OF assms(1)] .
    have "0 \<le> y + y'" "y + y' < dp_m dp * 2"
      using assms(4,5) by (simp_all add: in_field_def)
    then have "0 \<le> k" "k < 2"
      using m unfolding k by (simp_all add: zero_le_mult_iff)
    then have "k = 0 \<or> k = 1" by linarith
    then show ?thesis
      using k assms(4,5) by (auto simp: in_field_def)
  qed
qed

lemma solves_negative:
  assumes "solves dp x y"
  shows "solves dp x (dp_m dp - y)"
proof -
  have "eqm (dp_m dp) ((dp_m dp - y) * (dp_m dp - y)) (y * y)"
  proof -
    have "(dp_m dp - y) * (dp_m dp - y) - y * y = dp_m dp * (dp_m dp - 2 * y)"
      by (simp add: algebra_simps)
    then show ?thesis by (simp add: eqm_dvd)
  qed
  with assms show ?thesis by (simp add: solves_def eqm_def)
qed

text \<open>Decompression finds exactly the point with the abscissa and the parity of the ordinate.\<close>

lemma point_decompress:
  assumes "gcry_ok g" "curve_ok dp" "in_field dp x"
  shows "\<exists>r. point_decompress g x f dp = Inr r \<and>
    (\<forall>p. r = Some p \<longleftrightarrow> curve_point dp p \<and> \<not> point_is_zero p \<and> pt_x p = x \<and> point_compress p = f)"
proof -
  note m = curve_okD(4) [OF assms(2)]
  let ?m = "dp_m dp"
  let ?h = "mpi_addm g (mpi_mulm g (mpi_addm g (mpi_mulm g x x ?m) (dp_a dp) ?m) x ?m) (dp_b dp) ?m"
  have h: "eqm ?m ?h (x * x * x + dp_a dp * x + dp_b dp)"
    by (rule eqm_eq, (rule eqm_gcry [OF assms(1) m] eqm_refl)+) (simp add: algebra_simps)
  have hr: "0 \<le> ?h" "?h < ?m" by (simp_all add: gcry_range [OF assms(1) m])
  have root: "y * y mod ?m = ?h \<longleftrightarrow> solves dp x y" for y
  proof -
    have "?h = ?h mod ?m" using hr by simp
    then show ?thesis using h by (simp add: solves_def eqm_def)
  qed
  consider y where "mod_root g ?h ?m = Inr (Some y)" "0 \<le> y" "y < ?m" "solves dp x y"
    | "mod_root g ?h ?m = Inr None" "\<And>y. \<not> solves dp x y"
    using mod_root [OF assms(1) curve_okD(1,2,7) [OF assms(2)] hr] unfolding root by blast
  then show ?thesis
  proof cases
    case 2
    have "\<not> (curve_point dp p \<and> \<not> point_is_zero p \<and> pt_x p = x \<and> point_compress p = f)" for p
      using 2(2) by (auto simp: curve_point_def)
    then show ?thesis
      using 2(1) by (intro exI [of _ None]) (simp add: point_decompress_def Let_def)
  next
    case 1
    have fy: "in_field dp y" using 1(2,3) by (simp add: in_field_def)
    have odd: "odd ?m" using curve_okD(2) [OF assms(2)] .
    have zero: "\<not> point_is_zero \<lparr>pt_x = x, pt_y = z\<rparr>" if "solves dp x z" for z
      using solves_not_zero [OF assms(2) that] by (simp add: point_is_zero_def)
    show ?thesis
    proof (cases "y \<noteq> 0 \<or> \<not> f")
      case True
      define z where "z = (if bit y 0 = f then y else ?m - y)"
      have z: "solves dp x z" "in_field dp z" "bit z 0 = f"
        using 1(4) solves_negative [OF 1(4)] fy True odd by (cases "y = 0"; auto simp: z_def in_field_def bit_0)+
      have "point_decompress g x f dp = Inr (Some \<lparr>pt_x = x, pt_y = z\<rparr>)"
        using 1(1) True point_on_curve [OF assms(1,2), of "\<lparr>pt_x = x, pt_y = z\<rparr>"] z(1)
        by (simp add: point_decompress_def Let_def flip: z_def)
      moreover have "\<lparr>pt_x = x, pt_y = z\<rparr> = p \<longleftrightarrow>
          curve_point dp p \<and> \<not> point_is_zero p \<and> pt_x p = x \<and> point_compress p = f" for p
      proof
        assume "\<lparr>pt_x = x, pt_y = z\<rparr> = p"
        then show "curve_point dp p \<and> \<not> point_is_zero p \<and> pt_x p = x \<and> point_compress p = f"
          using z zero assms(3) by (auto simp: curve_point_def point_compress_def)
      next
        assume p: "curve_point dp p \<and> \<not> point_is_zero p \<and> pt_x p = x \<and> point_compress p = f"
        then have py: "solves dp x (pt_y p)" "in_field dp (pt_y p)" "bit (pt_y p) 0 = f"
          by (auto simp: curve_point_def point_compress_def)
        from decompress_solutions [OF assms(2) z(1) py(1) z(2) py(2)]
        have "pt_y p = z" using py(3) z(3) odd by (auto simp: bit_0)
        with p show "\<lparr>pt_x = x, pt_y = z\<rparr> = p" by (cases p) simp
      qed
      ultimately show ?thesis by (intro exI [of _ "Some \<lparr>pt_x = x, pt_y = z\<rparr>"]) simp
    next
      case False
      then have y: "y = 0" "f" by simp_all
      have "\<not> (curve_point dp p \<and> \<not> point_is_zero p \<and> pt_x p = x \<and> point_compress p = f)" for p
      proof
        assume p: "curve_point dp p \<and> \<not> point_is_zero p \<and> pt_x p = x \<and> point_compress p = f"
        then have py: "solves dp x (pt_y p)" "in_field dp (pt_y p)" "odd (pt_y p)"
          using y(2) by (auto simp: curve_point_def point_compress_def bit_0)
        from decompress_solutions [OF assms(2) 1(4) py(1) fy py(2)] y(1) py(2,3)
        show False by (auto simp: in_field_def)
      qed
      moreover have "point_decompress g x f dp = Inr None"
        using 1(1) y by (simp add: point_decompress_def Let_def)
      ultimately show ?thesis by (intro exI [of _ None]) simp
    qed
  qed
qed

text \<open>The lengths of a loaded curve are enough for what is written with them.\<close>

definition lengths_ok :: "disp_format \<Rightarrow> curve_params \<Rightarrow> bool" where
  "lengths_ok df cp \<longleftrightarrow>
     2 * dp_m (cp_dp cp) \<le> 256 ^ pk_len_bin cp \<and> 2 * dp_m (cp_dp cp) \<le> radix df ^ pk_len_compact cp \<and>
     dp_order (cp_dp cp) * dp_order (cp_dp cp) \<le> 256 ^ sig_len_bin cp \<and>
     dp_order (cp_dp cp) * dp_order (cp_dp cp) \<le> radix df ^ sig_len_compact cp \<and>
     dp_m (cp_dp cp) < 256 ^ elem_len_bin cp \<and> dp_order (cp_dp cp) < 256 ^ order_len_bin cp"

text \<open>The digits are no NUL, no line feed, no carriage return and no space.\<close>

lemma text_chars:
  assumes "gcry_ok g" "df \<noteq> DF_BIN" "serialize_mpi g n df x = Inr buf" "0 \<le> x"
  shows "set buf \<inter> {0, 10, 13, 32} = {}"
proof -
  obtain ds b where d: "get_digits df = Inr ds" "get_digit_count df = Inr b" "distinct ds"
    "int (length ds) = b" "0 < b" "radix df = b"
    using assms(2) by (rule text_formats)
  have chars: "set ds \<inter> {0, 10, 13, 32} = {}"
    using d(1) assms(2) by (cases df) (auto simp: compact_digits_def base36_digits_def)
  have lt: "set (last_digits b k y) \<subseteq> {..<length ds}" for k y
    using d(4,5) by (induction k arbitrary: y) (auto simp: nat_less_iff)
  have "buf = map ((!) ds) (last_digits b n x)"
    using assms d by (auto simp: serialize_text(1) [OF assms(1,4) d(1,2)] split: if_splits)
  then have "set buf \<subseteq> set ds"
    using lt [of n x] by (auto intro!: nth_mem)
  with chars show ?thesis by blast
qed

lemma compress_chars:
  assumes "gcry_ok g" "df \<noteq> DF_BIN" "compress_to_string g df P cp = Inr buf" "0 \<le> pt_x P" "0 \<le> dp_m (cp_dp cp)"
  shows "set buf \<inter> {0, 10, 13, 32} = {}"
  using text_chars [OF assms(1,2), of _ _ buf] assms(3-5)
  by (auto simp: compress_to_string_def Let_def split: if_splits)

lemma compress:
  assumes "gcry_ok g" "curve_ok (cp_dp cp)" "curve_point (cp_dp cp) P" "\<not> point_is_zero P" "lengths_ok df cp"
    "form = df \<or> form = DF_BIN"
  shows "\<exists>buf. compress_to_string g form P cp = Inr buf \<and>
    length buf = (if form \<noteq> DF_BIN then pk_len_compact cp else pk_len_bin cp) \<and>
    decompress_from_string g (buf @ 0 # rest) form cp = Inr (Some P) \<and>
    (form = DF_BIN \<longrightarrow> decompress_from_string g (buf @ rest) form cp = Inr (Some P))"
proof -
  let ?m = "dp_m (cp_dp cp)"
  let ?n = "if form \<noteq> DF_BIN then pk_len_compact cp else pk_len_bin cp"
  define x where "x = (if point_compress P then pt_x P + ?m else pt_x P)"
  have px: "0 \<le> pt_x P" "pt_x P < ?m"
    using assms(3) by (simp_all add: curve_point_def in_field_def)
  then have x: "0 \<le> x" "x < 2 * ?m" by (simp_all add: x_def)
  then have "x < radix form ^ ?n"
    using assms(5,6) by (auto simp: lengths_ok_def)
  from serialize_deserialize [OF assms(1) x(1) this] obtain buf where
    b: "serialize_mpi g ?n form x = Inr buf" "length buf = ?n" "deserialize_mpi g form buf = Inr (Some x)" by blast
  have c: "compress_to_string g form P cp = Inr buf"
    using b(1) by (simp add: compress_to_string_def Let_def x_def split: if_splits)
  obtain r where r: "point_decompress g (pt_x P) (point_compress P) (cp_dp cp) = Inr r" "r = Some P"
    using point_decompress [OF assms(1,2), of "pt_x P" "point_compress P"] assms(3,4)
    by (auto simp: curve_point_def)
  have flag: "x \<ge> ?m \<longleftrightarrow> point_compress P" "(if x \<ge> ?m then x - ?m else x) = pt_x P"
    using px by (simp_all add: x_def)
  have "decompress_from_string g (buf @ tl) form cp = Inr (Some P)"
    if "form = DF_BIN \<or> (\<exists>rest. tl = 0 # rest)" for tl
  proof -
    have "(if form \<noteq> DF_BIN then rbind (cstring (buf @ tl)) (\<lambda>s. rassert (length s = ?n)) else Inr ()) = Inr ()"
      using that text_chars [OF assms(1) _ b(1) x(1)] b(2) by (auto simp: cstring_append_0)
    moreover have "take ?n (buf @ tl) = buf" "\<not> length (buf @ tl) < ?n"
      using b(2) by simp_all
    ultimately show ?thesis
      using b(3) flag px r unfolding decompress_from_string_def Let_def
      by (simp only: rbind_Inr if_False option.case flag) simp
  qed
  then show ?thesis using b(2) c by blast
qed

lemma decompress:
  assumes "gcry_ok g" "curve_ok (cp_dp cp)" "decompress_from_string g buf form cp = Inr (Some P)"
  shows "curve_point (cp_dp cp) P \<and> \<not> point_is_zero P \<and>
    compress_to_string g form P cp = Inr (take (if form \<noteq> DF_BIN then pk_len_compact cp else pk_len_bin cp) buf)"
proof -
  let ?m = "dp_m (cp_dp cp)"
  let ?n = "if form \<noteq> DF_BIN then pk_len_compact cp else pk_len_bin cp"
  obtain x where x: "\<not> length buf < ?n" "deserialize_mpi g form (take ?n buf) = Inr (Some x)"
    "(let yflag = (x \<ge> ?m); x = (if yflag then x - ?m else x)
      in if x \<ge> 0 \<and> x < ?m then point_decompress g x yflag (cp_dp cp) else Inr None) = Inr (Some P)"
    using assms(3) unfolding decompress_from_string_def Let_def
    by (auto simp: rbind_eq_Inr split: if_splits option.splits)
  define z where "z = (if x \<ge> ?m then x - ?m else x)"
  have z: "0 \<le> z" "z < ?m" and d: "point_decompress g z (x \<ge> ?m) (cp_dp cp) = Inr (Some P)"
    using x(3) by (auto simp: Let_def z_def split: if_splits)
  obtain r where "point_decompress g z (x \<ge> ?m) (cp_dp cp) = Inr r"
    "\<forall>p. r = Some p \<longleftrightarrow> curve_point (cp_dp cp) p \<and> \<not> point_is_zero p \<and> pt_x p = z \<and> point_compress p = (x \<ge> ?m)"
    using point_decompress [OF assms(1,2), of z "x \<ge> ?m"] z by (auto simp: in_field_def)
  with d have p: "curve_point (cp_dp cp) P" "\<not> point_is_zero P" "pt_x P = z" "point_compress P = (x \<ge> ?m)"
    by simp_all
  have "length (take ?n buf) = ?n"
    using x(1) by simp
  then have "serialize_mpi g ?n form x = Inr (take ?n buf)"
    using deserialize_serialize [OF assms(1) x(2)] by simp
  then have "compress_to_string g form P cp = Inr (take ?n buf)"
    using p(3,4) by (simp add: compress_to_string_def Let_def z_def split: if_splits)
  with p show ?thesis by simp
qed

text \<open>C38. Points and their compressed strings correspond one to one: a point of the curve is written
  to a string of the length of a public key and read back as itself, in the text and in the
  binary format, whatever follows in memory; and a string that is read as a point is the
  string of that point, which is on the curve and not the neutral element.\<close>

theorem compression_roundtrip:
  assumes "gcry_ok g" "curve_ok (cp_dp cp)" "lengths_ok df cp" "form = df \<or> form = DF_BIN"
  shows "(\<forall>P. curve_point (cp_dp cp) P \<longrightarrow> \<not> point_is_zero P \<longrightarrow>
      (\<exists>buf. compress_to_string g form P cp = Inr buf \<and>
        length buf = (if form \<noteq> DF_BIN then pk_len_compact cp else pk_len_bin cp) \<and>
        (\<forall>rest. decompress_from_string g (buf @ 0 # rest) form cp = Inr (Some P)))) \<and>
    (\<forall>buf P. decompress_from_string g buf form cp = Inr (Some P) \<longrightarrow>
      curve_point (cp_dp cp) P \<and> \<not> point_is_zero P \<and>
      compress_to_string g form P cp = Inr (take (if form \<noteq> DF_BIN then pk_len_compact cp else pk_len_bin cp) buf))"
proof (rule conjI)
  show "\<forall>P. curve_point (cp_dp cp) P \<longrightarrow> \<not> point_is_zero P \<longrightarrow>
      (\<exists>buf. compress_to_string g form P cp = Inr buf \<and>
        length buf = (if form \<noteq> DF_BIN then pk_len_compact cp else pk_len_bin cp) \<and>
        (\<forall>rest. decompress_from_string g (buf @ 0 # rest) form cp = Inr (Some P)))"
  proof (intro allI impI)
    fix P assume P: "curve_point (cp_dp cp) P" "\<not> point_is_zero P"
    show "\<exists>buf. compress_to_string g form P cp = Inr buf \<and>
        length buf = (if form \<noteq> DF_BIN then pk_len_compact cp else pk_len_bin cp) \<and>
        (\<forall>rest. decompress_from_string g (buf @ 0 # rest) form cp = Inr (Some P))"
      using compress [OF assms(1,2) P assms(3,4)] by (metis Inr_inject)
  qed
  show "\<forall>buf P. decompress_from_string g buf form cp = Inr (Some P) \<longrightarrow>
      curve_point (cp_dp cp) P \<and> \<not> point_is_zero P \<and>
      compress_to_string g form P cp = Inr (take (if form \<noteq> DF_BIN then pk_len_compact cp else pk_len_bin cp) buf)"
    using decompress [OF assms(1,2)] by blast
qed

section \<open>The multiples of the base point\<close>

fun multiple :: "gcry \<Rightarrow> domain_params \<Rightarrow> nat \<Rightarrow> affine_point" where
  "multiple g dp 0 = point_new"
| "multiple g dp (Suc k) = point_add g (multiple g dp k) (dp_base dp) dp"

abbreviation ord :: "domain_params \<Rightarrow> nat" where
  "ord dp \<equiv> nat (dp_order dp)"

text \<open>
  What the protocols rely on: the order of the base point is prime, and its multiples form a
  cyclic group under the addition of points.
\<close>

definition base_ok :: "gcry \<Rightarrow> domain_params \<Rightarrow> bool" where
  "base_ok g dp \<longleftrightarrow>
     curve_ok dp \<and> curve_point dp (dp_base dp) \<and> prime_number (dp_order dp) \<and>
     0 < dp_cofactor dp \<and> \<not> dp_order dp dvd dp_cofactor dp \<and>
     (\<forall>i \<in> {0..<ord dp}. \<forall>j \<in> {0..<ord dp}.
        point_add g (multiple g dp i) (multiple g dp j) dp = multiple g dp ((i + j) mod ord dp)) \<and>
     (\<forall>i \<in> {1..<ord dp}. \<not> point_is_zero (multiple g dp i))"

lemma base_okD:
  assumes "base_ok g dp"
  shows "curve_ok dp" "curve_point dp (dp_base dp)" "prime_number (dp_order dp)" "1 < dp_order dp" "1 < ord dp"
    "int (ord dp) = dp_order dp"
    "i < ord dp \<Longrightarrow> j < ord dp \<Longrightarrow>
      point_add g (multiple g dp i) (multiple g dp j) dp = multiple g dp ((i + j) mod ord dp)"
    "0 < i \<Longrightarrow> i < ord dp \<Longrightarrow> \<not> point_is_zero (multiple g dp i)"
    "0 < dp_cofactor dp" "\<not> dp_order dp dvd dp_cofactor dp"
  using assms prime_gt_1 [of "dp_order dp"] by (auto simp: base_ok_def)

lemma point_new_curve: "curve_ok dp \<Longrightarrow> curve_point dp point_new"
  using curve_okD(4) [of dp] by (simp add: curve_point_def point_new_def point_is_zero_def in_field_def)

lemma multiple_curve:
  assumes "gcry_ok g" "base_ok g dp"
  shows "curve_point dp (multiple g dp k)"
  by (induction k) (simp_all add: point_new_curve point_add_curve [OF assms(1)] base_okD [OF assms(2)])

lemma multiple_1: "multiple g dp 1 = dp_base dp"
proof -
  have "point_add g point_new p dp = p" for p
    by (cases p) (simp add: point_add_def Let_def point_new_def point_set_def point_is_zero_def)
  then show ?thesis by simp
qed

lemma double_multiple:
  assumes "gcry_ok g" "base_ok g dp" "i < ord dp"
  shows "point_double g (multiple g dp i) dp = multiple g dp (2 * i mod ord dp)"
proof (cases "i = 0")
  case True
  then show ?thesis by (simp add: point_double_def point_new_def)
next
  case False
  then have "\<not> point_is_zero (multiple g dp i)"
    using base_okD(8) [OF assms(2)] assms(3) by simp
  then have "point_add g (multiple g dp i) (multiple g dp i) dp = point_double g (multiple g dp i) dp"
    by (simp add: point_add_def Let_def)
  then show ?thesis
    using base_okD(7) [OF assms(2,3,3)] by (simp add: mult_2)
qed

lemma affine_loop_multiple:
  assumes "gcry_ok g" "base_ok g dp" "d < ord dp"
  shows "i < ord dp \<Longrightarrow>
    affine_loop g dp (multiple g dp d) e n (multiple g dp i) =
      multiple g dp ((i * 2 ^ n + d * nat (take_bit n e)) mod ord dp)"
proof (induction n arbitrary: i)
  case 0
  then show ?case by simp
next
  case (Suc n)
  let ?N = "ord dp"
  have N: "0 < ?N" using base_okD(5) [OF assms(2)] by simp
  have bits: "nat (take_bit (Suc n) e) = (if bit e n then 2 ^ n + nat (take_bit n e) else nat (take_bit n e))"
    by (simp add: take_bit_Suc_from_most nat_add_distrib nat_power_eq)
  define j where "j = (if bit e n then (2 * i mod ?N + d) mod ?N else 2 * i mod ?N)"
  have j: "j < ?N" using N by (simp add: j_def)
  have "affine_loop g dp (multiple g dp d) e (Suc n) (multiple g dp i) =
      affine_loop g dp (multiple g dp d) e n (multiple g dp j)"
    using base_okD(7) [OF assms(2), of "2 * i mod ?N" d] N assms(3)
    by (simp add: Let_def double_multiple [OF assms(1,2) Suc.prems] j_def)
  also have "\<dots> = multiple g dp ((j * 2 ^ n + d * nat (take_bit n e)) mod ?N)"
    by (rule Suc.IH [OF j])
  also have "(j * 2 ^ n + d * nat (take_bit n e)) mod ?N = (i * 2 ^ Suc n + d * nat (take_bit (Suc n) e)) mod ?N"
  proof -
    have "j mod ?N = (2 * i + (if bit e n then d else 0)) mod ?N"
      by (simp add: j_def mod_simps)
    then have "(j * 2 ^ n + d * nat (take_bit n e)) mod ?N =
        ((2 * i + (if bit e n then d else 0)) * 2 ^ n + d * nat (take_bit n e)) mod ?N"
      by (metis mod_add_left_eq mod_mult_left_eq)
    also have "(2 * i + (if bit e n then d else 0)) * 2 ^ n + d * nat (take_bit n e) =
        i * 2 ^ Suc n + d * nat (take_bit (Suc n) e)"
      unfolding bits by (simp add: algebra_simps)
    finally show ?thesis .
  qed
  finally show ?case .
qed

lemma take_bit_nbits: "0 \<le> e \<Longrightarrow> take_bit (mpi_nbits e) e = e"
  using less_nat_bits [of "nat e"] by (simp add: take_bit_int_eq_self mpi_nbits_def nat_less_iff)

lemma pointmul_multiple:
  assumes "gcry_ok g" "base_ok g dp" "d < ord dp" "0 \<le> e"
  shows "pointmul g (multiple g dp d) e dp = Inr (multiple g dp (d * nat e mod ord dp))"
proof -
  have "affine_loop g dp (multiple g dp d) e (mpi_nbits e) (multiple g dp 0) = multiple g dp (d * nat e mod ord dp)"
    using affine_loop_multiple [OF assms(1-3), of 0 e "mpi_nbits e"] base_okD(5) [OF assms(2)] assms(4)
    by (simp add: take_bit_nbits)
  then show ?thesis
    using pointmul [OF assms(1) base_okD(1) [OF assms(2)] multiple_curve [OF assms(1,2)], of d e] by simp
qed

lemma pointmul_base:
  assumes "gcry_ok g" "base_ok g dp" "0 \<le> e"
  shows "pointmul g (dp_base dp) e dp = Inr (multiple g dp (nat e mod ord dp))"
  using pointmul_multiple [OF assms(1,2) base_okD(5) [OF assms(2)] assms(3)] by (simp only: multiple_1 mult_1)

section \<open>Random exponents\<close>

definition usable :: "curve_params \<Rightarrow> int \<Rightarrow> bool" where
  "usable cp a \<longleftrightarrow>
     (let b = take_bit (mpi_nbits (dp_order (cp_dp cp))) a in b \<noteq> 0 \<and> b < dp_order (cp_dp cp))"

lemma get_random_exponent:
  assumes "i \<le> k" "usable cp (rnd k)"
  shows "\<exists>a j. get_random_exponent cp rnd i = Some (a, j) \<and> 0 < a \<and> a < dp_order (cp_dp cp)"
  using assms(1)
proof (induction "k - i" arbitrary: i)
  case 0
  with assms(2) show ?case
    by (subst get_random_exponent.simps) (auto simp: usable_def Let_def less_le)
next
  case (Suc m)
  show ?case
  proof (cases "usable cp (rnd i)")
    case True
    then show ?thesis
      by (subst get_random_exponent.simps) (auto simp: usable_def Let_def less_le)
  next
    case False
    then have "get_random_exponent cp rnd i = get_random_exponent cp rnd (i + 1)"
      by (subst get_random_exponent.simps) (auto simp: usable_def Let_def)
    with Suc.hyps(1) [of "i + 1"] Suc.hyps(2) show ?thesis by simp
  qed
qed

section \<open>Exponents from a secret\<close>

text \<open>The exponent made of a secret: the start of its key stream, reduced to the range of the order.\<close>

definition stream_exponent :: "gcry \<Rightarrow> cipher \<Rightarrow> byte list \<Rightarrow> curve_params \<Rightarrow> int" where
  "stream_exponent g c key cp = buf_to_exponent g (stream c key 0 (order_len_bin cp)) cp"

lemma hash_to_exponent_ok:
  assumes "cipher_ok c"
  shows "hash_to_exponent g c mem hash cp = Inr (stream_exponent g c (take 32 hash) cp)"
proof -
  obtain ac where ac: "aes256ctr_init c hash mem = Some ac" "at_pos c (take 32 hash) ac 0"
    using init_at_pos [OF assms] by blast
  obtain ac' where "aes256cprng_fillbuf c ac (order_len_bin cp) =
      Inr (stream c (take 32 hash) 0 (order_len_bin cp), ac')"
    using enc_stream [OF assms ac(2), of "replicate (order_len_bin cp) 0"]
    by (auto simp: aes256cprng_fillbuf_def xor_bytes_zero)
  then show ?thesis
    using ac(1) by (simp add: hash_to_exponent_def Let_def stream_exponent_def)
qed

section \<open>The same key on both sides\<close>

lemma multiple_field:
  assumes "gcry_ok g" "base_ok g dp"
  shows "0 \<le> pt_x (multiple g dp k)" "pt_x (multiple g dp k) < dp_m dp"
    "0 \<le> pt_y (multiple g dp k)" "pt_y (multiple g dp k) < dp_m dp"
  using multiple_curve [OF assms, of k] by (simp_all add: curve_point_def in_field_def)

lemma serialize_field:
  assumes "gcry_ok g" "lengths_ok df cp" "0 \<le> x" "x < dp_m (cp_dp cp)"
  shows "\<exists>buf. serialize_mpi g (elem_len_bin cp) DF_BIN x = Inr buf"
  using serialize_binary(1) [OF assms(1,3), of "elem_len_bin cp"] assms(2,4) by (fastforce simp: lengths_ok_def)

lemma serialize_multiple:
  assumes "gcry_ok g" "base_ok g (cp_dp cp)" "lengths_ok df cp"
  shows "\<exists>buf. serialize_mpi g (elem_len_bin cp) DF_BIN (pt_x (multiple g (cp_dp cp) k)) = Inr buf"
    "\<exists>buf. serialize_mpi g (elem_len_bin cp) DF_BIN (pt_y (multiple g (cp_dp cp) k)) = Inr buf"
  by (rule serialize_field [OF assms(1,3) multiple_field(1,2) [OF assms(1,2)]],
      rule serialize_field [OF assms(1,3) multiple_field(3,4) [OF assms(1,2)]])

lemma ECIES_KDF_total:
  assumes "gcry_ok g" "base_ok g (cp_dp cp)" "lengths_ok df cp"
  shows "\<exists>key. ECIES_KDF g h (pt_x (multiple g (cp_dp cp) k)) (multiple g (cp_dp cp) n) (elem_len_bin cp) = Inr key"
  using serialize_multiple [OF assms, of k] serialize_multiple [OF assms, of n] by (auto simp: ECIES_KDF_def)

lemma DH_KDF_total:
  assumes "gcry_ok g" "base_ok g (cp_dp cp)" "lengths_ok df cp"
  shows "\<exists>key. DH_KDF g h (multiple g (cp_dp cp) k) (elem_len_bin cp) = Inr key"
  using serialize_multiple [OF assms, of k] by (auto simp: DH_KDF_def)

lemma multiple_valid:
  assumes "gcry_ok g" "base_ok g dp" "0 < k" "k < ord dp"
  shows "embedded_key_validation g (multiple g dp k) dp" "full_key_validation g (multiple g dp k) dp = Inr True"
proof -
  have nz: "\<not> point_is_zero (multiple g dp k)"
    using base_okD(8) [OF assms(2-4)] .
  then have "point_on_curve g (multiple g dp k) dp"
    using multiple_curve [OF assms(1,2), of k] point_on_curve [OF assms(1) base_okD(1) [OF assms(2)]]
    by (auto simp: curve_point_def)
  with nz show e: "embedded_key_validation g (multiple g dp k) dp"
    using multiple_field [OF assms(1,2), of k] by (simp add: embedded_key_validation_def)
  have "pointmul g (multiple g dp k) (dp_order dp) dp = Inr (multiple g dp 0)"
    using pointmul_multiple [OF assms(1,2,4), of "dp_order dp"] base_okD(4) [OF assms(2)] by simp
  with e show "full_key_validation g (multiple g dp k) dp = Inr True"
    by (simp add: full_key_validation_def point_is_zero_def point_new_def)
qed

text \<open>Key agreement: with any two usable random numbers both sides get the same key.\<close>

lemma dh:
  assumes "gcry_ok g" "base_ok g (cp_dp cp)" "lengths_ok df cp"
    "i \<le> k" "usable cp (rnd k)" "i' \<le> k'" "usable cp (rnd' k')"
  shows "\<exists>a n j b n' j' key. n \<in> {0<..<ord (cp_dp cp)} \<and> n' \<in> {0<..<ord (cp_dp cp)} \<and>
    DH_step1 g cp rnd i = Inr (a, multiple g (cp_dp cp) n, j) \<and>
    DH_step1 g cp rnd' i' = Inr (b, multiple g (cp_dp cp) n', j') \<and>
    DH_step2 g h (multiple g (cp_dp cp) n') a cp = Inr (Some key) \<and>
    DH_step2 g h (multiple g (cp_dp cp) n) b cp = Inr (Some key)"
proof -
  let ?dp = "cp_dp cp"
  obtain a j where a: "get_random_exponent cp rnd i = Some (a, j)" "0 < a" "a < dp_order ?dp"
    using get_random_exponent [of i k cp rnd] assms(4,5) by blast
  obtain b j' where b: "get_random_exponent cp rnd' i' = Some (b, j')" "0 < b" "b < dp_order ?dp"
    using get_random_exponent [of i' k' cp rnd'] assms(6,7) by blast
  have N: "nat a mod ord ?dp = nat a" "nat b mod ord ?dp = nat b" "nat a < ord ?dp" "nat b < ord ?dp" "0 < nat a" "0 < nat b"
    using a b by (simp_all add: nat_less_iff)
  let ?A = "multiple g ?dp (nat a)" and ?B = "multiple g ?dp (nat b)"
    and ?P = "multiple g ?dp (nat a * nat b mod ord ?dp)"
  have step1: "DH_step1 g cp rnd i = Inr (a, ?A, j)" "DH_step1 g cp rnd' i' = Inr (b, ?B, j')"
    using a b N pointmul_base [OF assms(1,2)] by (simp_all add: DH_step1_def)
  obtain key where "DH_KDF g h ?P (elem_len_bin cp) = Inr key"
    using DH_KDF_total [OF assms(1-3)] by blast
  moreover have "pointmul g ?B a ?dp = Inr ?P" "pointmul g ?A b ?dp = Inr ?P"
    using pointmul_multiple [OF assms(1,2)] N a(2) b(2) by (simp_all add: mult.commute)
  ultimately have "DH_step2 g h ?B a cp = Inr (Some key)"
    "DH_step2 g h ?A b cp = Inr (Some key)"
    using multiple_valid(2) [OF assms(1,2)] N by (simp_all add: DH_step2_def)
  moreover have "nat a \<in> {0<..<ord ?dp}" "nat b \<in> {0<..<ord ?dp}" using N(3-6) by simp_all
  ultimately show ?thesis using step1 by blast
qed

lemma ecies:
  assumes "gcry_ok g" "base_ok g (cp_dp cp)" "lengths_ok df cp" "0 < d" "d < dp_order (cp_dp cp)"
    "i \<le> k" "usable cp (rnd k)"
  shows "\<exists>key n j.
    ECIES_encryption g h (multiple g (cp_dp cp) (nat d)) cp rnd i = Inr (key, multiple g (cp_dp cp) n, j) \<and>
    0 < n \<and> n < ord (cp_dp cp) \<and>
    ECIES_decryption g h (multiple g (cp_dp cp) n) d cp = Inr (Some key)"
proof -
  let ?dp = "cp_dp cp"
  let ?N = "ord ?dp" and ?c = "dp_cofactor ?dp"
  obtain a j where a: "get_random_exponent cp rnd i = Some (a, j)" "0 < a" "a < dp_order ?dp"
    using get_random_exponent [of i k cp rnd] assms(6,7) by blast
  have N: "nat a mod ?N = nat a" "nat a < ?N" "0 < nat a" "nat d < ?N" "0 < nat d"
    using a assms(4,5) by (simp_all add: nat_less_iff)
  have c: "0 < ?c" "\<not> dp_order ?dp dvd ?c" using base_okD(9,10) [OF assms(2)] .
  define z where "z = nat d * nat (a * ?c) mod ?N"
  have z2: "nat a * nat (d * ?c) mod ?N = z"
    using assms(4) a(2) c(1) by (simp add: z_def nat_mult_distrib mult_ac)
  have "\<not> dp_order ?dp dvd d * (a * ?c)"
    using c(2) prime_not_dvd [OF a(2,3)] prime_not_dvd [OF assms(4,5)]
    by (simp add: prime_dvd_mult [OF base_okD(3) [OF assms(2)]])
  moreover have "int (nat d * nat (a * ?c)) = d * (a * ?c)"
    using assms(4) a(2) c(1) by simp
  ultimately have "\<not> int ?N dvd int (nat d * nat (a * ?c))"
    using base_okD(6) [OF assms(2)] by simp
  then have "\<not> ?N dvd nat d * nat (a * ?c)"
    unfolding int_dvd_int_iff .
  then have "z \<noteq> 0"
    unfolding z_def dvd_eq_mod_eq_0 .
  then have z: "0 < z" "z < ?N"
    using base_okD(5) [OF assms(2)] by (simp_all add: z_def)
  let ?R = "multiple g ?dp (nat a)" and ?Z = "multiple g ?dp z"
  have nz: "\<not> point_is_zero ?Z" by (rule base_okD(8) [OF assms(2) z])
  have "0 \<le> a * ?c" "0 \<le> d * ?c" using assms(4) a(2) c(1) by simp_all
  then have mul: "pointmul g (dp_base ?dp) a ?dp = Inr ?R" "pointmul g (multiple g ?dp (nat d)) (a * ?c) ?dp = Inr ?Z"
    "pointmul g ?R (d * ?c) ?dp = Inr ?Z"
    using pointmul_base [OF assms(1,2), of a] pointmul_multiple [OF assms(1,2)] N a(2) z2
    by (simp_all flip: z_def)
  have step: "encryption_step g (multiple g ?dp (nat d)) cp rnd i = Some (Inr (?R, ?Z, j))"
    using a(1) mul(1,2) nz by (subst encryption_step.simps) simp
  obtain key where kdf: "ECIES_KDF g h (pt_x ?Z) ?R (elem_len_bin cp) = Inr key"
    using ECIES_KDF_total [OF assms(1-3)] by blast
  have "ECIES_encryption g h (multiple g ?dp (nat d)) cp rnd i = Inr (key, ?R, j)"
    using step kdf by (simp add: ECIES_encryption_def)
  moreover have "ECIES_decryption g h ?R d cp = Inr (Some key)"
    using multiple_valid(1) [OF assms(1,2)] N mul(3) nz kdf by (simp add: ECIES_decryption_def)
  ultimately show ?thesis using N by blast
qed

section \<open>Signatures\<close>

lemma order_inverse:
  assumes "gcry_ok g" "base_ok g dp" "0 < k" "k < dp_order dp"
  shows "eqm (dp_order dp) (k * mpi_invm g k (dp_order dp)) 1" "0 \<le> mpi_invm g k (dp_order dp)"
    "mpi_invm g k (dp_order dp) < dp_order dp"
  using gcry_ok_invm [OF assms(1) base_okD(4) [OF assms(2)], of k]
    prime_coprime [OF base_okD(3) [OF assms(2)] prime_not_dvd [OF assms(3,4)]] base_okD(4) [OF assms(2)]
  by (simp_all add: eqm_def)

lemma sign_round:
  assumes "gcry_ok g" "base_ok g (cp_dp cp)" "0 < d" "d < dp_order (cp_dp cp)" "0 < k" "k < dp_order (cp_dp cp)"
    "64 \<le> length msg"
  shows "sign_round g msg d k cp = Inr None \<or>
    (\<exists>sig. sign_round g msg d k cp = Inr (Some sig) \<and> 0 \<le> sig \<and> sig < dp_order (cp_dp cp) * dp_order (cp_dp cp) \<and>
      ECDSA_verify g msg (multiple g (cp_dp cp) (nat d)) sig cp = Inr True)"
proof -
  let ?dp = "cp_dp cp"
  let ?n = "dp_order ?dp" and ?N = "ord ?dp"
  have n: "1 < ?n" "0 < ?n" using base_okD(4) [OF assms(2)] by simp_all
  let ?K = "multiple g ?dp (nat k)"
  have k: "nat k < ?N" "0 < nat k" "nat k mod ?N = nat k" and dN: "nat d < ?N"
    using assms(3-6) by (simp_all add: nat_less_iff)
  have mul: "pointmul g (dp_base ?dp) k ?dp = Inr ?K"
    using pointmul_base [OF assms(1,2), of k] k(3) assms(5) by simp
  define r where "r = pt_x ?K mod ?n"
  define e where "e = mpi_scan g (take 64 msg) mod ?n"
  define s where "s = (d * r mod ?n + e) mod ?n * mpi_invm g k ?n mod ?n"
  have round: "sign_round g msg d k cp = (if r = 0 then Inr None else if s = 0 then Inr None else Inr (Some (s * ?n + r)))"
    using mul n assms(1) by (simp add: sign_round_def Let_def gcry_okD r_def e_def s_def)
  show ?thesis
  proof (cases "r = 0 \<or> s = 0")
    case True
    with round show ?thesis by auto
  next
    case False
    have r: "0 < r" "r < ?n" using False n by (simp_all add: r_def order.not_eq_order_implies_strict)
    have s: "0 < s" "s < ?n" using False n by (simp_all add: s_def order.not_eq_order_implies_strict)
    define w where "w = mpi_invm g s ?n"
    have w: "eqm ?n (s * w) 1" unfolding w_def by (rule order_inverse [OF assms(1,2) s])
    have "eqm ?n (s * k) ((d * r + e) * mpi_invm g k ?n * k)"
      unfolding s_def by (intro eqm_mult eqm_refl) (simp add: eqm_mult eqm_add)
    also have "(d * r + e) * mpi_invm g k ?n * k = (d * r + e) * (k * mpi_invm g k ?n)" by simp
    also have "eqm ?n \<dots> ((d * r + e) * 1)"
      by (intro eqm_mult eqm_refl order_inverse [OF assms(1,2,5,6)])
    finally have sk: "eqm ?n (s * k) (d * r + e)" by simp
    define u1 where "u1 = e * w mod ?n"
    define u2 where "u2 = r * w mod ?n"
    have "eqm ?n (u1 + d * u2) (w * (d * r + e))"
    proof -
      have "eqm ?n (u1 + d * u2) (e * w + d * (r * w))"
        by (intro eqm_add eqm_mult eqm_refl) (simp_all add: u1_def u2_def)
      also have "e * w + d * (r * w) = w * (d * r + e)" by (simp add: algebra_simps)
      finally show ?thesis .
    qed
    also have "eqm ?n \<dots> (w * (s * k))" by (intro eqm_mult eqm_refl eqm_sym [OF sk])
    also have "w * (s * k) = (s * w) * k" by simp
    also have "eqm ?n \<dots> (1 * k)" by (intro eqm_mult eqm_refl w)
    finally have sum: "(u1 + d * u2) mod ?n = k" using assms(5,6) by (simp add: eqm_def)
    have u: "0 \<le> u1" "u1 < ?n" "0 \<le> u2" "u2 < ?n" using n by (simp_all add: u1_def u2_def)
    have X1: "pointmul g (dp_base ?dp) u1 ?dp = Inr (multiple g ?dp (nat u1))"
      using pointmul_base [OF assms(1,2) u(1)] u by (simp add: nat_less_iff)
    have X2: "pointmul g (multiple g ?dp (nat d)) u2 ?dp = Inr (multiple g ?dp (nat d * nat u2 mod ?N))"
      by (rule pointmul_multiple [OF assms(1,2) dN u(3)])
    have "int ((nat u1 + nat d * nat u2 mod ?N) mod ?N) = (u1 + d * u2) mod ?n"
      using u assms(3) n by (simp add: of_nat_mod mod_simps)
    then have "(nat u1 + nat d * nat u2 mod ?N) mod ?N = nat k"
      unfolding sum by (metis nat_int)
    then have X: "point_add g (multiple g ?dp (nat u1)) (multiple g ?dp (nat d * nat u2 mod ?N)) ?dp = ?K"
      using base_okD(7) [OF assms(2), of "nat u1" "nat d * nat u2 mod ?N"] u n by (simp add: nat_less_iff)
    have f: "mpi_mulm g e w ?n = u1" "mpi_mulm g r w ?n = u2"
      using assms(1) n by (simp_all add: gcry_okD u1_def u2_def)
    have sig: "(s * ?n + r) sdiv ?n = s" "(s * ?n + r) smod ?n = r"
      using r s n by (simp_all add: sdiv_smod_nonneg)
    have "ECDSA_verify g msg (multiple g ?dp (nat d)) (s * ?n + r) cp = Inr True"
      using assms(7) X1 X2 X base_okD(8) [OF assms(2) k(2,1)] r s
      unfolding ECDSA_verify_def Let_def sig f e_def [symmetric] w_def [symmetric]
      by (simp add: r_def [symmetric])
    moreover have "0 \<le> s * ?n + r" "s * ?n + r < ?n * ?n"
    proof -
      have "s * ?n + ?n \<le> ?n * ?n"
        using mult_right_mono [of "s + 1" ?n ?n] s n by (simp add: distrib_right)
      then show "0 \<le> s * ?n + r" "s * ?n + r < ?n * ?n" using r s n by simp_all
    qed
    ultimately show ?thesis using round False by simp
  qed
qed

text \<open>The exponents that the deterministic generator gives for a message and a key, in order.\<close>

definition nonce_key :: "gcry \<Rightarrow> digests \<Rightarrow> byte list \<Rightarrow> int \<Rightarrow> curve_params \<Rightarrow> byte list" where
  "nonce_key g h msg d cp =
     (case serialize_mpi g (order_len_bin cp) DF_BIN d of
        Inl e \<Rightarrow> [] | Inr buf \<Rightarrow> take 32 (d_hmac256 h buf (take 64 msg)))"

definition nonce :: "gcry \<Rightarrow> cipher \<Rightarrow> digests \<Rightarrow> byte list \<Rightarrow> int \<Rightarrow> curve_params \<Rightarrow> nat \<Rightarrow> int" where
  "nonce g c h msg d cp i =
     buf_to_exponent g (stream c (nonce_key g h msg d cp) (i * order_len_bin cp) (order_len_bin cp)) cp"

lemma buf_to_exponent_range:
  assumes "base_ok g (cp_dp cp)"
  shows "0 < buf_to_exponent g' buf cp" "buf_to_exponent g' buf cp < dp_order (cp_dp cp)"
proof -
  have "0 < dp_order (cp_dp cp) - 1" using base_okD(4) [OF assms] by simp
  then have "0 \<le> mpi_scan g' buf mod (dp_order (cp_dp cp) - 1)"
    "mpi_scan g' buf mod (dp_order (cp_dp cp) - 1) < dp_order (cp_dp cp) - 1" by simp_all
  then show "0 < buf_to_exponent g' buf cp" "buf_to_exponent g' buf cp < dp_order (cp_dp cp)"
    by (simp_all add: buf_to_exponent_def Let_def)
qed

lemma get_exponent:
  assumes "cipher_ok c" "at_pos c (nonce_key g h msg d cp) ac (i * order_len_bin cp)"
  shows "\<exists>ac'. ecdsa_cprng_get_exponent g c (Some ac) cp = Inr (nonce g c h msg d cp i, Some ac') \<and>
    at_pos c (nonce_key g h msg d cp) ac' (Suc i * order_len_bin cp)"
  using enc_stream [OF assms, of "replicate (order_len_bin cp) 0"]
  by (auto simp: ecdsa_cprng_get_exponent_def aes256cprng_fillbuf_def nonce_def xor_bytes_zero add.commute)

lemma sign_loop:
  assumes "gcry_ok g" "cipher_ok c" "base_ok g (cp_dp cp)" "0 < d" "d < dp_order (cp_dp cp)" "64 \<le> length msg"
    "sign_round g msg d (nonce g c h msg d cp k) cp \<noteq> Inr None"
  shows "i \<le> k \<Longrightarrow> at_pos c (nonce_key g h msg d cp) ac (i * order_len_bin cp) \<Longrightarrow>
    \<exists>sig. sign_loop g c msg d cp (Some ac) = Some (Inr sig) \<and> 0 \<le> sig \<and>
      sig < dp_order (cp_dp cp) * dp_order (cp_dp cp) \<and>
      ECDSA_verify g msg (multiple g (cp_dp cp) (nat d)) sig cp = Inr True"
proof (induction "k - i" arbitrary: i ac rule: less_induct)
  case less
  obtain ac' where ac': "ecdsa_cprng_get_exponent g c (Some ac) cp = Inr (nonce g c h msg d cp i, Some ac')"
    "at_pos c (nonce_key g h msg d cp) ac' (Suc i * order_len_bin cp)"
    using get_exponent [OF assms(2) less.prems(2)] by blast
  have range: "0 < nonce g c h msg d cp i" "nonce g c h msg d cp i < dp_order (cp_dp cp)"
    unfolding nonce_def using buf_to_exponent_range [OF assms(3)] by blast+
  from sign_round [OF assms(1,3-5) range assms(6)] show ?case
  proof
    assume none: "sign_round g msg d (nonce g c h msg d cp i) cp = Inr None"
    then have "i \<noteq> k" using assms(7) by blast
    with less.prems(1) have "k - Suc i < k - i" "Suc i \<le> k" by simp_all
    from less.hyps [OF this ac'(2)] show ?thesis
      using ac'(1) none by (subst sign_loop.simps) simp
  next
    assume "\<exists>sig. sign_round g msg d (nonce g c h msg d cp i) cp = Inr (Some sig) \<and> 0 \<le> sig \<and>
      sig < dp_order (cp_dp cp) * dp_order (cp_dp cp) \<and>
      ECDSA_verify g msg (multiple g (cp_dp cp) (nat d)) sig cp = Inr True"
    then show ?thesis
      using ac'(1) by (subst sign_loop.simps) auto
  qed
qed

lemma ecdsa:
  assumes "gcry_ok g" "cipher_ok c" "d_hmac_open h" "base_ok g (cp_dp cp)" "lengths_ok df cp"
    "0 < d" "d < dp_order (cp_dp cp)" "64 \<le> length msg"
    "sign_round g msg d (nonce g c h msg d cp k) cp \<noteq> Inr None"
  shows "\<exists>sig. ECDSA_sign g c h mem msg d cp = Inr sig \<and> 0 \<le> sig \<and>
    sig < dp_order (cp_dp cp) * dp_order (cp_dp cp) \<and>
    ECDSA_verify g msg (multiple g (cp_dp cp) (nat d)) sig cp = Inr True"
proof -
  obtain buf where buf: "serialize_mpi g (order_len_bin cp) DF_BIN d = Inr buf"
    using serialize_binary(1) [OF assms(1), of d "order_len_bin cp"] assms(5-7) by (fastforce simp: lengths_ok_def)
  obtain ac where ac: "aes256ctr_init c (d_hmac256 h buf (take 64 msg)) mem = Some ac"
    "at_pos c (nonce_key g h msg d cp) ac (0 * order_len_bin cp)"
    using init_at_pos [OF assms(2), of "d_hmac256 h buf (take 64 msg)" mem] buf by (auto simp: nonce_key_def)
  have init: "ecdsa_cprng_init g c h mem msg d cp = Inr (Some ac)"
    using buf ac(1) assms(3,8) by (simp add: ecdsa_cprng_init_def)
  show ?thesis
    using sign_loop [OF assms(1,2,4,6-9) le0 ac(2)] init by (auto simp: ECDSA_sign_def)
qed

end
