(* ===== verification/Curves_Props.thy ===== *)
theory Curves_Props
  imports Curves Protocol_Props
begin

text \<open>
  Loading a curve: the lengths are enough for what is written with them. The curve of the engine,
  \<^verbatim>\<open>secp160r1\<close>, in numbers.
\<close>

section \<open>The lengths of a loaded curve\<close>

lemma serialization_len_fits:
  assumes "get_serialization_len x df = Inr n" "0 \<le> x"
  shows "x < radix df ^ k \<longleftrightarrow> n \<le> k"
  using serialization_len [OF assms(2), of df] assms(1) by auto

lemma load_curve_lengths:
  assumes "load_curve g c df = Inr cp" "0 < dp_m (cp_dp cp)" "0 < dp_order (cp_dp cp)"
  shows "lengths_ok df cp"
proof -
  let ?m = "dp_m (cp_dp cp)" and ?n = "dp_order (cp_dp cp)"
  have len: "get_serialization_len (?m + ?m - 1) DF_BIN = Inr (pk_len_bin cp)"
    "get_serialization_len (?m + ?m - 1) df = Inr (pk_len_compact cp)"
    "get_serialization_len (?n * ?n - 1) DF_BIN = Inr (sig_len_bin cp)"
    "get_serialization_len (?n * ?n - 1) df = Inr (sig_len_compact cp)"
    "get_serialization_len ?m DF_BIN = Inr (elem_len_bin cp)"
    "get_serialization_len ?n DF_BIN = Inr (order_len_bin cp)"
    using assms(1) by (auto simp: load_curve_def Let_def rbind_eq_Inr)
  have "0 < ?n * ?n" using assms(3) by simp
  then have nonneg: "0 \<le> ?m + ?m - 1" "0 \<le> ?n * ?n - 1" "0 \<le> ?m" "0 \<le> ?n"
    using assms(2,3) by linarith+
  show ?thesis
    using serialization_len_fits [OF len(1) nonneg(1), of "pk_len_bin cp"]
      serialization_len_fits [OF len(2) nonneg(1), of "pk_len_compact cp"]
      serialization_len_fits [OF len(3) nonneg(2), of "sig_len_bin cp"]
      serialization_len_fits [OF len(4) nonneg(2), of "sig_len_compact cp"]
      serialization_len_fits [OF len(5) nonneg(3), of "elem_len_bin cp"]
      serialization_len_fits [OF len(6) nonneg(4), of "order_len_bin cp"]
    by (simp add: lengths_ok_def)
qed

section \<open>The curve of the engine\<close>

lemma hex_digits:
  "hex_digit (CHR ''0'') = Some 0" "hex_digit (CHR ''1'') = Some 1" "hex_digit (CHR ''2'') = Some 2"
  "hex_digit (CHR ''3'') = Some 3" "hex_digit (CHR ''4'') = Some 4" "hex_digit (CHR ''5'') = Some 5"
  "hex_digit (CHR ''6'') = Some 6" "hex_digit (CHR ''7'') = Some 7" "hex_digit (CHR ''8'') = Some 8"
  "hex_digit (CHR ''9'') = Some 9" "hex_digit (CHR ''a'') = Some 10" "hex_digit (CHR ''b'') = Some 11"
  "hex_digit (CHR ''c'') = Some 12" "hex_digit (CHR ''d'') = Some 13" "hex_digit (CHR ''e'') = Some 14"
  "hex_digit (CHR ''f'') = Some 15"
  by (simp_all add: hex_digit_def)

lemma secp160r1_numbers:
  "hex_val 0 (c_a secp160r1) = Some 1461501637330902918203684832716283019653785059324"
  "hex_val 0 (c_b secp160r1) = Some 163235791306168110546604919403271579530548345413"
  "hex_val 0 (c_m secp160r1) = Some 1461501637330902918203684832716283019653785059327"
  "hex_val 0 (c_base_x secp160r1) = Some 425826231723888350446541592701409065913635568770"
  "hex_val 0 (c_base_y secp160r1) = Some 203520114162904107873991457957346892027982641970"
  "hex_val 0 (c_order secp160r1) = Some 1461501637330902918203687197606826779884643492439"
  by (simp_all add: secp160r1_def hex_digits)

lemma serialization_len_eq:
  assumes "0 \<le> x" "x < radix df ^ n" "0 < n" "radix df ^ (n - 1) \<le> x"
  shows "get_serialization_len x df = Inr n"
proof -
  obtain k where k: "get_serialization_len x df = Inr k" "\<forall>j. k \<le> j \<longleftrightarrow> x < radix df ^ j"
    using serialization_len [OF assms(1), of df] by blast
  then have "k \<le> n" "\<not> k \<le> n - 1" using assms by (simp_all add: not_less)
  then have "k = n" by simp
  with k(1) show ?thesis by simp
qed

lemma mpi_nbits_eq:
  assumes "0 \<le> x" "x < 2 ^ n" "0 < n" "2 ^ (n - 1) \<le> x"
  shows "mpi_nbits x = n"
proof -
  have "nat x < 2 ^ n" "\<not> nat x < 2 ^ (n - 1)"
    using assms by (simp_all add: nat_less_iff not_less)
  then have "nat_bits (nat x) \<le> n" "\<not> nat_bits (nat x) \<le> n - 1"
    by (simp_all only: nat_bits_le not_False_eq_True)
  then show ?thesis using assms(1) by (simp add: mpi_nbits_def)
qed

definition p160 :: curve_params where
  "p160 =
     \<lparr>cp_name = ''secp160r1'',
      cp_dp = \<lparr>dp_a = 1461501637330902918203684832716283019653785059324, dp_b = 163235791306168110546604919403271579530548345413,
        dp_m = 1461501637330902918203684832716283019653785059327, dp_order = 1461501637330902918203687197606826779884643492439,
        dp_base = \<lparr>pt_x = 425826231723888350446541592701409065913635568770, pt_y = 203520114162904107873991457957346892027982641970\<rparr>,
        dp_cofactor = 1\<rparr>,
      pk_len_bin = 21, pk_len_compact = 32, sig_len_bin = 41, sig_len_compact = 62,
      dh_len_bin = 10, dh_len_compact = 16, elem_len_bin = 20, order_len_bin = 21\<rparr>"

lemma load_p160:
  assumes "gcry_ok g"
  shows "curve_by_name g ''p160'' DF_BASE36 = Inr (Some p160)"
proof -
  note n = secp160r1_numbers [THEN gcry_okD(8) [OF assms]]
  have len: "get_serialization_len (1461501637330902918203684832716283019653785059327 + 1461501637330902918203684832716283019653785059327 - 1) DF_BIN = Inr 21"
    "get_serialization_len (1461501637330902918203684832716283019653785059327 + 1461501637330902918203684832716283019653785059327 - 1) DF_BASE36 = Inr 32"
    "get_serialization_len (1461501637330902918203687197606826779884643492439 * 1461501637330902918203687197606826779884643492439 - 1) DF_BIN = Inr 41"
    "get_serialization_len (1461501637330902918203687197606826779884643492439 * 1461501637330902918203687197606826779884643492439 - 1) DF_BASE36 = Inr 62"
    "get_serialization_len (set_bit (8 * 10) 0 - 1) DF_BASE36 = Inr 16"
    "get_serialization_len 1461501637330902918203684832716283019653785059327 DF_BIN = Inr 20"
    "get_serialization_len 1461501637330902918203687197606826779884643492439 DF_BIN = Inr 21"
    by (rule serialization_len_eq; simp add: set_bit_eq_or push_bit_eq_mult)+
  have bits: "mpi_nbits 1461501637330902918203687197606826779884643492439 = 161"
    by (rule mpi_nbits_eq; simp)
  have "load_curve g secp160r1 DF_BASE36 = Inr p160"
    unfolding load_curve_def scan_def n option.case rbind_Inr Let_def bits
    using len by (simp add: p160_def secp160r1_def)
  moreover have "\<not> strstr (c_name secp112r1) ''p160''" "\<not> strstr (c_name secp128r1) ''p160''"
    "strstr (c_name secp160r1) ''p160''"
    by (simp_all add: secp112r1_def secp128r1_def secp160r1_def)
  ultimately show ?thesis
    by (simp add: curve_by_name_def curves_def)
qed

lemma p160_base: "solves (cp_dp p160) (pt_x (dp_base (cp_dp p160))) (pt_y (dp_base (cp_dp p160)))"
  unfolding solves_def eqm_dvd
  by (rule dvdI [of _ _ "-52832106579421229927992867687852976105329300881370035894882994282061762044057940921989432588159"]) (simp add: p160_def)

lemma p160_lengths:
  shows "lengths_ok DF_BASE36 p160"
  by (simp add: lengths_ok_def p160_def)

text \<open>
  The binary form of a public key has 21 bytes, and the first byte is 0 or 1, because the key is less
  than twice the modulus.
\<close>

lemma p160_compress:
  assumes "gcry_ok g" "0 \<le> pt_x P" "pt_x P < dp_m (cp_dp p160)"
  shows "\<exists>buf. compress_to_string g DF_BIN P p160 = Inr buf \<and> length buf = 21 \<and> unat (hd buf) \<le> 1 \<and>
    int (be_val buf) = (if point_compress P then pt_x P + dp_m (cp_dp p160) else pt_x P)"
proof -
  define x where "x = (if point_compress P then pt_x P + dp_m (cp_dp p160) else pt_x P)"
  have x: "0 \<le> x" "x < 2 * 2 ^ 160" "x < 256 ^ 21"
    using assms(2,3) by (auto simp: x_def p160_def)
  obtain buf where buf: "serialize_mpi g 21 DF_BIN x = Inr buf" "length buf = 21" "int (be_val buf) = x"
    using serialize_binary(1) [OF assms(1) x(1,3)] by blast
  then obtain c cs where c: "buf = c # cs" "length cs = 20"
    by (cases buf) auto
  have "int (unat c) * 2 ^ 160 \<le> int (be_val buf)"
    using c by simp
  with x(2) have "int (unat c) * 2 ^ 160 < 2 * 2 ^ 160"
    unfolding buf(3) by linarith
  then have "int (unat c) < 2"
    by (rule mult_right_less_imp_less) simp
  then have "unat c \<le> 1" by linarith
  moreover have "compress_to_string g DF_BIN P p160 = Inr buf"
    using buf(1) by (simp add: compress_to_string_def Let_def x_def p160_def split: if_splits)
  ultimately show ?thesis
    using buf(2,3) c(1) by (simp add: x_def)
qed

end
