(* ===== verification/Primality.thy ===== *)
theory Primality
  imports Modular
begin

text \<open>
  Large primes: a number is prime if one less than it has a large prime factor and a power
  computed modulo it comes out right (Pocklington's criterion). With it the modulus of the
  curve of the engine is proved prime, down a chain of primes that ends with trial division.
\<close>

section \<open>Criteria\<close>

text \<open>Every number above 1 has a prime factor, and a composite one has a small one.\<close>

lemma prime_factor:
  fixes n :: int
  assumes "1 < n"
  shows "\<exists>p. prime_number p \<and> p dvd n"
  using assms
proof (induction "nat n" arbitrary: n rule: less_induct)
  case less
  show ?case
  proof (cases "prime_number n")
    case False
    with less.prems obtain d where d: "2 \<le> d" "d < n" "d dvd n"
      by (auto simp: prime_number_def)
    then obtain p where "prime_number p" "p dvd d"
      using less.hyps [of d] by auto
    with d(3) show ?thesis using dvd_trans by blast
  qed auto
qed

lemma small_prime_factor:
  fixes n :: int
  assumes "1 < n" "\<not> prime_number n"
  shows "\<exists>p. prime_number p \<and> p dvd n \<and> p * p \<le> n"
proof -
  obtain d where d: "2 \<le> d" "d < n" "d dvd n"
    using assms by (auto simp: prime_number_def)
  then obtain e where e: "n = d * e" by (auto elim: dvdE)
  have e1: "1 < e"
  proof (rule ccontr)
    assume "\<not> 1 < e"
    then have "d * e \<le> d * 1" using d(1) by (intro mult_left_mono) auto
    with e d(2) show False by simp
  qed
  define c where "c = min d e"
  have c: "1 < c" "c dvd n" "c * c \<le> n"
    using d(1) e1 by (auto simp: c_def e min_def mult_mono)
  obtain p where p: "prime_number p" "p dvd c"
    using prime_factor [OF c(1)] by blast
  then have "p \<le> c" "0 < p"
    using c(1) prime_gt_1 [of p] by (auto intro: zdvd_imp_le)
  then have "p * p \<le> c * c" by (intro mult_mono) auto
  with p c show ?thesis using dvd_trans by (intro exI [of _ p]) auto
qed

text \<open>Trial division by the numbers from \<open>d\<close> up to \<open>b\<close>.\<close>

function trial :: "int \<Rightarrow> int \<Rightarrow> int \<Rightarrow> bool" where
  "trial n b d = (if d < b then n mod d \<noteq> 0 \<and> trial n b (d + 1) else True)"
  by pat_completeness auto
termination
  by (relation "measure (\<lambda>(n, b, d). nat (b - d))") auto

declare trial.simps [simp del]

lemma trial: "trial n b d \<Longrightarrow> d \<le> e \<Longrightarrow> e < b \<Longrightarrow> \<not> e dvd n"
proof (induction n b d rule: trial.induct)
  case (1 n b d)
  have "d < b" using "1.prems"(2,3) by linarith
  then have "n mod d \<noteq> 0" "trial n b (d + 1)"
    using "1.prems"(1) by (subst (asm) trial.simps; simp)+
  with 1 \<open>d < b\<close> show ?case
    by (cases "d = e") (simp_all add: dvd_eq_mod_eq_0)
qed

lemma prime_by_trial:
  assumes "1 < n" "n < b * b" "0 < b" "trial n b 2"
  shows "prime_number n"
proof (rule ccontr)
  assume "\<not> prime_number n"
  then obtain p where p: "prime_number p" "p dvd n" "p * p \<le> n"
    using small_prime_factor [OF assms(1)] by blast
  have "p < b"
  proof (rule ccontr)
    assume "\<not> p < b"
    then have "b * b \<le> p * p" using assms(3) by (intro mult_mono) auto
    with p(3) assms(2) show False by linarith
  qed
  with trial [OF assms(4), of p] p(1,2) prime_gt_1 [of p] show False by auto
qed

text \<open>A prime exponent that does not divide \<open>p - 1\<close> has no elements of its order modulo \<open>p\<close>.\<close>

lemma order_divides:
  assumes "prime_number p" "prime_number (int q)" "eqm p (b ^ q) 1" "\<not> eqm p b 1"
  shows "int q dvd p - 1"
proof (rule ccontr)
  assume "\<not> int q dvd p - 1"
  then have "coprime (p - 1) (int q)"
    by (rule prime_coprime [OF assms(2)])
  moreover define m where "m = nat (p - 1)"
  ultimately have "coprime m q"
    using prime_gt_1 [OF assms(1)] by (simp flip: coprime_int_iff)
  moreover have q: "q \<noteq> 0" using prime_gt_1 [OF assms(2)] by auto
  ultimately obtain u v where uv: "q * u = m * v + 1"
    using bezout_nat [OF q, of m] by (auto simp: coprime_iff_gcd_eq_1 gcd.commute)
  have nd: "\<not> p dvd b"
  proof
    assume "p dvd b"
    then have "p dvd b ^ q" using q by (cases q) simp_all
    moreover have "p dvd b ^ q - 1" using assms(3) by (simp add: eqm_dvd)
    ultimately have "p dvd b ^ q - (b ^ q - 1)" by (rule dvd_diff)
    then show False using prime_gt_1 [OF assms(1)] by simp
  qed
  have "eqm p (b ^ (q * u)) 1"
    using eqm_power [OF assms(3), of u] by (simp add: power_mult)
  moreover have mv: "eqm p (b ^ (m * v)) 1"
    using eqm_power [OF fermat [OF assms(1) nd], of v] by (simp add: power_mult m_def)
  moreover have "eqm p (b ^ (m * v) * b) (1 * b)" by (rule eqm_mult [OF mv eqm_refl])
  ultimately have "eqm p b 1"
    unfolding uv power_add power_one_right mult_1 by (metis eqm_sym eqm_trans)
  with assms(4) show False ..
qed

lemma pocklington:
  assumes "prime_number q" "n = q * k + 1" "n < q * q" "0 < k" "eqm n (2 ^ nat k) r"
    "eqm n (2 ^ nat (n - 1)) 1" "eqm n ((r - 1) * c) 1"
  shows "prime_number n"
proof (rule ccontr)
  assume np: "\<not> prime_number n"
  have q: "1 < q" using prime_gt_1 [OF assms(1)] .
  have "0 < q * k" using q assms(4) by simp
  then have n: "1 < n" unfolding assms(2) by linarith
  obtain p where p: "prime_number p" "p dvd n" "p * p \<le> n"
    using small_prime_factor [OF n np] by blast
  have down: "eqm p x y" if "eqm n x y" for x y
    using that p(2) dvd_trans by (auto simp: eqm_dvd)
  have "\<not> eqm p r 1"
  proof
    assume "eqm p r 1"
    then have "p dvd (r - 1) * c" by (simp add: eqm_dvd)
    moreover have "p dvd (r - 1) * c - 1" using down [OF assms(7)] by (simp add: eqm_dvd)
    ultimately have "p dvd (r - 1) * c - ((r - 1) * c - 1)" by (rule dvd_diff)
    with prime_gt_1 [OF p(1)] show False by simp
  qed
  then have "\<not> eqm p (2 ^ nat k) 1"
    using down [OF assms(5)] eqm_sym eqm_trans by blast
  moreover have "nat (n - 1) = nat k * nat q"
    using q assms(4) by (simp add: assms(2) nat_mult_distrib mult.commute)
  then have "eqm p ((2 ^ nat k) ^ nat q) 1"
    using down [OF assms(6)] by (simp add: power_mult)
  ultimately have "int (nat q) dvd p - 1"
    using order_divides [OF p(1), of "nat q" "2 ^ nat k"] assms(1) q by simp
  then have "q \<le> p - 1" using q prime_gt_1 [OF p(1)] zdvd_imp_le [of q "p - 1"] by simp
  then have "q * q \<le> p * p" using q by (intro mult_mono) auto
  with p(3) assms(3) show False by linarith
qed

section \<open>Powers of two\<close>

text \<open>
  Repeated squaring modulo \<open>h - c\<close>, with the bits of the exponent after the first one, and for each
  step the quotient that is taken off.
\<close>

fun chain :: "int \<Rightarrow> int \<Rightarrow> (bool \<times> int) list \<Rightarrow> int \<Rightarrow> int" where
  "chain h c [] x = x"
| "chain h c ((b, q) # steps) x = chain h c steps ((if b then 2 * (x * x) else x * x) - q * h + q * c)"

fun exponent :: "(bool \<times> int) list \<Rightarrow> nat \<Rightarrow> nat" where
  "exponent [] e = e"
| "exponent ((b, q) # steps) e = exponent steps (if b then 2 * e + 1 else 2 * e)"

lemma chain_eqm: "eqm (h - c) x (2 ^ e) \<Longrightarrow> eqm (h - c) (chain h c steps x) (2 ^ exponent steps e)"
proof (induction steps arbitrary: x e)
  case (Cons s steps)
  obtain b q where s: "s = (b, q)" by (cases s)
  have "eqm (h - c) (y - q * h + q * c) y" for y
    unfolding eqm_dvd by (rule dvdI [of _ _ "- q"]) (simp add: algebra_simps)
  moreover have "eqm (h - c) (x * x) (2 ^ (2 * e))"
    using eqm_mult [OF Cons.prems Cons.prems] by (simp add: mult_2 power_add)
  then have "eqm (h - c) (if b then 2 * (x * x) else x * x) (2 ^ (if b then 2 * e + 1 else 2 * e))"
    using eqm_mult [OF eqm_refl [of "h - c" 2]] by simp
  ultimately have "eqm (h - c) ((if b then 2 * (x * x) else x * x) - q * h + q * c) (2 ^ (if b then 2 * e + 1 else 2 * e))"
    by (rule eqm_trans)
  with Cons.IH show ?case by (simp add: s)
qed simp

lemma chain_power: "eqm (h - c) (chain h c steps 2) (2 ^ exponent steps 1)"
  using chain_eqm [of h c 2 1 steps] by simp

lemma by_chain:
  assumes "chain h c steps 2 = r" "exponent steps 1 = nat k" "n = h - c"
  shows "eqm n (2 ^ nat k) r"
  using chain_power [of h c steps] unfolding assms by (rule eqm_sym)

lemma square_numeral: "(numeral w * numeral w :: int) = numeral (Num.sqr w)"
  by (simp add: numeral_sqr)

lemmas chain_simps = chain.simps if_True if_False square_numeral Num.sqr.simps arith_simps rel_simps
  mult_1_left mult_1_right mult_zero_left mult_zero_right diff_zero add_0_right

section \<open>The chain\<close>

lemma prime_186253: "prime_number 186253"
  by (rule prime_by_trial [where b = 432]) (simp_all add: trial.simps)

lemma p20_cofactor: "chain 745013 0
   [(False, 0), (False, 0)] 2 =
   16"
  by (simp only: chain_simps)

lemma p20_fermat: "chain 745013 0
   [(False, 0), (True, 0), (True, 0), (False, 5), (True, 591090), (False, 743132), (True, 52968), (True, 1203152),
    (True, 122499), (True, 159073), (False, 92), (False, 179219), (False, 145444), (True, 631236), (True, 194861),
    (False, 116499), (True, 600), (False, 686364), (False, 745011)] 2 = 1"
  by (simp only: chain_simps)

lemma prime_p20: "prime_number 745013"
  by (rule pocklington [OF prime_186253 _ _ _ by_chain [OF p20_cofactor] by_chain [OF p20_fermat],
      where k = 4 and c = 645678])
    (simp_all add: eqm_dvd)

lemma p31_cofactor: "chain 1519826521 0
   [(True, 0), (True, 0), (True, 0), (True, 1), (True, 518418995), (True, 407714820), (True, 117206302),
    (False, 243185281), (False, 574396283), (False, 260665766)] 2 =
   14219438"
  by (simp only: chain_simps)

lemma p31_fermat: "chain 1519826521 0
   [(False, 0), (True, 0), (True, 0), (False, 0), (True, 23150), (False, 99118613), (True, 785412638),
    (False, 6498834), (False, 148612191), (True, 2329802273), (False, 60013560), (True, 4388051),
    (True, 1803952319), (False, 350333508), (True, 1882389060), (False, 1478651049), (True, 1513316572),
    (True, 1676489168), (False, 3069209), (True, 724504534), (True, 1067173605), (False, 981212759),
    (False, 781908859), (True, 2412089100), (False, 726433951), (True, 535234525), (True, 2763688778),
    (False, 1519826519), (False, 0), (False, 0)] 2 = 1"
  by (simp only: chain_simps)

lemma prime_p31: "prime_number 1519826521"
  by (rule pocklington [OF prime_p20 _ _ _ by_chain [OF p31_cofactor] by_chain [OF p31_fermat],
      where k = 2040 and c = 733247960])
    (simp_all add: eqm_dvd)

lemma p42_cofactor: "chain 3799566302501 0
   [(False, 0), (False, 0), (True, 0), (True, 0), (True, 0), (False, 79543671788), (False, 157273056301),
    (False, 2660291857974), (True, 456105304274), (False, 383917444665), (False, 36002401135)] 2 =
   1150837040126"
  by (simp only: chain_simps)

lemma p42_fermat: "chain 3799566302501 0
   [(True, 0), (False, 0), (True, 0), (True, 0), (True, 9482), (False, 451200890456), (True, 4008873081308),
    (False, 3173865414877), (False, 378038136737), (True, 200879386132), (False, 22241079630),
    (True, 1514562186071), (False, 3316251799884), (False, 1945784765233), (True, 1544532544006),
    (True, 4470531760158), (True, 2996556290016), (True, 96215573136), (True, 1067388421216),
    (False, 1220065751790), (False, 487121100775), (True, 2848033983972), (True, 5434398451566),
    (False, 991933167341), (False, 197604262503), (True, 2853362553090), (False, 1402171310223),
    (True, 1047593425887), (True, 3883584203694), (True, 6389621063829), (True, 6955452111142),
    (False, 48960167895), (True, 3738906889919), (False, 1816885386140), (False, 272649133552),
    (True, 1973562056376), (False, 528864321421), (False, 340786620960), (True, 4927421), (False, 9854841),
    (False, 3799566302499)] 2 = 1"
  by (simp only: chain_simps)

lemma prime_p42: "prime_number 3799566302501"
  by (rule pocklington [OF prime_p31 _ _ _ by_chain [OF p42_cofactor] by_chain [OF p42_fermat],
      where k = 2500 and c = 3427708592633])
    (simp_all add: eqm_dvd)

lemma p73_cofactor: "chain 9281531860908577342183 0
   [(False, 0), (False, 0), (True, 0), (False, 0), (False, 0), (False, 0), (True, 4805401852350606168144),
    (True, 35297992374270334712), (False, 8597713341105845670519), (False, 5167282549625743952068),
    (True, 180997431203653884934), (True, 8869786005066859374014), (False, 8497855491637590897685),
    (False, 323509240381776724603), (True, 2590149983258988214097), (True, 7313876129500851843368),
    (True, 2824594456078670741891), (True, 16320257643693140169917), (True, 5392456749862470310609),
    (True, 17090364931863711693047), (False, 3831369020152987200851), (False, 1663204376975374799598),
    (True, 16467036558430921731582), (False, 3080061102129224966250), (True, 1210256717973812105911),
    (True, 827397878936559738916), (False, 2090647417592651346433), (True, 4923604529714593155023),
    (True, 97568329852456110), (True, 17776713222570023128543), (False, 5544273937034255095499)] 2 =
   5484902864889576503684"
  by (simp only: chain_simps)

lemma p73_fermat: "chain 9281531860908577342183 0
   [(True, 0), (True, 0), (True, 0), (True, 0), (False, 0), (True, 4582788326597791),
    (True, 12853121639451236347976), (True, 1705350103706320149739), (False, 1799317248193278244),
    (False, 2166008284834634260315), (True, 13063434210245428898435), (False, 103864419982483139599),
    (False, 1175683415483090235898), (True, 1935886155201765102793), (True, 6199269737559657319468),
    (True, 9273355375412274092158), (False, 6423700387641282587798), (False, 690941865141025099455),
    (True, 12219308105148262188831), (False, 585306947158196461726), (False, 581513738436763178335),
    (False, 7244997642950756079574), (False, 24700090599230756961), (True, 185474950382897733421),
    (False, 8654312328012640887768), (False, 2980258400451614327290), (True, 2451979461872929358122),
    (True, 16023271635675872884208), (False, 5393147551449144411482), (False, 9163316372449569353380),
    (True, 11282937866062263146475), (True, 9992992897284601115153), (True, 604261776726868594557),
    (True, 16048290446828515561864), (False, 4146809196674656897771), (True, 896310570506154031397),
    (False, 514390502529666207406), (True, 2314532856449357157174), (False, 777489101084441761441),
    (True, 2292136588322110920589), (False, 213362465349499340226), (False, 248057124698142726485),
    (True, 10141785345200822324685), (True, 9954170881321524813015), (True, 3201106893858731253220),
    (True, 2076468527623124514293), (True, 11861175937580549626226), (False, 1574913696154927015073),
    (False, 724834940953984534366), (False, 625526851277378087647), (False, 37482411452399751267),
    (False, 841707916804489607803), (True, 5820243060609482620485), (True, 17277851231254550404),
    (True, 17733794205049904868224), (True, 2481352354955125755), (False, 1826845430788380606),
    (True, 6446271203053883280717), (False, 1816840659442917542002), (False, 6721618237274523772860),
    (False, 1720946255970112516467), (False, 6883625472409150686398), (True, 35259033485316014500),
    (False, 8744463302742139793296), (True, 2052936118262414899356), (True, 5844546024999292883446),
    (True, 11376767162808045734869), (False, 36145766453662611933), (False, 4425841936783996713211),
    (True, 2527733023450749958561), (True, 11767330070187069115303), (False, 0)] 2 = 1"
  by (simp only: chain_simps)

lemma prime_p73: "prime_number 9281531860908577342183"
  by (rule pocklington [OF prime_p42 _ _ _ by_chain [OF p73_cofactor] by_chain [OF p73_fermat],
      where k = 2442787182 and c = 7584079967285195203977])
    (simp_all add: eqm_dvd)

lemma p88_cofactor: "chain 176070659401435712181211511 0
   [(False, 0), (False, 0), (True, 0), (False, 0), (True, 0), (False, 0), (False, 2026526875002891372),
    (False, 164074248866947680163422589), (False, 53884062103396743824216818), (True, 15063073185408984350491936),
    (True, 216888429964772270682969794), (False, 23207563783841262372582822), (True, 86486854024852144782989098),
    (False, 9134333940940691386145833)] 2 =
   56657307748329892104238837"
  by (simp only: chain_simps)

lemma p88_fermat: "chain 176070659401435712181211511 0
   [(False, 0), (False, 0), (True, 0), (False, 0), (False, 0), (False, 0), (True, 253315859375361421),
    (True, 135654311798688682397388602), (False, 31584288313994367432311567), (True, 125456584567701499452919382),
    (False, 74214537228180397686834354), (False, 1714016824304304291159272), (True, 268564375655197494142965468),
    (False, 12990088495324614002745474), (False, 89213439981491572870626509), (False, 166321452238336053874489),
    (True, 262117764569132219321275657), (True, 236698893353951568962046246), (False, 9296272474598962240460341),
    (True, 61898042268815926105510371), (False, 166822253741706054235961265), (False, 31275126293801589239947695),
    (True, 338059606081392143910140015), (True, 7276645375013841598309227), (False, 22237754961856683051982354),
    (False, 90623504201418512928825229), (True, 249584833712646132415416348), (False, 151526106476094600324668858),
    (False, 109640447616880950446780036), (True, 5424116357472583227964757), (False, 27864350135395165244144928),
    (False, 51460138921293793387906227), (True, 316576725937233643515873562), (False, 48926327036109790872104709),
    (True, 11065981860763830669203097), (True, 196145003437304315916358568), (False, 20319386353436594777777276),
    (True, 291792751711969479210567946), (False, 94020558888253075962117285), (True, 43262814354222386461966843),
    (True, 40107788093568276670435), (True, 315273992754447112199618756), (False, 43854951951434025635032694),
    (False, 10355759348569773596983324), (True, 58724348470599917907420756), (True, 42950514132516158515381934),
    (True, 109186968942757307709813952), (True, 89024616328527361677781722), (False, 56352890597631227445529),
    (False, 41893559544054867407305079), (True, 116974244329065638393722471), (True, 20060577343959625922708418),
    (False, 91594167801844137234030431), (False, 123021763290524934248909678), (False, 21429035153865300148818849),
    (True, 143489567295973250046245285), (False, 172190071020767789929954359), (True, 265361279347426105077162304),
    (True, 164753061538548407944556869), (False, 77088173523225323020133817), (True, 73749900175941832399572002),
    (True, 351749021307071358812894101), (False, 23470610697584391534743035), (True, 220316680551427592585797968),
    (True, 148279248757528867074530702), (True, 195895441181931925893881), (False, 7795733725519968425502009),
    (False, 138773387931183280727844323), (False, 39841026193573928501256825), (True, 13443088564128072394300716),
    (True, 82152099837586138188344764), (True, 241912213597214446516620630), (False, 73999045400465864351305483),
    (False, 66768459145952755805785), (True, 118739438827781632908407723), (False, 582564935884546479412336),
    (False, 65878995409773965862277170), (False, 13849039830719503067817029), (True, 224672579390476320463594442),
    (False, 32347878730098202993255195), (True, 5581559552915977317571043), (True, 100339687622073495005767751),
    (True, 331731190499462464546963529), (False, 166877733959768080625365786), (True, 223615560282696514162928129),
    (True, 70422822032578383730706711), (False, 0)] 2 = 1"
  by (simp only: chain_simps)

lemma prime_p88: "prime_number 176070659401435712181211511"
  by (rule pocklington [OF prime_p73 _ _ _ by_chain [OF p88_cofactor] by_chain [OF p88_fermat],
      where k = 18970 and c = 50991942251520794790545983])
    (simp_all add: eqm_dvd)

lemma p160_cofactor: "chain 1461501637330902918203684832716283019655932542976 2147483649
   [(True, 0), (True, 0), (False, 0), (False, 0), (False, 0), (False, 0), (False, 18446744073709551616),
    (True, 2147483650), (True, 633825300114114700756941537292), (True, 64177287530739831745058105722727),
    (True, 1321168667516101257455533081358861215), (True, 1337335275439903944650872461902258629211288373276),
    (True, 1305891841630153917795149477707427576345261244),
    (False, 683199901592869142237439853762381315391894901396),
    (True, 425695230896008642575085936229240854471558447251),
    (False, 485862893661876076113744234283756405268392229751),
    (True, 26556502683868656960693375444553531100735557908),
    (False, 582119580922724883118868079716702258081119550509),
    (True, 638315470337130637568559136851637701704448804),
    (True, 2013037566954765846195444019897636627361074552921),
    (False, 1154355114161124897438407047036462997427078947249),
    (True, 1136998931552835627003934649063927711618677495898),
    (True, 808955341989228851174459702744265480308045696895),
    (True, 2719402411823296464959030799191092690588032856078),
    (False, 907143334456421000276741846556963895503455781319),
    (True, 443640438378476570264809333000628125556185867517),
    (False, 92761233236742768423869696740896616703949952486),
    (False, 563642380108267133303100893199962879647484907041),
    (True, 128520125816647087087937066740813525693625272183),
    (False, 718814277130709206456923763551142034238491174833),
    (True, 1310884667782387407449956719126482753037388711422),
    (True, 735401493398959271963167901853642544933611904552),
    (False, 1379511679520900575826589067969985333852019884771),
    (False, 6130988365466288018135420946865232105640616463),
    (False, 481939574271670530030079026280219958018059405698),
    (False, 646807705887910677405874033879283692443169909231),
    (False, 677656046674795560447614630282365914021947371069),
    (True, 185695659728308556089387207978307370415887543964),
    (False, 1290356239182839500185756507883435313968563352301),
    (True, 684561407246258308711885557878380061197359636),
    (False, 1374748249819585782105463905889836620841011933045),
    (True, 78483829568051037297604110400318411251196599760),
    (False, 384679375601133169380482827749420753159616833536),
    (False, 381568877839228707461263743841796298381481646547),
    (False, 732040547942462323769918898785802973006250199120),
    (True, 2459923215510682946014056354588387773995526858455),
    (True, 2229977844591458592607665117835703229574267867),
    (False, 909058852502602132250932913766173754063856575899),
    (True, 565125204574004574163540367446390334747321418334),
    (True, 2336415412319949217102025719286264626547038627200),
    (False, 1011346333708072041632278415575723546144972967998),
    (False, 800255427047410998760068515089130223765956503619),
    (False, 219668990314064059874357037413771826687149669961),
    (True, 221907363040731919918309599311546146925862051092),
    (True, 437398462836296940549324907309888811294232956979),
    (False, 292109067526307847698644104592468937100089215937),
    (True, 10677696268345025028307642471093097627275589759),
    (True, 2119367953624491339273766883848568929209480929413),
    (False, 272440909168583827756315273534639437835215900092),
    (False, 840741620738206945373933736311054622036169427121),
    (True, 1496128085253180379342373489015219522894567452976),
    (True, 1706612999503943841064744947220448726434179859602),
    (True, 653988622199569066874753539005867411995301812), (True, 77312677854675565294190747622782607627741614097),
    (False, 17022970152269897556649602945575032400018027365),
    (True, 159651071688386671085594819070693177771011324539),
    (True, 279575310048077961402504865180898289335309953717),
    (True, 269418175493446661824713891018690373085882311554),
    (False, 964346299824991958961560578459593603889665102764),
    (False, 71152945631597126071968557141561319202084559333),
    (True, 298783855132380099691471235914682109798887654938),
    (False, 13133437959436342052829836575471715967768763314)] 2 =
   505319077173712751897013488417932028857935447106"
  by (simp only: chain_simps)

lemma p160_fermat: "chain 1461501637330902918203684832716283019655932542976 2147483649
   [(True, 0), (True, 0), (True, 0), (True, 0), (True, 0), (True, 0), (True, 39614081257132168796771975168),
    (True, 9903520323506414238195253248), (True, 618970021372072396373098497),
    (True, 182687705305721531430576746199698588136793178126),
    (True, 716548045785579521634393830491352391758126541411),
    (True, 103359210382475314926255401272149190148157832053),
    (True, 326212919844903109314125870851979979594112372213),
    (True, 1123598621334208241555135799279415528191669095730),
    (True, 2810067892386708880630851394467182478249743760764),
    (True, 177764004439977926480152230758660951962424187531),
    (True, 91518603950818106413992345772717248762091493458),
    (True, 34830710829107345979160158930702750377618641968),
    (True, 64696284649983103241102624297043108534835689241),
    (True, 2647338173269016424068197748035999360828400916419),
    (True, 2073305320044113445963717155094883697770754774656),
    (True, 876868916096412761622891131681559531607737627219),
    (True, 1000967401417156853720627418557509525971027166878),
    (True, 1077168169316612503488727513818203281238600669600),
    (True, 1336322121586571732465676757583003713326644285265),
    (True, 124515533160465050658859501534583845736302219512),
    (True, 29293554424919490146231419369838963690326765447),
    (True, 183081863849989379691566028467993724891234549298),
    (True, 1659897215751548810890717844892382215525988342029),
    (True, 2613550857283279082317567727330506442983489725166),
    (True, 110902204535143842213159292373199799486220949260),
    (True, 1370457077522429973175657198136528212540128772497),
    (True, 244778297454313009629276331674392908851313677242),
    (True, 2914322932145884580606571532499476793554334253253),
    (True, 417260616656790488018407179169276575715036749302),
    (True, 751675764845748449842753529198522368451660608769),
    (True, 293225402983985718384953252858422100098976906162),
    (True, 192427315286672393221421995349643089466366814663),
    (True, 50028780251283629291090040796417439465476655438),
    (True, 802028303898093405547593403418378814278324605656),
    (True, 462095026896150926516309506617474905112353938601),
    (True, 534273595166157666813576300377144888329182699661),
    (True, 1540214370028997825573173994899658992287316063957),
    (True, 74375588592022456663425543802923001471020790142),
    (True, 107433623438682796426055266248699868518354720259),
    (True, 649967217683247616070500728264338235628110920659),
    (True, 412956240614423042044596615873532738561695432200),
    (True, 2046805219222828676741216323289537750557006618959),
    (True, 5550384109671716844105222692058454120187506743),
    (True, 270765159402851331455119972589334633409089284594),
    (True, 2333198692526968695005235096730396944023173920526),
    (True, 2133535215370196334861053094049673627330787044346),
    (True, 17465795634870043442040280297530067082762134056),
    (True, 455023076257445615348777654287901527448949822217),
    (True, 2885409997109736381752398527024762410872272270474),
    (True, 171912821020606208934622749419139710269205020733),
    (True, 984436696977872035945561803590668491350471588123),
    (True, 745830056037091144192881628997689203314607640182),
    (True, 51449882173748888227897739766323326084828966295),
    (True, 88903814607630306675116637334138683653863440252),
    (True, 102898499150575717313452300708715692168678461868),
    (True, 111177061739256033803189126376114825216933071504),
    (True, 180939851157796567089449141468700880675818255004),
    (True, 2593593770588938813116880909049028487026113354012),
    (True, 2911298499800447660561006446502483413090193689026),
    (True, 681322951583009652081962867022754746591486026536),
    (True, 1135539423123134471084270912177491407661218371328),
    (True, 1260246717727617101724079064734472017665549903551),
    (True, 929998924026308682071255875758953358040940727962),
    (True, 1561335718476822039296544629619794776543797404649),
    (True, 19219271092652273355508227836948689782389492216),
    (True, 71899818846110287375425804164580249174228998221),
    (True, 420086340172495535568781070776632743350896084103),
    (True, 1444646491587179640936866061748533619160835584433),
    (True, 2377080790403283494893974501134539869588521873343),
    (True, 6867035671457333605323126322757334114548137070),
    (True, 1026869168557948023215986552616490412928071038049),
    (True, 127678581104995878051272263703660337552250435897),
    (True, 866761914576821609975553262415517911940603930178),
    (True, 76072973794592530123365329747266551855293953033),
    (True, 569954086706838834289114851799446817735637580691),
    (True, 2018477158451426859451705437824586444652731198782),
    (True, 1847673057661480863405908467343648457769174129400),
    (True, 423121688866449624322202880770499067693330598561),
    (True, 1173247127909512196897873703224186857129400148248),
    (True, 9752051069260905202159309265852239247224839435),
    (True, 1043501850281640938452444873429387460237550803018),
    (True, 2157697441830566150142577286457191111224248965463),
    (True, 1157838794617259074436288538875881493275608723829),
    (True, 1634231609064471459926889238463455946173441980376),
    (True, 2884044256231779962585059206816219908784573299618),
    (True, 1227027953548662690370134252246066096676534647343),
    (True, 1293748308590594246525519301942340504193034520679),
    (True, 1286653945562087726183206480447621572437633240387),
    (True, 2100526589919240653710560984574494987939638819738),
    (True, 1410787470920640762044820274513068882875513386695),
    (True, 116292716241718912597090294637348111499560601189),
    (True, 2172312927735931824106577311009195715888266143590),
    (True, 1985148038850857130018075829978561130506970136304),
    (True, 840672975848218097056783246832304234081318004112),
    (True, 2577894465727950571880763684991641337604865046998),
    (True, 1019236972510478125038528773226469514211851733760),
    (True, 1612137401541127606952179106354886961200915968414),
    (True, 70115283100152018448759369564051042860989267574),
    (True, 1508912608147753239110886479681902641096707985324),
    (True, 190072248520209917487952801632241461506887700367),
    (True, 1228676379814921204089779947328148052228600705101),
    (True, 2339386377223756202663548358792643104187524322232),
    (True, 579470347809591841636363614758099201018167355711),
    (True, 1194190839759115265334977132744111379033295456),
    (True, 1740082556152999920799145254331406775389317867626),
    (True, 98506950286530086549459218870197736347559800293),
    (True, 43408106901441560255573399128214263111114823791),
    (True, 1615632899551616380829449880961182640673707926869),
    (True, 1791341552545642329534275385121010582268120280499),
    (True, 2095363999661046529577339215393348192178660434654),
    (True, 12652867676388247509586390636749775023607824156),
    (True, 20479593407659885790626491424075519962871219659),
    (True, 2921200644796422576070048829385716439073732963349),
    (True, 1676846562427097027248651061768113273456199430322),
    (True, 1964499340581381941435300526286036936528931744484),
    (True, 8092187108617137117609238703696753697056871622),
    (True, 2381057751742536801285948519530055491737842405023),
    (True, 1191754594870440853908369411426399605092030521469),
    (True, 2004015203855336800525428551507600253358047178569),
    (True, 198701221349899809642903760904760847240404691931),
    (True, 2053144293900971057895025509281834362787334430830),
    (False, 226155390751372409058912514004412738563077129033),
    (True, 991145666785821420290252710968232487493752518107),
    (True, 246383599963578879938989150339133229637466669512),
    (True, 639102495274648475729855935568035001607189500725),
    (True, 536428062846508746437095823535797525537832026427),
    (True, 1530954364669785822505951783233371110430470801787),
    (True, 1450307604572974690200914872359639236754678114079),
    (True, 1377845475887123583414179209992835969353663283019),
    (True, 199810815665183458431263632054328711642918285445),
    (True, 1261498468087321125782249690049866451643197891881),
    (True, 1128078728620499781630948337140856009617792656734),
    (True, 234068187176533250882822826004083449133005821132),
    (True, 250295995363049891431155120361047670443057776975),
    (True, 291158061120661834533238478812108888857396743328),
    (True, 307177322588765523366244946042638512493630542108),
    (True, 158290075020752279734789120650461754784657522988),
    (True, 2698919671002168859408098964110362327522476420037),
    (True, 1035913434230968879736584750771818508724653863550),
    (True, 1276357985706552076730617966943870516909288403587),
    (True, 2035160151207748705750610136066196504472093079975),
    (True, 1035434894300397976716678468731778128395907302470),
    (True, 313713675588163510004396678233634362292994260904),
    (True, 578502983336561656110992646436517172155754502003),
    (True, 2615953640681938552449716082236268022580867304754),
    (True, 368110929306129312784600441028378704860910244802),
    (True, 2899819032695057139866074553549370336261067007299),
    (True, 739643110842675643513317682176324133092369833652),
    (True, 114356894485846654618425779981986125554181553952),
    (True, 306102798940487800171901579625597195939649035434),
    (True, 208067332824510027016915573524388492801537434),
    (True, 416540530903028325791950903179535803945015565561), (False, 0)] 2 = 1"
  by (simp only: chain_simps)

lemma prime_p160: "prime_number 1461501637330902918203684832716283019653785059327"
  by (rule pocklington [OF prime_p88 _ _ _ by_chain [OF p160_cofactor] by_chain [OF p160_fermat],
      where k = 8300654080011843063666 and c = 39569746234888023601427845872671514789074760237])
    (simp_all add: eqm_dvd)

end
