(* ===== verification/Toy_Curve.thy ===== *)
theory Toy_Curve
  imports Curves_Props
begin

text \<open>
  A curve with three points, a stream cipher and digests, small enough to evaluate: the hypotheses
  of the theorems on \<^verbatim>\<open>seccure\<close> hold for them.
\<close>

definition toy_params :: curve_params where
  "toy_params =
     \<lparr>cp_name = ''toy'',
      cp_dp = \<lparr>dp_a = 4, dp_b = 3, dp_m = 5, dp_order = 3, dp_base = \<lparr>pt_x = 2, pt_y = 2\<rparr>, dp_cofactor = 1\<rparr>,
      pk_len_bin = 1, pk_len_compact = 1, sig_len_bin = 1, sig_len_compact = 1,
      dh_len_bin = 1, dh_len_compact = 2, elem_len_bin = 1, order_len_bin = 1\<rparr>"

definition toy_cipher :: cipher where
  "toy_cipher =
     \<lparr>c_malloc = True, c_open = True, c_setkey = True, c_setctr = True, c_encrypt = True,
      c_block = \<lambda>key n. map (\<lambda>i. of_nat (length key + 3 * i + n)) [0..<16]\<rparr>"

definition toy_digests :: digests where
  "toy_digests =
     \<lparr>d_sha256 = \<lambda>m. replicate 32 (hd m), d_sha512 = \<lambda>m. replicate 64 (hd m),
      d_hmac256 = \<lambda>k m. replicate 32 (hd k), d_hmac_open = True, d_md_open = True\<rparr>"

lemma toy_cipher_ok: "cipher_ok toy_cipher"
  by (simp add: cipher_ok_def toy_cipher_def)

lemma toy_lengths_ok: "lengths_ok DF_BASE36 toy_params"
  by (simp add: lengths_ok_def toy_params_def)

lemma toy_primes: "prime_number 5" "prime_number 3"
  by code_simp+

lemma toy_curve_ok: "curve_ok (cp_dp toy_params)"
  using toy_primes by (simp add: curve_ok_def toy_params_def mpi_nbits_def nat_bits.simps)

lemma int_gcry_simps:
  "mpi_addm int_gcry u v m = (u + v) mod m" "mpi_subm int_gcry u v m = (u - v) mod m"
  "mpi_mulm int_gcry u v m = (u * v) mod m" "mpi_invm int_gcry = inv_search"
  "mpi_scan int_gcry bs = int (be_val bs)"
  by (simp_all add: int_gcry_def)

lemma inverses_3: "inv_search 1 3 = 1" "inv_search 2 3 = 2"
  by code_simp+

abbreviation toy_dp :: domain_params where "toy_dp \<equiv> cp_dp toy_params"

lemma toy_dp [simp]:
  "dp_a toy_dp = 4" "dp_b toy_dp = 3" "dp_m toy_dp = 5" "dp_order toy_dp = 3" "dp_cofactor toy_dp = 1"
  "dp_base toy_dp = \<lparr>pt_x = 2, pt_y = 2\<rparr>"
  by (simp_all add: toy_params_def)

text \<open>The whole addition table.\<close>

lemma toy_add:
  "point_add int_gcry \<lparr>pt_x = 2, pt_y = 2\<rparr> \<lparr>pt_x = 2, pt_y = 2\<rparr> toy_dp = \<lparr>pt_x = 2, pt_y = 3\<rparr>"
  "point_add int_gcry \<lparr>pt_x = 2, pt_y = 3\<rparr> \<lparr>pt_x = 2, pt_y = 3\<rparr> toy_dp = \<lparr>pt_x = 2, pt_y = 2\<rparr>"
  "point_add int_gcry \<lparr>pt_x = 2, pt_y = 2\<rparr> \<lparr>pt_x = 2, pt_y = 3\<rparr> toy_dp = \<lparr>pt_x = 0, pt_y = 0\<rparr>"
  "point_add int_gcry \<lparr>pt_x = 2, pt_y = 3\<rparr> \<lparr>pt_x = 2, pt_y = 2\<rparr> toy_dp = \<lparr>pt_x = 0, pt_y = 0\<rparr>"
  "point_add int_gcry \<lparr>pt_x = 0, pt_y = 0\<rparr> p toy_dp = p"
  "point_add int_gcry p \<lparr>pt_x = 0, pt_y = 0\<rparr> toy_dp = p"
  by (code_simp, code_simp, code_simp, code_simp,
      (cases p, simp add: point_add_def Let_def point_is_zero_def point_set_def)+)

lemma toy_multiples:
  "multiple int_gcry toy_dp 0 = \<lparr>pt_x = 0, pt_y = 0\<rparr>"
  "multiple int_gcry toy_dp (Suc 0) = \<lparr>pt_x = 2, pt_y = 2\<rparr>"
  "multiple int_gcry toy_dp 2 = \<lparr>pt_x = 2, pt_y = 3\<rparr>"
  "multiple int_gcry toy_dp (Suc (Suc 0)) = \<lparr>pt_x = 2, pt_y = 3\<rparr>"
  by (simp_all only: numeral_2_eq_2 multiple.simps toy_dp toy_add point_new_def)

lemma below_3: "{0..<3} = {0, Suc 0, 2 :: nat}" "{1..<3} = {Suc 0, 2 :: nat}"
  by auto

lemma toy_base_ok: "base_ok int_gcry toy_dp"
proof -
  have "curve_point toy_dp (dp_base toy_dp)"
    by (simp add: curve_point_def in_field_def solves_def eqm_def)
  moreover have "\<forall>i \<in> {0..<3}. \<forall>j \<in> {0..<3}. point_add int_gcry (multiple int_gcry toy_dp i) (multiple int_gcry toy_dp j) toy_dp =
     multiple int_gcry toy_dp ((i + j) mod 3)"
    unfolding below_3 by (simp add: toy_multiples toy_add del: multiple.simps)
  moreover have "\<forall>i \<in> {1..<3}. \<not> point_is_zero (multiple int_gcry toy_dp i)"
    unfolding below_3 by (simp add: toy_multiples point_is_zero_def del: multiple.simps)
  ultimately show ?thesis
    using toy_curve_ok toy_primes by (simp add: base_ok_def del: multiple.simps)
qed

text \<open>Every exponent gives a signature of a message whose digest is 0.\<close>

lemma toy_round:
  assumes "d = 1 \<or> d = 2"
  shows "sign_round int_gcry (replicate 64 0) d
    (nonce int_gcry toy_cipher toy_digests (replicate 64 0) d toy_params 0) toy_params \<noteq> Inr None"
proof -
  let ?k = "nonce int_gcry toy_cipher toy_digests (replicate 64 0) d toy_params 0"
  have "0 < ?k" "?k < 3"
    unfolding nonce_def using buf_to_exponent_range [where cp = toy_params] toy_base_ok by auto
  then consider "?k = 1" | "?k = 2" by linarith
  then show ?thesis
  proof cases
    case 1
    show ?thesis
      using pointmul_base [OF int_gcry_ok toy_base_ok, of 1] assms unfolding 1
      by (auto simp: sign_round_def Let_def toy_multiples int_gcry_simps inverses_3 simp del: multiple.simps)
  next
    case 2
    show ?thesis
      using pointmul_base [OF int_gcry_ok toy_base_ok, of 2] assms unfolding 2
      by (auto simp: sign_round_def Let_def toy_multiples int_gcry_simps inverses_3 simp del: multiple.simps)
  qed
qed

section \<open>The theorems apply\<close>

lemma serialization_roundtrip_witness:
  "get_serialization_len 12345 DF_BASE36 = Inr 3 \<and>
   (\<exists>buf. serialize_mpi int_gcry 3 DF_BASE36 12345 = Inr buf \<and> length buf = 3 \<and>
      deserialize_mpi int_gcry DF_BASE36 buf = Inr (Some 12345)) \<and>
   serialize_mpi int_gcry 2 DF_BASE36 12345 = Inl Assert_Fail"
proof -
  have "get_serialization_len 12345 DF_BASE36 = Inr 3"
    by (rule serialization_len_eq) simp_all
  then show ?thesis
    using serialization_roundtrip [OF int_gcry_ok, of 12345 DF_BASE36] by auto
qed

lemma prime_17: "prime_number 17"
  by code_simp

lemma mod_root_correct_witness:
  "\<exists>x. mod_root int_gcry 13 17 = Inr (Some x) \<and> 0 \<le> x \<and> x < 17 \<and> x * x mod 17 = 13"
proof -
  have "\<exists>x :: int. x * x mod 17 = 13"
    by (rule exI [of _ 8]) simp
  then show ?thesis
    using mod_root_correct [OF int_gcry_ok prime_17, of 13] by (auto simp: mpi_nbits_def nat_bits.simps)
qed

lemma toy_point: "curve_point toy_dp \<lparr>pt_x = 2, pt_y = 3\<rparr>"
  by (simp add: curve_point_def in_field_def solves_def eqm_def)

lemma pointmul_refines_affine_witness:
  "\<exists>r. pointmul int_gcry \<lparr>pt_x = 2, pt_y = 3\<rparr> 5 toy_dp = Inr r \<and>
     pointmul_affine int_gcry \<lparr>pt_x = 2, pt_y = 3\<rparr> 5 toy_dp = Inr r \<and> curve_point toy_dp r"
  by (rule pointmul_refines_affine [OF int_gcry_ok toy_curve_ok toy_point])

lemma compression_roundtrip_witness:
  "\<exists>buf. compress_to_string int_gcry DF_BASE36 \<lparr>pt_x = 2, pt_y = 3\<rparr> toy_params = Inr buf \<and>
     decompress_from_string int_gcry (buf @ [0]) DF_BASE36 toy_params = Inr (Some \<lparr>pt_x = 2, pt_y = 3\<rparr>)"
  using compression_roundtrip [OF int_gcry_ok toy_curve_ok toy_lengths_ok, of DF_BASE36] toy_point
  by (fastforce simp: point_is_zero_def)

lemma toy_usable: "usable toy_params 1"
  by (simp add: usable_def mpi_nbits_def nat_bits.simps)

end
