(* ===== verification/Engine_Key.thy ===== *)
theory Engine_Key
  imports Engine Curves_Props Primality Toy_Curve
begin

text \<open>
  The key of the engine: \<^verbatim>\<open>f4_init_crypto\<close> calls \<^verbatim>\<open>seccure\<close> with the curve \<^verbatim>\<open>p160\<close>. The modulus of the curve
  is prime, so that the computation returns for every secret.
\<close>

section \<open>The curve\<close>

lemma p160_curve_ok: "curve_ok (cp_dp p160)"
proof -
  have "mpi_nbits 1461501637330902918203684832716283019653785059327 = 160"
    by (rule mpi_nbits_eq; simp)
  moreover have "\<not> (1461501637330902918203684832716283019653785059327 :: int) dvd 163235791306168110546604919403271579530548345413"
    by (rule zdvd_not_zless) simp_all
  ultimately show ?thesis
    using prime_p160 by (simp add: curve_ok_def p160_def)
qed

lemma p160_base_point: "curve_point (cp_dp p160) (dp_base (cp_dp p160))"
  using p160_base by (simp add: curve_point_def in_field_def p160_def)

section \<open>The key\<close>

definition engine_secret :: "world \<Rightarrow> int" where
  "engine_secret w = stream_exponent (w_gcry w) (w_cipher w) (take 32 (w_private w)) p160"

definition engine_point :: "world \<Rightarrow> affine_point" where
  "engine_point w =
     affine_loop (w_gcry w) (cp_dp p160) (dp_base (cp_dp p160)) (engine_secret w) (mpi_nbits (engine_secret w)) point_new"

definition engine_key :: "world \<Rightarrow> byte list" where
  "engine_key w = take 20 (projr (compress_to_string (w_gcry w) DF_BIN (engine_point w) p160))"

text \<open>What the engine relies on in libgcrypt.\<close>

definition crypto_ok :: "world \<Rightarrow> bool" where
  "crypto_ok w \<longleftrightarrow> gcry_ok (w_gcry w) \<and> cipher_ok (w_cipher w)"

lemma engine_point:
  assumes "crypto_ok w"
  shows "pointmul (w_gcry w) (dp_base (cp_dp p160)) (engine_secret w) (cp_dp p160) = Inr (engine_point w)"
    "curve_point (cp_dp p160) (engine_point w)"
proof -
  have "gcry_ok (w_gcry w)" using assms by (simp add: crypto_ok_def)
  note p = pointmul [OF this p160_curve_ok p160_base_point, of "engine_secret w", folded engine_point_def]
  show "pointmul (w_gcry w) (dp_base (cp_dp p160)) (engine_secret w) (cp_dp p160) = Inr (engine_point w)"
    "curve_point (cp_dp p160) (engine_point w)"
    using p by simp_all
qed

lemma engine_key_bytes:
  assumes "crypto_ok w"
  shows "\<exists>buf. compress_to_string (w_gcry w) DF_BIN (engine_point w) p160 = Inr buf \<and> length buf = 21 \<and> unat (hd buf) \<le> 1"
proof -
  have g: "gcry_ok (w_gcry w)" using assms by (simp add: crypto_ok_def)
  have "0 \<le> pt_x (engine_point w)" "pt_x (engine_point w) < dp_m (cp_dp p160)"
    using engine_point(2) [OF assms] by (simp_all add: curve_point_def in_field_def)
  then show ?thesis using p160_compress [OF g] by blast
qed

lemma init_crypto:
  assumes "crypto_ok w"
  shows "f4_init_crypto w ctx =
      Inr (ctx\<lparr>cp := Some p160, private_key := w_private w, public_key := engine_key w\<rparr>)"
    and "length (engine_key w) = 20" and "unat (hd (engine_key w)) \<le> 1"
proof -
  have ok: "gcry_ok (w_gcry w)" "cipher_ok (w_cipher w)" using assms by (simp_all add: crypto_ok_def)
  obtain buf where b: "compress_to_string (w_gcry w) DF_BIN (engine_point w) p160 = Inr buf" "length buf = 21"
      "unat (hd buf) \<le> 1"
    using engine_key_bytes [OF assms] by blast
  have k: "engine_key w = take 20 buf" by (simp add: engine_key_def b(1))
  show "length (engine_key w) = 20" by (simp add: k b(2))
  show "unat (hd (engine_key w)) \<le> 1" using b(2,3) by (cases buf) (simp_all add: k)
  show "f4_init_crypto w ctx =
      Inr (ctx\<lparr>cp := Some p160, private_key := w_private w, public_key := engine_key w\<rparr>)"
    unfolding f4_init_crypto_def load_p160 [OF ok(1)] hash_to_exponent_ok [OF ok(2)] engine_secret_def [symmetric]
      rbind_Inr option.case engine_point(1) [OF assms] b(1) k by simp
qed

text \<open>C40. When the engine starts, the key is made for every secret that the generator gives: the curve is
  found, no assertion fails, and the multiple of the base point is a point of the curve, whose
  modulus is prime. What is written to the array of 20 bytes has 21, and the first byte, where
  node identifiers are distinguished first, is 0 or 1.\<close>

theorem engine_makes_key:
  assumes "gcry_ok (w_gcry w)" "cipher_ok (w_cipher w)"
  shows "prime_number (dp_m (cp_dp p160)) \<and> lengths_ok DF_BASE36 p160 \<and>
    (\<exists>d P key. hash_to_exponent (w_gcry w) (w_cipher w) (w_secmem w) (w_private w) p160 = Inr d \<and>
       pointmul (w_gcry w) (dp_base (cp_dp p160)) d (cp_dp p160) = Inr P \<and> curve_point (cp_dp p160) P \<and>
       compress_to_string (w_gcry w) DF_BIN P p160 = Inr key \<and> length key = 21 \<and> unat (hd key) \<le> 1 \<and>
       f4_init_crypto w ctx =
         Inr (ctx\<lparr>cp := Some p160, private_key := w_private w, public_key := take 20 key\<rparr>))"
proof -
  have w: "crypto_ok w" using assms by (simp add: crypto_ok_def)
  obtain key where k: "compress_to_string (w_gcry w) DF_BIN (engine_point w) p160 = Inr key" "length key = 21"
      "unat (hd key) \<le> 1"
    using engine_key_bytes [OF w] by blast
  have "engine_key w = take 20 key" by (simp add: engine_key_def k(1))
  then show ?thesis
    using hash_to_exponent_ok [OF assms(2), of "w_gcry w" "w_secmem w" "w_private w" p160]
      engine_point [OF w] k init_crypto(1) [OF w, of ctx] curve_okD(1) [OF p160_curve_ok] p160_lengths
    unfolding engine_secret_def [symmetric]
    by (intro conjI exI [of _ "engine_secret w"] exI [of _ "engine_point w"] exI [of _ key]) simp_all
qed

section \<open>A world\<close>

text \<open>A world in which all services work; \<open>listen\<close> fails on the datagram socket, as it should for the code.\<close>

definition demo_world :: world where
  "demo_world = \<lparr>w_calloc = True, w_strdup = Some, w_parse_sockaddr = (\<lambda>_. None),
     w_getaddrinfo = (\<lambda>h p. Some [(demo_peer, 16)]), w_fopen = (\<lambda>_. None),
     w_stack = replicate 1024 0, w_add_header = (\<lambda>k v ps. ps @ [(k, v)]), w_gcry = int_gcry, w_cipher = toy_cipher,
     w_secmem = [], w_private = replicate 32 1, w_tctdbnew = True, w_tctdbopen = (\<lambda>_. True),
     w_socket = (\<lambda>_. 5), w_listen = -1, w_bind = (\<lambda>_ _. 0), w_fcntl = (0, 0), w_now = 1000, w_event_new = True,
     w_evhttp_new = True, w_evdns_base = True, w_dns_socket = 6, w_evdns_server = True\<rparr>"

lemma demo_crypto_ok: "crypto_ok demo_world"
  using int_gcry_ok toy_cipher_ok by (simp add: crypto_ok_def demo_world_def)

theorem engine_makes_key_witness:
  "\<exists>key. f4_init_crypto demo_world zero_ctx =
      Inr (zero_ctx\<lparr>cp := Some p160, private_key := replicate 32 1, public_key := take 20 key\<rparr>) \<and>
    length key = 21 \<and> unat (hd key) \<le> 1"
proof -
  have "gcry_ok (w_gcry demo_world)" "cipher_ok (w_cipher demo_world)"
    using demo_crypto_ok by (simp_all add: crypto_ok_def)
  moreover have "w_private demo_world = replicate 32 1" by (simp add: demo_world_def)
  ultimately show ?thesis using engine_makes_key [of demo_world zero_ctx] by auto
qed

end
