(* ===== verification/Engine_Props.thy ===== *)
theory Engine_Props
  imports Engine_Key
begin

text \<open>
  What start-up reports, what an event of the DHT does to the process, and what shutdown
  releases.
\<close>

section \<open>Events\<close>

text \<open>Every operation comes from \<open>f4op_new\<close>, which sets the callback.\<close>

definition calls_back :: "f4ops \<Rightarrow> bool" where
  "calls_back d \<longleftrightarrow> (\<forall>p x. op_at d p = Some x \<longrightarrow> op_dht x = Some opget_dht_callback)"

lemma cb_dht_find:
  assumes "ops_ok d" "calls_back d" "id_ok (ev_hash e)"
  shows "f4_cb_dht e d = (if ops_find d (ev_hash e) = None then Inr () else Inl Assert_Fail)"
proof -
  obtain t where t: "pending d t" using assms(1) by (auto simp: ops_ok_def)
  show ?thesis
  proof (cases "map_of (op_entries d (addrs t)) (ev_hash e)")
    case None
    then show ?thesis
      using f4op_find_ok [OF t assms(3)] ops_find_None [OF t assms(3)] by (simp add: f4_cb_dht_def)
  next
    case (Some p)
    have p: "p \<in> set (addrs t)" using op_entries_Some [OF Some] by simp
    then obtain x where x: "op_at d p = Some x" "p \<noteq> 0" using pending_allocated [OF t] by blast
    moreover have "op_dht x = Some opget_dht_callback" using assms(2) x(1) by (simp add: calls_back_def)
    ultimately show ?thesis
      using f4op_find_ok [OF t assms(3)] ops_find_None [OF t assms(3)] Some
      by (simp add: f4_cb_dht_def run_dht_callback_def)
  qed
qed

lemma tell_events_find:
  assumes "ops_ok d" "calls_back d" "\<forall>e \<in> set es. id_ok (ev_hash e)"
  shows "tell_events es d = (if \<forall>e \<in> set es. ops_find d (ev_hash e) = None then Inr () else Inl Assert_Fail)"
  using assms(3)
proof (induction es)
  case (Cons e es)
  then show ?case using cb_dht_find [OF assms(1,2), of e] by simp
qed simp

text \<open>When data arrives, the DHT runs once and its events are told to the pending operations. If
  one of them is about the hash of a pending operation, the process ends at an assertion:
  so the first search to complete for a queued DNS request brings the node down. Otherwise
  the node has taken the step of \<open>dht_periodic\<close>, with its invariants, and nothing else has
  changed.\<close>

theorem dht_events_reach_operations:
  assumes "node_inv (r_dht s)" "ops_ok (r_ops s)" "calls_back (r_ops s)" "input_ok inp"
    and "dht_periodic (inp\<lparr>in_available := (event = EV_READ)\<rparr>) True (r_dht s) = (rc, t, s')" "died s' = None"
    and "\<forall>e \<in> set (drop (length (events (r_dht s))) (events s')). id_ok (ev_hash e)"
  shows "f4_cb_dht_read event inp s =
      (if \<forall>e \<in> set (drop (length (events (r_dht s))) (events s')). ops_find (r_ops s) (ev_hash e) = None
       then Inr (s\<lparr>r_dht := s'\<rparr>) else Inl Assert_Fail) \<and>
    advances (r_dht s) s'"
proof -
  have i: "input_ok (inp\<lparr>in_available := (event = EV_READ)\<rparr>)" using assms(4) by (simp add: input_ok_def)
  show ?thesis
    using tell_events_find [OF assms(2,3,7)] assms(6) advances_periodic [OF assms(1) i assms(5,6)]
    by (simp add: f4_cb_dht_read_def assms(5))
qed

text \<open>A search without nodes that is due, in a run in which nothing is received; the operation at address 5
  asks for the same hash.\<close>

definition demo_due :: dht where
  "demo_due = demo_searching\<lparr>searches := [zero_search\<lparr>sr_af := AF_INET, sr_tid := 7\<rparr>], search_time := 1,
     rotate_secrets_time := 5000, expire_stuff_time := 5000, confirm_nodes_time := 5000\<rparr>"

definition demo_input :: input where
  "demo_input = (let r = \<lparr>rv_rc = -1, rv_buf = [], rv_from = demo_peer, rv_fromlen = 16, rv_again = True\<rparr>
     in \<lparr>in_now = 1000, in_available = False, in_junk = 0, in_recv = r, in_recv6 = r,
       in_heap = \<lparr>h_addr = 4096, h_copy = [], h_query = []\<rparr>\<rparr>)"

lemma demo_due_inv: "node_inv demo_due"
  using demo_node_inv
  by (simp add: node_inv_def core_ok_def tables_ok_def searches_ok_def guard_ok_def storages_ok_def demo_due_def
      demo_searching_def search_ok_def zero_search_def family_ok_def)

lemma one_op_ok: "ops_ok one_op"
proof -
  have "pending one_op (Node Leaf RB_RED 5 Leaf)"
    by (simp add: one_op_def no_ops_def pending_def holds_def keyed_Cons ident_def request_of_def zeroes_def)
  moreover have "{p. allocated one_op p} \<subseteq> {5, 6}" by (auto simp: allocated_def one_op_def no_ops_def)
  then have "finite {p. allocated one_op p}" using finite_subset by blast
  ultimately show ?thesis using no_ops_ok by (auto simp: ops_ok_def one_op_def)
qed

theorem dht_events_reach_operations_witness:
  "f4_cb_dht_read EV_READ demo_input \<lparr>r_ops = one_op, r_dht = demo_due, r_responses = []\<rparr> = Inl Assert_Fail"
proof -
  let ?s' = "tick True (demo_due\<lparr>now_sec := 1000\<rparr>)"
  let ?ev = "\<lparr>ev_kind = DHT_EVENT_SEARCH_DONE, ev_hash = zeroes, ev_data = []\<rparr>"
  have t: "events ?s' = [?ev]" "died ?s' = None" "events demo_due = []"
    by (simp_all add: tick_def run_searches_def confirm_nodes_def demo_due_def demo_searching_def demo_dht_def
        dht_start_def step_if_due_def search_step_def zero_search_def search_done_def upd_search_def log_event_def
        Let_def zeroes_def)
  have p: "dht_periodic (demo_input\<lparr>in_available := (EV_READ = EV_READ)\<rparr>) True demo_due = (1, Some (sleep_time ?s'), ?s')"
    by (simp add: dht_periodic_def receive_def demo_input_def demo_due_def demo_searching_def demo_dht_def dht_start_def Let_def)
  have "input_ok demo_input"
    by (simp add: demo_input_def input_ok_def recv_ok_def demo_peer_def family_ok_def sa_ok_def Let_def)
  moreover have "calls_back one_op" by (simp add: calls_back_def one_op_def)
  moreover have "id_ok zeroes" by (simp add: zeroes_def)
  moreover have "pending one_op (Node Leaf RB_RED 5 Leaf)"
    by (simp add: one_op_def no_ops_def pending_def holds_def keyed_Cons ident_def request_of_def zeroes_def)
  then have "ops_find one_op zeroes \<noteq> None"
    using ops_find_None [of one_op "Node Leaf RB_RED 5 Leaf" zeroes] \<open>id_ok zeroes\<close>
    by (simp add: ident_def one_op_def)
  ultimately show ?thesis
    using dht_events_reach_operations [of "\<lparr>r_ops = one_op, r_dht = demo_due, r_responses = []\<rparr>" demo_input EV_READ]
      p t demo_due_inv one_op_ok by simp
qed

section \<open>Start-up\<close>

text \<open>The peers that are added, and whether one of them cannot be resolved.\<close>

definition peer_addresses :: "world \<Rightarrow> (byte list \<times> byte list) list \<Rightarrow> (sockaddr \<times> int) list" where
  "peer_addresses w ps = concat (map (\<lambda>(h, p). case w_getaddrinfo w h p of None \<Rightarrow> [] | Some as \<Rightarrow> as) ps)"

definition unresolved :: "world \<Rightarrow> (byte list \<times> byte list) list \<Rightarrow> nat" where
  "unresolved w ps = length (filter (\<lambda>(h, p). w_getaddrinfo w h p = None) ps)"

lemma init_peers_from_ok:
  "w_calloc w \<Longrightarrow> init_peers_from w ctx as = Inr (ctx\<lparr>bootstraps := bootstraps ctx @ as\<rparr>)"
  by (induction as arbitrary: ctx) (simp_all add: f4_init_peer_from_sockaddr_def)

lemma add_peers_ok:
  "w_calloc w \<Longrightarrow> add_peers w ctx ps n =
     Inr (n + unresolved w ps, ctx\<lparr>bootstraps := bootstraps ctx @ peer_addresses w ps\<rparr>)"
proof (induction ps arbitrary: ctx n)
  case (Cons hp ps)
  obtain h p where "hp = (h, p)" by (cases hp)
  then show ?case
    using Cons by (cases "w_getaddrinfo w h p")
      (simp_all add: f4_add_peer_def init_peers_from_ok unresolved_def peer_addresses_def)
qed (simp add: unresolved_def peer_addresses_def)

text \<open>
  The services whose failure the code asserts away, or does not check, are up, and the peers
  file can be parsed.
\<close>

definition peers_of :: "world \<Rightarrow> f4_ctx \<Rightarrow> (byte list \<times> byte list) list option" where
  "peers_of w ctx = (case bootstrap_file ctx of None \<Rightarrow> Some [] | Some name \<Rightarrow>
     (case w_fopen w name of None \<Rightarrow> None | Some f \<Rightarrow>
        (case properties_parse_file (w_add_header w) f (w_stack w) [] of Inl _ \<Rightarrow> None | Inr ps \<Rightarrow> Some ps)))"

definition services_up :: "world \<Rightarrow> f4_ctx \<Rightarrow> bool" where
  "services_up w ctx \<longleftrightarrow> w_calloc w \<and> crypto_ok w \<and> w_tctdbnew w \<and> w_event_new w \<and> w_evdns_base w \<and>
     db_file ctx \<noteq> None \<and> (role_p2p_publish ctx \<longrightarrow> publish_file ctx \<noteq> None) \<and>
     sa_family (listen_p2p ctx) \<in> {AF_INET, AF_INET6} \<and>
     (\<forall>name f. bootstrap_file ctx = Some name \<longrightarrow> w_fopen w name = Some f \<longrightarrow>
        (\<exists>ps. properties_parse_file (w_add_header w) f (w_stack w) [] = Inr ps))"

definition db_fails :: "world \<Rightarrow> byte list option \<Rightarrow> bool" where
  "db_fails w name \<longleftrightarrow> (\<forall>f. name = Some f \<longrightarrow> \<not> w_tctdbopen w f)"

definition peers_fail :: "world \<Rightarrow> f4_ctx \<Rightarrow> bool" where
  "peers_fail w ctx \<longleftrightarrow> (case peers_of w ctx of None \<Rightarrow> True | Some ps \<Rightarrow> unresolved w ps \<noteq> 0)"

definition start_dht :: "world \<Rightarrow> f4_ctx \<Rightarrow> dht \<Rightarrow> int \<times> dht" where
  "start_dht w ctx s =
     (let family = sa_family (listen_p2p ctx); fd = w_socket w family
      in dht_init (if family = AF_INET6 then -1 else fd) (if family = AF_INET6 then fd else -1)
           (engine_key w) (Some (ascii ''P2NS'')) (fst (w_fcntl w)) (snd (w_fcntl w)) (w_now w) s)"

definition p2p_fails :: "world \<Rightarrow> f4_ctx \<Rightarrow> dht \<Rightarrow> bool" where
  "p2p_fails w ctx s \<longleftrightarrow>
     (let fd = w_socket w (sa_family (listen_p2p ctx))
      in fd = -1 \<or> w_listen w = 0 \<or> w_bind w fd (listen_p2p ctx) \<noteq> 0 \<or> fst (start_dht w ctx s) < 0)"

definition dns_fails :: "world \<Rightarrow> f4_ctx \<Rightarrow> bool" where
  "dns_fails w ctx \<longleftrightarrow> role_dns ctx \<and> w_bind w (w_dns_socket w) (listen_dns ctx) \<noteq> 0"

text \<open>The error of the first step that fails.\<close>

definition first_failure :: "world \<Rightarrow> f4_ctx \<Rightarrow> dht \<Rightarrow> f4_error option" where
  "first_failure w ctx s =
     (if db_fails w (db_file ctx) then Some F4_ERR_CANT_OPEN_DB
      else if role_p2p_publish ctx \<and> db_fails w (publish_file ctx) then Some F4_ERR_CANT_OPEN_PUBLISH_DB
      else if peers_fail w ctx then Some F4_ERR_CANT_INIT_PEERS
      else if p2p_fails w ctx s then Some F4_ERR_CANT_INIT_P2P
      else if dns_fails w ctx then Some F4_ERR_CANT_INIT_DNS
      else None)"

text \<open>What the steps leave alone: the configuration.\<close>

definition config :: "f4_ctx \<Rightarrow> byte list option \<times> byte list option \<times> byte list option \<times> bool \<times> sockaddr \<times> bool \<times> sockaddr \<times> bool" where
  "config ctx = (db_file ctx, bootstrap_file ctx, publish_file ctx, role_p2p_publish ctx, listen_p2p ctx,
     role_dns ctx, listen_dns ctx, role_admin ctx)"

lemma init_databases_ok:
  assumes "services_up w ctx"
  shows "\<exists>ctx'. init_databases w ctx =
      Inr (\<not> (db_fails w (db_file ctx) \<or> role_p2p_publish ctx \<and> db_fails w (publish_file ctx)), ctx') \<and>
    config ctx' = config ctx \<and> public_key ctx' = public_key ctx \<and> bootstraps ctx' = bootstraps ctx \<and>
    (db_fails w (db_file ctx) \<longrightarrow> errno ctx' = F4_ERR_CANT_OPEN_DB) \<and>
    (\<not> db_fails w (db_file ctx) \<and> role_p2p_publish ctx \<and> db_fails w (publish_file ctx) \<longrightarrow>
       errno ctx' = F4_ERR_CANT_OPEN_PUBLISH_DB)"
proof -
  obtain f where f: "db_file ctx = Some f" using assms by (auto simp: services_up_def)
  have w: "w_tctdbnew w" using assms by (simp add: services_up_def)
  show ?thesis
  proof (cases "role_p2p_publish ctx")
    case True
    then obtain g where "publish_file ctx = Some g" using assms by (auto simp: services_up_def)
    then show ?thesis using f w True
      by (cases "w_tctdbopen w f"; cases "w_tctdbopen w g")
        (simp_all add: init_databases_def open_db_def db_fails_def config_def)
  next
    case False
    then show ?thesis using f w
      by (cases "w_tctdbopen w f") (simp_all add: init_databases_def open_db_def db_fails_def config_def)
  qed
qed

lemma init_peers_ok:
  assumes "services_up w ctx"
  shows "\<exists>ctx'. init_peers w ctx = Inr (\<not> peers_fail w ctx, ctx') \<and> config ctx' = config ctx \<and>
    public_key ctx' = public_key ctx \<and> (peers_fail w ctx \<longrightarrow> errno ctx' = F4_ERR_CANT_INIT_PEERS) \<and>
    (\<forall>ps. peers_of w ctx = Some ps \<longrightarrow> bootstraps ctx' = bootstraps ctx @ peer_addresses w ps)"
proof (cases "bootstrap_file ctx")
  case None
  then show ?thesis
    by (intro exI [of _ ctx]) (simp add: init_peers_def peers_fail_def peers_of_def unresolved_def peer_addresses_def)
next
  case (Some name)
  show ?thesis
  proof (cases "w_fopen w name")
    case None
    then show ?thesis using Some
      by (simp add: init_peers_def f4_init_peers_def peers_fail_def peers_of_def config_def)
  next
    case f: (Some f)
    then obtain ps where "properties_parse_file (w_add_header w) f (w_stack w) [] = Inr ps"
      using assms Some by (auto simp: services_up_def)
    then show ?thesis using assms Some f add_peers_ok [of w ctx ps 0]
      by (cases "unresolved w ps = 0")
        (simp_all add: services_up_def init_peers_def f4_init_peers_def peers_fail_def peers_of_def config_def)
  qed
qed

lemma init_p2p_ok:
  assumes "services_up w ctx" "public_key ctx = engine_key w"
  shows "\<exists>ctx' s'. init_p2p w ctx s = Inr (\<not> p2p_fails w ctx s, ctx', s') \<and> config ctx' = config ctx \<and>
    bootstraps ctx' = bootstraps ctx \<and> (p2p_fails w ctx s \<longrightarrow> errno ctx' = F4_ERR_CANT_INIT_P2P) \<and>
    (\<not> p2p_fails w ctx s \<longrightarrow> dht_done_init ctx' \<and> s' = snd (start_dht w ctx s))"
proof -
  let ?fam = "sa_family (listen_p2p ctx)" and ?s4 = "\<lambda>fam fd. if fam = AF_INET6 then -1 else fd :: int"
    and ?s6 = "\<lambda>fam fd. if fam = AF_INET6 then fd else -1 :: int"
  have fam: "?fam = AF_INET6 \<or> ?fam = AF_INET" and ev: "w_event_new w" using assms(1) by (auto simp: services_up_def)
  obtain rc s1 where d: "dht_init (?s4 ?fam (w_socket w ?fam)) (?s6 ?fam (w_socket w ?fam)) (public_key ctx)
      (Some (ascii ''P2NS'')) (fst (w_fcntl w)) (snd (w_fcntl w)) (w_now w) s = (rc, s1)" by (metis prod.exhaust)
  have pf: "p2p_fails w ctx s \<longleftrightarrow> w_socket w ?fam = -1 \<or> w_listen w = 0 \<or>
      w_bind w (w_socket w ?fam) (listen_p2p ctx) \<noteq> 0 \<or> rc < 0"
    using d assms(2) by (simp add: p2p_fails_def start_dht_def Let_def)
  have st: "snd (start_dht w ctx s) = s1" using d assms(2) by (simp add: start_dht_def Let_def)
  consider "w_socket w ?fam = -1 \<or> w_listen w = 0 \<or> w_bind w (w_socket w ?fam) (listen_p2p ctx) \<noteq> 0"
    | "\<not> (w_socket w ?fam = -1 \<or> w_listen w = 0 \<or> w_bind w (w_socket w ?fam) (listen_p2p ctx) \<noteq> 0)" by blast
  then show ?thesis
  proof cases
    case 1
    then show ?thesis unfolding pf
      by (auto simp: init_p2p_def f4_init_p2p_def Let_def config_def)
  next
    case 2
    then show ?thesis using d fam ev unfolding pf st
      by (cases "?fam = AF_INET6"; cases "rc < 0") (simp_all add: init_p2p_def f4_init_p2p_def Let_def config_def)
  qed
qed

lemma init_admin_ok:
  "services_up w ctx \<Longrightarrow> \<exists>ctx'. init_admin w ctx = Inr (True, ctx') \<and> config ctx' = config ctx \<and>
    bootstraps ctx' = bootstraps ctx \<and> dht_done_init ctx' = dht_done_init ctx"
  by (simp add: init_admin_def f4admin_new_def f4admin_init_def services_up_def config_def)

lemma init_dns_ok:
  assumes "services_up w ctx"
  shows "\<exists>ctx'. init_dns w ctx = Inr (\<not> dns_fails w ctx, ctx') \<and> bootstraps ctx' = bootstraps ctx \<and>
    dht_done_init ctx' = dht_done_init ctx \<and> (dns_fails w ctx \<longrightarrow> errno ctx' = F4_ERR_CANT_INIT_DNS)"
  using assms by (simp add: init_dns_def f4dns_new_def f4dns_init_def dns_fails_def services_up_def Let_def)

lemma config_cong:
  assumes "config ctx' = config ctx"
  shows "services_up w ctx' = services_up w ctx" "peers_fail w ctx' = peers_fail w ctx" "peers_of w ctx' = peers_of w ctx"
    "p2p_fails w ctx' s = p2p_fails w ctx s" "start_dht w ctx' s = start_dht w ctx s" "dns_fails w ctx' = dns_fails w ctx"
    "role_p2p_publish ctx' = role_p2p_publish ctx" "db_file ctx' = db_file ctx" "publish_file ctx' = publish_file ctx"
  using assms by (simp_all add: config_def services_up_def peers_fail_def peers_of_def p2p_fails_def start_dht_def dns_fails_def)

lemma init_outcome:
  assumes "services_up w ctx"
  shows "\<exists>ctx' s'. f4_init w ctx s = Inr (first_failure w ctx s = None, ctx', s') \<and>
    (case first_failure w ctx s of
       Some e \<Rightarrow> errno ctx' = e \<and> e \<noteq> F4_ERR_CANT_OPEN_SOCKET_P2P \<and> e \<noteq> F4_ERR_CANT_INIT_ADMIN
     | None \<Rightarrow> dht_done_init ctx' \<and> s' = snd (start_dht w ctx s) \<and>
         (\<exists>ps. peers_of w ctx = Some ps \<and> bootstraps ctx' = bootstraps ctx @ peer_addresses w ps))"
proof -
  let ?c0 = "ctx\<lparr>cp := Some p160, private_key := w_private w, public_key := engine_key w\<rparr>"
  have c0: "f4_init_crypto w ctx = Inr ?c0" "config ?c0 = config ctx"
    using assms init_crypto(1) [of w ctx] by (simp_all add: services_up_def config_def)
  note k0 = config_cong [OF c0(2)]
  let ?bad = "db_fails w (db_file ctx) \<or> role_p2p_publish ctx \<and> db_fails w (publish_file ctx)"
  obtain c1 where c1: "init_databases w ?c0 = Inr (\<not> ?bad, c1)" "config c1 = config ctx"
      "public_key c1 = engine_key w" "bootstraps c1 = bootstraps ctx"
      "db_fails w (db_file ctx) \<longrightarrow> errno c1 = F4_ERR_CANT_OPEN_DB"
      "\<not> db_fails w (db_file ctx) \<and> role_p2p_publish ctx \<and> db_fails w (publish_file ctx) \<longrightarrow>
         errno c1 = F4_ERR_CANT_OPEN_PUBLISH_DB"
    using init_databases_ok [of w ?c0] assms k0 c0(2) by auto
  show ?thesis
  proof (cases ?bad)
    case True
    then show ?thesis using c0 c1 by (auto simp: f4_init_def first_failure_def)
  next
    case db: False
    let ?c2 = "c1\<lparr>op_ctx := True\<rparr>"
    have c2: "config ?c2 = config ctx" using c1(2) by (simp add: config_def)
    note k2 = config_cong [OF c2]
    obtain c3 where c3: "init_peers w ?c2 = Inr (\<not> peers_fail w ctx, c3)" "config c3 = config ctx"
        "public_key c3 = engine_key w" "peers_fail w ctx \<longrightarrow> errno c3 = F4_ERR_CANT_INIT_PEERS"
        "\<forall>ps. peers_of w ctx = Some ps \<longrightarrow> bootstraps c3 = bootstraps ctx @ peer_addresses w ps"
      using init_peers_ok [of w ?c2] assms k2 c2 c1(3,4) by auto
    have w: "w_calloc w" using assms by (simp add: services_up_def)
    show ?thesis
    proof (cases "peers_fail w ctx")
      case True
      then show ?thesis using c0 c1(1) db c3(1,4) w by (simp add: f4_init_def first_failure_def)
    next
      case peers: False
      then obtain ps where ps: "peers_of w ctx = Some ps" by (auto simp: peers_fail_def split: option.splits)
      note k3 = config_cong [OF c3(2)]
      obtain c4 s4 where c4: "init_p2p w c3 s = Inr (\<not> p2p_fails w ctx s, c4, s4)" "config c4 = config ctx"
          "bootstraps c4 = bootstraps c3" "p2p_fails w ctx s \<longrightarrow> errno c4 = F4_ERR_CANT_INIT_P2P"
          "\<not> p2p_fails w ctx s \<longrightarrow> dht_done_init c4 \<and> s4 = snd (start_dht w ctx s)"
        using init_p2p_ok [of w c3 s] assms k3 c3(2,3) by auto
      show ?thesis
      proof (cases "p2p_fails w ctx s")
        case True
        then show ?thesis using c0 c1(1) db c3(1) w peers c4(1,4) by (simp add: f4_init_def first_failure_def)
      next
        case p2p: False
        note k4 = config_cong [OF c4(2)]
        obtain c5 where c5: "init_admin w c4 = Inr (True, c5)" "config c5 = config ctx" "bootstraps c5 = bootstraps c4"
            "dht_done_init c5 = dht_done_init c4"
          using init_admin_ok [of w c4] assms k4 c4(2) by auto
        note k5 = config_cong [OF c5(2)]
        obtain c6 where c6: "init_dns w c5 = Inr (\<not> dns_fails w ctx, c6)" "bootstraps c6 = bootstraps c5"
            "dht_done_init c6 = dht_done_init c5" "dns_fails w ctx \<longrightarrow> errno c6 = F4_ERR_CANT_INIT_DNS"
          using init_dns_ok [of w c5] assms k5 by auto
        have "f4_init w ctx s = Inr (\<not> dns_fails w ctx, c6, s4)"
          using c0(1) c1(1) db c3(1) w peers c4(1) p2p c5(1) c6(1) by (simp add: f4_init_def)
        then show ?thesis
          using db peers p2p ps c3(5) c4(3,5) c5(3,4) c6(2,3,4) by (simp add: first_failure_def)
      qed
    qed
  qed
qed

text \<open>C10. Where no assertion fails, \<^verbatim>\<open>f4_init\<close> returns, true exactly if no step fails, and otherwise with
  the error of the first step that does. The errors for a socket that cannot be opened and
  for the admin interface are never reported: the first is overwritten, the second cannot
  occur. On success the DHT runs and every address of the peers file is a bootstrap peer.\<close>

theorem init_reports_first_failure:
  assumes "services_up w ctx"
  shows "\<exists>ctx' s'. f4_init w ctx s = Inr (first_failure w ctx s = None, ctx', s') \<and>
    (case first_failure w ctx s of
       Some e \<Rightarrow> errno ctx' = e \<and> e \<noteq> F4_ERR_CANT_OPEN_SOCKET_P2P \<and> e \<noteq> F4_ERR_CANT_INIT_ADMIN
     | None \<Rightarrow> dht_done_init ctx' \<and> s' = snd (start_dht w ctx s) \<and>
         (\<exists>ps. peers_of w ctx = Some ps \<and> bootstraps ctx' = bootstraps ctx @ peer_addresses w ps))"
  using assms by (rule init_outcome)

definition demo_ctx :: f4_ctx where
  "demo_ctx = zero_ctx\<lparr>socket_p2p_app := -1, socket_p2p_dht := -1, db_file := Some [100],
     listen_p2p := demo_peer, role_dns := True\<rparr>"

lemma demo_starts: "first_failure demo_world demo_ctx dht_start = None"
  using init_crypto(2) [OF demo_crypto_ok] dht_init_started [OF dht_start_idle, of "engine_key demo_world" 5 0 "-1" 0 "Some (ascii ''P2NS'')" 1000]
  by (auto simp: first_failure_def db_fails_def peers_fail_def peers_of_def p2p_fails_def start_dht_def dns_fails_def
      unresolved_def demo_world_def demo_ctx_def zero_ctx_def demo_peer_def Let_def)

theorem init_reports_first_failure_witness:
  "(\<exists>ctx' s'. f4_init demo_world demo_ctx dht_start = Inr (True, ctx', s') \<and> dht_done_init ctx') \<and>
   (\<exists>ctx' s'. f4_init (demo_world\<lparr>w_listen := 0\<rparr>) demo_ctx dht_start = Inr (False, ctx', s') \<and>
      errno ctx' = F4_ERR_CANT_INIT_P2P)"
proof -
  have up: "services_up demo_world demo_ctx" "services_up (demo_world\<lparr>w_listen := 0\<rparr>) demo_ctx"
    using demo_crypto_ok
    by (simp_all add: services_up_def crypto_ok_def demo_world_def demo_ctx_def zero_ctx_def demo_peer_def)
  note good = demo_starts
  have bad: "first_failure (demo_world\<lparr>w_listen := 0\<rparr>) demo_ctx dht_start = Some F4_ERR_CANT_INIT_P2P"
    by (simp add: first_failure_def db_fails_def peers_fail_def peers_of_def p2p_fails_def unresolved_def
        demo_world_def demo_ctx_def zero_ctx_def Let_def)
  show ?thesis
    using init_reports_first_failure [OF up(1), of dht_start] init_reports_first_failure [OF up(2), of dht_start] good bad
    by auto
qed

section \<open>Shutdown\<close>

text \<open>What a context holds.\<close>

definition owned :: "f4_ctx \<Rightarrow> resource set" where
  "owned ctx =
     (case admin_ctx ctx of None \<Rightarrow> {} | Some a \<Rightarrow> insert R_Admin (if a_http a then {R_Http} else {})) \<union>
     (case dns_ctx ctx of None \<Rightarrow> {} | Some d \<Rightarrow> insert R_Dns ((if d_base d then {R_Dns_Base} else {}) \<union>
        (if d_server d then {R_Dns_Server} else {}))) \<union>
     {r. (r = R_Event \<or> r = R_Event_Memory) \<and> socket_p2p_dht_event ctx \<or> r = R_Dht \<and> dht_done_init ctx \<or> r = R_Curve \<and> cp ctx \<noteq> None \<or>
        r = R_Bootstraps \<and> bootstraps ctx \<noteq> [] \<or> r = R_Bootstrap_File \<and> bootstrap_file ctx \<noteq> None \<or>
        r = R_Db_File \<and> db_file ctx \<noteq> None \<or> r = R_Publish_File \<and> publish_file ctx \<noteq> None \<or>
        r = R_Publish_Db \<and> publish_db ctx \<or> r = R_Db \<and> db ctx \<or> r = R_Ops \<and> op_ctx ctx} \<union>
     R_Socket ` ({socket_p2p_app ctx, socket_p2p_dht ctx} - {-1})"

text \<open>\<^verbatim>\<open>f4_free\<close> releases nothing twice and, of what the context holds, everything but the pending
  operations, the DNS server with its context, the name of the publish database and the
  memory of the event.\<close>

theorem shutdown_leaks:
  assumes "socket_p2p_dht_event ctx = dht_done_init ctx" "socket_p2p_app ctx = -1 \<or> socket_p2p_app ctx \<noteq> socket_p2p_dht ctx"
  shows "distinct (fst (f4_free ctx s)) \<and>
    set (fst (f4_free ctx s)) = owned ctx - {R_Ops, R_Dns, R_Dns_Base, R_Dns_Server, R_Publish_File, R_Event_Memory}"
proof
  have opt: "set (if b then [x] else []) = {y. b \<and> y = x}" "distinct (if b then [x] else [])" for b and x :: resource
    by simp_all
  have admin: "set (case admin_ctx ctx of Some a \<Rightarrow> f4admin_free a | None \<Rightarrow> []) =
      (case admin_ctx ctx of None \<Rightarrow> {} | Some a \<Rightarrow> insert R_Admin (if a_http a then {R_Http} else {}))"
    "distinct (case admin_ctx ctx of Some a \<Rightarrow> f4admin_free a | None \<Rightarrow> [])"
    by (auto simp: f4admin_free_def split: option.splits)
  have event: "set (if dht_done_init ctx then [R_Event, R_Dht] else []) = {y. dht_done_init ctx \<and> (y = R_Event \<or> y = R_Dht)}"
    "distinct (if dht_done_init ctx then [R_Event, R_Dht] else [])" by auto
  show "distinct (fst (f4_free ctx s))"
    using assms(2) unfolding f4_free_def fst_conv distinct_append set_append admin(1) event(1) opt(1)
    by (auto simp: admin(2) event(2) opt(2) split: option.splits if_splits)
  show "set (fst (f4_free ctx s)) = owned ctx - {R_Ops, R_Dns, R_Dns_Base, R_Dns_Server, R_Publish_File, R_Event_Memory}"
  proof (rule set_eqI)
    fix r
    show "r \<in> set (fst (f4_free ctx s)) \<longleftrightarrow>
        r \<in> owned ctx - {R_Ops, R_Dns, R_Dns_Base, R_Dns_Server, R_Publish_File, R_Event_Memory}"
      using assms(1) unfolding f4_free_def fst_conv set_append admin(1) event(1) opt(1) owned_def
      by (cases r) (auto split: option.splits if_splits)
  qed
qed

theorem shutdown_leaks_witness:
  "set (fst (f4_free (demo_ctx\<lparr>op_ctx := True, dns_ctx := Some \<lparr>d_base = True, d_sock = 6, d_server = True\<rparr>\<rparr>) dht_start)) = {R_Db_File}"
  using shutdown_leaks [of "demo_ctx\<lparr>op_ctx := True, dns_ctx := Some \<lparr>d_base = True, d_sock = 6, d_server = True\<rparr>\<rparr>" dht_start]
  by (auto simp: owned_def demo_ctx_def zero_ctx_def)

end
