(* ===== verification/Dns_Props.thy ===== *)
theory Dns_Props
  imports Dns
begin

text \<open>
  The names the resolver takes, and what a request does to the node: it queues operations
  and starts searches, and is never answered.
\<close>

section \<open>Names\<close>

lemma dot_loop_end: "ch_dot \<notin> set b \<Longrightarrow> dot_loop a b = (a, b)"
  using strchr_None [of b ch_dot] by (subst dot_loop.simps) simp

lemma dot_loop_split:
  assumes "ch_dot \<notin> set lab" "ch_dot \<notin> set l" "pre = [] \<or> last pre = ch_dot"
  shows "dot_loop a (pre @ lab @ ch_dot # l) = (Some (lab @ ch_dot # l), l)"
  using assms(3)
proof (induction "length pre" arbitrary: pre a rule: less_induct)
  case less
  show ?case
  proof (cases "pre = []")
    case True
    have "strchr (lab @ ch_dot # l) ch_dot = Some (ch_dot # l)" using assms(1) by (rule strchr_append)
    then show ?thesis using True dot_loop_end [OF assms(2)] by (subst dot_loop.simps) simp
  next
    case False
    then have "ch_dot \<in> set pre" using less.prems last_in_set by metis
    then obtain p1 p2 where p: "pre = p1 @ ch_dot # p2" "ch_dot \<notin> set p1" by (meson split_list_first)
    have "p2 = [] \<or> last p2 = ch_dot" using less.prems p(1) by (cases "p2 = []") auto
    with less.hyps [of p2] p(1)
    have "dot_loop (Some (pre @ lab @ ch_dot # l)) (p2 @ lab @ ch_dot # l) = (Some (lab @ ch_dot # l), l)" by simp
    moreover have "strchr (pre @ lab @ ch_dot # l) ch_dot = Some (ch_dot # p2 @ lab @ ch_dot # l)"
      using strchr_append [OF p(2)] p(1) by simp
    ultimately show ?thesis by (subst dot_loop.simps) simp
  qed
qed

lemma last_label: "\<exists>pre lab. xs = pre @ lab \<and> c \<notin> set lab \<and> (pre = [] \<or> last pre = c)"
proof (induction xs rule: rev_induct)
  case (snoc x xs)
  then obtain pre lab where p: "xs = pre @ lab" "c \<notin> set lab" "pre = [] \<or> last pre = c" by blast
  show ?case
  proof (cases "x = c")
    case True
    then have "xs @ [x] = (xs @ [x]) @ [] \<and> c \<notin> set [] \<and> last (xs @ [x]) = c" by simp
    then show ?thesis by blast
  next
    case False
    then have "xs @ [x] = pre @ (lab @ [x]) \<and> c \<notin> set (lab @ [x])" using p by simp
    then show ?thesis using p(3) by blast
  qed
qed simp

lemma count_char_filter: "count_char s c = length (filter (\<lambda>x. x = c) s)"
  by (induction s) auto

lemma name_bytes: "ascii ''key'' = [107, 101, 121]" "ascii ''.key'' = ch_dot # ascii ''key''"
  by simp_all

lemma valid_eval:
  assumes "3 < length s" "hd s \<noteq> ch_dot" "s = pre @ lab @ ch_dot # l" "ch_dot \<notin> set lab" "ch_dot \<notin> set l"
    and "pre = [] \<or> last pre = ch_dot"
  shows "f4dns_is_valid s = Inr (l = ascii ''key'' \<and> length (filter (\<lambda>c. c \<noteq> ch_minus) lab) = 32)"
proof -
  have d: "dot_loop None s = (Some (lab @ ch_dot # l), l)" unfolding assms(3) by (rule dot_loop_split) fact+
  have c: "strchr (lab @ ch_dot # l) ch_dot = Some (ch_dot # l)" using assms(4) by (rule strchr_append)
  have n: "length (filter (\<lambda>c. c \<noteq> ch_minus) lab) + length (filter (\<lambda>c. c = ch_minus) lab) = length lab"
    using sum_length_filter_compl [of "\<lambda>c. c = ch_minus" lab] by simp
  let ?n = "int (length (lab @ ch_dot # l)) - int (length (ch_dot # l)) - int (count_char (lab @ ch_dot # l) ch_minus)"
  have v: "f4dns_is_valid s = (if l \<noteq> ascii ''key'' then Inr False else if ?n \<noteq> 32 then Inr False else Inr True)"
    using assms(1,2) d c
    by (cases "l = ascii ''key''") (simp_all del: ascii_Cons add: f4dns_is_valid_def Let_def)
  have "?n = int (length (filter (\<lambda>c. c \<noteq> ch_minus) lab))" if "l = ascii ''key''"
  proof -
    have "filter (\<lambda>c. c = ch_minus) l = []" unfolding that by simp
    then show ?thesis using n by (simp add: count_char_filter)
  qed
  then show ?thesis unfolding v by (simp del: ascii_Cons)
qed

text \<open>The last two labels: one of 32 characters, dashes not counted, and \<open>key\<close>.\<close>

definition key_name :: "byte list \<Rightarrow> bool" where
  "key_name s \<longleftrightarrow> (\<exists>pre lab. s = pre @ lab @ ascii ''.key'' \<and> ch_dot \<notin> set lab \<and>
     (pre = [] \<or> last pre = ch_dot) \<and> length (filter (\<lambda>c. c \<noteq> ch_minus) lab) = 32)"

lemma key_name_no_dot: "ch_dot \<notin> set s \<Longrightarrow> \<not> key_name s"
  unfolding key_name_def name_bytes(2) by auto

lemma key_name_dot:
  assumes "3 < length s" "hd s \<noteq> ch_dot" "ch_dot \<in> set s"
  shows "f4dns_is_valid s = Inr (key_name s)"
proof -
  have key: "ch_dot \<notin> set (ascii ''key'')" by simp
  obtain xs l where s: "s = xs @ ch_dot # l" "ch_dot \<notin> set l" using assms(3) by (meson split_list_last)
  obtain pre lab where x: "xs = pre @ lab" "ch_dot \<notin> set lab" "pre = [] \<or> last pre = ch_dot"
    using last_label [of xs ch_dot] by blast
  have v: "f4dns_is_valid s = Inr (l = ascii ''key'' \<and> length (filter (\<lambda>c. c \<noteq> ch_minus) lab) = 32)"
  proof (rule valid_eval [OF assms(1,2)])
    show "s = pre @ lab @ ch_dot # l" using s(1) x(1) by simp
  qed (rule x(2) s(2) x(3))+
  have "key_name s = (l = ascii ''key'' \<and> length (filter (\<lambda>c. c \<noteq> ch_minus) lab) = 32)"
  proof
    assume "key_name s"
    then obtain pre' lab' where p: "s = pre' @ lab' @ ch_dot # ascii ''key''" "ch_dot \<notin> set lab'"
        "pre' = [] \<or> last pre' = ch_dot" "length (filter (\<lambda>c. c \<noteq> ch_minus) lab') = 32"
      unfolding key_name_def name_bytes(2) by blast
    from valid_eval [OF assms(1,2) p(1,2) key p(3)] v p(4)
    show "l = ascii ''key'' \<and> length (filter (\<lambda>c. c \<noteq> ch_minus) lab) = 32"
      by (simp only: sum.inject simp_thms)
  next
    assume a: "l = ascii ''key'' \<and> length (filter (\<lambda>c. c \<noteq> ch_minus) lab) = 32"
    then have "s = pre @ lab @ ch_dot # ascii ''key''" using s(1) x(1) by (simp only: append_assoc)
    then show "key_name s" unfolding key_name_def name_bytes(2) using x(2,3) a by blast
  qed
  then show ?thesis unfolding v by simp
qed

lemma is_valid_name:
  "f4dns_is_valid s = (if length s \<le> 3 then Inl Assert_Fail else Inr (hd s \<noteq> ch_dot \<and> key_name s))"
proof -
  consider "length s \<le> 3" | "3 < length s" "hd s = ch_dot" | "3 < length s" "hd s \<noteq> ch_dot" "ch_dot \<notin> set s"
    | "3 < length s" "hd s \<noteq> ch_dot" "ch_dot \<in> set s" by linarith
  then show ?thesis
  proof cases
    case 3
    then have "f4dns_is_valid s = Inr False" using dot_loop_end [of s None] by (simp add: f4dns_is_valid_def)
    then show ?thesis using 3 key_name_no_dot [of s] by simp
  next
    case 4
    then show ?thesis using key_name_dot [of s] by simp
  qed (simp_all add: f4dns_is_valid_def)
qed

text \<open>C20. A name of more than three bytes is valid exactly if it does not start with a dot and its
  last two labels are one of 32 characters, dashes not counted, and \<open>key\<close>. A shorter name
  fails an assertion; no other assertion of the check can fail.\<close>

theorem valid_names:
  "f4dns_is_valid s = (if length s \<le> 3 then Inl Assert_Fail else Inr (hd s \<noteq> ch_dot \<and> key_name s))"
  by (rule is_valid_name)

section \<open>Requests\<close>

definition known_type :: "int \<Rightarrow> bool" where
  "known_type t \<longleftrightarrow> t \<in> {EVDNS_TYPE_A, EVDNS_TYPE_AAAA, EVDNS_TYPE_MX, EVDNS_TYPE_NS, EVDNS_TYPE_PTR,
     EVDNS_TYPE_SOA, EVDNS_TYPE_TXT}"

lemma known_type_name: "known_type t \<longleftrightarrow> (\<exists>n. type_name t = Inr n)"
  by (auto simp: known_type_def type_name_def)

text \<open>What a question asks the table of operations to hold: the value under the key.\<close>

definition q_key :: "services \<Rightarrow> question \<Rightarrow> byte list" where
  "q_key sv q = take 20 (sv_sha1 sv (hash_prefix @ q_name q @ [0]))"

definition q_value :: "services \<Rightarrow> addr \<Rightarrow> question \<Rightarrow> op_value" where
  "q_value sv req q = (case type_name (q_type q) of
     Inr n \<Rightarrow> (sv_strdup sv n, sv_strdup sv (q_name q), req) | Inl f \<Rightarrow> (None, None, 0))"

definition servable :: "question \<Rightarrow> bool" where
  "servable q \<longleftrightarrow> f4dns_is_valid (q_name q) = Inr True \<and> known_type (q_type q)"

definition services_ok :: "services \<Rightarrow> bool" where
  "services_ok sv \<longleftrightarrow> sv_opened sv \<and> (\<forall>x. length (sv_sha1 sv x) = 20)"

lemma bind_SomeE:
  assumes "Option.bind m f = Some y"
  obtains x where "m = Some x" "f x = Some y"
  using assms by (cases m) simp_all

lemma answer_question_ok:
  assumes "node_inv (r_dht s)" "ops_ok (r_ops s)" "req \<noteq> 0" "services_ok sv" "servable q"
  defines "d' \<equiv> snd (dht_search (q_key sv q) 0 AF_INET False (r_dht s))"
  shows "answer_question sv req q s =
      Inr (s\<lparr>r_ops := snd (ops_add (r_ops s) (q_key sv q) (q_value sv req q)), r_dht := d'\<rparr>) \<and>
    advances (r_dht s) d'"
proof -
  let ?k = "q_key sv q"
  obtain n where n: "type_name (q_type q) = Inr n" using assms(5) by (auto simp: servable_def known_type_name)
  have ne: "q_name q \<noteq> []" using assms(5) by (auto simp: servable_def is_valid_name)
  have k: "id_ok ?k" using assms(4) by (simp add: q_key_def services_ok_def)
  have h: "f4crypto_hash_fqdn (sv_sha1 sv) (sv_opened sv) (q_name q) 0 = Inr ?k"
    using assms(4) ne by (simp add: f4crypto_hash_fqdn_def q_key_def services_ok_def)
  define v where "v = (sv_strdup sv n, sv_strdup sv (q_name q), req)"
  have qv: "q_value sv req q = v" by (simp add: q_value_def n v_def)
  obtain r d where r: "queue_op ?k v (r_ops s) = Some (r, d)"
    by (rule exE [OF queue_op_ok [OF assms(2) k, of v]]) (elim exE conjE)
  obtain p d1 x d2 where o: "f4op_new F4OP_MODE_GET ?k (r_ops s) = Some (p, d1)" "op_at d1 p = Some x"
      "set_request req p (put_op p (x\<lparr>op_type := sv_strdup sv n, op_fqn := sv_strdup sv (q_name q)\<rparr>) d1) = Some d2"
      "f4op_add p d2 = Some (r, d)"
    using r assms(3) by (auto simp: queue_op_def v_def elim!: bind_SomeE)
  have x: "op_id x = ?k" "op_dns x = Some opget_dns_callback"
    using f4op_new_callbacks [OF o(1)] o(2) k by auto
  have a: "advances (r_dht s) d'" unfolding d'_def using assms(1) k by (intro advances_search) (simp_all add: family_ok_def)
  then have "died d' = None" by (simp add: advances_def node_inv_def core_ok_def)
  then have "answer_question sv req q s = Inr (s\<lparr>r_ops := d, r_dht := d'\<rparr>)"
    using o x unfolding d'_def by (simp add: answer_question_def run_dns_callback_def n h put_op_def Let_def)
  moreover have "snd (ops_add (r_ops s) ?k v) = d" by (simp add: ops_add_def r)
  ultimately show ?thesis using a qv by auto
qed

definition queued :: "services \<Rightarrow> addr \<Rightarrow> question list \<Rightarrow> (byte list \<times> op_value) list" where
  "queued sv req qs = map (\<lambda>q. (q_key sv q, q_value sv req q)) qs"

text \<open>The searches of a request: one for each question, without a callback.\<close>

definition start_searches :: "services \<Rightarrow> question list \<Rightarrow> dht \<Rightarrow> dht" where
  "start_searches sv qs d = fold (\<lambda>q d. snd (dht_search (q_key sv q) 0 AF_INET False d)) qs d"

lemma questions_ok:
  assumes "node_inv (r_dht s)" "ops_ok (r_ops s)" "req \<noteq> 0" "services_ok sv" "\<forall>q \<in> set qs. servable q"
  shows "\<exists>s'. (\<forall>rest. f4dns_cb_dnsserver sv req (qs @ rest) s = f4dns_cb_dnsserver sv req rest s') \<and>
    r_ops s' = fold (\<lambda>(k, v) d. snd (ops_add d k v)) (queued sv req qs) (r_ops s) \<and>
    advances (r_dht s) (r_dht s') \<and> r_dht s' = start_searches sv qs (r_dht s) \<and> r_responses s' = r_responses s"
  using assms(1,2,5)
proof (induction qs arbitrary: s)
  case Nil
  then show ?case by (intro exI [of _ s]) (simp add: queued_def start_searches_def advances_refl)
next
  case (Cons q qs)
  have q: "servable q" using Cons.prems(3) by simp
  have k: "id_ok (q_key sv q)" using assms(4) by (simp add: q_key_def services_ok_def)
  let ?d = "snd (ops_add (r_ops s) (q_key sv q) (q_value sv req q))"
  define d' where "d' = snd (dht_search (q_key sv q) 0 AF_INET False (r_dht s))"
  have d': "answer_question sv req q s = Inr (s\<lparr>r_ops := ?d, r_dht := d'\<rparr>)" "advances (r_dht s) d'"
    using answer_question_ok [OF Cons.prems(1,2) assms(3,4) q] by (simp_all add: d'_def)
  let ?s1 = "s\<lparr>r_ops := ?d, r_dht := d'\<rparr>"
  have p: "node_inv (r_dht ?s1)" "ops_ok (r_ops ?s1)" "\<forall>q \<in> set qs. servable q"
    using advances_inv [OF d'(2)] ops_add_ok(2) [OF Cons.prems(2) k] Cons.prems(3) by simp_all
  from Cons.IH [OF p]
  obtain s' where s': "\<forall>rest. f4dns_cb_dnsserver sv req (qs @ rest) ?s1 = f4dns_cb_dnsserver sv req rest s'"
      "r_ops s' = fold (\<lambda>(k, v) d. snd (ops_add d k v)) (queued sv req qs) (r_ops ?s1)"
      "advances (r_dht ?s1) (r_dht s')" "r_dht s' = start_searches sv qs (r_dht ?s1)" "r_responses s' = r_responses ?s1"
    by blast
  have v: "f4dns_is_valid (q_name q) = Inr True" using q by (simp add: servable_def)
  show ?case
  proof (intro exI [of _ s'] conjI)
    show "\<forall>rest. f4dns_cb_dnsserver sv req ((q # qs) @ rest) s = f4dns_cb_dnsserver sv req rest s'"
      using s'(1) d'(1) v by simp
    show "r_ops s' = fold (\<lambda>(k, v) d. snd (ops_add d k v)) (queued sv req (q # qs)) (r_ops s)"
      using s'(2) by (simp add: queued_def)
    show "advances (r_dht s) (r_dht s')" using advances_trans [OF d'(2)] s'(3) by simp
    show "r_dht s' = start_searches sv (q # qs) (r_dht s)" using s'(4) by (simp add: start_searches_def d'_def)
    show "r_responses s' = r_responses s" using s'(5) by simp
  qed
qed

lemma request_outcome:
  assumes "node_inv (r_dht s)" "ops_ok (r_ops s)" "req \<noteq> 0" "services_ok sv" "\<forall>q \<in> set qs. servable q"
  shows "\<exists>s'. (\<forall>rest. f4dns_cb_dnsserver sv req (qs @ rest) s = f4dns_cb_dnsserver sv req rest s') \<and>
    r_responses s' = r_responses s \<and> ops_ok (r_ops s') \<and> advances (r_dht s) (r_dht s') \<and>
    r_dht s' = start_searches sv qs (r_dht s) \<and>
    (\<forall>k. id_ok k \<longrightarrow> ops_find (r_ops s') k =
       (case ops_find (r_ops s) k of Some v \<Rightarrow> Some v | None \<Rightarrow> map_of (queued sv req qs) k))"
proof -
  obtain s' where s': "\<forall>rest. f4dns_cb_dnsserver sv req (qs @ rest) s = f4dns_cb_dnsserver sv req rest s'"
      "r_ops s' = fold (\<lambda>(k, v) d. snd (ops_add d k v)) (queued sv req qs) (r_ops s)"
      "advances (r_dht s) (r_dht s')" "r_dht s' = start_searches sv qs (r_dht s)" "r_responses s' = r_responses s"
    using questions_ok [OF assms] by blast
  have ks: "\<forall>p \<in> set (queued sv req qs). id_ok (fst p)"
    using assms(4) by (auto simp: queued_def q_key_def services_ok_def)
  have "ops_ok (r_ops s')" "id_ok k \<Longrightarrow> ops_find (r_ops s') k =
       (case ops_find (r_ops s) k of Some v \<Rightarrow> Some v | None \<Rightarrow> map_of (queued sv req qs) k)" for k
    using pending_ops.fold_add [OF assms(2) ks] by (simp_all add: s'(2))
  then show ?thesis using s' by blast
qed

text \<open>C9. A DNS request whose questions are valid and of a known type is never answered: no
  response is sent. The node starts one search for each question and learns of no node; of the operations it
  queues, the first one for each name is found under the name's hash, with the request,
  unless there was one before. At the first name that is not valid the request is told
  that it does not exist, and the remaining questions are dropped. Both invariants are kept.\<close>

theorem dns_request_effects:
  assumes "node_inv (r_dht s)" "ops_ok (r_ops s)" "req \<noteq> 0" "services_ok sv" "\<forall>q \<in> set qs. servable q"
  shows "\<exists>s'. f4dns_cb_dnsserver sv req qs s = Inr s' \<and> r_responses s' = r_responses s \<and>
    ops_ok (r_ops s') \<and> advances (r_dht s) (r_dht s') \<and> r_dht s' = start_searches sv qs (r_dht s) \<and>
    (\<forall>k. id_ok k \<longrightarrow> ops_find (r_ops s') k =
       (case ops_find (r_ops s) k of Some v \<Rightarrow> Some v | None \<Rightarrow> map_of (queued sv req qs) k)) \<and>
    (\<forall>b rest. f4dns_is_valid (q_name b) = Inr False \<longrightarrow> f4dns_cb_dnsserver sv req (qs @ b # rest) s =
       Inr (s'\<lparr>r_responses := r_responses s' @ [(req, DNS_ERR_NOTEXIST)]\<rparr>))"
proof -
  obtain s' where s': "\<forall>rest. f4dns_cb_dnsserver sv req (qs @ rest) s = f4dns_cb_dnsserver sv req rest s'"
      "r_responses s' = r_responses s \<and> ops_ok (r_ops s') \<and> advances (r_dht s) (r_dht s') \<and>
       r_dht s' = start_searches sv qs (r_dht s) \<and>
       (\<forall>k. id_ok k \<longrightarrow> ops_find (r_ops s') k =
         (case ops_find (r_ops s) k of Some v \<Rightarrow> Some v | None \<Rightarrow> map_of (queued sv req qs) k))"
    using request_outcome [OF assms] by blast
  then have "f4dns_cb_dnsserver sv req qs s = Inr s'" using s'(1) [rule_format, of "[]"] by simp
  moreover have "\<forall>b rest. f4dns_is_valid (q_name b) = Inr False \<longrightarrow> f4dns_cb_dnsserver sv req (qs @ b # rest) s =
       Inr (s'\<lparr>r_responses := r_responses s' @ [(req, DNS_ERR_NOTEXIST)]\<rparr>)" using s'(1) by simp
  ultimately show ?thesis using s'(2) by blast
qed

text \<open>A request for a valid name of type AAAA, and then for one that is not.\<close>

definition demo_question :: question where
  "demo_question = \<lparr>q_name = replicate 32 97 @ ascii ''.key'', q_type = EVDNS_TYPE_AAAA\<rparr>"

definition demo_services :: services where
  "demo_services = \<lparr>sv_sha1 = (\<lambda>_. zeroes), sv_opened = True, sv_strdup = Some\<rparr>"

lemma demo_question_servable: "servable demo_question"
proof -
  have "key_name (replicate 32 97 @ ascii ''.key'')"
    unfolding key_name_def
    by (rule exI [of _ "[]"], rule exI [of _ "replicate 32 97"]) (simp add: filter_replicate)
  then show ?thesis by (simp add: servable_def demo_question_def is_valid_name known_type_def)
qed

lemma demo_services_ok: "services_ok demo_services"
  by (simp add: services_ok_def demo_services_def zeroes_def)

lemma demo_queued: "queued demo_services 9 [demo_question] =
    [(zeroes, Some (ascii ''AAAA''), Some (replicate 32 97 @ ascii ''.key''), 9)]"
  by (simp del: ascii_Cons add: queued_def q_key_def q_value_def demo_services_def demo_question_def type_name_def
      EVDNS_TYPE_A_def EVDNS_TYPE_AAAA_def zeroes_def)

theorem dns_request_effects_witness:
  "\<exists>s'. f4dns_cb_dnsserver demo_services 9 [demo_question]
        \<lparr>r_ops = no_ops, r_dht = demo_searching, r_responses = []\<rparr> = Inr s' \<and> r_responses s' = [] \<and>
     ops_find (r_ops s') zeroes = Some (Some (ascii ''AAAA''), Some (replicate 32 97 @ ascii ''.key''), 9)"
proof -
  have z: "id_ok zeroes" by (simp add: zeroes_def)
  have "ops_find no_ops zeroes = None"
    using ops_find_None [OF no_ops_pending z] by simp
  then show ?thesis
    using dns_request_effects [of "\<lparr>r_ops = no_ops, r_dht = demo_searching, r_responses = []\<rparr>" 9 demo_services
        "[demo_question]"] demo_node_inv no_ops_ok demo_question_servable z demo_services_ok demo_queued
    by (auto simp del: ascii_Cons)
qed

end
