(* ===== verification/Dht_Inert.thy ===== *)
theory Dht_Inert
  imports Dht_Node
begin

text \<open>
  A node that knows nobody: each search it starts ends in the same call, without a node and
  without a word to the callback, and no run of \<open>dht_periodic\<close> tells of anything.
\<close>

definition inert :: "dht \<Rightarrow> bool" where
  "inert s \<longleftrightarrow> events s = [] \<and> (\<forall>sr \<in> set (searches s). sr_done sr \<and> sr_nodes sr = [])"

lemma inert_cong: "inert s \<Longrightarrow> events s' = events s \<Longrightarrow> set (searches s') \<subseteq> set (searches s) \<Longrightarrow> inert s'"
  by (auto simp: inert_def)

section \<open>Searches\<close>

text \<open>The state in which \<open>dht_search\<close> takes its first step.\<close>

lemma search_step_empty:
  assumes "k < length (searches s)" "sr_nodes (searches s ! k) = []" "sr_port (searches s ! k) = 0"
    and "events s = []" "\<forall>j < length (searches s). j \<noteq> k \<longrightarrow> sr_done (searches s ! j) \<and> sr_nodes (searches s ! j) = []"
  shows "inert (search_step k False s)"
proof -
  have "search_step k False s = search_done k False s" using assms(2,3) by (simp add: search_step_def Let_def)
  then show ?thesis
    using assms by (simp add: search_done_def upd_search_def inert_def all_set_conv_all_nth nth_list_update Let_def)
qed

lemma insert_empty_bucket: "b_nodes b = [] \<Longrightarrow> insert_search_bucket now b sr = sr"
  by (simp add: insert_search_bucket_def)

lemma nobody_known:
  assumes "\<forall>x. \<not> knows x s" "i < length (table af s)"
  shows "b_nodes (table af s ! i) = []"
proof (rule ccontr)
  assume "b_nodes (table af s ! i) \<noteq> []"
  then obtain n where "n \<in> set (b_nodes (table af s ! i))" by (meson list.set_sel(1))
  then have "id_in (n_id n) (table af s)" using assms(2) unfolding id_in_def in_table_def by force
  then show False using assms(1) by (auto simp: knows_def table_def split: if_splits)
qed

lemma fill_search_empty:
  assumes "\<forall>j < length (table af s). b_nodes (table af s ! j) = []" "i < length (table af s)"
    and "\<And>p. previous_bucket af i s = Some p \<Longrightarrow> p < length (table af s)"
    and "\<And>m. find_bucket (myid s) af s = Some m \<Longrightarrow> m < length (table af s)"
  shows "fill_search af i s sr = sr"
  using assms by (auto simp: fill_search_def insert_empty_bucket Let_def split: option.splits)

text \<open>The slot of a new search: one that is done, or a fresh one in front.\<close>

lemma new_search_slot:
  assumes "core_ok s" "new_search s = (slot, s')" "inert s"
  shows "table af s' = table af s \<and> myid s' = myid s \<and> events s' = [] \<and>
    (case slot of None \<Rightarrow> searches s' = searches s
     | Some k \<Rightarrow> k < length (searches s') \<and> (searches s' = searches s \<or> k = 0 \<and> searches s' = zero_search # searches s))"
proof -
  note sp = new_search_spec [OF assms(1,2), of af]
  have f: "frame AF_INET (s\<lparr>searches := searches s', numsearches := numsearches s'\<rparr>) s'" using sp by blast
  have "slot = Some k \<Longrightarrow> searches s' = searches s \<or> k = 0 \<and> searches s' = zero_search # searches s" for k
    using assms(2) by (auto simp: new_search_def calloc_def Let_def split: option.splits if_splits)
  moreover have o: "outside s' = outside (s\<lparr>searches := searches s', numsearches := numsearches s'\<rparr>)"
    using f by (simp only: frame_def)
  have "events s' = []" using outside_eq(15) [OF o] assms(3) by (simp add: inert_def)
  moreover have "myid s' = myid s" using outside_eq(1) [OF o] by simp
  ultimately show ?thesis using sp by (cases slot) simp_all
qed

lemma search_inert:
  assumes "node_inv s" "id_ok x" "family_ok af" "inert s" "\<forall>y. \<not> knows y s"
  shows "inert (snd (dht_search x 0 af False s))"
proof (cases "find_bucket x af s")
  case None
  then show ?thesis using assms(4) by (simp add: dht_search_def)
next
  case (Some i)
  have core: "core_ok s" using assms(1) by (simp add: node_inv_def)
  have ne: "table af s \<noteq> []" using Some by (auto simp: find_bucket_def)
  then have sh: "shape_ok (firsts (table af s))" using core_ok_table [OF core assms(3)] by (simp add: table_ok_def)
  have in_range: "id_ok y \<Longrightarrow> find_bucket y af s = Some m \<Longrightarrow> m < length (table af s)" for y m
    using find_bucket_range(1) [OF sh] ne by (auto simp: find_bucket_def)
  have me: "id_ok (myid s)" using core by (simp add: core_ok_def tables_ok_def)
  let ?old = "first_index (\<lambda>sr. sr_af sr = af \<and> id_cmp (sr_id sr) x = 0) (searches s)"
  define q where "q = (case ?old of
       Some k \<Rightarrow> (Some k, upd_search k (\<lambda>sr. again_loop (now_sec s) (sr\<lparr>sr_done := False\<rparr>) 0) s)
     | None \<Rightarrow>
         let (slot, s') = new_search s
         in case slot of
              None \<Rightarrow> (None, s')
            | Some k \<Rightarrow> (Some k, upd_search k (\<lambda>sr. sr\<lparr>sr_af := af, sr_tid := search_id s', sr_step_time := 0,
                            sr_id := x, sr_done := False, sr_nodes := []\<rparr>)
                          (s'\<lparr>search_id := search_id s' + 1\<rparr>)))"
  obtain slot s1 where q: "q = (slot, s1)" by fastforce
  have fin: "j < length (searches s) \<Longrightarrow> sr_done (searches s ! j) \<and> sr_nodes (searches s ! j) = []" for j
    using assms(4) by (simp add: inert_def)
  have inv: "table af s1 = table af s \<and> myid s1 = myid s \<and> events s1 = [] \<and>
    (case slot of None \<Rightarrow> inert s1 | Some k \<Rightarrow> k < length (searches s1) \<and> sr_nodes (searches s1 ! k) = [] \<and>
      (\<forall>j < length (searches s1). j \<noteq> k \<longrightarrow> sr_done (searches s1 ! j) \<and> sr_nodes (searches s1 ! j) = []))"
  proof (cases ?old)
    case (Some k)
    then have k: "k < length (searches s)" by (simp add: first_index_Some)
    have "again_loop (now_sec s) ((searches s ! k)\<lparr>sr_done := False\<rparr>) 0 = (searches s ! k)\<lparr>sr_done := False\<rparr>"
      using fin [OF k] by (simp add: again_loop.simps)
    then have "slot = Some k" "s1 = s\<lparr>searches := (searches s)[k := (searches s ! k)\<lparr>sr_done := False\<rparr>]\<rparr>"
      using q Some by (simp_all add: q_def upd_search_def)
    then show ?thesis using k fin assms(4) by (simp add: inert_def nth_list_update table_def)
  next
    case None
    obtain sl s' where n: "new_search s = (sl, s')" by fastforce
    note sp = new_search_slot [OF core n assms(4), of af]
    show ?thesis
    proof (cases sl)
      case N: None
      then show ?thesis using q None n sp assms(4) by (simp add: q_def inert_def)
    next
      case (Some k)
      have s1: "slot = Some k" "s1 = upd_search k (\<lambda>sr. sr\<lparr>sr_af := af, sr_tid := search_id s', sr_step_time := 0,
                            sr_id := x, sr_done := False, sr_nodes := []\<rparr>) (s'\<lparr>search_id := search_id s' + 1\<rparr>)"
        using q None n Some by (simp_all add: q_def)
      have k: "k < length (searches s')" using sp Some by simp
      have "sr_done (searches s' ! j) \<and> sr_nodes (searches s' ! j) = []" if "j < length (searches s')" "j \<noteq> k" for j
        using sp Some that fin by (cases j) auto
      moreover have "table af s1 = table af s'" by (simp add: s1(2) upd_search_def table_def)
      ultimately show ?thesis using s1 k sp by (simp add: upd_search_def nth_list_update)
    qed
  qed
  have run: "snd (dht_search x 0 af False s) = (case slot of
      None \<Rightarrow> s1
    | Some k \<Rightarrow> (search_step k False
        (upd_search k (\<lambda>sr. fill_search af i s1 (sr\<lparr>sr_port := 0\<rparr>)) s1))\<lparr>search_time := now_sec s\<rparr>)"
    using Some q unfolding dht_search_def q_def Let_def by (simp split: option.split)
  show ?thesis
  proof (cases slot)
    case None
    then show ?thesis using run inv by simp
  next
    case (Some k)
    have "fill_search af i s1 sr = sr" for sr
    proof (rule fill_search_empty)
      show "\<forall>j < length (table af s1). b_nodes (table af s1 ! j) = []"
        using inv nobody_known [OF assms(5)] by simp
      show "i < length (table af s1)" using in_range [OF assms(2) \<open>find_bucket x af s = Some i\<close>] inv by simp
      then show "\<And>p. previous_bucket af i s1 = Some p \<Longrightarrow> p < length (table af s1)"
        by (auto simp: previous_bucket_eq split: if_splits)
      show "\<And>m. find_bucket (myid s1) af s1 = Some m \<Longrightarrow> m < length (table af s1)"
      proof -
        fix m assume m: "find_bucket (myid s1) af s1 = Some m"
        have "table af s1 = table af s" "myid s1 = myid s" using inv by blast+
        then have "find_bucket (myid s) af s = Some m" using m by (simp only: find_bucket_def)
        from in_range [OF me this] show "m < length (table af s1)" using inv by simp
      qed
    qed
    then have "inert (search_step k False (upd_search k (\<lambda>sr. fill_search af i s1 (sr\<lparr>sr_port := 0\<rparr>)) s1))"
      using inv Some by (intro search_step_empty) (simp_all add: upd_search_def nth_list_update)
    then show ?thesis using run Some by (simp add: inert_def)
  qed
qed

section \<open>Runs of the DHT\<close>

lemma expire_buckets_events:
  assumes "node_inv u" "family_ok af"
  shows "events (expire_buckets af u) = events u"
proof -
  have "core_ok u" using assms(1) by (simp only: node_inv_def)
  from expire_buckets_table(1) [OF core_ok_table [OF this assms(2)]]
  have "outside (expire_buckets af u) = outside u" by (simp only: frame_def)
  then show ?thesis by (rule outside_eq(15))
qed

lemma expire_stuff_events:
  assumes "node_inv s"
  shows "events (expire_stuff s) = events s"
proof -
  have f: "family_ok AF_INET" "family_ok AF_INET6" by (simp_all add: family_ok_def)
  note b = expire_buckets_events
  have "events (expire_storage u) = events u" for u by (simp add: expire_storage_def case_prod_beta)
  moreover have "events (expire_searches u) = events u" for u by (simp add: expire_searches_def case_prod_beta)
  ultimately show ?thesis
    using b [OF assms f(1)] b [OF advances_inv [OF advances_expire_buckets [OF assms f(1)]] f(2)]
    by (simp only: expire_stuff_def)
qed

lemma housekeeping_events:
  assumes "node_inv s"
  shows "events (housekeeping s) = events s"
proof -
  define s1 where "s1 = (if rotate_secrets_time s \<le> now_sec s then rotate_secrets s else s)"
  have 1: "events s1 = events s" by (simp add: s1_def rotate_secrets_def random_def dht_random_bytes_def Let_def)
  have "node_inv s1" using assms advances_inv [OF advances_rotate(1) [OF assms]] by (simp add: s1_def)
  then have "events (if expire_stuff_time s1 \<le> now_sec s1 then expire_stuff s1 else s1) = events s1"
    using expire_stuff_events by simp
  then show ?thesis using 1 by (simp only: housekeeping_def Let_def s1_def)
qed

lemma run_searches_inert:
  assumes "inert s"
  shows "\<exists>t. run_searches callback s = s\<lparr>search_time := t\<rparr>"
proof -
  have d: "k < length (searches s) \<Longrightarrow> step_if_due callback k s = s" for k
    using assms by (simp add: step_if_due_def inert_def Let_def)
  have f: "\<forall>k \<in> set ks. k < length (searches s) \<Longrightarrow> fold (step_if_due callback) ks s = s" for ks
    by (induction ks) (simp_all add: d)
  have l: "\<forall>sr \<in> set srs. sr_done sr \<Longrightarrow> schedule_loop srs u = u" for srs u
    by (induction srs) simp_all
  have "fold (step_if_due callback) [0..<length (searches s)] s = s" by (rule f) simp
  moreover have "schedule_loop (searches s) (s\<lparr>search_time := 0\<rparr>) = s\<lparr>search_time := 0\<rparr>"
    using assms by (intro l) (simp add: inert_def)
  moreover have "s = s\<lparr>search_time := search_time s\<rparr>" by simp
  ultimately show ?thesis unfolding run_searches_def Let_def by (metis (full_types))
qed

lemma tick_inert:
  assumes "node_inv s" "inert s"
  shows "inert (tick callback s)"
proof -
  let ?h = "housekeeping s"
  note h = housekeeping_spec [OF assms(1)]
  have i: "inert ?h" using assms(2) housekeeping_events [OF assms(1)] h(5) by (rule inert_cong)
  obtain t where t: "run_searches callback ?h = ?h\<lparr>search_time := t\<rparr>" using run_searches_inert [OF i] by blast
  let ?r = "?h\<lparr>search_time := t\<rparr>"
  have n: "node_inv ?r" using advances_time(1) [OF advances_inv [OF h(1)]] by (rule advances_inv)
  then have c: "core_ok ?r" by (simp only: node_inv_def)
  have r: "inert ?r" using i by (simp add: inert_def)
  have sub: "set (searches (confirm_nodes ?r)) \<subseteq> set (searches ?r)" unfolding confirm_nodes_spec(3) [OF n] by (rule subset_refl)
  show ?thesis unfolding tick_housekeeping t using r confirm_nodes_events [OF c] sub by (rule inert_cong)
qed

lemma datagram_inert:
  assumes "node_inv s" "inert s" "family_ok (sa_family source)"
  shows "inert (handle_datagram h bytes source n s)"
proof -
  have d: "inert (die f s)" for f using assms(2) by (simp add: die_def inert_def)
  have b: "inert (broken_node (Some x) source s)" if "id_ok x" for x
  proof -
    have core: "core_ok s" using assms(1) by (simp add: node_inv_def)
    let ?s1 = "mark_broken x (sa_family source) s"
    have q: "quiet s ?s1" using mark_broken_spec(1) [OF core assms(3) that] .
    have e: "events ?s1 = events s" using q by (simp only: quiet_def)
    have m: "searches ?s1 = searches s" by (simp add: mark_broken_def split: option.split)
    have "sr_nodes sr = [] \<Longrightarrow> sr_done (without x sr) = sr_done sr \<and> sr_nodes (without x sr) = []" for sr
      by (simp add: without_def)
    then show ?thesis
      using broken_node_eq [OF core that assms(3)] e m assms(2) by (simp add: Let_def inert_def)
  qed
  have t: "inert (snd (token_bucket s))" using assms(2) by (simp add: token_bucket_def inert_def Let_def die_def)
  have "handle_datagram h bytes source n s = s \<or> (\<exists>f. handle_datagram h bytes source n s = die f s) \<or>
      handle_datagram h bytes source n s = snd (token_bucket s) \<or>
      (\<exists>x. id_ok x \<and> handle_datagram h bytes source n s = broken_node (Some x) source s)"
    using datagram_outcomes [of h bytes source n s] unfolding Let_def by blast
  then show ?thesis
  proof (elim disjE exE conjE)
    fix f assume e: "handle_datagram h bytes source n s = die f s"
    show ?thesis unfolding e by (rule d)
  next
    fix x assume x: "id_ok x" and e: "handle_datagram h bytes source n s = broken_node (Some x) source s"
    show ?thesis unfolding e using x by (rule b)
  next
    assume e: "handle_datagram h bytes source n s = s"
    show ?thesis unfolding e by (rule assms(2))
  next
    assume e: "handle_datagram h bytes source n s = snd (token_bucket s)"
    show ?thesis unfolding e by (rule t)
  qed
qed

lemma periodic_inert:
  assumes "node_inv s" "inert s" "input_ok inp" "dht_periodic inp callback s = (rc, t, s')" "died s' = None"
  shows "inert s'"
  using assms(1,3,4)
proof (cases rule: periodic_cases)
  case 2
  then show ?thesis using assms(2) by (simp add: inert_def)
next
  case (3 s1)
  have i0: "node_inv (s\<lparr>now_sec := in_now inp\<rparr>)" using advances_time(3) [OF assms(1)] by (rule advances_inv)
  have e0: "inert (s\<lparr>now_sec := in_now inp\<rparr>)" using assms(2) by (simp add: inert_def)
  have "inert s1" using 3(5) e0 datagram_inert [OF i0 e0] by blast
  then show ?thesis unfolding 3(2) by (rule tick_inert [OF advances_inv [OF 3(1)]])
qed (use assms(5) in simp)

lemma ping_inert: "node_inv s \<Longrightarrow> salen \<noteq> 0 \<Longrightarrow> inert s \<Longrightarrow> inert (snd (dht_ping_node sa salen s))"
  by (auto simp: dht_ping_node_def send_ping_def send_or_fail_def dht_send_def inert_def Let_def split: option.splits)

lemma init_inert:
  assumes "idle s" "id_ok me" "0 \<le> fst (dht_init sock sock6 me v nb nb6 now s)" "events s = []"
  shows "inert (snd (dht_init sock sock6 me v nb nb6 now s))"
proof -
  let ?p = "init_state sock sock6 me v now s"
  let ?q = "expire_buckets AF_INET ?p"
  have f: "family_ok AF_INET" "family_ok AF_INET6" by (simp_all add: family_ok_def)
  note i = init_state_inv [OF assms(1,2), where sock = sock and ?sock6.0 = sock6 and v = v and now = now]
  have q: "node_inv ?q" using advances_expire_buckets [OF i(1) f(1)] by (rule advances_inv)
  have "events (init_statics a b c d e u) = events u" for a b c d e u
    unfolding init_statics_def rotate_secrets_def random_def dht_random_bytes_def Let_def by (cases d) simp_all
  moreover have "events (init_tables a b s) = events s" for a b
    unfolding init_tables_def Let_def calloc_def set_table_def by simp
  ultimately have "events ?p = []" using assms(4) by (simp add: init_state_def)
  then have "events (expire_buckets AF_INET6 ?q) = []"
    using expire_buckets_events [OF i(1) f(1)] expire_buckets_events [OF q f(2)] by simp
  moreover have "searches (snd (dht_init sock sock6 me v nb nb6 now s)) = []"
    using dht_init_successful [OF assms(1-3)] by (simp add: case_prod_beta)
  ultimately show ?thesis unfolding inert_def dht_init_result [OF assms(1,3)] by simp
qed

end
