(* ===== verification/Process.thy ===== *)
theory Process
  imports Engine_Props Dns_Props Dht_Inert
begin

text \<open>
  The running process: the events of the DHT and the DNS requests that libevent hands to it
  after a successful start, in any order, and what the process does over such a run.
\<close>

section \<open>Steps\<close>

text \<open>A step is a callback that returns; one that ends the process has no successor.\<close>

datatype happening = On_Dht int input | On_Request addr "question list"

inductive process_step :: "services \<Rightarrow> resolver \<Rightarrow> happening \<Rightarrow> resolver \<Rightarrow> bool" for sv where
  on_dht: "input_ok inp \<Longrightarrow> f4_cb_dht_read event inp s = Inr s' \<Longrightarrow> process_step sv s (On_Dht event inp) s'"
| on_request: "req \<noteq> 0 \<Longrightarrow> f4dns_cb_dnsserver sv req qs s = Inr s' \<Longrightarrow> process_step sv s (On_Request req qs) s'"

inductive_cases on_dhtE: "process_step sv s (On_Dht event inp) s'"
inductive_cases on_requestE: "process_step sv s (On_Request req qs) s'"

section \<open>The specification\<close>

text \<open>
  What a run amounts to: the questions of a request up to the first name that is not valid
  are asked, and a request with such a name is refused.
\<close>

definition valid_name :: "question \<Rightarrow> bool" where
  "valid_name q \<longleftrightarrow> f4dns_is_valid (q_name q) = Inr True"

fun asked :: "services \<Rightarrow> happening \<Rightarrow> (byte list \<times> op_value) list" where
  "asked sv (On_Dht event inp) = []"
| "asked sv (On_Request req qs) = queued sv req (takeWhile valid_name qs)"

fun refused :: "happening \<Rightarrow> (addr \<times> int) list" where
  "refused (On_Dht event inp) = []"
| "refused (On_Request req qs) = (if \<forall>q \<in> set qs. valid_name q then [] else [(req, DNS_ERR_NOTEXIST)])"

definition all_asked :: "services \<Rightarrow> happening list \<Rightarrow> (byte list \<times> op_value) list" where
  "all_asked sv as = concat (map (asked sv) as)"

definition all_refused :: "happening list \<Rightarrow> (addr \<times> int) list" where
  "all_refused as = concat (map refused as)"

lemma all_asked_simps [simp]: "all_asked sv [] = []" "all_asked sv (as @ [a]) = all_asked sv as @ asked sv a"
  by (simp_all add: all_asked_def)

lemma all_refused_simps [simp]: "all_refused [] = []" "all_refused (as @ [a]) = all_refused as @ refused a"
  by (simp_all add: all_refused_def)

section \<open>Single steps\<close>

lemma event_step:
  assumes "node_inv (r_dht s)" "inert (r_dht s)" "input_ok inp" "f4_cb_dht_read event inp s = Inr s'"
  shows "\<exists>d. s' = s\<lparr>r_dht := d\<rparr> \<and> advances (r_dht s) d \<and> inert d"
proof -
  obtain rc t d where p: "dht_periodic (inp\<lparr>in_available := (event = EV_READ)\<rparr>) True (r_dht s) = (rc, t, d)"
    by (metis prod.exhaust)
  have i: "input_ok (inp\<lparr>in_available := (event = EV_READ)\<rparr>)" using assms(3) by (simp add: input_ok_def)
  have "s' = s\<lparr>r_dht := d\<rparr> \<and> died d = None"
    using assms(4) p
    by (cases "tell_events (drop (length (events (r_dht s))) (events d)) (r_ops s)"; cases "died d")
      (simp_all add: f4_cb_dht_read_def)
  then show ?thesis using advances_periodic [OF assms(1) i p] periodic_inert [OF assms(1,2) i p] by blast
qed

lemma returns_known:
  "f4dns_cb_dnsserver sv req qs s = Inr s' \<Longrightarrow> \<forall>q \<in> set (takeWhile valid_name qs). servable q"
proof (induction qs arbitrary: s)
  case (Cons q qs)
  show ?case
  proof (cases "valid_name q")
    case True
    then have v: "f4dns_is_valid (q_name q) = Inr True" by (simp add: valid_name_def)
    obtain s1 where s1: "answer_question sv req q s = Inr s1" "f4dns_cb_dnsserver sv req qs s1 = Inr s'"
      using Cons.prems v by (cases "answer_question sv req q s") simp_all
    have "\<exists>n. type_name (q_type q) = Inr n"
      using s1(1) by (cases "type_name (q_type q)") (simp_all add: answer_question_def)
    then have "servable q" using v by (simp add: servable_def known_type_name)
    then show ?thesis using Cons.IH [OF s1(2)] by auto
  qed simp
qed simp

lemma searches_inert:
  assumes "node_inv d" "inert d" "\<forall>x. \<not> knows x d" "services_ok sv"
  shows "inert (start_searches sv qs d)"
  using assms(1-3)
proof (induction qs arbitrary: d)
  case (Cons q qs)
  have k: "id_ok (q_key sv q)" using assms(4) by (simp add: q_key_def services_ok_def)
  have f: "family_ok AF_INET" by (simp add: family_ok_def)
  let ?d = "snd (dht_search (q_key sv q) 0 AF_INET False d)"
  have a: "advances d ?d" using Cons.prems(1) k f by (rule advances_search)
  have "inert ?d" using Cons.prems(1) k f Cons.prems(2,3) by (rule search_inert)
  moreover have "\<forall>x. \<not> knows x ?d" using a Cons.prems(3) by (simp add: advances_def)
  ultimately show ?case using Cons.IH [OF advances_inv [OF a]] by (simp add: start_searches_def)
qed (simp add: start_searches_def)

lemma takeWhile_split: "qs = takeWhile P qs \<or> (\<exists>b rest. qs = takeWhile P qs @ b # rest \<and> \<not> P b)"
proof (induction qs)
  case (Cons q qs)
  then show ?case by (cases "P q") (auto simp only: takeWhile.simps if_True if_False append_Cons append_Nil)
qed simp

lemma request_step:
  assumes "node_inv (r_dht s)" "ops_ok (r_ops s)" "req \<noteq> 0" "services_ok sv"
    and "f4dns_cb_dnsserver sv req qs s = Inr s'"
  shows "r_responses s' = r_responses s @ refused (On_Request req qs)" "ops_ok (r_ops s')"
    "advances (r_dht s) (r_dht s')" "r_dht s' = start_searches sv (takeWhile valid_name qs) (r_dht s)"
    "id_ok k \<Longrightarrow> ops_find (r_ops s') k =
       (case ops_find (r_ops s) k of Some v \<Rightarrow> Some v | None \<Rightarrow> map_of (asked sv (On_Request req qs)) k)"
proof -
  let ?qs = "takeWhile valid_name qs"
  obtain s1 where s1: "\<forall>rest. f4dns_cb_dnsserver sv req (?qs @ rest) s = f4dns_cb_dnsserver sv req rest s1"
      "r_responses s1 = r_responses s" "ops_ok (r_ops s1)" "advances (r_dht s) (r_dht s1)"
      "r_dht s1 = start_searches sv ?qs (r_dht s)"
      "\<forall>k. id_ok k \<longrightarrow> ops_find (r_ops s1) k =
         (case ops_find (r_ops s) k of Some v \<Rightarrow> Some v | None \<Rightarrow> map_of (queued sv req ?qs) k)"
    using request_outcome [OF assms(1-4) returns_known [OF assms(5)]] by blast
  have "r_responses s' = r_responses s @ refused (On_Request req qs) \<and> r_ops s' = r_ops s1 \<and> r_dht s' = r_dht s1"
    using takeWhile_split [of qs valid_name]
  proof
    assume q: "qs = ?qs"
    then have "\<forall>q \<in> set qs. valid_name q" by (metis set_takeWhileD)
    moreover have "s' = s1" using s1(1) [rule_format, of "[]"] assms(5) q by simp
    ultimately show ?thesis using s1(2) by simp
  next
    assume "\<exists>b rest. qs = ?qs @ b # rest \<and> \<not> valid_name b"
    then obtain b rest where q: "qs = ?qs @ b # rest" "\<not> valid_name b" by blast
    then have r: "f4dns_cb_dnsserver sv req (b # rest) s1 = Inr s'"
      using s1(1) [rule_format, of "b # rest"] assms(5) by simp
    have "b \<in> set qs" using arg_cong [OF q(1), of set] by simp
    then have n: "refused (On_Request req qs) = [(req, DNS_ERR_NOTEXIST)]" using q(2) by auto
    have "f4dns_is_valid (q_name b) = Inr False"
      using r q(2) by (cases "f4dns_is_valid (q_name b)") (simp_all add: valid_name_def)
    then show ?thesis using r n s1(2) by auto
  qed
  then show "r_responses s' = r_responses s @ refused (On_Request req qs)" "ops_ok (r_ops s')"
    "advances (r_dht s) (r_dht s')" "r_dht s' = start_searches sv (takeWhile valid_name qs) (r_dht s)"
    "id_ok k \<Longrightarrow> ops_find (r_ops s') k =
       (case ops_find (r_ops s) k of Some v \<Rightarrow> Some v | None \<Rightarrow> map_of (asked sv (On_Request req qs)) k)"
    using s1(3-6) unfolding asked.simps by simp_all
qed

section \<open>Runs\<close>

text \<open>The invariant, which looks at what has happened.\<close>

definition process_inv :: "services \<Rightarrow> happening list \<Rightarrow> resolver \<Rightarrow> bool" where
  "process_inv sv as s \<longleftrightarrow> services_ok sv \<and> node_inv (r_dht s) \<and> ops_ok (r_ops s) \<and>
     inert (r_dht s) \<and> (\<forall>x. \<not> knows x (r_dht s)) \<and> storages (r_dht s) = [] \<and> r_responses s = all_refused as \<and>
     (\<forall>k. id_ok k \<longrightarrow> ops_find (r_ops s) k = map_of (all_asked sv as) k)"

interpretation process: invariant_machine "process_step sv" "process_inv sv" for sv
proof
  fix as s a s'
  assume inv: "process_inv sv as s" and step: "process_step sv s a s'"
  note i = inv [unfolded process_inv_def]
  show "process_inv sv (as @ [a]) s'"
    using step
  proof (cases rule: process_step.cases)
    case (on_dht inp event)
    then obtain d where "s' = s\<lparr>r_dht := d\<rparr>" "advances (r_dht s) d" "inert d" using event_step i by blast
    then show ?thesis using i on_dht(1) by (simp add: process_inv_def advances_def)
  next
    case (on_request req qs)
    have n: "node_inv (r_dht s)" "ops_ok (r_ops s)" "services_ok sv" using i by simp_all
    note r = request_step [OF n(1,2) on_request(2) n(3) on_request(3), folded on_request(1)]
    have "ops_find (r_ops s') k = map_of (all_asked sv (as @ [a])) k" if "id_ok k" for k
      using r(5) [OF that] i that by (auto simp: map_add_def split: option.split)
    moreover have "inert (r_dht s')" unfolding r(4) using i by (intro searches_inert) simp_all
    ultimately show ?thesis using i r(1-3) by (simp add: process_inv_def advances_def)
  qed
qed

section \<open>From the start on\<close>

text \<open>What the libraries are documented to return: addresses have a size.\<close>

definition libraries_ok :: "world \<Rightarrow> bool" where
  "libraries_ok w \<longleftrightarrow>
     (\<forall>h p as. w_getaddrinfo w h p = Some as \<longrightarrow> (\<forall>a \<in> set as. snd a \<noteq> 0))"

text \<open>
  The process after \<^verbatim>\<open>f4_init\<close> and \<^verbatim>\<open>f4_start\<close>: \<open>d\<close> is the memory for operations, with whatever
  lies in it before \<^verbatim>\<open>f4op_new_ctx\<close>, and \<open>s0\<close> the statics of the DHT before the start. They have
  no socket and no table (\<open>idle\<close>), and no event has been reported; the rest of them, and the
  environment (random numbers, allocation, what \<^verbatim>\<open>sendto\<close> returns, the size of the stack), is
  arbitrary. \<open>dht_start\<close> is one such state.
\<close>

definition fresh :: "dht \<Rightarrow> bool" where
  "fresh s0 \<longleftrightarrow> idle s0 \<and> events s0 = []"

definition booted :: "world \<Rightarrow> f4_ctx \<Rightarrow> f4ops \<Rightarrow> dht \<Rightarrow> resolver \<Rightarrow> bool" where
  "booted w ctx d s0 s \<longleftrightarrow> (\<exists>ctx' s1 d'. f4_init w ctx s0 = Inr (True, ctx', s1) \<and>
     f4op_new_ctx (w_calloc w) d = Some d' \<and>
     s = \<lparr>r_ops = d', r_dht = snd (f4_start ctx' s1), r_responses = []\<rparr>)"

definition memory_ok :: "f4ops \<Rightarrow> bool" where
  "memory_ok d \<longleftrightarrow> finite {p. allocated d p} \<and>
     (\<forall>A. finite {p. A p} \<longrightarrow> malloc d A \<noteq> 0 \<and> \<not> A (malloc d A))"

lemma new_ctx_empty:
  assumes "memory_ok d" "f4op_new_ctx ok d = Some d'"
  shows "ops_ok d'" "id_ok k \<Longrightarrow> ops_find d' k = None"
proof -
  have d': "d' = d\<lparr>tree := (tree d)\<lparr>root := 0\<rparr>\<rparr>" using assms(2) by (simp add: f4op_new_ctx_def split: if_splits)
  have p: "pending d' Leaf" by (simp add: d' pending_def holds_def keyed_def)
  then show "ops_ok d'" using assms(1) by (auto simp: ops_ok_def memory_ok_def d' allocated_def)
  show "id_ok k \<Longrightarrow> ops_find d' k = None" using ops_find_None [OF p] by simp
qed

lemma pings_advance:
  assumes "node_inv s" "inert s" "\<forall>a \<in> set as. snd a \<noteq> 0"
  shows "advances s (fold (\<lambda>(sa, n) s. snd (dht_ping_node sa n s)) as s) \<and>
    inert (fold (\<lambda>(sa, n) s. snd (dht_ping_node sa n s)) as s)"
  using assms
proof (induction as arbitrary: s)
  case (Cons a as)
  obtain sa n where a: "a = (sa, n)" by (cases a)
  have n: "n \<noteq> 0" using Cons.prems(3) a by simp
  have p: "advances s (snd (dht_ping_node sa n s))" using Cons.prems(1) n by (rule advances_ping)
  have "inert (snd (dht_ping_node sa n s))" using Cons.prems(1) n Cons.prems(2) by (rule ping_inert)
  then show ?case using Cons.IH [OF advances_inv [OF p]] advances_trans [OF p] Cons.prems(3) a by simp
qed (simp add: advances_refl)

lemma booted_inv:
  assumes "services_up w ctx" "libraries_ok w" "\<forall>a \<in> set (bootstraps ctx). snd a \<noteq> 0" "memory_ok d" "services_ok sv"
    and "fresh s0" "booted w ctx d s0 s"
  shows "process_inv sv [] s"
proof -
  obtain ctx' s1 d' where b: "f4_init w ctx s0 = Inr (True, ctx', s1)" "f4op_new_ctx (w_calloc w) d = Some d'"
      "s = \<lparr>r_ops = d', r_dht = snd (f4_start ctx' s1), r_responses = []\<rparr>"
    using assms(7) by (auto simp: booted_def)
  have f: "first_failure w ctx s0 = None" "s1 = snd (start_dht w ctx s0)"
      "\<exists>ps. bootstraps ctx' = bootstraps ctx @ peer_addresses w ps"
    using init_outcome [OF assms(1), of s0] b(1) by auto
  then have r: "0 \<le> fst (start_dht w ctx s0)"
    by (auto simp: first_failure_def p2p_fails_def Let_def split: if_splits)
  have s0: "idle s0" "events s0 = []" using assms(6) by (simp_all add: fresh_def)
  have k: "id_ok (engine_key w)" using assms(1) init_crypto(2) by (simp add: services_up_def)
  have i: "node_inv s1 \<and> inert s1 \<and> storages s1 = [] \<and> (\<forall>x. \<not> knows x s1)"
    using init_inert [OF s0(1) k r [unfolded start_dht_def Let_def] s0(2)]
      dht_init_successful [OF s0(1) k r [unfolded start_dht_def Let_def]]
    unfolding f(2) start_dht_def Let_def by (simp add: case_prod_beta del: ascii_Cons)
  have "\<forall>a \<in> set (peer_addresses w ps). snd a \<noteq> 0" for ps
    using assms(2) by (force simp: peer_addresses_def libraries_ok_def split: option.splits)
  then have "\<forall>a \<in> set (bootstraps ctx'). snd a \<noteq> 0" using assms(3) f(3) by (metis Un_iff set_append)
  then have "advances s1 (snd (f4_start ctx' s1)) \<and> inert (snd (f4_start ctx' s1))"
    unfolding f4_start_def snd_conv using i by (intro pings_advance) simp_all
  then show ?thesis using i assms(5) new_ctx_empty [OF assms(4) b(2)] b(3) by (simp add: process_inv_def advances_def)
qed

text \<open>The demonstration world starts the program.\<close>

lemma demo_world_up: "services_up demo_world demo_ctx"
  using demo_crypto_ok by (simp add: services_up_def crypto_ok_def demo_world_def demo_ctx_def zero_ctx_def demo_peer_def)

lemma demo_libraries_ok: "libraries_ok demo_world"
  by (simp add: libraries_ok_def demo_world_def)

lemma demo_bootstraps: "\<forall>a \<in> set (bootstraps demo_ctx). snd a \<noteq> 0"
  by (simp add: demo_ctx_def zero_ctx_def)

lemma no_ops_memory: "memory_ok no_ops"
  using no_ops_ok unfolding memory_ok_def ops_ok_def by blast

text \<open>A start with random numbers that differ and a network to which nothing can be sent.\<close>

definition rough_start :: dht where
  "rough_start = dht_start\<lparr>env_random := (\<lambda>k. 7 * k + 3), env_entropy := of_nat, env_sendto := (\<lambda>_ _. -1)\<rparr>"

lemma rough_idle: "idle rough_start" "env_ok rough_start"
  using dht_start_idle by (simp_all add: rough_start_def idle_def guard_ok_def env_ok_def)

lemma demo_fresh: "fresh rough_start"
  using rough_idle by (simp add: fresh_def rough_start_def dht_start_def)

lemma rough_starts: "first_failure demo_world demo_ctx rough_start = None"
  using init_crypto(2) [OF demo_crypto_ok]
    dht_init_started [OF rough_idle, of "engine_key demo_world" 5 0 "-1" 0 "Some (ascii ''P2NS'')" 1000]
  by (auto simp: first_failure_def db_fails_def peers_fail_def peers_of_def p2p_fails_def start_dht_def dns_fails_def
      unresolved_def demo_world_def demo_ctx_def zero_ctx_def demo_peer_def Let_def)

lemma demo_booted: "\<exists>s. booted demo_world demo_ctx no_ops rough_start s"
  using init_outcome [OF demo_world_up, of rough_start] rough_starts
  by (auto simp: booted_def f4op_new_ctx_def demo_world_def)

text \<open>C4. The program from its start on refines this specification: whatever the random numbers, the
  allocator and \<^verbatim>\<open>sendto\<close> of the DHT return, and whatever datagrams and DNS requests arrive, in any order, as long as the process lives the table of pending operations holds,
  for each name, the first question asked for it, and the responses sent are exactly the
  refusals of the requests with a name that is not valid. The node never learns of another
  node, stores nothing, and no search ever reports an event: a valid question stays pending
  for ever.\<close>

theorem process_refines_specification:
  assumes "services_up w ctx" "libraries_ok w" "\<forall>a \<in> set (bootstraps ctx). snd a \<noteq> 0" "memory_ok d" "services_ok sv"
    and "fresh s0" "booted w ctx d s0 s" "runs (process_step sv) s as s'"
  shows "r_responses s' = all_refused as \<and>
    (\<forall>k. id_ok k \<longrightarrow> ops_find (r_ops s') k = map_of (all_asked sv as) k) \<and> ops_ok (r_ops s') \<and>
    node_inv (r_dht s') \<and> events (r_dht s') = [] \<and> storages (r_dht s') = [] \<and>
    (\<forall>af x. \<not> id_in x (table af (r_dht s')))"
proof -
  have "process_inv sv as s'" using assms(8) booted_inv [OF assms(1-7)] by (rule process.runs_inv)
  then show ?thesis by (auto simp: process_inv_def inert_def knows_def table_def)
qed

theorem process_refines_specification_witness:
  "\<exists>s s'. booted demo_world demo_ctx no_ops rough_start s \<and> runs (process_step demo_services) s [On_Request 9 [demo_question]] s' \<and>
     r_responses s' = [] \<and> events (r_dht s') = [] \<and>
     ops_find (r_ops s') zeroes = Some (Some (ascii ''AAAA''), Some (replicate 32 97 @ ascii ''.key''), 9)"
proof -
  note a = demo_world_up demo_libraries_ok demo_bootstraps no_ops_memory demo_services_ok demo_fresh
  obtain s where b: "booted demo_world demo_ctx no_ops rough_start s" using demo_booted by blast
  have i: "process_inv demo_services [] s" using a b by (rule booted_inv)
  then obtain s' where s': "f4dns_cb_dnsserver demo_services 9 [demo_question] s = Inr s'"
    using request_outcome [of s 9 demo_services "[demo_question]"] demo_question_servable
    by (force simp: process_inv_def)
  have r: "runs (process_step demo_services) s [On_Request 9 [demo_question]] s'"
    using runs_more [where step = "process_step demo_services", OF runs_none on_request [OF _ s']] by simp
  have v: "valid_name demo_question" using demo_question_servable by (simp add: valid_name_def servable_def)
  have "all_asked demo_services [On_Request 9 [demo_question]] =
      [(zeroes, Some (ascii ''AAAA''), Some (replicate 32 97 @ ascii ''.key''), 9)]"
    using v by (simp del: ascii_Cons add: all_asked_def demo_queued)
  moreover have "all_refused [On_Request 9 [demo_question]] = []" using v by (simp add: all_refused_def)
  moreover have "id_ok zeroes" by (simp add: zeroes_def)
  ultimately show ?thesis
    using process_refines_specification [OF a b r] b r
    by (intro exI [of _ s] exI [of _ s'] conjI) (simp_all del: ascii_Cons)
qed

end
