(* ===== verification/Seccure_Streams.thy ===== *)
theory Seccure_Streams
  imports Aes256ctr
begin

text \<open>
  The stream loops of \<^verbatim>\<open>seccure/seccure.c\<close>: reading and writing whole blocks, and the loops that
  encrypt, decrypt or copy a stream while hashing it. A file descriptor is its data and what
  its next reads or writes do: \<open>Some k\<close> moves at most \<open>k + 1\<close> bytes, \<open>None\<close> fails; once the list
  is used up they move all they are asked for.
\<close>

section \<open>Files\<close>

record source =
  s_data :: "byte list"
  s_reads :: "nat option list"

record sink =
  k_data :: "byte list"
  k_writes :: "nat option list"

definition rd :: "nat \<Rightarrow> source \<Rightarrow> byte list option \<times> source" where
  "rd n s =
     (case s_reads s of
        [] \<Rightarrow> (Some (take n (s_data s)), s\<lparr>s_data := drop n (s_data s)\<rparr>)
      | None # rs \<Rightarrow> (None, s\<lparr>s_reads := rs\<rparr>)
      | Some k # rs \<Rightarrow>
          (Some (take (min n (Suc k)) (s_data s)), s\<lparr>s_data := drop (min n (Suc k)) (s_data s), s_reads := rs\<rparr>))"

definition wr :: "byte list \<Rightarrow> sink \<Rightarrow> nat option \<times> sink" where
  "wr bs s =
     (case k_writes s of
        [] \<Rightarrow> (Some (length bs), s\<lparr>k_data := k_data s @ bs\<rparr>)
      | None # rs \<Rightarrow> (None, s\<lparr>k_writes := rs\<rparr>)
      | Some k # rs \<Rightarrow>
          (Some (min (length bs) (Suc k)), s\<lparr>k_data := k_data s @ take (Suc k) bs, k_writes := rs\<rparr>))"

lemma rd_length: "rd n s = (Some bs, s') \<Longrightarrow> length (s_data s') + length bs = length (s_data s) \<and> length bs \<le> n"
  by (auto simp: rd_def split: list.splits option.splits)

lemma rd_less: "rd n s = (Some bs, s') \<Longrightarrow> bs \<noteq> [] \<Longrightarrow> length (s_data s') < length (s_data s)"
  by (auto dest!: rd_length simp flip: length_greater_0_conv)

lemma wr_progress: "bs \<noteq> [] \<Longrightarrow> wr bs s = (Some c, s') \<Longrightarrow> 0 < c \<and> c \<le> length bs"
  by (auto simp: wr_def split: list.splits option.splits)

section \<open>The code\<close>

text \<open>A fatal error ends the process with a message: \<open>Inr None\<close>. A fault is \<open>Inl\<close>, as everywhere.\<close>

type_synonym 'a run = "'a option res"

definition run_bind :: "'a run \<Rightarrow> ('a \<Rightarrow> 'b run) \<Rightarrow> 'b run" where
  "run_bind m f = rbind m (\<lambda>r. case r of None \<Rightarrow> Inr None | Some x \<Rightarrow> f x)"

lemma run_bind_simps [simp]:
  "run_bind (Inl e) f = Inl e" "run_bind (Inr None) f = Inr None" "run_bind (Inr (Some x)) f = f x"
  by (simp_all add: run_bind_def)

lemma run_bind_cong [fundef_cong]:
  "m = m' \<Longrightarrow> (\<And>x. m' = Inr (Some x) \<Longrightarrow> f x = f' x) \<Longrightarrow> run_bind m f = run_bind m' f'"
  by (auto simp: run_bind_def intro!: rbind_cong split: option.splits)

function write_block :: "byte list \<Rightarrow> sink \<Rightarrow> sink option" where
  "write_block bs s =
     (if bs = [] then Some s
      else case wr bs s of
             (None, s) \<Rightarrow> None
           | (Some c, s) \<Rightarrow> write_block (drop c bs) s)"
  by pat_completeness auto
termination
  by (relation "measure (\<lambda>(bs, s). length bs)") (auto dest!: wr_progress [OF _ sym] simp: wr_progress)

declare write_block.simps [simp del]

text \<open>The result \<open>Some (None, s)\<close> is the return value 0: the data ended.\<close>

function read_block :: "nat \<Rightarrow> source \<Rightarrow> byte list \<Rightarrow> (byte list option \<times> source) option" where
  "read_block len s buf =
     (if len = 0 then Some (Some buf, s)
      else case rd len s of
             (None, s) \<Rightarrow> None
           | (Some bs, s) \<Rightarrow>
               if bs = [] then Some (None, s) else read_block (len - length bs) s (buf @ bs))"
  by pat_completeness auto
termination
  by (relation "measure (\<lambda>(len, s, buf). len)") auto

declare read_block.simps [simp del]

abbreviation COPYBUF_SIZE :: nat where "COPYBUF_SIZE \<equiv> 1048576"

text \<open>
  A digest in progress is what was written to it, \<open>None\<close> for a null pointer. \<open>encryption_loop\<close>
  feeds the first one before and the second one after the encryption.
\<close>

definition md_write :: "byte list option \<Rightarrow> byte list \<Rightarrow> byte list option" where
  "md_write mh bs = map_option (\<lambda>m. m @ bs) mh"

function encryption_loop ::
  "cipher \<Rightarrow> source \<Rightarrow> sink \<Rightarrow> aes256ctr \<Rightarrow> byte list option \<Rightarrow> byte list option \<Rightarrow>
     (source \<times> sink \<times> aes256ctr \<times> byte list option \<times> byte list option) run" where
  "encryption_loop c src snk ac pre post =
     (case rd COPYBUF_SIZE src of
        (None, src) \<Rightarrow> Inr None
      | (Some bs, src) \<Rightarrow>
          if bs = [] then Inr (Some (src, snk, ac, pre, post))
          else rbind (aes256ctr_enc c ac bs) (\<lambda>(out, ac).
            case write_block out snk of
              None \<Rightarrow> Inr None
            | Some snk \<Rightarrow> encryption_loop c src snk ac (md_write pre bs) (md_write post out)))"
  by pat_completeness auto
termination
  by (relation "measure (\<lambda>(c, src, snk, ac, pre, post). length (s_data src))") (auto dest!: rd_less [OF sym])

declare encryption_loop.simps [simp del]

text \<open>
  The loop of \<^verbatim>\<open>decryption_loop\<close>; \<open>buf\<close> holds the last \<open>taillen\<close> bytes that were read, of which it
  is not known yet whether they are the tail.
\<close>

function decryption_steps ::
  "cipher \<Rightarrow> nat \<Rightarrow> source \<Rightarrow> sink \<Rightarrow> aes256ctr \<Rightarrow> byte list option \<Rightarrow> byte list option \<Rightarrow> byte list \<Rightarrow>
     (source \<times> sink \<times> aes256ctr \<times> byte list option \<times> byte list option \<times> byte list) run" where
  "decryption_steps c taillen src snk ac pre post buf =
     (case rd (COPYBUF_SIZE - taillen) src of
        (None, src) \<Rightarrow> Inr None
      | (Some bs, src) \<Rightarrow>
          if bs = [] then Inr (Some (src, snk, ac, pre, post, take taillen buf))
          else
            (let buf = take taillen buf @ bs; n = length bs
             in rbind (aes256ctr_dec c ac (take n buf)) (\<lambda>(out, ac).
                  case write_block out snk of
                    None \<Rightarrow> Inr None
                  | Some snk \<Rightarrow>
                      decryption_steps c taillen src snk ac (md_write pre (take n buf)) (md_write post out) (drop n buf))))"
  by pat_completeness auto
termination
  by (relation "measure (\<lambda>(c, taillen, src, snk, ac, pre, post, buf). length (s_data src))") (auto dest!: rd_less [OF sym])

declare decryption_steps.simps [simp del]

definition decryption_loop ::
  "cipher \<Rightarrow> source \<Rightarrow> sink \<Rightarrow> aes256ctr \<Rightarrow> byte list option \<Rightarrow> byte list option \<Rightarrow> nat \<Rightarrow>
     (source \<times> sink \<times> aes256ctr \<times> byte list option \<times> byte list option \<times> byte list) run" where
  "decryption_loop c src snk ac pre post taillen =
     (case read_block taillen src [] of
        None \<Rightarrow> Inr None
      | Some (None, src) \<Rightarrow> Inr None
      | Some (Some buf, src) \<Rightarrow> decryption_steps c taillen src snk ac pre post buf)"

function verisign_steps ::
  "nat \<Rightarrow> bool \<Rightarrow> source \<Rightarrow> sink \<Rightarrow> byte list \<Rightarrow> byte list \<Rightarrow> (source \<times> sink \<times> byte list \<times> byte list) option" where
  "verisign_steps taillen copyflag src snk mh buf =
     (case rd (COPYBUF_SIZE - taillen) src of
        (None, src) \<Rightarrow> None
      | (Some bs, src) \<Rightarrow>
          if bs = [] then Some (src, snk, mh, take taillen buf)
          else
            (let buf = take taillen buf @ bs; n = length bs
             in case (if copyflag then write_block (take n buf) snk else Some snk) of
                  None \<Rightarrow> None
                | Some snk \<Rightarrow> verisign_steps taillen copyflag src snk (mh @ take n buf) (drop n buf)))"
  by pat_completeness auto
termination
  by (relation "measure (\<lambda>(taillen, copyflag, src, snk, mh, buf). length (s_data src))") (auto dest!: rd_less [OF sym])

declare verisign_steps.simps [simp del]

definition verisign_loop ::
  "source \<Rightarrow> sink \<Rightarrow> byte list \<Rightarrow> nat \<Rightarrow> bool \<Rightarrow> (source \<times> sink \<times> byte list \<times> byte list) option" where
  "verisign_loop src snk mh taillen copyflag =
     (case read_block taillen src [] of
        None \<Rightarrow> None
      | Some (None, src) \<Rightarrow> None
      | Some (Some buf, src) \<Rightarrow> verisign_steps taillen copyflag src snk mh buf)"

section \<open>What the loops compute\<close>

text \<open>Reads and writes that do not fail, whatever their sizes.\<close>

definition reads_ok :: "source \<Rightarrow> bool" where
  "reads_ok s \<longleftrightarrow> None \<notin> set (s_reads s)"

definition writes_ok :: "sink \<Rightarrow> bool" where
  "writes_ok s \<longleftrightarrow> None \<notin> set (k_writes s)"

lemma rd_ok:
  assumes "reads_ok s" "0 < n"
  obtains m s' where "rd n s = (Some (take m (s_data s)), s')" "s_data s' = drop m (s_data s)" "reads_ok s'"
    "0 < m" "m \<le> n"
proof (cases "s_reads s")
  case Nil
  then show thesis
    using assms by (intro that [of n "s\<lparr>s_data := drop n (s_data s)\<rparr>"]) (simp_all add: rd_def reads_ok_def)
next
  case (Cons r rs)
  then obtain k where "r = Some k" using assms(1) by (cases r) (auto simp: reads_ok_def)
  then show thesis
    using Cons assms by (intro that [of "min n (Suc k)" "s\<lparr>s_data := drop (min n (Suc k)) (s_data s), s_reads := rs\<rparr>"])
      (simp_all add: rd_def reads_ok_def)
qed

lemma write_block_ok:
  "writes_ok s \<Longrightarrow> \<exists>s'. write_block bs s = Some s' \<and> k_data s' = k_data s @ bs \<and> writes_ok s'"
proof (induction "length bs" arbitrary: bs s rule: less_induct)
  case less
  show ?case
  proof (cases "bs = []")
    case True
    with less.prems show ?thesis by (simp add: write_block.simps)
  next
    case False
    have "\<exists>c s'. wr bs s = (Some c, s') \<and> k_data s' = k_data s @ take c bs \<and> writes_ok s' \<and> 0 < c"
    proof (cases "k_writes s")
      case (Cons r rs)
      then obtain k where "r = Some k" using less.prems by (cases r) (auto simp: writes_ok_def)
      with Cons False less.prems show ?thesis by (auto simp: wr_def writes_ok_def min_def)
    qed (use False in \<open>auto simp: wr_def writes_ok_def\<close>)
    then obtain c s' where c: "wr bs s = (Some c, s')" "k_data s' = k_data s @ take c bs" "writes_ok s'" "0 < c"
      by blast
    have "length (drop c bs) < length bs" using False c(4) by simp
    from less.hyps [OF this c(3)] show ?thesis
      using c(1,2) False by (subst write_block.simps) auto
  qed
qed

lemma read_block_ok:
  "reads_ok s \<Longrightarrow> \<exists>s'. read_block len s buf =
      Some (if len \<le> length (s_data s) then Some (buf @ take len (s_data s)) else None, s') \<and>
    (len \<le> length (s_data s) \<longrightarrow> s_data s' = drop len (s_data s)) \<and> reads_ok s'"
proof (induction len arbitrary: s buf rule: less_induct)
  case (less len)
  show ?case
  proof (cases "len = 0")
    case True
    with less.prems show ?thesis by (auto simp: read_block.simps)
  next
    case False
    then obtain m s1 where m: "rd len s = (Some (take m (s_data s)), s1)" "s_data s1 = drop m (s_data s)"
      "reads_ok s1" "0 < m" "m \<le> len"
      using rd_ok [OF less.prems, of len] by auto
    show ?thesis
    proof (cases "s_data s = []")
      case True
      with m False show ?thesis by (subst read_block.simps) simp
    next
      case data: False
      let ?n = "length (take m (s_data s))"
      have "len - ?n < len" using False m(4) data by simp
      from less.IH [OF this m(3), of "buf @ take m (s_data s)"] obtain s' where
        s': "read_block (len - ?n) s1 (buf @ take m (s_data s)) =
          Some (if len - ?n \<le> length (s_data s1) then Some ((buf @ take m (s_data s)) @ take (len - ?n) (s_data s1)) else None, s')"
        "len - ?n \<le> length (s_data s1) \<longrightarrow> s_data s' = drop (len - ?n) (s_data s1)" "reads_ok s'" by blast
      have e: "read_block len s buf = read_block (len - ?n) s1 (buf @ take m (s_data s))"
        using False data m by (subst read_block.simps) auto
      have le: "len - ?n \<le> length (s_data s1) \<longleftrightarrow> len \<le> length (s_data s)"
        using m(2,5) by auto
      have "len \<le> length (s_data s) \<Longrightarrow> take m (s_data s) @ take (len - ?n) (s_data s1) = take len (s_data s)"
        using m(2,5) take_add [of m "len - m" "s_data s"] by simp
      moreover have "len \<le> length (s_data s) \<Longrightarrow> drop (len - ?n) (s_data s1) = drop len (s_data s)"
        using m(2,5) by simp
      ultimately show ?thesis
        using s' unfolding e le by auto
    qed
  qed
qed

text \<open>Encrypting a stream is one xor with the key stream, however it is cut into reads.\<close>

lemma md_write_append: "md_write (md_write m a) b = md_write m (a @ b)"
  by (cases m) (simp_all add: md_write_def)

lemma encryption_loop_ok:
  assumes "cipher_ok c"
  shows "reads_ok src \<Longrightarrow> writes_ok snk \<Longrightarrow> at_pos c key ac pos \<Longrightarrow>
    \<exists>src' snk' ac'. let out = xor_bytes (s_data src) (stream c key pos (length (s_data src))) in
      encryption_loop c src snk ac pre post =
        Inr (Some (src', snk', ac', md_write pre (s_data src), md_write post out)) \<and>
      k_data snk' = k_data snk @ out \<and> writes_ok snk' \<and> at_pos c key ac' (pos + length (s_data src))"
proof (induction "length (s_data src)" arbitrary: src snk ac pos pre post rule: less_induct)
  case less
  have "(0 :: nat) < COPYBUF_SIZE" by simp
  from rd_ok [OF less.prems(1) this] obtain m s1 where
    m: "rd COPYBUF_SIZE src = (Some (take m (s_data src)), s1)" "s_data s1 = drop m (s_data src)" "reads_ok s1" "0 < m" .
  show ?case
  proof (cases "s_data src = []")
    case True
    with less.prems m show ?thesis
      by (subst encryption_loop.simps) (auto simp: md_write_def xor_bytes_def option.map_ident)
  next
    case False
    define b where "b = take m (s_data src)"
    have d: "s_data src = b @ s_data s1" "b \<noteq> []"
      using m(2,4) False by (simp_all add: b_def)
    obtain ac1 where e: "aes256ctr_enc c ac b = Inr (xor_bytes b (stream c key pos (length b)), ac1)"
      "at_pos c key ac1 (pos + length b)"
      using enc_stream [OF assms less.prems(3)] by blast
    define out where "out = xor_bytes b (stream c key pos (length b))"
    define rest where "rest = xor_bytes (s_data s1) (stream c key (pos + length b) (length (s_data s1)))"
    obtain k1 where w: "write_block out snk = Some k1" "k_data k1 = k_data snk @ out" "writes_ok k1"
      using write_block_ok [OF less.prems(2)] by blast
    have "length (s_data s1) < length (s_data src)" using d by simp
    from less.hyps [OF this m(3) w(3) e(2), of "md_write pre b" "md_write post out"] obtain src' snk' ac' where
      i: "encryption_loop c s1 k1 ac1 (md_write pre b) (md_write post out) =
          Inr (Some (src', snk', ac', md_write (md_write pre b) (s_data s1), md_write (md_write post out) rest))"
        "k_data snk' = k_data k1 @ rest" "writes_ok snk'" "at_pos c key ac' (pos + length b + length (s_data s1))"
      unfolding Let_def rest_def by blast
    have "xor_bytes (s_data src) (stream c key pos (length (s_data src))) = out @ rest"
      unfolding d(1) by (simp add: stream_append xor_bytes_append out_def rest_def)
    moreover have "encryption_loop c src snk ac pre post = encryption_loop c s1 k1 ac1 (md_write pre b) (md_write post out)"
      using m(1) d(2) e(1) w(1) by (subst encryption_loop.simps) (simp flip: b_def out_def)
    ultimately show ?thesis
      using i w(2) unfolding d(1) by (simp add: md_write_append Let_def add.assoc)
  qed
qed

text \<open>Decryption holds back the last bytes: the tail of the stream is returned as it was read.\<close>

lemma decryption_steps_ok:
  assumes "cipher_ok c" "t < COPYBUF_SIZE"
  shows "reads_ok src \<Longrightarrow> writes_ok snk \<Longrightarrow> at_pos c key ac pos \<Longrightarrow> length buf = t \<Longrightarrow>
    \<exists>src' snk' ac'. let n = length (s_data src); body = take n (buf @ s_data src);
        out = xor_bytes body (stream c key pos n) in
      decryption_steps c t src snk ac pre post buf =
        Inr (Some (src', snk', ac', md_write pre body, md_write post out, drop n (buf @ s_data src))) \<and>
      k_data snk' = k_data snk @ out \<and> writes_ok snk' \<and> at_pos c key ac' (pos + n)"
proof (induction "length (s_data src)" arbitrary: src snk ac pos pre post buf rule: less_induct)
  case less
  have "0 < COPYBUF_SIZE - t" using assms(2) by simp
  from rd_ok [OF less.prems(1) this] obtain m s1 where
    m: "rd (COPYBUF_SIZE - t) src = (Some (take m (s_data src)), s1)" "s_data s1 = drop m (s_data src)" "reads_ok s1" "0 < m" .
  show ?case
  proof (cases "s_data src = []")
    case True
    with less.prems m show ?thesis
      by (subst decryption_steps.simps) (auto simp: md_write_def xor_bytes_def option.map_ident)
  next
    case False
    define b where "b = take m (s_data src)"
    have d: "s_data src = b @ s_data s1" "b \<noteq> []"
      using m(2,4) False by (simp_all add: b_def)
    define x where "x = take (length b) (buf @ b)"
    have x: "length x = length b" by (simp add: x_def)
    obtain ac1 where e: "aes256ctr_enc c ac x = Inr (xor_bytes x (stream c key pos (length b)), ac1)"
      "at_pos c key ac1 (pos + length b)"
      using enc_stream [OF assms(1) less.prems(3), of x] unfolding x by blast
    define out where "out = xor_bytes x (stream c key pos (length b))"
    let ?buf = "drop (length b) (buf @ b)"
    define y where "y = take (length (s_data s1)) (?buf @ s_data s1)"
    define rest where "rest = xor_bytes y (stream c key (pos + length b) (length (s_data s1)))"
    obtain k1 where w: "write_block out snk = Some k1" "k_data k1 = k_data snk @ out" "writes_ok k1"
      using write_block_ok [OF less.prems(2)] by blast
    have lt: "length (s_data s1) < length (s_data src)" and lb: "length ?buf = t" using d less.prems(4) by simp_all
    from less.hyps [OF lt m(3) w(3) e(2) lb, of "md_write pre x" "md_write post out"] obtain src' snk' ac' where
      i: "decryption_steps c t s1 k1 ac1 (md_write pre x) (md_write post out) ?buf =
          Inr (Some (src', snk', ac', md_write (md_write pre x) y, md_write (md_write post out) rest,
            drop (length (s_data s1)) (?buf @ s_data s1)))"
        "k_data snk' = k_data k1 @ rest" "writes_ok snk'" "at_pos c key ac' (pos + length b + length (s_data s1))"
      unfolding Let_def rest_def y_def by blast
    have body: "take (length (s_data src)) (buf @ s_data src) = x @ y"
      unfolding d(1) x_def y_def using take_add [of "length b" "length (s_data s1)" "buf @ b @ s_data s1"] by simp
    have tl: "drop (length (s_data src)) (buf @ s_data src) = drop (length (s_data s1)) (?buf @ s_data s1)"
      unfolding d(1) using drop_drop [of "length (s_data s1)" "length b" "buf @ b @ s_data s1"] by (simp add: add.commute)
    have len: "length (s_data src) = length b + length (s_data s1)"
      by (simp add: d(1))
    have o: "xor_bytes (x @ y) (stream c key pos (length b + length (s_data s1))) = out @ rest"
      using x by (simp add: stream_append xor_bytes_append out_def rest_def)
    have "decryption_steps c t src snk ac pre post buf = decryption_steps c t s1 k1 ac1 (md_write pre x) (md_write post out) ?buf"
      using m(1) d(2) e(1) w(1) less.prems(4) unfolding x_def out_def
      by (subst decryption_steps.simps) (simp add: Let_def flip: b_def)
    then show ?thesis
      using i w(2) unfolding Let_def body tl unfolding len o by (simp add: md_write_append add.assoc)
  qed
qed

lemma decryption_loop_ok:
  assumes "cipher_ok c" "t < COPYBUF_SIZE" "reads_ok src" "writes_ok snk" "at_pos c key ac pos"
    "s_data src = body @ tail" "length tail = t"
  shows "\<exists>src' snk' ac'. let out = xor_bytes body (stream c key pos (length body)) in
      decryption_loop c src snk ac pre post t =
        Inr (Some (src', snk', ac', md_write pre body, md_write post out, tail)) \<and>
      k_data snk' = k_data snk @ out \<and> writes_ok snk' \<and> at_pos c key ac' (pos + length body)"
proof -
  obtain s1 where s1: "read_block t src [] = Some (Some (take t (s_data src)), s1)" "s_data s1 = drop t (s_data src)"
    "reads_ok s1"
    using read_block_ok [OF assms(3), of t "[]"] assms(6,7) by auto
  have d: "take t (s_data src) @ s_data s1 = body @ tail"
    unfolding s1(2) append_take_drop_id by (rule assms(6))
  have d2: "length (take t (s_data src)) = t"
    using assms(6,7) by simp
  have n: "length (s_data s1) = length body" using s1(2) assms(6,7) by simp
  show ?thesis
    using decryption_steps_ok [OF assms(1,2) s1(3) assms(4,5) d2, of pre post] s1(1)
    unfolding d n by (simp add: decryption_loop_def Let_def)
qed

lemma verisign_steps_ok:
  assumes "t < COPYBUF_SIZE"
  shows "reads_ok src \<Longrightarrow> writes_ok snk \<Longrightarrow> length buf = t \<Longrightarrow>
    \<exists>src' snk'. let n = length (s_data src); body = take n (buf @ s_data src) in
      verisign_steps t copyflag src snk mh buf = Some (src', snk', mh @ body, drop n (buf @ s_data src)) \<and>
      k_data snk' = k_data snk @ (if copyflag then body else []) \<and> writes_ok snk'"
proof (induction "length (s_data src)" arbitrary: src snk mh buf rule: less_induct)
  case less
  have "0 < COPYBUF_SIZE - t" using assms by simp
  from rd_ok [OF less.prems(1) this] obtain m s1 where
    m: "rd (COPYBUF_SIZE - t) src = (Some (take m (s_data src)), s1)" "s_data s1 = drop m (s_data src)" "reads_ok s1" "0 < m" .
  show ?case
  proof (cases "s_data src = []")
    case True
    with less.prems m show ?thesis by (subst verisign_steps.simps) auto
  next
    case False
    define b where "b = take m (s_data src)"
    have d: "s_data src = b @ s_data s1" "b \<noteq> []"
      using m(2,4) False by (simp_all add: b_def)
    define x where "x = take (length b) (buf @ b)"
    let ?buf = "drop (length b) (buf @ b)"
    define y where "y = take (length (s_data s1)) (?buf @ s_data s1)"
    obtain k1 where w: "(if copyflag then write_block x snk else Some snk) = Some k1"
      "k_data k1 = k_data snk @ (if copyflag then x else [])" "writes_ok k1"
      using write_block_ok [OF less.prems(2), of x] less.prems(2) by (cases copyflag) auto
    have lt: "length (s_data s1) < length (s_data src)" and lb: "length ?buf = t" using d less.prems(3) by simp_all
    from less.hyps [OF lt m(3) w(3) lb, of "mh @ x"] obtain src' snk' where
      i: "verisign_steps t copyflag s1 k1 (mh @ x) ?buf =
          Some (src', snk', (mh @ x) @ y, drop (length (s_data s1)) (?buf @ s_data s1))"
        "k_data snk' = k_data k1 @ (if copyflag then y else [])" "writes_ok snk'"
      unfolding Let_def y_def by blast
    have body: "take (length (s_data src)) (buf @ s_data src) = x @ y"
      unfolding d(1) x_def y_def using take_add [of "length b" "length (s_data s1)" "buf @ b @ s_data s1"] by simp
    have tl: "drop (length (s_data src)) (buf @ s_data src) = drop (length (s_data s1)) (?buf @ s_data s1)"
      unfolding d(1) using drop_drop [of "length (s_data s1)" "length b" "buf @ b @ s_data s1"] by (simp add: add.commute)
    have "verisign_steps t copyflag src snk mh buf = verisign_steps t copyflag s1 k1 (mh @ x) ?buf"
      using m(1) d(2) w(1) less.prems(3) unfolding x_def
      by (subst verisign_steps.simps) (simp add: Let_def flip: b_def)
    then show ?thesis
      using i w(2) unfolding Let_def body tl by (auto split: if_splits)
  qed
qed

lemma verisign_loop_ok:
  assumes "t < COPYBUF_SIZE" "reads_ok src" "writes_ok snk" "s_data src = body @ tail" "length tail = t"
  shows "\<exists>src' snk'. verisign_loop src snk mh t copyflag = Some (src', snk', mh @ body, tail) \<and>
      k_data snk' = k_data snk @ (if copyflag then body else []) \<and> writes_ok snk'"
proof -
  obtain s1 where s1: "read_block t src [] = Some (Some (take t (s_data src)), s1)" "s_data s1 = drop t (s_data src)"
    "reads_ok s1"
    using read_block_ok [OF assms(2), of t "[]"] assms(4,5) by auto
  have d: "take t (s_data src) @ s_data s1 = body @ tail"
    unfolding s1(2) append_take_drop_id by (rule assms(4))
  have d2: "length (take t (s_data src)) = t"
    using assms(4,5) by simp
  have n: "length (s_data s1) = length body" using s1(2) assms(4,5) by simp
  show ?thesis
    using verisign_steps_ok [OF assms(1) s1(3) assms(3) d2, of copyflag mh] s1(1)
    unfolding d n by (cases copyflag) (simp_all add: verisign_loop_def Let_def)
qed

end
