(* ===== verification/Seccure.thy ===== *)
theory Seccure
  imports Protocol Seccure_Streams
begin

text \<open>
  \<^verbatim>\<open>seccure/seccure.c\<close>: the commands of the program, each as its checks and the choice of the curve
  (\<open>app_encrypt\<close>) and the rest, for a given curve (\<open>encrypt_with\<close>). Messages on the terminal are not
  modelled, nor are the settings of the terminal while a passphrase is typed.
\<close>

section \<open>The process\<close>

text \<open>
  The libraries, the options, and the state: the input and the output, where passphrases are
  read from (\<open>None\<close>: from the same descriptor as the input) and whether that is a terminal, the
  position in the random numbers, and the streams of the C library, each with whether it can be
  opened, used and closed: the signature file, standard error and standard input.
\<close>

record stdfile =
  f_open :: bool
  f_ok :: bool
  f_close :: bool
  f_data :: "byte list"

record lib =
  l_gcry :: gcry
  l_cipher :: cipher
  l_digests :: digests
  l_mem :: "byte list"
  l_rnd :: "nat \<Rightarrow> int"

record options =
  opt_sigcopy :: bool
  opt_sigbin :: bool
  opt_sigappend :: bool
  opt_dblprompt :: bool
  opt_maclen :: int
  opt_format :: disp_format
  opt_curve :: "string option"
  opt_curve2 :: "string option"
  opt_sigfile :: "string option"

record proc =
  p_in :: source
  p_out :: sink
  p_pw :: "source option"
  p_tty :: bool
  p_rnd :: nat
  p_sig :: stdfile
  p_err :: stdfile
  p_stdin :: stdfile

definition pw_source :: "proc \<Rightarrow> source" where
  "pw_source p = (case p_pw p of None \<Rightarrow> p_in p | Some s \<Rightarrow> s)"

definition set_pw :: "source \<Rightarrow> proc \<Rightarrow> proc" where
  "set_pw s p = (if p_pw p = None then p\<lparr>p_in := s\<rparr> else p\<lparr>p_pw := Some s\<rparr>)"

section \<open>Passphrases\<close>

function pass_loop :: "source \<Rightarrow> byte list \<Rightarrow> (byte list \<times> source) option" where
  "pass_loop src mh =
     (case rd 1 src of
        (None, src) \<Rightarrow> None
      | (Some [], src) \<Rightarrow> Some (mh, src)
      | (Some (ch # _), src) \<Rightarrow>
          if ch = 10 then Some (mh, src) else pass_loop src (if ch \<noteq> 13 then mh @ [ch] else mh))"
  by pat_completeness auto
termination
  by (relation "measure (\<lambda>(src, mh). length (s_data src))") (auto dest!: rd_less [OF sym])

declare pass_loop.simps [simp del]

definition do_read_passphrase :: "digests \<Rightarrow> source \<Rightarrow> (byte list \<times> source) option" where
  "do_read_passphrase h pw =
     (if \<not> d_md_open h then None
      else case pass_loop pw [] of None \<Rightarrow> None | Some (mh, pw) \<Rightarrow> Some (take 32 (d_sha256 h mh), pw))"

definition read_passphrase :: "digests \<Rightarrow> options \<Rightarrow> proc \<Rightarrow> (byte list \<times> proc) option" where
  "read_passphrase h opts p =
     (if p_tty p then
        (case do_read_passphrase h (pw_source p) of
           None \<Rightarrow> None
         | Some (hash, pw) \<Rightarrow>
             if opt_dblprompt opts then
               (case do_read_passphrase h pw of
                  None \<Rightarrow> None
                | Some (hash2, pw) \<Rightarrow> if memcmp hash hash2 \<noteq> 0 then None else Some (hash, set_pw pw p))
             else Some (hash, set_pw pw p))
      else
        (case do_read_passphrase h (pw_source p) of
           None \<Rightarrow> None
         | Some (hash, pw) \<Rightarrow> Some (hash, set_pw pw p)))"

text \<open>The private key of a passphrase: the first lines of every command that needs one.\<close>

definition private_key :: "lib \<Rightarrow> options \<Rightarrow> curve_params \<Rightarrow> proc \<Rightarrow> (int \<times> proc) run" where
  "private_key L opts cp p =
     (case read_passphrase (l_digests L) opts p of
        None \<Rightarrow> Inr None
      | Some (privkey, p) \<Rightarrow>
          rbind (hash_to_exponent (l_gcry L) (l_cipher L) (l_mem L) privkey cp) (\<lambda>d. Inr (Some (d, p))))"

section \<open>Choosing a curve\<close>

definition named_curve :: "lib \<Rightarrow> options \<Rightarrow> string option \<Rightarrow> curve_params run" where
  "named_curve L opts name =
     curve_by_name (l_gcry L) (case name of None \<Rightarrow> ''p160'' | Some n \<Rightarrow> n) (opt_format opts)"

definition curve_of_key :: "lib \<Rightarrow> options \<Rightarrow> string option \<Rightarrow> byte list \<Rightarrow> curve_params run" where
  "curve_of_key L opts name pubkey =
     run_bind (case name of
         Some n \<Rightarrow> curve_by_name (l_gcry L) n (opt_format opts)
       | None \<Rightarrow> curve_by_pk_len_compact (l_gcry L) (length pubkey) (opt_format opts)) (\<lambda>cp.
     if length pubkey \<noteq> pk_len_compact cp then Inr None else Inr (Some cp))"

section \<open>Public keys\<close>

definition print_public_key_with :: "lib \<Rightarrow> options \<Rightarrow> curve_params \<Rightarrow> proc \<Rightarrow> (byte list \<times> proc) run" where
  "print_public_key_with L opts cp p =
     run_bind (private_key L opts cp p) (\<lambda>(d, p).
     rbind (pointmul (l_gcry L) (dp_base (cp_dp cp)) d (cp_dp cp)) (\<lambda>P.
     rbind (compress_to_string (l_gcry L) (opt_format opts) P cp) (\<lambda>pubkey. Inr (Some (pubkey, p)))))"

definition app_print_public_key :: "lib \<Rightarrow> options \<Rightarrow> proc \<Rightarrow> (byte list \<times> proc) run" where
  "app_print_public_key L opts p =
     run_bind (named_curve L opts (opt_curve opts)) (\<lambda>cp. print_public_key_with L opts cp p)"

section \<open>Encryption\<close>

definition mac_len :: "options \<Rightarrow> nat" where
  "mac_len opts = (if opt_maclen opts < 0 then 10 else nat (opt_maclen opts))"

abbreviation mac_key :: "byte list \<Rightarrow> byte list" where
  "mac_key keybuf \<equiv> take 32 (drop 32 keybuf)"

definition encrypt_with :: "lib \<Rightarrow> options \<Rightarrow> curve_params \<Rightarrow> byte list \<Rightarrow> proc \<Rightarrow> proc run" where
  "encrypt_with L opts cp pubkey p =
     (let g = l_gcry L; c = l_cipher L; h = l_digests L; maclen = mac_len opts
      in run_bind (decompress_from_string g (pubkey @ [0]) (opt_format opts) cp) (\<lambda>P.
         rbind (ECIES_encryption g h P cp (l_rnd L) (p_rnd p)) (\<lambda>(keybuf, R, i).
         rbind (compress_to_string g DF_BIN R cp) (\<lambda>rbuf.
         case aes256ctr_init c keybuf (l_mem L) of
           None \<Rightarrow> Inr None
         | Some ac \<Rightarrow>
             if maclen \<noteq> 0 \<and> \<not> d_hmac_open h then Inr None
             else case write_block rbuf (p_out p) of
               None \<Rightarrow> Inr None
             | Some out \<Rightarrow>
                 run_bind (encryption_loop c (p_in p) out ac None (if maclen \<noteq> 0 then Some [] else None))
                   (\<lambda>(src, out, ac, pre, mh).
                     case mh of
                       None \<Rightarrow> Inr (Some (p\<lparr>p_in := src, p_out := out, p_rnd := i\<rparr>))
                     | Some data \<Rightarrow>
                         (case write_block (take maclen (d_hmac256 h (mac_key keybuf) data)) out of
                            None \<Rightarrow> Inr None
                          | Some out \<Rightarrow> Inr (Some (p\<lparr>p_in := src, p_out := out, p_rnd := i\<rparr>))))))))"

definition app_encrypt :: "lib \<Rightarrow> options \<Rightarrow> byte list \<Rightarrow> proc \<Rightarrow> proc run" where
  "app_encrypt L opts pubkey p =
     run_bind (curve_of_key L opts (opt_curve opts) pubkey) (\<lambda>cp. encrypt_with L opts cp pubkey p)"

text \<open>The result of a command that checks something is the exit status, 0 for success.\<close>

definition decrypt_with :: "lib \<Rightarrow> options \<Rightarrow> curve_params \<Rightarrow> proc \<Rightarrow> (int \<times> proc) run" where
  "decrypt_with L opts cp p =
     (let g = l_gcry L; c = l_cipher L; h = l_digests L; maclen = mac_len opts
      in run_bind (private_key L opts cp p) (\<lambda>(d, p).
         case read_block (pk_len_bin cp) (p_in p) [] of
           None \<Rightarrow> Inr None
         | Some (None, src) \<Rightarrow> Inr (Some (1, p\<lparr>p_in := src\<rparr>))
         | Some (Some rbuf, src) \<Rightarrow>
             rbind (decompress_from_string g rbuf DF_BIN cp) (\<lambda>R.
             case R of
               None \<Rightarrow> Inr (Some (1, p\<lparr>p_in := src\<rparr>))
             | Some R \<Rightarrow>
                 rbind (ECIES_decryption g h R d cp) (\<lambda>key.
                 case key of
                   None \<Rightarrow> Inr (Some (1, p\<lparr>p_in := src\<rparr>))
                 | Some keybuf \<Rightarrow>
                     (case aes256ctr_init c keybuf (l_mem L) of
                        None \<Rightarrow> Inr None
                      | Some ac \<Rightarrow>
                          if maclen \<noteq> 0 \<and> \<not> d_hmac_open h then Inr None
                          else run_bind (decryption_loop c src (p_out p) ac (if maclen \<noteq> 0 then Some [] else None) None maclen)
                            (\<lambda>(src, out, ac, mh, post, mdbuf).
                              let p = p\<lparr>p_in := src, p_out := out\<rparr>
                              in case mh of
                                   None \<Rightarrow> Inr (Some (0, p))
                                 | Some data \<Rightarrow>
                                     let md = d_hmac256 h (mac_key keybuf) data;
                                         res = (memcmp mdbuf (take maclen md) = 0)
                                     in Inr (Some (if res then 0 else 1, p))))))))"

definition app_decrypt :: "lib \<Rightarrow> options \<Rightarrow> proc \<Rightarrow> (int \<times> proc) run" where
  "app_decrypt L opts p =
     run_bind (named_curve L opts (opt_curve opts)) (\<lambda>cp. decrypt_with L opts cp p)"

section \<open>Signcryption\<close>

definition signcrypt_with ::
  "lib \<Rightarrow> options \<Rightarrow> curve_params \<Rightarrow> curve_params \<Rightarrow> byte list \<Rightarrow> proc \<Rightarrow> proc run" where
  "signcrypt_with L opts cp_sig cp_enc pubkey p =
     (let g = l_gcry L; c = l_cipher L; h = l_digests L
      in run_bind (decompress_from_string g (pubkey @ [0]) (opt_format opts) cp_enc) (\<lambda>P.
         run_bind (private_key L opts cp_sig p) (\<lambda>(d, p).
         rbind (ECIES_encryption g h P cp_enc (l_rnd L) (p_rnd p)) (\<lambda>(keybuf, R, i).
         rbind (compress_to_string g DF_BIN R cp_enc) (\<lambda>rbuf.
         case aes256ctr_init c keybuf (l_mem L) of
           None \<Rightarrow> Inr None
         | Some ac \<Rightarrow>
             if \<not> d_md_open h then Inr None
             else case write_block rbuf (p_out p) of
               None \<Rightarrow> Inr None
             | Some out \<Rightarrow>
                 run_bind (encryption_loop c (p_in p) out ac (Some []) None) (\<lambda>(src, out, ac, mh, post).
                   let md = d_sha512 h (case mh of None \<Rightarrow> [] | Some m \<Rightarrow> m)
                   in rbind (ECDSA_sign g c h (l_mem L) md d cp_sig) (\<lambda>sig.
                      rbind (serialize_mpi g (sig_len_bin cp_sig) DF_BIN sig) (\<lambda>sigbuf.
                      rbind (aes256ctr_enc c ac sigbuf) (\<lambda>(sigbuf, ac).
                        case write_block sigbuf out of
                          None \<Rightarrow> Inr None
                        | Some out \<Rightarrow> Inr (Some (p\<lparr>p_in := src, p_out := out, p_rnd := i\<rparr>)))))))))))"

definition app_signcrypt :: "lib \<Rightarrow> options \<Rightarrow> byte list \<Rightarrow> proc \<Rightarrow> proc run" where
  "app_signcrypt L opts pubkey p =
     run_bind (named_curve L opts (opt_curve opts)) (\<lambda>cp_sig.
     run_bind (curve_of_key L opts (opt_curve2 opts) pubkey) (\<lambda>cp_enc.
       signcrypt_with L opts cp_sig cp_enc pubkey p))"

definition veridec_with ::
  "lib \<Rightarrow> options \<Rightarrow> curve_params \<Rightarrow> curve_params \<Rightarrow> byte list \<Rightarrow> proc \<Rightarrow> (int \<times> proc) run" where
  "veridec_with L opts cp_enc cp_sig pubkey p =
     (let g = l_gcry L; c = l_cipher L; h = l_digests L
      in run_bind (decompress_from_string g (pubkey @ [0]) (opt_format opts) cp_sig) (\<lambda>Q.
         run_bind (private_key L opts cp_enc p) (\<lambda>(d, p).
         case read_block (pk_len_bin cp_enc) (p_in p) [] of
           None \<Rightarrow> Inr None
         | Some (None, src) \<Rightarrow> Inr (Some (1, p\<lparr>p_in := src\<rparr>))
         | Some (Some rbuf, src) \<Rightarrow>
             rbind (decompress_from_string g rbuf DF_BIN cp_enc) (\<lambda>R.
             case R of
               None \<Rightarrow> Inr (Some (1, p\<lparr>p_in := src\<rparr>))
             | Some R \<Rightarrow>
                 rbind (ECIES_decryption g h R d cp_enc) (\<lambda>key.
                 case key of
                   None \<Rightarrow> Inr (Some (1, p\<lparr>p_in := src\<rparr>))
                 | Some keybuf \<Rightarrow>
                     (case aes256ctr_init c keybuf (l_mem L) of
                        None \<Rightarrow> Inr None
                      | Some ac \<Rightarrow>
                          if \<not> d_md_open h then Inr None
                          else run_bind (decryption_loop c src (p_out p) ac None (Some []) (sig_len_bin cp_sig))
                            (\<lambda>(src, out, ac, pre, mh, sigbuf).
                              let md = d_sha512 h (case mh of None \<Rightarrow> [] | Some m \<Rightarrow> m)
                              in rbind (aes256ctr_dec c ac sigbuf) (\<lambda>(sigbuf, ac).
                                 rbind (deserialize_mpi g DF_BIN sigbuf) (\<lambda>sig.
                                 case sig of
                                   None \<Rightarrow> Inl Assert_Fail
                                 | Some sig \<Rightarrow>
                                     rbind (ECDSA_verify g md Q sig cp_sig) (\<lambda>res.
                                       Inr (Some (if res then 0 else 1, p\<lparr>p_in := src, p_out := out\<rparr>))))))))))))"

definition app_veridec :: "lib \<Rightarrow> options \<Rightarrow> byte list \<Rightarrow> proc \<Rightarrow> (int \<times> proc) run" where
  "app_veridec L opts pubkey p =
     run_bind (named_curve L opts (opt_curve opts)) (\<lambda>cp_enc.
     run_bind (curve_of_key L opts (opt_curve2 opts) pubkey) (\<lambda>cp_sig.
       veridec_with L opts cp_enc cp_sig pubkey p))"

section \<open>Files of the C library\<close>

text \<open>\<^verbatim>\<open>fopen\<close> for writing empties the file; \<^verbatim>\<open>fgets\<close> reads a line, at most \<open>n - 1\<close> bytes of it.\<close>

definition fput :: "byte list \<Rightarrow> stdfile \<Rightarrow> stdfile option" where
  "fput bs f = (if f_ok f then Some (f\<lparr>f_data := f_data f @ bs\<rparr>) else None)"

definition fgets_line :: "nat \<Rightarrow> byte list \<Rightarrow> byte list" where
  "fgets_line n bs = (let l = takeWhile (\<lambda>c. c \<noteq> 10) bs in take (n - 1) (take (Suc (length l)) bs))"

definition strcspn :: "byte list \<Rightarrow> byte list \<Rightarrow> byte list" where
  "strcspn reject s = takeWhile (\<lambda>c. c \<noteq> 0 \<and> c \<notin> set reject) s"

section \<open>Signatures\<close>

text \<open>The end of \<^verbatim>\<open>app_sign\<close>: the signature goes to the output, to a file or to standard error.\<close>

definition put_signature :: "options \<Rightarrow> byte list \<Rightarrow> byte list \<Rightarrow> stdfile \<Rightarrow> proc \<Rightarrow> (stdfile \<times> proc) option" where
  "put_signature opts sigbuf line sigfile p =
     (if opt_sigappend opts then
        (case write_block sigbuf (p_out p) of None \<Rightarrow> None | Some out \<Rightarrow> Some (sigfile, p\<lparr>p_out := out\<rparr>))
      else
        (case fput (sigbuf @ line) sigfile of None \<Rightarrow> None | Some f \<Rightarrow> Some (f, p)))"

definition write_signature :: "lib \<Rightarrow> options \<Rightarrow> curve_params \<Rightarrow> int \<Rightarrow> proc \<Rightarrow> proc run" where
  "write_signature L opts cp sig p =
     (if opt_sigfile opts \<noteq> None \<and> \<not> f_open (p_sig p) then Inr None
      else
        (let sigfile = (if opt_sigfile opts \<noteq> None then (p_sig p)\<lparr>f_data := []\<rparr> else p_err p)
         in rbind (if opt_sigbin opts then serialize_mpi (l_gcry L) (sig_len_bin cp) DF_BIN sig
                   else serialize_mpi (l_gcry L) (sig_len_compact cp) (opt_format opts) sig) (\<lambda>sigbuf.
            case put_signature opts sigbuf (if opt_sigbin opts then [] else [10]) sigfile p of
              None \<Rightarrow> Inr None
            | Some (f, p) \<Rightarrow>
                if opt_sigfile opts = None then Inr (Some (p\<lparr>p_err := f\<rparr>))
                else if \<not> f_close f then Inr None
                else Inr (Some (p\<lparr>p_sig := f\<rparr>)))))"

definition sign_with :: "lib \<Rightarrow> options \<Rightarrow> curve_params \<Rightarrow> proc \<Rightarrow> proc run" where
  "sign_with L opts cp p =
     (let g = l_gcry L; h = l_digests L
      in run_bind (private_key L opts cp p) (\<lambda>(d, p).
         if \<not> d_md_open h then Inr None
         else case verisign_loop (p_in p) (p_out p) [] 0 (opt_sigcopy opts) of
           None \<Rightarrow> Inr None
         | Some (src, out, mh, tail) \<Rightarrow>
             let p = p\<lparr>p_in := src, p_out := out\<rparr>; md = d_sha512 h mh
             in rbind (ECDSA_sign g (l_cipher L) h (l_mem L) md d cp) (\<lambda>sig. write_signature L opts cp sig p)))"

definition app_sign :: "lib \<Rightarrow> options \<Rightarrow> proc \<Rightarrow> proc run" where
  "app_sign L opts p =
     (if opt_sigappend opts \<and> opt_sigfile opts \<noteq> None then Inr None
      else
        (let opts = (if opt_sigappend opts then opts\<lparr>opt_sigcopy := True\<rparr> else opts)
         in run_bind (named_curve L opts (opt_curve opts)) (\<lambda>cp. sign_with L opts cp p)))"

text \<open>
  The signature file of \<^verbatim>\<open>app_verify\<close>: the result \<open>Some None\<close> is that it is too short.
  A size of 0 makes \<^verbatim>\<open>fread\<close> return 0.
\<close>

definition read_signature :: "options \<Rightarrow> curve_params \<Rightarrow> proc \<Rightarrow> byte list option option" where
  "read_signature opts cp p =
     (if opt_sigfile opts = None then Some (Some [])
      else if \<not> f_open (p_sig p) \<or> \<not> f_ok (p_sig p) then None
      else if opt_sigbin opts \<and> (length (f_data (p_sig p)) < sig_len_bin cp \<or> sig_len_bin cp = 0) then Some None
      else if \<not> f_close (p_sig p) then None
      else if opt_sigbin opts then Some (Some (take (sig_len_bin cp) (f_data (p_sig p))))
      else Some (Some (strcspn [32, 13, 10] (fgets_line (sig_len_compact cp + 2) (f_data (p_sig p))))))"

text \<open>The number of a signature: \<open>Inr None\<close> is the jump to \<^verbatim>\<open>error\<close>. A text ends at its first NUL.\<close>

definition signature_number :: "lib \<Rightarrow> options \<Rightarrow> curve_params \<Rightarrow> byte list option \<Rightarrow> byte list \<Rightarrow> int option res" where
  "signature_number L opts cp sig sigbuf =
     (if \<not> opt_sigbin opts then
        (let sig = strcspn [] (case sig of None \<Rightarrow> sigbuf | Some s \<Rightarrow> s)
         in if length sig \<noteq> sig_len_compact cp then Inr None
            else deserialize_mpi (l_gcry L) (opt_format opts) sig)
      else
        rbind (deserialize_mpi (l_gcry L) DF_BIN sigbuf) (\<lambda>s.
          rbind (rassert (s \<noteq> None)) (\<lambda>_. Inr s)))"

definition verify_with ::
  "lib \<Rightarrow> options \<Rightarrow> curve_params \<Rightarrow> byte list \<Rightarrow> byte list option \<Rightarrow> proc \<Rightarrow> (int \<times> proc) run" where
  "verify_with L opts cp pubkey sig p =
     (let g = l_gcry L; h = l_digests L
      in run_bind (decompress_from_string g (pubkey @ [0]) (opt_format opts) cp) (\<lambda>Q.
         if \<not> d_md_open h then Inr None
         else case read_signature opts cp p of
           None \<Rightarrow> Inr None
         | Some None \<Rightarrow> Inr (Some (1, p))
         | Some (Some sigbuf) \<Rightarrow>
             let taillen = (if \<not> opt_sigappend opts then 0 else if opt_sigbin opts then sig_len_bin cp else sig_len_compact cp)
             in case verisign_loop (p_in p) (p_out p) [] taillen (opt_sigcopy opts) of
                  None \<Rightarrow> Inr None
                | Some (src, out, mh, tail) \<Rightarrow>
                    let p = p\<lparr>p_in := src, p_out := out\<rparr>; md = d_sha512 h mh;
                        sigbuf = (if opt_sigappend opts then tail else sigbuf)
                    in rbind (signature_number L opts cp sig sigbuf) (\<lambda>s.
                       case s of
                         None \<Rightarrow> Inr (Some (1, p))
                       | Some s \<Rightarrow>
                           rbind (ECDSA_verify g md Q s cp) (\<lambda>res. Inr (Some (if res then 0 else 1, p))))))"

definition app_verify :: "lib \<Rightarrow> options \<Rightarrow> byte list \<Rightarrow> byte list option \<Rightarrow> proc \<Rightarrow> (int \<times> proc) run" where
  "app_verify L opts pubkey sig p =
     (if of_bool (sig \<noteq> None) + of_bool (opt_sigfile opts \<noteq> None) + of_bool (opt_sigappend opts) \<noteq> (1 :: nat) then Inr None
      else if sig \<noteq> None \<and> opt_sigbin opts then Inr None
      else run_bind (curve_of_key L opts (opt_curve opts) pubkey) (\<lambda>cp. verify_with L opts cp pubkey sig p))"

section \<open>Key agreement\<close>

definition key_text :: "lib \<Rightarrow> options \<Rightarrow> curve_params \<Rightarrow> byte list \<Rightarrow> byte list res" where
  "key_text L opts cp keybuf =
     rbind (deserialize_mpi (l_gcry L) DF_BIN (take (dh_len_bin cp) keybuf)) (\<lambda>h.
     case h of
       None \<Rightarrow> Inl Assert_Fail
     | Some h \<Rightarrow> serialize_mpi (l_gcry L) (dh_len_compact cp) (opt_format opts) h)"

text \<open>
  The results are what is printed: the key for the peer, the established key and the
  verification key. The key of the peer is read from standard input.
\<close>

definition dh_with :: "lib \<Rightarrow> options \<Rightarrow> curve_params \<Rightarrow> proc \<Rightarrow> (byte list \<times> byte list \<times> byte list \<times> proc) run" where
  "dh_with L opts cp p =
     (let g = l_gcry L; h = l_digests L
      in rbind (DH_step1 g cp (l_rnd L) (p_rnd p)) (\<lambda>(a, A, i).
         rbind (compress_to_string g (opt_format opts) A cp) (\<lambda>keyA.
         if \<not> f_ok (p_stdin p) then Inr None
         else
           let keyB = strcspn [13, 10] (fgets_line (pk_len_compact cp + 2) (f_data (p_stdin p)))
           in if length keyB \<noteq> pk_len_compact cp then Inr None
              else run_bind (decompress_from_string g (keyB @ [0]) (opt_format opts) cp) (\<lambda>B.
                rbind (DH_step2 g h B a cp) (\<lambda>key.
                case key of
                  None \<Rightarrow> Inr None
                | Some keybuf \<Rightarrow>
                    rbind (rassert (dh_len_bin cp \<le> 32)) (\<lambda>_.
                    rbind (key_text L opts cp keybuf) (\<lambda>established.
                    rbind (key_text L opts cp (drop 32 keybuf)) (\<lambda>verification.
                      Inr (Some (keyA, established, verification, p\<lparr>p_rnd := i\<rparr>))))))))))"

definition app_dh :: "lib \<Rightarrow> options \<Rightarrow> proc \<Rightarrow> (byte list \<times> byte list \<times> byte list \<times> proc) run" where
  "app_dh L opts p = run_bind (named_curve L opts (opt_curve opts)) (\<lambda>cp. dh_with L opts cp p)"

end
