(* ===== verification/Seccure_Main.thy ===== *)
theory Seccure_Main
  imports Seccure
begin

text \<open>
  \<^verbatim>\<open>main\<close> of \<^verbatim>\<open>seccure/seccure.c\<close>: the options, the files, and the choice of the command by the name
  of the program. What \<^verbatim>\<open>getopt\<close> finds, options with their arguments and the operands, is given.
\<close>

section \<open>Options\<close>

text \<open>\<^verbatim>\<open>atoi\<close>: white space, a sign, digits; a number that does not fit is undefined.\<close>

definition is_space :: "char \<Rightarrow> bool" where
  "is_space c \<longleftrightarrow> (of_char c :: nat) \<in> {9, 10, 11, 12, 13, 32}"

fun digits_value :: "int \<Rightarrow> string \<Rightarrow> int" where
  "digits_value x [] = x"
| "digits_value x (c # cs) =
     (let d = of_char c - 48 in if 0 \<le> d \<and> d \<le> 9 then digits_value (10 * x + d) cs else x)"

definition atoi :: "string \<Rightarrow> int res" where
  "atoi s =
     (let s = dropWhile is_space s;
          x = (case s of
                 [] \<Rightarrow> 0
               | c # cs \<Rightarrow>
                   if c = CHR ''-'' then - digits_value 0 cs
                   else if c = CHR ''+'' then digits_value 0 cs else digits_value 0 s)
      in if - 2147483648 \<le> x \<and> x < 2147483648 then Inr x else Inl Signed_Overflow)"

record settings =
  st_opts :: options
  st_infile :: "string option"
  st_outfile :: "string option"
  st_pwfile :: "string option"
  st_help :: bool

definition default_settings :: settings where
  "default_settings =
     \<lparr>st_opts = \<lparr>opt_sigcopy = False, opt_sigbin = False, opt_sigappend = False, opt_dblprompt = False,
        opt_maclen = - 1, opt_format = DF_COMPACT, opt_curve = None, opt_curve2 = None, opt_sigfile = None\<rparr>,
      st_infile = None, st_outfile = None, st_pwfile = None, st_help = False\<rparr>"

definition set_option :: "char \<Rightarrow> string \<Rightarrow> settings \<Rightarrow> settings run" where
  "set_option i optarg st =
     (let opts = st_opts st; set = (\<lambda>opts. Inr (Some (st\<lparr>st_opts := opts\<rparr>)))
      in if i = CHR ''r'' then set (opts\<lparr>opt_format := DF_BASE36\<rparr>)
         else if i = CHR ''f'' then set (opts\<lparr>opt_sigcopy := True\<rparr>)
         else if i = CHR ''b'' then set (opts\<lparr>opt_sigbin := True\<rparr>)
         else if i = CHR ''a'' then set (opts\<lparr>opt_sigappend := True\<rparr>)
         else if i = CHR ''d'' then set (opts\<lparr>opt_dblprompt := True\<rparr>)
         else if i = CHR ''m'' then
           rbind (atoi optarg) (\<lambda>n.
             if n < 0 \<or> n > 256 \<or> n mod 8 \<noteq> 0 then Inr None else set (opts\<lparr>opt_maclen := n div 8\<rparr>))
         else if i = CHR ''i'' then Inr (Some (st\<lparr>st_infile := Some optarg\<rparr>))
         else if i = CHR ''o'' then Inr (Some (st\<lparr>st_outfile := Some optarg\<rparr>))
         else if i = CHR ''F'' then Inr (Some (st\<lparr>st_pwfile := Some optarg\<rparr>))
         else if i = CHR ''s'' then set (opts\<lparr>opt_sigfile := Some optarg\<rparr>)
         else if i = CHR ''c'' then
           (if opt_curve opts = None then set (opts\<lparr>opt_curve := Some optarg\<rparr>)
            else set (opts\<lparr>opt_curve2 := Some optarg\<rparr>))
         else if i = CHR ''h'' then Inr (Some (st\<lparr>st_help := True\<rparr>))
         else if i = CHR ''v'' \<or> i = CHR ''q'' then Inr (Some st)
         else Inr None)"

fun set_options :: "(char \<times> string) list \<Rightarrow> settings \<Rightarrow> settings run" where
  "set_options [] st = Inr (Some st)"
| "set_options ((i, optarg) # rest) st = run_bind (set_option i optarg st) (set_options rest)"

section \<open>Files\<close>

text \<open>What the system gives: files by name, whether they are terminals, the standard streams.\<close>

record host =
  h_version :: bool
  h_open :: "string \<Rightarrow> source option"
  h_create :: "string \<Rightarrow> nat \<Rightarrow> sink option"
  h_isatty :: "string \<Rightarrow> bool"
  h_stdin :: source
  h_stdin_tty :: bool
  h_stdout :: sink
  h_sigfile :: "string \<Rightarrow> stdfile"
  h_stderr :: stdfile
  h_lines :: stdfile

text \<open>The name of the program, from the last slash on.\<close>

definition program_name :: "string \<Rightarrow> string" where
  "program_name argv0 =
     (let base = rev (takeWhile (\<lambda>c. c \<noteq> CHR ''/'') (rev argv0))
      in if length base = length argv0 then argv0 else CHR ''/'' # base)"

text \<open>
  Passphrases come from the given file, from the terminal when the message is piped in, and else
  from standard input, which then is also the input of the message unless \<^verbatim>\<open>-i\<close> is given.
\<close>

definition open_passphrase :: "host \<Rightarrow> settings \<Rightarrow> (source option \<times> bool) option" where
  "open_passphrase w st =
     (case st_pwfile st of
        Some f \<Rightarrow> (case h_open w f of None \<Rightarrow> None | Some s \<Rightarrow> Some (Some s, h_isatty w f))
      | None \<Rightarrow>
          if st_infile st = None \<and> \<not> h_stdin_tty w then
            (case h_open w ''/dev/tty'' of None \<Rightarrow> None | Some s \<Rightarrow> Some (Some s, h_isatty w ''/dev/tty''))
          else Some (if st_infile st = None then None else Some (h_stdin w), h_stdin_tty w))"

definition open_files :: "host \<Rightarrow> string \<Rightarrow> settings \<Rightarrow> proc option" where
  "open_files w progname st =
     (case (case st_infile st of None \<Rightarrow> Some (h_stdin w) | Some f \<Rightarrow> h_open w f) of
        None \<Rightarrow> None
      | Some src \<Rightarrow>
          (case (case st_outfile st of
                   None \<Rightarrow> Some (h_stdout w)
                 | Some f \<Rightarrow> h_create w f (if strstr progname ''decrypt'' \<or> strstr progname ''veridec'' then 384 else 420)) of
             None \<Rightarrow> None
           | Some snk \<Rightarrow>
               (case open_passphrase w st of
                  None \<Rightarrow> None
                | Some (pw, tty) \<Rightarrow>
                    Some \<lparr>p_in = src, p_out = snk, p_pw = pw, p_tty = tty, p_rnd = 0,
                      p_sig = (case opt_sigfile (st_opts st) of None \<Rightarrow> h_stderr w | Some f \<Rightarrow> h_sigfile w f),
                      p_err = h_stderr w, p_stdin = h_lines w\<rparr>)))"

section \<open>Commands\<close>

text \<open>How the program ends, if not with a fatal error: with its usage, or with a status, the lines of
  standard output and the final state.\<close>

datatype ending = Usage | Ends int "byte list list" proc

definition run_command :: "lib \<Rightarrow> string \<Rightarrow> settings \<Rightarrow> string list \<Rightarrow> proc \<Rightarrow> ending run" where
  "run_command L progname st args p =
     (let opts = st_opts st; n = length args; arg = (\<lambda>i. ascii (args ! i));
          usage = (\<lambda>wrong run. if st_help st \<or> wrong then Inr (Some Usage) else run);
          status = (\<lambda>(res, p). Inr (Some (Ends res [] p)))
      in if strstr progname ''key'' then
           usage (n \<noteq> 0) (run_bind (app_print_public_key L opts p) (\<lambda>(pubkey, p). Inr (Some (Ends 0 [pubkey] p))))
         else if strstr progname ''encrypt'' then
           usage (n \<noteq> 1) (run_bind (app_encrypt L opts (arg 0) p) (\<lambda>p. status (0, p)))
         else if strstr progname ''decrypt'' then
           usage (n \<noteq> 0) (run_bind (app_decrypt L opts p) status)
         else if strstr progname ''signcrypt'' then
           usage (n \<noteq> 1) (run_bind (app_signcrypt L opts (arg 0) p) (\<lambda>p. status (0, p)))
         else if strstr progname ''veridec'' then
           usage (n \<noteq> 1) (run_bind (app_veridec L opts (arg 0) p) status)
         else if strstr progname ''sign'' then
           usage (n \<noteq> 0) (run_bind (app_sign L opts p) (\<lambda>p. status (0, p)))
         else if strstr progname ''verify'' then
           usage (n \<noteq> 2 \<and> n \<noteq> 1)
             (run_bind (app_verify L opts (arg 0) (if n = 1 then None else Some (arg 1)) p) status)
         else if strstr progname ''dh'' then
           usage (n \<noteq> 0) (run_bind (app_dh L opts p) (\<lambda>(keyA, established, verification, p).
             Inr (Some (Ends 0 [established, verification] p))))
         else Inr None)"

definition seccure_main :: "lib \<Rightarrow> host \<Rightarrow> string \<Rightarrow> (char \<times> string) list \<Rightarrow> string list \<Rightarrow> ending run" where
  "seccure_main L w argv0 options args =
     rbind (rassert (h_version w)) (\<lambda>_.
     let progname = program_name argv0
     in run_bind (set_options options default_settings) (\<lambda>st.
        case open_files w progname st of
          None \<Rightarrow> Inr None
        | Some p \<Rightarrow> run_command L progname st args p))"

section \<open>What the options can be\<close>

lemma set_option_fits:
  assumes "set_option i optarg st = Inr (Some st')" "opt_maclen (st_opts st) \<le> 32" "opt_format (st_opts st) \<noteq> DF_BIN"
  shows "opt_maclen (st_opts st') \<le> 32 \<and> opt_format (st_opts st') \<noteq> DF_BIN"
  using assms by (auto simp: set_option_def Let_def elim!: rbind_InrE split: if_splits)

text \<open>Whatever the options are, the MAC fits the digest and keys are text: the hypotheses under which
  the commands undo each other.\<close>

lemma options_fit:
  assumes "set_options options default_settings = Inr (Some st)"
  shows "mac_len (st_opts st) \<le> 32" "opt_format (st_opts st) \<noteq> DF_BIN"
proof -
  have "opt_maclen (st_opts st') \<le> 32 \<and> opt_format (st_opts st') \<noteq> DF_BIN"
    if "set_options options st = Inr (Some st')" "opt_maclen (st_opts st) \<le> 32" "opt_format (st_opts st) \<noteq> DF_BIN" for st st'
    using that
  proof (induction options arbitrary: st)
    case (Cons a rest)
    obtain i optarg where a: "a = (i, optarg)" by (cases a)
    from Cons.prems(1) obtain st1 where "set_option i optarg st = Inr (Some st1)" "set_options rest st1 = Inr (Some st')"
      by (auto simp: a run_bind_def elim!: rbind_InrE split: option.splits)
    with Cons set_option_fits show ?case by blast
  qed simp
  from this [OF assms] show "mac_len (st_opts st) \<le> 32" "opt_format (st_opts st) \<noteq> DF_BIN"
    by (auto simp: default_settings_def mac_len_def)
qed

text \<open>The programs that are installed run the command of their name, although some names contain others.\<close>

lemma commands_by_name:
  assumes "\<not> st_help st"
  shows "run_command L ''seccure-key'' st [] p =
      run_bind (app_print_public_key L (st_opts st) p) (\<lambda>(pubkey, p). Inr (Some (Ends 0 [pubkey] p)))"
    "run_command L ''seccure-encrypt'' st [k] p = run_bind (app_encrypt L (st_opts st) (ascii k) p) (\<lambda>p. Inr (Some (Ends 0 [] p)))"
    "run_command L ''seccure-decrypt'' st [] p = run_bind (app_decrypt L (st_opts st) p) (\<lambda>(res, p). Inr (Some (Ends res [] p)))"
    "run_command L ''seccure-signcrypt'' st [k] p = run_bind (app_signcrypt L (st_opts st) (ascii k) p) (\<lambda>p. Inr (Some (Ends 0 [] p)))"
    "run_command L ''seccure-veridec'' st [k] p = run_bind (app_veridec L (st_opts st) (ascii k) p) (\<lambda>(res, p). Inr (Some (Ends res [] p)))"
    "run_command L ''seccure-sign'' st [] p = run_bind (app_sign L (st_opts st) p) (\<lambda>p. Inr (Some (Ends 0 [] p)))"
    "run_command L ''seccure-verify'' st [k] p = run_bind (app_verify L (st_opts st) (ascii k) None p) (\<lambda>(res, p). Inr (Some (Ends res [] p)))"
    "run_command L ''seccure-dh'' st [] p =
      run_bind (app_dh L (st_opts st) p) (\<lambda>(keyA, established, verification, p). Inr (Some (Ends 0 [established, verification] p)))"
  using assms by (simp_all add: run_command_def Let_def case_prod_unfold)

end
