(* ===== verification/Seccure_Props.thy ===== *)
theory Seccure_Props
  imports Seccure Curves_Props
begin

text \<open>
  The commands of \<^verbatim>\<open>seccure\<close> undo each other: what one user encrypts for the public key of another,
  the other decrypts with the passphrase of that key.
\<close>

section \<open>Passphrases\<close>

definition digests_ok :: "digests \<Rightarrow> bool" where
  "digests_ok h \<longleftrightarrow> d_hmac_open h \<and> d_md_open h \<and> (\<forall>k m. length (d_hmac256 h k m) = 32) \<and>
     (\<forall>m. length (d_sha256 h m) = 32) \<and> (\<forall>m. length (d_sha512 h m) = 64)"

definition lib_ok :: "lib \<Rightarrow> bool" where
  "lib_ok L \<longleftrightarrow> gcry_ok (l_gcry L) \<and> cipher_ok (l_cipher L) \<and> digests_ok (l_digests L)"

lemma lib_okD:
  assumes "lib_ok L"
  shows "gcry_ok (l_gcry L)" "cipher_ok (l_cipher L)" "d_hmac_open (l_digests L)" "d_md_open (l_digests L)"
    "length (d_hmac256 (l_digests L) k m) = 32" "length (d_sha256 (l_digests L) m) = 32"
    "length (d_sha512 (l_digests L) m) = 64"
  using assms by (simp_all add: lib_ok_def digests_ok_def)

text \<open>The first line of what is typed, without carriage returns, and the private key made from it.\<close>

definition first_line :: "byte list \<Rightarrow> byte list" where
  "first_line bs = filter (\<lambda>ch. ch \<noteq> 13) (takeWhile (\<lambda>ch. ch \<noteq> 10) bs)"

definition secret :: "lib \<Rightarrow> curve_params \<Rightarrow> byte list \<Rightarrow> int" where
  "secret L cp line = stream_exponent (l_gcry L) (l_cipher L) (d_sha256 (l_digests L) line) cp"

lemma secret_range:
  assumes "base_ok g (cp_dp cp)"
  shows "0 < secret L cp line" "secret L cp line < dp_order (cp_dp cp)"
  unfolding secret_def stream_exponent_def using buf_to_exponent_range [OF assms] by blast+

lemma pass_loop_ok:
  "reads_ok src \<Longrightarrow> \<exists>src'. pass_loop src mh = Some (mh @ first_line (s_data src), src') \<and> reads_ok src'"
proof (induction "length (s_data src)" arbitrary: src mh rule: less_induct)
  case less
  obtain m s1 where m: "rd 1 src = (Some (take m (s_data src)), s1)" "s_data s1 = drop m (s_data src)"
    "reads_ok s1" "0 < m" "m \<le> 1"
    using rd_ok [OF less.prems, of 1] by auto
  then have one: "m = 1" by simp
  show ?case
  proof (cases "s_data src")
    case Nil
    with m(1,3) show ?thesis by (subst pass_loop.simps) (simp add: first_line_def)
  next
    case (Cons ch rest)
    then have s1: "rd 1 src = (Some [ch], s1)" "s_data s1 = rest"
      using m(1,2) one by simp_all
    have lt: "length (s_data s1) < length (s_data src)" using s1(2) Cons by simp
    show ?thesis
    proof (cases "ch = 10")
      case True
      with Cons s1 m(3) show ?thesis by (subst pass_loop.simps) (simp add: first_line_def)
    next
      case False
      with Cons s1 less.hyps [OF lt m(3), of "if ch \<noteq> 13 then mh @ [ch] else mh"] show ?thesis
        by (subst pass_loop.simps) (auto simp: first_line_def)
    qed
  qed
qed

lemma private_key_ok:
  assumes "lib_ok L" "p_pw p = Some s" "reads_ok s" "\<not> opt_dblprompt opts"
  shows "\<exists>pw. private_key L opts cp p = Inr (Some (secret L cp (first_line (s_data s)), p\<lparr>p_pw := Some pw\<rparr>))"
proof -
  let ?h = "d_sha256 (l_digests L) (first_line (s_data s))"
  obtain pw where "pass_loop s [] = Some (first_line (s_data s), pw)"
    using pass_loop_ok [OF assms(3), of "[]"] by auto
  then have r: "read_passphrase (l_digests L) opts p = Some (?h, p\<lparr>p_pw := Some pw\<rparr>)"
    using assms(2,4) lib_okD(4,6) [OF assms(1)] by (simp add: read_passphrase_def do_read_passphrase_def pw_source_def set_pw_def)
  have "hash_to_exponent (l_gcry L) (l_cipher L) (l_mem L) ?h cp = Inr (secret L cp (first_line (s_data s)))"
    using hash_to_exponent_ok [OF lib_okD(2) [OF assms(1)], of "l_gcry L" "l_mem L" ?h cp] lib_okD(6) [OF assms(1)]
    by (simp add: secret_def)
  with r show ?thesis by (intro exI [of _ pw]) (simp add: private_key_def)
qed

text \<open>The public key of a passphrase.\<close>

definition public_point :: "lib \<Rightarrow> curve_params \<Rightarrow> byte list \<Rightarrow> affine_point" where
  "public_point L cp line = multiple (l_gcry L) (cp_dp cp) (nat (secret L cp line))"

lemma public_point:
  assumes "lib_ok L" "base_ok (l_gcry L) (cp_dp cp)"
  shows "pointmul (l_gcry L) (dp_base (cp_dp cp)) (secret L cp line) (cp_dp cp) = Inr (public_point L cp line)"
    "curve_point (cp_dp cp) (public_point L cp line)" "\<not> point_is_zero (public_point L cp line)"
proof -
  note r = secret_range [OF assms(2), of L line]
  show "pointmul (l_gcry L) (dp_base (cp_dp cp)) (secret L cp line) (cp_dp cp) = Inr (public_point L cp line)"
    using pointmul_base [OF lib_okD(1) [OF assms(1)] assms(2), of "secret L cp line"] r
    by (simp add: public_point_def nat_less_iff)
  show "curve_point (cp_dp cp) (public_point L cp line)"
    unfolding public_point_def by (rule multiple_curve [OF lib_okD(1) [OF assms(1)] assms(2)])
  show "\<not> point_is_zero (public_point L cp line)"
    unfolding public_point_def using base_okD(8) [OF assms(2)] r by (simp add: nat_less_iff)
qed

lemma print_key_ok:
  assumes "lib_ok L" "base_ok (l_gcry L) (cp_dp cp)" "lengths_ok (opt_format opts) cp" "opt_format opts \<noteq> DF_BIN"
    "p_pw p = Some s" "reads_ok s" "\<not> opt_dblprompt opts"
  shows "\<exists>pubkey p'. print_public_key_with L opts cp p = Inr (Some (pubkey, p')) \<and> length pubkey = pk_len_compact cp \<and>
    decompress_from_string (l_gcry L) (pubkey @ [0]) (opt_format opts) cp =
      Inr (Some (public_point L cp (first_line (s_data s))))"
proof -
  let ?l = "first_line (s_data s)"
  obtain pw where "private_key L opts cp p = Inr (Some (secret L cp ?l, p\<lparr>p_pw := Some pw\<rparr>))"
    using private_key_ok [OF assms(1,5-7)] by blast
  moreover obtain pubkey where
    "compress_to_string (l_gcry L) (opt_format opts) (public_point L cp ?l) cp = Inr pubkey"
    "length pubkey = pk_len_compact cp"
    "decompress_from_string (l_gcry L) (pubkey @ [0]) (opt_format opts) cp = Inr (Some (public_point L cp ?l))"
    using compress [OF lib_okD(1) [OF assms(1)] base_okD(1) [OF assms(2)] public_point(2,3) [OF assms(1,2)] assms(3) disjI1 [OF refl], of ?l "[]"]
      assms(4) by auto
  ultimately show ?thesis
    using public_point(1) [OF assms(1,2), of ?l] by (auto simp: print_public_key_with_def)
qed

section \<open>Encryption and decryption\<close>

text \<open>
  The head of a message, \<open>rbuf\<close>, is the start of a session with the owner of a passphrase when it
  leads the owner to the session key; the rest is the plain text under the key stream.
\<close>

definition session :: "lib \<Rightarrow> curve_params \<Rightarrow> byte list \<Rightarrow> byte list \<Rightarrow> byte list \<Rightarrow> bool" where
  "session L cp line rbuf key \<longleftrightarrow> length rbuf = pk_len_bin cp \<and>
     (\<exists>R. decompress_from_string (l_gcry L) rbuf DF_BIN cp = Inr (Some R) \<and>
        ECIES_decryption (l_gcry L) (l_digests L) R (secret L cp line) cp = Inr (Some key))"

definition sealed :: "lib \<Rightarrow> byte list \<Rightarrow> byte list \<Rightarrow> byte list" where
  "sealed L key m = xor_bytes m (stream (l_cipher L) (take 32 key) 0 (length m))"

definition mac_of :: "lib \<Rightarrow> options \<Rightarrow> byte list \<Rightarrow> byte list \<Rightarrow> byte list" where
  "mac_of L opts key ct =
     (if mac_len opts = 0 then [] else take (mac_len opts) (d_hmac256 (l_digests L) (mac_key key) ct))"

lemma length_sealed [simp]: "length (sealed L key m) = length m"
  by (simp add: sealed_def)

lemma unsealed: "xor_bytes (sealed L key m) (stream (l_cipher L) (take 32 key) 0 (length m)) = m"
  by (simp add: sealed_def xor_bytes_twice)

lemma sealed_append:
  "sealed L key (m @ m') = sealed L key m @ xor_bytes m' (stream (l_cipher L) (take 32 key) (length m) (length m'))"
  by (simp add: sealed_def stream_append xor_bytes_append)

lemma session_starts:
  assumes "lib_ok L" "base_ok (l_gcry L) (cp_dp cp)" "lengths_ok df cp" "i \<le> k" "usable cp (l_rnd L k)"
  shows "\<exists>key R j rbuf. ECIES_encryption (l_gcry L) (l_digests L) (public_point L cp line) cp (l_rnd L) i = Inr (key, R, j) \<and>
    compress_to_string (l_gcry L) DF_BIN R cp = Inr rbuf \<and> session L cp line rbuf key"
proof -
  note g = lib_okD(1) [OF assms(1)]
  obtain key n j where e: "ECIES_encryption (l_gcry L) (l_digests L) (public_point L cp line) cp (l_rnd L) i =
      Inr (key, multiple (l_gcry L) (cp_dp cp) n, j)" "0 < n" "n < ord (cp_dp cp)"
    "ECIES_decryption (l_gcry L) (l_digests L) (multiple (l_gcry L) (cp_dp cp) n) (secret L cp line) cp = Inr (Some key)"
    using ecies [where rnd = "l_rnd L" and k = k, OF g assms(2,3) secret_range [OF assms(2), of L line] assms(4,5), of "l_digests L"]
    unfolding public_point_def by blast
  obtain rbuf where "compress_to_string (l_gcry L) DF_BIN (multiple (l_gcry L) (cp_dp cp) n) cp = Inr rbuf"
    "length rbuf = pk_len_bin cp"
    "decompress_from_string (l_gcry L) (rbuf @ []) DF_BIN cp = Inr (Some (multiple (l_gcry L) (cp_dp cp) n))"
    using compress [OF g base_okD(1) [OF assms(2)] multiple_curve [OF g assms(2)] base_okD(8) [OF assms(2) e(2,3)] assms(3) disjI2 [OF refl], of "[]"]
    by auto
  with e(1,4) show ?thesis by (auto simp: session_def)
qed

lemma read_head:
  assumes "reads_ok s" "s_data s = rbuf @ rest" "length rbuf = n"
  shows "\<exists>s'. read_block n s [] = Some (Some rbuf, s') \<and> s_data s' = rest \<and> reads_ok s'"
  using read_block_ok [OF assms(1), of n "[]"] assms(2,3) by auto

lemma memcmp_same: "memcmp xs xs = 0"
  by simp

text \<open>A public key, as far as the one who uses it can tell.\<close>

definition key_of :: "lib \<Rightarrow> options \<Rightarrow> curve_params \<Rightarrow> byte list \<Rightarrow> byte list \<Rightarrow> bool" where
  "key_of L opts cp line pubkey \<longleftrightarrow>
     decompress_from_string (l_gcry L) (pubkey @ [0]) (opt_format opts) cp = Inr (Some (public_point L cp line))"

lemma encrypt_ok:
  assumes "lib_ok L" "base_ok (l_gcry L) (cp_dp cp)" "lengths_ok df cp" "key_of L opts cp line pubkey"
    "reads_ok (p_in p)" "writes_ok (p_out p)" "p_rnd p \<le> k" "usable cp (l_rnd L k)"
  shows "\<exists>p' rbuf key. encrypt_with L opts cp pubkey p = Inr (Some p') \<and> session L cp line rbuf key \<and>
    k_data (p_out p') = k_data (p_out p) @ rbuf @ sealed L key (s_data (p_in p)) @ mac_of L opts key (sealed L key (s_data (p_in p)))"
proof -
  let ?g = "l_gcry L" and ?c = "l_cipher L" and ?h = "l_digests L" and ?M = "mac_len opts"
  obtain key R j rbuf where s: "ECIES_encryption ?g ?h (public_point L cp line) cp (l_rnd L) (p_rnd p) = Inr (key, R, j)"
    "compress_to_string ?g DF_BIN R cp = Inr rbuf" "session L cp line rbuf key"
    using session_starts [OF assms(1-3,7,8)] by blast
  obtain ac where ac: "aes256ctr_init ?c key (l_mem L) = Some ac" "at_pos ?c (take 32 key) ac 0"
    using init_at_pos [OF lib_okD(2) [OF assms(1)]] by blast
  obtain o1 where o1: "write_block rbuf (p_out p) = Some o1" "k_data o1 = k_data (p_out p) @ rbuf" "writes_ok o1"
    using write_block_ok [OF assms(6)] by blast
  define out where "out = sealed L key (s_data (p_in p))"
  let ?mh = "if ?M \<noteq> 0 then Some [] else None"
  obtain src' o2 ac' where e: "encryption_loop ?c (p_in p) o1 ac None ?mh =
      Inr (Some (src', o2, ac', None, if ?M \<noteq> 0 then Some out else None))" "k_data o2 = k_data o1 @ out" "writes_ok o2"
    using encryption_loop_ok [OF lib_okD(2) [OF assms(1)] assms(5) o1(3) ac(2), of None ?mh]
    by (auto simp: Let_def md_write_def out_def sealed_def split: if_splits)
  obtain o3 where o3: "write_block (take ?M (d_hmac256 ?h (mac_key key) out)) o2 = Some o3"
    "k_data o3 = k_data o2 @ take ?M (d_hmac256 ?h (mac_key key) out)"
    using write_block_ok [OF e(3)] by blast
  have "\<exists>p'. encrypt_with L opts cp pubkey p = Inr (Some p') \<and>
      k_data (p_out p') = k_data (p_out p) @ rbuf @ out @ mac_of L opts key out"
    using assms(4) s(1,2) ac(1) o1(1,2) e(1,2) o3 lib_okD(3) [OF assms(1)]
    by (auto simp: encrypt_with_def Let_def mac_of_def key_of_def)
  with s(3) show ?thesis unfolding out_def by blast
qed

lemma decrypt_ok:
  assumes "lib_ok L" "\<not> opt_dblprompt opts" "mac_len opts \<le> 32" "session L cp (first_line (s_data s)) rbuf key"
    "reads_ok (p_in r)" "writes_ok (p_out r)" "p_pw r = Some s" "reads_ok s"
    "s_data (p_in r) = rbuf @ sealed L key m @ mac_of L opts key (sealed L key m)"
  shows "\<exists>r'. decrypt_with L opts cp r = Inr (Some (0, r')) \<and> k_data (p_out r') = k_data (p_out r) @ m"
proof -
  let ?c = "l_cipher L" and ?M = "mac_len opts"
  define out where "out = sealed L key m"
  define mac where "mac = mac_of L opts key out"
  obtain R where R: "decompress_from_string (l_gcry L) rbuf DF_BIN cp = Inr (Some R)"
    "ECIES_decryption (l_gcry L) (l_digests L) R (secret L cp (first_line (s_data s))) cp = Inr (Some key)"
    "length rbuf = pk_len_bin cp"
    using assms(4) by (auto simp: session_def)
  have in_data: "s_data (p_in r) = rbuf @ out @ mac"
    unfolding out_def mac_def by (rule assms(9))
  obtain pw where d: "private_key L opts cp r = Inr (Some (secret L cp (first_line (s_data s)), r\<lparr>p_pw := Some pw\<rparr>))"
    using private_key_ok [OF assms(1,7,8,2)] by blast
  obtain s1 where s1: "read_block (pk_len_bin cp) (p_in r) [] = Some (Some rbuf, s1)" "s_data s1 = out @ mac" "reads_ok s1"
    using read_head [OF assms(5) in_data R(3)] by blast
  obtain ac where ac: "aes256ctr_init ?c key (l_mem L) = Some ac" "at_pos ?c (take 32 key) ac 0"
    using init_at_pos [OF lib_okD(2) [OF assms(1)]] by blast
  have len: "length mac = ?M" using lib_okD(5) [OF assms(1)] assms(3) by (simp add: mac_def mac_of_def)
  have plain: "xor_bytes out (stream ?c (take 32 key) 0 (length out)) = m"
    by (simp add: out_def unsealed)
  let ?mh = "if ?M \<noteq> 0 then Some [] else None"
  have "?M < COPYBUF_SIZE" using assms(3) by simp
  then obtain s2 k2 ac2 where l: "decryption_loop ?c s1 (p_out r) ac ?mh None ?M =
      Inr (Some (s2, k2, ac2, if ?M \<noteq> 0 then Some out else None, None, mac))"
    "k_data k2 = k_data (p_out r) @ m"
    using plain decryption_loop_ok [OF lib_okD(2) [OF assms(1)] _ s1(3) assms(6) ac(2) s1(2) len, of ?mh None]
    by (auto simp: Let_def md_write_def split: if_splits)
  show ?thesis
    using d s1(1) R(1,2) ac(1) l lib_okD(3) [OF assms(1)]
    by (auto simp: decrypt_with_def Let_def mac_def mac_of_def)
qed

lemma key_printed:
  assumes "lib_ok L" "base_ok (l_gcry L) (cp_dp cp)" "lengths_ok (opt_format opts) cp" "opt_format opts \<noteq> DF_BIN"
    "p_pw p = Some s" "reads_ok s" "\<not> opt_dblprompt opts"
  shows "\<exists>pubkey p'. print_public_key_with L opts cp p = Inr (Some (pubkey, p')) \<and> key_of L opts cp (first_line (s_data s)) pubkey"
  using print_key_ok [OF assms] by (auto simp: key_of_def)

text \<open>C32. Encryption and decryption. A user prints the public key of a passphrase; anyone encrypts a
  message with that key, when the random numbers reach a usable one; whoever gets the output
  and knows the passphrase decrypts it, with exit status 0, to the message, with a MAC of any
  length up to that of the digest or without, however reads and writes are cut on either side.\<close>

theorem encrypt_decrypt_roundtrip:
  assumes "lib_ok L" "base_ok (l_gcry L) (cp_dp cp)" "lengths_ok (opt_format opts) cp" "opt_format opts \<noteq> DF_BIN"
    "\<not> opt_dblprompt opts" "mac_len opts \<le> 32" "p_pw q = Some s" "reads_ok s" "reads_ok (p_in p)" "writes_ok (p_out p)"
    "p_rnd p \<le> k" "usable cp (l_rnd L k)"
  shows "\<exists>pubkey q' p' text.
    print_public_key_with L opts cp q = Inr (Some (pubkey, q')) \<and>
    encrypt_with L opts cp pubkey p = Inr (Some p') \<and> k_data (p_out p') = k_data (p_out p) @ text \<and>
    (\<forall>r s'. reads_ok (p_in r) \<and> writes_ok (p_out r) \<and> s_data (p_in r) = text \<and> p_pw r = Some s' \<and> reads_ok s' \<and>
        first_line (s_data s') = first_line (s_data s) \<longrightarrow>
      (\<exists>r'. decrypt_with L opts cp r = Inr (Some (0, r')) \<and>
        k_data (p_out r') = k_data (p_out r) @ s_data (p_in p)))"
proof -
  obtain pubkey q' where pk: "print_public_key_with L opts cp q = Inr (Some (pubkey, q'))"
    "key_of L opts cp (first_line (s_data s)) pubkey"
    using key_printed [OF assms(1-4,7,8,5)] by blast
  obtain p' rbuf key where e: "encrypt_with L opts cp pubkey p = Inr (Some p')" "session L cp (first_line (s_data s)) rbuf key"
    "k_data (p_out p') = k_data (p_out p) @ rbuf @ sealed L key (s_data (p_in p)) @ mac_of L opts key (sealed L key (s_data (p_in p)))"
    using encrypt_ok [OF assms(1-3) pk(2) assms(9-12)] by blast
  have "\<exists>r'. decrypt_with L opts cp r = Inr (Some (0, r')) \<and> k_data (p_out r') = k_data (p_out r) @ s_data (p_in p)"
    if r: "reads_ok (p_in r)" "writes_ok (p_out r)" "p_pw r = Some s'" "reads_ok s'" "first_line (s_data s') = first_line (s_data s)"
      "s_data (p_in r) = rbuf @ sealed L key (s_data (p_in p)) @ mac_of L opts key (sealed L key (s_data (p_in p)))" for r s'
    using decrypt_ok [OF assms(1,5,6) _ r(1-4,6)] e(2) unfolding r(5) by blast
  with pk(1) e(1,3) show ?thesis by blast
qed

end
