(* ===== verification/Seccure_Sign.thy ===== *)
theory Seccure_Sign
  imports Seccure_Props
begin

text \<open>
  Signatures, signcryption and key agreement as the commands of \<^verbatim>\<open>seccure\<close> do them: what is signed
  verifies, what is signcrypted is read and verified, and two users agree on the same keys.
\<close>

section \<open>Making a signature\<close>

text \<open>Some exponent of the generator of the signer gives a signature of the message.\<close>

definition signable :: "lib \<Rightarrow> curve_params \<Rightarrow> byte list \<Rightarrow> byte list \<Rightarrow> bool" where
  "signable L cp line m \<longleftrightarrow>
     (let d = secret L cp line; md = d_sha512 (l_digests L) m
      in \<exists>k. sign_round (l_gcry L) md d (nonce (l_gcry L) (l_cipher L) (l_digests L) md d cp k) cp \<noteq> Inr None)"

text \<open>The bytes are, in a format, a signature of the message that verifies with the key of a passphrase.\<close>

definition signed :: "lib \<Rightarrow> curve_params \<Rightarrow> byte list \<Rightarrow> byte list \<Rightarrow> disp_format \<Rightarrow> byte list \<Rightarrow> bool" where
  "signed L cp line m df buf \<longleftrightarrow>
     (\<exists>sig. deserialize_mpi (l_gcry L) df buf = Inr (Some sig) \<and>
        ECDSA_verify (l_gcry L) (d_sha512 (l_digests L) m) (public_point L cp line) sig cp = Inr True)"

abbreviation sig_form :: "options \<Rightarrow> disp_format" where
  "sig_form opts \<equiv> (if opt_sigbin opts then DF_BIN else opt_format opts)"

abbreviation sig_len :: "options \<Rightarrow> curve_params \<Rightarrow> nat" where
  "sig_len opts cp \<equiv> (if opt_sigbin opts then sig_len_bin cp else sig_len_compact cp)"

lemma signature_made:
  assumes "lib_ok L" "base_ok (l_gcry L) (cp_dp cp)" "lengths_ok df cp" "signable L cp line m"
  shows "\<exists>sig. ECDSA_sign (l_gcry L) (l_cipher L) (l_digests L) (l_mem L) (d_sha512 (l_digests L) m) (secret L cp line) cp = Inr sig \<and>
    0 \<le> sig \<and> sig < dp_order (cp_dp cp) * dp_order (cp_dp cp) \<and>
    ECDSA_verify (l_gcry L) (d_sha512 (l_digests L) m) (public_point L cp line) sig cp = Inr True"
proof -
  obtain k where "sign_round (l_gcry L) (d_sha512 (l_digests L) m) (secret L cp line)
      (nonce (l_gcry L) (l_cipher L) (l_digests L) (d_sha512 (l_digests L) m) (secret L cp line) cp k) cp \<noteq> Inr None"
    using assms(4) by (auto simp: signable_def Let_def)
  from ecdsa [OF lib_okD(1,2,3) [OF assms(1)] assms(2,3) secret_range [OF assms(2)] _ this]
  show ?thesis
    using lib_okD(7) [OF assms(1)] by (simp add: public_point_def)
qed

lemma signature_written:
  assumes "gcry_ok (l_gcry L)" "0 \<le> sig" "sig < radix form ^ n"
    "ECDSA_verify (l_gcry L) (d_sha512 (l_digests L) m) (public_point L cp line) sig cp = Inr True"
  shows "\<exists>buf. serialize_mpi (l_gcry L) n form sig = Inr buf \<and> length buf = n \<and> signed L cp line m form buf \<and>
    (form \<noteq> DF_BIN \<longrightarrow> set buf \<inter> {0, 10, 13, 32} = {})"
  using serialize_deserialize [OF assms(1-3)] text_chars [OF assms(1) _ _ assms(2)] assms(4)
  by (fastforce simp: signed_def)

lemma signature_bytes:
  assumes "lib_ok L" "base_ok (l_gcry L) (cp_dp cp)" "lengths_ok (opt_format opts) cp" "signable L cp line m"
  shows "\<exists>sig buf. ECDSA_sign (l_gcry L) (l_cipher L) (l_digests L) (l_mem L) (d_sha512 (l_digests L) m) (secret L cp line) cp = Inr sig \<and>
    serialize_mpi (l_gcry L) (sig_len opts cp) (sig_form opts) sig = Inr buf \<and> length buf = sig_len opts cp \<and>
    signed L cp line m (sig_form opts) buf \<and> (\<not> opt_sigbin opts \<and> opt_format opts \<noteq> DF_BIN \<longrightarrow> set buf \<inter> {0, 10, 13, 32} = {})"
proof -
  obtain sig where s: "ECDSA_sign (l_gcry L) (l_cipher L) (l_digests L) (l_mem L) (d_sha512 (l_digests L) m) (secret L cp line) cp = Inr sig"
    "0 \<le> sig" "sig < dp_order (cp_dp cp) * dp_order (cp_dp cp)"
    "ECDSA_verify (l_gcry L) (d_sha512 (l_digests L) m) (public_point L cp line) sig cp = Inr True"
    using signature_made [OF assms] by blast
  have "sig < radix (sig_form opts) ^ sig_len opts cp"
    using s(3) assms(3) by (auto simp: lengths_ok_def)
  from signature_written [OF lib_okD(1) [OF assms(1)] s(2) this s(4)] s(1) show ?thesis
    by auto
qed

lemma sig_len_pos:
  assumes "base_ok g (cp_dp cp)" "lengths_ok df cp"
  shows "0 < sig_len_bin cp"
proof (rule ccontr)
  assume "\<not> 0 < sig_len_bin cp"
  then have "dp_order (cp_dp cp) * dp_order (cp_dp cp) \<le> 1"
    using assms(2) by (simp add: lengths_ok_def)
  moreover have "1 < dp_order (cp_dp cp)"
    using buf_to_exponent_range [OF assms(1), of g "[]"] by linarith
  ultimately show False
    using mult_less_cancel_right_pos [of "dp_order (cp_dp cp)" 1 "dp_order (cp_dp cp)"] by linarith
qed

section \<open>Lines\<close>

lemma line_read:
  assumes "set t \<inter> {0, 10, 13, 32} = {}" "length t \<le> n" "set reject \<subseteq> {10, 13, 32}" "10 \<in> set reject"
  shows "strcspn reject (fgets_line (n + 2) (t @ 10 # rest)) = t"
proof -
  have "takeWhile (\<lambda>c. c \<noteq> 10) (t @ 10 # rest) = t"
    using assms(1) by (auto simp: takeWhile_append)
  then have "fgets_line (n + 2) (t @ 10 # rest) = t @ [10]"
    using assms(2) by (simp add: fgets_line_def Let_def)
  moreover have "takeWhile (\<lambda>c. c \<noteq> 0 \<and> c \<notin> set reject) (t @ [10]) = t"
    using assms(1,3,4) by (auto simp: takeWhile_append)
  ultimately show ?thesis by (simp add: strcspn_def)
qed

lemma strcspn_text: "0 \<notin> set t \<Longrightarrow> strcspn [] t = t"
  unfolding strcspn_def by (induction t) auto

section \<open>Signing and verifying\<close>

definition usable_file :: "stdfile \<Rightarrow> bool" where
  "usable_file f \<longleftrightarrow> f_open f \<and> f_ok f \<and> f_close f"

abbreviation sig_end :: "options \<Rightarrow> byte list" where
  "sig_end opts \<equiv> (if opt_sigbin opts then [] else [10])"

text \<open>The three ways a signature comes to the one who verifies it.\<close>

definition delivered :: "options \<Rightarrow> byte list \<Rightarrow> byte list \<Rightarrow> byte list option \<Rightarrow> proc \<Rightarrow> bool" where
  "delivered opts m buf sig r \<longleftrightarrow>
     (if opt_sigappend opts then sig = None \<and> s_data (p_in r) = m @ buf
      else s_data (p_in r) = m \<and>
        (if opt_sigfile opts \<noteq> None then sig = None \<and> usable_file (p_sig r) \<and> f_data (p_sig r) = buf @ sig_end opts
         else \<not> opt_sigbin opts \<and> sig = Some buf))"

lemma sign_ok:
  assumes "lib_ok L" "base_ok (l_gcry L) (cp_dp cp)" "lengths_ok (opt_format opts) cp" "\<not> opt_dblprompt opts"
    "p_pw p = Some s" "reads_ok s" "reads_ok (p_in p)" "writes_ok (p_out p)" "signable L cp (first_line (s_data s)) (s_data (p_in p))"
    "usable_file (p_sig p)" "f_ok (p_err p)" "opt_sigappend opts \<Longrightarrow> opt_sigfile opts = None"
  shows "\<exists>p' buf. sign_with L opts cp p = Inr (Some p') \<and> length buf = sig_len opts cp \<and>
    signed L cp (first_line (s_data s)) (s_data (p_in p)) (sig_form opts) buf \<and>
    (\<not> opt_sigbin opts \<and> opt_format opts \<noteq> DF_BIN \<longrightarrow> set buf \<inter> {0, 10, 13, 32} = {}) \<and>
    k_data (p_out p') = k_data (p_out p) @ (if opt_sigcopy opts then s_data (p_in p) else []) @ (if opt_sigappend opts then buf else []) \<and>
    (\<not> opt_sigappend opts \<longrightarrow>
      (if opt_sigfile opts \<noteq> None then f_data (p_sig p') = buf @ sig_end opts
       else f_data (p_err p') = f_data (p_err p) @ buf @ sig_end opts))"
proof -
  let ?line = "first_line (s_data s)" and ?m = "s_data (p_in p)"
  obtain sig buf where sig: "ECDSA_sign (l_gcry L) (l_cipher L) (l_digests L) (l_mem L) (d_sha512 (l_digests L) ?m) (secret L cp ?line) cp = Inr sig"
    "serialize_mpi (l_gcry L) (sig_len opts cp) (sig_form opts) sig = Inr buf" "length buf = sig_len opts cp"
    "signed L cp ?line ?m (sig_form opts) buf" "\<not> opt_sigbin opts \<and> opt_format opts \<noteq> DF_BIN \<longrightarrow> set buf \<inter> {0, 10, 13, 32} = {}"
    using signature_bytes [OF assms(1-3,9)] by blast
  obtain pw where pw: "private_key L opts cp p = Inr (Some (secret L cp ?line, p\<lparr>p_pw := Some pw\<rparr>))"
    using private_key_ok [OF assms(1,5,6,4)] by blast
  obtain src snk where v: "verisign_loop (p_in p) (p_out p) [] 0 (opt_sigcopy opts) = Some (src, snk, ?m, [])"
    "k_data snk = k_data (p_out p) @ (if opt_sigcopy opts then ?m else [])" "writes_ok snk"
    using verisign_loop_ok [OF _ assms(7,8), of 0 ?m "[]" "[]" "opt_sigcopy opts"] by auto
  let ?p = "p\<lparr>p_pw := Some pw, p_in := src, p_out := snk\<rparr>"
  have sign: "sign_with L opts cp p = write_signature L opts cp sig ?p"
    using pw v(1) sig(1) lib_okD(4) [OF assms(1)] by (simp add: sign_with_def Let_def)
  obtain o1 where o1: "write_block buf snk = Some o1" "k_data o1 = k_data snk @ buf"
    using write_block_ok [OF v(3)] by blast
  have ser: "(if opt_sigbin opts then serialize_mpi (l_gcry L) (sig_len_bin cp) DF_BIN sig
      else serialize_mpi (l_gcry L) (sig_len_compact cp) (opt_format opts) sig) = Inr buf"
    using sig(2) by (cases "opt_sigbin opts") simp_all
  have "\<exists>p'. write_signature L opts cp sig ?p = Inr (Some p') \<and>
    k_data (p_out p') = k_data snk @ (if opt_sigappend opts then buf else []) \<and>
    (\<not> opt_sigappend opts \<longrightarrow>
      (if opt_sigfile opts \<noteq> None then f_data (p_sig p') = buf @ sig_end opts
       else f_data (p_err p') = f_data (p_err p) @ buf @ sig_end opts))"
    using assms(10-12) o1
    by (auto simp: write_signature_def ser put_signature_def fput_def usable_file_def Let_def)
  with sign sig(3-5) v(2) show ?thesis by (auto simp: append_assoc)
qed

lemma signature_number_ok:
  assumes "lib_ok L" "signed L cp line m (sig_form opts) buf" "length buf = sig_len opts cp"
    "\<not> opt_sigbin opts \<Longrightarrow> 0 \<notin> set buf" "sig = None \<and> buf' = buf \<or> sig = Some buf \<and> \<not> opt_sigbin opts"
  shows "\<exists>n. signature_number L opts cp sig buf' = Inr (Some n) \<and>
    ECDSA_verify (l_gcry L) (d_sha512 (l_digests L) m) (public_point L cp line) n cp = Inr True"
  using assms(2-5) by (auto simp: signature_number_def signed_def Let_def strcspn_text split: if_splits)

lemma verify_ok:
  assumes "lib_ok L" "key_of L opts cp line pubkey" "signed L cp line m (sig_form opts) buf" "length buf = sig_len opts cp"
    "0 < sig_len_bin cp" "\<not> opt_sigbin opts \<Longrightarrow> set buf \<inter> {0, 10, 13, 32} = {}" "sig_len opts cp < COPYBUF_SIZE"
    "opt_sigappend opts \<Longrightarrow> opt_sigfile opts = None" "delivered opts m buf sig r" "reads_ok (p_in r)" "writes_ok (p_out r)"
  shows "\<exists>r'. verify_with L opts cp pubkey sig r = Inr (Some (0, r')) \<and>
    k_data (p_out r') = k_data (p_out r) @ (if opt_sigcopy opts then m else [])"
proof -
  define t where "t = (if opt_sigappend opts then buf else [])"
  have data: "s_data (p_in r) = m @ t" "length t < COPYBUF_SIZE"
    using assms(4,7,9) by (auto simp: delivered_def t_def split: if_splits)
  obtain src snk where v: "verisign_loop (p_in r) (p_out r) [] (length t) (opt_sigcopy opts) = Some (src, snk, m, t)"
    "k_data snk = k_data (p_out r) @ (if opt_sigcopy opts then m else [])"
    using verisign_loop_ok [OF data(2) assms(10,11) data(1) refl, of "[]" "opt_sigcopy opts"]
    unfolding append_Nil by blast
  have taillen: "(if \<not> opt_sigappend opts then 0 else if opt_sigbin opts then sig_len_bin cp else sig_len_compact cp) = length t"
    using assms(4) by (simp add: t_def)
  have "\<exists>b. read_signature opts cp r = Some (Some b) \<and> (sig = None \<and> (if opt_sigappend opts then t else b) = buf \<or> sig = Some buf \<and> \<not> opt_sigbin opts)"
  proof (cases "opt_sigfile opts")
    case None
    with assms(9) show ?thesis by (auto simp: read_signature_def delivered_def t_def split: if_splits)
  next
    case (Some f)
    with assms(8) have na: "\<not> opt_sigappend opts" by auto
    with assms(9) Some have d: "\<not> opt_sigappend opts" "sig = None" "usable_file (p_sig r)" "f_data (p_sig r) = buf @ sig_end opts"
      by (simp_all add: delivered_def)
    show ?thesis
    proof (cases "opt_sigbin opts")
      case True
      with d Some assms(4,5) show ?thesis by (simp add: read_signature_def usable_file_def)
    next
      case False
      with line_read [OF assms(6), of "sig_len_compact cp" "[32, 13, 10]" "[]"] assms(4) d Some show ?thesis
        by (simp add: read_signature_def usable_file_def)
    qed
  qed
  then obtain b where b: "read_signature opts cp r = Some (Some b)"
    "sig = None \<and> (if opt_sigappend opts then t else b) = buf \<or> sig = Some buf \<and> \<not> opt_sigbin opts" by blast
  obtain n where n: "signature_number L opts cp sig (if opt_sigappend opts then t else b) = Inr (Some n)"
    "ECDSA_verify (l_gcry L) (d_sha512 (l_digests L) m) (public_point L cp line) n cp = Inr True"
    using signature_number_ok [OF assms(1,3,4) _ b(2)] assms(6) by auto
  show ?thesis
    using assms(2) b(1) v n lib_okD(4) [OF assms(1)] unfolding key_of_def
    by (simp add: verify_with_def Let_def taillen)
qed

text \<open>C33. Signatures. A user prints the public key of a passphrase and signs a message with it; the
  signature ends up behind the copy of the message, in the signature file or on standard
  error, in binary or as a line of text. Whoever gets the message and the signature in the
  same way, or passes the text of the signature as an argument, verifies it with the
  public key: the status is 0, and the message alone is copied if that is asked for.\<close>

theorem signatures_verify:
  assumes "lib_ok L" "base_ok (l_gcry L) (cp_dp cp)" "lengths_ok (opt_format opts) cp" "opt_format opts \<noteq> DF_BIN"
    "\<not> opt_dblprompt opts" "sig_len opts cp < COPYBUF_SIZE" "opt_sigappend opts \<Longrightarrow> opt_sigfile opts = None"
    "p_pw q = Some s'" "reads_ok s'" "p_pw p = Some s" "reads_ok s" "first_line (s_data s') = first_line (s_data s)"
    "reads_ok (p_in p)" "writes_ok (p_out p)" "usable_file (p_sig p)" "f_ok (p_err p)"
    "signable L cp (first_line (s_data s)) (s_data (p_in p))"
  shows "\<exists>pubkey q' p' buf.
    print_public_key_with L opts cp q = Inr (Some (pubkey, q')) \<and> sign_with L opts cp p = Inr (Some p') \<and>
    k_data (p_out p') = k_data (p_out p) @ (if opt_sigcopy opts then s_data (p_in p) else []) @ (if opt_sigappend opts then buf else []) \<and>
    (\<not> opt_sigappend opts \<longrightarrow>
      (if opt_sigfile opts \<noteq> None then f_data (p_sig p') = buf @ sig_end opts
       else f_data (p_err p') = f_data (p_err p) @ buf @ sig_end opts)) \<and>
    (\<forall>r sig. reads_ok (p_in r) \<and> writes_ok (p_out r) \<and> delivered opts (s_data (p_in p)) buf sig r \<longrightarrow>
      (\<exists>r'. verify_with L opts cp pubkey sig r = Inr (Some (0, r')) \<and>
        k_data (p_out r') = k_data (p_out r) @ (if opt_sigcopy opts then s_data (p_in p) else [])))"
proof -
  let ?line = "first_line (s_data s)" and ?m = "s_data (p_in p)"
  obtain pubkey q' where k: "print_public_key_with L opts cp q = Inr (Some (pubkey, q'))" "key_of L opts cp ?line pubkey"
    using key_printed [OF assms(1-4,8,9,5)] unfolding assms(12) by blast
  obtain p' buf where b: "sign_with L opts cp p = Inr (Some p')" "length buf = sig_len opts cp"
    "signed L cp ?line ?m (sig_form opts) buf"
    "\<not> opt_sigbin opts \<and> opt_format opts \<noteq> DF_BIN \<longrightarrow> set buf \<inter> {0, 10, 13, 32} = {}"
    "k_data (p_out p') = k_data (p_out p) @ (if opt_sigcopy opts then ?m else []) @ (if opt_sigappend opts then buf else [])"
    "\<not> opt_sigappend opts \<longrightarrow>
      (if opt_sigfile opts \<noteq> None then f_data (p_sig p') = buf @ sig_end opts
       else f_data (p_err p') = f_data (p_err p) @ buf @ sig_end opts)"
    using sign_ok [OF assms(1-3,5,10,11,13,14,17,15,16,7)] by blast
  have "\<exists>r'. verify_with L opts cp pubkey sig r = Inr (Some (0, r')) \<and>
        k_data (p_out r') = k_data (p_out r) @ (if opt_sigcopy opts then ?m else [])"
    if "reads_ok (p_in r)" "writes_ok (p_out r)" "delivered opts ?m buf sig r" for r sig
    using verify_ok [OF assms(1) k(2) b(3,2) sig_len_pos [OF assms(2,3)] _ assms(6,7) that(3,1,2)] b(4) assms(4) by blast
  with k(1) b(1,5,6) show ?thesis by blast
qed

section \<open>Signcryption\<close>

lemma signcrypt_ok:
  assumes "lib_ok L" "base_ok (l_gcry L) (cp_dp cp_sig)" "base_ok (l_gcry L) (cp_dp cp_enc)"
    "lengths_ok (opt_format opts) cp_sig" "lengths_ok (opt_format opts) cp_enc" "\<not> opt_dblprompt opts"
    "key_of L opts cp_enc line pubkey" "p_pw p = Some s" "reads_ok s" "reads_ok (p_in p)" "writes_ok (p_out p)"
    "p_rnd p \<le> k" "usable cp_enc (l_rnd L k)" "signable L cp_sig (first_line (s_data s)) (s_data (p_in p))"
  shows "\<exists>p' rbuf key buf. signcrypt_with L opts cp_sig cp_enc pubkey p = Inr (Some p') \<and> session L cp_enc line rbuf key \<and>
    length buf = sig_len_bin cp_sig \<and> signed L cp_sig (first_line (s_data s)) (s_data (p_in p)) DF_BIN buf \<and>
    k_data (p_out p') = k_data (p_out p) @ rbuf @ sealed L key (s_data (p_in p) @ buf)"
proof -
  let ?g = "l_gcry L" and ?c = "l_cipher L" and ?h = "l_digests L" and ?line = "first_line (s_data s)" and ?m = "s_data (p_in p)"
  obtain key R j rbuf where s: "ECIES_encryption ?g ?h (public_point L cp_enc line) cp_enc (l_rnd L) (p_rnd p) = Inr (key, R, j)"
    "compress_to_string ?g DF_BIN R cp_enc = Inr rbuf" "session L cp_enc line rbuf key"
    using session_starts [OF assms(1,3,5,12,13)] by blast
  obtain sig buf where sig: "ECDSA_sign ?g ?c ?h (l_mem L) (d_sha512 ?h ?m) (secret L cp_sig ?line) cp_sig = Inr sig"
    "serialize_mpi ?g (sig_len_bin cp_sig) DF_BIN sig = Inr buf" "length buf = sig_len_bin cp_sig"
    "signed L cp_sig ?line ?m DF_BIN buf"
    using signature_bytes [OF assms(1,2) _ assms(14), of "opts\<lparr>opt_sigbin := True\<rparr>"] assms(4) by auto
  obtain pw where pw: "private_key L opts cp_sig p = Inr (Some (secret L cp_sig ?line, p\<lparr>p_pw := Some pw\<rparr>))"
    using private_key_ok [OF assms(1,8,9,6)] by blast
  obtain ac where ac: "aes256ctr_init ?c key (l_mem L) = Some ac" "at_pos ?c (take 32 key) ac 0"
    using init_at_pos [OF lib_okD(2) [OF assms(1)]] by blast
  obtain o1 where o1: "write_block rbuf (p_out p) = Some o1" "k_data o1 = k_data (p_out p) @ rbuf" "writes_ok o1"
    using write_block_ok [OF assms(11)] by blast
  obtain src o2 ac' where e: "encryption_loop ?c (p_in p) o1 ac (Some []) None = Inr (Some (src, o2, ac', Some ?m, None))"
    "k_data o2 = k_data o1 @ sealed L key ?m" "writes_ok o2" "at_pos ?c (take 32 key) ac' (length ?m)"
    using encryption_loop_ok [OF lib_okD(2) [OF assms(1)] assms(10) o1(3) ac(2), of "Some []" None]
    by (auto simp: Let_def md_write_def sealed_def)
  obtain ac'' where tl: "aes256ctr_enc ?c ac' buf = Inr (xor_bytes buf (stream ?c (take 32 key) (length ?m) (length buf)), ac'')"
    using enc_stream [OF lib_okD(2) [OF assms(1)] e(4)] by blast
  obtain o3 where o3: "write_block (xor_bytes buf (stream ?c (take 32 key) (length ?m) (length buf))) o2 = Some o3"
    "k_data o3 = k_data o2 @ xor_bytes buf (stream ?c (take 32 key) (length ?m) (length buf))"
    using write_block_ok [OF e(3)] by blast
  have "\<exists>p'. signcrypt_with L opts cp_sig cp_enc pubkey p = Inr (Some p') \<and>
      k_data (p_out p') = k_data (p_out p) @ rbuf @ sealed L key (?m @ buf)"
    using assms(7) pw s(1,2) ac(1) o1(1,2) e(1,2) sig(1,2) tl o3 lib_okD(4) [OF assms(1)]
    by (simp add: signcrypt_with_def Let_def key_of_def sealed_append)
  with s(3) sig(3,4) show ?thesis by blast
qed

lemma veridec_ok:
  assumes "lib_ok L" "\<not> opt_dblprompt opts" "key_of L opts cp_sig line pubkey" "session L cp_enc (first_line (s_data s)) rbuf key"
    "signed L cp_sig line m DF_BIN buf" "length buf = sig_len_bin cp_sig" "sig_len_bin cp_sig < COPYBUF_SIZE"
    "p_pw r = Some s" "reads_ok s" "reads_ok (p_in r)" "writes_ok (p_out r)" "s_data (p_in r) = rbuf @ sealed L key (m @ buf)"
  shows "\<exists>r'. veridec_with L opts cp_enc cp_sig pubkey r = Inr (Some (0, r')) \<and> k_data (p_out r') = k_data (p_out r) @ m"
proof -
  let ?g = "l_gcry L" and ?c = "l_cipher L" and ?h = "l_digests L"
  define tail where "tail = xor_bytes buf (stream ?c (take 32 key) (length m) (length buf))"
  obtain R where R: "decompress_from_string ?g rbuf DF_BIN cp_enc = Inr (Some R)"
    "ECIES_decryption ?g ?h R (secret L cp_enc (first_line (s_data s))) cp_enc = Inr (Some key)" "length rbuf = pk_len_bin cp_enc"
    using assms(4) by (auto simp: session_def)
  obtain sig where sig: "deserialize_mpi ?g DF_BIN buf = Inr (Some sig)"
    "ECDSA_verify ?g (d_sha512 ?h m) (public_point L cp_sig line) sig cp_sig = Inr True"
    using assms(5) by (auto simp: signed_def)
  obtain pw where pw: "private_key L opts cp_enc r = Inr (Some (secret L cp_enc (first_line (s_data s)), r\<lparr>p_pw := Some pw\<rparr>))"
    using private_key_ok [OF assms(1,8,9,2)] by blast
  obtain s1 where s1: "read_block (pk_len_bin cp_enc) (p_in r) [] = Some (Some rbuf, s1)" "s_data s1 = sealed L key m @ tail" "reads_ok s1"
    using read_head [OF assms(10,12) R(3)] unfolding sealed_append tail_def by blast
  obtain ac where ac: "aes256ctr_init ?c key (l_mem L) = Some ac" "at_pos ?c (take 32 key) ac 0"
    using init_at_pos [OF lib_okD(2) [OF assms(1)]] by blast
  have len: "length tail = sig_len_bin cp_sig" by (simp add: tail_def assms(6))
  obtain s2 k2 ac2 where l: "decryption_loop ?c s1 (p_out r) ac None (Some []) (sig_len_bin cp_sig) =
      Inr (Some (s2, k2, ac2, None, Some m, tail))" "k_data k2 = k_data (p_out r) @ m" "at_pos ?c (take 32 key) ac2 (length m)"
    using decryption_loop_ok [OF lib_okD(2) [OF assms(1)] assms(7) s1(3) assms(11) ac(2) s1(2) len, of None "Some []"]
    by (auto simp: Let_def md_write_def unsealed)
  obtain ac3 where tl: "aes256ctr_dec ?c ac2 tail = Inr (buf, ac3)"
    using enc_stream [OF lib_okD(2) [OF assms(1)] l(3), of tail] by (auto simp: tail_def xor_bytes_twice)
  show ?thesis
    using assms(3) pw s1(1) R(1,2) ac(1) l(1,2) tl sig lib_okD(4) [OF assms(1)]
    by (simp add: veridec_with_def Let_def key_of_def)
qed

text \<open>C34. Signcryption. Two users print their public keys, possibly on different curves; the first
  signcrypts a message for the second, who gets the message back with the verdict that it was
  signed by the first, however reads and writes are cut on either side.\<close>

theorem signcrypt_veridec_roundtrip:
  assumes "lib_ok L" "base_ok (l_gcry L) (cp_dp cp_sig)" "base_ok (l_gcry L) (cp_dp cp_enc)"
    "lengths_ok (opt_format opts) cp_sig" "lengths_ok (opt_format opts) cp_enc" "opt_format opts \<noteq> DF_BIN"
    "\<not> opt_dblprompt opts" "sig_len_bin cp_sig < COPYBUF_SIZE" "p_pw p = Some s" "reads_ok s" "p_pw q = Some t" "reads_ok t"
    "reads_ok (p_in p)" "writes_ok (p_out p)" "p_rnd p \<le> k" "usable cp_enc (l_rnd L k)"
    "signable L cp_sig (first_line (s_data s)) (s_data (p_in p))"
  shows "\<exists>pk_sig pk_enc p1 q1 p' text.
    print_public_key_with L opts cp_sig p = Inr (Some (pk_sig, p1)) \<and>
    print_public_key_with L opts cp_enc q = Inr (Some (pk_enc, q1)) \<and>
    signcrypt_with L opts cp_sig cp_enc pk_enc p = Inr (Some p') \<and> k_data (p_out p') = k_data (p_out p) @ text \<and>
    (\<forall>r. reads_ok (p_in r) \<and> writes_ok (p_out r) \<and> s_data (p_in r) = text \<and> p_pw r = Some t \<longrightarrow>
      (\<exists>r'. veridec_with L opts cp_enc cp_sig pk_sig r = Inr (Some (0, r')) \<and>
        k_data (p_out r') = k_data (p_out r) @ s_data (p_in p)))"
proof -
  obtain pk_sig p1 where S: "print_public_key_with L opts cp_sig p = Inr (Some (pk_sig, p1))"
    "key_of L opts cp_sig (first_line (s_data s)) pk_sig"
    using key_printed [OF assms(1,2,4,6,9,10,7)] by blast
  obtain pk_enc q1 where E: "print_public_key_with L opts cp_enc q = Inr (Some (pk_enc, q1))"
    "key_of L opts cp_enc (first_line (s_data t)) pk_enc"
    using key_printed [OF assms(1,3,5,6,11,12,7)] by blast
  obtain p' rbuf key buf where c: "signcrypt_with L opts cp_sig cp_enc pk_enc p = Inr (Some p')"
    "session L cp_enc (first_line (s_data t)) rbuf key" "length buf = sig_len_bin cp_sig"
    "signed L cp_sig (first_line (s_data s)) (s_data (p_in p)) DF_BIN buf"
    "k_data (p_out p') = k_data (p_out p) @ rbuf @ sealed L key (s_data (p_in p) @ buf)"
    using signcrypt_ok [OF assms(1-5,7) E(2) assms(9,10,13-17)] by blast
  have "\<exists>r'. veridec_with L opts cp_enc cp_sig pk_sig r = Inr (Some (0, r')) \<and> k_data (p_out r') = k_data (p_out r) @ s_data (p_in p)"
    if "reads_ok (p_in r)" "writes_ok (p_out r)" "s_data (p_in r) = rbuf @ sealed L key (s_data (p_in p) @ buf)" "p_pw r = Some t" for r
    by (rule veridec_ok [OF assms(1,7) S(2) c(2,4,3) assms(8) that(4) assms(12) that(1-3)])
  with S(1) E(1) c(1,5) show ?thesis by blast
qed

section \<open>Key agreement\<close>

text \<open>The keys that are shown fit their length.\<close>

definition dh_lengths_ok :: "disp_format \<Rightarrow> curve_params \<Rightarrow> bool" where
  "dh_lengths_ok df cp \<longleftrightarrow> dh_len_bin cp \<le> 32 \<and> 256 ^ dh_len_bin cp \<le> radix df ^ dh_len_compact cp"

lemma key_text_total:
  assumes "gcry_ok (l_gcry L)" "dh_lengths_ok (opt_format opts) cp"
  shows "\<exists>t. key_text L opts cp keybuf = Inr t"
proof -
  let ?bs = "take (dh_len_bin cp) keybuf"
  have e: "deserialize_mpi (l_gcry L) DF_BIN ?bs = Inr (Some (int (be_val ?bs)))"
    using assms(1) by (simp add: deserialize_mpi_def gcry_okD(7))
  have "int (be_val ?bs) < int (256 ^ length ?bs)"
    using be_val_less [of ?bs] by (simp only: of_nat_less_iff)
  also have "\<dots> \<le> 256 ^ dh_len_bin cp"
    by (simp add: power_increasing)
  also have "\<dots> \<le> radix (opt_format opts) ^ dh_len_compact cp"
    using assms(2) by (simp add: dh_lengths_ok_def)
  finally obtain t where "serialize_mpi (l_gcry L) (dh_len_compact cp) (opt_format opts) (int (be_val ?bs)) = Inr t"
    using serialize_deserialize [OF assms(1) of_nat_0_le_iff] by blast
  with e show ?thesis by (auto simp: key_text_def)
qed

lemma key_text_rnd: "key_text (L\<lparr>l_rnd := rnd\<rparr>) opts cp keybuf = key_text L opts cp keybuf"
proof -
  have "l_gcry (L\<lparr>l_rnd := rnd\<rparr>) = l_gcry L" by simp
  then show ?thesis unfolding key_text_def by (rule ssubst) (rule refl)
qed

lemma dh_side:
  assumes "lib_ok L" "base_ok (l_gcry L) (cp_dp cp)" "lengths_ok (opt_format opts) cp" "dh_lengths_ok (opt_format opts) cp"
    "opt_format opts \<noteq> DF_BIN" "n \<in> {0<..<ord (cp_dp cp)}"
    "compress_to_string (l_gcry L) (opt_format opts) (multiple (l_gcry L) (cp_dp cp) n) cp = Inr keyB"
    "DH_step1 (l_gcry L) cp rnd (p_rnd p) = Inr (a, A, j)" "compress_to_string (l_gcry L) (opt_format opts) A cp = Inr keyA"
    "DH_step2 (l_gcry L) (l_digests L) (multiple (l_gcry L) (cp_dp cp) n) a cp = Inr (Some key)"
    "key_text L opts cp key = Inr k1" "key_text L opts cp (drop 32 key) = Inr k2"
    "f_ok (p_stdin p)" "f_data (p_stdin p) = keyB @ 10 # rest"
  shows "dh_with (L\<lparr>l_rnd := rnd\<rparr>) opts cp p = Inr (Some (keyA, k1, k2, p\<lparr>p_rnd := j\<rparr>))"
proof -
  let ?B = "multiple (l_gcry L) (cp_dp cp) n"
  note g = lib_okD(1) [OF assms(1)]
  have c: "curve_point (cp_dp cp) ?B" "\<not> point_is_zero ?B"
    using multiple_curve [OF g assms(2)] base_okD(8) [OF assms(2)] assms(6) by simp_all
  obtain keyB' where b: "compress_to_string (l_gcry L) (opt_format opts) ?B cp = Inr keyB'" "length keyB' = pk_len_compact cp"
    "decompress_from_string (l_gcry L) (keyB' @ [0]) (opt_format opts) cp = Inr (Some ?B)"
    using compress [OF g base_okD(1) [OF assms(2)] c assms(3) disjI1 [OF refl], of "[]"] assms(5) by auto
  have "set keyB \<inter> {0, 10, 13, 32} = {}"
    using compress_chars [OF g assms(5,7)] c(1) curve_okD(2) [OF base_okD(1) [OF assms(2)]]
    by (simp add: curve_point_def in_field_def)
  then have "strcspn [13, 10] (fgets_line (pk_len_compact cp + 2) (keyB @ 10 # rest)) = keyB"
    using b(1,2) assms(7) by (intro line_read) auto
  then show ?thesis
    using assms(4,7-14) b by (simp add: dh_with_def Let_def dh_lengths_ok_def key_text_rnd)
qed

text \<open>C35. Key agreement. Two users run the command, each with random numbers of their own that reach a
  usable one, and each types the key the other one is shown: both are shown the same
  established key and the same verification key.\<close>

theorem dh_keys_agree:
  assumes "lib_ok L" "base_ok (l_gcry L) (cp_dp cp)" "lengths_ok (opt_format opts) cp" "dh_lengths_ok (opt_format opts) cp"
    "opt_format opts \<noteq> DF_BIN" "p_rnd p \<le> i" "usable cp (rnd i)" "p_rnd q \<le> i'" "usable cp (rnd' i')"
  shows "\<exists>keyA keyB established verification p' q'. \<forall>restA restB. f_ok (p_stdin p) \<and> f_ok (p_stdin q) \<longrightarrow>
    dh_with (L\<lparr>l_rnd := rnd\<rparr>) opts cp (p\<lparr>p_stdin := (p_stdin p)\<lparr>f_data := keyB @ 10 # restB\<rparr>\<rparr>) =
      Inr (Some (keyA, established, verification, p' restB)) \<and>
    dh_with (L\<lparr>l_rnd := rnd'\<rparr>) opts cp (q\<lparr>p_stdin := (p_stdin q)\<lparr>f_data := keyA @ 10 # restA\<rparr>\<rparr>) =
      Inr (Some (keyB, established, verification, q' restA))"
proof -
  let ?g = "l_gcry L" and ?dp = "cp_dp cp" and ?f = "opt_format opts"
  note g = lib_okD(1) [OF assms(1)]
  obtain a n j b n' j' key where d: "n \<in> {0<..<ord ?dp}" "n' \<in> {0<..<ord ?dp}"
    "DH_step1 ?g cp rnd (p_rnd p) = Inr (a, multiple ?g ?dp n, j)" "DH_step1 ?g cp rnd' (p_rnd q) = Inr (b, multiple ?g ?dp n', j')"
    "DH_step2 ?g (l_digests L) (multiple ?g ?dp n') a cp = Inr (Some key)"
    "DH_step2 ?g (l_digests L) (multiple ?g ?dp n) b cp = Inr (Some key)"
    using dh [where rnd = rnd and rnd' = rnd' and k = i and k' = i', OF g assms(2,3,6-9), of "l_digests L"] by blast
  have "\<exists>t. compress_to_string ?g ?f (multiple ?g ?dp n) cp = Inr t" if "n \<in> {0<..<ord ?dp}" for n
    using compress [OF g base_okD(1) [OF assms(2)] multiple_curve [OF g assms(2)] _ assms(3) disjI1 [OF refl], of n "[]"]
      base_okD(8) [OF assms(2), of n] that by auto
  then obtain keyA keyB where c: "compress_to_string ?g ?f (multiple ?g ?dp n) cp = Inr keyA"
    "compress_to_string ?g ?f (multiple ?g ?dp n') cp = Inr keyB"
    using d(1,2) by blast
  obtain k1 k2 where k: "key_text L opts cp key = Inr k1" "key_text L opts cp (drop 32 key) = Inr k2"
    using key_text_total [OF g assms(4)] by blast
  define p' where "p' rest = p\<lparr>p_stdin := (p_stdin p)\<lparr>f_data := keyB @ 10 # rest\<rparr>\<rparr>" for rest
  define q' where "q' rest = q\<lparr>p_stdin := (p_stdin q)\<lparr>f_data := keyA @ 10 # rest\<rparr>\<rparr>" for rest
  have A: "dh_with (L\<lparr>l_rnd := rnd\<rparr>) opts cp (p' rest) = Inr (Some (keyA, k1, k2, (p' rest)\<lparr>p_rnd := j\<rparr>))"
    if "f_ok (p_stdin p)" for rest
    by (rule dh_side [OF assms(1-5) d(2) c(2) _ c(1) d(5) k]) (simp_all add: p'_def d(3) that)
  have B: "dh_with (L\<lparr>l_rnd := rnd'\<rparr>) opts cp (q' rest) = Inr (Some (keyB, k1, k2, (q' rest)\<lparr>p_rnd := j'\<rparr>))"
    if "f_ok (p_stdin q)" for rest
    by (rule dh_side [OF assms(1-5) d(1) c(1) _ c(2) d(6) k]) (simp_all add: q'_def d(4) that)
  show ?thesis
    by (rule exI [of _ keyA], rule exI [of _ keyB], rule exI [of _ k1], rule exI [of _ k2],
        rule exI [of _ "\<lambda>rest. (p' rest)\<lparr>p_rnd := j\<rparr>"], rule exI [of _ "\<lambda>rest. (q' rest)\<lparr>p_rnd := j'\<rparr>"]) (simp add: A B flip: p'_def q'_def)
qed

end
