(* ===== verification/Toy_Lib.thy ===== *)
theory Toy_Lib
  imports Seccure_Sign Toy_Curve
begin

text \<open>
  The theorems on the streams and the commands of \<^verbatim>\<open>seccure\<close> applied to the curve, cipher and digests
  of \<open>Toy_Curve\<close>.
\<close>

definition toy_lib :: lib where
  "toy_lib = \<lparr>l_gcry = int_gcry, l_cipher = toy_cipher, l_digests = toy_digests, l_mem = [], l_rnd = \<lambda>i. 1\<rparr>"

definition toy_options :: options where
  "toy_options =
     \<lparr>opt_sigcopy = False, opt_sigbin = False, opt_sigappend = False, opt_dblprompt = False, opt_maclen = - 1,
      opt_format = DF_BASE36, opt_curve = None, opt_curve2 = None, opt_sigfile = None\<rparr>"

definition toy_file :: "byte list \<Rightarrow> stdfile" where
  "toy_file bs = \<lparr>f_open = True, f_ok = True, f_close = True, f_data = bs\<rparr>"

text \<open>A process: its passphrase, its input, how its reads are cut.\<close>

definition toy_proc :: "byte list \<Rightarrow> byte list \<Rightarrow> proc" where
  "toy_proc pw inp =
     \<lparr>p_in = \<lparr>s_data = inp, s_reads = [Some 0, Some 2]\<rparr>, p_out = \<lparr>k_data = [], k_writes = [Some 1]\<rparr>,
      p_pw = Some \<lparr>s_data = pw, s_reads = []\<rparr>, p_tty = True, p_rnd = 0,
      p_sig = toy_file [], p_err = toy_file [], p_stdin = toy_file []\<rparr>"

lemma toy_lib_simps [simp]:
  "l_gcry toy_lib = int_gcry" "l_cipher toy_lib = toy_cipher" "l_digests toy_lib = toy_digests" "l_rnd toy_lib = (\<lambda>i. 1)"
  by (simp_all add: toy_lib_def)

lemma toy_lib_ok: "lib_ok toy_lib"
  using int_gcry_ok toy_cipher_ok by (simp add: lib_ok_def digests_ok_def toy_digests_def)

lemma toy_streams_ok:
  "reads_ok (p_in (toy_proc pw inp))" "writes_ok (p_out (toy_proc pw inp))"
  "p_pw (toy_proc pw inp) = Some \<lparr>s_data = pw, s_reads = []\<rparr>" "reads_ok \<lparr>s_data = pw, s_reads = []\<rparr>"
  by (simp_all add: toy_proc_def reads_ok_def writes_ok_def)

lemma toy_options_ok:
  "lengths_ok (opt_format toy_options) toy_params" "opt_format toy_options \<noteq> DF_BIN" "\<not> opt_dblprompt toy_options"
  "mac_len toy_options \<le> 32"
  using toy_lengths_ok by (simp_all add: toy_options_def mac_len_def)

lemma toy_base_ok_lib: "base_ok (l_gcry toy_lib) (cp_dp toy_params)"
  using toy_base_ok by simp

lemma toy_usable_lib: "usable toy_params (l_rnd toy_lib 0)"
  using toy_usable by simp

lemma toy_rnd: "p_rnd (toy_proc pw inp) = 0"
  by (simp add: toy_proc_def)

lemma encrypt_decrypt_roundtrip_witness:
  "\<exists>pubkey q' p' ct.
    print_public_key_with toy_lib toy_options toy_params (toy_proc [104, 105, 10] []) = Inr (Some (pubkey, q')) \<and>
    encrypt_with toy_lib toy_options toy_params pubkey (toy_proc [] [1, 2, 3]) = Inr (Some p') \<and>
    k_data (p_out p') = ct \<and>
    (\<exists>r'. decrypt_with toy_lib toy_options toy_params (toy_proc [104, 13, 105, 10, 0] ct) = Inr (Some (0, r')) \<and>
      k_data (p_out r') = [1, 2, 3])"
proof -
  let ?q = "toy_proc [104, 105, 10] []" and ?p = "toy_proc [] [1, 2, 3]"
  obtain pubkey q' p' ct where t:
    "print_public_key_with toy_lib toy_options toy_params ?q = Inr (Some (pubkey, q'))"
    "encrypt_with toy_lib toy_options toy_params pubkey ?p = Inr (Some p')" "k_data (p_out p') = k_data (p_out ?p) @ ct"
    "\<And>r s'. reads_ok (p_in r) \<and> writes_ok (p_out r) \<and> s_data (p_in r) = ct \<and> p_pw r = Some s' \<and> reads_ok s' \<and>
        first_line (s_data s') = first_line [104, 105, 10] \<Longrightarrow>
      \<exists>r'. decrypt_with toy_lib toy_options toy_params r = Inr (Some (0, r')) \<and>
        k_data (p_out r') = k_data (p_out r) @ s_data (p_in ?p)"
    using encrypt_decrypt_roundtrip [where p = ?p and q = ?q and k = 0, OF toy_lib_ok toy_base_ok_lib
        toy_options_ok(1,2,3,4) toy_streams_ok(3,4,1,2) _ toy_usable_lib]
    by (auto simp: toy_rnd)
  have "first_line [104, 13, 105, 10, 0] = first_line [104, 105, 10]"
    by (simp add: first_line_def)
  then have "\<exists>r'. decrypt_with toy_lib toy_options toy_params (toy_proc [104, 13, 105, 10, 0] ct) = Inr (Some (0, r')) \<and>
        k_data (p_out r') = k_data (p_out (toy_proc [104, 13, 105, 10, 0] ct)) @ s_data (p_in ?p)"
    using toy_streams_ok
    by (intro t(4) [where s' = "\<lparr>s_data = [104, 13, 105, 10, 0], s_reads = []\<rparr>"]) (simp add: toy_proc_def)
  with t(1-3) show ?thesis by (auto simp: toy_proc_def)
qed

lemma toy_signable: "signable toy_lib toy_params line (0 # m)"
proof -
  have "secret toy_lib toy_params line = 1 \<or> secret toy_lib toy_params line = 2"
    using secret_range [OF toy_base_ok_lib, of toy_lib line] by auto
  moreover have "d_sha512 toy_digests (0 # m) = replicate 64 0"
    by (simp add: toy_digests_def)
  ultimately show ?thesis
    unfolding signable_def Let_def toy_lib_simps using toy_round by metis
qed

lemma toy_files_ok: "usable_file (p_sig (toy_proc pw inp))" "f_ok (p_err (toy_proc pw inp))"
  by (simp_all add: toy_proc_def toy_file_def usable_file_def)

lemma toy_fields:
  "k_data (p_out (toy_proc pw inp)) = []" "s_data (p_in (toy_proc pw inp)) = inp" "f_data (p_err (toy_proc pw inp)) = []"
  by (simp_all add: toy_proc_def toy_file_def)

abbreviation sign_options :: options where
  "sign_options \<equiv> toy_options\<lparr>opt_sigappend := True, opt_sigcopy := True\<rparr>"

lemma signatures_verify_witness:
  "\<exists>pubkey q' p' buf.
    print_public_key_with toy_lib sign_options toy_params (toy_proc [104, 105] []) = Inr (Some (pubkey, q')) \<and>
    sign_with toy_lib sign_options toy_params (toy_proc [104, 105] [0, 5]) = Inr (Some p') \<and>
    k_data (p_out p') = [0, 5] @ buf \<and>
    (\<exists>r'. verify_with toy_lib sign_options toy_params pubkey None (toy_proc [] ([0, 5] @ buf)) = Inr (Some (0, r')) \<and>
      k_data (p_out r') = [0, 5])"
proof -
  let ?q = "toy_proc [104, 105] []" and ?p = "toy_proc [104, 105] [0, 5]"
  have o: "lengths_ok (opt_format sign_options) toy_params" "opt_format sign_options \<noteq> DF_BIN" "\<not> opt_dblprompt sign_options"
    "sig_len sign_options toy_params < COPYBUF_SIZE" "opt_sigfile sign_options = None"
    using toy_options_ok by (simp_all add: toy_options_def toy_params_def)
  have s: "signable toy_lib toy_params (first_line (s_data \<lparr>s_data = [104, 105], s_reads = []\<rparr>)) (s_data (p_in ?p))"
    unfolding toy_fields by (rule toy_signable)
  obtain pubkey q' p' buf where t:
    "print_public_key_with toy_lib sign_options toy_params ?q = Inr (Some (pubkey, q'))"
    "sign_with toy_lib sign_options toy_params ?p = Inr (Some p')"
    "k_data (p_out p') = [0, 5] @ buf"
    "\<And>r sig. reads_ok (p_in r) \<and> writes_ok (p_out r) \<and> delivered sign_options [0, 5] buf sig r \<Longrightarrow>
      \<exists>r'. verify_with toy_lib sign_options toy_params pubkey sig r = Inr (Some (0, r')) \<and>
        k_data (p_out r') = k_data (p_out r) @ [0, 5]"
    using signatures_verify [where p = ?p and q = ?q, OF toy_lib_ok toy_base_ok_lib o toy_streams_ok(3,4) toy_streams_ok(3,4) refl
        toy_streams_ok(1,2) toy_files_ok s]
    by (auto simp: toy_fields)
  have "delivered sign_options [0, 5] buf None (toy_proc [] ([0, 5] @ buf))"
    by (simp add: delivered_def toy_fields)
  with t toy_streams_ok show ?thesis by (metis append_Nil toy_fields(1))
qed

lemma signcrypt_veridec_roundtrip_witness:
  "\<exists>pk_sig pk_enc p1 q1 p' ct.
    print_public_key_with toy_lib toy_options toy_params (toy_proc [97] [0, 7]) = Inr (Some (pk_sig, p1)) \<and>
    print_public_key_with toy_lib toy_options toy_params (toy_proc [98] []) = Inr (Some (pk_enc, q1)) \<and>
    signcrypt_with toy_lib toy_options toy_params toy_params pk_enc (toy_proc [97] [0, 7]) = Inr (Some p') \<and>
    k_data (p_out p') = ct \<and>
    (\<exists>r'. veridec_with toy_lib toy_options toy_params toy_params pk_sig (toy_proc [98] ct) = Inr (Some (0, r')) \<and>
      k_data (p_out r') = [0, 7])"
proof -
  let ?q = "toy_proc [98] []" and ?p = "toy_proc [97] [0, 7]"
  have o: "sig_len_bin toy_params < COPYBUF_SIZE" by (simp add: toy_params_def)
  have s: "signable toy_lib toy_params (first_line (s_data \<lparr>s_data = [97], s_reads = []\<rparr>)) (s_data (p_in ?p))"
    unfolding toy_fields by (rule toy_signable)
  obtain pk_sig pk_enc p1 q1 p' ct where t:
    "print_public_key_with toy_lib toy_options toy_params ?p = Inr (Some (pk_sig, p1))"
    "print_public_key_with toy_lib toy_options toy_params ?q = Inr (Some (pk_enc, q1))"
    "signcrypt_with toy_lib toy_options toy_params toy_params pk_enc ?p = Inr (Some p')" "k_data (p_out p') = ct"
    "\<And>r. reads_ok (p_in r) \<and> writes_ok (p_out r) \<and> s_data (p_in r) = ct \<and> p_pw r = Some \<lparr>s_data = [98], s_reads = []\<rparr> \<Longrightarrow>
      \<exists>r'. veridec_with toy_lib toy_options toy_params toy_params pk_sig r = Inr (Some (0, r')) \<and>
        k_data (p_out r') = k_data (p_out r) @ [0, 7]"
    using signcrypt_veridec_roundtrip [where p = ?p and q = ?q and k = 0, OF toy_lib_ok toy_base_ok_lib toy_base_ok_lib
        toy_options_ok(1) toy_options_ok(1,2,3) o toy_streams_ok(3,4) toy_streams_ok(3,4) toy_streams_ok(1,2) _ toy_usable_lib s]
    by (auto simp: toy_fields toy_rnd)
  with toy_streams_ok show ?thesis by (metis append_Nil toy_fields(1,2))
qed

lemma dh_keys_agree_witness:
  "\<exists>keyA keyB established verification p' q'.
    dh_with (toy_lib\<lparr>l_rnd := int\<rparr>) toy_options toy_params
      (toy_proc [] []\<lparr>p_stdin := (p_stdin (toy_proc [] []))\<lparr>f_data := keyB @ [10]\<rparr>\<rparr>) =
      Inr (Some (keyA, established, verification, p')) \<and>
    dh_with (toy_lib\<lparr>l_rnd := \<lambda>i. 1\<rparr>) toy_options toy_params
      (toy_proc [] []\<lparr>p_stdin := (p_stdin (toy_proc [] []))\<lparr>f_data := keyA @ [10]\<rparr>\<rparr>) =
      Inr (Some (keyB, established, verification, q'))"
proof -
  have "dh_lengths_ok (opt_format toy_options) toy_params"
    by (simp add: dh_lengths_ok_def toy_options_def toy_params_def)
  moreover have "usable toy_params (int 1)" "usable toy_params ((\<lambda>i. 1) 0)"
    using toy_usable by simp_all
  moreover have "f_ok (p_stdin (toy_proc [] []))" by (simp add: toy_proc_def toy_file_def)
  ultimately show ?thesis
    using dh_keys_agree [where p = "toy_proc [] []" and q = "toy_proc [] []" and rnd = int and rnd' = "\<lambda>i. 1" and i = 1 and i' = 0,
        OF toy_lib_ok toy_base_ok_lib toy_options_ok(1)]
      toy_options_ok(2) by (fastforce simp: toy_rnd)
qed

end
