(* ===== verification/Spec2Isabelle.thy ===== *)
theory Spec2Isabelle
  imports Benc_Decode Dht_Refused Dht_Table_Props Dht_Search_Props Rbtree_Props Properties Process Seccure_Main Toy_Lib
begin

text \<open>
  \<^bold>\<open>dnsp2p in Isabelle/HOL\<close>

  The program is a node of a peer-to-peer name system: a DNS server whose answers are to come
  from a distributed hash table (DHT). This development models its own code, translated
  function by function from the C sources, and proves what it does.

  \<^bold>\<open>Parts and how they interact\<close>

  \<^verbatim>\<open>stub.c\<close> reads the options, sets up an engine (\<^verbatim>\<open>ffff.c\<close>) and runs the event loop. The engine opens
  the databases, reads the peers file (\<^verbatim>\<open>properties.c\<close>), opens the DHT socket and starts the DHT
  (\<^verbatim>\<open>dht/dht.c\<close>), the admin interface (\<^verbatim>\<open>admin.c\<close>) and the DNS server (\<^verbatim>\<open>dns.c\<close>). A DNS request checks and
  hashes its names (\<^verbatim>\<open>dns.c\<close>, \<^verbatim>\<open>crypto.c\<close>), creates an operation for each (\<^verbatim>\<open>ops.c\<close>, \<^verbatim>\<open>op_get.c\<close>) in a
  tree (\<^verbatim>\<open>rbtree.c\<close>) and starts a search in the DHT. Data on the DHT socket runs \<^verbatim>\<open>dht_periodic\<close>,
  which parses the datagram with the bencode library (\<^verbatim>\<open>libbenc\<close>), maintains its routing tables,
  drives the searches and reports their events to the operations.

  \<^bold>\<open>Theories and sources\<close>

  \<^item> \<open>Prelude\<close>: bytes, faults and results, machine integers, \<open>memcmp\<close>. \<open>Comparator\<close>, \<open>Keyed_Store\<close> and
    \<open>Runs\<close>: the interfaces (a comparison function; a keyed container, with removal; a machine
    with an invariant), as locales with their lemmas. Their interpretations are in the
    theories of the providers: \<open>bstr_order\<close> and \<open>dict_store\<close> (\<open>Benc_Encode\<close>), \<open>id_order\<close> (\<open>Dht_Id\<close>),
    \<open>pending_ops\<close> (\<open>Ops_Props\<close>), \<open>node\<close> (\<open>Dht_Node\<close>) and \<open>process\<close> (\<open>Process\<close>).
  \<^item> \<open>Benc\<close>, \<open>Benc_Encode\<close>, \<open>Benc_Decode\<close>: \<^verbatim>\<open>libbenc\<close>. Objects are a datatype, a buffer a memory with a
    base, a position and a length. Encoding and decoding are inverse; the encoder writes
    what the size function says; the decoder stays inside its buffer or crashes in one of
    the listed ways; a dictionary refines a finite map.
  \<^item> \<open>Dht_Id\<close>, \<open>Dht_State\<close>: identifiers as 160-bit numbers; the structures and static variables of
    \<^verbatim>\<open>dht/dht.c\<close> as the record \<open>dht\<close>, with the environment it calls and what it sends.
  \<^item> \<open>Dht_Table\<close> (operations), \<open>Dht_Shape\<close> and \<open>Dht_Routing\<close> (invariant), \<open>Dht_Table_Props\<close>: the routing
    table. Buckets partition the identifiers, splitting and learning keep the table
    well-formed, expiry removes exactly the dead nodes, \<open>new_node\<close> ends.
  \<^item> \<open>Dht_Search\<close>, \<open>Dht_Search_Props\<close>: searches and the closest nodes of a reply are the nearest of
    what was offered, nearest first; a search ends when its eight nearest have replied.
  \<^item> \<open>Dht_Store\<close>, \<open>Dht_Store_Props\<close>, \<open>Dht_Broken\<close>: the stored peers refine a map; tokens, rate control,
    blacklist.
  \<^item> \<open>Dht_Send\<close>: all messages the node writes, byte for byte; they fit and decode to what is meant.
  \<^item> \<open>Dht_Msg\<close>, \<open>Dht_Msg_Props\<close>, \<open>Dht_Refused\<close>: the parser of messages, what it accepts, and that it accepts
    none of the messages of this program, even cut at the NUL in their identifiers.
  \<^item> \<open>Dht_Run\<close>, \<open>Dht_Run_Props\<close>, \<open>Dht_Node\<close>, \<open>Dht_Inert\<close>: \<^verbatim>\<open>dht_init\<close>, \<^verbatim>\<open>dht_uninit\<close>, \<^verbatim>\<open>dht_periodic\<close> and the
    maintenance. The invariants hold in every state that operation reaches (\<open>node_step\<close>), a
    datagram has one of four effects, the time to sleep is exact; a node that knows nobody
    ends each of its searches at once and reports nothing.
  \<^item> \<open>Rbtree\<close>, \<open>Rbtree_Shape\<close>, \<open>Rbtree_Insert\<close>, \<open>Rbtree_Walk\<close>, \<open>Rbtree_Erase\<close>, \<open>Rbtree_Remove\<close>, \<open>Rbtree_Props\<close>:
    \<^verbatim>\<open>rbtree.c\<close> on a store of cells. The operations return and refine those on trees, seen
    through the path from a node to the root: insertion and removal keep the tree red-black
    and its order, and the walks visit the nodes in order.
  \<^item> \<open>Ops\<close>, \<open>Ops_Props\<close>: \<^verbatim>\<open>ops.c\<close> and \<^verbatim>\<open>op_get.c\<close> on that store and a heap of operations. The table of
    pending operations refines a finite map, and freeing it ends.
  \<^item> \<open>Dns\<close>, \<open>Dns_Props\<close>: \<^verbatim>\<open>dns.c\<close> and \<^verbatim>\<open>crypto.c\<close>: valid names, and what a request does.
  \<^item> \<open>Properties\<close>: \<^verbatim>\<open>properties.c\<close> on its line buffer: a well-formed file gives its entries.
  \<^item> \<open>Engine\<close>, \<open>Engine_Key\<close>, \<open>Engine_Props\<close>: \<^verbatim>\<open>ffff.c\<close>, \<^verbatim>\<open>admin.c\<close> and \<^verbatim>\<open>stub.c\<close>: the key the engine makes with
    the code of \<^verbatim>\<open>seccure\<close>, what start-up reports, what an event does, what shutdown releases. \<open>Primality\<close>
    proves the modulus of the curve prime, so that making the key never fails.
  \<^item> \<^verbatim>\<open>seccure\<close>, the elliptic-curve program the engine takes its key from. \<open>Gcrypt\<close>: the integers of
    libgcrypt as a record of functions with their documented laws, and an instance; \<open>Modular\<close>: the
    mathematics of prime moduli. \<open>Numtheory\<close> (\<^verbatim>\<open>numtheory.c\<close>): square roots, which end and are right.
    \<open>Serialize\<close> (\<^verbatim>\<open>serialize.c\<close>): numbers as digits and back. \<open>Ecc\<close>, \<open>Ecc_Props\<close> (\<^verbatim>\<open>ecc.c\<close>): points; the
    multiplication on Jacobian coordinates computes what the affine one does. \<open>Curves\<close>,
    \<open>Curves_Props\<close> (\<^verbatim>\<open>curves.c\<close>): the table of curves and its lengths. \<open>Aes256ctr\<close> (\<^verbatim>\<open>aes256ctr.c\<close>): the
    key stream. \<open>Protocol\<close>, \<open>Protocol_Props\<close> (\<^verbatim>\<open>protocol.c\<close>): signatures verify, both sides of an
    encryption or a key agreement get the same key. \<open>Seccure_Streams\<close>, \<open>Seccure\<close>, \<open>Seccure_Main\<close>
    (\<^verbatim>\<open>seccure.c\<close>): the loops on streams, the commands and \<^verbatim>\<open>main\<close>. \<open>Seccure_Props\<close>, \<open>Seccure_Sign\<close>: what one
    command writes the other reads, and two users agree on a key. \<open>Toy_Curve\<close> and \<open>Toy_Lib\<close>
    apply the theorems to a curve with three points.
  \<^item> \<open>Process\<close>: all of it together. From the start on, the callbacks in any order refine a short
    specification of the table of operations and the responses.

  \<^bold>\<open>Conventions\<close>

  A fault of C (a null pointer, a read outside an allocation, an overflow, a failed assertion)
  is a value: \<open>Inl\<close> of a result, \<open>None\<close> in the theories on the store of trees and operations, the
  field \<open>died\<close> in the state of the DHT. So a theorem that a function returns a value says that
  none of these happens. A linked list is a list and a pointer into it an index; the trees
  and the operations, whose nodes are shared and freed, are on an explicit store. Bytes are
  8-bit words, ports and transaction numbers 16-bit words; times and counters are integers
  where the code does not come near their bounds, and are checked or wrapped where it may
  (\<open>chk64\<close>, \<open>to_int32\<close>, \<open>mod 2 ^ 64\<close>).

  \<^bold>\<open>Fuel and termination\<close>

  Loops are recursive functions with a termination proof. The exceptions: \<open>bdec_mem\<close> takes as
  fuel the depth of calls and iterations, and it is shown there that \<open>bdec_fuel\<close> (from the
  length of the buffer) is enough; \<open>new_node\<close> calls itself, at most \<open>env_depth\<close> deep, the size of
  the stack, and it is shown that 161 is enough, as a bucket can be split 160
  times; the loops on the store are \<open>partial_function (option)\<close>, and each theorem about them says
  that they return. So are the loops of \<^verbatim>\<open>seccure\<close> whose end depends on numbers: \<open>mod_root\<close> returns
  for every odd prime, \<open>get_random_exponent\<close> and \<open>ECIES_encryption\<close> as soon as the random numbers
  give a usable one, \<open>ECDSA_sign\<close> when some exponent of its generator gives a signature.

  \<^bold>\<open>Parameters\<close>

  What is not code of the program is a parameter. The environment of the DHT (random numbers,
  the clock, allocation, \<open>sendto\<close>, \<open>recvfrom\<close>, values the code reads uninitialised) is in its state
  and its inputs; MD5 and SHA-1 are functions; the memory behind unterminated strings is an
  argument (\<open>heap\<close>); the allocator of operations is a function from what is allocated to an
  address; the results of the other calls to the system and to libraries are the fields of
  \<open>world\<close> and \<open>services\<close>. A callback of \<^verbatim>\<open>dht_periodic\<close> is told its events after the run that raises
  them, in their order: it changes nothing in the DHT.

  In \<^verbatim>\<open>seccure\<close> the integers of libgcrypt, the cipher, the digests, the random numbers, what \<^verbatim>\<open>getopt\<close>
  finds, the files, and how reads and writes on descriptors are cut are parameters; allocation in secure memory succeeds, and a number
  that is released is not used again.

  \<^bold>\<open>Not modelled\<close>

  \<^item> In \<^verbatim>\<open>seccure/seccure.c\<close>: the messages on the terminal and its settings while a passphrase is typed.
  \<^item> \<^verbatim>\<open>dht/dht-example.c\<close>, \<^verbatim>\<open>libbenc/bcopy.c\<close> and \<^verbatim>\<open>test\<close>: examples and tests. The file functions of
    \<^verbatim>\<open>libbenc/bencode.c\<close> are commented out in the source.
  \<^item> Output only: \<^verbatim>\<open>dht_dump_tables\<close>, the debug functions, \<^verbatim>\<open>f4_log\<close>, \<^verbatim>\<open>show_help\<close>.
  \<^item> The event loop of libevent, between two callbacks; the set-up of libgcrypt in \<^verbatim>\<open>main\<close>; options
    of sockets whose result is ignored (\<^verbatim>\<open>socket_v6_only\<close>).
\<close>

end
